(* ===== verification/Prelude.thy ===== *)
theory Prelude
  imports Main "HOL-Library.Word" "HOL-Library.Multiset"
begin

text \<open>
  Shared vocabulary of the development: Rust's \<open>Result\<close>, the checked and saturating integer
  operations on \<open>u64\<close>/\<open>usize\<close>, and the list lemmas the components use.
\<close>

named_theorems result_simps \<open>characterisations of successful \<open>Result\<close> chains\<close>
named_theorems checked_simps \<open>characterisations of checked machine arithmetic\<close>

section \<open>Results\<close>

text \<open>\<open>Result<'a, 'e>\<close>; the \<open>?\<close> operator and \<open>and_then\<close> are \<open>and_then\<close>.\<close>

datatype ('a, 'e) result = Ok (ok_val: 'a) | Err (err_val: 'e)

fun and_then :: "('a, 'e) result \<Rightarrow> ('a \<Rightarrow> ('b, 'e) result) \<Rightarrow> ('b, 'e) result" where
  "and_then (Ok x) f = f x"
| "and_then (Err e) f = Err e"

definition ensure :: "bool \<Rightarrow> 'e \<Rightarrow> (unit, 'e) result" where
  "ensure b e = (if b then Ok () else Err e)"

fun ok_or :: "'a option \<Rightarrow> 'e \<Rightarrow> ('a, 'e) result" where
  "ok_or (Some x) e = Ok x"
| "ok_or None e = Err e"

fun is_ok :: "('a, 'e) result \<Rightarrow> bool" where
  "is_ok (Ok x) = True"
| "is_ok (Err e) = False"

lemma and_then_Ok_iff [result_simps]:
  "and_then r f = Ok y \<longleftrightarrow> (\<exists>x. r = Ok x \<and> f x = Ok y)"
  by (cases r) auto

lemma and_then_Err_iff:
  "and_then r f = Err e \<longleftrightarrow> r = Err e \<or> (\<exists>x. r = Ok x \<and> f x = Err e)"
  by (cases r) auto

lemma ensure_Ok_iff [result_simps]: "ensure b e = Ok u \<longleftrightarrow> b"
  by (simp add: ensure_def)

lemma ensure_Err_iff: "ensure b e = Err e' \<longleftrightarrow> \<not> b \<and> e' = e"
  by (auto simp: ensure_def)

lemma ok_or_Ok_iff [result_simps]: "ok_or v e = Ok x \<longleftrightarrow> v = Some x"
  by (cases v) auto

lemma ok_or_Err_iff: "ok_or v e = Err e' \<longleftrightarrow> v = None \<and> e' = e"
  by (cases v) auto

lemma ensure_simps [simp]: "ensure True e = Ok ()" "ensure False e = Err e"
  by (simp_all add: ensure_def)

lemma is_ok_iff: "is_ok r \<longleftrightarrow> (\<exists>x. r = Ok x)"
  by (cases r) auto

lemma and_then_cong [fundef_cong]:
  "r = r' \<Longrightarrow> (\<And>x. r' = Ok x \<Longrightarrow> f x = g x) \<Longrightarrow> and_then r f = and_then r' g"
  by (cases r') auto

section \<open>Machine integers\<close>

type_synonym byte = "8 word"
type_synonym u64 = "64 word"

definition checked_add :: "'w::len word \<Rightarrow> 'w word \<Rightarrow> 'w word option" where
  "checked_add a b = (if unat a + unat b < 2 ^ LENGTH('w) then Some (a + b) else None)"

definition checked_mul :: "'w::len word \<Rightarrow> 'w word \<Rightarrow> 'w word option" where
  "checked_mul a b = (if unat a * unat b < 2 ^ LENGTH('w) then Some (a * b) else None)"

definition checked_sub :: "'w::len word \<Rightarrow> 'w word \<Rightarrow> 'w word option" where
  "checked_sub a b = (if unat b \<le> unat a then Some (a - b) else None)"

lemma checked_add_Some_iff [checked_simps]:
  "checked_add a (b :: 'w::len word) = Some c \<longleftrightarrow> unat c = unat a + unat b"
  unfolding checked_add_def
  by (metis (no_types, lifting) add.commute option.inject option.simps(3) unat_add_lem unsigned_less word_unat_eq_iff)

lemma checked_add_None_iff:
  "checked_add a (b :: 'w::len word) = None \<longleftrightarrow> 2 ^ LENGTH('w) \<le> unat a + unat b"
  by (simp add: checked_add_def not_less)

lemma checked_mul_Some_iff [checked_simps]:
  "checked_mul a (b :: 'w::len word) = Some c \<longleftrightarrow> unat c = unat a * unat b"
  unfolding checked_mul_def
  by (metis (no_types, lifting) option.inject option.simps(3) unat_mult_lem unsigned_less word_unat_eq_iff)

lemma checked_mul_None_iff:
  "checked_mul a (b :: 'w::len word) = None \<longleftrightarrow> 2 ^ LENGTH('w) \<le> unat a * unat b"
  by (simp add: checked_mul_def not_less)

lemma checked_sub_Some_iff [checked_simps]:
  "checked_sub a (b :: 'w::len word) = Some c \<longleftrightarrow> unat a = unat b + unat c"
  unfolding checked_sub_def
  by (auto simp: unat_sub word_le_nat_alt word_unat_eq_iff)

lemma checked_sub_None_iff:
  "checked_sub a (b :: 'w::len word) = None \<longleftrightarrow> unat a < unat b"
  by (simp add: checked_sub_def not_le)

lemma checked_add_ex:
  "unat a + unat b < 2 ^ LENGTH('w) \<Longrightarrow>
    \<exists>c. checked_add a (b :: 'w::len word) = Some c \<and> unat c = unat a + unat b"
  using checked_add_Some_iff [of a b "a + b"] by (auto simp: checked_add_def)

lemma checked_mul_ex:
  "unat a * unat b < 2 ^ LENGTH('w) \<Longrightarrow>
    \<exists>c. checked_mul a (b :: 'w::len word) = Some c \<and> unat c = unat a * unat b"
  using checked_mul_Some_iff [of a b "a * b"] by (auto simp: checked_mul_def)

lemma u64_bound: "unat (x :: u64) < 2 ^ 64"
  using unsigned_less [of x] by simp

text \<open>
  Lengths and offsets are natural numbers; \<open>u64\<close> and (on the 64-bit targets modelled here)
  \<open>usize\<close> arithmetic on them keeps Rust's bound explicitly.
\<close>

definition U64_MAX :: nat where
  "U64_MAX = 2 ^ 64 - 1"

definition cadd :: "nat \<Rightarrow> nat \<Rightarrow> nat option" where
  "cadd a b = (if a + b \<le> U64_MAX then Some (a + b) else None)"

definition csub :: "nat \<Rightarrow> nat \<Rightarrow> nat option" where
  "csub a b = (if b \<le> a then Some (a - b) else None)"

definition sat_add :: "nat \<Rightarrow> nat \<Rightarrow> nat" where
  "sat_add a b = min (a + b) U64_MAX"

definition sat_mul :: "nat \<Rightarrow> nat \<Rightarrow> nat" where
  "sat_mul a b = min (a * b) U64_MAX"

lemma cadd_Some_iff [checked_simps]: "cadd a b = Some c \<longleftrightarrow> c = a + b \<and> a + b \<le> U64_MAX"
  by (auto simp: cadd_def)

lemma cadd_None_iff: "cadd a b = None \<longleftrightarrow> U64_MAX < a + b"
  by (simp add: cadd_def not_le)

lemma csub_Some_iff [checked_simps]: "csub a b = Some c \<longleftrightarrow> a = b + c"
  by (auto simp: csub_def)

lemma csub_None_iff: "csub a b = None \<longleftrightarrow> a < b"
  by (simp add: csub_def not_le)

lemma U64_MAX_ge [simp]: "n < 2 ^ 64 \<Longrightarrow> n \<le> U64_MAX"
  by (simp add: U64_MAX_def)

lemma sat_mul_le_iff: "m < U64_MAX \<Longrightarrow> sat_mul a b \<le> m \<longleftrightarrow> a * b \<le> m"
  by (auto simp: sat_mul_def)

section \<open>Options\<close>

definition opt_filter :: "('a \<Rightarrow> bool) \<Rightarrow> 'a option \<Rightarrow> 'a option" where
  "opt_filter p v = (case v of Some x \<Rightarrow> if p x then Some x else None | None \<Rightarrow> None)"

lemma opt_filter_Some_iff [checked_simps]: "opt_filter p v = Some x \<longleftrightarrow> v = Some x \<and> p x"
  by (auto simp: opt_filter_def split: option.splits)

lemma opt_filter_simps [simp]:
  "opt_filter p None = None" "opt_filter p (Some x) = (if p x then Some x else None)"
  by (simp_all add: opt_filter_def)

lemma opt_filter_None_iff: "opt_filter p v = None \<longleftrightarrow> (\<forall>x. v = Some x \<longrightarrow> \<not> p x)"
  by (auto simp: opt_filter_def split: option.splits)

lemma bind_Some_iff [checked_simps]: "Option.bind v f = Some y \<longleftrightarrow> (\<exists>x. v = Some x \<and> f x = Some y)"
  by (cases v) auto

section \<open>Iterator selections\<close>

text \<open>\<open>Iterator::min_by_key\<close> keeps the first minimum, \<open>max_by_key\<close> the last maximum.\<close>

fun min_by_key :: "('a \<Rightarrow> 'k::linorder) \<Rightarrow> 'a list \<Rightarrow> 'a option" where
  "min_by_key key [] = None"
| "min_by_key key (x # xs) = Some (foldl (\<lambda>m y. if key y < key m then y else m) x xs)"

fun max_by_key :: "('a \<Rightarrow> 'k::linorder) \<Rightarrow> 'a list \<Rightarrow> 'a option" where
  "max_by_key key [] = None"
| "max_by_key key (x # xs) = Some (foldl (\<lambda>m y. if key m \<le> key y then y else m) x xs)"

lemma foldl_min_key:
  "foldl (\<lambda>m y. if key y < key m then y else m) x xs \<in> insert x (set xs) \<and>
   (\<forall>y \<in> insert x (set xs). key (foldl (\<lambda>m y. if key y < key m then y else m) x xs) \<le> (key y :: 'k::linorder))"
  by (induction xs arbitrary: x) (auto simp: not_less, force+)

lemma foldl_max_key:
  "foldl (\<lambda>m y. if key m \<le> key y then y else m) x xs \<in> insert x (set xs) \<and>
   (\<forall>y \<in> insert x (set xs). (key y :: 'k::linorder) \<le> key (foldl (\<lambda>m y. if key m \<le> key y then y else m) x xs))"
  by (induction xs arbitrary: x) (auto simp: not_le, force+)

lemma min_by_key_None_iff [simp]: "min_by_key key xs = None \<longleftrightarrow> xs = []"
  by (cases xs) auto

lemma max_by_key_None_iff [simp]: "max_by_key key xs = None \<longleftrightarrow> xs = []"
  by (cases xs) auto

lemma min_by_key_Some:
  assumes "min_by_key key xs = Some m"
  shows "m \<in> set xs \<and> (\<forall>y \<in> set xs. key m \<le> key y)"
  using assms foldl_min_key by (cases xs) fastforce+

lemma max_by_key_Some:
  assumes "max_by_key key xs = Some m"
  shows "m \<in> set xs \<and> (\<forall>y \<in> set xs. key y \<le> key m)"
  using assms foldl_max_key by (cases xs) fastforce+

end
