(* ===== verification/Text.thy ===== *)
theory Text
  imports Prelude "HOL-Library.Sublist"
begin

text \<open>
  Rust's \<open>char\<close> and \<open>str\<close>: a \<open>char\<close> is its Unicode scalar value, a \<open>str\<close> the list of its
  characters, and \<open>str::len\<close> counts the bytes of the UTF-8 encoding. The standard library
  functions the program calls on strings are here: \<open>from_utf8\<close>, \<open>trim\<close>, \<open>split\<close>, \<open>rsplit\<close>,
  \<open>strip_prefix\<close>, decimal and hexadecimal formatting.
\<close>

section \<open>Characters and their UTF-8 encoding\<close>

type_synonym uchar = nat
type_synonym ustr = "uchar list"

abbreviation lit :: "string \<Rightarrow> ustr" where
  "lit s \<equiv> map of_char s"

definition scalar :: "uchar \<Rightarrow> bool" where
  "scalar c \<longleftrightarrow> c < 0xD800 \<or> (0xE000 \<le> c \<and> c < 0x110000)"

definition len_utf8 :: "uchar \<Rightarrow> nat" where
  "len_utf8 c = (if c < 0x80 then 1 else if c < 0x800 then 2 else if c < 0x10000 then 3 else 4)"

definition blen :: "ustr \<Rightarrow> nat" where
  "blen s = sum_list (map len_utf8 s)"

definition enc_char :: "uchar \<Rightarrow> nat list" where
  "enc_char c =
     (if c < 0x80 then [c]
      else if c < 0x800 then [0xC0 + c div 64, 0x80 + c mod 64]
      else if c < 0x10000 then [0xE0 + c div 4096, 0x80 + c div 64 mod 64, 0x80 + c mod 64]
      else [0xF0 + c div 262144, 0x80 + c div 4096 mod 64, 0x80 + c div 64 mod 64, 0x80 + c mod 64])"

text \<open>\<open>str::bytes\<close>\<close>

definition str_bytes :: "ustr \<Rightarrow> nat list" where
  "str_bytes s = concat (map enc_char s)"

definition is_cont :: "nat \<Rightarrow> bool" where
  "is_cont b \<longleftrightarrow> 0x80 \<le> b \<and> b < 0xC0"

text \<open>
  \<open>std::str::from_utf8\<close> on byte values: overlong forms, surrogates and values above
  \<open>10FFFF\<close> are rejected.
\<close>

fun utf8_dec :: "nat list \<Rightarrow> ustr option" where
  "utf8_dec [] = Some []"
| "utf8_dec (b # bs) =
     (if b < 0x80 then map_option ((#) b) (utf8_dec bs)
      else if 0xC2 \<le> b \<and> b < 0xE0 then
        (case bs of
           c1 # r \<Rightarrow>
             if is_cont c1
             then map_option ((#) ((b - 0xC0) * 64 + (c1 - 0x80))) (utf8_dec r)
             else None
         | _ \<Rightarrow> None)
      else if 0xE0 \<le> b \<and> b < 0xF0 then
        (case bs of
           c1 # c2 # r \<Rightarrow>
             (let v = (b - 0xE0) * 4096 + (c1 - 0x80) * 64 + (c2 - 0x80)
              in if is_cont c1 \<and> is_cont c2 \<and> 0x800 \<le> v \<and> scalar v
                 then map_option ((#) v) (utf8_dec r) else None)
         | _ \<Rightarrow> None)
      else if 0xF0 \<le> b \<and> b < 0xF8 then
        (case bs of
           c1 # c2 # c3 # r \<Rightarrow>
             (let v = (b - 0xF0) * 262144 + (c1 - 0x80) * 4096 + (c2 - 0x80) * 64 + (c3 - 0x80)
              in if is_cont c1 \<and> is_cont c2 \<and> is_cont c3 \<and> 0x10000 \<le> v \<and> scalar v
                 then map_option ((#) v) (utf8_dec r) else None)
         | _ \<Rightarrow> None)
      else None)"

definition from_utf8 :: "byte list \<Rightarrow> ustr option" where
  "from_utf8 bs = utf8_dec (map unat bs)"

lemma len_utf8_pos [simp]: "0 < len_utf8 c"
  by (simp add: len_utf8_def)

lemma len_utf8_le: "len_utf8 c \<le> 4"
  by (simp add: len_utf8_def)

lemma length_enc_char [simp]: "length (enc_char c) = len_utf8 c"
  by (simp add: enc_char_def len_utf8_def)

lemma blen_Nil [simp]: "blen [] = 0"
  by (simp add: blen_def)

lemma blen_Cons [simp]: "blen (c # s) = len_utf8 c + blen s"
  by (simp add: blen_def)

lemma blen_append [simp]: "blen (s @ t) = blen s + blen t"
  by (simp add: blen_def)

lemma blen_0_iff [simp]: "blen s = 0 \<longleftrightarrow> s = []"
  by (cases s) (auto simp: len_utf8_def)

lemma length_le_blen: "length s \<le> blen s"
proof (induction s)
  case (Cons c s)
  then show ?case using len_utf8_pos [of c] by (simp del: len_utf8_pos)
qed simp

lemma length_str_bytes [simp]: "length (str_bytes s) = blen s"
  by (induction s) (simp_all add: str_bytes_def)

lemma str_bytes_simps [simp]:
  "str_bytes [] = []" "str_bytes (c # s) = enc_char c @ str_bytes s"
  "str_bytes (s @ t) = str_bytes s @ str_bytes t"
  by (simp_all add: str_bytes_def)

lemma enc_char_bytes: "scalar c \<Longrightarrow> b \<in> set (enc_char c) \<Longrightarrow> b < 256"
  by (auto simp: enc_char_def scalar_def split: if_splits)

text \<open>Base-64 digits of a scalar value, as the encoding reads and writes them.\<close>

lemma div_4096: "(c::nat) div 4096 = c div 64 div 64"
  by (simp add: div_mult2_eq [symmetric])

lemma div_262144: "(c::nat) div 262144 = c div 64 div 64 div 64"
  by (simp add: div_mult2_eq [symmetric])

lemma base64_join:
  fixes c :: nat
  assumes "q * 64 + r = c" "p * 64 + s = q"
  shows "c = p * 4096 + s * 64 + r"
  using assms by simp

lemma base64_3: "(c::nat) = c div 4096 * 4096 + c div 64 mod 64 * 64 + c mod 64"
  unfolding div_4096 by (rule base64_join) (rule div_mult_mod_eq)+

lemma base64_join4:
  fixes c :: nat
  assumes "c = q * 4096 + s * 64 + r" "p * 64 + t = q"
  shows "c = p * 262144 + t * 4096 + s * 64 + r"
  using assms by simp

lemma base64_4:
  "(c::nat) = c div 262144 * 262144 + c div 4096 mod 64 * 4096 + c div 64 mod 64 * 64 + c mod 64"
proof (rule base64_join4 [OF base64_3])
  show "c div 262144 * 64 + c div 4096 mod 64 = c div 4096"
    unfolding div_262144 div_4096 by (rule div_mult_mod_eq)
qed

lemma undo_base64_2:
  assumes "(e::nat) < 64"
  shows "(d * 64 + e) div 64 = d" "(d * 64 + e) mod 64 = e"
  using assms by simp_all

lemma undo_base64_3:
  assumes "(e::nat) < 64" "f < 64"
  shows "(d * 4096 + e * 64 + f) div 4096 = d" "(d * 4096 + e * 64 + f) div 64 mod 64 = e"
    "(d * 4096 + e * 64 + f) mod 64 = f"
proof -
  have *: "d * 4096 + e * 64 + f = (d * 64 + e) * 64 + f" by simp
  show "(d * 4096 + e * 64 + f) div 4096 = d" "(d * 4096 + e * 64 + f) div 64 mod 64 = e"
    "(d * 4096 + e * 64 + f) mod 64 = f"
    unfolding * div_4096 by (simp_all only: undo_base64_2 assms)
qed

lemma undo_base64_4:
  assumes "(e::nat) < 64" "f < 64" "g < 64"
  shows "(d * 262144 + e * 4096 + f * 64 + g) div 262144 = d"
    "(d * 262144 + e * 4096 + f * 64 + g) div 4096 mod 64 = e"
    "(d * 262144 + e * 4096 + f * 64 + g) div 64 mod 64 = f"
    "(d * 262144 + e * 4096 + f * 64 + g) mod 64 = g"
proof -
  have *: "d * 262144 + e * 4096 + f * 64 + g = ((d * 64 + e) * 64 + f) * 64 + g" by simp
  show "(d * 262144 + e * 4096 + f * 64 + g) div 262144 = d"
    "(d * 262144 + e * 4096 + f * 64 + g) div 4096 mod 64 = e"
    "(d * 262144 + e * 4096 + f * 64 + g) div 64 mod 64 = f"
    "(d * 262144 + e * 4096 + f * 64 + g) mod 64 = g"
    unfolding * div_4096 div_262144 by (simp_all only: undo_base64_2 assms)
qed

text \<open>Encoding and decoding are inverse to each other.\<close>

lemma utf8_dec_enc_char:
  assumes "scalar c"
  shows "utf8_dec (enc_char c @ bs) = map_option ((#) c) (utf8_dec bs)"
proof -
  consider "c < 0x80" | "0x80 \<le> c" "c < 0x800" | "0x800 \<le> c" "c < 0x10000"
    | "0x10000 \<le> c" "c < 0x110000"
    using assms unfolding scalar_def by linarith
  then show ?thesis
  proof cases
    case 1 then show ?thesis by (simp add: enc_char_def)
  next
    case 2
    define q r where "q = c div 64" and "r = c mod 64"
    have "c = q * 64 + r" "r < 64" "2 \<le> q" "q < 32"
      using 2 unfolding q_def r_def by (simp, simp, linarith, linarith)
    moreover have "enc_char c = [0xC0 + q, 0x80 + r]"
      using 2 by (simp add: enc_char_def q_def r_def)
    ultimately show ?thesis by (simp add: is_cont_def)
  next
    case 3
    define p q r where "p = c div 4096" and "q = c div 64 mod 64" and "r = c mod 64"
    have "c = p * 4096 + q * 64 + r" "r < 64" "q < 64" "p < 16"
      using 3 unfolding p_def q_def r_def by - (rule base64_3, simp, simp, linarith)
    moreover have "enc_char c = [0xE0 + p, 0x80 + q, 0x80 + r]"
      using 3 by (simp add: enc_char_def p_def q_def r_def)
    ultimately show ?thesis using 3 assms by (simp add: is_cont_def Let_def)
  next
    case 4
    define u p q r where "u = c div 262144" and "p = c div 4096 mod 64"
      and "q = c div 64 mod 64" and "r = c mod 64"
    have "c = u * 262144 + p * 4096 + q * 64 + r" "r < 64" "q < 64" "p < 64" "u < 5"
      using 4 unfolding u_def p_def q_def r_def by - (rule base64_4, simp, simp, simp, linarith)
    moreover have "enc_char c = [0xF0 + u, 0x80 + p, 0x80 + q, 0x80 + r]"
      using 4 by (simp add: enc_char_def u_def p_def q_def r_def)
    ultimately show ?thesis using 4 assms by (simp add: is_cont_def Let_def)
  qed
qed

lemma utf8_dec_str_bytes: "\<forall>c \<in> set s. scalar c \<Longrightarrow> utf8_dec (str_bytes s) = Some s"
  by (induction s) (simp_all add: utf8_dec_enc_char)

lemma is_contE:
  assumes "is_cont b"
  obtains d where "b = 0x80 + d" "d < 64"
proof -
  have "b = 0x80 + (b - 0x80)" "b - 0x80 < 64" using assms by (auto simp: is_cont_def)
  then show ?thesis by (rule that)
qed

lemma utf8_dec_sound_step:
  assumes bs0: "bs0 = b # bs" and dec: "utf8_dec bs0 = Some s"
    and IH: "\<And>ys t. length ys < length bs0 \<Longrightarrow> utf8_dec ys = Some t \<Longrightarrow>
      str_bytes t = ys \<and> (\<forall>c \<in> set t. scalar c)"
  shows "str_bytes s = bs0 \<and> (\<forall>c \<in> set s. scalar c)"
proof -
  consider "b < 0x80" | "0xC2 \<le> b" "b < 0xE0" | "0xE0 \<le> b" "b < 0xF0" | "0xF0 \<le> b" "b < 0xF8"
    using dec bs0 by (auto split: if_splits)
  then show ?thesis
  proof cases
    case 1
    with dec bs0 obtain t where "utf8_dec bs = Some t" "s = b # t" by auto
    with 1 bs0 IH [of bs t] show ?thesis by (auto simp: enc_char_def scalar_def)
  next
    case 2
    with dec bs0 obtain c1 r t where *: "bs = c1 # r" "is_cont c1" "utf8_dec r = Some t"
        "s = ((b - 0xC0) * 64 + (c1 - 0x80)) # t"
      by (auto split: list.splits if_splits)
    define d where "d = b - 0xC0"
    have "b = 0xC0 + d" "2 \<le> d" "d < 32" using 2 by (auto simp: d_def)
    moreover obtain e where "c1 = 0x80 + e" "e < 64" using *(2) by (rule is_contE)
    ultimately show ?thesis using * 2 bs0 IH [of r t] by (auto simp: enc_char_def scalar_def undo_base64_2)
  next
    case 3
    with dec bs0 obtain c1 c2 r t v where *: "bs = c1 # c2 # r" "is_cont c1" "is_cont c2"
        "v = (b - 0xE0) * 4096 + (c1 - 0x80) * 64 + (c2 - 0x80)"
        "0x800 \<le> v" "scalar v" "utf8_dec r = Some t" "s = v # t"
      by (auto simp: Let_def split: list.splits if_splits)
    define d where "d = b - 0xE0"
    have "b = 0xE0 + d" "d < 16" using 3 by (auto simp: d_def)
    moreover obtain e f where "c1 = 0x80 + e" "c2 = 0x80 + f" "e < 64" "f < 64"
      using is_contE [OF *(2)] is_contE [OF *(3)] by metis
    ultimately have "enc_char v = [b, c1, c2]" using * by (simp add: enc_char_def undo_base64_3)
    then show ?thesis using * bs0 IH [of r t] by simp
  next
    case 4
    with dec bs0 obtain c1 c2 c3 r t v where *: "bs = c1 # c2 # c3 # r" "is_cont c1" "is_cont c2" "is_cont c3"
        "v = (b - 0xF0) * 262144 + (c1 - 0x80) * 4096 + (c2 - 0x80) * 64 + (c3 - 0x80)"
        "0x10000 \<le> v" "scalar v" "utf8_dec r = Some t" "s = v # t"
      by (auto simp: Let_def split: list.splits if_splits)
    define d where "d = b - 0xF0"
    have "b = 0xF0 + d" "d < 8" using 4 by (auto simp: d_def)
    moreover obtain e f g where "c1 = 0x80 + e" "c2 = 0x80 + f" "c3 = 0x80 + g" "e < 64" "f < 64" "g < 64"
      using is_contE [OF *(2)] is_contE [OF *(3)] is_contE [OF *(4)] by metis
    ultimately have "enc_char v = [b, c1, c2, c3]" using * by (simp add: enc_char_def undo_base64_4)
    then show ?thesis using * bs0 IH [of r t] by simp
  qed
qed

lemma utf8_dec_sound:
  "utf8_dec bs = Some s \<Longrightarrow> str_bytes s = bs \<and> (\<forall>c \<in> set s. scalar c)"
proof (induction bs arbitrary: s rule: length_induct)
  case (1 bs0)
  note IH = "1.IH" [rule_format]
  show ?case
  proof (cases bs0)
    case Nil
    with "1.prems" show ?thesis by simp
  next
    case bs0: (Cons b bs)
    show ?thesis
      using bs0 "1.prems" IH by (rule utf8_dec_sound_step)
  qed
qed

lemma from_utf8_blen: "from_utf8 bs = Some s \<Longrightarrow> blen s = length bs"
  using utf8_dec_sound [of "map unat bs" s] length_str_bytes [of s]
  by (auto simp: from_utf8_def simp del: length_str_bytes)

lemma from_utf8_scalar: "from_utf8 bs = Some s \<Longrightarrow> c \<in> set s \<Longrightarrow> scalar c"
  using utf8_dec_sound [of "map unat bs" s] by (auto simp: from_utf8_def)

section \<open>Functions on strings\<close>

text \<open>\<open>char::is_whitespace\<close>: the Unicode \<open>White_Space\<close> property.\<close>

definition is_whitespace :: "uchar \<Rightarrow> bool" where
  "is_whitespace c \<longleftrightarrow>
     (9 \<le> c \<and> c \<le> 13) \<or> c = 0x20 \<or> c = 0x85 \<or> c = 0xA0 \<or> c = 0x1680 \<or>
     (0x2000 \<le> c \<and> c \<le> 0x200A) \<or> c = 0x2028 \<or> c = 0x2029 \<or> c = 0x202F \<or>
     c = 0x205F \<or> c = 0x3000"

definition is_ascii_digit :: "uchar \<Rightarrow> bool" where
  "is_ascii_digit c \<longleftrightarrow> 48 \<le> c \<and> c \<le> 57"

definition is_ascii_alphanumeric :: "uchar \<Rightarrow> bool" where
  "is_ascii_alphanumeric c \<longleftrightarrow>
     is_ascii_digit c \<or> (65 \<le> c \<and> c \<le> 90) \<or> (97 \<le> c \<and> c \<le> 122)"

definition to_ascii_lowercase :: "uchar \<Rightarrow> uchar" where
  "to_ascii_lowercase c = (if 65 \<le> c \<and> c \<le> 90 then c + 32 else c)"

definition trim_matches :: "('a \<Rightarrow> bool) \<Rightarrow> 'a list \<Rightarrow> 'a list" where
  "trim_matches p s = rev (dropWhile p (rev (dropWhile p s)))"

definition trim :: "ustr \<Rightarrow> ustr" where
  "trim s = trim_matches is_whitespace s"

text \<open>\<open>str::split\<close> on a character (and \<open>slice::split\<close> on a predicate): never empty.\<close>

fun split_by :: "('a \<Rightarrow> bool) \<Rightarrow> 'a list \<Rightarrow> 'a list list" where
  "split_by p [] = [[]]"
| "split_by p (x # xs) =
     (if p x then [] # split_by p xs
      else (case split_by p xs of [] \<Rightarrow> [[x]] | y # ys \<Rightarrow> (x # y) # ys))"

abbreviation split_on :: "'a \<Rightarrow> 'a list \<Rightarrow> 'a list list" where
  "split_on c \<equiv> split_by (\<lambda>x. x = c)"

text \<open>\<open>str::split_once\<close> and \<open>str::rsplit_once\<close> on a character.\<close>

fun split_once :: "'a \<Rightarrow> 'a list \<Rightarrow> ('a list \<times> 'a list) option" where
  "split_once c [] = None"
| "split_once c (x # xs) =
     (if x = c then Some ([], xs) else map_option (\<lambda>(a, b). (x # a, b)) (split_once c xs))"

definition rsplit_once :: "'a \<Rightarrow> 'a list \<Rightarrow> ('a list \<times> 'a list) option" where
  "rsplit_once c s = map_option (\<lambda>(a, b). (rev b, rev a)) (split_once c (rev s))"

definition strip_prefix :: "'a list \<Rightarrow> 'a list \<Rightarrow> 'a list option" where
  "strip_prefix p s = (if prefix p s then Some (drop (length p) s) else None)"

text \<open>Decimal and fixed-width hexadecimal formatting.\<close>

fun show_nat :: "nat \<Rightarrow> ustr" where
  "show_nat n = (if n < 10 then [48 + n] else show_nat (n div 10) @ [48 + n mod 10])"

declare show_nat.simps [simp del]

text \<open>The same digits as a message text.\<close>

definition show_dec :: "nat \<Rightarrow> string" where
  "show_dec n = map char_of (show_nat n)"

definition hex_digit :: "nat \<Rightarrow> uchar" where
  "hex_digit d = (if d < 10 then 48 + d else 87 + d)"

fun show_hex :: "nat \<Rightarrow> nat \<Rightarrow> ustr" where
  "show_hex 0 n = []"
| "show_hex (Suc w) n = show_hex w (n div 16) @ [hex_digit (n mod 16)]"

definition digits_val :: "nat list \<Rightarrow> nat" where
  "digits_val ds = foldl (\<lambda>v d. v * 10 + (d - 48)) 0 ds"

lemma dropWhile_suffix: "\<exists>t. s = t @ dropWhile p s"
  by (metis takeWhile_dropWhile_id)

lemma trim_matches_infix: "\<exists>a b. s = a @ trim_matches p s @ b"
proof -
  obtain a where a: "s = a @ dropWhile p s" using dropWhile_suffix by blast
  obtain b where "rev (dropWhile p s) = b @ dropWhile p (rev (dropWhile p s))"
    using dropWhile_suffix by blast
  then have "dropWhile p s = trim_matches p s @ rev b"
    unfolding trim_matches_def by (metis rev_append rev_rev_ident)
  with a show ?thesis by metis
qed

lemma set_trim_matches: "set (trim_matches p s) \<subseteq> set s"
  using trim_matches_infix [of s p] by (metis Un_iff set_append subsetI)

lemma trim_matches_id:
  "\<lbrakk>s \<noteq> [] \<Longrightarrow> \<not> p (hd s); s \<noteq> [] \<Longrightarrow> \<not> p (last s)\<rbrakk> \<Longrightarrow> trim_matches p s = s"
  by (cases "s = []") (simp_all add: trim_matches_def dropWhile_eq_self_iff [THEN iffD2] hd_rev)

lemma trim_matches_ends:
  "trim_matches p s \<noteq> [] \<Longrightarrow> \<not> p (hd (trim_matches p s)) \<and> \<not> p (last (trim_matches p s))"
proof -
  let ?t = "dropWhile p s"
  assume ne: "trim_matches p s \<noteq> []"
  then have l: "\<not> p (last (trim_matches p s))"
    unfolding trim_matches_def by (simp add: last_rev hd_dropWhile)
  obtain b where "rev ?t = b @ dropWhile p (rev ?t)" using dropWhile_suffix by blast
  then have "?t = trim_matches p s @ rev b"
    unfolding trim_matches_def by (metis rev_append rev_rev_ident)
  then have "hd (trim_matches p s) = hd ?t" "?t \<noteq> []" using ne by (metis hd_append2, auto)
  then show ?thesis using l by (metis hd_dropWhile)
qed

lemma split_by_not_Nil [simp]: "split_by p s \<noteq> []"
  by (cases s) (auto split: list.splits)

lemma split_by_no_sep: "x \<in> set (split_by p s) \<Longrightarrow> c \<in> set x \<Longrightarrow> \<not> p c"
proof (induction s arbitrary: x)
  case (Cons a s)
  then show ?case by (fastforce split: list.splits if_splits)
qed simp

lemma split_by_sub: "x \<in> set (split_by p s) \<Longrightarrow> c \<in> set x \<Longrightarrow> c \<in> set s"
proof (induction s arbitrary: x)
  case (Cons a s)
  then show ?case by (fastforce split: list.splits if_splits)
qed simp

lemma show_nat_digits: "c \<in> set (show_nat n) \<Longrightarrow> is_ascii_digit c"
proof (induction n rule: show_nat.induct)
  case (1 n)
  then show ?case
    by (subst (asm) (2) show_nat.simps) (auto simp: is_ascii_digit_def split: if_splits)
qed

lemma show_nat_not_Nil [simp]: "show_nat n \<noteq> []"
  by (subst show_nat.simps) simp

lemma digits_val_snoc [simp]: "digits_val (ds @ [d]) = digits_val ds * 10 + (d - 48)"
  by (simp add: digits_val_def)

lemma digits_val_Nil [simp]: "digits_val [] = 0"
  by (simp add: digits_val_def)

lemma digits_val_show_nat: "digits_val (show_nat n) = n"
proof (induction n rule: show_nat.induct)
  case (1 n)
  show ?case
  proof (cases "n < 10")
    case True
    then show ?thesis by (simp add: show_nat.simps [of n] digits_val_def)
  next
    case False
    then show ?thesis using 1 by (simp add: show_nat.simps [of n])
  qed
qed

lemma show_nat_inject [simp]: "show_nat m = show_nat n \<longleftrightarrow> m = n"
  by (metis digits_val_show_nat)

lemma length_show_hex [simp]: "length (show_hex w n) = w"
  by (induction w arbitrary: n) auto

lemma hex_digit_inj: "a < 16 \<Longrightarrow> b < 16 \<Longrightarrow> hex_digit a = hex_digit b \<longleftrightarrow> a = b"
  by (auto simp: hex_digit_def split: if_splits)

lemma show_hex_inject:
  "m < 16 ^ w \<Longrightarrow> n < 16 ^ w \<Longrightarrow> show_hex w m = show_hex w n \<longleftrightarrow> m = n"
proof (induction w arbitrary: m n)
  case 0
  then show ?case by simp
next
  case (Suc w)
  have "m div 16 < 16 ^ w" "n div 16 < 16 ^ w" using Suc.prems by (simp_all add: less_mult_imp_div_less)
  then have "show_hex (Suc w) m = show_hex (Suc w) n \<longleftrightarrow> m div 16 = n div 16 \<and> m mod 16 = n mod 16"
    using Suc.IH by (simp add: hex_digit_inj)
  then show ?case by (metis div_mult_mod_eq)
qed

text \<open>A test of the bytes that only ASCII bytes pass is a test of the characters.\<close>

lemma enc_char_high: "\<not> c < 0x80 \<Longrightarrow> b \<in> set (enc_char c) \<Longrightarrow> 0x80 \<le> b"
  by (auto simp: enc_char_def split: if_splits)

lemma enc_char_low: "c < 0x80 \<Longrightarrow> enc_char c = [c]"
  by (simp add: enc_char_def)

lemma enc_char_not_Nil [simp]: "enc_char c \<noteq> []"
  by (simp add: enc_char_def)

lemma list_all_str_bytes:
  assumes "\<And>b. P b \<Longrightarrow> b < 0x80"
  shows "list_all P (str_bytes s) \<longleftrightarrow> list_all P s"
proof (induction s)
  case (Cons c s)
  show ?case
  proof (cases "c < 0x80")
    case True
    then show ?thesis using Cons by (simp add: enc_char_low)
  next
    case False
    obtain b where b: "b \<in> set (enc_char c)" using enc_char_not_Nil [of c] by fastforce
    have "\<not> P b" using enc_char_high [OF False b] assms [of b] by linarith
    moreover have "\<not> P c" using False assms [of c] by linarith
    ultimately show ?thesis using b by (auto simp: list_all_iff)
  qed
qed simp

lemma str_bytes_ascii_id: "list_all (\<lambda>c. c < 0x80) s \<Longrightarrow> str_bytes s = s"
  by (induction s) (simp_all add: enc_char_low)

lemma digits_val_pos: "ds \<noteq> [] \<Longrightarrow> list_all is_ascii_digit ds \<Longrightarrow> hd ds \<noteq> 48 \<Longrightarrow> 0 < digits_val ds"
proof (induction ds rule: rev_induct)
  case (snoc d ds)
  then show ?case by (cases "ds = []") (auto simp: is_ascii_digit_def digits_val_def)
qed simp

lemma show_nat_digits_val:
  "ds \<noteq> [] \<Longrightarrow> list_all is_ascii_digit ds \<Longrightarrow> hd ds \<noteq> 48 \<Longrightarrow> show_nat (digits_val ds) = ds"
proof (induction ds rule: rev_induct)
  case (snoc d ds)
  have d: "48 \<le> d" "d \<le> 57" using snoc.prems by (auto simp: is_ascii_digit_def)
  show ?case
  proof (cases "ds = []")
    case True
    then show ?thesis using d by (subst show_nat.simps) (simp add: digits_val_def)
  next
    case False
    then have h: "list_all is_ascii_digit ds" "hd ds \<noteq> 48" using snoc.prems by auto
    let ?v = "digits_val ds"
    have "0 < ?v" using digits_val_pos [OF False h] .
    then have "\<not> ?v * 10 + (d - 48) < 10" by simp
    moreover obtain k where k: "d = 48 + k" "k < 10" using d nat_le_iff_add [of 48 d] by auto
    then have "(?v * 10 + (d - 48)) div 10 = ?v" "48 + (?v * 10 + (d - 48)) mod 10 = d" by simp_all
    ultimately show ?thesis using snoc.IH [OF False h] by (subst show_nat.simps) simp
  qed
qed simp

lemma show_nat_hd: "0 < n \<Longrightarrow> hd (show_nat n) \<noteq> 48"
proof (induction n rule: show_nat.induct)
  case (1 n)
  show ?case
  proof (cases "n < 10")
    case True
    then show ?thesis using "1.prems" by (subst show_nat.simps) simp
  next
    case False
    then have "hd (show_nat (n div 10)) \<noteq> 48" using "1.IH" by simp
    then show ?thesis using False by (subst show_nat.simps) simp
  qed
qed

lemma split_on_single: "x \<notin> set s \<Longrightarrow> split_on x s = [s]"
  by (induction s) auto

section \<open>Lossy decoding\<close>

text \<open>
  \<open>String::from_utf8_lossy\<close>: every maximal prefix of an ill-formed sequence becomes one
  replacement character.
\<close>

definition second_ok :: "nat \<Rightarrow> nat \<Rightarrow> bool" where
  "second_ok b c =
     (if b = 0xE0 then 0xA0 \<le> c \<and> c < 0xC0
      else if b = 0xED then 0x80 \<le> c \<and> c < 0xA0
      else if b = 0xF0 then 0x90 \<le> c \<and> c < 0xC0
      else if b = 0xF4 then 0x80 \<le> c \<and> c < 0x90
      else is_cont c)"

fun utf8_lossy :: "nat list \<Rightarrow> ustr" where
  "utf8_lossy [] = []"
| "utf8_lossy (b # bs) =
     (if b < 0x80 then b # utf8_lossy bs
      else if 0xC2 \<le> b \<and> b < 0xE0 then
        (case bs of
           c1 # r \<Rightarrow> if is_cont c1 then ((b - 0xC0) * 64 + (c1 - 0x80)) # utf8_lossy r else 0xFFFD # utf8_lossy bs
         | [] \<Rightarrow> [0xFFFD])
      else if 0xE0 \<le> b \<and> b < 0xF0 then
        (case bs of
           [] \<Rightarrow> [0xFFFD]
         | c1 # r1 \<Rightarrow>
             if \<not> second_ok b c1 then 0xFFFD # utf8_lossy bs
             else (case r1 of
                     [] \<Rightarrow> [0xFFFD]
                   | c2 # r2 \<Rightarrow>
                       if is_cont c2
                       then ((b - 0xE0) * 4096 + (c1 - 0x80) * 64 + (c2 - 0x80)) # utf8_lossy r2
                       else 0xFFFD # utf8_lossy r1))
      else if 0xF0 \<le> b \<and> b < 0xF5 then
        (case bs of
           [] \<Rightarrow> [0xFFFD]
         | c1 # r1 \<Rightarrow>
             if \<not> second_ok b c1 then 0xFFFD # utf8_lossy bs
             else (case r1 of
                     [] \<Rightarrow> [0xFFFD]
                   | c2 # r2 \<Rightarrow>
                       if \<not> is_cont c2 then 0xFFFD # utf8_lossy r1
                       else (case r2 of
                               [] \<Rightarrow> [0xFFFD]
                             | c3 # r3 \<Rightarrow>
                                 if is_cont c3
                                 then ((b - 0xF0) * 262144 + (c1 - 0x80) * 4096 + (c2 - 0x80) * 64 + (c3 - 0x80))
                                        # utf8_lossy r3
                                 else 0xFFFD # utf8_lossy r2)))
      else 0xFFFD # utf8_lossy bs)"

text \<open>The lossy decoder agrees with the strict one on well-formed text.\<close>

lemma second_ok_3:
  assumes "is_cont c1" "is_cont c2" "0xE0 \<le> b" "b < 0xF0"
    and "0x800 \<le> (b - 0xE0) * 4096 + (c1 - 0x80) * 64 + (c2 - 0x80)"
    and "scalar ((b - 0xE0) * 4096 + (c1 - 0x80) * 64 + (c2 - 0x80))"
  shows "second_ok b c1"
proof -
  obtain d e where c: "c1 = 0x80 + d" "d < 64" "c2 = 0x80 + e" "e < 64"
    using is_contE [OF assms(1)] is_contE [OF assms(2)] by metis
  show ?thesis
  proof (cases "b = 0xE0 \<or> b = 0xED")
    case True
    then show ?thesis using assms c by (auto simp: second_ok_def scalar_def)
  next
    case False
    then show ?thesis using assms by (simp add: second_ok_def)
  qed
qed

lemma second_ok_4:
  assumes "is_cont c1" "is_cont c2" "is_cont c3" "0xF0 \<le> b"
    and "0x10000 \<le> (b - 0xF0) * 262144 + (c1 - 0x80) * 4096 + (c2 - 0x80) * 64 + (c3 - 0x80)"
    and "scalar ((b - 0xF0) * 262144 + (c1 - 0x80) * 4096 + (c2 - 0x80) * 64 + (c3 - 0x80))"
  shows "second_ok b c1 \<and> b < 0xF5"
proof -
  obtain d e f where c: "c1 = 0x80 + d" "d < 64" "c2 = 0x80 + e" "e < 64" "c3 = 0x80 + f" "f < 64"
    using is_contE [OF assms(1)] is_contE [OF assms(2)] is_contE [OF assms(3)] by metis
  obtain k where b: "b = 0xF0 + k" using assms(4) le_Suc_ex by blast
  have v: "0x10000 \<le> k * 262144 + d * 4096 + e * 64 + f" "k * 262144 + d * 4096 + e * 64 + f < 0x110000"
    using assms(5,6) unfolding b c by (auto simp: scalar_def)
  then have "k < 5" by linarith
  moreover have "k = 0 \<Longrightarrow> 16 \<le> d" "k = 4 \<Longrightarrow> d < 16" using v c by auto
  ultimately show ?thesis using c assms(1) unfolding b by (auto simp: second_ok_def)
qed

lemma utf8_lossy_dec: "utf8_dec bs = Some s \<Longrightarrow> utf8_lossy bs = s"
proof (induction bs arbitrary: s rule: length_induct)
  case (1 bs0)
  note IH = 1(1) [rule_format] and dec = 1(2)
  show ?case
  proof (cases bs0)
    case Nil
    then show ?thesis using dec by simp
  next
    case bs0: (Cons b bs)
    consider (1) "b < 0x80" | (2) "0xC2 \<le> b" "b < 0xE0" | (3) "0xE0 \<le> b" "b < 0xF0" | (4) "0xF0 \<le> b" "b < 0xF8"
      using dec bs0 by (auto split: if_splits)
    then show ?thesis
    proof cases
      case 1
      then show ?thesis using dec bs0 IH [of bs] by auto
    next
      case 2
      with dec bs0 obtain c1 r t where *: "bs = c1 # r" "is_cont c1" "utf8_dec r = Some t"
          "s = ((b - 0xC0) * 64 + (c1 - 0x80)) # t"
        by (auto split: list.splits if_splits)
      then show ?thesis using 2 bs0 IH [of r t] by simp
    next
      case 3
      with dec bs0 obtain c1 c2 r t where *: "bs = c1 # c2 # r" "is_cont c1" "is_cont c2"
          "0x800 \<le> (b - 0xE0) * 4096 + (c1 - 0x80) * 64 + (c2 - 0x80)"
          "scalar ((b - 0xE0) * 4096 + (c1 - 0x80) * 64 + (c2 - 0x80))" "utf8_dec r = Some t"
          "s = ((b - 0xE0) * 4096 + (c1 - 0x80) * 64 + (c2 - 0x80)) # t"
        by (auto simp: Let_def split: list.splits if_splits)
      then have "second_ok b c1" using 3 by (intro second_ok_3) simp_all
      then show ?thesis using 3 * bs0 IH [of r t] by simp
    next
      case 4
      with dec bs0 obtain c1 c2 c3 r t where *: "bs = c1 # c2 # c3 # r" "is_cont c1" "is_cont c2" "is_cont c3"
          "0x10000 \<le> (b - 0xF0) * 262144 + (c1 - 0x80) * 4096 + (c2 - 0x80) * 64 + (c3 - 0x80)"
          "scalar ((b - 0xF0) * 262144 + (c1 - 0x80) * 4096 + (c2 - 0x80) * 64 + (c3 - 0x80))" "utf8_dec r = Some t"
          "s = ((b - 0xF0) * 262144 + (c1 - 0x80) * 4096 + (c2 - 0x80) * 64 + (c3 - 0x80)) # t"
        by (auto simp: Let_def split: list.splits if_splits)
      then have "second_ok b c1 \<and> b < 0xF5" using 4 by (intro second_ok_4) simp_all
      then show ?thesis using 4 * bs0 IH [of r t] by simp
    qed
  qed
qed

lemma utf8_lossy_str_bytes: "\<forall>c \<in> set s. scalar c \<Longrightarrow> utf8_lossy (str_bytes s) = s"
  by (intro utf8_lossy_dec utf8_dec_str_bytes)

end
