(* ===== verification/Document_Limits.thy ===== *)
theory Document_Limits
  imports Text
begin

text \<open>
  \<^verbatim>\<open>src/document_limits.rs\<close>: the document limit policy. The three configured limits are
  resolved from the command line, the environment or the compiled defaults, and every other
  allowance is derived from them with checked \<open>u64\<close> arithmetic.
\<close>

section \<open>Policy and overrides\<close>

definition MIB :: u64 where
  "MIB = 1024 * 1024"

definition GIB :: u64 where
  "GIB = 1024 * MIB"

definition DEFAULT_MAX_INPUT_BYTES :: u64 where
  "DEFAULT_MAX_INPUT_BYTES = 4293918719"

definition DEFAULT_MAX_ENCODED_DOCUMENT_BYTES :: u64 where
  "DEFAULT_MAX_ENCODED_DOCUMENT_BYTES = 8 * GIB"

definition DEFAULT_MAX_OUTPUT_BYTES :: u64 where
  "DEFAULT_MAX_OUTPUT_BYTES = 8 * GIB"

record DocumentLimitPolicy =
  max_input_bytes :: u64
  max_encoded_document_bytes :: u64
  max_output_bytes :: u64
  multipart_body_bytes :: u64
  asset_total_bytes :: u64
  staged_text_bytes :: u64
  raw_output_bytes :: u64
  server_zip_bytes :: u64
  download_compressed_bytes :: u64
  expanded_archive_bytes :: u64
  archive_entry_bytes :: u64

record OfficialDocumentTotals =
  t_encoded :: u64
  t_raw :: u64
  t_assets :: u64
  t_staged_text :: u64

definition from_policy :: "DocumentLimitPolicy \<Rightarrow> OfficialDocumentTotals" where
  "from_policy policy =
     \<lparr>t_encoded = max_encoded_document_bytes policy, t_raw = raw_output_bytes policy,
      t_assets = asset_total_bytes policy, t_staged_text = staged_text_bytes policy\<rparr>"

record DocumentLimitOverrides =
  o_max_input_bytes :: "ustr option"
  o_max_encoded_document_bytes :: "ustr option"
  o_max_output_bytes :: "ustr option"

type_synonym limit_result = "(u64, string) result"

section \<open>Parsing one byte count\<close>

text \<open>The loop over \<open>value.bytes()\<close>, with its two locals \<open>number\<close> and \<open>previous_digit\<close>.\<close>

fun parse_bytes_loop :: "string \<Rightarrow> nat list \<Rightarrow> u64 \<Rightarrow> bool \<Rightarrow> (u64 \<times> bool, string) result" where
  "parse_bytes_loop name [] number previous_digit = Ok (number, previous_digit)"
| "parse_bytes_loop name (b # bs) number previous_digit =
     (if 48 \<le> b \<and> b \<le> 57 then
        (case Option.bind (checked_mul number 10) (\<lambda>v. checked_add v (of_nat (b - 48))) of
           Some number' \<Rightarrow> parse_bytes_loop name bs number' True
         | None \<Rightarrow> Err (name @ '' overflows u64''))
      else if b = 95 \<and> previous_digit then parse_bytes_loop name bs number False
      else Err (name @ '' must be unsigned decimal bytes''))"

definition parse_bytes :: "ustr \<Rightarrow> string \<Rightarrow> limit_result" where
  "parse_bytes value0 name =
     (let v = trim value0 in
      if v = [] \<or> prefix (lit ''+'') v \<or> prefix (lit ''-'') v
      then Err (name @ '' must be unsigned decimal bytes'')
      else and_then (parse_bytes_loop name (str_bytes v) 0 False) (\<lambda>(number, previous_digit).
        if \<not> previous_digit \<or> number = 0 then Err (name @ '' must be greater than zero'')
        else Ok number))"

section \<open>Resolving and deriving the policy\<close>

text \<open>\<open>OsString::to_str\<close> succeeds on valid UTF-8 only.\<close>

definition resolve_one :: "ustr option \<Rightarrow> byte list option \<Rightarrow> u64 \<Rightarrow> string \<Rightarrow> limit_result" where
  "resolve_one cli environment dflt name =
     (case cli of
        Some v \<Rightarrow> parse_bytes v name
      | None \<Rightarrow>
          (case environment of
             Some os \<Rightarrow>
               and_then (ok_or (from_utf8 os) (name @ '' must be unsigned decimal bytes''))
                 (\<lambda>v. parse_bytes v name)
           | None \<Rightarrow> Ok dflt))"

fun check_minimums :: "(u64 \<times> u64 \<times> string) list \<Rightarrow> (unit, string) result" where
  "check_minimums [] = Ok ()"
| "check_minimums ((v, minimum, name) # rest) =
     (if v < minimum then Err (name @ '' must be at least '' @ show_dec (unat minimum))
      else check_minimums rest)"

definition policy_new :: "u64 \<Rightarrow> u64 \<Rightarrow> u64 \<Rightarrow> (DocumentLimitPolicy, string) result" where
  "policy_new max_input max_encoded max_output =
     and_then (check_minimums
       [(max_input, 1, ''max input bytes''),
        (max_encoded, 1, ''max encoded document bytes''),
        (max_output, 4, ''max output bytes'')]) (\<lambda>_.
     and_then (ok_or (checked_add max_input MIB) ''multipart body limit overflow'') (\<lambda>multipart.
     let asset_total = max_output; staged_text = max_output div 4; raw_output = max_output div 4 in
     and_then (ok_or
       (Option.bind (checked_add max_input asset_total) (\<lambda>v.
        Option.bind (checked_add v staged_text) (\<lambda>v. checked_add v MIB)))
       ''server ZIP limit overflow'') (\<lambda>server_zip.
     and_then (ok_or (checked_add server_zip (GIB - 1)) ''server ZIP rounding overflow'') (\<lambda>padded.
     let rounded_server_zip = padded div GIB * GIB; download_compressed = rounded_server_zip in
     and_then (ok_or (checked_mul download_compressed 2) ''expanded archive limit overflow'') (\<lambda>expanded.
     Ok \<lparr>max_input_bytes = max_input, max_encoded_document_bytes = max_encoded,
         max_output_bytes = max_output, multipart_body_bytes = multipart,
         asset_total_bytes = asset_total, staged_text_bytes = staged_text,
         raw_output_bytes = raw_output, server_zip_bytes = server_zip,
         download_compressed_bytes = download_compressed, expanded_archive_bytes = expanded,
         archive_entry_bytes = expanded\<rparr>)))))"

definition defaults :: "(DocumentLimitPolicy, string) result" where
  "defaults = policy_new DEFAULT_MAX_INPUT_BYTES DEFAULT_MAX_ENCODED_DOCUMENT_BYTES
     DEFAULT_MAX_OUTPUT_BYTES"

definition resolve :: "DocumentLimitOverrides \<Rightarrow> (string \<Rightarrow> byte list option) \<Rightarrow>
    (DocumentLimitPolicy, string) result" where
  "resolve cli environment =
     and_then (resolve_one (o_max_input_bytes cli) (environment ''MINERU_MAX_INPUT_BYTES'')
       DEFAULT_MAX_INPUT_BYTES ''max input bytes'') (\<lambda>i.
     and_then (resolve_one (o_max_encoded_document_bytes cli)
       (environment ''MINERU_MAX_ENCODED_DOCUMENT_BYTES'')
       DEFAULT_MAX_ENCODED_DOCUMENT_BYTES ''max encoded document bytes'') (\<lambda>e.
     and_then (resolve_one (o_max_output_bytes cli) (environment ''MINERU_MAX_OUTPUT_BYTES'')
       DEFAULT_MAX_OUTPUT_BYTES ''max output bytes'') (\<lambda>w.
     policy_new i e w)))"

definition with_cli_overrides :: "DocumentLimitPolicy \<Rightarrow> DocumentLimitOverrides \<Rightarrow>
    (DocumentLimitPolicy, string) result" where
  "with_cli_overrides policy cli =
     and_then (resolve_one (o_max_input_bytes cli) None (max_input_bytes policy)
       ''max input bytes'') (\<lambda>i.
     and_then (resolve_one (o_max_encoded_document_bytes cli) None (max_encoded_document_bytes policy)
       ''max encoded document bytes'') (\<lambda>e.
     and_then (resolve_one (o_max_output_bytes cli) None (max_output_bytes policy)
       ''max output bytes'') (\<lambda>w.
     policy_new i e w)))"

section \<open>Derived allowances\<close>

lemma unat_consts: "unat MIB = 2 ^ 20" "unat GIB = 2 ^ 30" "unat (GIB - 1) = unat GIB - 1"
  by (simp_all add: MIB_def GIB_def)

lemma round_up_bounds:
  fixes n g :: nat
  assumes "0 < g"
  shows "n \<le> (n + (g - 1)) div g * g" "(n + (g - 1)) div g * g < n + g"
proof -
  have "(n + (g - 1)) div g * g = n + (g - 1) - (n + (g - 1)) mod g"
    by (simp add: minus_mod_eq_div_mult)
  moreover have "(n + (g - 1)) mod g < g" using assms by simp
  ultimately show "n \<le> (n + (g - 1)) div g * g" "(n + (g - 1)) div g * g < n + g" by linarith+
qed

lemma unat_div_mult: "unat ((p :: 'w::len word) div q * q) = unat p div unat q * unat q"
proof -
  have "unat (p div q) * unat q \<le> unat p" by (simp add: unat_div_distrib)
  then have "unat (p div q) * unat q < 2 ^ LENGTH('w)"
    using unsigned_less [of p] by (rule order_le_less_trans)
  then have "unat (p div q * q) = unat (p div q) * unat q" by (simp add: unat_mult_lem)
  then show ?thesis by (simp add: unat_div_distrib)
qed

text \<open>What a valid policy is: every derived allowance in terms of the three configured limits.\<close>

definition policy_ok :: "DocumentLimitPolicy \<Rightarrow> bool" where
  "policy_ok p \<longleftrightarrow>
     1 \<le> unat (max_input_bytes p) \<and> 1 \<le> unat (max_encoded_document_bytes p) \<and>
     4 \<le> unat (max_output_bytes p) \<and>
     unat (multipart_body_bytes p) = unat (max_input_bytes p) + 2 ^ 20 \<and>
     asset_total_bytes p = max_output_bytes p \<and>
     unat (staged_text_bytes p) = unat (max_output_bytes p) div 4 \<and>
     raw_output_bytes p = staged_text_bytes p \<and>
     unat (server_zip_bytes p) =
       unat (max_input_bytes p) + unat (asset_total_bytes p) + unat (staged_text_bytes p) + 2 ^ 20 \<and>
     unat (server_zip_bytes p) \<le> unat (download_compressed_bytes p) \<and>
     unat (download_compressed_bytes p) < unat (server_zip_bytes p) + 2 ^ 30 \<and>
     2 ^ 30 dvd unat (download_compressed_bytes p) \<and>
     unat (expanded_archive_bytes p) = 2 * unat (download_compressed_bytes p) \<and>
     archive_entry_bytes p = expanded_archive_bytes p"

lemma policy_ok_shared:
  "policy_ok p \<Longrightarrow> raw_output_bytes p = staged_text_bytes p \<and> asset_total_bytes p = max_output_bytes p"
  by (simp add: policy_ok_def)

lemma check_minimums_Ok_iff:
  "check_minimums vs = Ok () \<longleftrightarrow> (\<forall>(v, m, n) \<in> set vs. unat m \<le> unat v)"
  by (induction vs rule: check_minimums.induct) (auto simp: word_less_nat_alt)

text \<open>The five checked steps of \<open>policy_new\<close>, as equations on natural numbers.\<close>

lemma policy_new_Ok_steps:
  assumes "policy_new i e w = Ok p"
  obtains padded where
    "1 \<le> unat i" "1 \<le> unat e" "4 \<le> unat w"
    "unat (multipart_body_bytes p) = unat i + unat MIB"
    "unat (server_zip_bytes p) = unat i + unat w + unat (w div 4) + unat MIB"
    "unat padded = unat (server_zip_bytes p) + unat (GIB - 1)"
    "download_compressed_bytes p = padded div GIB * GIB"
    "unat (expanded_archive_bytes p) = unat (download_compressed_bytes p) * 2"
    "p = \<lparr>max_input_bytes = i, max_encoded_document_bytes = e, max_output_bytes = w,
      multipart_body_bytes = multipart_body_bytes p, asset_total_bytes = w,
      staged_text_bytes = w div 4, raw_output_bytes = w div 4,
      server_zip_bytes = server_zip_bytes p,
      download_compressed_bytes = download_compressed_bytes p,
      expanded_archive_bytes = expanded_archive_bytes p,
      archive_entry_bytes = expanded_archive_bytes p\<rparr>"
  using assms unfolding policy_new_def Let_def
  by (auto simp: result_simps checked_simps check_minimums_Ok_iff simp del: check_minimums.simps)

lemma policy_new_Ok:
  assumes "policy_new i e w = Ok p"
  shows "policy_ok p \<and> max_input_bytes p = i \<and> max_encoded_document_bytes p = e \<and>
    max_output_bytes p = w \<and> staged_text_bytes p = w div 4"
proof -
  obtain padded where s:
    "1 \<le> unat i" "1 \<le> unat e" "4 \<le> unat w"
    "unat (multipart_body_bytes p) = unat i + unat MIB"
    "unat (server_zip_bytes p) = unat i + unat w + unat (w div 4) + unat MIB"
    "unat padded = unat (server_zip_bytes p) + unat (GIB - 1)"
    "download_compressed_bytes p = padded div GIB * GIB"
    "unat (expanded_archive_bytes p) = unat (download_compressed_bytes p) * 2"
    and p: "p = \<lparr>max_input_bytes = i, max_encoded_document_bytes = e, max_output_bytes = w,
      multipart_body_bytes = multipart_body_bytes p, asset_total_bytes = w,
      staged_text_bytes = w div 4, raw_output_bytes = w div 4,
      server_zip_bytes = server_zip_bytes p,
      download_compressed_bytes = download_compressed_bytes p,
      expanded_archive_bytes = expanded_archive_bytes p,
      archive_entry_bytes = expanded_archive_bytes p\<rparr>"
    using assms by (rule policy_new_Ok_steps)
  have f: "max_input_bytes p = i" "max_encoded_document_bytes p = e" "max_output_bytes p = w"
    "asset_total_bytes p = w" "staged_text_bytes p = w div 4" "raw_output_bytes p = w div 4"
    "archive_entry_bytes p = expanded_archive_bytes p"
    by (subst p, simp)+
  have dl: "unat (download_compressed_bytes p) =
      (unat (server_zip_bytes p) + (unat GIB - 1)) div unat GIB * unat GIB"
    using s(6,7) by (simp add: unat_div_mult unat_consts)
  have g: "0 < unat GIB" by (simp add: unat_consts)
  have "policy_ok p"
    unfolding policy_ok_def f
    using s(1-5,8) round_up_bounds [OF g, of "unat (server_zip_bytes p)"] dl
    by (simp add: unat_consts unat_div_distrib)
  then show ?thesis using f by blast
qed


text \<open>
  When \<open>policy_new\<close> succeeds, in terms of the configured values alone: the minima hold and the
  largest derived value, twice the rounded server archive, still fits into 64 bits.
\<close>

lemma policy_new_is_ok_iff:
  "is_ok (policy_new i e w) \<longleftrightarrow>
     1 \<le> unat i \<and> 1 \<le> unat e \<and> 4 \<le> unat w \<and>
     (let zip = unat i + unat w + unat w div 4 + 2 ^ 20
      in (zip + (2 ^ 30 - 1)) div 2 ^ 30 * 2 ^ 30 * 2 < 2 ^ 64)"
  (is "?l \<longleftrightarrow> ?r")
proof
  assume ?l
  then obtain p where "policy_new i e w = Ok p" by (auto simp: is_ok_iff)
  then obtain padded where s:
    "1 \<le> unat i" "1 \<le> unat e" "4 \<le> unat w"
    "unat (server_zip_bytes p) = unat i + unat w + unat (w div 4) + unat MIB"
    "unat padded = unat (server_zip_bytes p) + unat (GIB - 1)"
    "download_compressed_bytes p = padded div GIB * GIB"
    "unat (expanded_archive_bytes p) = unat (download_compressed_bytes p) * 2"
    by (rule policy_new_Ok_steps)
  have "unat (expanded_archive_bytes p) < 2 ^ 64" by (rule u64_bound)
  then have "unat padded div unat GIB * unat GIB * 2 < 2 ^ 64"
    using s(6,7) by (simp only: unat_div_mult)
  then show ?r using s by (simp add: unat_consts unat_div_distrib Let_def)
next
  assume r: ?r
  define z where "z = unat i + unat w + unat w div 4 + 2 ^ 20"
  define g :: nat where "g = 2 ^ 30"
  have big: "(z + (g - 1)) div g * g * 2 < 2 ^ 64" using r by (simp add: Let_def z_def g_def)
  moreover have "z \<le> (z + (g - 1)) div g * g" by (rule round_up_bounds) (simp add: g_def)
  ultimately have z2: "z * 2 < 2 ^ 64" by linarith
  have small: "z + (g - 1) < 2 ^ 64" using z2 by (simp add: g_def)
  have steps: "unat i + 2 ^ 20 < 2 ^ 64" "unat i + unat w < 2 ^ 64"
    "unat i + unat w + unat w div 4 < 2 ^ 64"
    using z2 by (simp_all add: z_def)
  obtain m where m: "checked_add i MIB = Some m"
    using steps(1) checked_add_ex [of i MIB] by (auto simp: unat_consts)
  obtain a where a: "checked_add i w = Some a" "unat a = unat i + unat w"
    using steps(2) checked_add_ex [of i w] by auto
  obtain b where b: "checked_add a (w div 4) = Some b" "unat b = unat a + unat w div 4"
    using steps(3) a(2) checked_add_ex [of a "w div 4"] by (auto simp: unat_div_distrib)
  obtain c where c: "checked_add b MIB = Some c" "unat c = z"
    using z2 a(2) b(2) checked_add_ex [of b MIB] by (auto simp: unat_consts z_def)
  obtain d where d: "checked_add c (GIB - 1) = Some d" "unat d = z + (g - 1)"
    using small c(2) checked_add_ex [of c "GIB - 1"] by (auto simp: unat_consts g_def)
  have "unat (d div GIB * GIB) * unat (2::u64) < 2 ^ LENGTH(64)"
    using big d(2) by (simp add: unat_div_mult unat_consts g_def)
  then obtain x where x: "checked_mul (d div GIB * GIB) 2 = Some x"
    using checked_mul_ex by blast
  have "check_minimums [(i, 1, ''max input bytes''), (e, 1, ''max encoded document bytes''),
      (w, 4, ''max output bytes'')] = Ok ()"
    using r by (auto simp: check_minimums_Ok_iff simp del: check_minimums.simps)
  then show ?l
    by (simp add: policy_new_def m a(1) b(1) c(1) d(1) x Let_def del: check_minimums.simps)
qed

section \<open>Byte counts\<close>

text \<open>
  The accepted texts: decimal digits in groups separated by single underscores. \<open>group_seq\<close>
  follows the alternation from a state in which a digit was just read (or not).
\<close>

fun group_seq :: "bool \<Rightarrow> nat list \<Rightarrow> bool" where
  "group_seq prev [] = prev"
| "group_seq prev (b # bs) =
     (if is_ascii_digit b then group_seq True bs else b = 95 \<and> prev \<and> group_seq False bs)"

definition dval :: "nat \<Rightarrow> nat list \<Rightarrow> nat" where
  "dval acc ds = foldl (\<lambda>v d. v * 10 + (d - 48)) acc ds"

lemma dval_simps [simp]: "dval acc [] = acc" "dval acc (d # ds) = dval (acc * 10 + (d - 48)) ds"
  by (simp_all add: dval_def)

lemma dval_0: "dval 0 ds = digits_val ds"
  by (simp add: dval_def digits_val_def)

lemma dval_mono: "acc \<le> dval acc ds"
proof (induction ds arbitrary: acc)
  case (Cons d ds)
  have "acc \<le> acc * 10 + (d - 48)" by simp
  also have "\<dots> \<le> dval (acc * 10 + (d - 48)) ds" by (rule Cons.IH)
  finally show ?case by simp
qed simp

lemma step_Some_iff:
  fixes num :: u64
  assumes "b \<le> 57"
  shows "Option.bind (checked_mul num 10) (\<lambda>v. checked_add v (of_nat (b - 48))) = Some c
    \<longleftrightarrow> unat c = unat num * 10 + (b - 48)"
proof -
  have d: "unat (of_nat (b - 48) :: u64) = b - 48"
    using assms by (simp add: unat_of_nat take_bit_nat_eq_self)
  show ?thesis
  proof
    assume "unat c = unat num * 10 + (b - 48)"
    then have "unat num * unat (10::u64) < 2 ^ LENGTH(64)"
      using u64_bound [of c] by simp
    then obtain v where "checked_mul num 10 = Some v" "unat v = unat num * 10"
      using checked_mul_ex [of num 10] by auto
    then show "Option.bind (checked_mul num 10) (\<lambda>v. checked_add v (of_nat (b - 48))) = Some c"
      using \<open>unat c = _\<close> d by (simp add: checked_add_Some_iff)
  qed (auto simp: checked_simps d)
qed

lemma parse_bytes_loop_Ok_iff:
  "parse_bytes_loop name bs num prev = Ok (n, True) \<longleftrightarrow>
     group_seq prev bs \<and> unat n = dval (unat num) (filter is_ascii_digit bs)"
proof (induction bs arbitrary: num prev)
  case Nil
  then show ?case by (auto simp: word_unat_eq_iff)
next
  case (Cons b bs)
  show ?case
  proof (cases "is_ascii_digit b")
    case False
    then show ?thesis using Cons.IH by (auto simp: is_ascii_digit_def)
  next
    case True
    then have b: "48 \<le> b" "b \<le> 57" by (auto simp: is_ascii_digit_def)
    let ?step = "Option.bind (checked_mul num 10) (\<lambda>v. checked_add v (of_nat (b - 48)))"
    show ?thesis
    proof (cases ?step)
      case (Some c)
      then have "unat c = unat num * 10 + (b - 48)" using b step_Some_iff by blast
      then show ?thesis using True b Some Cons.IH by simp
    next
      case None
      have "unat n \<noteq> dval (unat num * 10 + (b - 48)) (filter is_ascii_digit bs)"
      proof
        assume eq: "unat n = dval (unat num * 10 + (b - 48)) (filter is_ascii_digit bs)"
        have "unat num * 10 + (b - 48) < 2 ^ 64"
          by (rule order_le_less_trans [OF dval_mono u64_bound [of n, unfolded eq]])
        then have "unat (of_nat (unat num * 10 + (b - 48)) :: u64) = unat num * 10 + (b - 48)"
          by (simp add: unat_of_nat take_bit_nat_eq_self del: of_nat_add of_nat_mult)
        then show False
          using None step_Some_iff [OF b(2), of num "of_nat (unat num * 10 + (b - 48))"]
          by (simp del: of_nat_add of_nat_mult)
      qed
      then show ?thesis using True b None by simp
    qed
  qed
qed

lemma group_seq_no_sign:
  assumes "group_seq False (str_bytes v)"
  shows "v \<noteq> [] \<and> \<not> prefix (lit ''+'') v \<and> \<not> prefix (lit ''-'') v"
  using assms by (cases v) (auto simp: enc_char_def is_ascii_digit_def)

lemma parse_bytes_Ok_iff:
  "parse_bytes s name = Ok n \<longleftrightarrow>
     group_seq False (str_bytes (trim s)) \<and> n \<noteq> 0 \<and>
     unat n = digits_val (filter is_ascii_digit (str_bytes (trim s)))"
proof -
  let ?b = "str_bytes (trim s)"
  have "parse_bytes s name = Ok n \<longleftrightarrow>
      \<not> (trim s = [] \<or> prefix (lit ''+'') (trim s) \<or> prefix (lit ''-'') (trim s)) \<and>
      parse_bytes_loop name ?b 0 False = Ok (n, True) \<and> n \<noteq> 0"
    by (auto simp: parse_bytes_def Let_def result_simps split: prod.splits if_splits)
  also have "\<dots> \<longleftrightarrow> group_seq False ?b \<and> n \<noteq> 0 \<and> unat n = digits_val (filter is_ascii_digit ?b)"
    using group_seq_no_sign [of "trim s"]
    by (auto simp: parse_bytes_loop_Ok_iff dval_0)
  finally show ?thesis .
qed

lemma group_seq_digits:
  "(\<forall>d \<in> set ds. is_ascii_digit d) \<Longrightarrow> group_seq prev ds \<longleftrightarrow> ds \<noteq> [] \<or> prev"
  by (induction ds arbitrary: prev) auto

lemma str_bytes_ascii: "\<forall>c \<in> set s. c < 128 \<Longrightarrow> str_bytes s = s"
  by (induction s) (auto simp: enc_char_def)

lemma trim_show_nat [simp]: "trim (show_nat n) = show_nat n"
proof -
  have "\<not> is_whitespace c" if "c \<in> set (show_nat n)" for c
    using show_nat_digits [OF that] by (auto simp: is_ascii_digit_def is_whitespace_def)
  then show ?thesis unfolding trim_def
    by (intro trim_matches_id) auto
qed

lemma parse_bytes_show_nat: "n \<noteq> 0 \<Longrightarrow> parse_bytes (show_nat (unat n)) name = Ok n"
proof -
  have a: "\<forall>c \<in> set (show_nat (unat n)). is_ascii_digit c" using show_nat_digits by blast
  then have "str_bytes (show_nat (unat n)) = show_nat (unat n)"
    by (intro str_bytes_ascii) (auto simp: is_ascii_digit_def)
  moreover have "filter is_ascii_digit (show_nat (unat n)) = show_nat (unat n)"
    using a by (simp add: filter_id_conv)
  moreover assume "n \<noteq> 0"
  ultimately show ?thesis using a
    by (simp add: parse_bytes_Ok_iff group_seq_digits digits_val_show_nat)
qed

section \<open>Properties\<close>

text \<open>C17: a policy that \<open>DocumentLimitPolicy::new\<close> accepts keeps the three configured limits and
  every derived allowance has its documented value: the multipart body is one MiB more than the
  input, text and raw output are a quarter of the output, the server archive is the sum of its
  parts, the download cap is that sum rounded up to a whole GiB, and the expanded archive is
  twice the download. None of the 64-bit operations wraps.\<close>

theorem policy_new_derives:
  assumes "policy_new i e w = Ok p"
  shows "policy_ok p \<and> max_input_bytes p = i \<and> max_encoded_document_bytes p = e \<and>
    max_output_bytes p = w \<and>
    from_policy p = \<lparr>t_encoded = e, t_raw = w div 4, t_assets = w, t_staged_text = w div 4\<rparr>"
  using policy_new_Ok [OF assms] policy_ok_shared [of p] by (simp add: from_policy_def)

theorem policy_new_derives_witness:
  "\<exists>p. policy_new 10 5 8 = Ok p \<and> policy_ok p \<and> t_raw (from_policy p) = 2"
proof -
  have "is_ok (policy_new 10 5 8)" by (simp add: policy_new_is_ok_iff)
  then obtain p where p: "policy_new 10 5 8 = Ok p" by (auto simp: is_ok_iff)
  show ?thesis using p policy_new_derives [OF p] by auto
qed

text \<open>Exactly when a policy is accepted. The input and encoded limits are positive, the
  output limit is at least four, and twice the GiB-rounded server archive fits into \<open>u64\<close>; then no
  earlier checked addition can overflow either.\<close>

theorem policy_new_accepts_iff:
  "is_ok (policy_new i e w) \<longleftrightarrow>
     1 \<le> unat i \<and> 1 \<le> unat e \<and> 4 \<le> unat w \<and>
     (let zip = unat i + unat w + unat w div 4 + 2 ^ 20
      in (zip + (2 ^ 30 - 1)) div 2 ^ 30 * 2 ^ 30 * 2 < 2 ^ 64)"
  by (rule policy_new_is_ok_iff)

text \<open>\<open>parse_bytes\<close> accepts exactly the trimmed texts made of decimal digits in groups
  separated by single underscores whose value is positive and below \<open>2^64\<close>, and returns that
  value; in particular it reads back every positive \<open>u64\<close> it is given in decimal.\<close>

theorem parse_bytes_spec:
  "(parse_bytes s name = Ok n \<longleftrightarrow>
      group_seq False (str_bytes (trim s)) \<and> n \<noteq> 0 \<and>
      unat n = digits_val (filter is_ascii_digit (str_bytes (trim s)))) \<and>
   (m \<noteq> 0 \<longrightarrow> parse_bytes (show_nat (unat m)) name = Ok m)"
  using parse_bytes_Ok_iff parse_bytes_show_nat by blast

theorem parse_bytes_spec_witness:
  "(1234567 :: u64) \<noteq> 0 \<and> parse_bytes (show_nat 1234567) ''limit'' = Ok 1234567"
  using parse_bytes_spec [of "[]" "''limit''" 0 1234567] by simp

text \<open>The precedence of the sources of a limit: a command-line text decides alone, an
  environment value only counts without one, and the default only without both; without any
  override the policy is the compiled default, which is valid.\<close>

theorem resolve_precedence:
  "resolve_one (Some v) env d name = parse_bytes v name \<and>
   resolve_one None (Some os) d name =
     (case from_utf8 os of
        None \<Rightarrow> Err (name @ '' must be unsigned decimal bytes'')
      | Some v \<Rightarrow> parse_bytes v name) \<and>
   resolve_one None None d name = Ok d \<and>
   resolve \<lparr>o_max_input_bytes = None, o_max_encoded_document_bytes = None,
     o_max_output_bytes = None\<rparr> (\<lambda>_. None) = defaults \<and>
   is_ok defaults"
proof -
  have "is_ok defaults"
    unfolding defaults_def policy_new_is_ok_iff
    by (simp add: DEFAULT_MAX_INPUT_BYTES_def DEFAULT_MAX_OUTPUT_BYTES_def
        DEFAULT_MAX_ENCODED_DOCUMENT_BYTES_def GIB_def MIB_def)
  then show ?thesis
    by (auto simp: resolve_one_def resolve_def defaults_def split: option.splits)
qed

end
