(* ===== verification/Planning.thy ===== *)
theory Planning
  imports Text "HOL-Library.Product_Lexorder"
begin

text \<open>
  \<^verbatim>\<open>src/mineru_api/planning.rs\<close>: page selection, bounded PDF reading, unique output stems and the
  packing of documents into remote tasks. \<open>str::to_lowercase\<close> (the \<open>fold_key\<close> of a stem) and the
  PDF loader are parameters.
\<close>

section \<open>Reading and selecting pages\<close>

definition chunk_size :: nat where
  "chunk_size = 64 * 1024"

text \<open>
  The read loop of \<open>load_pdf_with_limit\<close>. \<open>read off n\<close> is what \<open>File::read\<close> returns at offset
  \<open>off\<close> for a buffer of \<open>n\<close> bytes; an error is \<open>Err ()\<close>.
\<close>

function (sequential) load_loop ::
  "(nat \<Rightarrow> nat \<Rightarrow> (byte list, unit) result) \<Rightarrow> nat \<Rightarrow> nat \<Rightarrow> byte list \<Rightarrow> (byte list, string) result" where
  "load_loop read max_input tot bytes =
     (let read_limit = sat_add max_input 1; remaining = read_limit - tot in
      if remaining = 0 then Ok bytes
      else case read tot (min remaining chunk_size) of
        Err _ \<Rightarrow> Err ''cannot read PDF''
      | Ok bs \<Rightarrow>
          if bs = [] then Ok bytes
          else case cadd tot (length bs) of
            None \<Rightarrow> Err ''cannot read PDF''
          | Some tot' \<Rightarrow>
              if tot' > max_input
              then Err (''upload file exceeds configured input limit of '' @ show_dec max_input @ '' bytes'')
              else load_loop read max_input tot' (bytes @ bs))"
  by pat_completeness auto
termination
  by (relation "measure (\<lambda>(read, m, tot, bytes). sat_add m 1 - tot)")
    (auto simp: cadd_Some_iff simp flip: length_greater_0_conv)

declare load_loop.simps [simp del]

definition selected_pages :: "nat \<Rightarrow> nat \<Rightarrow> nat option \<Rightarrow> (nat, string) result" where
  "selected_pages cnt start end0 =
     and_then (ok_or (csub cnt 1) ''PDF has no pages'') (\<lambda>last.
       let e = min (case end0 of Some e \<Rightarrow> e | None \<Rightarrow> last) last in
       if start > e then Err ''PDF page range is invalid''
       else ok_or (Option.bind (csub e start) (\<lambda>pages. cadd pages 1)) ''PDF page range is invalid'')"

datatype pdf_error = InvalidPassword | OtherPdfError

text \<open>\<open>crate::pdf_load::load_bounded\<close>, \<open>is_encrypted\<close> and \<open>get_pages\<close> are parameters.\<close>

definition selected_pages_for_path_with_limit ::
  "(byte list \<Rightarrow> nat \<Rightarrow> ('doc, pdf_error) result) \<Rightarrow> ('doc \<Rightarrow> bool) \<Rightarrow> ('doc \<Rightarrow> nat) \<Rightarrow>
   (nat \<Rightarrow> nat \<Rightarrow> (byte list, unit) result) option \<Rightarrow> bool \<Rightarrow> nat \<Rightarrow> nat option \<Rightarrow> nat \<Rightarrow>
   (nat, string) result" where
  "selected_pages_for_path_with_limit load_bounded is_encrypted page_count file is_pdf start end0 max_input =
     (if \<not> is_pdf then Ok 1
      else and_then (ok_or file ''cannot read PDF'') (\<lambda>read.
           and_then (load_loop read max_input 0 []) (\<lambda>bytes.
           case load_bounded bytes max_input of
             Err InvalidPassword \<Rightarrow> Err ''PDF is encrypted''
           | Err OtherPdfError \<Rightarrow> Err ''cannot read PDF''
           | Ok document \<Rightarrow>
               if is_encrypted document then Err ''PDF is encrypted''
               else selected_pages (page_count document) start end0)))"

section \<open>Output stems\<close>

text \<open>\<open>char_indices().take_while(|(i, c)| i + c.len_utf8() <= max)\<close>\<close>

fun truncate_from :: "nat \<Rightarrow> nat \<Rightarrow> ustr \<Rightarrow> ustr" where
  "truncate_from i m [] = []"
| "truncate_from i m (c # s) =
     (if i + len_utf8 c \<le> m then c # truncate_from (i + len_utf8 c) m s else [])"

definition truncate_utf8 :: "ustr \<Rightarrow> nat \<Rightarrow> ustr" where
  "truncate_utf8 s m = truncate_from 0 m s"

definition candidate :: "ustr \<Rightarrow> ustr \<Rightarrow> ustr" where
  "candidate stm sfx =
     (if blen stm + blen sfx \<le> 200 then stm @ sfx
      else if 200 \<le> blen sfx then truncate_utf8 sfx 200
      else truncate_utf8 stm (200 - blen sfx) @ sfx)"

definition numbered :: "ustr \<Rightarrow> nat \<Rightarrow> ustr" where
  "numbered base n = candidate base (95 # show_nat n)"

text \<open>The \<open>loop\<close> that looks for a free numbered name.\<close>

partial_function (option) find_free :: "(ustr \<Rightarrow> ustr) \<Rightarrow> ustr set \<Rightarrow> ustr \<Rightarrow> nat \<Rightarrow> ustr option" where
  "find_free fold_key taken base n =
     (if fold_key (numbered base n) \<in> taken then find_free fold_key taken base (n + 1)
      else Some (numbered base n))"

text \<open>
  One pass over \<open>stems.iter().zip(normalized)\<close>; \<open>counts\<close>, \<open>assigned\<close> and \<open>out\<close> are the loop's
  variables. \<open>None\<close> is a search that never ends.
\<close>

fun unique_loop :: "(ustr \<Rightarrow> ustr) \<Rightarrow> ustr set \<Rightarrow> (ustr \<times> ustr) list \<Rightarrow> (ustr \<Rightarrow> nat) \<Rightarrow>
    ustr set \<Rightarrow> ustr list \<Rightarrow> ustr list option" where
  "unique_loop fold_key raw [] counts assigned out = Some out"
| "unique_loop fold_key raw ((original, normalized) # rest) counts assigned out =
     (let base = (if normalized = [] then original else normalized);
          k = fold_key base; cnt = counts k in
      Option.bind
        (if cnt = 0 \<and> k \<notin> assigned then Some base
         else find_free fold_key (raw \<union> assigned) base (cnt + 1))
        (\<lambda>v. unique_loop fold_key raw rest (counts(k := cnt + 1))
               (insert (fold_key v) assigned) (out @ [v])))"

definition unique_stems :: "(ustr \<Rightarrow> ustr) \<Rightarrow> ustr list \<Rightarrow> ustr list option" where
  "unique_stems fold_key stems =
     (let normalized = map (\<lambda>s. truncate_utf8 s 200) stems
      in unique_loop fold_key (set (map fold_key normalized)) (zip stems normalized) (\<lambda>_. 0) {} [])"

section \<open>Task planning\<close>

datatype Backend = Pipeline | VlmEngine | VlmHttpClient | HybridEngine | HybridHttpClient

record InputDocument =
  path :: ustr
  file_suffix :: ustr
  stem :: ustr
  effective_pages :: nat
  order :: nat

record PlannedTask =
  index :: nat
  documents :: "InputDocument list"
  total_pages :: nat

definition new_bin :: "InputDocument \<Rightarrow> PlannedTask" where
  "new_bin doc = \<lparr>index = 0, documents = [doc], total_pages = effective_pages doc\<rparr>"

definition fits :: "nat \<Rightarrow> InputDocument \<Rightarrow> PlannedTask \<Rightarrow> bool" where
  "fits window doc b =
     (case cadd (total_pages b) (effective_pages doc) of Some tot \<Rightarrow> tot \<le> window | None \<Rightarrow> False)"

definition target_bin :: "nat \<Rightarrow> InputDocument \<Rightarrow> PlannedTask list \<Rightarrow> nat option" where
  "target_bin window doc bins =
     map_option fst (min_by_key (\<lambda>(i, b). (total_pages b, i))
       (filter (\<lambda>(i, b). fits window doc b) (List.enumerate 0 bins)))"

definition place :: "nat \<Rightarrow> PlannedTask list \<Rightarrow> InputDocument \<Rightarrow> PlannedTask list" where
  "place window bins doc =
     (if effective_pages doc > window then bins @ [new_bin doc]
      else case Option.bind (target_bin window doc bins) (\<lambda>i.
                  map_option (\<lambda>tot. (i, tot)) (cadd (total_pages (bins ! i)) (effective_pages doc))) of
        Some (i, tot) \<Rightarrow>
          bins[i := (bins ! i)\<lparr>total_pages := tot, documents := documents (bins ! i) @ [doc]\<rparr>]
      | None \<Rightarrow> bins @ [new_bin doc])"

definition plan_order :: "InputDocument list \<Rightarrow> InputDocument list" where
  "plan_order docs = sort_key (\<lambda>d. (- int (effective_pages d), order d)) docs"

definition reindex :: "PlannedTask list \<Rightarrow> PlannedTask list" where
  "reindex bins = map (\<lambda>(i, b). b\<lparr>index := i + 1\<rparr>) (List.enumerate 0 bins)"

definition plan_tasks :: "Backend \<Rightarrow> InputDocument list \<Rightarrow> nat \<Rightarrow> (PlannedTask list, string) result" where
  "plan_tasks backend docs window =
     (if window = 0 \<or> (\<exists>d \<in> set docs. effective_pages d = 0)
      then Err ''pages and processing window must be nonzero''
      else if backend \<noteq> Pipeline then
        Ok (map (\<lambda>(i, d). \<lparr>index = i + 1, documents = [d], total_pages = effective_pages d\<rparr>)
              (List.enumerate 0 docs))
      else Ok (reindex (foldl (place window) [] (plan_order docs))))"

definition effective_concurrency :: "nat \<Rightarrow> nat \<Rightarrow> nat \<Rightarrow> (nat, string) result" where
  "effective_concurrency local server tasks =
     (if local = 0 \<or> server = 0 \<or> tasks = 0 then Err ''concurrency operands must be positive''
      else Ok (min (min local server) tasks))"

section \<open>Bounded reading\<close>

text \<open>
  What \<open>std::io::Read\<close> promises for a file with the given content: a read returns at most as many
  bytes as the buffer holds, they are the next bytes of the file, and an empty read of a
  non-empty buffer means the end of the file.
\<close>

definition reads_file :: "(nat \<Rightarrow> nat \<Rightarrow> (byte list, unit) result) \<Rightarrow> byte list \<Rightarrow> bool" where
  "reads_file read content \<longleftrightarrow>
     (\<forall>off n. \<exists>bs. read off n = Ok bs \<and> bs = take (length bs) (drop off content) \<and>
        length bs \<le> n \<and> (bs = [] \<longrightarrow> n = 0 \<or> length content \<le> off))"

lemma load_loop_reads:
  assumes "reads_file read content" "length content \<le> U64_MAX" "m \<le> U64_MAX"
    "tot \<le> length content" "tot \<le> m"
  shows "load_loop read m tot (take tot content) =
    (if length content \<le> m then Ok content
     else Err (''upload file exceeds configured input limit of '' @ show_dec m @ '' bytes''))"
  using assms(4,5)
proof (induction "length content - tot" arbitrary: tot rule: less_induct)
  case less
  let ?n = "min (sat_add m 1 - tot) chunk_size"
  show ?case
  proof (cases "sat_add m 1 - tot = 0")
    case True
    then have "m = U64_MAX" "tot = m" using less.prems assms(3) by (auto simp: sat_add_def)
    then have "tot = length content" using less.prems assms(2) by simp
    then show ?thesis using True less.prems by (subst load_loop.simps) (simp add: Let_def)
  next
    case False
    obtain bs where bs: "read tot ?n = Ok bs" "bs = take (length bs) (drop tot content)"
      "bs = [] \<longrightarrow> ?n = 0 \<or> length content \<le> tot"
      using assms(1) unfolding reads_file_def by blast
    have len: "tot + length bs \<le> length content"
      using bs(2) less.prems(1) by (metis add_le_cancel_left length_drop le_add_diff_inverse length_take min.cobounded1)
    have ext: "take tot content @ bs = take (tot + length bs) content"
      using bs(2) by (simp add: take_add)
    show ?thesis
    proof (cases "bs = []")
      case True
      then have "tot = length content" using bs(3) False less.prems by (auto simp: chunk_size_def min_def split: if_splits)
      then show ?thesis
        using False True bs(1) less.prems by (subst load_loop.simps) (simp add: Let_def)
    next
      case ne: False
      then have pos: "0 < length bs" by simp
      have step: "load_loop read m tot (take tot content) =
          (if tot + length bs > m
           then Err (''upload file exceeds configured input limit of '' @ show_dec m @ '' bytes'')
           else load_loop read m (tot + length bs) (take (tot + length bs) content))"
        using False ne bs(1) len assms(2)
        by (simp add: load_loop.simps [of read m tot] Let_def cadd_def ext)
      show ?thesis
      proof (cases "tot + length bs > m")
        case True
        then show ?thesis using step len by simp
      next
        case le: False
        have "load_loop read m (tot + length bs) (take (tot + length bs) content) =
          (if length content \<le> m then Ok content
           else Err (''upload file exceeds configured input limit of '' @ show_dec m @ '' bytes''))"
          using le len pos by (intro less.hyps; linarith)
        then show ?thesis using step le by simp
      qed
    qed
  qed
qed

lemma selected_pages_Ok_iff:
  "cnt \<le> U64_MAX \<Longrightarrow> selected_pages cnt start e = Ok n \<longleftrightarrow>
     (let last = cnt - 1; stop = min (case e of Some x \<Rightarrow> x | None \<Rightarrow> last) last
      in 0 < cnt \<and> start \<le> stop \<and> n = stop - start + 1)"
  by (auto simp: selected_pages_def Let_def result_simps checked_simps csub_def cadd_def
      split: option.splits if_splits)

section \<open>Stems\<close>

lemma truncate_from_prefix: "prefix (truncate_from i m s) s"
  by (induction s arbitrary: i) auto

lemma truncate_from_blen: "i \<le> m \<Longrightarrow> i + blen (truncate_from i m s) \<le> m"
proof (induction s arbitrary: i)
  case (Cons c s)
  then show ?case using Cons.IH [of "i + len_utf8 c"] by (simp add: add.assoc)
qed simp

lemma truncate_from_id: "i + blen s \<le> m \<Longrightarrow> truncate_from i m s = s"
  by (induction s arbitrary: i) (auto simp: add.assoc)

lemma truncate_utf8_blen: "blen (truncate_utf8 s m) \<le> m"
  using truncate_from_blen [of 0 m s] by (simp add: truncate_utf8_def)

lemma truncate_utf8_200_Nil [simp]: "truncate_utf8 s 200 = [] \<longleftrightarrow> s = []"
proof (cases s)
  case (Cons c t)
  have "len_utf8 c \<le> 200" using len_utf8_le [of c] by simp
  then show ?thesis by (simp add: truncate_utf8_def Cons)
qed (simp add: truncate_utf8_def)

lemma blen_ascii: "\<forall>c \<in> set s. c < 128 \<Longrightarrow> blen s = length s"
  by (induction s) (auto simp: len_utf8_def)

lemma length_show_nat: "0 < k \<Longrightarrow> n < 10 ^ k \<Longrightarrow> length (show_nat n) \<le> k"
proof (induction n arbitrary: k rule: show_nat.induct)
  case (1 n)
  show ?case
  proof (cases "n < 10")
    case True
    then show ?thesis using 1 by (simp add: show_nat.simps [of n])
  next
    case False
    then obtain j where k: "k = Suc j" "0 < j" using 1 by (cases k; cases "k - 1") auto
    then have "n div 10 < 10 ^ j" using 1 by (simp add: less_mult_imp_div_less mult.commute)
    then show ?thesis using False 1 k by (simp add: show_nat.simps [of n])
  qed
qed

text \<open>Numbers below this bound have at most 100 digits; a 64-bit counter stays far below it.\<close>

definition stem_bound :: nat where
  "stem_bound = 10 ^ 100"

lemma U64_stem_bound: "3 * U64_MAX + 3 \<le> stem_bound"
  by (simp add: stem_bound_def U64_MAX_def)

lemma blen_tail: "n < stem_bound \<Longrightarrow> blen (95 # show_nat n) \<le> 101"
proof -
  assume "n < stem_bound"
  then have "length (show_nat n) \<le> 100" by (intro length_show_nat) (simp_all add: stem_bound_def)
  moreover have "blen (show_nat n) = length (show_nat n)"
    by (rule blen_ascii) (auto dest: show_nat_digits simp: is_ascii_digit_def)
  ultimately show ?thesis by (simp add: len_utf8_def)
qed

lemma numbered_shape:
  assumes "n < stem_bound"
  shows "\<exists>p. numbered base n = p @ 95 # show_nat n" "blen (numbered base n) \<le> 200"
proof -
  have b: "blen (95 # show_nat n) \<le> 101" using assms by (rule blen_tail)
  then show "\<exists>p. numbered base n = p @ 95 # show_nat n"
    by (auto simp: numbered_def candidate_def)
  show "blen (numbered base n) \<le> 200"
    using b truncate_utf8_blen [of base "200 - blen (95 # show_nat n)"]
    by (auto simp: numbered_def candidate_def)
qed

lemma tail_inject:
  assumes "p @ 95 # show_nat n = q @ 95 # show_nat m"
  shows "n = m"
proof -
  have *: "takeWhile (\<lambda>c. c \<noteq> 95) (rev (r @ 95 # show_nat k)) = rev (show_nat k)" for r k
  proof -
    have "\<forall>c \<in> set (rev (show_nat k)). c \<noteq> 95"
      using show_nat_digits by (force simp: is_ascii_digit_def)
    then show ?thesis by (simp add: takeWhile_append)
  qed
  have "rev (show_nat n) = rev (show_nat m)"
    using assms * [of p n] * [of q m] by simp
  then show ?thesis by simp
qed

text \<open>
  \<open>to_lowercase\<close> leaves a trailing underscore and ASCII digits as they are (they have no case
  mapping).
\<close>

definition keeps_number_tail :: "(ustr \<Rightarrow> ustr) \<Rightarrow> bool" where
  "keeps_number_tail fold_key \<longleftrightarrow>
     (\<forall>s n. \<exists>p. fold_key (s @ 95 # show_nat n) = p @ 95 # show_nat n)"

lemma numbered_keys_inj:
  assumes "keeps_number_tail fold_key" "n + N \<le> stem_bound"
  shows "inj_on (\<lambda>k. fold_key (numbered base (n + k))) {..<N}"
proof (rule inj_onI)
  fix k j assume kj: "k \<in> {..<N}" "j \<in> {..<N}"
    and eq: "fold_key (numbered base (n + k)) = fold_key (numbered base (n + j))"
  have lt: "n + k < stem_bound" "n + j < stem_bound"
    using kj assms(2) by (meson lessThan_iff nat_add_left_cancel_less order_less_le_trans)+
  obtain p q where "numbered base (n + k) = p @ 95 # show_nat (n + k)"
    "numbered base (n + j) = q @ 95 # show_nat (n + j)"
    using numbered_shape(1) [OF lt(1)] numbered_shape(1) [OF lt(2)] by blast
  moreover obtain p' q' where "fold_key (p @ 95 # show_nat (n + k)) = p' @ 95 # show_nat (n + k)"
    "fold_key (q @ 95 # show_nat (n + j)) = q' @ 95 # show_nat (n + j)"
    using assms(1) unfolding keeps_number_tail_def by blast
  ultimately have "n + k = n + j" using eq tail_inject by metis
  then show "k = j" by simp
qed

lemma find_free_first:
  assumes "fold_key (numbered base (n + k)) \<notin> taken"
  shows "\<exists>j \<le> k. find_free fold_key taken base n = Some (numbered base (n + j)) \<and>
    fold_key (numbered base (n + j)) \<notin> taken"
  using assms
proof (induction k arbitrary: n)
  case 0
  then show ?case by (auto simp: find_free.simps)
next
  case (Suc k)
  show ?case
  proof (cases "fold_key (numbered base n) \<in> taken")
    case True
    have "fold_key (numbered base (n + 1 + k)) \<notin> taken" using Suc.prems by simp
    then obtain j where "j \<le> k" "find_free fold_key taken base (n + 1) = Some (numbered base (n + 1 + j))"
      "fold_key (numbered base (n + 1 + j)) \<notin> taken"
      using Suc.IH by blast
    then show ?thesis using True find_free.simps [of fold_key taken base n]
      by (intro exI [of _ "Suc j"]) simp
  next
    case False
    then show ?thesis by (intro exI [of _ 0]) (simp add: find_free.simps)
  qed
qed

text \<open>The search for a free name always ends: one of the first \<open>card taken + 1\<close> names is free.\<close>

lemma find_free_ends:
  assumes "keeps_number_tail fold_key" "finite taken" "n + card taken + 1 \<le> stem_bound"
  shows "\<exists>v. find_free fold_key taken base n = Some v \<and> fold_key v \<notin> taken \<and> blen v \<le> 200"
proof -
  let ?f = "\<lambda>k. fold_key (numbered base (n + k))"
  have "inj_on ?f {..<card taken + 1}"
    using assms(1,3) by (intro numbered_keys_inj) (simp_all add: add.assoc)
  then have "card (?f ` {..<card taken + 1}) = card taken + 1" by (simp add: card_image)
  then have "\<not> ?f ` {..<card taken + 1} \<subseteq> taken"
    using card_mono [OF assms(2), of "?f ` {..<card taken + 1}"] by linarith
  then obtain k where k: "k < card taken + 1" "?f k \<notin> taken" by blast
  then obtain j where j: "j \<le> k" "find_free fold_key taken base n = Some (numbered base (n + j))"
    "fold_key (numbered base (n + j)) \<notin> taken"
    using find_free_first by blast
  have "n + j < stem_bound" using j(1) k(1) assms(3) by linarith
  then show ?thesis using j numbered_shape(2) by blast
qed

text \<open>
  The loop invariant of \<open>unique_stems\<close>: a key of an input name is assigned only after that name was
  seen, so the first document with a name keeps it.
\<close>

definition stems_inv :: "ustr set \<Rightarrow> (ustr \<Rightarrow> nat) \<Rightarrow> ustr set \<Rightarrow> nat \<Rightarrow> bool" where
  "stems_inv raw counts assigned seen \<longleftrightarrow>
     finite raw \<and> finite assigned \<and> card assigned \<le> seen \<and> (\<forall>k. counts k \<le> seen) \<and>
     (\<forall>k \<in> raw. k \<in> assigned \<longrightarrow> 0 < counts k)"

lemma stems_inv_step:
  assumes "stems_inv raw counts assigned seen" "v = k \<or> v \<notin> raw"
  shows "stems_inv raw (counts(k := counts k + 1)) (insert v assigned) (seen + 1)"
  using assms card_insert_le_m1 [of "seen + 1" assigned v]
  by (auto simp: stems_inv_def card_insert_if le_SucI)

lemma unique_loop_pick:
  assumes kt: "keeps_number_tail fold_key" and inv: "stems_inv raw counts assigned seen"
    and bound: "card raw + 2 * seen + 3 \<le> stem_bound" and b: "blen b \<le> 200"
  defines "k \<equiv> fold_key b"
  shows "\<exists>v. (if counts k = 0 \<and> k \<notin> assigned then Some b
      else find_free fold_key (raw \<union> assigned) b (counts k + 1)) = Some v \<and>
    blen v \<le> 200 \<and> fold_key v \<notin> assigned \<and> (fold_key v = k \<or> fold_key v \<notin> raw) \<and>
    (counts k = 0 \<and> k \<notin> assigned \<longrightarrow> v = b)"
proof (cases "counts k = 0 \<and> k \<notin> assigned")
  case True
  then show ?thesis using b by (auto simp: k_def)
next
  case False
  have fin: "finite (raw \<union> assigned)" using inv by (simp add: stems_inv_def)
  have "card (raw \<union> assigned) \<le> card raw + card assigned" by (rule card_Un_le)
  moreover have "card assigned \<le> seen" "counts k \<le> seen" using inv by (simp_all add: stems_inv_def)
  ultimately have "counts k + 1 + card (raw \<union> assigned) + 1 \<le> stem_bound" using bound by linarith
  then obtain v where "find_free fold_key (raw \<union> assigned) b (counts k + 1) = Some v"
    "fold_key v \<notin> raw \<union> assigned" "blen v \<le> 200"
    using find_free_ends [OF kt fin] by blast
  then show ?thesis using False by auto
qed

definition first_kept :: "(ustr \<Rightarrow> ustr) \<Rightarrow> (ustr \<Rightarrow> nat) \<Rightarrow> ustr list \<Rightarrow> ustr list \<Rightarrow> bool" where
  "first_kept fold_key counts bases res \<longleftrightarrow>
     (\<forall>i < length bases. counts (fold_key (bases ! i)) = 0 \<and>
        fold_key (bases ! i) \<notin> fold_key ` set (take i bases) \<longrightarrow> res ! i = bases ! i)"

lemma first_kept_Cons:
  assumes "first_kept fold_key (counts(fold_key b := n)) bases res"
    "counts (fold_key b) = 0 \<Longrightarrow> v = b"
  shows "first_kept fold_key counts (b # bases) (v # res)"
  unfolding first_kept_def
proof (intro allI impI)
  fix i
  assume i: "i < length (b # bases)" and
    h: "counts (fold_key ((b # bases) ! i)) = 0 \<and>
      fold_key ((b # bases) ! i) \<notin> fold_key ` set (take i (b # bases))"
  show "(v # res) ! i = (b # bases) ! i"
  proof (cases i)
    case 0
    then show ?thesis using h assms(2) by simp
  next
    case (Suc j)
    then show ?thesis using assms(1) i h unfolding first_kept_def by auto
  qed
qed

lemma unique_loop_ok:
  assumes kt: "keeps_number_tail fold_key" and inv: "stems_inv raw counts assigned seen"
    and "card raw + 2 * (seen + length ps) + 3 \<le> stem_bound"
    and "\<forall>(o', b) \<in> set ps. (b = [] \<longrightarrow> o' = []) \<and> blen b \<le> 200 \<and> fold_key b \<in> raw"
  shows "\<exists>res. unique_loop fold_key raw ps counts assigned out = Some (out @ res) \<and>
     length res = length ps \<and> distinct (map fold_key res) \<and>
     (\<forall>v \<in> set res. blen v \<le> 200 \<and> fold_key v \<notin> assigned) \<and>
     first_kept fold_key counts (map snd ps) res"
  using assms(2-)
proof (induction ps arbitrary: counts assigned seen out)
  case Nil
  then show ?case by (simp add: first_kept_def)
next
  case (Cons p ps)
  obtain orig b where p: "p = (orig, b)" by (cases p)
  have b: "b = [] \<longrightarrow> orig = []" "blen b \<le> 200" "fold_key b \<in> raw" using Cons.prems(3) p by auto
  define k where "k = fold_key b"
  obtain v where v: "(if counts k = 0 \<and> k \<notin> assigned then Some b
      else find_free fold_key (raw \<union> assigned) b (counts k + 1)) = Some v"
    "blen v \<le> 200" "fold_key v \<notin> assigned" "fold_key v = k \<or> fold_key v \<notin> raw"
    "counts k = 0 \<and> k \<notin> assigned \<longrightarrow> v = b"
    using unique_loop_pick [OF kt Cons.prems(1) _ b(2)] Cons.prems(2) unfolding k_def by auto
  have inv': "stems_inv raw (counts(k := counts k + 1)) (insert (fold_key v) assigned) (seen + 1)"
    using Cons.prems(1) v(4) by (rule stems_inv_step)
  have bound': "card raw + 2 * (seen + 1 + length ps) + 3 \<le> stem_bound"
    using Cons.prems(2) by simp
  have ps': "\<forall>(o', b) \<in> set ps. (b = [] \<longrightarrow> o' = []) \<and> blen b \<le> 200 \<and> fold_key b \<in> raw"
    using Cons.prems(3) by simp
  have kept: "counts k = 0 \<Longrightarrow> v = b"
    using v(5) Cons.prems(1) b(3) by (auto simp: stems_inv_def k_def)
  obtain res where res:
    "unique_loop fold_key raw ps (counts(k := counts k + 1)) (insert (fold_key v) assigned)
      (out @ [v]) = Some ((out @ [v]) @ res)"
    "length res = length ps" "distinct (map fold_key res)"
    "\<forall>u \<in> set res. blen u \<le> 200 \<and> fold_key u \<notin> insert (fold_key v) assigned"
    "first_kept fold_key (counts(k := counts k + 1)) (map snd ps) res"
    using Cons.IH [OF inv' bound' ps', of "out @ [v]"] by blast
  have base: "(if b = [] then orig else b) = b" using b(1) by simp
  have "unique_loop fold_key raw (p # ps) counts assigned out = Some (out @ v # res)"
    unfolding p unique_loop.simps Let_def base k_def [symmetric] v(1) using res(1) by simp
  moreover have "first_kept fold_key counts (map snd (p # ps)) (v # res)"
    using first_kept_Cons [OF res(5) [unfolded k_def]] kept by (simp add: p k_def)
  ultimately show ?case using res(2,3,4) v(2,3) by (intro exI [of _ "v # res"]) auto
qed

lemma unique_stems_ok:
  assumes "keeps_number_tail fold_key" "length stems \<le> U64_MAX"
  defines "bases \<equiv> map (\<lambda>s. truncate_utf8 s 200) stems"
  shows "\<exists>out. unique_stems fold_key stems = Some out \<and> length out = length stems \<and>
     distinct (map fold_key out) \<and> (\<forall>v \<in> set out. blen v \<le> 200) \<and>
     first_kept fold_key (\<lambda>_. 0) bases out"
proof -
  let ?raw = "set (map fold_key bases)" and ?ps = "zip stems bases"
  have inv: "stems_inv ?raw (\<lambda>_. 0) {} 0" by (simp add: stems_inv_def)
  have len: "length ?ps = length stems" by (simp add: bases_def)
  have "card ?raw \<le> length stems" using card_length [of "map fold_key bases"] by (simp add: bases_def)
  then have bound: "card ?raw + 2 * (0 + length ?ps) + 3 \<le> stem_bound"
    unfolding len using assms(2) U64_stem_bound by simp
  have ps: "\<forall>(o', b) \<in> set ?ps. (b = [] \<longrightarrow> o' = []) \<and> blen b \<le> 200 \<and> fold_key b \<in> ?raw"
    using set_zip_rightD truncate_utf8_blen by (fastforce simp: bases_def in_set_zip)
  have "map snd ?ps = bases" by (simp add: bases_def)
  then show ?thesis
    using unique_loop_ok [OF assms(1) inv bound ps, of "[]"] len
    unfolding unique_stems_def Let_def bases_def [symmetric] by auto
qed

section \<open>Packing\<close>

lemma fits_iff: "window \<le> U64_MAX \<Longrightarrow>
  fits window doc b \<longleftrightarrow> total_pages b + effective_pages doc \<le> window"
  by (auto simp: fits_def cadd_def)

lemma target_bin_Some:
  assumes "target_bin window doc bins = Some i"
  shows "i < length bins \<and> fits window doc (bins ! i) \<and>
    (\<forall>b \<in> set bins. fits window doc b \<longrightarrow> total_pages (bins ! i) \<le> total_pages b)"
proof -
  let ?c = "filter (\<lambda>(i, b). fits window doc b) (List.enumerate 0 bins)"
  obtain b where b: "min_by_key (\<lambda>(i, b). (total_pages b, i)) ?c = Some (i, b)"
    using assms by (auto simp: target_bin_def)
  note m = min_by_key_Some [OF b]
  have "(i, b) \<in> set (List.enumerate 0 bins)" "fits window doc b" using m by auto
  then have i: "i < length bins" "bins ! i = b" by (auto simp: in_set_enumerate_eq)
  have "total_pages b \<le> total_pages b'" if b': "b' \<in> set bins" "fits window doc b'" for b'
  proof -
    obtain j where "j < length bins" "bins ! j = b'" using b'(1) by (auto simp: in_set_conv_nth)
    then have "(j, b') \<in> set ?c" using b'(2) by (auto simp: in_set_enumerate_eq)
    then have "(total_pages b, i) \<le> (total_pages b', j)" using m by fastforce
    then show ?thesis by (auto simp: less_eq_prod_def)
  qed
  then show ?thesis using i \<open>fits window doc b\<close> by simp
qed

lemma target_bin_None:
  "target_bin window doc bins = None \<longleftrightarrow> (\<forall>b \<in> set bins. \<not> fits window doc b)"
proof -
  have "snd ` set (List.enumerate 0 bins) = set bins" by (metis image_set map_snd_enumerate)
  then show ?thesis
    by (simp add: target_bin_def filter_empty_conv case_prod_unfold flip: image_iff)
      (metis (mono_tags, lifting) imageE image_eqI)
qed

definition add_doc :: "InputDocument \<Rightarrow> PlannedTask \<Rightarrow> PlannedTask" where
  "add_doc doc b = b\<lparr>total_pages := total_pages b + effective_pages doc, documents := documents b @ [doc]\<rparr>"

text \<open>
  What one placement does: it adds the document to the emptiest bin with room, or opens a new one
  because the document alone exceeds the window or no bin has room.
\<close>

lemma place_cases:
  assumes w: "window \<le> U64_MAX"
  obtains (add) i where "i < length bins" "effective_pages doc \<le> window"
      "total_pages (bins ! i) + effective_pages doc \<le> window"
      "place window bins doc = bins[i := add_doc doc (bins ! i)]"
  | (new) "place window bins doc = bins @ [new_bin doc]"
      "\<forall>b \<in> set bins. window < total_pages b + effective_pages doc"
proof (cases "effective_pages doc > window")
  case True
  then show ?thesis using that(2) by (simp add: place_def trans_less_add2)
next
  case small: False
  show ?thesis
  proof (cases "target_bin window doc bins")
    case None
    then have "place window bins doc = bins @ [new_bin doc]" using small by (simp add: place_def)
    moreover have "\<forall>b \<in> set bins. window < total_pages b + effective_pages doc"
      using None w by (auto simp: target_bin_None fits_iff)
    ultimately show ?thesis by (rule that(2))
  next
    case (Some i)
    then have i: "i < length bins" "total_pages (bins ! i) + effective_pages doc \<le> window"
      using target_bin_Some [OF Some] w by (auto simp: fits_iff)
    then have "cadd (total_pages (bins ! i)) (effective_pages doc) =
        Some (total_pages (bins ! i) + effective_pages doc)"
      using w by (simp add: cadd_def)
    then have "place window bins doc = bins[i := add_doc doc (bins ! i)]"
      using small Some by (simp add: place_def add_doc_def)
    then show ?thesis using that(1) i small by simp
  qed
qed

definition bin_ok :: "nat \<Rightarrow> PlannedTask \<Rightarrow> bool" where
  "bin_ok window b \<longleftrightarrow> documents b \<noteq> [] \<and>
     total_pages b = sum_list (map effective_pages (documents b)) \<and>
     (total_pages b \<le> window \<or> length (documents b) = 1)"

definition plan_inv :: "nat \<Rightarrow> InputDocument list \<Rightarrow> PlannedTask list \<Rightarrow> bool" where
  "plan_inv window docs bins \<longleftrightarrow>
     mset (concat (map documents bins)) = mset docs \<and> (\<forall>b \<in> set bins. bin_ok window b) \<and>
     (\<forall>j < length bins. \<forall>i < j. window < total_pages (bins ! i) + total_pages (bins ! j))"

lemma mset_concat_update:
  "i < length bins \<Longrightarrow>
   mset (concat (map documents (bins[i := add_doc doc (bins ! i)]))) =
   add_mset doc (mset (concat (map documents bins)))"
proof (induction bins arbitrary: i)
  case (Cons b bins)
  then show ?case by (cases i) (simp_all add: add_doc_def)
qed simp

lemma place_inv:
  assumes w: "window \<le> U64_MAX" and inv: "plan_inv window docs bins"
  shows "plan_inv window (docs @ [doc]) (place window bins doc)"
  using w
proof (cases rule: place_cases [where bins = bins and doc = doc])
  case (add i)
  let ?b = "add_doc doc (bins ! i)"
  have bi: "bin_ok window (bins ! i)" using inv add(1) by (simp add: plan_inv_def)
  then have "bin_ok window ?b" using add(3) by (simp add: bin_ok_def add_doc_def)
  then have "\<forall>b \<in> set (bins[i := ?b]). bin_ok window b"
    using inv set_update_subset_insert [of bins i ?b] by (auto simp: plan_inv_def)
  moreover have grow: "total_pages (bins ! k) \<le> total_pages (bins[i := ?b] ! k)"
    if "k < length bins" for k
    using that by (cases "k = i") (simp_all add: add_doc_def)
  have "window < total_pages (bins[i := ?b] ! k) + total_pages (bins[i := ?b] ! j)"
    if "j < length bins" "k < j" for j k
  proof -
    have "window < total_pages (bins ! k) + total_pages (bins ! j)"
      using inv that by (simp add: plan_inv_def)
    also have "\<dots> \<le> total_pages (bins[i := ?b] ! k) + total_pages (bins[i := ?b] ! j)"
      using that by (intro add_mono grow) simp_all
    finally show ?thesis .
  qed
  ultimately show ?thesis
    using inv add(1) mset_concat_update [OF add(1), of doc] unfolding add(4) plan_inv_def by simp
next
  case new
  have "bin_ok window (new_bin doc)" by (simp add: bin_ok_def new_bin_def)
  moreover have "window < total_pages (bins ! k) + total_pages (new_bin doc)" if "k < length bins" for k
    using new(2) that by (simp add: new_bin_def)
  ultimately show ?thesis
    using inv unfolding new(1) plan_inv_def
    by (auto simp: new_bin_def nth_append less_Suc_eq)
qed

lemma fold_place_inv:
  "window \<le> U64_MAX \<Longrightarrow> plan_inv window done0 bins \<Longrightarrow>
   plan_inv window (done0 @ docs) (foldl (place window) bins docs)"
proof (induction docs arbitrary: done0 bins)
  case (Cons d docs)
  then show ?case using Cons.IH [of "done0 @ [d]"] place_inv by simp
qed simp

lemma length_reindex [simp]: "length (reindex bins) = length bins"
  by (simp add: reindex_def)

lemma reindex_nth:
  "i < length bins \<Longrightarrow> documents (reindex bins ! i) = documents (bins ! i) \<and>
     total_pages (reindex bins ! i) = total_pages (bins ! i) \<and> index (reindex bins ! i) = i + 1"
  by (simp add: reindex_def nth_enumerate_eq)

lemma reindex_simps:
  "map documents (reindex bins) = map documents bins"
  "map index (reindex bins) = [1..<length bins + 1]"
  by (rule nth_equalityI, simp_all add: reindex_nth del: upt_Suc)+

lemma bin_ok_cong:
  "documents b = documents b' \<Longrightarrow> total_pages b = total_pages b' \<Longrightarrow> bin_ok window b = bin_ok window b'"
  by (simp add: bin_ok_def)

lemma plan_inv_reindex: "plan_inv window docs bins \<Longrightarrow> plan_inv window docs (reindex bins)"
proof -
  assume inv: "plan_inv window docs bins"
  have "bin_ok window (reindex bins ! i)" if "i < length bins" for i
    using inv that reindex_nth [OF that] bin_ok_cong [of "reindex bins ! i" "bins ! i"]
    by (simp add: plan_inv_def)
  then have "\<forall>b \<in> set (reindex bins). bin_ok window b" by (auto simp: in_set_conv_nth)
  then show ?thesis using inv by (auto simp: plan_inv_def reindex_simps reindex_nth)
qed

lemma plan_tasks_pipeline:
  assumes "plan_tasks Pipeline docs window = Ok tasks" "window \<le> U64_MAX"
  shows "plan_inv window docs tasks \<and> map index tasks = [1..<length tasks + 1]"
proof -
  have t: "tasks = reindex (foldl (place window) [] (plan_order docs))"
    using assms(1) by (simp add: plan_tasks_def split: if_splits)
  have "plan_inv window (plan_order docs) (foldl (place window) [] (plan_order docs))"
    using fold_place_inv [OF assms(2), of "[]" "[]"] by (simp add: plan_inv_def)
  then have "plan_inv window docs (foldl (place window) [] (plan_order docs))"
    by (simp add: plan_inv_def plan_order_def)
  then show ?thesis using t plan_inv_reindex reindex_simps(2) length_reindex by metis
qed

lemma plan_tasks_single:
  assumes "plan_tasks backend docs window = Ok tasks" "backend \<noteq> Pipeline"
  shows "tasks = map (\<lambda>i. \<lparr>index = i + 1, documents = [docs ! i],
    total_pages = effective_pages (docs ! i)\<rparr>) [0..<length docs]"
proof -
  have "tasks = map (\<lambda>(i, d). \<lparr>index = i + 1, documents = [d], total_pages = effective_pages d\<rparr>)
      (List.enumerate 0 docs)"
    using assms by (simp add: plan_tasks_def split: if_splits)
  then show ?thesis by (intro nth_equalityI) (simp_all add: nth_enumerate_eq)
qed

section \<open>Properties\<close>

text \<open>The bounded read loop. On a file whose reads behave as \<open>std::io::Read\<close> documents, in
  whatever pieces they come, \<open>load_pdf_with_limit\<close> collects the whole file when its size is
  within the limit and reports the limit error otherwise; it never passes a truncated file on.\<close>

theorem load_pdf_reads_whole_file:
  assumes "reads_file read content" "length content \<le> U64_MAX" "m \<le> U64_MAX"
  shows "load_loop read m 0 [] =
    (if length content \<le> m then Ok content
     else Err (''upload file exceeds configured input limit of '' @ show_dec m @ '' bytes''))"
  using load_loop_reads [OF assms, of 0] by simp

lemma reads_file_pieces:
  assumes "0 < k"
  shows "reads_file (\<lambda>off n. Ok (take (min n k) (drop off c))) c"
  unfolding reads_file_def
proof (intro allI)
  fix off n
  let ?bs = "take (min n k) (drop off c)"
  have "?bs = take (length ?bs) (drop off c)" by (metis append_eq_conv_conj append_take_drop_id)
  then show "\<exists>bs. Ok ?bs = Ok bs \<and> bs = take (length bs) (drop off c) \<and> length bs \<le> n \<and>
      (bs = [] \<longrightarrow> n = 0 \<or> length c \<le> off)"
    using assms by (intro exI [of _ ?bs]) auto
qed

theorem load_pdf_reads_whole_file_witness:
  "load_loop (\<lambda>off n. Ok (take (min n 2) (drop off [1, 2, 3]))) 5 0 [] = Ok [1, 2, 3]"
  using load_pdf_reads_whole_file [OF reads_file_pieces, of 2 "[1, 2, 3]" 5]
  by (simp add: U64_MAX_def)

text \<open>C16: \<open>unique_stems\<close> always returns. It gives one name per document, no two of them equal up to
  case folding and none longer than 200 bytes, and the first document with a (truncated) name keeps
  that name. The only fact used about \<open>to_lowercase\<close> is that it leaves a trailing
  underscore-and-digits suffix alone.\<close>

theorem unique_stems_distinct:
  assumes "keeps_number_tail fold_key" "length stems \<le> U64_MAX"
  shows "\<exists>out. unique_stems fold_key stems = Some out \<and> length out = length stems \<and>
     distinct (map fold_key out) \<and> (\<forall>v \<in> set out. blen v \<le> 200) \<and>
     (\<forall>i < length stems.
        fold_key (truncate_utf8 (stems ! i) 200) \<notin>
          fold_key ` (\<lambda>s. truncate_utf8 s 200) ` set (take i stems) \<longrightarrow>
        out ! i = truncate_utf8 (stems ! i) 200)"
  using unique_stems_ok [OF assms] by (auto simp: first_kept_def take_map)

lemma keeps_number_tail_ascii: "keeps_number_tail (map to_ascii_lowercase)"
proof -
  have "map to_ascii_lowercase (show_nat n) = show_nat n" for n
    by (rule map_idI) (auto dest!: show_nat_digits simp: is_ascii_digit_def to_ascii_lowercase_def)
  then show ?thesis by (auto simp: keeps_number_tail_def to_ascii_lowercase_def)
qed

theorem unique_stems_distinct_witness:
  "keeps_number_tail (map to_ascii_lowercase) \<and>
   (\<exists>out. unique_stems (map to_ascii_lowercase) [[97], [65], [97]] = Some out \<and> length out = 3 \<and>
      distinct (map (map to_ascii_lowercase) out))"
  using unique_stems_distinct [OF keeps_number_tail_ascii, of "[[97], [65], [97]]"]
    keeps_number_tail_ascii
  by (auto simp: U64_MAX_def)

text \<open>C14: a plan is a partition. Whatever the backend, the documents of the planned tasks are
  exactly the given documents (each once), every task holds at least one, its page total is the
  sum over its documents, and the tasks are numbered from one; planning fails exactly when the
  window or some page count is zero.\<close>

theorem plan_tasks_partition:
  assumes "window \<le> U64_MAX"
  shows "(\<forall>tasks. plan_tasks backend docs window = Ok tasks \<longrightarrow>
      mset (concat (map documents tasks)) = mset docs \<and>
      map index tasks = [1..<length tasks + 1] \<and>
      (\<forall>t \<in> set tasks. documents t \<noteq> [] \<and>
         total_pages t = sum_list (map effective_pages (documents t)))) \<and>
    (is_ok (plan_tasks backend docs window) \<longleftrightarrow>
      window \<noteq> 0 \<and> (\<forall>d \<in> set docs. effective_pages d \<noteq> 0))"
proof (intro conjI allI impI)
  show "is_ok (plan_tasks backend docs window) \<longleftrightarrow>
      window \<noteq> 0 \<and> (\<forall>d \<in> set docs. effective_pages d \<noteq> 0)"
    by (auto simp: plan_tasks_def)
next
  fix tasks assume ok: "plan_tasks backend docs window = Ok tasks"
  have "mset (concat (map documents tasks)) = mset docs \<and> map index tasks = [1..<length tasks + 1] \<and>
      (\<forall>t \<in> set tasks. documents t \<noteq> [] \<and> total_pages t = sum_list (map effective_pages (documents t)))"
  proof (cases "backend = Pipeline")
    case True
    then show ?thesis using plan_tasks_pipeline [of docs window tasks] ok assms
      by (auto simp: plan_inv_def bin_ok_def)
  next
    case False
    have t: "tasks = map (\<lambda>i. \<lparr>index = i + 1, documents = [docs ! i],
        total_pages = effective_pages (docs ! i)\<rparr>) [0..<length docs]"
      using ok False by (rule plan_tasks_single)
    have "concat (map documents tasks) = map (\<lambda>i. docs ! i) [0..<length docs]"
      unfolding t by (simp add: comp_def concat_map_singleton)
    then have "concat (map documents tasks) = docs" by (simp add: map_nth)
    moreover have "map index tasks = [1..<length tasks + 1]"
      unfolding t by (rule nth_equalityI) (simp_all del: upt_Suc)
    ultimately show ?thesis by (auto simp: t)
  qed
  then show "mset (concat (map documents tasks)) = mset docs" "map index tasks = [1..<length tasks + 1]"
    "\<forall>t \<in> set tasks. documents t \<noteq> [] \<and> total_pages t = sum_list (map effective_pages (documents t))"
    by blast+
qed

definition sample_doc :: "nat \<Rightarrow> nat \<Rightarrow> InputDocument" where
  "sample_doc n pages = \<lparr>path = [], file_suffix = [], stem = [115, 48 + n],
     effective_pages = pages, order = n\<rparr>"

theorem plan_tasks_partition_witness:
  "\<exists>tasks. plan_tasks Pipeline [sample_doc 1 70, sample_doc 2 40, sample_doc 3 24] 64 = Ok tasks \<and>
     mset (concat (map documents tasks)) = {#sample_doc 1 70, sample_doc 2 40, sample_doc 3 24#}"
proof -
  have "is_ok (plan_tasks Pipeline [sample_doc 1 70, sample_doc 2 40, sample_doc 3 24] 64)"
    by (simp add: plan_tasks_def sample_doc_def)
  then obtain tasks where
    "plan_tasks Pipeline [sample_doc 1 70, sample_doc 2 40, sample_doc 3 24] 64 = Ok tasks"
    by (auto simp: is_ok_iff)
  then show ?thesis
    using plan_tasks_partition [of 64 Pipeline "[sample_doc 1 70, sample_doc 2 40, sample_doc 3 24]"]
    by (auto simp: U64_MAX_def)
qed

text \<open>C15: the pipeline packing respects the window and is irreducible. Only a document that alone
  exceeds the processing window makes a task exceed it, and no two planned tasks could have been
  merged: together any two have more pages than the window.\<close>

theorem plan_tasks_packing:
  assumes "plan_tasks Pipeline docs window = Ok tasks" "window \<le> U64_MAX"
  shows "(\<forall>t \<in> set tasks. total_pages t \<le> window \<or> (\<exists>d. documents t = [d])) \<and>
    (\<forall>j < length tasks. \<forall>i < j. window < total_pages (tasks ! i) + total_pages (tasks ! j))"
  using plan_tasks_pipeline [OF assms]
  by (auto simp: plan_inv_def bin_ok_def length_Suc_conv)

theorem plan_tasks_packing_witness:
  "\<exists>tasks. plan_tasks Pipeline [sample_doc 1 40, sample_doc 2 40] 64 = Ok tasks \<and>
     (\<forall>j < length tasks. \<forall>i < j. 64 < total_pages (tasks ! i) + total_pages (tasks ! j))"
proof -
  have "is_ok (plan_tasks Pipeline [sample_doc 1 40, sample_doc 2 40] 64)"
    by (simp add: plan_tasks_def sample_doc_def)
  then obtain tasks where t: "plan_tasks Pipeline [sample_doc 1 40, sample_doc 2 40] 64 = Ok tasks"
    by (auto simp: is_ok_iff)
  then show ?thesis using plan_tasks_packing [OF t] by (auto simp: U64_MAX_def)
qed

text \<open>Page selection. With \<open>count\<close> pages a request for \<open>start..end\<close> selects exactly the pages of
  the zero-based range clipped to the document, and fails when the document is empty or nothing of
  the range is left.\<close>

theorem selected_pages_counts:
  assumes "cnt \<le> U64_MAX"
  shows "selected_pages cnt start e =
    (if cnt = 0 then Err ''PDF has no pages''
     else let pages = {p. start \<le> p \<and> p < cnt \<and> (\<forall>x. e = Some x \<longrightarrow> p \<le> x)}
          in if pages = {} then Err ''PDF page range is invalid'' else Ok (card pages))"
proof (cases "cnt = 0")
  case True
  then show ?thesis by (simp add: selected_pages_def csub_def)
next
  case False
  define stop where "stop = min (case e of Some x \<Rightarrow> x | None \<Rightarrow> cnt - 1) (cnt - 1)"
  have set: "{p. start \<le> p \<and> p < cnt \<and> (\<forall>x. e = Some x \<longrightarrow> p \<le> x)} = {start..stop}"
    using False by (auto simp: stop_def split: option.splits)
  have le: "Suc (stop - start) \<le> U64_MAX" using False assms by (auto simp: stop_def)
  have "csub cnt 1 = Some (cnt - 1)" using False by (simp add: csub_def)
  then have "selected_pages cnt start e =
      (if start > stop then Err ''PDF page range is invalid''
       else ok_or (Option.bind (csub stop start) (\<lambda>pages. cadd pages 1)) ''PDF page range is invalid'')"
    by (simp only: selected_pages_def ok_or.simps and_then.simps Let_def stop_def [symmetric])
  then have "selected_pages cnt start e =
      (if start > stop then Err ''PDF page range is invalid'' else Ok (Suc stop - start))"
    using le by (simp add: csub_def cadd_def Suc_diff_le)
  then show ?thesis unfolding set using False by (simp add: Let_def)
qed

theorem selected_pages_counts_witness:
  "(5 :: nat) \<le> U64_MAX \<and> selected_pages 5 1 (Some 9) = Ok 4"
proof -
  have h: "(5 :: nat) \<le> U64_MAX" by (simp add: U64_MAX_def)
  have "{p :: nat. 1 \<le> p \<and> p < 5 \<and> (\<forall>x. Some 9 = Some x \<longrightarrow> p \<le> x)} = {1, 2, 3, 4}" by auto
  then show ?thesis using h selected_pages_counts [OF h, of 1 "Some 9"] by (simp add: Let_def)
qed

end
