(* ===== verification/Zip_Scan.thy ===== *)
theory Zip_Scan
  imports Text "HOL-Library.Product_Lexorder"
begin

unbundle bit_operations_syntax

text \<open>
  \<^verbatim>\<open>src/mineru_api/zip_scan.rs\<close>: the preflight scan of a ZIP archive that runs before any
  extraction. The reader is the archive's bytes; a slice index out of range is the error
  \<open>Panic\<close>, so that the absence of panics is a property of the model. That an allocation can fail is
  not modelled.
\<close>

section \<open>Limits and errors\<close>

record ScanLimits =
  max_entries :: nat
  central_cap :: nat
  zip64_cap :: nat
  name_cap :: nat
  component_cap :: nat
  depth_cap :: nat
  total_name_cap :: nat
  total_component_cap :: nat

datatype ScanError = Fallback | Limit | Panic

type_synonym 'a scanned = "('a, ScanError) result"

definition CENTRAL_CAP :: nat where "CENTRAL_CAP = 64 * 1024 * 1024"
definition ZIP64_CAP :: nat where "ZIP64_CAP = 64 * 1024"
definition NAME_CAP :: nat where "NAME_CAP = 4 * 1024"
definition COMPONENT_CAP :: nat where "COMPONENT_CAP = 255"
definition DEPTH_CAP :: nat where "DEPTH_CAP = 64"
definition TOTAL_NAME_CAP :: nat where "TOTAL_NAME_CAP = 32 * 1024 * 1024"
definition TOTAL_COMPONENT_CAP :: nat where "TOTAL_COMPONENT_CAP = 1000000"
definition ENTRY_CAP :: nat where "ENTRY_CAP = 100000"

definition production :: "nat \<Rightarrow> ScanLimits" where
  "production entries =
     \<lparr>max_entries = min entries ENTRY_CAP, central_cap = CENTRAL_CAP, zip64_cap = ZIP64_CAP,
      name_cap = NAME_CAP, component_cap = COMPONENT_CAP, depth_cap = DEPTH_CAP,
      total_name_cap = TOTAL_NAME_CAP, total_component_cap = TOTAL_COMPONENT_CAP\<rparr>"

definition limits_invalid :: "ScanLimits \<Rightarrow> bool" where
  "limits_invalid l \<longleftrightarrow>
     max_entries l = 0 \<or> central_cap l = 0 \<or> zip64_cap l < 44 \<or> name_cap l = 0 \<or>
     component_cap l = 0 \<or> depth_cap l = 0 \<or> total_name_cap l = 0 \<or> total_component_cap l = 0"

definition from_resolved :: "nat \<Rightarrow> nat \<Rightarrow> nat \<Rightarrow> nat \<Rightarrow> nat \<Rightarrow> nat \<Rightarrow> (ScanLimits, string) result" where
  "from_resolved entries central names depth total_names total_components =
     (let l = \<lparr>max_entries = entries, central_cap = central, zip64_cap = ZIP64_CAP,
        name_cap = names, component_cap = COMPONENT_CAP, depth_cap = depth,
        total_name_cap = total_names, total_component_cap = total_components\<rparr>
      in if limits_invalid l then Err ''ZIP scan limits must be positive'' else Ok l)"

record ScanResult =
  sr_count :: nat
  sr_central_start :: nat

section \<open>Reading\<close>

definition le_val :: "byte list \<Rightarrow> nat" where
  "le_val bs = foldr (\<lambda>b v. unat b + 256 * v) bs 0"

definition field_at :: "nat \<Rightarrow> byte list \<Rightarrow> nat \<Rightarrow> nat scanned" where
  "field_at w b i = (if i + w \<le> length b then Ok (le_val (take w (drop i b))) else Err Panic)"

definition u16at :: "byte list \<Rightarrow> nat \<Rightarrow> nat scanned" where "u16at b i = field_at 2 b i"
definition u32at :: "byte list \<Rightarrow> nat \<Rightarrow> nat scanned" where "u32at b i = field_at 4 b i"
definition u64at :: "byte list \<Rightarrow> nat \<Rightarrow> nat scanned" where "u64at b i = field_at 8 b i"

definition U16_MAX :: nat where "U16_MAX = 65535"
definition U32_MAX :: nat where "U32_MAX = 4294967295"

text \<open>\<open>seek\<close> and \<open>read_exact\<close>: an empty read succeeds anywhere, any other read only inside the file.\<close>

definition read_at :: "byte list \<Rightarrow> nat \<Rightarrow> nat \<Rightarrow> byte list scanned" where
  "read_at data pos n =
     (if n = 0 then Ok [] else if pos + n \<le> length data then Ok (take n (drop pos data))
      else Err Fallback)"

definition advance :: "nat \<Rightarrow> nat \<Rightarrow> nat \<Rightarrow> nat scanned" where
  "advance cursor stop n = ok_or (opt_filter (\<lambda>v. v \<le> stop) (cadd cursor n)) Fallback"

definition take_bytes :: "byte list \<Rightarrow> nat \<Rightarrow> nat \<Rightarrow> nat \<Rightarrow> (byte list \<times> nat) scanned" where
  "take_bytes data cursor stop n =
     and_then (advance cursor stop n) (\<lambda>next.
     and_then (read_at data cursor n) (\<lambda>b. Ok (b, next)))"

definition skip_bytes :: "nat \<Rightarrow> nat \<Rightarrow> nat \<Rightarrow> nat scanned" where
  "skip_bytes cursor stop n = advance cursor stop n"

definition sig :: "nat \<Rightarrow> nat \<Rightarrow> byte list" where
  "sig a b = [0x50, 0x4B, of_nat a, of_nat b]"

section \<open>Extra fields and names\<close>

function validate_extra_from :: "byte list \<Rightarrow> nat \<Rightarrow> unit scanned" where
  "validate_extra_from extra i =
     (if i \<ge> length extra then Ok ()
      else if i + 4 > length extra then Err Fallback
      else and_then (u16at extra i) (\<lambda>id.
           and_then (u16at extra (i + 2)) (\<lambda>n.
           if i + 4 + n > length extra \<or> id = 0x7075 then Err Fallback
           else validate_extra_from extra (i + 4 + n))))"
  by pat_completeness auto
termination
  by (relation "measure (\<lambda>(extra, i). length extra - i)") auto

declare validate_extra_from.simps [simp del]

definition validate_extra :: "byte list \<Rightarrow> unit scanned" where
  "validate_extra extra = validate_extra_from extra 0"

text \<open>
  \<open>zip64_values\<close>: \<open>need\<close> and \<open>values\<close> in the order uncompressed size, compressed size, local header
  offset, disk number. \<open>fill\<close> is the inner loop over \<open>k\<close> for a ZIP64 record at \<open>j\<close>.
\<close>

fun fill :: "byte list \<Rightarrow> nat \<Rightarrow> nat \<Rightarrow> nat \<Rightarrow> bool list \<Rightarrow> nat list \<Rightarrow> nat list scanned" where
  "fill extra j stop k (n # need) (v # vals) =
     (if n then
        (let width = (if k = 3 then 4 else 8) in
         if j + width > stop then Err Fallback
         else and_then (if k = 3 then u32at extra j else u64at extra j) (\<lambda>v'.
              and_then (fill extra (j + width) stop (k + 1) need vals) (\<lambda>vs. Ok (v' # vs))))
      else and_then (fill extra j stop (k + 1) need vals) (\<lambda>vs. Ok (v # vs)))"
| "fill extra j stop k _ _ = Ok []"

function zip64_loop :: "byte list \<Rightarrow> nat \<Rightarrow> bool list \<Rightarrow> nat list \<Rightarrow> bool \<Rightarrow> (bool list \<times> nat list) scanned" where
  "zip64_loop extra i need vals found =
     (if i \<ge> length extra then Ok (need, vals)
      else if i + 4 > length extra then Err Fallback
      else and_then (u16at extra i) (\<lambda>id.
           and_then (u16at extra (i + 2)) (\<lambda>n.
           if i + 4 + n > length extra then Err Fallback
           else if id = 1 then
             if found then Err Fallback
             else and_then (fill extra (i + 4) (i + 4 + n) 0 need vals) (\<lambda>vals'.
                  zip64_loop extra (i + 4 + n) (map (\<lambda>_. False) need) vals' True)
           else zip64_loop extra (i + 4 + n) need vals found)))"
  by pat_completeness auto
termination
  by (relation "measure (\<lambda>(extra, i, _). length extra - i)") auto

declare zip64_loop.simps [simp del]

definition zip64_values :: "byte list \<Rightarrow> byte list \<Rightarrow> (nat \<times> nat) scanned" where
  "zip64_values h extra =
     and_then (u32at h 24) (\<lambda>a. and_then (u32at h 20) (\<lambda>b. and_then (u32at h 42) (\<lambda>c.
     and_then (u16at h 34) (\<lambda>d.
     and_then (zip64_loop extra 0 [a = U32_MAX, b = U32_MAX, c = U32_MAX, d = U16_MAX] [a, b, c, d] False)
       (\<lambda>(need, vals).
          if True \<in> set need then Err Fallback
          else if vals ! 3 \<noteq> 0 then Err Fallback
          else Ok (vals ! 1, vals ! 2))))))"

text \<open>The component loop of \<open>validate_name\<close>; \<open>rest = []\<close> is \<open>parts.peek().is_none()\<close>.\<close>

fun name_parts :: "ScanLimits \<Rightarrow> byte list list \<Rightarrow> nat \<Rightarrow> nat scanned" where
  "name_parts l [] components = Ok components"
| "name_parts l (p # rest) components =
     (if p = [] \<and> rest = [] then name_parts l rest components
      else if length p > component_cap l then Err Limit
      else if p = [] \<or> p = [0x2E] \<or> p = [0x2E, 0x2E] then Err Fallback
      else and_then (ok_or (opt_filter (\<lambda>v. v \<le> total_component_cap l) (cadd components 1)) Limit)
             (\<lambda>components'. name_parts l rest components'))"

definition validate_name :: "byte list \<Rightarrow> ScanLimits \<Rightarrow> nat \<Rightarrow> nat scanned" where
  "validate_name n l components =
     (if n = [] \<or> (\<exists>b \<in> set n. b = 0x5C \<or> b < 0x20 \<or> b = 0x7F) then Err Fallback
      else and_then (name_parts l (split_on 0x2F n) components) (\<lambda>components'.
        if length (filter (\<lambda>p. p \<noteq> []) (split_on 0x2F n)) > depth_cap l then Err Limit
        else Ok components'))"

section \<open>The central directory\<close>

definition zip64 :: "byte list \<Rightarrow> nat \<Rightarrow> nat \<Rightarrow> nat \<Rightarrow> (nat \<times> nat \<times> nat \<times> nat) scanned" where
  "zip64 data eocd stop cap =
     (if eocd < 20 then Err Fallback
      else and_then (read_at data (eocd - 20) 20) (\<lambda>l.
           and_then (u32at l 4) (\<lambda>disk. and_then (u32at l 16) (\<lambda>disks.
           if take 4 l \<noteq> sig 6 7 \<or> disk \<noteq> 0 \<or> disks \<noteq> 1 then Err Fallback
           else and_then (u64at l 8) (\<lambda>pos.
                and_then (read_at data pos 12) (\<lambda>fixed.
                if take 4 fixed \<noteq> sig 6 6 then Err Fallback
                else and_then (u64at fixed 4) (\<lambda>payload.
                     if payload < 44 then Err Fallback
                     else if payload > cap then Err Limit
                     else and_then (ok_or (Option.bind (cadd pos 12) (\<lambda>v. cadd v payload)) Fallback) (\<lambda>record_end.
                          if record_end \<noteq> eocd - 20 \<or> record_end > stop then Err Fallback
                          else and_then (read_at data (pos + 12) payload) (\<lambda>p.
                               and_then (u32at p 4) (\<lambda>d1. and_then (u32at p 8) (\<lambda>d2.
                               and_then (u64at p 12) (\<lambda>c1. and_then (u64at p 20) (\<lambda>c2.
                               if d1 \<noteq> 0 \<or> d2 \<noteq> 0 \<or> c1 \<noteq> c2 then Err Fallback
                               else and_then (u64at p 28) (\<lambda>size. and_then (u64at p 36) (\<lambda>offset.
                                    Ok (c1, size, offset, pos))))))))))))))))"

definition directory_values :: "byte list \<Rightarrow> byte list \<Rightarrow> nat \<Rightarrow> nat \<Rightarrow> nat \<Rightarrow> bool \<Rightarrow> bool \<Rightarrow>
    (nat \<times> nat \<times> nat \<times> nat) scanned" where
  "directory_values data e eocd_at stop cap count_saturated size_or_offset_saturated =
     (let zip32 = and_then (u16at e 8) (\<lambda>c. and_then (u32at e 12) (\<lambda>s. and_then (u32at e 16) (\<lambda>off.
        Ok (c, s, off, eocd_at))))
      in if size_or_offset_saturated then zip64 data eocd_at stop cap
         else if count_saturated then
           (case zip64 data eocd_at stop cap of
              Ok v \<Rightarrow> Ok v
            | Err Fallback \<Rightarrow> zip32
            | Err Limit \<Rightarrow> Err Limit
            | Err Panic \<Rightarrow> Err Panic)
         else zip32)"

text \<open>\<open>tail.windows(4).enumerate().rev().find_map(\<dots>)\<close>: the last window that can be the record.\<close>

fun find_eocd :: "byte list \<Rightarrow> nat \<Rightarrow> nat option scanned" where
  "find_eocd tail 0 = Ok None"
| "find_eocd tail (Suc i) =
     (if take 4 (drop i tail) \<noteq> sig 5 6 \<or> i + 22 > length tail then find_eocd tail i
      else and_then (u16at tail (i + 20)) (\<lambda>n.
        if i + 22 + n = length tail then Ok (Some i) else find_eocd tail i))"

record scan_state =
  cursor :: nat
  names :: nat
  components :: nat
  ranges :: "(nat \<times> nat) list"

text \<open>One iteration of the loop over the central directory.\<close>

definition scan_local :: "byte list \<Rightarrow> ScanLimits \<Rightarrow> nat \<Rightarrow> byte list \<Rightarrow> nat \<Rightarrow> nat \<Rightarrow> nat \<Rightarrow> (nat \<times> nat) scanned" where
  "scan_local data l central_start name0 mth compressed loc =
     (if opt_filter (\<lambda>e. e \<le> central_start) (cadd loc 30) = None then Err Fallback
      else and_then (read_at data loc 30) (\<lambda>h.
           and_then (u16at h 8) (\<lambda>local_mth.
           if take 4 h \<noteq> sig 3 4 \<or> local_mth \<noteq> mth then Err Fallback
           else and_then (u16at h 6) (\<lambda>local_flags.
                if local_flags AND 0x9 \<noteq> 0 then Err Fallback
                else and_then (u16at h 26) (\<lambda>lnl. and_then (u16at h 28) (\<lambda>lxl.
                     if lnl > name_cap l then Err Limit
                     else and_then (ok_or (cadd loc 30) Fallback) (\<lambda>name_at.
                          and_then (read_at data name_at lnl) (\<lambda>local_name.
                          if local_name \<noteq> name0 then Err Fallback
                          else and_then (read_at data (name_at + lnl) lxl) (\<lambda>local_extra.
                               and_then (validate_extra local_extra) (\<lambda>_.
                               and_then (ok_or (Option.bind (cadd name_at lnl) (\<lambda>v. cadd v lxl)) Fallback) (\<lambda>dat.
                               and_then (ok_or (cadd dat compressed) Fallback) (\<lambda>data_end.
                               if data_end > central_start then Err Fallback
                               else Ok (loc, data_end)))))))))))))"

definition scan_entry :: "byte list \<Rightarrow> ScanLimits \<Rightarrow> nat \<Rightarrow> nat \<Rightarrow> scan_state \<Rightarrow> scan_state scanned" where
  "scan_entry data l central_start central_end s =
     and_then (take_bytes data (cursor s) central_end 46) (\<lambda>(h, cur1).
     and_then (u16at h 34) (\<lambda>disk.
     if take 4 h \<noteq> sig 1 2 \<or> (disk \<noteq> 0 \<and> disk \<noteq> U16_MAX) then Err Fallback
     else and_then (u16at h 8) (\<lambda>flags. and_then (u16at h 10) (\<lambda>mth.
          if flags AND 0x9 \<noteq> 0 \<or> (mth \<noteq> 0 \<and> mth \<noteq> 8) then Err Fallback
          else and_then (u16at h 28) (\<lambda>nl. and_then (u16at h 30) (\<lambda>xl. and_then (u16at h 32) (\<lambda>cl.
               if nl > name_cap l then Err Limit
               else and_then (ok_or (opt_filter (\<lambda>v. v \<le> total_name_cap l) (cadd (names s) nl)) Limit) (\<lambda>names'.
                    and_then (take_bytes data cur1 central_end nl) (\<lambda>(name0, cur2).
                    and_then (validate_name name0 l (components s)) (\<lambda>components'.
                    and_then (take_bytes data cur2 central_end xl) (\<lambda>(extra, cur3).
                    and_then (validate_extra extra) (\<lambda>_.
                    and_then (skip_bytes cur3 central_end cl) (\<lambda>cur4.
                    and_then (zip64_values h extra) (\<lambda>(compressed, loc).
                    and_then (scan_local data l central_start name0 mth compressed loc) (\<lambda>r.
                    Ok \<lparr>cursor = cur4, names = names', components = components',
                        ranges = ranges s @ [r]\<rparr>)))))))))))))))"

fun scan_entries :: "byte list \<Rightarrow> ScanLimits \<Rightarrow> nat \<Rightarrow> nat \<Rightarrow> nat \<Rightarrow> scan_state \<Rightarrow> scan_state scanned" where
  "scan_entries data l central_start central_end 0 s = Ok s"
| "scan_entries data l central_start central_end (Suc n) s =
     and_then (scan_entry data l central_start central_end s)
       (scan_entries data l central_start central_end n)"

text \<open>\<open>ranges.windows(2).any(|r| r[0].1 > r[1].0)\<close>\<close>

fun overlapping :: "(nat \<times> nat) list \<Rightarrow> bool" where
  "overlapping (r0 # r1 # rs) \<longleftrightarrow> snd r0 > fst r1 \<or> overlapping (r1 # rs)"
| "overlapping _ \<longleftrightarrow> False"

definition scan :: "byte list \<Rightarrow> ScanLimits \<Rightarrow> ScanResult scanned" where
  "scan data l =
     (if limits_invalid l then Err Limit
      else let stop = length data; tail_start = stop - (22 + 65535); tail = drop tail_start data in
      and_then (find_eocd tail (length tail - 3)) (\<lambda>found.
      and_then (ok_or found Fallback) (\<lambda>i.
      let eocd_at = tail_start + i; e = drop i tail in
      and_then (u16at e 4) (\<lambda>d1. and_then (u16at e 6) (\<lambda>d2. and_then (u16at e 8) (\<lambda>c1.
      and_then (u16at e 10) (\<lambda>c2.
      if d1 \<noteq> 0 \<or> d2 \<noteq> 0 \<or> c1 \<noteq> c2 then Err Fallback
      else and_then (u32at e 12) (\<lambda>s32. and_then (u32at e 16) (\<lambda>o32.
           and_then (directory_values data e eocd_at stop (zip64_cap l) (c1 = U16_MAX)
             (s32 = U32_MAX \<or> o32 = U32_MAX)) (\<lambda>(cnt, central_size, central_start, central_end_expected).
           if cnt > max_entries l \<or> central_size > central_cap l then Err Limit
           else and_then (ok_or (cadd central_start central_size) Fallback) (\<lambda>central_end.
                if central_end \<noteq> central_end_expected \<or> central_end > stop then Err Fallback
                else and_then (scan_entries data l central_start central_end cnt
                       \<lparr>cursor = central_start, names = 0, components = 0, ranges = []\<rparr>) (\<lambda>s.
                     if cursor s \<noteq> central_end then Err Fallback
                     else let rs = sort (ranges s) in
                       if cnt = 0 \<and> central_start \<noteq> 0 \<or>
                          cnt \<noteq> 0 \<and> (rs = [] \<or> Min (fst ` set rs) \<noteq> 0) then Err Fallback
                       else if overlapping rs then Err Fallback
                       else Ok \<lparr>sr_count = cnt, sr_central_start = central_start\<rparr>))))))))))))"

section \<open>No panics\<close>

definition np :: "'a scanned \<Rightarrow> bool" where
  "np r \<longleftrightarrow> r \<noteq> Err Panic"

named_theorems np_intros \<open>introduction rules for panic freedom\<close>

lemma np_base [np_intros, simp]: "np (Ok x)" "np (Err Fallback)" "np (Err Limit)"
  by (simp_all add: np_def)

lemma np_and_then [np_intros]: "np r \<Longrightarrow> (\<And>x. r = Ok x \<Longrightarrow> np (f x)) \<Longrightarrow> np (and_then r f)"
  by (cases r) (auto simp: np_def)

lemma np_if [np_intros]: "(b \<Longrightarrow> np r) \<Longrightarrow> (\<not> b \<Longrightarrow> np r') \<Longrightarrow> np (if b then r else r')"
  by simp

lemma np_ok_or [np_intros]: "np (ok_or v Fallback)" "np (ok_or v Limit)"
  by (cases v; simp add: np_def)+

lemma np_case_prod [np_intros]: "(\<And>a b. p = (a, b) \<Longrightarrow> np (f a b)) \<Longrightarrow> np (case p of (a, b) \<Rightarrow> f a b)"
  by (cases p) simp

lemma field_at_Ok: "i + w \<le> length b \<Longrightarrow> field_at w b i = Ok (le_val (take w (drop i b)))"
  by (simp add: field_at_def)

lemma np_field [np_intros]:
  "i + 2 \<le> length b \<Longrightarrow> np (u16at b i)" "i + 4 \<le> length b \<Longrightarrow> np (u32at b i)"
  "i + 8 \<le> length b \<Longrightarrow> np (u64at b i)"
  by (simp_all add: u16at_def u32at_def u64at_def field_at_def)

lemma np_read [np_intros]: "np (read_at data pos n)"
  by (simp add: read_at_def)

lemma np_advance [np_intros]: "np (advance c e n)"
  by (simp add: advance_def np_ok_or)

lemma np_skip [np_intros]: "np (skip_bytes c e n)"
  by (simp add: skip_bytes_def np_advance)

lemma np_take [np_intros]: "np (take_bytes data c e n)"
  unfolding take_bytes_def by (intro np_intros)

lemma read_at_length: "read_at data pos n = Ok b \<Longrightarrow> length b = n"
  by (auto simp: read_at_def split: if_splits)

lemma take_bytes_length: "take_bytes data c e n = Ok (b, c') \<Longrightarrow> length b = n"
  by (auto simp: take_bytes_def result_simps dest: read_at_length)

lemma np_validate_extra_from: "np (validate_extra_from extra i)"
proof (induction extra i rule: validate_extra_from.induct)
  case (1 extra i)
  show ?case
    by (subst validate_extra_from.simps) (auto intro!: np_intros "1.IH")
qed

lemma np_validate_extra [np_intros]: "np (validate_extra extra)"
  by (simp add: validate_extra_def np_validate_extra_from)

lemma np_fill: "stop \<le> length extra \<Longrightarrow> np (fill extra j stop k need vals)"
proof (induction extra j stop k need vals rule: fill.induct)
  case (1 extra j stop k n need v vals)
  then show ?case unfolding fill.simps Let_def by (intro np_intros) auto
qed simp_all

lemma np_zip64_loop: "np (zip64_loop extra i need vals found)"
proof (induction extra i need vals found rule: zip64_loop.induct)
  case (1 extra i need vals found)
  show ?case
    by (subst zip64_loop.simps) (auto intro!: np_intros np_fill "1.IH")
qed

lemma np_zip64_values [np_intros]: "length h = 46 \<Longrightarrow> np (zip64_values h extra)"
  unfolding zip64_values_def by (intro np_intros np_zip64_loop; simp)

lemma np_name_parts: "np (name_parts l ps c)"
  by (induction l ps c rule: name_parts.induct) (auto intro!: np_intros)

lemma np_validate_name [np_intros]: "np (validate_name n l c)"
  unfolding validate_name_def by (intro np_intros np_name_parts)

lemma np_zip64: "np (zip64 data eocd stop cap)"
  unfolding zip64_def by (intro np_intros; (drule read_at_length)+; simp)

lemma np_directory_values: "22 \<le> length e \<Longrightarrow> np (directory_values data e at stop cap c s)"
proof -
  assume e: "22 \<le> length e"
  have z32: "np (and_then (u16at e 8) (\<lambda>c. and_then (u32at e 12) (\<lambda>s. and_then (u32at e 16) (\<lambda>off.
      Ok (c, s, off, at)))))"
    using e by (intro np_intros; simp)
  then show ?thesis
    using np_zip64 [of data at stop cap]
    by (auto simp: directory_values_def Let_def np_def split: result.splits ScanError.splits)
qed

lemma np_find_eocd: "np (find_eocd tail i)"
  by (induction i) (auto intro!: np_intros)

lemma find_eocd_Some: "find_eocd tail n = Ok (Some i) \<Longrightarrow> i < n \<and> i + 22 \<le> length tail"
  by (induction n) (auto simp: result_simps split: if_splits)

lemma np_scan_local [np_intros]: "np (scan_local data l cs nm m c loc)"
  unfolding scan_local_def by (intro np_intros; (drule read_at_length)+; simp)

lemma np_scan_entry [np_intros]: "np (scan_entry data l cs ce s)"
  unfolding scan_entry_def by (intro np_intros; auto dest: take_bytes_length)

lemma np_scan_entries [np_intros]: "np (scan_entries data l cs ce n s)"
  by (induction n arbitrary: s) (auto intro!: np_intros)

lemma np_scan: "np (scan data l)"
  unfolding scan_def Let_def
  by (intro np_intros np_find_eocd np_directory_values; auto simp: ok_or_Ok_iff dest!: find_eocd_Some)

section \<open>Extra fields\<close>

text \<open>An extra field as records: a 16-bit identifier, a 16-bit length and the payload.\<close>

definition enc16 :: "nat \<Rightarrow> byte list" where
  "enc16 v = [of_nat v, of_nat (v div 256)]"

definition enc_record :: "nat \<times> byte list \<Rightarrow> byte list" where
  "enc_record r = enc16 (fst r) @ enc16 (length (snd r)) @ snd r"

definition record_ok :: "nat \<times> byte list \<Rightarrow> bool" where
  "record_ok r \<longleftrightarrow> fst r < 65536 \<and> fst r \<noteq> 0x7075 \<and> length (snd r) < 65536"

lemma le_val_two: "le_val [a, b] = unat a + 256 * unat b"
  by (simp add: le_val_def)

lemma unat_byte: "unat (b :: byte) < 256"
  using unsigned_less [of b] by simp

lemma le_val_enc16: "v < 65536 \<Longrightarrow> le_val (enc16 v) = v"
  by (simp add: enc16_def le_val_two unat_of_nat take_bit_nat_eq_self take_bit_eq_mod div_mult_mod_eq)

lemma enc16_le_val: "enc16 (le_val [a, b]) = [a, b]"
proof -
  have "(unat a + 256 * unat b) div 256 = unat b" using unat_byte [of a] by simp
  moreover have "(of_nat (unat a + 256 * unat b) :: byte) = a + 256 * b" by simp
  moreover have "(256 :: byte) = 0" by simp
  ultimately show ?thesis unfolding enc16_def le_val_two by (simp del: of_nat_add of_nat_mult)
qed

lemma length_enc16 [simp]: "length (enc16 v) = 2"
  by (simp add: enc16_def)

lemma two_bytes: "i + 2 \<le> length bs \<Longrightarrow> take 2 (drop i bs) = [bs ! i, bs ! (i + 1)]"
proof -
  assume "i + 2 \<le> length bs"
  then have "drop i bs = bs ! i # bs ! (i + 1) # drop (i + 2) bs" by (simp add: Cons_nth_drop_Suc)
  then show ?thesis by simp
qed

lemma u16at_Ok_iff: "u16at bs i = Ok v \<longleftrightarrow> i + 2 \<le> length bs \<and> v = le_val (take 2 (drop i bs))"
  by (auto simp: u16at_def field_at_def)

lemma u16at_bound: "u16at bs i = Ok v \<Longrightarrow> v < 65536"
  using unat_byte [of "bs ! i"] unat_byte [of "bs ! (i + 1)"]
  by (auto simp: u16at_Ok_iff two_bytes le_val_two)

lemma u16at_enc: "u16at bs i = Ok v \<Longrightarrow> take 2 (drop i bs) = enc16 v"
  by (auto simp: u16at_Ok_iff two_bytes enc16_le_val)

lemma validate_extra_from_sound:
  "validate_extra_from extra i = Ok () \<Longrightarrow> i \<le> length extra \<Longrightarrow>
   \<exists>recs. drop i extra = concat (map enc_record recs) \<and> (\<forall>r \<in> set recs. record_ok r)"
proof (induction extra i rule: validate_extra_from.induct)
  case (1 extra i)
  show ?case
  proof (cases "i = length extra")
    case True
    then show ?thesis by (intro exI [of _ "[]"]) simp
  next
    case False
    then have lt: "i < length extra" using "1.prems" by simp
    have v: "validate_extra_from extra i = Ok ()" by (rule "1.prems")
    obtain id n where h: "\<not> i + 4 > length extra" "u16at extra i = Ok id" "u16at extra (i + 2) = Ok n"
      "\<not> (i + 4 + n > length extra \<or> id = 0x7075)" "validate_extra_from extra (i + 4 + n) = Ok ()"
      using v lt by (subst (asm) validate_extra_from.simps) (auto simp: result_simps split: if_splits)
    obtain recs where recs: "drop (i + 4 + n) extra = concat (map enc_record recs)"
      "\<forall>r \<in> set recs. record_ok r"
      using "1.IH" [OF _ h(1,2,3,4,5)] h(4) lt by auto
    let ?p = "take n (drop (i + 4) extra)"
    have len: "length ?p = n" using h(4) by auto
    have split: "drop i extra = take 2 (drop i extra) @ take 2 (drop (i + 2) extra) @ ?p @ drop (i + 4 + n) extra"
      by (metis (no_types, opaque_lifting) add.assoc add.commute append_take_drop_id drop_drop
          numeral_Bit0)
    have "drop i extra = enc_record (id, ?p) @ drop (i + 4 + n) extra"
      using split u16at_enc [OF h(2)] u16at_enc [OF h(3)] len by (simp add: enc_record_def)
    moreover have "record_ok (id, ?p)"
      using u16at_bound [OF h(2)] u16at_bound [OF h(3)] h(4) len by (simp add: record_ok_def)
    ultimately show ?thesis using recs by (intro exI [of _ "(id, ?p) # recs"]) simp
  qed
qed

lemma u16at_append:
  "length a = i \<Longrightarrow> v < 65536 \<Longrightarrow> u16at (a @ enc16 v @ b) i = Ok v"
  by (simp add: u16at_Ok_iff le_val_enc16)

lemma validate_extra_from_complete:
  "\<forall>r \<in> set recs. record_ok r \<Longrightarrow>
   validate_extra_from (pre @ concat (map enc_record recs)) (length pre) = Ok ()"
proof (induction recs arbitrary: pre)
  case Nil
  then show ?case by (simp add: validate_extra_from.simps)
next
  case (Cons r recs)
  obtain id p where r: "r = (id, p)" by (cases r)
  let ?rest = "concat (map enc_record recs)"
  let ?e = "pre @ concat (map enc_record (r # recs))"
  have e1: "?e = pre @ enc16 id @ enc16 (length p) @ p @ ?rest" by (simp add: r enc_record_def)
  have ok: "id < 65536" "id \<noteq> 0x7075" "length p < 65536" using Cons.prems by (auto simp: r record_ok_def)
  have a: "u16at ?e (length pre) = Ok id" unfolding e1 using ok by (intro u16at_append) simp_all
  have "?e = (pre @ enc16 id) @ enc16 (length p) @ p @ ?rest" unfolding e1 by simp
  then have b: "u16at ?e (length pre + 2) = Ok (length p)"
    using u16at_append [of "pre @ enc16 id" "length pre + 2" "length p"] ok by simp
  have len: "length ?e = length pre + 4 + length p + length ?rest" unfolding e1 by simp
  have "validate_extra_from ?e (length pre) = validate_extra_from ?e (length pre + 4 + length p)"
    by (subst validate_extra_from.simps) (use a b ok len in \<open>simp\<close>)
  also have "\<dots> = validate_extra_from ((pre @ enc_record r) @ ?rest) (length (pre @ enc_record r))"
  proof -
    have "length pre + 4 + length p = length (pre @ enc_record r)" by (simp add: r enc_record_def)
    moreover have "?e = (pre @ enc_record r) @ ?rest" by simp
    ultimately show ?thesis by (simp only:)
  qed
  also have "\<dots> = Ok ()" using Cons.prems by (intro Cons.IH) simp
  finally show ?case .
qed

lemma validate_extra_iff:
  "validate_extra extra = Ok () \<longleftrightarrow>
     (\<exists>recs. extra = concat (map enc_record recs) \<and> (\<forall>r \<in> set recs. record_ok r))"
  using validate_extra_from_sound [of extra 0] validate_extra_from_complete [of _ "[]"]
  by (auto simp: validate_extra_def)

section \<open>Member names\<close>

definition safe_component :: "ScanLimits \<Rightarrow> byte list \<Rightarrow> bool" where
  "safe_component l p \<longleftrightarrow> p \<noteq> [] \<and> p \<noteq> [0x2E] \<and> p \<noteq> [0x2E, 0x2E] \<and> length p \<le> component_cap l"

text \<open>The components of a name, without the empty one after a trailing slash.\<close>

definition path_components :: "byte list \<Rightarrow> byte list list" where
  "path_components n = (let ps = split_on 0x2F n in if last ps = [] then butlast ps else ps)"

lemma name_parts_Ok:
  assumes "name_parts l ps c = Ok c'"
  shows "\<exists>comps. (ps = comps \<or> ps = comps @ [[]]) \<and> (\<forall>p \<in> set comps. safe_component l p) \<and>
    c' = c + length comps \<and> (comps \<noteq> [] \<longrightarrow> c' \<le> total_component_cap l)"
  using assms
proof (induction l ps c rule: name_parts.induct)
  case (1 l c)
  then show ?case by simp
next
  case (2 l p rest c)
  show ?case
  proof (cases "p = [] \<and> rest = []")
    case True
    then show ?thesis using "2.prems" by (intro exI [of _ "[]"]) simp
  next
    case False
    let ?inc = "ok_or (opt_filter (\<lambda>v. v \<le> total_component_cap l) (cadd c 1)) Limit"
    have h: "\<not> length p > component_cap l" "\<not> (p = [] \<or> p = [0x2E] \<or> p = [0x2E, 0x2E])"
      using "2.prems" False by (simp_all split: if_splits)
    have "and_then ?inc (name_parts l rest) = Ok c'"
      using "2.prems" by (simp only: name_parts.simps False h if_False)
    then obtain c1 where c1: "?inc = Ok c1" "name_parts l rest c1 = Ok c'"
      by (auto simp only: and_then_Ok_iff)
    have c1': "c1 = c + 1" "c1 \<le> total_component_cap l"
      using c1(1) by (auto simp: result_simps checked_simps)
    obtain comps where k: "rest = comps \<or> rest = comps @ [[]]" "\<forall>p \<in> set comps. safe_component l p"
      "c' = c1 + length comps" "comps \<noteq> [] \<longrightarrow> c' \<le> total_component_cap l"
      using "2.IH"(2) [OF False h c1] by blast
    have "safe_component l p" using h by (simp add: safe_component_def)
    then have "\<forall>q \<in> set (p # comps). safe_component l q" using k(2) by simp
    moreover have "p # rest = p # comps \<or> p # rest = (p # comps) @ [[]]" using k(1) by simp
    moreover have "c' = c + length (p # comps)" using k(3) c1'(1) by simp
    moreover have "c' \<le> total_component_cap l" using k(3,4) c1'(2) by (cases comps) simp_all
    ultimately show ?thesis by blast
  qed
qed

lemma path_components_cases:
  assumes "split_on 0x2F n = comps \<or> split_on 0x2F n = comps @ [[]]"
    "\<forall>p \<in> set comps. safe_component l p" "n \<noteq> []"
  shows "path_components n = comps" "comps \<noteq> []"
proof -
  have ne: "comps \<noteq> []"
  proof
    assume "comps = []"
    then have s: "split_on 0x2F n = [[]]" using assms(1) by simp
    obtain a m where "n = a # m" using assms(3) by (cases n) auto
    then show False using s by (auto split: if_splits list.splits)
  qed
  then have "last comps \<noteq> []" using assms(2) last_in_set by (fastforce simp: safe_component_def)
  then show "path_components n = comps" "comps \<noteq> []"
    using assms(1) ne by (auto simp: path_components_def Let_def)
qed

lemma validate_name_Ok:
  assumes "validate_name n l c = Ok c'"
  shows "(\<forall>p \<in> set (path_components n). safe_component l p) \<and> path_components n \<noteq> [] \<and>
    length (path_components n) \<le> depth_cap l \<and> c' = c + length (path_components n) \<and>
    c' \<le> total_component_cap l \<and> (\<forall>b \<in> set n. b \<noteq> 0x5C \<and> 0x20 \<le> b \<and> b \<noteq> 0x7F)"
proof -
  have v: "n \<noteq> []" "\<forall>b \<in> set n. b \<noteq> 0x5C \<and> 0x20 \<le> b \<and> b \<noteq> 0x7F"
    "name_parts l (split_on 0x2F n) c = Ok c'"
    "length (filter (\<lambda>p. p \<noteq> []) (split_on 0x2F n)) \<le> depth_cap l"
    using assms by (auto simp: validate_name_def result_simps not_less split: if_splits)
  obtain comps where k: "split_on 0x2F n = comps \<or> split_on 0x2F n = comps @ [[]]"
    "\<forall>p \<in> set comps. safe_component l p" "c' = c + length comps"
    "comps \<noteq> [] \<longrightarrow> c' \<le> total_component_cap l"
    using name_parts_Ok [OF v(3)] by blast
  note pc = path_components_cases [OF k(1,2) v(1)]
  have "filter (\<lambda>p. p \<noteq> []) comps = comps" using k(2) by (auto simp: filter_id_conv safe_component_def)
  then have "length comps \<le> depth_cap l" using v(4) k(1) by auto
  then show ?thesis using v(2) k pc by auto
qed

text \<open>
  Path resolution below a base directory: empty and \<open>.\<close> components are skipped, \<open>..\<close> leaves the
  current directory.
\<close>

fun resolve_path :: "byte list list \<Rightarrow> byte list list \<Rightarrow> byte list list" where
  "resolve_path base [] = base"
| "resolve_path base (p # ps) =
     (if p = [] \<or> p = [0x2E] then resolve_path base ps
      else if p = [0x2E, 0x2E] then resolve_path (butlast base) ps
      else resolve_path (base @ [p]) ps)"

lemma resolve_path_safe:
  "\<forall>p \<in> set comps. safe_component l p \<Longrightarrow> resolve_path base (comps @ rest) = resolve_path (base @ comps) rest"
  by (induction comps arbitrary: base) (auto simp: safe_component_def)

lemma split_path_components:
  "split_on 0x2F n = path_components n \<or> split_on 0x2F n = path_components n @ [[]]"
proof (cases "last (split_on 0x2F n) = []")
  case True
  then show ?thesis
    using append_butlast_last_id [OF split_by_not_Nil, of "\<lambda>x. x = 0x2F" n]
    by (simp add: path_components_def Let_def)
qed (simp add: path_components_def Let_def)

lemma validate_name_resolves:
  assumes "validate_name n l c = Ok c'"
  shows "resolve_path base (split_on 0x2F n) = base @ path_components n"
  using split_path_components [of n] validate_name_Ok [OF assms]
    resolve_path_safe [of "path_components n" l base] resolve_path_safe [of "path_components n" l base "[]"]
  by auto

section \<open>What an accepted archive looks like\<close>

lemma read_at_Ok:
  "read_at data pos n = Ok b \<Longrightarrow> length b = n \<and> (n = 0 \<or> pos + n \<le> length data \<and> b = take n (drop pos data))"
  by (auto simp: read_at_def split: if_splits)

lemma advance_Ok_iff: "advance cur stop n = Ok v \<longleftrightarrow> v = cur + n \<and> cur + n \<le> stop \<and> cur + n \<le> U64_MAX"
  by (auto simp: advance_def result_simps checked_simps)

text \<open>The little-endian number of \<open>w\<close> bytes at a position of the archive.\<close>

definition num :: "byte list \<Rightarrow> nat \<Rightarrow> nat \<Rightarrow> nat" where
  "num data pos w = le_val (take w (drop pos data))"

text \<open>
  A member as its directory entry describes it, and the directory as a list of entries: a signature, the lengths of the
  name, the extra field and the comment, the name, and the sizes and offset of the entry, or of the ZIP64 record in its
  extra field where they are saturated.
\<close>

record Member =
  mem_name :: "byte list"
  mem_compressed :: nat
  mem_local :: nat

definition entry_at :: "byte list \<Rightarrow> nat \<Rightarrow> Member \<Rightarrow> bool" where
  "entry_at data pos m \<longleftrightarrow>
     take 4 (drop pos data) = sig 1 2 \<and> mem_name m = take (num data (pos + 28) 2) (drop (pos + 46) data) \<and>
     zip64_values (take 46 (drop pos data)) (take (num data (pos + 30) 2) (drop (pos + 46 + num data (pos + 28) 2) data)) =
       Ok (mem_compressed m, mem_local m) \<and>
     (num data (pos + 20) 4 \<noteq> U32_MAX \<longrightarrow> mem_compressed m = num data (pos + 20) 4) \<and>
     (num data (pos + 42) 4 \<noteq> U32_MAX \<longrightarrow> mem_local m = num data (pos + 42) 4)"

fun directory :: "byte list \<Rightarrow> nat \<Rightarrow> nat \<Rightarrow> Member list \<Rightarrow> bool" where
  "directory data pos stop [] \<longleftrightarrow> pos = stop"
| "directory data pos stop (m # ms) \<longleftrightarrow>
     entry_at data pos m \<and>
     directory data (pos + 46 + num data (pos + 28) 2 + num data (pos + 30) 2 + num data (pos + 32) 2) stop ms"

text \<open>
  The bytes a member occupies before the directory: a local header of 30 bytes, its name, the extra field whose length
  the header gives, and the compressed data.
\<close>

definition extent :: "byte list \<Rightarrow> Member \<Rightarrow> nat \<times> nat" where
  "extent data m = (mem_local m, mem_local m + 30 + length (mem_name m) + num data (mem_local m + 28) 2 + mem_compressed m)"

definition local_header :: "byte list \<Rightarrow> Member \<Rightarrow> bool" where
  "local_header data m \<longleftrightarrow>
     take 4 (drop (mem_local m) data) = sig 3 4 \<and>
     num data (mem_local m + 26) 2 = length (mem_name m) \<and> take (length (mem_name m)) (drop (mem_local m + 30) data) = mem_name m"

lemma fill_keeps:
  "fill extra j stop k need vals = Ok vs \<Longrightarrow> length need = length vals \<Longrightarrow>
   length vs = length vals \<and> (\<forall>i < length vals. \<not> need ! i \<longrightarrow> vs ! i = vals ! i)"
proof (induction extra j stop k need vals arbitrary: vs rule: fill.induct)
  case (1 extra j stop k n need v vals)
  show ?case
  proof (cases n)
    case True
    then obtain j' v' vs' where "fill extra j' stop (k + 1) need vals = Ok vs'" "vs = v' # vs'"
        and "length vs' = length vals \<and> (\<forall>i < length vals. \<not> need ! i \<longrightarrow> vs' ! i = vals ! i)"
      using "1.IH"(1) "1.prems" by (auto simp: Let_def and_then_Ok_iff split: if_splits)
    then show ?thesis using True by (auto simp: nth_Cons split: nat.splits)
  next
    case False
    then obtain vs' where "vs = v # vs'" "length vs' = length vals \<and> (\<forall>i < length vals. \<not> need ! i \<longrightarrow> vs' ! i = vals ! i)"
      using "1.IH"(2) "1.prems" by (auto simp: and_then_Ok_iff)
    then show ?thesis by (auto simp: nth_Cons split: nat.splits)
  qed
qed auto

lemma zip64_loop_keeps:
  "zip64_loop extra i need vals found = Ok (need', vals') \<Longrightarrow> length need = length vals \<Longrightarrow>
   length vals' = length vals \<and> (\<forall>k < length vals. \<not> need ! k \<longrightarrow> vals' ! k = vals ! k)"
proof (induction extra i need vals found rule: zip64_loop.induct)
  case (1 extra i need vals found)
  show ?case
  proof (cases "length extra \<le> i")
    case True
    then show ?thesis using "1.prems" by (simp add: zip64_loop.simps)
  next
    case False
    then obtain id n where n: "\<not> length extra < i + 4" "u16at extra i = Ok id" "u16at extra (i + 2) = Ok n" "\<not> length extra < i + 4 + n"
      using "1.prems"(1) by (subst (asm) zip64_loop.simps) (auto simp: and_then_Ok_iff split: if_splits)
    show ?thesis
    proof (cases "id = 1")
      case True
      then obtain vs where v: "\<not> found" "fill extra (i + 4) (i + 4 + n) 0 need vals = Ok vs"
          "zip64_loop extra (i + 4 + n) (map (\<lambda>_. False) need) vs True = Ok (need', vals')"
        using "1.prems"(1) False n by (subst (asm) zip64_loop.simps) (auto simp: and_then_Ok_iff split: if_splits)
      note f = fill_keeps [OF v(2) "1.prems"(2)]
      have "length vals' = length vs \<and> (\<forall>k < length vs. vals' ! k = vs ! k)"
        using "1.IH"(1) [OF False n(1,2,3,4) True v(1,2,3)] f "1.prems"(2) by simp
      then show ?thesis using f by simp
    next
      case other: False
      have "zip64_loop extra (i + 4 + n) need vals found = Ok (need', vals')"
        using "1.prems"(1) False n other by (subst (asm) zip64_loop.simps) (auto simp: and_then_Ok_iff split: if_splits)
      then show ?thesis using "1.IH"(2) [OF False n(1,2,3,4) other] "1.prems"(2) by blast
    qed
  qed
qed

lemma zip64_values_plain:
  assumes "zip64_values h extra = Ok (compressed, loc)"
  shows "le_val (take 4 (drop 20 h)) \<noteq> U32_MAX \<longrightarrow> compressed = le_val (take 4 (drop 20 h))"
    "le_val (take 4 (drop 42 h)) \<noteq> U32_MAX \<longrightarrow> loc = le_val (take 4 (drop 42 h))"
proof -
  obtain a b c d need vals where f: "u32at h 20 = Ok b" "u32at h 42 = Ok c"
      and l: "zip64_loop extra 0 [a = U32_MAX, b = U32_MAX, c = U32_MAX, d = U16_MAX] [a, b, c, d] False = Ok (need, vals)"
      and v: "compressed = vals ! 1" "loc = vals ! 2"
    using assms by (auto simp: zip64_values_def and_then_Ok_iff split: if_splits)
  have "b \<noteq> U32_MAX \<longrightarrow> vals ! 1 = b" "c \<noteq> U32_MAX \<longrightarrow> vals ! 2 = c"
    using zip64_loop_keeps [OF l] by (auto simp: All_less_Suc numeral_eq_Suc)
  then show "le_val (take 4 (drop 20 h)) \<noteq> U32_MAX \<longrightarrow> compressed = le_val (take 4 (drop 20 h))"
    "le_val (take 4 (drop 42 h)) \<noteq> U32_MAX \<longrightarrow> loc = le_val (take 4 (drop 42 h))"
    using f v by (auto simp: u32at_def field_at_def split: if_splits)
qed

lemma header_field: "i + w \<le> n \<Longrightarrow> take w (drop i (take n (drop pos data))) = take w (drop (pos + i) data)"
  by (simp add: drop_take min_def add.commute)

lemma header_end: "drop 42 (take 46 (drop pos data)) = take 4 (drop (pos + 42) data)"
  by (simp add: drop_take add.commute)

lemma u16at_num: "u16at (take n (drop pos data)) i = Ok v \<Longrightarrow> i + 2 \<le> n \<Longrightarrow> v = num data (pos + i) 2"
  by (auto simp: u16at_def field_at_def num_def header_field split: if_splits)

lemma scan_local_Ok:
  assumes "scan_local data l cs name0 mth compressed loc = Ok r"
  shows "let m = \<lparr>mem_name = name0, mem_compressed = compressed, mem_local = loc\<rparr> in
    r = extent data m \<and> snd r \<le> cs \<and> local_header data m"
proof -
  obtain h lnl lxl name_at local_name local_extra dat where
    h: "read_at data loc 30 = Ok h" "take 4 h = sig 3 4" "u16at h 26 = Ok lnl" "u16at h 28 = Ok lxl"
    and n: "cadd loc 30 = Some name_at" "read_at data name_at lnl = Ok local_name" "local_name = name0"
    and d: "Option.bind (cadd name_at lnl) (\<lambda>v. cadd v lxl) = Some dat" "r = (loc, dat + compressed)"
      "dat + compressed \<le> cs"
    using assms unfolding scan_local_def
    by (auto simp: and_then_Ok_iff result_simps checked_simps split: if_splits)
  have e: "name_at = loc + 30" "dat = loc + 30 + lnl + lxl" using n d by (auto simp: checked_simps bind_Some_iff)
  have hh: "h = take 30 (drop loc data)" using read_at_Ok [OF h(1)] by simp
  have l: "lnl = num data (loc + 26) 2" "lxl = num data (loc + 28) 2" using h(3,4) u16at_num unfolding hh by auto
  have "take 4 (drop loc data) = sig 3 4" using h(2) by (simp add: hh take_take)
  moreover have "lnl = length name0" "take (length name0) (drop (loc + 30) data) = name0" using read_at_Ok [OF n(2)] n(3) e(1) by auto
  ultimately show ?thesis using d(2,3) e l by (simp add: extent_def local_header_def)
qed

lemma take_bytes_Ok:
  assumes "take_bytes data cur stop n = Ok (b, next)"
  shows "next = cur + n \<and> next \<le> stop \<and> b = take n (drop cur data) \<and> length b = n"
  using assms read_at_Ok by (fastforce simp: take_bytes_def and_then_Ok_iff advance_Ok_iff)

lemma scan_entry_Ok:
  assumes "scan_entry data l cs ce s = Ok s'"
  shows "\<exists>m. ranges s' = ranges s @ [extent data m] \<and> snd (extent data m) \<le> cs \<and> local_header data m \<and> entry_at data (cursor s) m \<and>
    cursor s' = cursor s + 46 + num data (cursor s + 28) 2 + num data (cursor s + 30) 2 + num data (cursor s + 32) 2 \<and> cursor s' \<le> ce \<and>
    names s \<le> names s' \<and> names s' \<le> total_name_cap l \<and>
    components s < components s' \<and> components s' \<le> total_component_cap l"
proof -
  obtain h cur1 name0 cur2 nl extra cur3 xl cl cur4 names' components' r mth compressed loc where
    t: "take_bytes data (cursor s) ce 46 = Ok (h, cur1)" "take_bytes data cur1 ce nl = Ok (name0, cur2)"
      "take_bytes data cur2 ce xl = Ok (extra, cur3)" "skip_bytes cur3 ce cl = Ok cur4" "take 4 h = sig 1 2"
    and f: "u16at h 28 = Ok nl" "u16at h 30 = Ok xl" "u16at h 32 = Ok cl" "zip64_values h extra = Ok (compressed, loc)"
    and c: "opt_filter (\<lambda>v. v \<le> total_name_cap l) (cadd (names s) nl) = Some names'"
      "validate_name name0 l (components s) = Ok components'"
    and r: "scan_local data l cs name0 mth compressed loc = Ok r"
    and s': "s' = \<lparr>cursor = cur4, names = names', components = components', ranges = ranges s @ [r]\<rparr>"
    using assms unfolding scan_entry_def
    by (auto simp: and_then_Ok_iff ok_or_Ok_iff split: if_splits)
  define m where "m = \<lparr>mem_name = name0, mem_compressed = compressed, mem_local = loc\<rparr>"
  have h: "h = take 46 (drop (cursor s) data)" using take_bytes_Ok [OF t(1)] by simp
  have n: "nl = num data (cursor s + 28) 2" "xl = num data (cursor s + 30) 2" "cl = num data (cursor s + 32) 2"
    using f(1-3) u16at_num unfolding h by auto
  have cur: "cur1 = cursor s + 46" "cur2 = cur1 + nl" "cur3 = cur2 + xl" "cur4 = cur3 + cl" "cur4 \<le> ce"
    using take_bytes_Ok [OF t(1)] take_bytes_Ok [OF t(2)] take_bytes_Ok [OF t(3)] t(4)
    by (auto simp: skip_bytes_def advance_Ok_iff)
  have b: "name0 = take nl (drop (cursor s + 46) data)" "extra = take xl (drop (cursor s + 46 + nl) data)"
    using take_bytes_Ok [OF t(2)] take_bytes_Ok [OF t(3)] cur by auto
  have "entry_at data (cursor s) m"
    using t(5) f(4) zip64_values_plain [OF f(4)] b n
    by (simp add: entry_at_def m_def h num_def header_field header_end take_take)
  moreover have "r = extent data m" "snd r \<le> cs" "local_header data m" using scan_local_Ok [OF r] unfolding m_def Let_def by blast+
  moreover have "names' = names s + nl" "names' \<le> total_name_cap l" using c(1) by (auto simp: checked_simps)
  moreover have "components s < components'" "components' \<le> total_component_cap l"
    using validate_name_Ok [OF c(2)] by (auto simp: neq_Nil_conv)
  ultimately show ?thesis using cur n by (intro exI [of _ m]) (simp add: s')
qed

lemma scan_entries_Ok:
  assumes "scan_entries data l cs ce n s = Ok s'"
  shows "\<exists>ms. ranges s' = ranges s @ map (extent data) ms \<and> length ms = n \<and> directory data (cursor s) (cursor s') ms \<and>
    (\<forall>m \<in> set ms. snd (extent data m) \<le> cs \<and> local_header data m) \<and>
    cursor s + 46 * n \<le> cursor s' \<and> (n > 0 \<longrightarrow> cursor s' \<le> ce \<and> names s' \<le> total_name_cap l) \<and>
    components s + n \<le> components s' \<and> (n > 0 \<longrightarrow> components s' \<le> total_component_cap l)"
  using assms
proof (induction n arbitrary: s)
  case 0
  then show ?case by simp
next
  case (Suc n)
  obtain s1 where s1: "scan_entry data l cs ce s = Ok s1" "scan_entries data l cs ce n s1 = Ok s'"
    using Suc.prems by (auto simp: and_then_Ok_iff)
  obtain ms where ms: "ranges s' = ranges s1 @ map (extent data) ms" "length ms = n" "directory data (cursor s1) (cursor s') ms"
    "\<forall>m \<in> set ms. snd (extent data m) \<le> cs \<and> local_header data m"
    "cursor s1 + 46 * n \<le> cursor s'" "n > 0 \<longrightarrow> cursor s' \<le> ce \<and> names s' \<le> total_name_cap l"
    "components s1 + n \<le> components s'" "n > 0 \<longrightarrow> components s' \<le> total_component_cap l"
    using Suc.IH [OF s1(2)] by blast
  obtain m where m: "ranges s1 = ranges s @ [extent data m]" "snd (extent data m) \<le> cs" "local_header data m" "entry_at data (cursor s) m"
    "cursor s1 = cursor s + 46 + num data (cursor s + 28) 2 + num data (cursor s + 30) 2 + num data (cursor s + 32) 2"
    "cursor s1 \<le> ce" "names s1 \<le> total_name_cap l" "components s < components s1" "components s1 \<le> total_component_cap l"
    using scan_entry_Ok [OF s1(1)] by blast
  have "n = 0 \<Longrightarrow> s' = s1" using s1(2) by simp
  then show ?case using ms m by (intro exI [of _ "m # ms"]) auto
qed

text \<open>Adjacent ranges that do not overlap, each of positive length, are pairwise disjoint.\<close>

lemma not_overlapping_pairwise:
  assumes "\<not> overlapping rs" "\<forall>r \<in> set rs. fst r \<le> snd r" "i < j" "j < length rs"
  shows "snd (rs ! i) \<le> fst (rs ! j)"
  using assms
proof (induction rs arbitrary: i j rule: overlapping.induct)
  case (1 r0 r1 rs)
  show ?case
  proof (cases i)
    case 0
    show ?thesis
    proof (cases "j = 1")
      case True then show ?thesis using 0 "1.prems" by simp
    next
      case False
      then have "snd ((r1 # rs) ! 0) \<le> fst ((r1 # rs) ! (j - 1))"
        using "1.prems" 0 by (intro "1.IH") auto
      then show ?thesis using 0 False "1.prems" by (cases j) auto
    qed
  next
    case (Suc k)
    have "snd ((r1 # rs) ! k) \<le> fst ((r1 # rs) ! (j - 1))"
      using "1.prems" Suc by (intro "1.IH") auto
    then show ?thesis using Suc "1.prems"(3) by (cases j) auto
  qed
qed auto

text \<open>A symmetric relation holds between all elements of a list in one order if it does in another.\<close>

lemma sorted_wrt_insort:
  assumes "\<And>x y. P x y \<Longrightarrow> P y x"
  shows "sorted_wrt P (insort x xs) \<longleftrightarrow> (\<forall>y \<in> set xs. P x y) \<and> sorted_wrt P xs"
  using assms by (induction xs) (auto simp: set_insort_key)

lemma sorted_wrt_sort:
  assumes "\<And>x y. P x y \<Longrightarrow> P y x"
  shows "sorted_wrt P (sort xs) \<longleftrightarrow> sorted_wrt P xs"
  by (induction xs) (simp_all add: sorted_wrt_insort [of P, OF assms])

definition apart :: "nat \<times> nat \<Rightarrow> nat \<times> nat \<Rightarrow> bool" where
  "apart r q \<longleftrightarrow> snd r \<le> fst q \<or> snd q \<le> fst r"

lemma not_overlapping_apart:
  assumes "\<not> overlapping (sort rs)" "\<forall>r \<in> set rs. fst r \<le> snd r"
  shows "sorted_wrt apart rs"
proof -
  have "sorted_wrt apart (sort rs)"
    using not_overlapping_pairwise [OF assms(1)] assms(2) by (auto simp: sorted_wrt_iff_nth_less apart_def)
  then show ?thesis using sorted_wrt_sort [of apart rs] by (auto simp: apart_def)
qed

text \<open>What the preflight establishes of an archive with its directory at \<open>cs\<close>.\<close>

definition layout_ok :: "byte list \<Rightarrow> nat \<Rightarrow> Member list \<Rightarrow> bool" where
  "layout_ok data cs ms \<longleftrightarrow>
     (\<forall>m \<in> set ms. snd (extent data m) \<le> cs \<and> local_header data m) \<and> sorted_wrt apart (map (extent data) ms) \<and>
     (if ms = [] then cs = 0 else 0 \<in> mem_local ` set ms)"

lemma scan_Ok:
  assumes "scan data l = Ok r"
  shows "\<exists>ms stop. directory data (sr_central_start r) stop ms \<and> stop \<le> length data \<and> layout_ok data (sr_central_start r) ms \<and>
    length ms = sr_count r \<and> sr_count r \<le> max_entries l \<and> stop - sr_central_start r \<le> central_cap l \<and>
    46 * sr_count r \<le> central_cap l \<and> sr_count r \<le> total_component_cap l"
proof -
  obtain cnt size cs ce s where
    b: "cnt \<le> max_entries l" "size \<le> central_cap l" "cadd cs size = Some ce" "ce \<le> length data"
    and s: "scan_entries data l cs ce cnt \<lparr>cursor = cs, names = 0, components = 0, ranges = []\<rparr> = Ok s"
    and f: "cursor s = ce" "\<not> (cnt = 0 \<and> cs \<noteq> 0 \<or>
        cnt \<noteq> 0 \<and> (sort (ranges s) = [] \<or> Min (fst ` set (sort (ranges s))) \<noteq> 0))"
      "\<not> overlapping (sort (ranges s))"
    and r: "r = \<lparr>sr_count = cnt, sr_central_start = cs\<rparr>"
    using assms unfolding scan_def Let_def
    by (auto simp: and_then_Ok_iff ok_or_Ok_iff not_less simp del: sort_key_simps split: if_splits)
  have ce: "ce = cs + size" using b(3) by (simp add: checked_simps)
  obtain ms where e: "ranges s = map (extent data) ms" "length ms = cnt" "directory data cs ce ms"
    "\<forall>m \<in> set ms. snd (extent data m) \<le> cs \<and> local_header data m" "cs + 46 * cnt \<le> ce"
    "cnt > 0 \<longrightarrow> components s \<le> total_component_cap l" "cnt \<le> components s"
    using scan_entries_Ok [OF s] f(1) by auto
  have "sorted_wrt apart (map (extent data) ms)"
    using not_overlapping_apart [OF f(3)] by (auto simp: e(1) extent_def)
  moreover have "if ms = [] then cs = 0 else 0 \<in> mem_local ` set ms"
  proof (cases "ms = []")
    case False
    have "0 \<in> fst ` set (ranges s)"
      using f(2) e(1,2) False Min_in [of "fst ` set (sort (ranges s))"] by auto
    then show ?thesis using False by (auto simp: e(1) extent_def)
  qed (use f(2) e(2) in auto)
  ultimately show ?thesis using e b ce r by (intro exI [of _ ms] exI [of _ ce]) (auto simp: layout_ok_def)
qed

section \<open>Properties\<close>

text \<open>
  C11: the scan never indexes a buffer out of range: on arbitrary bytes and limits it returns a result,
  \<open>Fallback\<close> or \<open>Limit\<close>, and never panics.
\<close>

theorem scan_no_panic:
  "scan data l \<noteq> Err Panic"
  using np_scan [of data l] by (simp add: np_def)

text \<open>
  C12: what an accepted archive looks like. Its central directory parses into one member per counted entry and lies inside
  the file and within its cap. Every member has a local header with the same name, and the bytes it occupies by its own
  headers, from the local header over name and extra field to the end of the compressed data, lie before the directory;
  the bytes of any two members are disjoint, and one member starts at byte 0, so nothing is prepended. The numbers of
  entries and path components are within their limits.
\<close>

theorem scan_layout:
  assumes "scan data l = Ok r"
  shows "\<exists>ms stop. directory data (sr_central_start r) stop ms \<and> stop \<le> length data \<and> layout_ok data (sr_central_start r) ms \<and>
    length ms = sr_count r \<and> sr_count r \<le> max_entries l \<and> stop - sr_central_start r \<le> central_cap l \<and>
    46 * sr_count r \<le> central_cap l \<and> sr_count r \<le> total_component_cap l"
  using scan_Ok [OF assms] .

text \<open>A stored, empty member \<open>a\<close>: its local header, its directory entry and the end record.\<close>

definition one_member_zip :: "byte list" where
  "one_member_zip =
     [80, 75, 3, 4, 0, 0, 0, 0, 0, 0, 0, 0, 0, 0, 0, 0, 0, 0, 0, 0, 0, 0, 0, 0, 0, 0, 1, 0, 0, 0, 97,
      80, 75, 1, 2, 0, 0, 0, 0, 0, 0, 0, 0, 0, 0, 0, 0, 0, 0, 0, 0, 0, 0, 0, 0, 0, 0, 0, 0, 1, 0, 0, 0, 0, 0, 0, 0,
      0, 0, 0, 0, 0, 0, 0, 0, 0, 0, 97, 80, 75, 5, 6, 0, 0, 0, 0, 1, 0, 1, 0, 47, 0, 0, 0, 31, 0, 0, 0, 0, 0]"

lemma find_eocd_numeral:
  "find_eocd tail (numeral k) = (let i = pred_numeral k in
     if take 4 (drop i tail) \<noteq> sig 5 6 \<or> i + 22 > length tail then find_eocd tail i
     else and_then (u16at tail (i + 20)) (\<lambda>n.
       if i + 22 + n = length tail then Ok (Some i) else find_eocd tail i))"
  by (simp add: numeral_eq_Suc Let_def)

lemmas field_defs = u16at_def u32at_def u64at_def field_at_def le_val_def

lemmas cap_defs = production_def CENTRAL_CAP_def ZIP64_CAP_def NAME_CAP_def COMPONENT_CAP_def DEPTH_CAP_def
  TOTAL_NAME_CAP_def TOTAL_COMPONENT_CAP_def ENTRY_CAP_def U16_MAX_def U32_MAX_def

lemma one_member_zip_eocd: "find_eocd one_member_zip 97 = Ok (Some 78)"
  by (simp add: one_member_zip_def find_eocd_numeral sig_def field_defs)

lemma one_member_zip_local:
  "scan_local one_member_zip (production 10) 31 [97] 0 0 0 = Ok (0, 31)"
  by (simp add: scan_local_def one_member_zip_def read_at_def sig_def field_defs cap_defs cadd_def U64_MAX_def
      validate_extra_def validate_extra_from.simps)

lemma one_member_zip_entry:
  "scan_entry one_member_zip (production 10) 31 78
     \<lparr>cursor = 31, names = 0, components = 0, ranges = []\<rparr> =
   Ok \<lparr>cursor = 78, names = 1, components = 1, ranges = [(0, 31)]\<rparr>"
proof -
  define h where "h = take 46 (drop 31 one_member_zip)"
  have h: "take_bytes one_member_zip 31 78 46 = Ok (h, 77)"
    "take_bytes one_member_zip 77 78 1 = Ok ([97], 78)" "take_bytes one_member_zip 78 78 0 = Ok ([], 78)"
    "skip_bytes 78 78 0 = Ok 78"
    unfolding h_def take_bytes_def skip_bytes_def
    by (simp_all add: one_member_zip_def advance_def read_at_def cadd_def U64_MAX_def)
  have f: "u16at h 34 = Ok 0" "take 4 h = sig 1 2" "u16at h 8 = Ok 0" "u16at h 10 = Ok 0" "u16at h 28 = Ok 1"
    "u16at h 30 = Ok 0" "u16at h 32 = Ok 0" "u32at h 24 = Ok 0" "u32at h 20 = Ok 0" "u32at h 42 = Ok 0"
    unfolding h_def by (simp_all add: one_member_zip_def sig_def field_defs)
  have z: "zip64_values h [] = Ok (0, 0)"
    by (simp add: zip64_values_def f zip64_loop.simps cap_defs)
  have n: "validate_name [97] (production 10) 0 = Ok 1"
    by (simp add: validate_name_def cadd_def U64_MAX_def cap_defs)
  have c: "1 \<le> name_cap (production 10)" "1 \<le> total_name_cap (production 10)" "cadd 0 1 = Some 1"
    by (simp_all add: cap_defs cadd_def U64_MAX_def)
  have e: "validate_extra [] = Ok ()" by (simp add: validate_extra_def validate_extra_from.simps)
  show ?thesis
    using c h f z n e one_member_zip_local by (simp add: scan_entry_def)
qed

lemma one_member_zip_scan: "scan one_member_zip (production 10) = Ok \<lparr>sr_count = 1, sr_central_start = 31\<rparr>"
proof -
  define e where "e = drop 78 one_member_zip"
  have f: "u16at e 4 = Ok 0" "u16at e 6 = Ok 0" "u16at e 8 = Ok 1" "u16at e 10 = Ok 1" "u32at e 12 = Ok 47"
    "u32at e 16 = Ok 31"
    unfolding e_def by (simp_all add: one_member_zip_def field_defs)
  have len: "length one_member_zip = 100" by (simp add: one_member_zip_def)
  have "\<not> limits_invalid (production 10)" by (simp add: limits_invalid_def cap_defs)
  moreover have "directory_values one_member_zip e 78 100 (zip64_cap (production 10)) False False = Ok (1, 47, 31, 78)"
    by (simp add: directory_values_def f)
  moreover have "max_entries (production 10) = 10" "47 \<le> central_cap (production 10)" by (simp_all add: cap_defs)
  moreover have "cadd 31 47 = Some 78" by (simp add: cadd_def U64_MAX_def)
  ultimately show ?thesis
    by (simp add: scan_def len one_member_zip_eocd e_def [symmetric] f U16_MAX_def U32_MAX_def
        one_member_zip_entry)
qed

theorem scan_layout_witness:
  "\<exists>ms stop. directory one_member_zip 31 stop ms \<and> stop \<le> 100 \<and> layout_ok one_member_zip 31 ms \<and> length ms = 1"
proof -
  have "length one_member_zip = 100" by (simp add: one_member_zip_def)
  then show ?thesis using scan_layout [OF one_member_zip_scan] by auto
qed

text \<open>
  An extra field is accepted exactly when it is a concatenation of whole records (identifier, length,
  payload), none of which is the Unicode path record \<open>0x7075\<close> that could override the checked name.
\<close>

theorem validate_extra_exact:
  "validate_extra extra = Ok () \<longleftrightarrow>
     (\<exists>recs. extra = concat (map enc_record recs) \<and>
        list_all (\<lambda>(id, p). id < 65536 \<and> id \<noteq> 0x7075 \<and> length p < 65536) recs)"
  unfolding validate_extra_iff by (simp add: record_ok_def list_all_iff case_prod_beta)

text \<open>
  C13: a member name the scan accepts cannot leave the extraction directory: resolving it component by
  component below any base descends through exactly its components, each non-empty, at most
  \<open>component_cap\<close> long, at most \<open>depth_cap\<close> of them; backslashes and control bytes are refused, and the
  running component count grows by the number of components and stays within its cap.
\<close>

theorem validate_name_no_traversal:
  assumes "validate_name n l c = Ok c'"
  shows "resolve_path base (split_on 0x2F n) = base @ path_components n \<and>
    list_all (\<lambda>p. p \<noteq> [] \<and> length p \<le> component_cap l) (path_components n) \<and>
    length (path_components n) \<le> depth_cap l \<and>
    c' = c + length (path_components n) \<and> c' \<le> total_component_cap l \<and>
    0x5C \<notin> set n"
  using validate_name_resolves [OF assms] validate_name_Ok [OF assms]
  by (auto simp: list_all_iff safe_component_def)

lemma validate_name_sample: "validate_name [0x61, 0x2F, 0x62] (production 10) 3 = Ok 5"
  by (simp add: validate_name_def production_def result_simps checked_simps cadd_def U64_MAX_def
      COMPONENT_CAP_def DEPTH_CAP_def TOTAL_COMPONENT_CAP_def opt_filter_def)

theorem validate_name_no_traversal_witness:
  "resolve_path [[0x78]] (split_on 0x2F [0x61, 0x2F, 0x62]) = [[0x78 :: byte], [0x61], [0x62]] \<and>
   (5 :: nat) \<le> total_component_cap (production 10)"
  using validate_name_no_traversal [OF validate_name_sample, of "[[0x78]]"]
  by (simp add: path_components_def)

end
