(* ===== verification/Official.thy ===== *)
theory Official
  imports Text
begin

text \<open>
  The error type of the library interface (\<open>official/error.rs\<close>): the kinds, the constructor that
  masks credentials in every message, and the classification of the messages of the worker.
  Byte positions of the code are character positions here: every position it slices at is
  found by a search or lies a number of ASCII characters behind one.
\<close>

section \<open>Searching\<close>

text \<open>\<open>str::find\<close> with a set of characters, and with a string.\<close>

fun find_char :: "('a \<Rightarrow> bool) \<Rightarrow> 'a list \<Rightarrow> nat option" where
  "find_char p [] = None"
| "find_char p (x # xs) = (if p x then Some 0 else map_option Suc (find_char p xs))"

fun find_str :: "'a list \<Rightarrow> 'a list \<Rightarrow> nat option" where
  "find_str w [] = (if w = [] then Some 0 else None)"
| "find_str w (x # xs) = (if prefix w (x # xs) then Some 0 else map_option Suc (find_str w xs))"

definition rfind_char :: "('a \<Rightarrow> bool) \<Rightarrow> 'a list \<Rightarrow> nat option" where
  "rfind_char p xs = map_option (\<lambda>i. length xs - Suc i) (find_char p (rev xs))"

definition contains :: "'a list \<Rightarrow> 'a list \<Rightarrow> bool" where
  "contains w s \<longleftrightarrow> find_str w s \<noteq> None"

text \<open>\<open>String::replace_range\<close>\<close>

definition replace_range :: "'a list \<Rightarrow> nat \<Rightarrow> nat \<Rightarrow> 'a list \<Rightarrow> 'a list" where
  "replace_range s b e t = take b s @ t @ drop e s"

lemma find_char_Some_iff:
  "find_char p xs = Some i \<longleftrightarrow> i < length xs \<and> p (xs ! i) \<and> (\<forall>j < i. \<not> p (xs ! j))"
proof (induction xs arbitrary: i)
  case (Cons x xs)
  then show ?case by (cases i) (auto simp: less_Suc_eq_0_disj)
qed simp

lemma find_char_None_iff: "find_char p xs = None \<longleftrightarrow> (\<forall>x \<in> set xs. \<not> p x)"
  by (induction xs) auto

lemma find_char_append:
  "\<forall>x \<in> set a. \<not> p x \<Longrightarrow> find_char p (a @ b) = map_option ((+) (length a)) (find_char p b)"
  by (induction a) (cases "find_char p b"; simp)+

lemma find_char_eq [simp]: "x \<notin> set a \<Longrightarrow> find_char (\<lambda>c. c = x) (a @ x # b) = Some (length a)"
  by (induction a) auto

lemma find_char_take_drop:
  assumes "find_char p xs = Some i"
  shows "xs = take i xs @ xs ! i # drop (Suc i) xs" "\<forall>x \<in> set (take i xs). \<not> p x"
  using assms by (auto simp: find_char_Some_iff id_take_nth_drop [symmetric] in_set_conv_nth)

lemma find_str_bound: "find_str w xs = Some i \<Longrightarrow> i + length w \<le> length xs"
  by (induction xs arbitrary: i) (auto split: if_splits dest: prefix_length_le)

lemma find_str_Some: "find_str w xs = Some i \<Longrightarrow> prefix w (drop i xs)"
  by (induction xs arbitrary: i) (auto split: if_splits)

lemma rfind_char_bound: "rfind_char p xs = Some i \<Longrightarrow> i < length xs"
  by (auto simp: rfind_char_def find_char_Some_iff)

section \<open>The error type\<close>

datatype OfficialErrorKind =
  InvalidOptions | InvalidInput | UnsupportedOperation | LimitExceeded | RuntimeUnavailable
| Upstream | Deadline | Cancelled | Transport

record OfficialError =
  oe_kind :: OfficialErrorKind
  oe_message :: ustr

definition REDACTED :: ustr where
  "REDACTED = lit ''[redacted]''"

text \<open>The value behind the first occurrence of a key that names a credential.\<close>

definition redact_key :: "ustr \<Rightarrow> ustr \<Rightarrow> ustr" where
  "redact_key key text =
     (case find_str key (map to_ascii_lowercase text) of
        None \<Rightarrow> text
      | Some start \<Rightarrow>
          (case find_char (\<lambda>c. c = 61 \<or> c = 58) (drop start text) of
             None \<Rightarrow> text
           | Some split \<Rightarrow>
               (let b = start + split + 1;
                    e = (case find_char (\<lambda>c. is_whitespace c \<or> c = 44 \<or> c = 125) (drop b text) of
                           None \<Rightarrow> length text
                         | Some n \<Rightarrow> b + n)
                in replace_range text b e REDACTED)))"

text \<open>The user information of every URL: the loop over the occurrences of \<open>://\<close>.\<close>

definition authority_stop :: "uchar \<Rightarrow> bool" where
  "authority_stop c \<longleftrightarrow> c \<in> {47, 63, 35, 10, 13, 32}"

definition authority_end :: "ustr \<Rightarrow> nat \<Rightarrow> nat" where
  "authority_end text authority =
     (case find_char authority_stop (drop authority text) of
        None \<Rightarrow> length text
      | Some n \<Rightarrow> authority + n)"

definition redact_authority :: "ustr \<Rightarrow> nat \<Rightarrow> ustr \<times> nat" where
  "redact_authority text authority =
     (let e = authority_end text authority
      in case rfind_char (\<lambda>c. c = 64) (take (e - authority) (drop authority text)) of
           Some at \<Rightarrow> (replace_range text authority (authority + at) REDACTED, authority + 10)
         | None \<Rightarrow> (text, e + 1))"

function redact_urls :: "ustr \<Rightarrow> nat \<Rightarrow> ustr" where
  "redact_urls text cursor =
     (case find_str (lit ''://'') (drop cursor text) of
        None \<Rightarrow> text
      | Some n \<Rightarrow>
          (let r = redact_authority text (cursor + n + 3)
           in if length (fst r) \<le> snd r then fst r else redact_urls (fst r) (snd r)))"
  by pat_completeness auto

lemma authority_end_ge: "authority \<le> length t \<Longrightarrow> authority \<le> authority_end t authority"
  by (auto simp: authority_end_def split: option.splits)

lemma length_REDACTED [simp]: "length REDACTED = 10"
  by (simp add: REDACTED_def)

lemma redact_authority_progress:
  assumes "authority \<le> length t" "redact_authority t authority = (t', cursor')"
  shows "authority < cursor'" "take authority t' = take authority t" "authority \<le> length t'"
    and "length t' - cursor' \<le> length t - authority"
  using assms authority_end_ge [OF assms(1)]
  by (auto simp: redact_authority_def Let_def replace_range_def dest!: rfind_char_bound split: option.splits)

lemma find_scheme_bound:
  assumes "find_str (lit ''://'') (drop cursor t) = Some n"
  shows "cursor + n + 3 \<le> length t"
proof -
  have "n + 3 \<le> length t - cursor" using find_str_bound [OF assms] by simp
  then show ?thesis by arith
qed

termination redact_urls
proof (relation "measure (\<lambda>(t, cursor). length t - cursor)", goal_cases)
  case (2 t cursor n r)
  have b: "cursor + n + 3 \<le> length t" by (rule find_scheme_bound [OF 2(1)])
  then have "length (fst r) - snd r \<le> length t - (cursor + n + 3)"
    using redact_authority_progress(4) [OF b, of "fst r" "snd r"] 2(2) by simp
  then show ?case using b by (simp add: case_prod_beta)
qed simp

declare redact_urls.simps [simp del]

definition redact_secret :: "ustr \<Rightarrow> nat \<Rightarrow> ustr" where
  "redact_secret v cap =
     (let keyed = foldl (\<lambda>text key. redact_key (lit key) text) v
                    [''api_key'', ''api-key'', ''token'', ''authorization'']
      in take cap (redact_urls keyed 0))"

text \<open>\<open>OfficialError::new\<close>\<close>

definition official_error :: "OfficialErrorKind \<Rightarrow> ustr \<Rightarrow> OfficialError" where
  "official_error k message = \<lparr>oe_kind = k, oe_message = redact_secret message 4096\<rparr>"

text \<open>\<open>classify\<close>: the kind of a worker's message, by the words it contains.\<close>

definition classify :: "ustr \<Rightarrow> OfficialError" where
  "classify message =
     (let lower = map to_ascii_lowercase message;
          has = (\<lambda>w. contains (lit w) lower);
          k = (if has ''deadline'' \<or> has ''timed out'' then Deadline
               else if has ''cancel'' then Cancelled
               else if has ''exceed'' \<or> has ''limit'' \<or> has ''cap'' then LimitExceeded
               else if has ''unavailable'' \<or> has ''spawn'' then RuntimeUnavailable
               else if has ''unsupported operation'' then UnsupportedOperation
               else if has ''invalid'' \<or> has ''must be'' \<or> has ''unsupported input''
                       \<or> has ''file type'' \<or> has ''input is empty'' \<or> has ''missing materialized''
               then InvalidInput
               else if has ''protocol'' \<or> has ''pipe'' \<or> has ''stdout'' then Transport
               else Upstream)
      in official_error k message)"

lemma oe_kind_official_error [simp]: "oe_kind (official_error k m) = k"
  by (simp add: official_error_def)

section \<open>What the redaction removes\<close>

lemma take_shorter: "take m xs = take m ys \<Longrightarrow> k \<le> m \<Longrightarrow> take k xs = take k ys"
  by (drule arg_cong [of _ _ "take k"]) (simp add: min_absorb1)

text \<open>The part of the text in front of the cursor is settled.\<close>

lemma redact_urls_keeps:
  "cursor \<le> length t \<Longrightarrow> take cursor (redact_urls t cursor) = take cursor t"
proof (induction t cursor rule: redact_urls.induct)
  case (1 t cursor)
  show ?case
  proof (cases "find_str (lit ''://'') (drop cursor t)")
    case None
    then show ?thesis by (subst redact_urls.simps) simp
  next
    case (Some n)
    define r where "r = redact_authority t (cursor + n + 3)"
    have b: "cursor + n + 3 \<le> length t" by (rule find_scheme_bound [OF Some])
    note p = redact_authority_progress [OF b, of "fst r" "snd r"]
    have "take (cursor + n + 3) (fst r) = take (cursor + n + 3) t" using p(2) by (simp add: r_def)
    then have keep: "take cursor (fst r) = take cursor t"
      by (rule take_shorter) simp
    have eq: "redact_urls t cursor = (if length (fst r) \<le> snd r then fst r else redact_urls (fst r) (snd r))"
      unfolding redact_urls.simps [of t cursor] Some r_def by (simp add: Let_def)
    show ?thesis
    proof (cases "length (fst r) \<le> snd r")
      case False
      have "take (snd r) (redact_urls (fst r) (snd r)) = take (snd r) (fst r)"
        by (rule "1.IH" [OF Some r_def False]) (use False in simp)
      moreover have "cursor \<le> snd r" using p(1) by (simp add: r_def)
      ultimately have "take cursor (redact_urls (fst r) (snd r)) = take cursor (fst r)"
        by (rule take_shorter)
      then show ?thesis using False keep eq by simp
    qed (simp add: eq keep)
  qed
qed

lemma authority_end_split:
  assumes "\<forall>c \<in> set a. \<not> authority_stop c"
    and "rest = [] \<or> authority_stop (hd rest)"
  shows "authority_end (pre @ a @ rest) (length pre) = length pre + length a"
  using assms find_char_None_iff [of authority_stop a]
  by (cases rest) (auto simp: authority_end_def find_char_append)

lemma rfind_char_split:
  assumes "p x" "\<forall>y \<in> set b. \<not> p y"
  shows "rfind_char p (a @ x # b) = Some (length a)"
  using assms by (simp add: rfind_char_def find_char_append)

lemma redact_authority_userinfo:
  assumes "\<forall>c \<in> set (user @ host). \<not> authority_stop c" "64 \<notin> set host"
    and "rest = [] \<or> authority_stop (hd rest)"
  shows "redact_authority (pre @ user @ 64 # host @ rest) (length pre) =
           (pre @ REDACTED @ 64 # host @ rest, length pre + 10)"
proof -
  have e: "authority_end (pre @ user @ 64 # host @ rest) (length pre) = length pre + (length user + 1 + length host)"
    using authority_end_split [of "user @ 64 # host" rest pre] assms
    by (auto simp: authority_stop_def [of 64])
  have "rfind_char (\<lambda>c. c = 64) (user @ 64 # host) = Some (length user)"
    using assms(2) by (intro rfind_char_split) auto
  then show ?thesis by (simp add: redact_authority_def e replace_range_def)
qed

text \<open>
  The user information of a URL never survives the masking. Whatever stands between the first
  \<open>://\<close> of a message and the last \<open>@\<close> of that authority, the result carries the mask in its place
  and everything in front of it unchanged.
\<close>

theorem url_userinfo_masked:
  assumes "find_str (lit ''://'') (pre @ lit ''://'' @ user @ 64 # host @ rest) = Some (length pre)"
    and "\<forall>c \<in> set (user @ host). \<not> authority_stop c" "64 \<notin> set host"
    and "rest = [] \<or> authority_stop (hd rest)"
  shows "prefix (pre @ lit ''://[redacted]'') (redact_urls (pre @ lit ''://'' @ user @ 64 # host @ rest) 0)"
proof -
  let ?q = "pre @ lit ''://''"
  let ?t = "?q @ REDACTED @ 64 # host @ rest"
  have r: "redact_authority (?q @ user @ 64 # host @ rest) (length pre + 3) = (?t, length pre + 13)"
    using redact_authority_userinfo [OF assms(2-4), of ?q] by (simp add: eval_nat_numeral)
  have eq: "redact_urls (pre @ lit ''://'' @ user @ 64 # host @ rest) 0 = redact_urls ?t (length pre + 13)"
    using assms(1) r by (subst redact_urls.simps) simp
  have "take (length pre + 13) (redact_urls ?t (length pre + 13)) = ?q @ REDACTED"
    by (subst redact_urls_keeps) (simp_all add: eval_nat_numeral)
  then have "prefix (?q @ REDACTED) (redact_urls ?t (length pre + 13))"
    using take_is_prefix by metis
  then show ?thesis unfolding eq by (simp add: REDACTED_def)
qed

theorem url_userinfo_masked_witness:
  "prefix (lit ''see http://[redacted]'') (redact_urls (lit ''see http://joe:pw@host/a'') 0)"
  using url_userinfo_masked [of "lit ''see http''" "lit ''joe:pw''" "lit ''host''" "lit ''/a''"]
  by (simp add: authority_stop_def)

text \<open>An occurrence that cannot cross a character lies on one side of it.\<close>

lemma contains_iff: "contains w s \<longleftrightarrow> (\<exists>x y. s = x @ w @ y)"
proof (induction s)
  case (Cons c s)
  have "(\<exists>x y. c # s = x @ w @ y) \<longleftrightarrow> prefix w (c # s) \<or> (\<exists>x y. s = x @ w @ y)"
    by (auto simp: prefix_def Cons_eq_append_conv)
  then show ?case using Cons by (auto simp: contains_def)
qed (auto simp: contains_def)

lemma contains_between:
  assumes "contains w (s @ c # t)" "c \<notin> set w"
  shows "contains w s \<or> contains w t"
proof -
  obtain x y where "s @ c # t = x @ w @ y" using assms(1) by (auto simp: contains_iff)
  then have "(\<exists>u. s = x @ u \<and> u @ c # t = w @ y) \<or> (\<exists>u. x = s @ u \<and> c # t = u @ w @ y)"
    by (auto simp: append_eq_append_conv2)
  then show ?thesis
  proof (elim disjE exE conjE)
    fix u
    assume u: "s = x @ u" "u @ c # t = w @ y"
    consider z where "u = w @ z" | z where "w = u @ z" "c # t = z @ y"
      using u(2) by (auto simp: append_eq_append_conv2)
    then show ?thesis
    proof cases
      case 1
      then show ?thesis using u(1) by (auto simp: contains_iff)
    next
      case 2
      then have "w = u" using assms(2) by (cases z) auto
      then have "contains w s" unfolding contains_iff u(1) by (intro exI [of _ x] exI [of _ "[]"]) simp
      then show ?thesis ..
    qed
  next
    fix u
    assume "c # t = u @ w @ y"
    then have "u \<noteq> [] \<or> w = []" using assms(2) by (cases w) auto
    then show ?thesis using \<open>c # t = u @ w @ y\<close> by (cases u) (auto simp: contains_iff)
  qed
qed

lemma contains_parts: "contains w s \<Longrightarrow> contains w (x @ s @ y)"
  unfolding contains_iff by (metis append.assoc)

text \<open>The mask brings no new occurrence of a text without brackets that is no part of it.\<close>

lemma mask_adds_nothing:
  assumes "contains w (map f (s @ REDACTED @ t))" "91 \<notin> set w" "93 \<notin> set w" "\<not> contains w (map f (lit ''redacted''))" "f 91 = 91" "f 93 = 93"
  shows "contains w (map f (s @ t))"
proof -
  have e: "map f (s @ REDACTED @ t) = map f s @ 91 # (map f (lit ''redacted'') @ 93 # map f t)" using assms(5,6) by (simp add: REDACTED_def)
  have "contains w (map f s) \<or> contains w (map f (lit ''redacted'')) \<or> contains w (map f t)"
    using contains_between [OF assms(1) [unfolded e] assms(2)] contains_between [OF _ assms(3)] by blast
  then show ?thesis
    using assms(4) contains_parts [of w "map f s" "[]" "map f t"] contains_parts [of w "map f t" "map f s" "[]"] by auto
qed

lemma redact_key_absent: "\<not> contains key (map to_ascii_lowercase t) \<Longrightarrow> redact_key key t = t"
  by (simp add: contains_def redact_key_def)

lemma redact_urls_absent: "\<not> contains (lit ''://'') t \<Longrightarrow> redact_urls t 0 = t"
  by (subst redact_urls.simps) (simp add: contains_def)

lemma redact_key_spaced:
  assumes "find_str key (map to_ascii_lowercase (a @ b @ sep # w # v)) = Some (length a)"
    and "\<forall>c \<in> set b. c \<noteq> 61 \<and> c \<noteq> 58" "sep = 61 \<or> sep = 58" "is_whitespace w"
  shows "redact_key key (a @ b @ sep # w # v) = a @ b @ sep # REDACTED @ w # v"
proof -
  have "find_char (\<lambda>c. c = 61 \<or> c = 58) (b @ sep # w # v) = Some (length b)"
    using assms(2,3) by (auto simp: find_char_append)
  then show ?thesis
    using assms(1,4) by (simp add: redact_key_def replace_range_def)
qed

definition CREDENTIALS :: "string list" where
  "CREDENTIALS = [''api_key'', ''api-key'', ''token'', ''authorization'']"

lemma mask_has_no_key:
  assumes "k \<in> set CREDENTIALS"
  shows "91 \<notin> set (lit k)" "93 \<notin> set (lit k)" "\<not> contains (lit k) (map to_ascii_lowercase (lit ''redacted''))"
  using assms by (auto simp: CREDENTIALS_def contains_def to_ascii_lowercase_def)

lemma foldl_one:
  assumes "x \<in> set xs" "distinct xs" "f t x = t'" "\<And>y. y \<in> set xs \<Longrightarrow> y \<noteq> x \<Longrightarrow> f t y = t \<and> f t' y = t'"
  shows "foldl f t xs = t'"
proof -
  obtain ys zs where xs: "xs = ys @ x # zs" using assms(1) by (auto simp: in_set_conv_decomp)
  have "foldl f t us = t" if "set us \<subseteq> set xs - {x}" for us using that assms(4) by (induction us) auto
  moreover have "foldl f t' us = t'" if "set us \<subseteq> set xs - {x}" for us using that assms(4) by (induction us) auto
  ultimately show ?thesis using assms(2,3) by (simp add: xs)
qed

text \<open>
  C28: what the masking of messages keeps. A message names one of the four credentials, the separator behind the name is
  followed by white space, as in the header line \<open>Authorization: Bearer ...\<close>, and the message has none of the other three
  names and no URL. Then the masked message is the whole message, credential included, with the mask inserted between
  the separator and the white space.
\<close>

theorem redact_secret_keeps_spaced_value:
  assumes "key \<in> set [''api_key'', ''api-key'', ''token'', ''authorization'']"
    and "find_str (lit key) (map to_ascii_lowercase (a @ b @ sep # w # v)) = Some (length a)"
    and "\<forall>c \<in> set b. c \<noteq> 61 \<and> c \<noteq> 58" "sep = 61 \<or> sep = 58" "is_whitespace w"
    and "\<forall>k \<in> set [''api_key'', ''api-key'', ''token'', ''authorization''] - {key}. \<not> contains (lit k) (map to_ascii_lowercase (a @ b @ sep # w # v))"
    and "\<not> contains (lit ''://'') (a @ b @ sep # w # v)"
  shows "redact_secret (a @ b @ sep # w # v) cap = take cap (a @ b @ sep # REDACTED @ w # v)"
proof -
  define s t where "s = a @ b @ [sep]" and "t = w # v"
  have st: "a @ b @ sep # w # v = s @ t" "a @ b @ sep # REDACTED @ w # v = s @ REDACTED @ t" by (simp_all add: s_def t_def)
  have other: "redact_key (lit k) (s @ t) = s @ t \<and> redact_key (lit k) (s @ REDACTED @ t) = s @ REDACTED @ t"
    if "k \<in> set CREDENTIALS" "k \<noteq> key" for k
  proof -
    have "\<not> contains (lit k) (map to_ascii_lowercase (s @ t))" using assms(6) that by (auto simp: st CREDENTIALS_def)
    moreover from this have "\<not> contains (lit k) (map to_ascii_lowercase (s @ REDACTED @ t))"
      using mask_adds_nothing [of "lit k" to_ascii_lowercase s t] mask_has_no_key [OF that(1)] by (auto simp: to_ascii_lowercase_def)
    ultimately show ?thesis by (simp add: redact_key_absent)
  qed
  have "redact_key (lit key) (s @ t) = s @ REDACTED @ t" using redact_key_spaced [OF assms(2-5)] by (simp add: st)
  then have "foldl (\<lambda>text key. redact_key (lit key) text) (s @ t) CREDENTIALS = s @ REDACTED @ t"
    using assms(1) by (intro foldl_one [where x = key]) (auto simp: other, auto simp: CREDENTIALS_def)
  moreover have no_url: "\<not> contains (lit ''://'') (lit ''redacted'')" by (simp add: contains_def)
  have "\<not> contains (lit ''://'') (s @ REDACTED @ t)"
    using assms(7) mask_adds_nothing [of "lit ''://''" id s t] no_url by (auto simp: st list.map_id)
  ultimately show ?thesis by (simp add: redact_secret_def st CREDENTIALS_def redact_urls_absent)
qed

theorem redact_secret_keeps_spaced_value_witness:
  "redact_secret (lit ''Authorization: Bearer sk-1'') 4096 = lit ''Authorization:[redacted] Bearer sk-1''"
  using redact_secret_keeps_spaced_value
    [of "''authorization''" "[]" "lit ''Authorization''" 58 32 "lit ''Bearer sk-1''" 4096]
  by (simp add: to_ascii_lowercase_def is_whitespace_def REDACTED_def contains_def insert_Diff_if)

end
