(* ===== verification/Csv.thy ===== *)
theory Csv
  imports Official "HOL-Library.Product_Lexorder"
begin

text \<open>
  The native CSV analyser (\<open>official/native/csv.rs\<close>, \<open>csv_render.rs\<close>, \<open>csv_infer.rs\<close>): decoding,
  the \<open>sep=\<close> directive, delimiter inference, the character machine that splits the text into rows,
  header inference, and the bounded HTML and Markdown renderers. The cancellation flag is an
  argument, \<open>None\<close> where the code has no flag; every load during one call returns the same value.
\<close>

section \<open>Limits and errors\<close>

definition CSV_MAX_BYTES :: nat where "CSV_MAX_BYTES = 200 * 1024 * 1024"
definition MAX_ROWS :: nat where "MAX_ROWS = 1048576"
definition MAX_COLUMNS :: nat where "MAX_COLUMNS = 16384"
definition MAX_GRID :: nat where "MAX_GRID = 250000"
definition MAX_RENDERED :: nat where "MAX_RENDERED = 256 * 1024 * 1024"

type_synonym 'a official = "('a, OfficialError) result"
type_synonym row = "ustr list"
type_synonym cancel = "bool option"

abbreviation csv_error :: "OfficialErrorKind \<Rightarrow> string \<Rightarrow> OfficialError" where
  "csv_error k message \<equiv> official_error k (lit message)"

definition csv_cancelled :: OfficialError where
  "csv_cancelled = csv_error Cancelled ''CSV parsing cancelled''"

definition check_cancel :: "cancel \<Rightarrow> unit official" where
  "check_cancel cancelled = ensure (cancelled \<noteq> Some True) csv_cancelled"

section \<open>Decoding\<close>

definition decode :: "byte list \<Rightarrow> ustr official" where
  "decode bytes =
     (if prefix [0xEF, 0xBB, 0xBF] bytes then
        ok_or (from_utf8 (drop 3 bytes)) (csv_error InvalidInput ''CSV is not valid UTF-8'')
      else if prefix [0xFF, 0xFE, 0, 0] bytes \<or> prefix [0, 0, 0xFE, 0xFF] bytes then
        Err (csv_error UnsupportedOperation ''UTF-32 CSV is not supported'')
      else if prefix [0xFF, 0xFE] bytes \<or> prefix [0xFE, 0xFF] bytes then
        Err (csv_error UnsupportedOperation ''UTF-16 CSV is not supported yet'')
      else ok_or (from_utf8 bytes)
             (csv_error UnsupportedOperation ''CSV encoding is unsupported; expected UTF-8''))"

text \<open>\<open>str::get\<close> at a byte position: \<open>None\<close> outside the text and inside a character.\<close>

fun split_at_byte :: "nat \<Rightarrow> ustr \<Rightarrow> (ustr \<times> ustr) option" where
  "split_at_byte 0 s = Some ([], s)"
| "split_at_byte (Suc n) [] = None"
| "split_at_byte (Suc n) (c # s) =
     (if Suc n < len_utf8 c then None
      else map_option (\<lambda>(a, b). (c # a, b)) (split_at_byte (Suc n - len_utf8 c) s))"

definition newline :: "uchar \<Rightarrow> bool" where
  "newline c \<longleftrightarrow> c = 13 \<or> c = 10"

definition delimiters :: "uchar list" where
  "delimiters = lit '',;'' @ [9] @ lit ''|''"

definition directive :: "ustr \<Rightarrow> ustr \<times> uchar option" where
  "directive t =
     (let line = takeWhile (\<lambda>c. \<not> newline c) t
      in case split_at_byte 4 line of
           Some (p, v) \<Rightarrow>
             if blen line = 5 \<and> map to_ascii_lowercase p = lit ''sep='' then
               (let delim = (case v of [] \<Rightarrow> None | c # _ \<Rightarrow> opt_filter (\<lambda>c. c \<in> set delimiters) (Some c));
                    next = (if prefix [13, 10] (drop (length line) t)
                            then length line + 2 else length line + 1)
                in if delim \<noteq> None then (drop (min next (length t)) t, delim) else (t, None))
             else (t, None)
         | None \<Rightarrow> (t, None))"

section \<open>Splitting into rows\<close>

record Parser =
  p_rows :: "row list"
  p_row :: row
  p_field :: ustr
  p_quoted :: bool
  p_closed :: bool
  p_max_width :: nat
  p_cell_count :: nat
  p_checked :: nat

definition parser_start :: Parser where
  "parser_start = \<lparr>p_rows = [], p_row = [], p_field = [], p_quoted = False, p_closed = False,
     p_max_width = 0, p_cell_count = 0, p_checked = 0\<rparr>"

definition grid_error :: OfficialError where
  "grid_error = csv_error LimitExceeded ''CSV exceeds max_grid_slots''"

definition rows_error :: OfficialError where
  "rows_error = csv_error LimitExceeded ''CSV exceeds max_rows''"

definition push_char :: "uchar \<Rightarrow> Parser \<Rightarrow> Parser" where
  "push_char ch s = s\<lparr>p_field := p_field s @ [ch]\<rparr>"

definition push_field :: "Parser \<Rightarrow> Parser" where
  "push_field s = s\<lparr>p_row := p_row s @ [p_field s], p_field := [], p_cell_count := sat_add (p_cell_count s) 1\<rparr>"

definition push_row :: "Parser \<Rightarrow> Parser" where
  "push_row s = s\<lparr>p_rows := p_rows s @ [p_row s], p_row := [],
                 p_max_width := max (p_max_width s) (length (p_row s))\<rparr>"

definition check_grid :: "Parser \<Rightarrow> unit official" where
  "check_grid s =
     ensure (\<not> (MAX_GRID < p_cell_count s \<or> MAX_GRID < sat_mul (length (p_rows s)) (p_max_width s))) grid_error"

text \<open>
  One iteration of the loop on the character \<open>ch\<close> with the following character \<open>peek\<close>. The result
  carries whether the peeked character was consumed and whether the sample is complete.
\<close>

definition parse_char ::
  "uchar \<Rightarrow> nat \<Rightarrow> bool \<Rightarrow> uchar \<Rightarrow> uchar option \<Rightarrow> Parser \<Rightarrow> (Parser \<times> bool \<times> bool) official" where
  "parse_char delimiter limit sample ch peek s =
     (if p_quoted s then
        (if ch = 34 then
           (if peek = Some 34 then Ok (push_char 34 s, True, False)
            else Ok (s\<lparr>p_quoted := False, p_closed := True\<rparr>, False, False))
         else Ok (push_char ch s, False, False))
      else if p_closed s \<and> ch \<noteq> delimiter \<and> ch \<noteq> 13 \<and> ch \<noteq> 10 then
        Err (csv_error InvalidInput ''malformed CSV: data after closing quote'')
      else if ch = delimiter then
        (let s = (push_field s)\<lparr>p_closed := False\<rparr>
         in if MAX_COLUMNS \<le> length (p_row s)
            then Err (csv_error LimitExceeded ''CSV exceeds max_columns'')
            else Ok (s, False, False))
      else if ch = 13 \<or> ch = 10 then
        (let skip = (ch = 13 \<and> peek = Some 10);
             s = (push_row (push_field s))\<lparr>p_closed := False\<rparr>
         in and_then (check_grid s) (\<lambda>_.
            if limit < length (p_rows s) then Err rows_error
            else Ok (s, skip, sample \<and> length (p_rows s) = limit)))
      else if ch = 34 \<and> p_field s = [] \<and> \<not> p_closed s then
        Ok (s\<lparr>p_quoted := True\<rparr>, False, False)
      else Ok (push_char ch s, False, False))"

definition parse_step ::
  "uchar \<Rightarrow> nat \<Rightarrow> bool \<Rightarrow> cancel \<Rightarrow> uchar \<Rightarrow> uchar option \<Rightarrow> Parser \<Rightarrow> (Parser \<times> bool \<times> bool) official" where
  "parse_step delimiter limit sample cancelled ch peek s0 =
     (let s = s0\<lparr>p_checked := p_checked s0 + 1\<rparr>
      in and_then (if p_checked s mod 8192 = 0 then check_cancel cancelled else Ok ()) (\<lambda>_.
         parse_char delimiter limit sample ch peek s))"

definition parse_end :: "nat \<Rightarrow> Parser \<Rightarrow> row list official" where
  "parse_end limit s =
     (if p_quoted s then Err (csv_error InvalidInput ''malformed CSV: unterminated quoted field'')
      else and_then
        (if p_field s \<noteq> [] \<or> p_row s \<noteq> [] \<or> p_closed s then
           (let s = push_row (push_field s) in and_then (check_grid s) (\<lambda>_. Ok s))
         else Ok s)
        (\<lambda>s. if limit < length (p_rows s) then Err rows_error else Ok (p_rows s)))"

definition first :: "'a list \<Rightarrow> 'a option" where
  "first xs = (case xs of [] \<Rightarrow> None | x # _ \<Rightarrow> Some x)"

function parse_loop :: "uchar \<Rightarrow> nat \<Rightarrow> bool \<Rightarrow> cancel \<Rightarrow> ustr \<Rightarrow> Parser \<Rightarrow> row list official" where
  "parse_loop delimiter limit sample cancelled [] s = parse_end limit s"
| "parse_loop delimiter limit sample cancelled (ch # chars) s =
     and_then (parse_step delimiter limit sample cancelled ch (first chars) s) (\<lambda>(s', skip, stop).
       if stop then Ok (p_rows s')
       else parse_loop delimiter limit sample cancelled (if skip then drop 1 chars else chars) s')"
  by pat_completeness auto

termination by (relation "measure (\<lambda>(_, _, _, _, chars, _). length chars)") auto

definition csv_parse :: "ustr \<Rightarrow> uchar \<Rightarrow> nat \<Rightarrow> bool \<Rightarrow> cancel \<Rightarrow> row list official" where
  "csv_parse t delimiter limit sample cancelled =
     parse_loop delimiter limit sample cancelled t parser_start"

section \<open>Inference\<close>

text \<open>A \<open>BTreeMap\<close> of counters: the entries ascend by key.\<close>

fun bump :: "nat \<Rightarrow> (nat \<times> nat) list \<Rightarrow> (nat \<times> nat) list" where
  "bump k [] = [(k, 1)]"
| "bump k ((k', n) # m) =
     (if k < k' then (k, 1) # (k', n) # m else if k = k' then (k', n + 1) # m else (k', n) # bump k m)"

definition tally :: "nat list \<Rightarrow> (nat \<times> nat) list" where
  "tally ks = foldl (\<lambda>m k. bump k m) [] ks"

definition modal :: "nat list \<Rightarrow> (nat \<times> nat) option" where
  "modal ks = max_by_key (\<lambda>(w, n). (n, w)) (tally ks)"

definition candidates :: "ustr \<Rightarrow> uchar list" where
  "candidates suff = (if suff = lit ''tsv'' then [9, 44, 59, 124] else [44, 59, 9, 124])"

text \<open>The loop over the candidates with the best score and the chosen delimiter so far.\<close>

fun try_candidates ::
  "ustr \<Rightarrow> cancel \<Rightarrow> nat \<Rightarrow> uchar list \<Rightarrow> (nat \<times> nat \<times> nat) \<times> uchar \<Rightarrow> uchar official" where
  "try_candidates t cancelled priority [] (best, chosen) =
     and_then (check_cancel cancelled) (\<lambda>_. Ok chosen)"
| "try_candidates t cancelled priority (delimiter # ds) (best, chosen) =
     and_then (check_cancel cancelled) (\<lambda>_.
       try_candidates t cancelled (priority + 1) ds
         (case csv_parse t delimiter 20 True cancelled of
            Err _ \<Rightarrow> (best, chosen)
          | Ok rows \<Rightarrow>
              (let (width, frequency) =
                     (case modal (map (\<lambda>row. max (length row) 1) rows) of Some m \<Rightarrow> m | None \<Rightarrow> (1, 0));
                   score = (frequency, width, 4 - priority)
               in if width < 2 then (best, chosen)
                  else if best < score then (score, delimiter) else (best, chosen))))"

definition infer_delimiter :: "ustr \<Rightarrow> ustr \<Rightarrow> cancel \<Rightarrow> uchar official" where
  "infer_delimiter t suff cancelled =
     try_candidates t cancelled 0 (candidates suff) ((0, 0, 0), hd (candidates suff))"

definition stripped :: "ustr \<Rightarrow> ustr" where
  "stripped v = trim_matches (\<lambda>c. is_whitespace c \<or> (0x1C \<le> c \<and> c \<le> 0x1F)) v"

definition modal_width :: "row list \<Rightarrow> nat" where
  "modal_width rows = (case modal (map length rows) of None \<Rightarrow> 0 | Some (width, _) \<Rightarrow> width)"

text \<open>
  The regular expressions (crate \<open>regex\<close>) and the caseless comparison (crate \<open>unicase\<close>) are
  parameters: \<open>is_match\<close> takes the name of the compiled pattern.
\<close>

datatype Pattern = FLOAT_RE | DATE_RE | TIME_RE

record Matchers =
  is_match :: "Pattern \<Rightarrow> ustr \<Rightarrow> bool"
  unicase_eq :: "ustr \<Rightarrow> ustr \<Rightarrow> bool"

definition value_kind :: "Matchers \<Rightarrow> ustr \<Rightarrow> string" where
  "value_kind mt v0 =
     (let v = stripped v0
      in if v = [] then ''empty''
         else
           (let numeric = filter (\<lambda>c. c \<notin> {44, 32, 95, 0xA0})
                            (if last v = 37 then stripped (butlast v) else v)
            in if list_ex is_ascii_digit numeric \<and> is_match mt FLOAT_RE numeric then ''number''
               else if list_ex (\<lambda>c. unicase_eq mt v (lit c)) [''true'', ''false'', ''yes'', ''no'']
               then ''boolean''
               else if is_match mt DATE_RE v \<or> is_match mt TIME_RE v then ''date''
               else ''text''))"

text \<open>The labels that cannot head a column: empty behind the first, long, multi-line, repeated.\<close>

fun bad_labels :: "Matchers \<Rightarrow> nat \<Rightarrow> ustr list \<Rightarrow> row \<Rightarrow> bool" where
  "bad_labels mt i labels [] = False"
| "bad_labels mt i labels (v # header) =
     (let label = stripped v;
          duplicate = (label \<noteq> [] \<and> list_ex (unicase_eq mt label) labels);
          labels' = (if label = [] then labels else label # labels)
      in (label = [] \<and> i \<noteq> 0) \<or> 64 < length v \<or> list_ex newline v \<or> duplicate
         \<or> bad_labels mt (i + 1) labels' header)"

definition dominant :: "string list \<Rightarrow> string option" where
  "dominant kinds =
     find (\<lambda>k. length kinds * 9 \<le> length (filter (\<lambda>c. c = k) kinds) * 10)
       [''number'', ''boolean'', ''date'', ''text'']"

definition column_vote :: "Matchers \<Rightarrow> row list \<Rightarrow> nat \<times> nat \<Rightarrow> nat \<times> ustr \<Rightarrow> nat \<times> nat" where
  "column_vote mt body votes item =
     (let (header_votes, data_votes) = votes;
          (column, label) = item;
          vals = filter (\<lambda>s. s \<noteq> [])
                   (map (\<lambda>row. stripped (row ! column)) (filter (\<lambda>row. column < length row) body))
      in if vals = [] then votes
         else (case dominant (map (value_kind mt) vals) of
                 Some k \<Rightarrow>
                   if k \<noteq> ''text'' then
                     (if value_kind mt label = ''text'' \<or> (column = 0 \<and> stripped label = [])
                      then (header_votes + 1, data_votes) else (header_votes, data_votes + 1))
                   else if stripped label \<noteq> [] \<and> list_ex (\<lambda>v. unicase_eq mt v (stripped label)) vals
                   then (header_votes, data_votes + 1) else votes
               | None \<Rightarrow>
                   if stripped label \<noteq> [] \<and> list_ex (\<lambda>v. unicase_eq mt v (stripped label)) vals
                   then (header_votes, data_votes + 1) else votes))"

definition infer_header :: "Matchers \<Rightarrow> row list \<Rightarrow> bool" where
  "infer_header mt rows =
     (let body = drop 1 (take (min (length rows) 51) rows)
      in if length rows < 2 \<or> length (hd rows) \<noteq> modal_width body then False
         else if bad_labels mt 0 [] (hd rows) then False
         else (let (header_votes, data_votes) =
                     foldl (column_vote mt body) (0, 0) (enumerate 0 (hd rows))
               in if 0 < header_votes + data_votes then data_votes < header_votes else True))"

section \<open>Rendering\<close>

definition budget_error :: OfficialError where
  "budget_error = csv_error LimitExceeded ''CSV exceeds rendered output budget''"

text \<open>\<open>push_bounded\<close>, and \<open>push_char_bounded\<close> for one character.\<close>

definition push_bounded :: "nat \<Rightarrow> ustr \<Rightarrow> ustr \<Rightarrow> ustr official" where
  "push_bounded limit v out =
     (case cadd (blen out) (blen v) of
        None \<Rightarrow> Err budget_error
      | Some n \<Rightarrow> if limit < n then Err budget_error else Ok (out @ v))"

definition push_char_bounded :: "nat \<Rightarrow> uchar \<Rightarrow> ustr \<Rightarrow> ustr official" where
  "push_char_bounded limit v out =
     (case cadd (blen out) (len_utf8 v) of
        None \<Rightarrow> Err budget_error
      | Some n \<Rightarrow> if limit < n then Err budget_error else Ok (out @ [v]))"

definition disallowed_control :: "uchar \<Rightarrow> bool" where
  "disallowed_control c \<longleftrightarrow> c \<le> 8 \<or> c = 0x0B \<or> c = 0x0C \<or> (0x0E \<le> c \<and> c \<le> 0x1F) \<or> c = 0x7F"

text \<open>A \<open>for\<close> loop whose body may fail.\<close>

fun try_for :: "('a \<Rightarrow> 's \<Rightarrow> ('s, 'e) result) \<Rightarrow> 'a list \<Rightarrow> 's \<Rightarrow> ('s, 'e) result" where
  "try_for f [] s = Ok s"
| "try_for f (x # xs) s = and_then (f x s) (try_for f xs)"

text \<open>The replacement of one character of a cell; \<open>None\<close> when it is written as it is.\<close>

definition html_escape :: "uchar \<Rightarrow> ustr option" where
  "html_escape ch =
     (if ch = 13 \<or> ch = 10 then Some (lit ''<br>'')
      else if ch = 38 then Some (lit ''&amp;'')
      else if ch = 60 then Some (lit ''&lt;'')
      else if ch = 62 then Some (lit ''&gt;'')
      else if ch = 34 then Some (lit ''&quot;'')
      else if ch = 39 then Some (lit ''&#x27;'')
      else if disallowed_control ch then Some [0xFFFD]
      else None)"

text \<open>The characters behind \<open>ch\<close>, the line feed of a pair included in \<open>ch\<close>.\<close>

definition line_rest :: "uchar \<Rightarrow> ustr \<Rightarrow> ustr" where
  "line_rest ch chars = (if ch = 13 \<and> first chars = Some 10 then drop 1 chars else chars)"

lemma length_line_rest [simp]: "length (line_rest ch chars) < Suc (length chars)"
  by (auto simp: line_rest_def)

lemma line_rest_other [simp]: "ch \<noteq> 13 \<Longrightarrow> line_rest ch chars = chars"
  by (simp add: line_rest_def)

function html_chars :: "cancel \<Rightarrow> nat \<Rightarrow> ustr \<Rightarrow> ustr \<Rightarrow> ustr official" where
  "html_chars cancelled limit [] out = Ok out"
| "html_chars cancelled limit (ch # chars) out =
     and_then (check_cancel cancelled) (\<lambda>_.
       and_then (case html_escape ch of
                   Some encoded \<Rightarrow> push_bounded limit encoded out
                 | None \<Rightarrow> push_char_bounded limit ch out)
         (html_chars cancelled limit (line_rest ch chars)))"
  by pat_completeness auto

termination by (relation "measure (\<lambda>(_, _, chars, _). length chars)") auto

definition cell_at :: "row \<Rightarrow> nat \<Rightarrow> ustr" where
  "cell_at row col = (if col < length row then row ! col else [])"

definition html_cell :: "cancel \<Rightarrow> nat \<Rightarrow> ustr \<Rightarrow> row \<Rightarrow> nat \<Rightarrow> ustr \<Rightarrow> ustr official" where
  "html_cell cancelled limit tag row col out =
     and_then (check_cancel cancelled) (\<lambda>_.
     and_then (push_bounded limit ([10] @ lit ''    <'') out) (\<lambda>out.
     and_then (push_bounded limit tag out) (\<lambda>out.
     and_then (push_bounded limit (lit ''>'') out) (\<lambda>out.
     and_then (html_chars cancelled limit (cell_at row col) out) (\<lambda>out.
     and_then (push_bounded limit (lit ''</'') out) (\<lambda>out.
     and_then (push_bounded limit tag out)
       (push_bounded limit (lit ''>''))))))))"

definition html_row :: "cancel \<Rightarrow> nat \<Rightarrow> nat \<Rightarrow> bool \<Rightarrow> nat \<times> row \<Rightarrow> ustr \<Rightarrow> ustr official" where
  "html_row cancelled limit width header item out =
     (let (index, row) = item;
          tag = (if header \<and> index = 0 then lit ''th'' else lit ''td'')
      in and_then (push_bounded limit ([10] @ lit ''  <tr>'') out) (\<lambda>out.
         and_then (try_for (html_cell cancelled limit tag row) [0..<width] out)
           (push_bounded limit ([10] @ lit ''  </tr>''))))"

definition render_html :: "row list \<Rightarrow> nat \<Rightarrow> bool \<Rightarrow> cancel \<Rightarrow> nat \<Rightarrow> ustr official" where
  "render_html rows width header cancelled limit =
     and_then (push_bounded limit (lit ''<table>'') []) (\<lambda>out.
     and_then (try_for (html_row cancelled limit width header) (enumerate 0 rows) out)
       (push_bounded limit ([10] @ lit ''</table>'')))"

definition is_edge_space :: "uchar \<Rightarrow> bool" where
  "is_edge_space c \<longleftrightarrow> c \<noteq> 13 \<and> c \<noteq> 10 \<and> is_whitespace c \<and> \<not> disallowed_control c"

definition trim_cell_edges :: "ustr \<Rightarrow> ustr" where
  "trim_cell_edges v = trim_matches is_edge_space v"

definition md_escape :: "uchar \<Rightarrow> ustr option" where
  "md_escape ch =
     (if ch = 38 then Some (lit ''&amp;'')
      else if ch = 60 then Some (lit ''&lt;'')
      else if ch = 92 then Some [92, 92]
      else if ch = 124 then Some [92, 124]
      else if disallowed_control ch then Some [0xFFFD]
      else None)"

function md_chars :: "cancel \<Rightarrow> nat \<Rightarrow> ustr \<Rightarrow> bool \<Rightarrow> bool \<Rightarrow> ustr \<Rightarrow> ustr official" where
  "md_chars cancelled limit [] line_has_text pending_space out = Ok out"
| "md_chars cancelled limit (ch # chars) line_has_text pending_space out =
     and_then (check_cancel cancelled) (\<lambda>_.
       if newline ch then
         and_then (push_bounded limit (lit ''<br>'') out)
           (md_chars cancelled limit (line_rest ch chars) False False)
       else if ch = 32 \<or> ch = 9 then md_chars cancelled limit chars line_has_text line_has_text out
       else
         and_then (if pending_space then push_bounded limit (lit '' '') out else Ok out) (\<lambda>out.
         and_then (case md_escape ch of
                     Some encoded \<Rightarrow> push_bounded limit encoded out
                   | None \<Rightarrow> push_char_bounded limit ch out)
           (md_chars cancelled limit chars True False)))"
  by pat_completeness auto

termination by (relation "measure (\<lambda>(_, _, chars, _). length chars)") auto

definition markdown_cell :: "cancel \<Rightarrow> nat \<Rightarrow> ustr \<Rightarrow> ustr \<Rightarrow> ustr official" where
  "markdown_cell cancelled limit v out = md_chars cancelled limit (trim_cell_edges v) False False out"

definition push_separator :: "nat \<Rightarrow> nat \<Rightarrow> ustr \<Rightarrow> ustr official" where
  "push_separator width limit out =
     and_then (push_bounded limit (lit ''|'') out) (\<lambda>out.
     and_then (try_for (\<lambda>_. push_bounded limit (lit '' --- |'')) [0..<width] out)
       (push_bounded limit [10]))"

definition md_column :: "cancel \<Rightarrow> nat \<Rightarrow> row \<Rightarrow> nat \<Rightarrow> ustr \<Rightarrow> ustr official" where
  "md_column cancelled limit row column out =
     and_then (check_cancel cancelled) (\<lambda>_.
     and_then (push_bounded limit (lit '' '') out) (\<lambda>out.
     and_then (markdown_cell cancelled limit (cell_at row column) out)
       (push_bounded limit (lit '' |''))))"

definition md_row :: "cancel \<Rightarrow> nat \<Rightarrow> nat \<Rightarrow> nat \<times> row \<Rightarrow> ustr \<Rightarrow> ustr official" where
  "md_row cancelled limit width item out =
     and_then (if fst item = 1 then push_separator width limit out else Ok out) (\<lambda>out.
     and_then (push_bounded limit (lit ''|'') out) (\<lambda>out.
     and_then (try_for (md_column cancelled limit (snd item)) [0..<width] out)
       (push_bounded limit [10])))"

definition render_markdown :: "row list \<Rightarrow> nat \<Rightarrow> bool \<Rightarrow> cancel \<Rightarrow> nat \<Rightarrow> ustr official" where
  "render_markdown rows width header cancelled limit =
     (if rows = [] \<or> width = 0 then Ok []
      else and_then (try_for (md_row cancelled limit width) (enumerate 0 rows) []) (\<lambda>out.
           and_then (if length rows = 1 then push_separator width limit out else Ok out) (\<lambda>out.
           Ok (butlast out))))"

section \<open>Bounded output\<close>

text \<open>
  A rendering step \<open>f\<close> emits the text \<open>t\<close>: it appends \<open>t\<close> when the result stays within the limit
  and reports the budget otherwise, unless a set flag stops it first.
\<close>

definition emits :: "cancel \<Rightarrow> nat \<Rightarrow> ustr \<Rightarrow> (ustr \<Rightarrow> ustr official) \<Rightarrow> bool" where
  "emits cancelled limit t f \<longleftrightarrow>
     (\<forall>out. blen out \<le> limit \<longrightarrow>
        f out = (if blen out + blen t \<le> limit then Ok (out @ t) else Err budget_error) \<or>
        (cancelled = Some True \<and> f out = Err csv_cancelled))"

named_theorems emits_intros \<open>what the rendering steps emit\<close>

lemma emits_push [emits_intros]: "limit \<le> U64_MAX \<Longrightarrow> emits cancelled limit v (push_bounded limit v)"
  by (auto simp: emits_def push_bounded_def cadd_def)

lemma emits_char [emits_intros]: "limit \<le> U64_MAX \<Longrightarrow> emits cancelled limit [v] (push_char_bounded limit v)"
  by (auto simp: emits_def push_char_bounded_def cadd_def)

lemma emits_Ok: "emits cancelled limit [] Ok"
  by (simp add: emits_def)

lemma emits_then:
  assumes "emits cancelled limit t f" "emits cancelled limit u g"
  shows "emits cancelled limit (t @ u) (\<lambda>out. and_then (f out) g)"
  unfolding emits_def
proof (intro allI impI)
  fix out assume o: "blen out \<le> limit"
  let ?goal = "and_then (f out) g =
      (if blen out + blen (t @ u) \<le> limit then Ok (out @ t @ u) else Err budget_error) \<or>
      (cancelled = Some True \<and> and_then (f out) g = Err csv_cancelled)"
  consider (ok) "blen (out @ t) \<le> limit" "f out = Ok (out @ t)"
    | (full) "limit < blen out + blen t" "f out = Err budget_error"
    | (stop) "cancelled = Some True" "f out = Err csv_cancelled"
    using assms(1) [unfolded emits_def, rule_format, OF o] by (cases "blen out + blen t \<le> limit") auto
  then show ?goal
  proof cases
    case ok
    then show ?thesis using assms(2) [unfolded emits_def, rule_format, OF ok(1)]
      by (auto simp: add.assoc split: if_splits)
  qed auto
qed

lemma emits_check:
  assumes "emits cancelled limit t f"
  shows "emits cancelled limit t (\<lambda>out. and_then (check_cancel cancelled) (\<lambda>_. f out))"
  using assms by (auto simp: emits_def check_cancel_def ensure_def)

lemma emits_for:
  assumes "\<And>x. x \<in> set xs \<Longrightarrow> emits cancelled limit (t x) (f x)"
  shows "emits cancelled limit (concat (map t xs)) (try_for f xs)"
  using assms
proof (induction xs)
  case Nil
  have "try_for f [] = Ok" by (rule ext) simp
  then show ?case by (simp add: emits_Ok)
next
  case (Cons x xs)
  have "try_for f (x # xs) = (\<lambda>out. and_then (f x out) (try_for f xs))" by (rule ext) simp
  then show ?case using Cons emits_then [of cancelled limit "t x" "f x"] by simp
qed

lemma emits_start:
  assumes "emits cancelled limit t f"
  shows "f [] = Ok out \<Longrightarrow> out = t \<and> blen t \<le> limit"
    and "cancelled \<noteq> Some True \<Longrightarrow> f [] = (if blen t \<le> limit then Ok t else Err budget_error)"
  using assms unfolding emits_def by (auto dest!: spec [of _ "[]"] split: if_splits)

subsection \<open>The HTML table\<close>

text \<open>A cell as the renderers read it: one line break per line end, no control characters.\<close>

definition normal_char :: "uchar \<Rightarrow> uchar" where
  "normal_char ch = (if ch = 13 then 10 else if disallowed_control ch then 0xFFFD else ch)"

function normal :: "ustr \<Rightarrow> ustr" where
  "normal [] = []"
| "normal (ch # chars) = normal_char ch # normal (line_rest ch chars)"
  by pat_completeness auto

termination by (relation "measure length") auto

definition html_enc :: "uchar \<Rightarrow> ustr" where
  "html_enc ch = (case html_escape ch of Some e \<Rightarrow> e | None \<Rightarrow> [ch])"

definition html_body :: "ustr \<Rightarrow> ustr" where
  "html_body v = concat (map html_enc (normal v))"

definition html_cell_text :: "ustr \<Rightarrow> ustr \<Rightarrow> ustr" where
  "html_cell_text tag v = ([10] @ lit ''    <'') @ tag @ lit ''>'' @ html_body v @ lit ''</'' @ tag @ lit ''>''"

definition html_row_text :: "nat \<Rightarrow> ustr \<Rightarrow> row \<Rightarrow> ustr" where
  "html_row_text width tag row =
     ([10] @ lit ''  <tr>'') @ concat (map (\<lambda>col. html_cell_text tag (cell_at row col)) [0..<width])
       @ [10] @ lit ''  </tr>''"

definition row_tag :: "bool \<Rightarrow> nat \<Rightarrow> ustr" where
  "row_tag header index = (if header \<and> index = 0 then lit ''th'' else lit ''td'')"

definition html_text :: "row list \<Rightarrow> nat \<Rightarrow> bool \<Rightarrow> ustr" where
  "html_text rows width header =
     lit ''<table>'' @ concat (map (\<lambda>(index, row). html_row_text width (row_tag header index) row) (enumerate 0 rows))
       @ [10] @ lit ''</table>''"

lemma disallowed_newline [simp]: "\<not> disallowed_control 10" "\<not> disallowed_control 13"
  by (simp_all add: disallowed_control_def)

lemma html_enc_simps [simp]: "html_enc 10 = lit ''<br>''" "html_enc 0xFFFD = [0xFFFD]"
  by (simp_all add: html_enc_def html_escape_def disallowed_control_def)

lemma emits_html_escape:
  assumes "limit \<le> U64_MAX"
  shows "emits cancelled limit (html_enc ch)
           (\<lambda>out. case html_escape ch of Some e \<Rightarrow> push_bounded limit e out | None \<Rightarrow> push_char_bounded limit ch out)"
  using emits_push [OF assms] emits_char [OF assms] by (cases "html_escape ch") (simp_all add: html_enc_def)

lemma emits_html_chars [emits_intros]:
  assumes "limit \<le> U64_MAX"
  shows "emits cancelled limit (html_body v) (html_chars cancelled limit v)"
proof (induction v rule: normal.induct)
  case 1
  have "html_chars cancelled limit [] = Ok" by (rule ext) simp
  then show ?case by (simp add: emits_Ok html_body_def)
next
  case (2 ch chars)
  have enc: "html_enc ch = html_enc (normal_char ch)"
    by (simp add: normal_char_def html_enc_def html_escape_def disallowed_control_def)
  from emits_check [OF emits_then [OF emits_html_escape [OF assms, of cancelled ch] 2]]
  show ?case unfolding html_body_def normal.simps html_chars.simps by (simp add: enc)
qed

lemma emits_html_cell [emits_intros]:
  assumes "limit \<le> U64_MAX"
  shows "emits cancelled limit (html_cell_text tag (cell_at row col)) (html_cell cancelled limit tag row col)"
  unfolding html_cell_text_def html_cell_def
  by (intro emits_check emits_then emits_intros assms)

lemma emits_html_row [emits_intros]:
  assumes "limit \<le> U64_MAX"
  shows "emits cancelled limit (html_row_text width (row_tag header (fst item)) (snd item))
           (html_row cancelled limit width header item)"
proof -
  have "html_row cancelled limit width header item =
      (\<lambda>out. and_then (push_bounded limit ([10] @ lit ''  <tr>'') out) (\<lambda>out.
         and_then (try_for (html_cell cancelled limit (row_tag header (fst item)) (snd item)) [0..<width] out)
           (push_bounded limit ([10] @ lit ''  </tr>''))))"
    by (rule ext) (simp add: html_row_def row_tag_def case_prod_beta Let_def)
  then show ?thesis unfolding html_row_text_def
    by (simp only:) (intro emits_then emits_for emits_intros assms)
qed

definition html_writer :: "row list \<Rightarrow> nat \<Rightarrow> bool \<Rightarrow> cancel \<Rightarrow> nat \<Rightarrow> ustr \<Rightarrow> ustr official" where
  "html_writer rows width header cancelled limit out =
     and_then (push_bounded limit (lit ''<table>'') out) (\<lambda>out.
     and_then (try_for (html_row cancelled limit width header) (enumerate 0 rows) out)
       (push_bounded limit ([10] @ lit ''</table>'')))"

lemma emits_html_writer:
  assumes "limit \<le> U64_MAX"
  shows "emits cancelled limit (html_text rows width header) (html_writer rows width header cancelled limit)"
  unfolding html_text_def html_writer_def case_prod_beta
  by (intro emits_then emits_for emits_intros assms)

lemma render_html_writer: "render_html rows width header cancelled limit = html_writer rows width header cancelled limit []"
  by (simp add: render_html_def html_writer_def)

lemmas render_html_Ok = emits_start(1) [OF emits_html_writer, folded render_html_writer]
lemmas render_html_eq = emits_start(2) [OF emits_html_writer, folded render_html_writer]

subsection \<open>The Markdown table\<close>

definition md_enc :: "uchar \<Rightarrow> ustr" where
  "md_enc ch = (case md_escape ch of Some e \<Rightarrow> e | None \<Rightarrow> [ch])"

text \<open>The text of a cell, on its normal form: runs of blanks shrink to one, and vanish at the ends of a line.\<close>

fun md_body :: "bool \<Rightarrow> bool \<Rightarrow> ustr \<Rightarrow> ustr" where
  "md_body line_has_text pending_space [] = []"
| "md_body line_has_text pending_space (ch # chars) =
     (if ch = 10 then lit ''<br>'' @ md_body False False chars
      else if ch = 32 \<or> ch = 9 then md_body line_has_text line_has_text chars
      else (if pending_space then [32] else []) @ md_enc ch @ md_body True False chars)"

definition md_cell_text :: "ustr \<Rightarrow> ustr" where
  "md_cell_text v = md_body False False (trim_cell_edges (normal v))"

definition md_separator :: "nat \<Rightarrow> ustr" where
  "md_separator width = lit ''|'' @ concat (map (\<lambda>_. lit '' --- |'') [0..<width]) @ [10]"

definition md_line :: "nat \<Rightarrow> row \<Rightarrow> ustr" where
  "md_line width row =
     lit ''|'' @ concat (map (\<lambda>col. lit '' '' @ md_cell_text (cell_at row col) @ lit '' |'') [0..<width]) @ [10]"

definition md_text :: "row list \<Rightarrow> nat \<Rightarrow> ustr" where
  "md_text rows width =
     (case rows of [] \<Rightarrow> [] | row # rest \<Rightarrow>
        if width = 0 then []
        else butlast (md_line width row @ md_separator width @ concat (map (md_line width) rest)))"

lemma emits_md_escape:
  assumes "limit \<le> U64_MAX"
  shows "emits cancelled limit (md_enc ch)
           (\<lambda>out. case md_escape ch of Some e \<Rightarrow> push_bounded limit e out | None \<Rightarrow> push_char_bounded limit ch out)"
  using emits_push [OF assms] emits_char [OF assms] by (cases "md_escape ch") (simp_all add: md_enc_def)

lemma emits_md_chars:
  assumes "limit \<le> U64_MAX"
  shows "emits cancelled limit (md_body h p (normal v)) (md_chars cancelled limit v h p)"
proof (induction v arbitrary: h p rule: normal.induct)
  case 1
  have "md_chars cancelled limit [] h p = Ok" by (rule ext) simp
  then show ?case by (simp add: emits_Ok)
next
  case (2 ch chars)
  consider (nl) "newline ch" | (blank) "ch = 32 \<or> ch = 9"
    | (other) "\<not> newline ch" "ch \<noteq> 32" "ch \<noteq> 9"
    by auto
  then show ?case
  proof cases
    case nl
    from emits_check [OF emits_then [OF emits_push [OF assms, of cancelled "lit ''<br>''"] 2 [of False False]]]
    show ?thesis using nl by (auto simp: newline_def normal_char_def)
  next
    case blank
    then have d: "\<not> newline ch" "normal_char ch = ch" "ch \<noteq> 13"
      by (auto simp: newline_def normal_char_def disallowed_control_def)
    from emits_check [OF 2 [of h h]] show ?thesis using blank d by auto
  next
    case other
    have n: "normal_char ch \<noteq> 10" "normal_char ch \<noteq> 32" "normal_char ch \<noteq> 9" "md_enc ch = md_enc (normal_char ch)"
      using other by (auto simp: newline_def normal_char_def md_enc_def md_escape_def disallowed_control_def)
    have sp: "emits cancelled limit (if p then [32] else [])
        (\<lambda>out. if p then push_bounded limit (lit '' '') out else Ok out)"
      using emits_push [OF assms, of cancelled "[32]"] emits_Ok by (cases p) simp_all
    from emits_check [OF emits_then [OF sp emits_then [OF emits_md_escape [OF assms, of cancelled ch] 2 [of True False]]]]
    show ?thesis using other n by (simp add: newline_def)
  qed
qed

lemma is_edge_space_simps [simp]: "\<not> is_edge_space 10" "\<not> is_edge_space 13" "\<not> is_edge_space 0xFFFD"
  by (simp_all add: is_edge_space_def is_whitespace_def)

lemma is_edge_space_normal_char [simp]: "is_edge_space (normal_char c) \<longleftrightarrow> is_edge_space c"
  by (auto simp: normal_char_def is_edge_space_def [of c])

lemma normal_edge: "is_edge_space c \<Longrightarrow> normal (c # s) = c # normal s"
  by (auto simp: is_edge_space_def normal_char_def)

lemma dropWhile_normal: "dropWhile is_edge_space (normal v) = normal (dropWhile is_edge_space v)"
proof (induction v)
  case (Cons c v)
  then show ?case using normal_edge [of c v] by (cases "is_edge_space c") simp_all
qed simp

lemma line_rest_append:
  "\<forall>c \<in> set e. is_edge_space c \<Longrightarrow> line_rest ch (chars @ e) = line_rest ch chars @ e"
  by (cases chars; cases e) (auto simp: line_rest_def first_def)

lemma normal_append_edge: "\<forall>c \<in> set e. is_edge_space c \<Longrightarrow> normal (v @ e) = normal v @ e"
proof (induction v rule: normal.induct)
  case 1
  then show ?case by (induction e) (simp_all add: normal_edge del: normal.simps(2))
qed (simp add: line_rest_append)

lemma last_normal: "v \<noteq> [] \<Longrightarrow> \<not> is_edge_space (last v) \<Longrightarrow> normal v \<noteq> [] \<and> \<not> is_edge_space (last (normal v))"
proof (induction v rule: normal.induct)
  case (2 ch chars)
  show ?case
  proof (cases "line_rest ch chars")
    case Nil
    then have "\<not> is_edge_space ch" using 2(3) by (cases chars) (auto simp: line_rest_def split: if_splits)
    then show ?thesis using Nil by simp
  next
    case (Cons d r)
    then have "last (ch # chars) = last (line_rest ch chars)"
      by (cases chars) (auto simp: line_rest_def split: if_splits)
    then show ?thesis using 2 Cons by (auto simp del: normal.simps(1))
  qed
qed simp

lemma trim_normal: "trim_cell_edges (normal v) = normal (trim_cell_edges v)"
proof -
  define w where "w = dropWhile is_edge_space v"
  define e where "e = rev (takeWhile is_edge_space (rev w))"
  define w' where "w' = rev (dropWhile is_edge_space (rev w))"
  have w: "w = w' @ e" by (simp add: w'_def e_def rev_append [symmetric])
  have e: "\<forall>c \<in> set e. is_edge_space c" by (auto simp: e_def dest: set_takeWhileD)
  have last: "w' = [] \<or> \<not> is_edge_space (last w')"
    using hd_dropWhile [of is_edge_space "rev w"] by (auto simp: w'_def last_rev)
  have "dropWhile is_edge_space (rev (normal w' @ e)) = dropWhile is_edge_space (rev (normal w'))"
    using e by (simp add: dropWhile_append)
  also have "\<dots> = rev (normal w')"
  proof (cases "w' = []")
    case False
    then obtain x xs where "rev (normal w') = x # xs" "\<not> is_edge_space x"
      using last last_normal [of w'] by (cases "rev (normal w')") (auto simp: rev_eq_Cons_iff)
    then show ?thesis by simp
  qed simp
  finally show ?thesis
    unfolding trim_cell_edges_def trim_matches_def dropWhile_normal w_def [symmetric] w'_def [symmetric]
    by (subst w) (simp add: normal_append_edge [OF e])
qed

lemma emits_markdown_cell [emits_intros]:
  assumes "limit \<le> U64_MAX"
  shows "emits cancelled limit (md_cell_text v) (markdown_cell cancelled limit v)"
  using emits_md_chars [OF assms, of cancelled False False "trim_cell_edges v"]
  by (simp add: md_cell_text_def trim_normal markdown_cell_def [abs_def])

lemma emits_md_column [emits_intros]:
  assumes "limit \<le> U64_MAX"
  shows "emits cancelled limit (lit '' '' @ md_cell_text (cell_at row col) @ lit '' |'')
           (md_column cancelled limit row col)"
  unfolding md_column_def by (intro emits_check emits_then emits_intros assms)

lemma emits_separator [emits_intros]:
  assumes "limit \<le> U64_MAX"
  shows "emits cancelled limit (md_separator width) (push_separator width limit)"
  unfolding md_separator_def push_separator_def by (intro emits_then emits_for emits_intros assms)

lemma emits_md_row:
  assumes "limit \<le> U64_MAX"
  shows "emits cancelled limit ((if fst item = 1 then md_separator width else []) @ md_line width (snd item))
           (md_row cancelled limit width item)"
proof -
  have "emits cancelled limit (if fst item = 1 then md_separator width else [])
      (\<lambda>out. if fst item = 1 then push_separator width limit out else Ok out)"
    using emits_separator [OF assms] emits_Ok by (cases "fst item = 1") simp_all
  then show ?thesis unfolding md_row_def md_line_def
    by (intro emits_then emits_for emits_intros assms)
qed

text \<open>All the text the Markdown renderer writes before the final line break is dropped.\<close>

definition md_full :: "row list \<Rightarrow> nat \<Rightarrow> ustr" where
  "md_full rows width =
     concat (map (\<lambda>item. (if fst item = 1 then md_separator width else []) @ md_line width (snd item)) (enumerate 0 rows))
       @ (if length rows = 1 then md_separator width else [])"

lemma md_full_Cons: "md_full (row # rest) width = md_line width row @ md_separator width @ concat (map (md_line width) rest)"
proof -
  have tail: "concat (map (\<lambda>item. (if fst item = 1 then md_separator width else []) @ md_line width (snd item))
      (enumerate (Suc (Suc n)) xs)) = concat (map (md_line width) xs)" for n xs
    by (induction xs arbitrary: n) simp_all
  show ?thesis by (cases rest) (simp_all add: md_full_def tail [simplified])
qed

lemma emits_md_full:
  assumes "limit \<le> U64_MAX"
  shows "emits cancelled limit (md_full rows width)
     (\<lambda>out. and_then (try_for (md_row cancelled limit width) (enumerate 0 rows) out)
       (\<lambda>out. if length rows = 1 then push_separator width limit out else Ok out))"
proof -
  have "emits cancelled limit (if length rows = 1 then md_separator width else [])
      (\<lambda>out. if length rows = 1 then push_separator width limit out else Ok out)"
    using emits_separator [OF assms] emits_Ok by (cases "length rows = 1") simp_all
  then show ?thesis unfolding md_full_def
    by (intro emits_then emits_for emits_md_row assms)
qed

lemma render_markdown_alt:
  "render_markdown rows width header cancelled limit =
     (if rows = [] \<or> width = 0 then Ok []
      else and_then (and_then (try_for (md_row cancelled limit width) (enumerate 0 rows) [])
             (\<lambda>out. if length rows = 1 then push_separator width limit out else Ok out)) (\<lambda>out. Ok (butlast out)))"
  by (cases "try_for (md_row cancelled limit width) (enumerate 0 rows) []") (simp_all add: render_markdown_def)

lemma md_text_full: "md_text rows width = (if rows = [] \<or> width = 0 then [] else butlast (md_full rows width))"
  by (cases rows) (simp_all add: md_text_def md_full_Cons)

lemma render_markdown_eq:
  assumes "limit \<le> U64_MAX" "cancelled \<noteq> Some True"
  shows "render_markdown rows width header cancelled limit =
     (if rows = [] \<or> width = 0 then Ok []
      else if blen (md_full rows width) \<le> limit then Ok (md_text rows width) else Err budget_error)"
  using emits_start(2) [OF emits_md_full [OF assms(1), where cancelled = cancelled and rows = rows and width = width] assms(2)]
  by (simp add: render_markdown_alt md_text_full)

lemma render_markdown_Ok:
  assumes "limit \<le> U64_MAX" "render_markdown rows width header cancelled limit = Ok out"
  shows "out = md_text rows width \<and> blen out \<le> limit \<and>
         (rows \<noteq> [] \<and> width \<noteq> 0 \<longrightarrow> blen (md_full rows width) \<le> limit)"
proof (cases "rows = [] \<or> width = 0")
  case False
  then obtain o' where o: "and_then (try_for (md_row cancelled limit width) (enumerate 0 rows) [])
      (\<lambda>out. if length rows = 1 then push_separator width limit out else Ok out) = Ok o'" "out = butlast o'"
    using assms(2) by (auto simp: render_markdown_alt and_then_Ok_iff)
  have "o' = md_full rows width \<and> blen (md_full rows width) \<le> limit"
    by (rule emits_start(1) [OF emits_md_full [OF assms(1), of cancelled] o(1)])
  moreover have "blen (butlast xs) \<le> blen xs" for xs
    by (induction xs) auto
  ultimately show ?thesis using o(2) False
    by (auto simp: md_text_full intro: order_trans)
qed (use assms(2) in \<open>auto simp: render_markdown_alt md_text_full\<close>)

subsection \<open>Reading the Markdown table back\<close>

text \<open>The cells of a table line, as a reader of Markdown finds them: an escaped bar is text.\<close>

fun md_split :: "ustr \<Rightarrow> ustr \<Rightarrow> ustr list" where
  "md_split acc [] = [acc]"
| "md_split acc [c] = (if c = 124 then [acc, []] else [acc @ [c]])"
| "md_split acc (c # d # s) =
     (if c = 124 then acc # md_split [] (d # s)
      else if c = 92 then md_split (acc @ [c, d]) s
      else md_split (acc @ [c]) (d # s))"

lemma md_split_bar: "md_split acc (124 # s) = acc # md_split [] s"
  by (cases s) simp_all

lemma md_split_escaped: "md_split acc (92 # d # s) = md_split (acc @ [92, d]) s"
  by simp

lemma md_split_plain: "c \<noteq> 124 \<Longrightarrow> c \<noteq> 92 \<Longrightarrow> md_split acc (c # s) = md_split (acc @ [c]) s"
  by (cases s) simp_all

lemma md_split_plains: "124 \<notin> set t \<Longrightarrow> 92 \<notin> set t \<Longrightarrow> md_split acc (t @ s) = md_split (acc @ t) s"
  by (induction t arbitrary: acc) (simp_all add: md_split_plain)

text \<open>No text of a cell ends the cell.\<close>

lemma md_split_enc: "md_split acc (md_enc ch @ s) = md_split (acc @ md_enc ch) s"
proof (cases "ch = 92 \<or> ch = 124")
  case False
  then have "124 \<notin> set (md_enc ch)" "92 \<notin> set (md_enc ch)"
    by (auto simp: md_enc_def md_escape_def)
  then show ?thesis by (rule md_split_plains)
qed (auto simp: md_enc_def md_escape_def)

lemma md_split_body: "md_split acc (md_body h p v @ s) = md_split (acc @ md_body h p v) s"
proof (induction h p v arbitrary: acc rule: md_body.induct)
  case (2 h p ch chars)
  then show ?case by (auto simp: md_split_plain md_split_enc)
qed simp

lemma md_enc_newline: "ch \<noteq> 10 \<Longrightarrow> 10 \<notin> set (md_enc ch)"
  by (auto simp: md_enc_def md_escape_def)

lemma md_body_newline: "10 \<notin> set (md_body h p v)"
  by (induction h p v rule: md_body.induct) (auto dest: md_enc_newline)

definition md_row_cells :: "nat \<Rightarrow> row \<Rightarrow> ustr list" where
  "md_row_cells width row =
     [] # map (\<lambda>col. lit '' '' @ md_cell_text (cell_at row col) @ lit '' '') [0..<width] @ [[]]"

definition md_sep_cells :: "nat \<Rightarrow> ustr list" where
  "md_sep_cells width = [] # replicate width (lit '' --- '') @ [[]]"

lemma md_split_columns:
  assumes "\<And>col acc s. md_split acc (f col @ s) = md_split (acc @ f col) s"
  shows "md_split [] (concat (map (\<lambda>col. f col @ [124]) cols)) = map f cols @ [[]]"
proof (induction cols)
  case (Cons c cs)
  then show ?case using assms [of "[]" c "124 # concat (map (\<lambda>col. f col @ [124]) cs)"]
    by (simp add: md_split_bar)
qed simp

lemma md_line_cells: "md_split [] (butlast (md_line width row)) = md_row_cells width row"
proof -
  let ?f = "\<lambda>col. lit '' '' @ md_cell_text (cell_at row col) @ lit '' ''"
  have "md_split acc (?f col @ s) = md_split (acc @ ?f col) s" for acc col s
    by (simp add: md_split_plain md_cell_text_def md_split_body)
  from md_split_columns [of ?f "[0..<width]", OF this] show ?thesis
    by (simp add: md_line_def md_row_cells_def md_split_bar butlast_append)
qed

lemma md_separator_cells: "md_split [] (butlast (md_separator width)) = md_sep_cells width"
proof -
  have "md_split acc (lit '' --- '' @ s) = md_split (acc @ lit '' --- '') s" for acc s
    by (rule md_split_plains) simp_all
  from md_split_columns [of "\<lambda>_. lit '' --- ''" "[0..<width]", OF this] show ?thesis
    by (simp add: md_separator_def md_sep_cells_def md_split_bar butlast_append map_replicate_const)
qed

lemma md_line_end: "md_line width row = butlast (md_line width row) @ [10]" "10 \<notin> set (butlast (md_line width row))"
  by (auto simp: md_line_def butlast_append md_cell_text_def md_body_newline)

lemma md_separator_end: "md_separator width = butlast (md_separator width) @ [10]" "10 \<notin> set (butlast (md_separator width))"
  by (auto simp: md_separator_def butlast_append)

lemma split_on_line: "x \<notin> set a \<Longrightarrow> split_on x (a @ x # b) = a # split_on x b"
  by (induction a) auto

lemma split_on_lines:
  assumes "ls \<noteq> []" "\<And>l. l \<in> set ls \<Longrightarrow> \<exists>b. l = b @ [10] \<and> 10 \<notin> set b"
  shows "split_on 10 (butlast (concat ls)) = map butlast ls"
  using assms
proof (induction ls)
  case (Cons l ls)
  then obtain b where b: "l = b @ [10]" "10 \<notin> set b" by auto
  show ?case
  proof (cases "ls = []")
    case True
    then show ?thesis using b by (simp add: split_on_single)
  next
    case False
    then obtain l' ls' where "ls = l' # ls'" by (cases ls) auto
    then have "concat ls \<noteq> []" using Cons.prems(2) [of l'] by auto
    then have "butlast (concat (l # ls)) = b @ 10 # butlast (concat ls)"
      using b by (simp add: butlast_append)
    then show ?thesis using Cons False b split_on_line [of 10 b "butlast (concat ls)"] by simp
  qed
qed simp

text \<open>
  C27: The rendered Markdown is a table whose structure no cell can change. The output has one line
  for the first row, the separator, and one line for each further row; reading a line back, with
  escaped bars as text, yields exactly the row's cells, each between single blanks.
\<close>

theorem markdown_table_structure:
  assumes "limit \<le> U64_MAX" "render_markdown (row # rest) width header cancelled limit = Ok out" "width \<noteq> 0"
  shows "map (md_split []) (split_on 10 out) =
           md_row_cells width row # md_sep_cells width # map (md_row_cells width) rest"
proof -
  let ?ls = "md_line width row # md_separator width # map (md_line width) rest"
  have "out = butlast (concat ?ls)"
    using render_markdown_Ok [OF assms(1,2)] assms(3) by (simp add: md_text_full md_full_Cons)
  moreover have "split_on 10 (butlast (concat ?ls)) = map butlast ?ls"
    using md_line_end [of width] md_separator_end [of width] by (intro split_on_lines) auto
  ultimately show ?thesis
    by (simp add: md_line_cells md_separator_cells)
qed

theorem markdown_table_structure_witness:
  "\<exists>out. render_markdown [[lit ''a|b'', lit ''c''], [[10]]] 2 True None 1000 = Ok out \<and>
     map (md_split []) (split_on 10 out) =
       [md_row_cells 2 [lit ''a|b'', lit ''c''], md_sep_cells 2, md_row_cells 2 [[10]]]"
proof -
  have u: "[0..<2] = [0, 1]" by (simp add: numeral_2_eq_2)
  have "is_ok (render_markdown [[lit ''a|b'', lit ''c''], [[10]]] 2 True None 1000)"
    by (simp add: render_markdown_eq U64_MAX_def md_full_def md_line_def md_separator_def md_cell_text_def
        cell_at_def trim_cell_edges_def trim_matches_def is_edge_space_def is_whitespace_def normal_char_def
        disallowed_control_def md_enc_def md_escape_def len_utf8_def u)
  then obtain out where o: "render_markdown [[lit ''a|b'', lit ''c''], [[10]]] 2 True None 1000 = Ok out"
    by (auto simp: is_ok_iff)
  show ?thesis using o markdown_table_structure [OF _ o] by (simp add: U64_MAX_def)
qed

section \<open>The grid the parser returns\<close>

definition row_width :: "row list \<Rightarrow> nat" where
  "row_width rows = foldr (\<lambda>row. max (length row)) rows 0"

lemma row_width_simps [simp]:
  "row_width [] = 0" "row_width (r # rows) = max (length r) (row_width rows)"
  by (simp_all add: row_width_def)

lemma row_width_append [simp]: "row_width (a @ b) = max (row_width a) (row_width b)"
  by (induction a) auto

lemma row_width_ge: "r \<in> set rows \<Longrightarrow> length r \<le> row_width rows"
  by (induction rows) auto

abbreviation cells :: "row list \<Rightarrow> nat" where
  "cells rows \<equiv> sum_list (map length rows)"

text \<open>A table within the limits: rows, columns, filled cells and the padded grid.\<close>

definition grid_ok :: "nat \<Rightarrow> row list \<Rightarrow> bool" where
  "grid_ok limit rows \<longleftrightarrow>
     length rows \<le> limit \<and> list_all (\<lambda>r. r \<noteq> [] \<and> length r \<le> MAX_COLUMNS) rows \<and>
     cells rows \<le> MAX_GRID \<and> length rows * row_width rows \<le> MAX_GRID"

definition parser_inv :: "nat \<Rightarrow> Parser \<Rightarrow> bool" where
  "parser_inv limit s \<longleftrightarrow>
     grid_ok limit (p_rows s) \<and> length (p_row s) < MAX_COLUMNS \<and>
     p_max_width s = row_width (p_rows s) \<and> p_cell_count s = cells (p_rows s) + length (p_row s)"

lemmas parser_ops = push_char_def push_field_def push_row_def

lemma sat_add_small: "a + b \<le> MAX_GRID + MAX_COLUMNS \<Longrightarrow> sat_add a b = a + b"
  by (simp add: sat_add_def MAX_GRID_def MAX_COLUMNS_def U64_MAX_def)

lemma sat_mul_grid: "sat_mul a b \<le> MAX_GRID \<longleftrightarrow> a * b \<le> MAX_GRID"
  by (rule sat_mul_le_iff) (simp add: MAX_GRID_def U64_MAX_def)

lemma parser_inv_cells:
  assumes "parser_inv limit s"
  shows "p_cell_count s + 1 \<le> MAX_GRID + MAX_COLUMNS"
  using assms by (simp add: parser_inv_def grid_ok_def)

lemma check_grid_Ok_iff:
  "check_grid s = Ok () \<longleftrightarrow> p_cell_count s \<le> MAX_GRID \<and> length (p_rows s) * p_max_width s \<le> MAX_GRID"
  by (auto simp: check_grid_def ensure_def sat_mul_grid [symmetric])

text \<open>Closing a row keeps the invariant when the grid check passes.\<close>

lemma push_row_grid:
  assumes "parser_inv limit s" "check_grid (push_row (push_field s)) = Ok ()"
    and "length (p_rows (push_row (push_field s))) \<le> limit"
  shows "grid_ok limit (p_rows (push_row (push_field s)))"
    and "p_max_width (push_row (push_field s)) = row_width (p_rows (push_row (push_field s)))"
    and "p_cell_count (push_row (push_field s)) = cells (p_rows (push_row (push_field s)))"
proof -
  have c: "p_cell_count (push_row (push_field s)) = cells (p_rows (push_row (push_field s)))"
    and w: "p_max_width (push_row (push_field s)) = row_width (p_rows (push_row (push_field s)))"
    using assms(1) parser_inv_cells [OF assms(1)]
    by (simp_all add: parser_ops sat_add_small parser_inv_def)
  show "grid_ok limit (p_rows (push_row (push_field s)))"
    using assms c w unfolding grid_ok_def check_grid_Ok_iff
    by (simp add: parser_inv_def grid_ok_def parser_ops Suc_le_eq [symmetric])
  show "p_max_width (push_row (push_field s)) = row_width (p_rows (push_row (push_field s)))" by (rule w)
  show "p_cell_count (push_row (push_field s)) = cells (p_rows (push_row (push_field s)))" by (rule c)
qed

lemma parser_inv_checked [simp]: "parser_inv limit (s\<lparr>p_checked := n\<rparr>) = parser_inv limit s"
  by (simp add: parser_inv_def)

lemma parser_inv_flags [simp]:
  "parser_inv limit (s\<lparr>p_quoted := q\<rparr>) = parser_inv limit s"
  "parser_inv limit (s\<lparr>p_closed := c\<rparr>) = parser_inv limit s"
  "parser_inv limit (push_char ch s) = parser_inv limit s"
  by (simp_all add: parser_inv_def push_char_def)

lemma parser_inv_field:
  assumes "parser_inv limit s" "length (p_row (push_field s)) < MAX_COLUMNS"
  shows "parser_inv limit (push_field s)"
  using assms parser_inv_cells [OF assms(1)]
  by (simp add: parser_inv_def push_field_def sat_add_small)

lemma parser_inv_row:
  assumes "parser_inv limit s" "check_grid (push_row (push_field s)) = Ok ()"
    and "length (p_rows (push_row (push_field s))) \<le> limit"
  shows "parser_inv limit (push_row (push_field s))"
  using push_row_grid [OF assms] by (simp add: parser_inv_def) (simp add: parser_ops MAX_COLUMNS_def)

lemma parse_step_inv:
  assumes "parser_inv limit s" "parse_step d limit sample cancelled ch peek s = Ok (s', skip, stop)"
  shows "parser_inv limit s'"
proof -
  define s1 where "s1 = s\<lparr>p_checked := p_checked s + 1\<rparr>"
  have i: "parser_inv limit s1" using assms(1) by (simp add: s1_def)
  note step = assms(2) [unfolded parse_step_def parse_char_def Let_def, folded s1_def]
  have g: "check_grid (x\<lparr>p_closed := False\<rparr>) = check_grid x" for x by (simp add: check_grid_def)
  show ?thesis
    using step i parser_inv_field [OF i] parser_inv_row [OF i]
    by (auto simp: and_then_Ok_iff g not_le not_less split: if_splits)
qed

lemma parse_loop_grid:
  assumes "parser_inv limit s" "parse_loop d limit sample cancelled chars s = Ok rows"
  shows "grid_ok limit rows"
  using assms
proof (induction d limit sample cancelled chars s rule: parse_loop.induct)
  case (1 d limit sample cancelled s)
  then show ?case
    using push_row_grid(1) [OF 1(1)]
    by (auto simp: parse_end_def Let_def and_then_Ok_iff not_less split: if_splits)
       (simp add: parser_inv_def)
next
  case (2 d limit sample cancelled ch chars s)
  from 2(3) obtain s' skip stop where st: "parse_step d limit sample cancelled ch (first chars) s = Ok (s', skip, stop)"
    and r: "(if stop then Ok (p_rows s')
       else parse_loop d limit sample cancelled (if skip then drop 1 chars else chars) s') = Ok rows"
    by (auto simp: and_then_Ok_iff)
  have i: "parser_inv limit s'" by (rule parse_step_inv [OF 2(2) st])
  show ?case
  proof (cases stop)
    case True
    then show ?thesis using r i by (simp add: parser_inv_def)
  next
    case False
    show ?thesis by (rule 2(1) [OF st refl refl False i]) (use r False in simp)
  qed
qed

lemma csv_parse_grid_ok:
  assumes "csv_parse t delimiter limit sample cancelled = Ok rows"
  shows "grid_ok limit rows"
proof (rule parse_loop_grid [OF _ assms [unfolded csv_parse_def]])
  show "parser_inv limit parser_start"
    by (simp add: parser_inv_def parser_start_def grid_ok_def MAX_COLUMNS_def)
qed

text \<open>
  C26: Every table the CSV parser returns is within the limits it announces: at most \<open>limit\<close> rows,
  none empty and none wider than \<open>MAX_COLUMNS\<close>, and neither the cells it holds nor the rectangle
  the renderers pad it to exceed \<open>MAX_GRID\<close>; for any text, delimiter and flag.
\<close>

theorem csv_parse_grid:
  assumes "csv_parse t delimiter limit sample cancelled = Ok rows"
  shows "length rows \<le> limit \<and> (\<forall>row \<in> set rows. row \<noteq> [] \<and> length row \<le> MAX_COLUMNS) \<and>
         cells rows \<le> MAX_GRID \<and> length rows * row_width rows \<le> MAX_GRID"
  using csv_parse_grid_ok [OF assms] by (simp add: grid_ok_def list_all_iff)

section \<open>Printing and parsing\<close>

text \<open>A writer of CSV: every field quoted, quotes doubled, every row ended by a line feed.\<close>

definition csv_quote :: "ustr \<Rightarrow> ustr" where
  "csv_quote v = concat (map (\<lambda>c. if c = 34 then [34, 34] else [c]) v)"

definition csv_field :: "ustr \<Rightarrow> ustr" where
  "csv_field v = [34] @ csv_quote v @ [34]"

fun csv_line :: "uchar \<Rightarrow> row \<Rightarrow> ustr" where
  "csv_line d [] = []"
| "csv_line d [v] = csv_field v"
| "csv_line d (v # row) = csv_field v @ [d] @ csv_line d row"

definition csv_print :: "uchar \<Rightarrow> row list \<Rightarrow> ustr" where
  "csv_print d rows = concat (map (\<lambda>row. csv_line d row @ [10]) rows)"

text \<open>Without a set flag the count of characters has no effect.\<close>

fun map_ok :: "('a \<Rightarrow> 'b) \<Rightarrow> ('a, 'e) result \<Rightarrow> ('b, 'e) result" where
  "map_ok f (Ok x) = Ok (f x)"
| "map_ok f (Err e) = Err e"

lemma checked_ops:
  "push_char ch (s\<lparr>p_checked := n\<rparr>) = (push_char ch s)\<lparr>p_checked := n\<rparr>"
  "push_field (s\<lparr>p_checked := n\<rparr>) = (push_field s)\<lparr>p_checked := n\<rparr>"
  "push_row (s\<lparr>p_checked := n\<rparr>) = (push_row s)\<lparr>p_checked := n\<rparr>"
  "check_grid (s\<lparr>p_checked := n\<rparr>) = check_grid s"
  "check_grid (s\<lparr>p_closed := b\<rparr>) = check_grid s"
  by (simp_all add: parser_ops check_grid_def)

lemma checked_commute:
  "s\<lparr>p_checked := n, p_closed := b\<rparr> = s\<lparr>p_closed := b, p_checked := n\<rparr>"
  "s\<lparr>p_checked := n, p_quoted := q\<rparr> = s\<lparr>p_quoted := q, p_checked := n\<rparr>"
  by simp_all

lemma parse_char_checked:
  "parse_char d limit sample ch peek (s\<lparr>p_checked := n\<rparr>) =
     map_ok (\<lambda>(s', r). (s'\<lparr>p_checked := n\<rparr>, r)) (parse_char d limit sample ch peek s)"
  by (cases "check_grid (push_row (push_field s))")
     (simp_all add: parse_char_def Let_def checked_ops checked_commute)

lemma parse_step_char:
  assumes "cancelled \<noteq> Some True"
  shows "parse_step d limit sample cancelled ch peek s =
     map_ok (\<lambda>(s', r). (s'\<lparr>p_checked := p_checked s + 1\<rparr>, r)) (parse_char d limit sample ch peek s)"
proof -
  have "check_cancel cancelled = Ok ()" using assms by (simp add: check_cancel_def)
  then show ?thesis unfolding parse_step_def Let_def parse_char_checked by simp
qed

lemma parse_loop_checked:
  assumes "cancelled \<noteq> Some True"
  shows "parse_loop d limit sample cancelled chars (s\<lparr>p_checked := n\<rparr>) =
         parse_loop d limit sample cancelled chars s"
  using assms
proof (induction d limit sample cancelled chars s arbitrary: n rule: parse_loop.induct)
  case (1 d limit sample cancelled s)
  then show ?case
    by (cases "check_grid (push_row (push_field s))") (simp_all add: parse_end_def Let_def checked_ops)
next
  case (2 d limit sample cancelled ch chars s)
  show ?case
  proof (cases "parse_char d limit sample ch (first chars) s")
    case (Ok x)
    obtain s' skip stop where x: "x = (s', skip, stop)" by (cases x)
    let ?s = "s'\<lparr>p_checked := p_checked s + 1\<rparr>"
    have st: "parse_step d limit sample cancelled ch (first chars) s = Ok (?s, skip, stop)"
      using 2(2) Ok x by (simp add: parse_step_char)
    have ih: "\<not> stop \<Longrightarrow> parse_loop d limit sample cancelled (if skip then drop 1 chars else chars) (?s\<lparr>p_checked := n + 1\<rparr>) =
        parse_loop d limit sample cancelled (if skip then drop 1 chars else chars) ?s"
      by (rule 2(1) [OF st refl refl _ 2(2)])
    have "parse_step d limit sample cancelled ch (first chars) (s\<lparr>p_checked := n\<rparr>) =
        Ok (?s\<lparr>p_checked := n + 1\<rparr>, skip, stop)"
      using 2(2) Ok x by (simp add: parse_step_char parse_char_checked)
    then show ?thesis using st ih by simp
  next
    case (Err e)
    then show ?thesis using 2(2) by (simp add: parse_step_char parse_char_checked)
  qed
qed

text \<open>One iteration, with the count left out.\<close>

lemma parse_loop_Cons:
  assumes "cancelled \<noteq> Some True"
  shows "parse_loop d limit sample cancelled (ch # chars) s =
     and_then (parse_char d limit sample ch (first chars) s) (\<lambda>(s', skip, stop).
       if stop then Ok (p_rows s')
       else parse_loop d limit sample cancelled (if skip then drop 1 chars else chars) s')"
  using parse_loop_checked [OF assms]
  by (cases "parse_char d limit sample ch (first chars) s")
     (simp_all add: parse_step_char [OF assms] case_prod_beta)

declare parse_loop.simps(2) [simp del]

lemma parse_loop_quoted:
  assumes "cancelled \<noteq> Some True" "p_quoted s" "x \<noteq> 34"
  shows "parse_loop d limit sample cancelled (csv_quote v @ 34 # x # t) s =
         parse_loop d limit sample cancelled (x # t) (s\<lparr>p_field := p_field s @ v, p_quoted := False, p_closed := True\<rparr>)"
  using assms(2)
proof (induction v arbitrary: s)
  case Nil
  then show ?case using assms(1,3)
    by (simp add: csv_quote_def parse_loop_Cons [of _ _ _ _ 34] parse_char_def first_def)
next
  case (Cons c v)
  have "p_quoted (push_char c s)" using Cons(2) by (simp add: push_char_def)
  note ih = Cons(1) [OF this]
  have "parse_loop d limit sample cancelled (csv_quote (c # v) @ 34 # x # t) s =
        parse_loop d limit sample cancelled (csv_quote v @ 34 # x # t) (push_char c s)"
    using Cons(2) assms(1) by (simp add: csv_quote_def parse_loop_Cons [of _ _ _ _ c] parse_loop_Cons [of _ _ _ _ 34] parse_char_def first_def)
  then show ?case using ih by (simp add: push_char_def)
qed

text \<open>A printed field leaves the parser behind its closing quote.\<close>

lemma parse_loop_field:
  assumes "cancelled \<noteq> Some True" "\<not> p_quoted s" "\<not> p_closed s" "p_field s = []" "d \<noteq> 34" "x \<noteq> 34"
  shows "parse_loop d limit sample cancelled (csv_field v @ x # t) s =
         parse_loop d limit sample cancelled (x # t) (s\<lparr>p_field := v, p_closed := True\<rparr>)"
proof -
  have "parse_loop d limit sample cancelled (csv_field v @ x # t) s =
      parse_loop d limit sample cancelled (csv_quote v @ 34 # x # t) (s\<lparr>p_quoted := True\<rparr>)"
    using assms by (simp add: csv_field_def parse_loop_Cons parse_char_def)
  also have "\<dots> = parse_loop d limit sample cancelled (x # t) (s\<lparr>p_field := v, p_closed := True\<rparr>)"
    using assms parse_loop_quoted [of cancelled "s\<lparr>p_quoted := True\<rparr>" x d limit sample v t]
    by (cases s) simp
  finally show ?thesis .
qed

definition clean :: "Parser \<Rightarrow> bool" where
  "clean s \<longleftrightarrow> \<not> p_quoted s \<and> \<not> p_closed s \<and> p_field s = []"

definition with_row :: "row \<Rightarrow> Parser \<Rightarrow> Parser" where
  "with_row row s = s\<lparr>p_row := p_row s @ row, p_cell_count := p_cell_count s + length row\<rparr>"

lemma with_row_with_row: "with_row b (with_row a s) = with_row (a @ b) s"
  by (simp add: with_row_def)

lemma push_field_clean:
  assumes "clean s" "p_cell_count s + 1 \<le> MAX_GRID + MAX_COLUMNS"
  shows "(push_field (s\<lparr>p_field := v, p_closed := True\<rparr>))\<lparr>p_closed := False\<rparr> = with_row [v] s"
    and "(push_row (push_field (s\<lparr>p_field := v, p_closed := True\<rparr>)))\<lparr>p_closed := False\<rparr> = push_row (with_row [v] s)"
  using assms by (cases s; simp add: clean_def push_field_def push_row_def with_row_def sat_add_small)+

lemma clean_with_row [simp]: "clean (with_row row s) = clean s" "clean (push_row s) = clean s"
  by (simp_all add: clean_def with_row_def push_row_def)

lemma parse_loop_line:
  assumes "cancelled \<noteq> Some True" "d \<in> set delimiters"
    and "clean s" "row \<noteq> []" "length (p_row s) + length row \<le> MAX_COLUMNS"
    and "p_cell_count s + length row \<le> MAX_GRID + MAX_COLUMNS"
    and "check_grid (push_row (with_row row s)) = Ok ()" "length (p_rows s) < limit"
  shows "parse_loop d limit False cancelled (csv_line d row @ 10 # t) s =
         parse_loop d limit False cancelled t (push_row (with_row row s))"
proof -
  have d: "d \<noteq> 34" "d \<noteq> 10" using assms(2) by (auto simp: delimiters_def)
  have field: "parse_loop d limit False cancelled (csv_field v @ x # t') s =
         parse_loop d limit False cancelled (x # t') (s\<lparr>p_field := v, p_closed := True\<rparr>)"
    if "clean s" "x \<noteq> 34" for s v x t'
    using that parse_loop_field [OF assms(1), of s d x] d by (simp add: clean_def)
  show ?thesis
    using assms(3-8)
  proof (induction row arbitrary: s rule: induct_list012)
    case (2 v)
    let ?s = "s\<lparr>p_field := v, p_closed := True\<rparr>"
    have eq: "(push_row (push_field ?s))\<lparr>p_closed := False\<rparr> = push_row (with_row [v] s)"
      using 2 by (intro push_field_clean(2)) simp_all
    have "parse_char d limit False 10 (first t) ?s = Ok (push_row (with_row [v] s), False, False)"
      using 2 d eq by (simp add: parse_char_def clean_def) (simp add: push_row_def with_row_def)
    then show ?case using 2 field [of s 10] by (simp add: parse_loop_Cons [OF assms(1)])
  next
    case (3 v w row)
    let ?s = "s\<lparr>p_field := v, p_closed := True\<rparr>"
    have eq: "(push_field ?s)\<lparr>p_closed := False\<rparr> = with_row [v] s"
      using 3 by (intro push_field_clean(1)) simp_all
    have "parse_char d limit False d (first (csv_line d (w # row) @ 10 # t)) ?s = Ok (with_row [v] s, False, False)"
      using 3(3,5) d eq by (simp add: parse_char_def clean_def) (simp add: with_row_def)
    then have "parse_loop d limit False cancelled (csv_line d (v # w # row) @ 10 # t) s =
        parse_loop d limit False cancelled (csv_line d (w # row) @ 10 # t) (with_row [v] s)"
      using 3(3) d field [of s d v "csv_line d (w # row) @ 10 # t"]
      by (simp add: parse_loop_Cons [OF assms(1), of d _ _ d])
    also have "\<dots> = parse_loop d limit False cancelled t (push_row (with_row (w # row) (with_row [v] s)))"
      using 3 by (intro "3.IH"(2)) (simp_all add: with_row_with_row, simp_all add: with_row_def)
    finally show ?case by (simp add: with_row_with_row)
  qed simp
qed

lemma grid_ok_prefix:
  assumes "grid_ok limit (a @ b)"
  shows "grid_ok limit a"
proof -
  have "length a * row_width a \<le> length (a @ b) * row_width (a @ b)"
    by (rule mult_le_mono) simp_all
  then show ?thesis using assms by (simp add: grid_ok_def)
qed

lemma parse_loop_rows:
  assumes "cancelled \<noteq> Some True" "d \<in> set delimiters"
    and "clean s" "p_row s = []" "p_max_width s = row_width (p_rows s)" "p_cell_count s = cells (p_rows s)"
    and "grid_ok limit (p_rows s @ rows)"
  shows "parse_loop d limit False cancelled (csv_print d rows) s = Ok (p_rows s @ rows)"
  using assms(3-)
proof (induction rows arbitrary: s)
  case Nil
  then show ?case by (simp add: csv_print_def parse_end_def clean_def grid_ok_def)
next
  case (Cons row rows)
  let ?s = "push_row (with_row row s)"
  have s': "p_rows ?s = p_rows s @ [row]" "p_row ?s = []" "p_max_width ?s = row_width (p_rows ?s)"
    "p_cell_count ?s = cells (p_rows ?s)" "clean ?s"
    using Cons.prems by (simp_all add: push_row_def with_row_def clean_def)
  have g: "grid_ok limit (p_rows ?s @ rows)" using Cons.prems(5) by (simp add: s')
  then have g1: "grid_ok limit (p_rows ?s)" by (rule grid_ok_prefix)
  have chk: "check_grid ?s = Ok ()" using g1 unfolding check_grid_Ok_iff s'(3,4) by (simp add: grid_ok_def)
  have "parse_loop d limit False cancelled (csv_line d row @ 10 # csv_print d rows) s =
        parse_loop d limit False cancelled (csv_print d rows) ?s"
    using assms(1,2) Cons.prems g1 chk s'(1)
    by (intro parse_loop_line) (simp_all add: grid_ok_def)
  also have "\<dots> = Ok (p_rows ?s @ rows)"
    using s' g by (intro Cons.IH) simp_all
  finally show ?case by (simp add: csv_print_def s'(1))
qed

text \<open>
  C25: Writing a table as CSV and parsing the text gives the table back: for each of the delimiters
  the analyser knows and each table within its limits, whatever quotes, delimiters, line ends or
  control characters the cells contain.
\<close>

theorem csv_print_parse:
  assumes "d \<in> set delimiters" "grid_ok limit rows" "cancelled \<noteq> Some True"
  shows "csv_parse (csv_print d rows) d limit False cancelled = Ok rows"
  using parse_loop_rows [OF assms(3,1), of parser_start limit rows] assms(2)
  by (simp add: csv_parse_def parser_start_def clean_def)

theorem csv_print_parse_witness:
  "csv_parse (csv_print 44 [[lit ''a,b'', [34, 10]], [[], [13], lit ''x'']]) 44 5 False None =
     Ok [[lit ''a,b'', [34, 10]], [[], [13], lit ''x'']]"
  by (rule csv_print_parse) (simp_all add: delimiters_def grid_ok_def MAX_COLUMNS_def MAX_GRID_def)

theorem csv_parse_grid_witness:
  "csv_parse (lit ''a,b'') 44 5 False None = Ok [[lit ''a'', lit ''b'']] \<and>
   length [[lit ''a'', lit ''b'']] \<le> 5"
proof -
  have p: "csv_parse (lit ''a,b'') 44 5 False None = Ok [[lit ''a'', lit ''b'']]"
    by (simp add: csv_parse_def parser_start_def parse_loop_Cons parse_char_def parse_end_def parser_ops
        MAX_COLUMNS_def sat_add_def U64_MAX_def check_grid_def MAX_GRID_def sat_mul_def)
  then show ?thesis using csv_parse_grid [OF p] by simp
qed

end
