(* ===== verification/Json.thy ===== *)
theory Json
  imports Text "HOL-Library.List_Lexorder"
begin

text \<open>
  The JSON values of \<open>serde_json\<close> as the program uses them: a map is sorted by its keys, indexing
  yields \<open>null\<close> for what is missing, and printing is the compact form of \<open>Value::to_string\<close>.
\<close>

text \<open>A number is an unsigned integer, a negative integer, or a float, kept as the text it prints as.\<close>

datatype Number = PosInt nat | NegInt int | Float ustr

datatype Value =
  JNull | JBool bool | JNumber Number | JString ustr | JArray "Value list" | JObject "(ustr \<times> Value) list"

fun map_insert :: "'k::linorder \<Rightarrow> 'v \<Rightarrow> ('k \<times> 'v) list \<Rightarrow> ('k \<times> 'v) list" where
  "map_insert k v [] = [(k, v)]"
| "map_insert k v ((k', v') # m) =
     (if k = k' then (k, v) # m
      else if k < k' then (k, v) # (k', v') # m
      else (k', v') # map_insert k v m)"

definition map_remove :: "'k \<Rightarrow> ('k \<times> 'v) list \<Rightarrow> ('k \<times> 'v) list" where
  "map_remove k m = filter (\<lambda>(k', _). k' \<noteq> k) m"

text \<open>\<open>entry(k).or_insert(v)\<close>\<close>

definition or_insert :: "'k::linorder \<Rightarrow> 'v \<Rightarrow> ('k \<times> 'v) list \<Rightarrow> ('k \<times> 'v) list" where
  "or_insert k v m = (if map_of m k = None then map_insert k v m else m)"

text \<open>The \<open>json!\<close> macro on an object.\<close>

definition jobject :: "(string \<times> Value) list \<Rightarrow> Value" where
  "jobject kvs = JObject (foldl (\<lambda>m (k, v). map_insert (lit k) v m) [] kvs)"

abbreviation jstr :: "string \<Rightarrow> Value" where
  "jstr s \<equiv> JString (lit s)"

fun as_object :: "Value \<Rightarrow> (ustr \<times> Value) list option" where
  "as_object (JObject m) = Some m"
| "as_object _ = None"

fun as_array :: "Value \<Rightarrow> Value list option" where
  "as_array (JArray xs) = Some xs"
| "as_array _ = None"

fun as_str :: "Value \<Rightarrow> ustr option" where
  "as_str (JString s) = Some s"
| "as_str _ = None"

fun as_u64 :: "Value \<Rightarrow> nat option" where
  "as_u64 (JNumber (PosInt n)) = Some n"
| "as_u64 _ = None"

definition jget :: "Value \<Rightarrow> string \<Rightarrow> Value option" where
  "jget v k = Option.bind (as_object v) (\<lambda>m. map_of m (lit k))"

text \<open>\<open>Value::pointer\<close> on a path of object keys\<close>

fun pointer :: "Value \<Rightarrow> string list \<Rightarrow> Value option" where
  "pointer v [] = Some v"
| "pointer v (k # ks) = Option.bind (jget v k) (\<lambda>w. pointer w ks)"

text \<open>Indexing with a key and with a position\<close>

definition jidx :: "Value \<Rightarrow> string \<Rightarrow> Value" where
  "jidx v k = (case jget v k of Some w \<Rightarrow> w | None \<Rightarrow> JNull)"

definition jnth :: "Value \<Rightarrow> nat \<Rightarrow> Value" where
  "jnth v i = (case as_array v of Some xs \<Rightarrow> if i < length xs then xs ! i else JNull | None \<Rightarrow> JNull)"

lemma map_of_map_insert [simp]: "map_of (map_insert k v m) = (map_of m)(k \<mapsto> v)"
  by (induction m) auto

lemma map_of_map_remove [simp]: "map_of (map_remove k m) = (map_of m)(k := None)"
  by (induction m) (auto simp: map_remove_def)

section \<open>Printing\<close>

definition esc_char :: "uchar \<Rightarrow> ustr" where
  "esc_char c =
     (if c = 34 then [92, 34] else if c = 92 then [92, 92]
      else if c = 8 then [92, 98] else if c = 9 then [92, 116]
      else if c = 10 then [92, 110] else if c = 12 then [92, 102]
      else if c = 13 then [92, 114]
      else if c < 0x20 then [92, 117] @ show_hex 4 c
      else [c])"

definition json_string :: "ustr \<Rightarrow> ustr" where
  "json_string s = [34] @ concat (map esc_char s) @ [34]"

fun number_text :: "Number \<Rightarrow> ustr" where
  "number_text (PosInt n) = show_nat n"
| "number_text (NegInt i) = [45] @ show_nat (nat (- i))"
| "number_text (Float t) = t"

fun commas :: "ustr list \<Rightarrow> ustr" where
  "commas [] = []"
| "commas [x] = x"
| "commas (x # xs) = x @ [44] @ commas xs"

fun to_text :: "Value \<Rightarrow> ustr" where
  "to_text JNull = lit ''null''"
| "to_text (JBool b) = (if b then lit ''true'' else lit ''false'')"
| "to_text (JNumber n) = number_text n"
| "to_text (JString s) = json_string s"
| "to_text (JArray xs) = [91] @ commas (map to_text xs) @ [93]"
| "to_text (JObject m) = [123] @ commas (map (\<lambda>(k, v). json_string k @ [58] @ to_text v) m) @ [125]"

lemma blen_commas: "blen (commas xs) = sum_list (map blen xs) + (length xs - 1)"
proof (induction xs rule: commas.induct)
  case (3 x y ys)
  then show ?case by (simp add: len_utf8_def)
qed simp_all

lemma ascii_blen: "\<forall>c \<in> set s. c < 0x80 \<Longrightarrow> blen s = length s"
  by (induction s) (simp_all add: len_utf8_def)

section \<open>Sorted maps\<close>

text \<open>The keys of an ordered map ascend, each once.\<close>

definition keys_ok :: "('k::linorder \<times> 'v) list \<Rightarrow> bool" where
  "keys_ok m \<longleftrightarrow> sorted_wrt (<) (map fst m)"

lemma keys_ok_Nil [simp]: "keys_ok []"
  by (simp add: keys_ok_def)

lemma set_map_insert: "set (map_insert k v m) \<subseteq> insert (k, v) (set m)"
  by (induction m) (auto split: if_splits)

lemma keys_ok_insert [simp]: "keys_ok m \<Longrightarrow> keys_ok (map_insert k v m)"
proof (induction m)
  case (Cons e m)
  obtain k' v' where e: "e = (k', v')" by force
  have "\<forall>x \<in> fst ` set (map_insert k v m). k' < x" if "k' < k"
    using Cons.prems that set_map_insert [of k v m] by (fastforce simp: keys_ok_def e)
  then show ?case using Cons by (auto simp: keys_ok_def e)
qed (simp add: keys_ok_def)

lemma keys_ok_remove [simp]: "keys_ok m \<Longrightarrow> keys_ok (map_remove k m)"
  unfolding keys_ok_def map_remove_def by (induction m) auto

end
