(* ===== verification/Results.thy ===== *)
theory Results
  imports Official Json
begin

text \<open>
  The result of a parse as the library hands it out (\<open>official/result.rs\<close>): the documents, the
  assets and the number of bytes they retain.
\<close>

definition RETAINED_RESULT_CAP :: nat where "RETAINED_RESULT_CAP = 64 * 1024 * 1024"

record OfficialVersionMetadata =
  mineru_package :: ustr
  schema_version :: ustr
  bundle_name :: ustr

record OfficialResult =
  or_middle :: Value
  or_model :: "Value option"
  or_markdown :: ustr
  or_structured :: Value
  or_assets :: "(ustr \<times> byte list) list"
  or_warnings :: "ustr list"
  or_metadata :: OfficialVersionMetadata

definition retained_bytes :: "OfficialResult \<Rightarrow> nat" where
  "retained_bytes r =
     foldl sat_add 0
       [blen (or_markdown r), blen (to_text (or_structured r)), blen (to_text (or_middle r)),
        (case or_model r of None \<Rightarrow> 0 | Some v \<Rightarrow> blen (to_text v)),
        foldl sat_add 0 (map (\<lambda>(_, b). length b) (or_assets r))]"

lemma retained_bytes_sum:
  "retained_bytes r = min U64_MAX (blen (or_markdown r) + blen (to_text (or_structured r)) + blen (to_text (or_middle r))
     + (case or_model r of None \<Rightarrow> 0 | Some v \<Rightarrow> blen (to_text v)) + foldl sat_add 0 (map (\<lambda>(_, b). length b) (or_assets r)))"
  by (simp add: retained_bytes_def sat_add_def)

end
