(* ===== verification/Csv_Restore.thy ===== *)
theory Csv_Restore
  imports Csv Results
begin

text \<open>
  The document of the native CSV analyser and its restoration (\<open>official/native/csv.rs\<close>,
  \<open>csv_restore.rs\<close>, the CSV branch of \<open>official/parser.rs\<close>): the middle JSON with its embedded
  HTML table, the reader of that table, the structural checks of a stored document, and the
  theorem that what the analyser produces restores to the same result.
\<close>

section \<open>Results\<close>

definition CARGO_PKG_VERSION :: ustr where "CARGO_PKG_VERSION = lit ''0.4.1''"

record NativeCsvResult =
  nc_model :: Value
  nc_middle :: Value
  nc_markdown :: ustr
  nc_structured :: Value

definition csv_metadata :: OfficialVersionMetadata where
  "csv_metadata = \<lparr>mineru_package = lit ''mineru-rs/'' @ CARGO_PKG_VERSION, schema_version = lit ''2.0'',
                   bundle_name = lit ''native-csv''\<rparr>"

section \<open>The document\<close>

definition structured_content :: "Value \<Rightarrow> ustr \<Rightarrow> Value" where
  "structured_content middle markdown =
     (let top = (case middle of
                   JObject m \<Rightarrow>
                     JObject (map_remove (lit ''extensions'') (map_remove (lit ''schema_version'')
                       (map_remove (lit ''schema'') m)))
                 | v \<Rightarrow> v);
          block = (\<lambda>b. case b of
                     JObject m \<Rightarrow>
                       JObject (map_insert (lit ''footnotes'') (JArray [])
                         (map_insert (lit ''captions'') (JArray [])
                           (map_insert (lit ''content'') (JString markdown)
                             (map_remove (lit ''bbox'') (map_remove (lit ''index'') m)))))
                   | v \<Rightarrow> v);
          on_first = (\<lambda>f v. case v of JArray (x # xs) \<Rightarrow> JArray (f x # xs) | _ \<Rightarrow> v);
          on_key = (\<lambda>k f v. case v of
                      JObject m \<Rightarrow>
                        (case map_of m (lit k) of Some w \<Rightarrow> JObject (map_insert (lit k) (f w) m) | None \<Rightarrow> v)
                    | _ \<Rightarrow> v)
      in on_key ''pages'' (on_first (on_key ''blocks'' (on_first block))) top)"

definition csv_doc_metadata :: "ustr \<Rightarrow> Value" where
  "csv_doc_metadata suff =
     jobject [(''file_suffix'', JString suff),
              (''producer'', jobject [(''name'', jstr ''mineru-rs''), (''version'', JString CARGO_PKG_VERSION)])]"

definition csv_model :: "ustr \<Rightarrow> row list \<Rightarrow> ustr \<Rightarrow> Value" where
  "csv_model suff rows table =
     (let model_blocks =
            (if rows = [] then [] else [jobject [(''type'', jstr ''table''), (''content'', JString table)]])
      in jobject [(''schema'', jstr ''docvortex.model''), (''schema_version'', jstr ''2.0''),
                  (''page_index_map'', JArray []), (''pages'', JArray [JArray model_blocks]),
                  (''metadata'', csv_doc_metadata suff), (''extensions'', JObject [])])"

definition csv_middle :: "ustr \<Rightarrow> row list \<Rightarrow> ustr \<Rightarrow> Value" where
  "csv_middle suff rows table =
     (let middle_blocks =
            (if rows = [] then []
             else [jobject [(''type'', jstr ''table''), (''index'', JNumber (PosInt 0)),
                     (''content'', JArray [jobject [(''type'', jstr ''table_body''),
                        (''index'', JNumber (PosInt 0)), (''content'', JString table)]])]])
      in jobject [(''schema'', jstr ''docvortex.middle''), (''schema_version'', jstr ''2.0''),
                  (''metadata'', csv_doc_metadata suff),
                  (''pages'', JArray [jobject [(''page_idx'', JNumber (PosInt 0)), (''blocks'', JArray middle_blocks)]]),
                  (''is_full_document'', JBool True), (''extensions'', JObject [])])"

definition analyze_with_cancel :: "Matchers \<Rightarrow> byte list \<Rightarrow> ustr \<Rightarrow> cancel \<Rightarrow> nat \<Rightarrow> NativeCsvResult official" where
  "analyze_with_cancel mt bytes suff cancelled output_budget =
     and_then (ensure (length bytes \<le> CSV_MAX_BYTES) (csv_error LimitExceeded ''CSV exceeds max_bytes'')) (\<lambda>_.
     and_then (ensure (suff = lit ''csv'' \<or> suff = lit ''tsv'')
                 (csv_error InvalidInput ''native CSV analyzer requires csv or tsv'')) (\<lambda>_.
     and_then (decode bytes) (\<lambda>t0.
     let (t, explicit) = directive t0 in
     and_then (check_cancel cancelled) (\<lambda>_.
     and_then (case explicit of Some d \<Rightarrow> Ok d | None \<Rightarrow> infer_delimiter t suff cancelled) (\<lambda>delimiter.
     and_then (csv_parse t delimiter MAX_ROWS False cancelled) (\<lambda>rows.
     let width = row_width rows in
     and_then (ensure (\<not> (MAX_COLUMNS < width \<or> MAX_GRID < sat_mul (length rows) width)) grid_error) (\<lambda>_.
     let header = infer_header mt rows;
         budget = min output_budget MAX_RENDERED div 5 in
     and_then (render_html rows width header cancelled budget) (\<lambda>table.
     and_then (render_markdown rows width header cancelled budget) (\<lambda>markdown.
     let middle = csv_middle suff rows table in
     Ok \<lparr>nc_model = csv_model suff rows table, nc_middle = middle, nc_markdown = markdown,
         nc_structured = structured_content middle markdown\<rparr>)))))))))"

text \<open>
  The work of \<open>parse_native_csv\<close> in \<open>parser.rs\<close> on the bytes of an input: the byte limit of the
  read, the refusal of an empty input, the analysis wrapped into a result without assets, and the
  charge against the retained cap.
\<close>

definition parse_native_csv :: "Matchers \<Rightarrow> byte list \<Rightarrow> ustr \<Rightarrow> cancel \<Rightarrow> nat \<Rightarrow> OfficialResult official" where
  "parse_native_csv mt bytes suff cancelled retained_cap =
     and_then (ensure (length bytes \<le> min CSV_MAX_BYTES retained_cap)
                 (csv_error LimitExceeded ''official input exceeds byte limit'')) (\<lambda>_.
     and_then (ensure (bytes \<noteq> []) (csv_error InvalidInput ''input is empty'')) (\<lambda>_.
     and_then (analyze_with_cancel mt bytes suff cancelled retained_cap) (\<lambda>parsed.
     let result = \<lparr>or_middle = nc_middle parsed, or_model = Some (nc_model parsed),
                   or_markdown = nc_markdown parsed, or_structured = nc_structured parsed,
                   or_assets = [], or_warnings = [], or_metadata = csv_metadata\<rparr> in
     if retained_cap < retained_bytes result
     then Err (csv_error LimitExceeded ''result exceeds retained byte limit'')
     else Ok result)))"

definition is_native_middle :: "Value \<Rightarrow> bool" where
  "is_native_middle middle \<longleftrightarrow>
     Option.bind (pointer middle [''metadata'', ''file_suffix'']) as_str \<in> {Some (lit ''csv''), Some (lit ''tsv'')} \<and>
     Option.bind (pointer middle [''metadata'', ''producer'', ''name'']) as_str = Some (lit ''mineru-rs'')"

section \<open>Reading the table\<close>

abbreviation invalid :: "string \<Rightarrow> OfficialError" where
  "invalid message \<equiv> official_error InvalidInput (lit message)"

definition limit_error :: OfficialError where
  "limit_error = official_error LimitExceeded (lit ''native CSV result exceeds retained byte limit'')"

definition restore_check :: "bool \<Rightarrow> unit official" where
  "restore_check cancelled = ensure (\<not> cancelled) (official_error Cancelled (lit ''CSV restore cancelled''))"

definition entity :: "ustr \<Rightarrow> uchar option" where
  "entity e =
     (if e = lit ''&amp;'' then Some 38 else if e = lit ''&lt;'' then Some 60
      else if e = lit ''&gt;'' then Some 62 else if e = lit ''&quot;'' then Some 34
      else if e = lit ''&#x27;'' then Some 39
      else if e = lit ''&#xfffd;'' \<or> e = lit ''&#xFFFD;'' then Some 0xFFFD
      else None)"

function append_text :: "bool \<Rightarrow> ustr \<Rightarrow> ustr \<Rightarrow> ustr official" where
  "append_text cancelled target rest =
     (case find_char (\<lambda>c. c = 38) rest of
        None \<Rightarrow> Ok (target @ rest)
      | Some start \<Rightarrow>
          and_then (restore_check cancelled) (\<lambda>_.
          and_then (ok_or (find_char (\<lambda>c. c = 59) (drop start rest)) (invalid ''invalid HTML entity'')) (\<lambda>n.
          and_then (ok_or (entity (take (n + 1) (drop start rest))) (invalid ''unsupported HTML entity'')) (\<lambda>c.
          append_text cancelled (target @ take start rest @ [c]) (drop (start + n + 1) rest)))))"
  by pat_completeness auto

termination
  by (relation "measure (\<lambda>(_, _, rest). length rest)")
     (auto simp: ok_or_Ok_iff find_char_Some_iff)

text \<open>
  The variables of the loop of \<open>parse_table\<close>. An \<open>unwrap\<close> on an absent cell is the error
  \<open>panicked\<close>, which the loop is shown never to return.
\<close>

record Table =
  t_rows :: "row list"
  t_row :: row
  t_cell :: "ustr option"
  t_cell_tag :: "ustr option"
  t_open :: bool
  t_row_open :: bool
  t_closed :: bool
  t_cell_count :: nat
  t_max_width :: nat

definition table_start :: Table where
  "table_start = \<lparr>t_rows = [], t_row = [], t_cell = None, t_cell_tag = None, t_open = False,
     t_row_open = False, t_closed = False, t_cell_count = 0, t_max_width = 0\<rparr>"

definition panicked :: OfficialError where
  "panicked = \<lparr>oe_kind = Upstream, oe_message = lit ''called Option::unwrap on a None value''\<rparr>"

definition close_cell :: "Table \<Rightarrow> Table official" where
  "close_cell s =
     (case t_cell s of
        Some c \<Rightarrow> Ok (s\<lparr>t_row := t_row s @ [c], t_cell := None, t_cell_count := t_cell_count s + 1\<rparr>)
      | None \<Rightarrow> Err panicked)"

definition table_tag :: "ustr \<Rightarrow> Table \<Rightarrow> Table official" where
  "table_tag tag s =
     (if tag = lit ''table'' \<and> \<not> t_open s \<and> \<not> t_closed s then Ok (s\<lparr>t_open := True\<rparr>)
      else if tag = lit ''/table'' \<and> t_open s \<and> \<not> t_row_open s \<and> t_cell s = None then
        Ok (s\<lparr>t_open := False, t_closed := True\<rparr>)
      else if tag = lit ''tr'' \<and> t_open s \<and> \<not> t_row_open s \<and> t_cell s = None then
        Ok (s\<lparr>t_row_open := True, t_row := []\<rparr>)
      else if tag = lit ''/tr'' \<and> t_row_open s \<and> t_cell s = None then
        (let s = s\<lparr>t_rows := t_rows s @ [t_row s], t_row := [], t_row_open := False,
                   t_max_width := max (t_max_width s) (length (t_row s))\<rparr>
         in if MAX_GRID < sat_mul (length (t_rows s)) (t_max_width s) then Err limit_error else Ok s)
      else if (tag = lit ''td'' \<or> tag = lit ''th'') \<and> t_row_open s \<and> t_cell s = None then
        (if MAX_COLUMNS \<le> length (t_row s) then Err limit_error
         else Ok (s\<lparr>t_cell := Some [], t_cell_tag := Some tag\<rparr>))
      else if tag = lit ''/td'' \<and> t_row_open s \<and> t_cell_tag s = Some (lit ''td'') then close_cell s
      else if tag = lit ''/th'' \<and> t_row_open s \<and> t_cell_tag s = Some (lit ''th'') then close_cell s
      else if tag = lit ''br'' \<and> t_cell s \<noteq> None then
        Ok (s\<lparr>t_cell := map_option (\<lambda>c. c @ [10]) (t_cell s)\<rparr>)
      else Err (invalid ''unsupported native CSV table markup''))"

text \<open>Text outside the tags: the content of the open cell, or white space.\<close>

definition table_chars :: "bool \<Rightarrow> string \<Rightarrow> ustr \<Rightarrow> Table \<Rightarrow> Table official" where
  "table_chars cancelled message chars s =
     (case t_cell s of
        Some c \<Rightarrow> and_then (append_text cancelled c chars) (\<lambda>c'. Ok (s\<lparr>t_cell := Some c'\<rparr>))
      | None \<Rightarrow> if trim chars \<noteq> [] then Err (invalid message) else Ok s)"

definition drop_tag :: "Table \<Rightarrow> Table" where
  "drop_tag s = (if t_cell s = None then s\<lparr>t_cell_tag := None\<rparr> else s)"

definition table_limits :: "Table \<Rightarrow> unit official" where
  "table_limits s = ensure (\<not> (1048576 < length (t_rows s) \<or> MAX_GRID < t_cell_count s)) limit_error"

function table_loop :: "bool \<Rightarrow> nat \<Rightarrow> ustr \<Rightarrow> Table \<Rightarrow> Table official" where
  "table_loop cancelled iterations rest s =
     (if rest = [] then Ok s
      else
        and_then (if (iterations + 1) mod 1024 = 0 then restore_check cancelled else Ok ()) (\<lambda>_.
          case find_char (\<lambda>c. c = 60) rest of
            Some pos \<Rightarrow>
              and_then (table_chars cancelled ''invalid table whitespace'' (take pos rest) s) (\<lambda>s.
              and_then (ok_or (find_char (\<lambda>c. c = 62) (drop pos rest)) (invalid ''malformed table markup'')) (\<lambda>n.
              and_then (table_tag (take (n - 1) (drop (pos + 1) rest)) s) (\<lambda>s.
              and_then (table_limits (drop_tag s)) (\<lambda>_.
              table_loop cancelled (iterations + 1) (drop (pos + n + 1) rest) (drop_tag s)))))
          | None \<Rightarrow>
              and_then (table_chars cancelled ''invalid table trailing data'' rest s) (\<lambda>s.
              and_then (table_limits s) (\<lambda>_. Ok s))))"
  by pat_completeness auto

termination
  by (relation "measure (\<lambda>(_, _, rest, _). length rest)")
     (auto simp: ok_or_Ok_iff find_char_Some_iff)

definition parse_table :: "bool \<Rightarrow> ustr \<Rightarrow> row list official" where
  "parse_table cancelled html =
     and_then (table_loop cancelled 0 html table_start) (\<lambda>s.
       if \<not> t_closed s \<or> t_open s \<or> t_row_open s \<or> t_cell s \<noteq> None
          \<or> list_ex (\<lambda>r. MAX_COLUMNS < length r) (t_rows s)
       then Err (invalid ''incomplete or oversized native CSV table'')
       else Ok (t_rows s))"

section \<open>Checking a stored document\<close>

definition json_string_size :: "bool \<Rightarrow> ustr \<Rightarrow> nat official" where
  "json_string_size cancelled v =
     try_for (\<lambda>(i, ch) n.
         and_then (if i mod 8192 = 0 then restore_check cancelled else Ok ()) (\<lambda>_.
           Ok (sat_add n (if ch \<in> {34, 92, 10, 13, 9} then 2 else if ch \<le> 0x1F then 6 else len_utf8 ch))))
       (enumerate 0 v) 2"

fun json_size :: "bool \<Rightarrow> Value \<Rightarrow> nat official"
and json_items :: "bool \<Rightarrow> nat \<Rightarrow> nat \<Rightarrow> Value list \<Rightarrow> nat official"
and json_members :: "bool \<Rightarrow> nat \<Rightarrow> nat \<Rightarrow> (ustr \<times> Value) list \<Rightarrow> nat official" where
  "json_size cancelled v =
     and_then (restore_check cancelled) (\<lambda>_.
       case v of
         JNull \<Rightarrow> Ok 4
       | JBool b \<Rightarrow> Ok (if b then 4 else 5)
       | JNumber n \<Rightarrow> Ok (blen (number_text n))
       | JString s \<Rightarrow> json_string_size cancelled s
       | JArray items \<Rightarrow> json_items cancelled 0 2 items
       | JObject items \<Rightarrow> json_members cancelled 0 2 items)"
| "json_items cancelled i n [] = Ok n"
| "json_items cancelled i n (item # items) =
     and_then (json_size cancelled item) (\<lambda>k.
       json_items cancelled (i + 1) (sat_add (if 0 < i then sat_add n 1 else n) k) items)"
| "json_members cancelled i n [] = Ok n"
| "json_members cancelled i n ((key, item) # items) =
     and_then (json_string_size cancelled key) (\<lambda>a.
     and_then (json_size cancelled item) (\<lambda>k.
       json_members cancelled (i + 1) (sat_add (sat_add (sat_add (if 0 < i then sat_add n 1 else n) a) 1) k) items))"

definition check_keys :: "Value \<Rightarrow> string list \<Rightarrow> unit official" where
  "check_keys v allowed =
     ensure (case as_object v of None \<Rightarrow> False | Some m \<Rightarrow> list_all (\<lambda>(k, _). k \<in> set (map lit allowed)) m)
       (invalid ''native CSV middle JSON contains unsupported fields'')"

definition block_index :: "Value \<Rightarrow> nat official" where
  "block_index v =
     ok_or (Option.bind (jget v ''index'') as_u64) (invalid ''native CSV table blocks require a nonnegative index'')"

definition TABLE_BUDGET :: nat where
  "TABLE_BUDGET = min (RETAINED_RESULT_CAP div 5) MAX_RENDERED"

text \<open>The defaults an older document may lack\<close>

definition fill_schema :: "Value \<Rightarrow> Value" where
  "fill_schema middle =
     (case middle of
        JObject m \<Rightarrow>
          JObject (or_insert (lit ''extensions'') (JObject [])
            (or_insert (lit ''schema_version'') (jstr ''2.0'')
              (or_insert (lit ''schema'') (jstr ''docvortex.middle'') m)))
      | v \<Rightarrow> v)"

definition check_document :: "Value \<Rightarrow> unit official" where
  "check_document middle =
     and_then (check_keys middle [''schema'', ''schema_version'', ''metadata'', ''pages'', ''is_full_document'', ''extensions'']) (\<lambda>_.
     and_then (check_keys (jidx middle ''metadata'') [''file_suffix'', ''producer'']) (\<lambda>_.
     and_then (check_keys (jidx (jidx middle ''metadata'') ''producer'') [''name'', ''version'']) (\<lambda>_.
     and_then (ensure (\<not> ((case Option.bind (pointer middle [''metadata'', ''producer'', ''version'']) as_str of
                            None \<Rightarrow> True | Some s \<Rightarrow> s = [])
                         \<or> (case as_object (jidx middle ''extensions'') of None \<Rightarrow> False | Some m \<Rightarrow> m \<noteq> [])))
                 (invalid ''native CSV middle JSON has unsupported metadata'')) (\<lambda>_.
     and_then (ok_or (opt_filter (\<lambda>s. s \<in> {lit ''csv'', lit ''tsv''})
                        (Option.bind (pointer middle [''metadata'', ''file_suffix'']) as_str))
                 (invalid ''native CSV middle JSON has an invalid suffix'')) (\<lambda>_.
     and_then (ensure (\<not> ((case jget middle ''schema'' of None \<Rightarrow> False | Some v \<Rightarrow> v \<noteq> jstr ''docvortex.middle'')
                         \<or> (case jget middle ''schema_version'' of None \<Rightarrow> False | Some v \<Rightarrow> v \<noteq> jstr ''2.0'')
                         \<or> jidx middle ''is_full_document'' \<noteq> JBool True
                         \<or> (case jget middle ''extensions'' of None \<Rightarrow> False
                             | Some v \<Rightarrow> (case as_object v of None \<Rightarrow> True | Some m \<Rightarrow> m \<noteq> []))
                         \<or> (case as_array (jidx middle ''pages'') of None \<Rightarrow> True | Some ps \<Rightarrow> length ps \<noteq> 1)
                         \<or> jidx (jnth (jidx middle ''pages'') 0) ''page_idx'' \<noteq> JNumber (PosInt 0)))
                 (invalid ''native CSV middle JSON does not match schema 2.0'')) (\<lambda>_.
     check_keys (jnth (jidx middle ''pages'') 0) [''page_idx'', ''blocks'']))))))"

definition restore_rows :: "bool \<Rightarrow> Value list \<Rightarrow> row list official" where
  "restore_rows cancelled blocks =
     (case blocks of
        [] \<Rightarrow> Ok []
      | [table] \<Rightarrow>
          if jidx table ''type'' \<noteq> jstr ''table'' then Err (invalid ''native CSV document has unsupported blocks'')
          else
            and_then (check_keys table [''type'', ''index'', ''content'']) (\<lambda>_.
            and_then (block_index table) (\<lambda>table_index.
            and_then (ok_or (opt_filter (\<lambda>items. length items = 1) (as_array (jidx table ''content'')))
                        (invalid ''native CSV table body is invalid'')) (\<lambda>content.
            and_then (ensure (jidx (hd content) ''type'' = jstr ''table_body'')
                        (invalid ''native CSV table body is invalid'')) (\<lambda>_.
            and_then (check_keys (hd content) [''type'', ''index'', ''content'']) (\<lambda>_.
            and_then (block_index (hd content)) (\<lambda>body_index.
            and_then (ensure (body_index = table_index)
                        (invalid ''native CSV table body index must match its parent'')) (\<lambda>_.
            and_then (ok_or (as_str (jidx (hd content) ''content''))
                        (invalid ''native CSV table content is missing'')) (\<lambda>markup.
            and_then (ensure (blen markup \<le> TABLE_BUDGET) limit_error) (\<lambda>_.
            parse_table cancelled markup)))))))))
      | _ \<Rightarrow> Err (invalid ''native CSV document has unsupported blocks''))"

definition restore :: "Value \<Rightarrow> (ustr \<times> byte list) list \<Rightarrow> bool \<Rightarrow> OfficialResult official" where
  "restore middle0 assets cancelled =
     and_then (ensure (assets = [] \<and> is_native_middle middle0)
                 (invalid ''native CSV restore requires its own producer and no assets'')) (\<lambda>_.
     let middle = fill_schema middle0 in
     and_then (json_size cancelled middle) (\<lambda>n.
     and_then (ensure (n \<le> RETAINED_RESULT_CAP) limit_error) (\<lambda>_.
     and_then (check_document middle) (\<lambda>_.
     and_then (ok_or (as_array (jidx (jnth (jidx middle ''pages'') 0) ''blocks''))
                 (invalid ''native CSV page blocks are missing'')) (\<lambda>blocks.
     and_then (restore_rows cancelled blocks) (\<lambda>rows.
     let width = row_width rows;
         header = (rows \<noteq> [] \<and>
           (case as_str (jidx (jnth (jidx (jnth (jidx (jnth (jidx middle ''pages'') 0) ''blocks'') 0) ''content'') 0) ''content'') of
              None \<Rightarrow> False | Some html \<Rightarrow> contains (lit ''<th>'') html)) in
     and_then (render_markdown rows width header (Some cancelled) TABLE_BUDGET) (\<lambda>markdown.
     and_then (ensure (blen markdown \<le> MAX_RENDERED) limit_error) (\<lambda>_.
     let result = \<lparr>or_middle = middle, or_model = None, or_markdown = markdown,
                   or_structured = structured_content middle markdown, or_assets = assets,
                   or_warnings = [], or_metadata = csv_metadata\<rparr> in
     if RETAINED_RESULT_CAP < retained_bytes result then Err limit_error else Ok result))))))))"

section \<open>The table reader undoes the renderer\<close>

declare append_text.simps [simp del] table_loop.simps [simp del]

lemma restore_check_False [simp]: "restore_check False = Ok ()"
  by (simp add: restore_check_def)

lemma append_text_Nil [simp]: "append_text cancelled t [] = Ok t"
  by (simp add: append_text.simps)

lemma append_text_plain:
  assumes "c \<noteq> 38"
  shows "append_text cancelled t (c # r) = append_text cancelled (t @ [c]) r"
  using assms
  by (cases "find_char (\<lambda>c. c = 38) r"; subst (1 2) append_text.simps) simp_all

lemma append_text_entity:
  assumes "entity (38 # e @ [59]) = Some c" "59 \<notin> set e"
  shows "append_text False t (38 # e @ 59 # r) = append_text False (t @ [c]) r"
proof -
  have "find_char (\<lambda>c. c = 59) (38 # e @ 59 # r) = Some (length e + 1)"
    using assms(2) by simp
  then show ?thesis using assms(1) by (subst append_text.simps) simp
qed

text \<open>The characters of a normal form, and how their encoding reads back.\<close>

definition normal_text :: "ustr \<Rightarrow> bool" where
  "normal_text v \<longleftrightarrow> list_all (\<lambda>c. c \<noteq> 13 \<and> \<not> disallowed_control c) v"

lemma normal_text_normal: "normal_text (normal v)"
  by (induction v rule: normal.induct) (auto simp: normal_text_def normal_char_def disallowed_control_def)

lemma append_text_enc:
  assumes "ch \<noteq> 13" "ch \<noteq> 10" "\<not> disallowed_control ch"
  shows "append_text False t (html_enc ch @ r) = append_text False (t @ [ch]) r"
proof -
  have e: "append_text False t (html_enc ch @ r) = append_text False (t @ [ch]) r"
    if "html_enc ch = 38 # e @ [59]" "entity (38 # e @ [59]) = Some ch" "59 \<notin> set e" for e
    using append_text_entity [OF that(2,3)] that(1) by simp
  consider "ch = 38" | "ch = 60" | "ch = 62" | "ch = 34" | "ch = 39" | "html_enc ch = [ch]" "ch \<noteq> 38"
    using assms by (cases "ch = 38 \<or> ch = 60 \<or> ch = 62 \<or> ch = 34 \<or> ch = 39")
      (auto simp: html_enc_def html_escape_def)
  then show ?thesis
  proof cases
    case 1 then show ?thesis by (intro e [of "lit ''amp''"]) (simp_all add: html_enc_def html_escape_def entity_def)
  next
    case 2 then show ?thesis by (intro e [of "lit ''lt''"]) (simp_all add: html_enc_def html_escape_def entity_def)
  next
    case 3 then show ?thesis by (intro e [of "lit ''gt''"]) (simp_all add: html_enc_def html_escape_def entity_def)
  next
    case 4 then show ?thesis by (intro e [of "lit ''quot''"]) (simp_all add: html_enc_def html_escape_def entity_def)
  next
    case 5 then show ?thesis by (intro e [of "lit ''#x27''"]) (simp_all add: html_enc_def html_escape_def entity_def)
  next
    case 6 then show ?thesis by (simp add: append_text_plain)
  qed
qed

lemma html_enc_no_tag: "ch \<noteq> 13 \<Longrightarrow> ch \<noteq> 10 \<Longrightarrow> 60 \<notin> set (html_enc ch)"
  by (auto simp: html_enc_def html_escape_def)

text \<open>Without a set flag the number of iterations has no effect.\<close>

lemma table_loop_iterations:
  "table_loop False n rest s = table_loop False m rest s"
proof (induction "length rest" arbitrary: n m rest s rule: less_induct)
  case less
  have "table_loop False (n + 1) (drop (pos + k + 1) rest) s' = table_loop False (m + 1) (drop (pos + k + 1) rest) s'"
    if "rest \<noteq> []" for pos k s'
    by (rule less) (use that in simp)
  then show ?case by (subst (1 2) table_loop.simps) (auto cong: option.case_cong)
qed

abbreviation read_table :: "ustr \<Rightarrow> Table \<Rightarrow> Table official" where
  "read_table rest s \<equiv> table_loop False 0 rest s"

lemma read_table_tag:
  assumes "60 \<notin> set ws" "62 \<notin> set tag"
  shows "read_table (ws @ 60 # tag @ 62 # rest) s =
     and_then (table_chars False ''invalid table whitespace'' ws s) (\<lambda>s.
     and_then (table_tag tag s) (\<lambda>s.
     and_then (table_limits (drop_tag s)) (\<lambda>_. read_table rest (drop_tag s))))"
proof -
  have f: "find_char (\<lambda>c. c = 60) (ws @ 60 # tag @ 62 # rest) = Some (length ws)"
    using assms(1) by simp
  have g: "find_char (\<lambda>c. c = 62) (60 # tag @ 62 # rest) = Some (length tag + 1)"
    using assms(2) by simp
  show ?thesis
    by (subst table_loop.simps) (simp add: f g table_loop_iterations [of "Suc 0" _ _ 0] del: find_char.simps)
qed

text \<open>Text of an open cell is absorbed character by character.\<close>

lemma read_table_char:
  assumes "t_cell s = Some c" "ch \<noteq> 13" "ch \<noteq> 10" "\<not> disallowed_control ch" "60 \<in> set r"
  shows "read_table (html_enc ch @ r) s = read_table r (s\<lparr>t_cell := Some (c @ [ch])\<rparr>)"
proof -
  obtain pos where pos: "find_char (\<lambda>c. c = 60) r = Some pos"
    using assms(5) find_char_None_iff [of "\<lambda>c. c = 60" r] by (cases "find_char (\<lambda>c. c = 60) r") auto
  let ?k = "length (html_enc ch)"
  have f: "find_char (\<lambda>c. c = 60) (html_enc ch @ r) = Some (?k + pos)"
    using html_enc_no_tag [OF assms(2,3)] pos by (subst find_char_append) auto
  have "table_chars False m (html_enc ch @ take pos r) s = table_chars False m (take pos r) (s\<lparr>t_cell := Some (c @ [ch])\<rparr>)" for m
    using assms append_text_enc [OF assms(2-4), of c "take pos r"] by (simp add: table_chars_def)
  moreover have "r \<noteq> []" using assms(5) by auto
  ultimately show ?thesis using f pos
    by (subst (1 2) table_loop.simps) (simp add: table_loop_iterations [of "Suc 0" _ _ 0])
qed

lemma table_limits_cell [simp]: "table_limits (s\<lparr>t_cell := c\<rparr>) = table_limits s"
  by (simp add: table_limits_def)

lemma read_table_body:
  assumes "normal_text w" "t_cell s = Some c" "table_limits s = Ok ()"
  shows "read_table (concat (map html_enc w) @ 60 # r) s = read_table (60 # r) (s\<lparr>t_cell := Some (c @ w)\<rparr>)"
  using assms
proof (induction w arbitrary: s c)
  case Nil
  then show ?case by (cases s) simp
next
  case (Cons ch w)
  let ?s = "s\<lparr>t_cell := Some (c @ [ch])\<rparr>"
  have ih: "read_table (concat (map html_enc w) @ 60 # r) ?s = read_table (60 # r) (?s\<lparr>t_cell := Some ((c @ [ch]) @ w)\<rparr>)"
    using Cons.prems by (intro Cons.IH) (simp_all add: normal_text_def)
  have "read_table (html_enc ch @ concat (map html_enc w) @ 60 # r) s = read_table (concat (map html_enc w) @ 60 # r) ?s"
  proof (cases "ch = 10")
    case True
    have "table_chars False m [] s = Ok s" for m
      using Cons.prems(2) by (cases s) (simp add: table_chars_def)
    then show ?thesis
      using Cons.prems(2,3) read_table_tag [of "[]" "lit ''br''" "concat (map html_enc w) @ 60 # r" s] True
      by (simp add: table_tag_def drop_tag_def)
  next
    case False
    then show ?thesis using Cons.prems by (intro read_table_char) (auto simp: normal_text_def)
  qed
  then show ?case using ih by simp
qed

lemma trim_blanks: "\<forall>c \<in> set ws. c = 10 \<or> c = 32 \<Longrightarrow> trim ws = []"
proof -
  assume "\<forall>c \<in> set ws. c = 10 \<or> c = 32"
  then have "\<forall>c \<in> set ws. is_whitespace c" by (auto simp: is_whitespace_def)
  then show ?thesis by (auto simp: trim_def trim_matches_def dest: set_dropWhileD)
qed

lemma table_chars_blank:
  "t_cell s = None \<Longrightarrow> \<forall>c \<in> set ws. c = 10 \<or> c = 32 \<Longrightarrow> table_chars False m ws s = Ok s"
  by (simp add: table_chars_def trim_blanks)

text \<open>The reader between two cells of an open row.\<close>

definition in_row :: "Table \<Rightarrow> bool" where
  "in_row s \<longleftrightarrow> t_row_open s \<and> t_cell s = None \<and> t_cell_tag s = None \<and> t_open s \<and> \<not> t_closed s"

definition with_cells :: "row \<Rightarrow> Table \<Rightarrow> Table" where
  "with_cells r s = s\<lparr>t_row := t_row s @ r, t_cell_count := t_cell_count s + length r\<rparr>"

lemma in_row_with_cells [simp]: "in_row (with_cells r s) = in_row s"
  by (simp add: in_row_def with_cells_def)

lemma read_table_cell:
  assumes "in_row s" "tag = lit ''td'' \<or> tag = lit ''th''" "length (t_row s) < MAX_COLUMNS"
    and "length (t_rows s) \<le> 1048576" "t_cell_count s < MAX_GRID"
  shows "read_table (html_cell_text tag v @ rest) s = read_table rest (with_cells [normal v] s)"
proof -
  let ?o = "s\<lparr>t_cell := Some [], t_cell_tag := Some tag\<rparr>"
  let ?c = "?o\<lparr>t_cell := Some (normal v)\<rparr>"
  have lim: "table_limits ?o = Ok ()" using assms by (simp add: table_limits_def)
  have tag: "62 \<notin> set tag" "62 \<notin> set (47 # tag)" using assms(2) by auto
  have "read_table (html_cell_text tag v @ rest) s =
      read_table (([10] @ lit ''    '') @ 60 # tag @ 62 # (html_body v @ 60 # (47 # tag) @ 62 # rest)) s"
    by (simp add: html_cell_text_def)
  also have "\<dots> = read_table (html_body v @ 60 # (47 # tag) @ 62 # rest) ?o"
  proof -
    have "table_tag tag s = Ok ?o"
      using assms by (auto simp: table_tag_def in_row_def)
    then show ?thesis using assms(1) lim
      by (subst read_table_tag [OF _ tag(1)]) (simp_all add: table_chars_blank in_row_def drop_tag_def)
  qed
  also have "\<dots> = read_table (60 # (47 # tag) @ 62 # rest) ?c"
    unfolding html_body_def using lim by (subst read_table_body [OF normal_text_normal, where c = "[]"]) simp_all
  also have "\<dots> = read_table rest (with_cells [normal v] s)"
  proof -
    have "table_tag (47 # tag) ?c = Ok (?c\<lparr>t_row := t_row s @ [normal v], t_cell := None, t_cell_count := t_cell_count s + 1\<rparr>)"
      using assms(1,2) by (auto simp: table_tag_def in_row_def close_cell_def)
    moreover have "drop_tag (?c\<lparr>t_row := t_row s @ [normal v], t_cell := None, t_cell_count := t_cell_count s + 1\<rparr>) =
        with_cells [normal v] s"
      using assms(1) by (cases s) (simp add: drop_tag_def with_cells_def in_row_def)
    moreover have "table_limits (with_cells [normal v] s) = Ok ()"
      using assms by (simp add: table_limits_def with_cells_def)
    ultimately show ?thesis
      using read_table_tag [of "[]" "47 # tag" rest ?c, OF _ tag(2)] by (simp add: table_chars_def)
  qed
  finally show ?thesis .
qed

lemma with_cells_with_cells: "with_cells b (with_cells a s) = with_cells (a @ b) s"
  by (simp add: with_cells_def)

lemma read_table_cells:
  assumes "in_row s" "tag = lit ''td'' \<or> tag = lit ''th''" "length (t_row s) + length vs \<le> MAX_COLUMNS"
    and "length (t_rows s) \<le> 1048576" "t_cell_count s + length vs \<le> MAX_GRID"
  shows "read_table (concat (map (html_cell_text tag) vs) @ rest) s = read_table rest (with_cells (map normal vs) s)"
  using assms
proof (induction vs arbitrary: s)
  case Nil
  then show ?case by (simp add: with_cells_def)
next
  case (Cons v vs)
  have "read_table (html_cell_text tag v @ concat (map (html_cell_text tag) vs) @ rest) s =
      read_table (concat (map (html_cell_text tag) vs) @ rest) (with_cells [normal v] s)"
    using Cons.prems by (intro read_table_cell) simp_all
  also have "\<dots> = read_table rest (with_cells (map normal vs) (with_cells [normal v] s))"
    using Cons.prems by (intro Cons.IH) (simp_all, simp_all add: with_cells_def)
  finally show ?case by (simp add: with_cells_with_cells)
qed

text \<open>The reader between two rows.\<close>

definition in_table :: "Table \<Rightarrow> bool" where
  "in_table s \<longleftrightarrow> t_open s \<and> \<not> t_row_open s \<and> t_cell s = None \<and> t_cell_tag s = None \<and> \<not> t_closed s \<and> t_row s = []"

definition pad_row :: "nat \<Rightarrow> row \<Rightarrow> row" where
  "pad_row width row = map (\<lambda>col. normal (cell_at row col)) [0..<width]"

definition with_table_row :: "row \<Rightarrow> Table \<Rightarrow> Table" where
  "with_table_row r s = s\<lparr>t_rows := t_rows s @ [r], t_cell_count := t_cell_count s + length r,
                         t_max_width := max (t_max_width s) (length r)\<rparr>"

lemma length_pad_row [simp]: "length (pad_row width row) = width"
  by (simp add: pad_row_def)

lemma in_table_with_row [simp]: "in_table (with_table_row r s) = in_table s"
  by (simp add: in_table_def with_table_row_def)

lemma drop_tag_id [simp]: "t_cell_tag s = None \<Longrightarrow> drop_tag s = s"
  by (cases s) (simp add: drop_tag_def)

lemma read_table_row:
  assumes "in_table s" "tag = lit ''td'' \<or> tag = lit ''th''" "width \<le> MAX_COLUMNS"
    and "length (t_rows s) < 1048576" "t_cell_count s + width \<le> MAX_GRID"
    and "(length (t_rows s) + 1) * max (t_max_width s) width \<le> MAX_GRID"
  shows "read_table (html_row_text width tag row @ rest) s = read_table rest (with_table_row (pad_row width row) s)"
proof -
  let ?o = "s\<lparr>t_row_open := True, t_row := []\<rparr>"
  let ?c = "with_cells (pad_row width row) ?o"
  let ?cells = "concat (map (html_cell_text tag) (map (cell_at row) [0..<width]))"
  have "read_table (html_row_text width tag row @ rest) s =
      read_table (([10] @ lit ''  '') @ 60 # lit ''tr'' @ 62 # (?cells @ ([10] @ lit ''  '') @ 60 # lit ''/tr'' @ 62 # rest)) s"
    by (simp add: html_row_text_def comp_def)
  also have "\<dots> = read_table (?cells @ ([10] @ lit ''  '') @ 60 # lit ''/tr'' @ 62 # rest) ?o"
  proof -
    have "table_tag (lit ''tr'') s = Ok ?o"
      using assms(1) by (simp add: table_tag_def in_table_def)
    moreover have "table_limits ?o = Ok ()" using assms by (simp add: table_limits_def)
    ultimately show ?thesis using assms(1)
      by (subst read_table_tag) (simp_all add: table_chars_blank in_table_def)
  qed
  also have "\<dots> = read_table (([10] @ lit ''  '') @ 60 # lit ''/tr'' @ 62 # rest) ?c"
    using assms by (subst read_table_cells) (simp_all add: in_row_def in_table_def pad_row_def comp_def)
  also have "\<dots> = read_table rest (with_table_row (pad_row width row) s)"
  proof -
    have "table_tag (lit ''/tr'') ?c = Ok (with_table_row (pad_row width row) s)"
    proof -
      have "sat_mul (length (t_rows s) + 1) (max (t_max_width s) width) \<le> MAX_GRID"
        using assms(6) by (simp only: sat_mul_grid)
      then show ?thesis using assms(1)
        by (cases s) (simp add: table_tag_def in_table_def with_cells_def with_table_row_def)
    qed
    moreover have "table_limits (with_table_row (pad_row width row) s) = Ok ()"
      using assms by (simp add: table_limits_def with_table_row_def)
    moreover have "t_cell ?c = None" "t_cell_tag (with_table_row (pad_row width row) s) = None"
      using assms(1) by (simp_all add: in_table_def with_cells_def with_table_row_def)
    ultimately show ?thesis
      by (subst read_table_tag) (simp_all add: table_chars_blank)
  qed
  finally show ?thesis .
qed

lemma read_table_rows:
  assumes "in_table s" "width \<le> MAX_COLUMNS" "length (t_rows s) + length items \<le> 1048576"
    and "t_cell_count s = length (t_rows s) * width" "t_max_width s \<le> width"
    and "(length (t_rows s) + length items) * width \<le> MAX_GRID"
  shows "\<exists>s'. in_table s' \<and> t_rows s' = t_rows s @ map (pad_row width \<circ> snd) items \<and> table_limits s' = Ok () \<and>
     read_table (concat (map (\<lambda>(index, row). html_row_text width (row_tag header index) row) items) @ rest) s =
     read_table rest s'"
  using assms
proof (induction items arbitrary: s)
  case (Cons item items)
  obtain index row where it: "item = (index, row)" by (cases item)
  let ?s = "with_table_row (pad_row width row) s"
  have tag: "row_tag header index = lit ''td'' \<or> row_tag header index = lit ''th''"
    by (simp add: row_tag_def)
  have le: "(length (t_rows s) + 1) * width \<le> MAX_GRID"
    using Cons.prems(6) by (rule order_trans [rotated]) simp
  have "read_table (html_row_text width (row_tag header index) row @
        concat (map (\<lambda>(index, row). html_row_text width (row_tag header index) row) items) @ rest) s =
      read_table (concat (map (\<lambda>(index, row). html_row_text width (row_tag header index) row) items) @ rest) ?s"
    using Cons.prems le by (intro read_table_row [OF _ tag]) (simp_all add: max_def)
  moreover have "\<exists>s'. in_table s' \<and> t_rows s' = t_rows ?s @ map (pad_row width \<circ> snd) items \<and> table_limits s' = Ok () \<and>
     read_table (concat (map (\<lambda>(index, row). html_row_text width (row_tag header index) row) items) @ rest) ?s =
     read_table rest s'"
  proof (rule Cons.IH)
    show "in_table ?s" using Cons.prems(1) by simp
  qed (use Cons.prems in \<open>simp_all add: with_table_row_def\<close>)
  ultimately show ?case by (simp add: it with_table_row_def comp_def)
qed (auto simp: table_limits_def)

text \<open>The reader gives back the cells of the rendered table, padded and in normal form.\<close>

lemma parse_table_html:
  assumes "width \<le> MAX_COLUMNS" "length rows \<le> 1048576" "length rows * width \<le> MAX_GRID"
  shows "parse_table False (html_text rows width header) = Ok (map (pad_row width) rows)"
proof -
  let ?rows = "concat (map (\<lambda>(index, row). html_row_text width (row_tag header index) row) (enumerate 0 rows))"
  let ?s = "table_start\<lparr>t_open := True\<rparr>"
  have "read_table (html_text rows width header) table_start =
      read_table ([] @ 60 # lit ''table'' @ 62 # (?rows @ [10] @ lit ''</table>'')) table_start"
    by (simp add: html_text_def)
  also have "\<dots> = read_table (?rows @ [10] @ lit ''</table>'') ?s"
    by (subst read_table_tag) (simp_all add: table_chars_def table_tag_def table_start_def table_limits_def trim_def trim_matches_def)
  finally have 1: "read_table (html_text rows width header) table_start = read_table (?rows @ [10] @ lit ''</table>'') ?s" .
  have "\<exists>s'. in_table s' \<and> t_rows s' = t_rows ?s @ map (pad_row width \<circ> snd) (enumerate 0 rows) \<and> table_limits s' = Ok () \<and>
      read_table (?rows @ [10] @ lit ''</table>'') ?s = read_table ([10] @ lit ''</table>'') s'"
    by (rule read_table_rows) (use assms in \<open>simp_all add: in_table_def table_start_def\<close>)
  then obtain s' where s': "in_table s'" "t_rows s' = map (pad_row width) rows" "table_limits s' = Ok ()"
    "read_table (?rows @ [10] @ lit ''</table>'') ?s = read_table ([10] @ lit ''</table>'') s'"
    by (auto simp: table_start_def simp flip: map_map)
  have "read_table ([10] @ 60 # lit ''/table'' @ 62 # []) s' = Ok (s'\<lparr>t_open := False, t_closed := True\<rparr>)"
    using s'(1,3) by (subst read_table_tag)
      (simp_all add: table_chars_blank in_table_def table_tag_def table_limits_def table_loop.simps)
  then show ?thesis using 1 s' assms(1)
    by (simp add: parse_table_def in_table_def list_ex_iff)
qed

section \<open>The size of a document\<close>

lemma sat_add_min: "sat_add (min U64_MAX a) (min U64_MAX b) = min U64_MAX (a + b)"
  by (auto simp: sat_add_def)

lemma sat_add_mono: "min U64_MAX a \<le> x \<Longrightarrow> min U64_MAX b \<le> y \<Longrightarrow> min U64_MAX (a + b) \<le> sat_add x y"
  by (auto simp: sat_add_def)

lemma sat_add_le_MAX: "sat_add a b \<le> U64_MAX"
  by (simp add: sat_add_def)

definition size_of_char :: "uchar \<Rightarrow> nat" where
  "size_of_char ch = (if ch \<in> {34, 92, 10, 13, 9} then 2 else if ch \<le> 0x1F then 6 else len_utf8 ch)"

lemma show_hex_ascii: "c \<in> set (show_hex w n) \<Longrightarrow> c < 0x80"
  by (induction w n rule: show_hex.induct) (auto simp: hex_digit_def)

lemma blen_esc_char:
  "blen (esc_char ch) \<le> size_of_char ch" "ch \<noteq> 8 \<Longrightarrow> ch \<noteq> 12 \<Longrightarrow> blen (esc_char ch) = size_of_char ch"
proof -
  have "blen (show_hex 4 ch) = 4" by (subst ascii_blen) (auto dest: show_hex_ascii)
  then have h: "blen ([92, 117] @ show_hex 4 ch) = 6" by (simp add: len_utf8_def)
  show "blen (esc_char ch) \<le> size_of_char ch"
    using h by (auto simp: esc_char_def size_of_char_def) (auto simp: len_utf8_def)
  show "ch \<noteq> 8 \<Longrightarrow> ch \<noteq> 12 \<Longrightarrow> blen (esc_char ch) = size_of_char ch"
    using h by (auto simp: esc_char_def size_of_char_def) (auto simp: len_utf8_def)
qed

lemma json_string_size_False:
  "json_string_size False v = Ok (min U64_MAX (2 + sum_list (map size_of_char v)))"
proof -
  have "try_for (\<lambda>(i, ch) n.
         and_then (if i mod 8192 = 0 then restore_check False else Ok ()) (\<lambda>_.
           Ok (sat_add n (if ch \<in> {34, 92, 10, 13, 9} then 2 else if ch \<le> 0x1F then 6 else len_utf8 ch))))
       (enumerate k v) (min U64_MAX n) = Ok (min U64_MAX (n + sum_list (map size_of_char v)))" for k n
  proof (induction v arbitrary: k n)
    case (Cons ch v)
    have "sat_add (min U64_MAX n) (size_of_char ch) = min U64_MAX (n + size_of_char ch)"
      by (auto simp: sat_add_def)
    then show ?case using Cons [of "Suc k" "n + size_of_char ch"]
      by (simp add: size_of_char_def add.assoc)
  qed simp
  from this [of 0 2] show ?thesis by (simp add: json_string_size_def U64_MAX_def)
qed

definition no_bf :: "ustr \<Rightarrow> bool" where
  "no_bf v \<longleftrightarrow> 8 \<notin> set v \<and> 12 \<notin> set v"

lemma json_string_len:
  "blen (json_string v) \<le> 2 + sum_list (map size_of_char v)"
  "no_bf v \<Longrightarrow> blen (json_string v) = 2 + sum_list (map size_of_char v)"
proof -
  have "blen (concat (map esc_char v)) \<le> sum_list (map size_of_char v)"
    by (induction v) (auto intro: add_mono blen_esc_char(1))
  then show "blen (json_string v) \<le> 2 + sum_list (map size_of_char v)"
    by (simp add: json_string_def len_utf8_def)
  have "no_bf v \<Longrightarrow> blen (concat (map esc_char v)) = sum_list (map size_of_char v)"
    by (induction v) (auto simp: no_bf_def blen_esc_char(2))
  then show "no_bf v \<Longrightarrow> blen (json_string v) = 2 + sum_list (map size_of_char v)"
    by (simp add: json_string_def len_utf8_def)
qed

text \<open>The size the code computes, without saturation.\<close>

fun size_of :: "Value \<Rightarrow> nat" where
  "size_of JNull = 4"
| "size_of (JBool b) = (if b then 4 else 5)"
| "size_of (JNumber n) = blen (number_text n)"
| "size_of (JString s) = 2 + sum_list (map size_of_char s)"
| "size_of (JArray xs) = 2 + sum_list (map size_of xs) + (length xs - 1)"
| "size_of (JObject m) = 2 + sum_list (map (\<lambda>(k, v). 3 + sum_list (map size_of_char k) + size_of v) m) + (length m - 1)"

fun printable :: "Value \<Rightarrow> bool" where
  "printable (JString s) = no_bf s"
| "printable (JArray xs) = list_all printable xs"
| "printable (JObject m) = list_all (\<lambda>(k, v). no_bf k \<and> printable v) m"
| "printable _ = True"

lemma size_of_le: "blen (to_text v) \<le> size_of v"
proof (induction v rule: size_of.induct)
  case (5 xs)
  then have "sum_list (map (blen \<circ> to_text) xs) \<le> sum_list (map size_of xs)"
    by (intro sum_list_mono) simp
  then show ?case by (simp add: blen_commas comp_def len_utf8_def)
next
  case (6 m)
  have "sum_list (map (\<lambda>x. Suc (blen (json_string (fst x)) + blen (to_text (snd x)))) m) \<le>
        sum_list (map (\<lambda>(k, v). 3 + sum_list (map size_of_char k) + size_of v) m)"
  proof (rule sum_list_mono)
    fix x assume "x \<in> set m"
    then have "blen (to_text (snd x)) \<le> size_of (snd x)" by (intro 6 [OF _ prod.collapse])
    then show "Suc (blen (json_string (fst x)) + blen (to_text (snd x))) \<le>
        (case x of (k, v) \<Rightarrow> 3 + sum_list (map size_of_char k) + size_of v)"
      using json_string_len(1) [of "fst x"] by (simp add: case_prod_beta)
  qed
  then show ?case by (simp add: blen_commas comp_def len_utf8_def case_prod_beta)
qed (auto simp: len_utf8_def json_string_len [simplified])

lemma size_of_printable: "printable v \<Longrightarrow> size_of v = blen (to_text v)"
proof (induction v rule: size_of.induct)
  case (5 xs)
  then have "sum_list (map size_of xs) = sum_list (map (\<lambda>x. blen (to_text x)) xs)"
    by (intro arg_cong [of _ _ sum_list]) (auto simp: list_all_iff)
  then show ?case by (simp add: blen_commas comp_def len_utf8_def)
next
  case (6 m)
  then have "sum_list (map (\<lambda>x. Suc (blen (json_string (fst x)) + blen (to_text (snd x)))) m) =
        sum_list (map (\<lambda>(k, v). 3 + sum_list (map size_of_char k) + size_of v) m)"
    by (intro arg_cong [of _ _ sum_list]) (force simp: list_all_iff json_string_len(2))
  then show ?case by (simp add: blen_commas comp_def len_utf8_def case_prod_beta)
qed (auto simp: len_utf8_def json_string_len [simplified])

text \<open>Equality up to saturation\<close>

definition sat_eq :: "nat \<Rightarrow> nat \<Rightarrow> bool" where
  "sat_eq a b \<longleftrightarrow> min U64_MAX a = min U64_MAX b"

lemma sat_eq_refl [simp]: "sat_eq a a" "sat_eq (min U64_MAX a) a"
  by (simp_all add: sat_eq_def)

lemma sat_eq_add: "sat_eq a b \<Longrightarrow> sat_eq c d \<Longrightarrow> sat_eq (sat_add a c) (b + d)"
  by (auto simp: sat_eq_def sat_add_def min_def split: if_splits)

lemma sat_eq_trans: "sat_eq a b \<Longrightarrow> sat_eq b c \<Longrightarrow> sat_eq a c"
  by (simp add: sat_eq_def)

lemma sat_eq_plus: "sat_eq a b \<Longrightarrow> sat_eq (a + c) (b + c)"
  by (auto simp: sat_eq_def min_def split: if_splits)

lemma json_items_False:
  assumes "\<And>x. x \<in> set xs \<Longrightarrow> \<exists>n. json_size False x = Ok n \<and> sat_eq n (size_of x)"
  shows "\<exists>n'. json_items False i n xs = Ok n' \<and>
           sat_eq n' (n + sum_list (map size_of xs) + (if 0 < i then length xs else length xs - 1))"
  using assms
proof (induction xs arbitrary: i n)
  case (Cons x xs)
  obtain k where k: "json_size False x = Ok k" "sat_eq k (size_of x)" using Cons.prems by auto
  let ?n = "sat_add (if 0 < i then sat_add n 1 else n) k"
  have n: "sat_eq ?n (n + (if 0 < i then 1 else 0) + size_of x)"
    using k(2) sat_eq_add [of n n 1 1] by (intro sat_eq_add) auto
  have "\<exists>n'. json_items False (i + 1) ?n xs = Ok n' \<and>
      sat_eq n' (?n + sum_list (map size_of xs) + (if 0 < i + 1 then length xs else length xs - 1))"
    by (rule Cons.IH) (use Cons.prems in auto)
  then obtain n' where n': "json_items False (i + 1) ?n xs = Ok n'" "sat_eq n' (?n + (sum_list (map size_of xs) + length xs))"
    by (auto simp: add.assoc)
  have "sat_eq n' (n + (if 0 < i then 1 else 0) + size_of x + (sum_list (map size_of xs) + length xs))"
    by (rule sat_eq_trans [OF n'(2) sat_eq_plus [OF n]])
  then show ?case using k(1) n'(1) by (auto simp: ac_simps split: if_splits)
qed simp

lemma json_members_False:
  assumes "\<And>x. x \<in> set m \<Longrightarrow> \<exists>n. json_size False (snd x) = Ok n \<and> sat_eq n (size_of (snd x))"
  shows "\<exists>n'. json_members False i n m = Ok n' \<and>
           sat_eq n' (n + sum_list (map (\<lambda>(k, v). 3 + sum_list (map size_of_char k) + size_of v) m)
             + (if 0 < i then length m else length m - 1))"
  using assms
proof (induction m arbitrary: i n)
  case (Cons x m)
  obtain key v where x: "x = (key, v)" by (cases x)
  obtain k where k: "json_size False v = Ok k" "sat_eq k (size_of v)" using Cons.prems [of x] x by auto
  let ?a = "min U64_MAX (2 + sum_list (map size_of_char key))"
  let ?n = "sat_add (sat_add (sat_add (if 0 < i then sat_add n 1 else n) ?a) 1) k"
  let ?rest = "sum_list (map (\<lambda>(k, v). 3 + sum_list (map size_of_char k) + size_of v) m) + length m"
  have n: "sat_eq ?n (n + (if 0 < i then 1 else 0) + (2 + sum_list (map size_of_char key)) + 1 + size_of v)"
    using k(2) sat_eq_add [of n n 1 1] by (intro sat_eq_add) auto
  have "\<exists>n'. json_members False (i + 1) ?n m = Ok n' \<and>
      sat_eq n' (?n + sum_list (map (\<lambda>(k, v). 3 + sum_list (map size_of_char k) + size_of v) m)
        + (if 0 < i + 1 then length m else length m - 1))"
    by (rule Cons.IH) (use Cons.prems in auto)
  then obtain n' where n': "json_members False (i + 1) ?n m = Ok n'" "sat_eq n' (?n + ?rest)"
    by (auto simp: add.assoc)
  have fin: "sat_eq n' (n + (if 0 < i then 1 else 0) + (2 + sum_list (map size_of_char key)) + 1 + size_of v + ?rest)"
    by (rule sat_eq_trans [OF n'(2) sat_eq_plus [OF n]])
  have e: "json_members False i n (x # m) = Ok n'"
    using k(1) n'(1) by (simp add: x json_string_size_False del: json_size.simps)
  have a: "n + (if 0 < i then 1 else 0) + (2 + sum_list (map size_of_char key)) + 1 + size_of v + ?rest =
      n + sum_list (map (\<lambda>(k, v). 3 + sum_list (map size_of_char k) + size_of v) (x # m))
        + (if 0 < i then length (x # m) else length (x # m) - 1)"
    by (simp add: x)
  show ?case unfolding a [symmetric] using e fin by blast
qed simp

lemma json_size_False: "\<exists>n. json_size False v = Ok n \<and> sat_eq n (size_of v)"
proof (induction v rule: size_of.induct)
  case (5 xs)
  then show ?case using json_items_False [of xs 0 2] by (simp add: ac_simps)
next
  case (6 m)
  have "\<exists>n. json_size False (snd x) = Ok n \<and> sat_eq n (size_of (snd x))" if "x \<in> set m" for x
    by (rule 6 [OF that prod.collapse])
  then show ?case using json_members_False [of m 0 2] by (simp add: ac_simps)
qed (simp_all add: json_string_size_False)

text \<open>
  The size the restorer computes before it accepts a document never understates it: it is at
  least the number of bytes of the compact JSON text (or the largest \<open>usize\<close>), and equals that
  number unless a string contains a backspace or a form feed, which the printer abbreviates.
\<close>

theorem json_size_covers_text:
  "\<exists>n. json_size False v = Ok n \<and> min U64_MAX (blen (to_text v)) \<le> n \<and>
       (printable v \<and> n < U64_MAX \<longrightarrow> n = blen (to_text v))"
proof -
  obtain n where n: "json_size False v = Ok n" "sat_eq n (size_of v)" using json_size_False by blast
  then show ?thesis using size_of_le [of v] size_of_printable [of v]
    by (auto simp: sat_eq_def min_def split: if_splits)
qed

theorem json_size_covers_text_witness:
  "json_size False (JArray [JNull, jstr ''x'']) = Ok 10 \<and> blen (to_text (JArray [JNull, jstr ''x''])) = 10"
proof -
  let ?v = "JArray [JNull, jstr ''x'']"
  have p: "printable ?v" by (simp add: no_bf_def)
  have j: "json_size False ?v = Ok 10"
    by (simp add: json_string_size_def sat_add_def U64_MAX_def len_utf8_def)
  then show ?thesis using json_size_covers_text [of ?v] p by (auto simp: U64_MAX_def)
qed

section \<open>Restoring what the analyser produced\<close>

declare json_size.simps [simp del]

lemma normal_id: "normal_text v \<Longrightarrow> normal v = v"
  by (induction v rule: normal.induct) (auto simp: normal_text_def normal_char_def)

lemma cell_at_pad: "col < width \<Longrightarrow> cell_at (pad_row width row) col = normal (cell_at row col)"
  by (simp add: cell_at_def [of "pad_row width row"]) (simp add: pad_row_def)

lemma md_cell_normal: "md_cell_text (normal v) = md_cell_text v"
  by (simp add: md_cell_text_def normal_id [OF normal_text_normal])

lemma md_line_pad: "md_line width (pad_row width row) = md_line width row"
proof -
  have "map (\<lambda>col. lit '' '' @ md_cell_text (cell_at (pad_row width row) col) @ lit '' |'') [0..<width] =
        map (\<lambda>col. lit '' '' @ md_cell_text (cell_at row col) @ lit '' |'') [0..<width]"
    by (rule map_cong) (simp_all add: cell_at_pad md_cell_normal)
  then show ?thesis by (simp only: md_line_def)
qed

text \<open>Normal forms have the same Markdown.\<close>

lemma md_full_pad: "md_full (map (pad_row width) rows) width = md_full rows width"
proof (cases rows)
  case Nil
  then show ?thesis by simp
next
  case (Cons row rest)
  then show ?thesis by (simp add: md_full_Cons md_line_pad comp_def)
qed

lemma row_width_pad: "rows \<noteq> [] \<Longrightarrow> row_width (map (pad_row width) rows) = width"
proof (induction rows)
  case (Cons r rows)
  then show ?case by (cases rows) simp_all
qed simp

lemma render_markdown_pad:
  assumes "render_markdown rows (row_width rows) h c l = Ok md" "l \<le> L" "L \<le> U64_MAX" "c' \<noteq> Some True"
  shows "render_markdown (map (pad_row (row_width rows)) rows) (row_width (map (pad_row (row_width rows)) rows)) h' c' L = Ok md"
proof (cases "rows = []")
  case True
  then show ?thesis using assms(1) by (simp add: render_markdown_def)
next
  case False
  have "l \<le> U64_MAX" using assms(2,3) by simp
  from render_markdown_Ok [OF this assms(1)] False
  have "md = md_text rows (row_width rows)" "row_width rows \<noteq> 0 \<Longrightarrow> blen (md_full rows (row_width rows)) \<le> L"
    using assms(2) by auto
  then show ?thesis
    using False by (auto simp: render_markdown_eq [OF assms(3,4)] row_width_pad md_full_pad md_text_full)
qed

subsection \<open>The shape of the document\<close>

lemma csv_doc_metadata_eq:
  "csv_doc_metadata suff = JObject [(lit ''file_suffix'', JString suff),
     (lit ''producer'', JObject [(lit ''name'', jstr ''mineru-rs''), (lit ''version'', JString CARGO_PKG_VERSION)])]"
  by (simp add: csv_doc_metadata_def jobject_def)

definition table_block :: "ustr \<Rightarrow> Value" where
  "table_block table =
     JObject [(lit ''content'', JArray [JObject [(lit ''content'', JString table),
                (lit ''index'', JNumber (PosInt 0)), (lit ''type'', jstr ''table_body'')]]),
              (lit ''index'', JNumber (PosInt 0)), (lit ''type'', jstr ''table'')]"

lemma csv_middle_eq:
  "csv_middle suff rows table =
     JObject [(lit ''extensions'', JObject []), (lit ''is_full_document'', JBool True),
              (lit ''metadata'', csv_doc_metadata suff),
              (lit ''pages'', JArray [JObject [(lit ''blocks'', JArray (if rows = [] then [] else [table_block table])),
                 (lit ''page_idx'', JNumber (PosInt 0))]]),
              (lit ''schema'', jstr ''docvortex.middle''), (lit ''schema_version'', jstr ''2.0'')]"
  by (simp add: csv_middle_def jobject_def table_block_def)

lemma csv_middle_native:
  assumes "suff = lit ''csv'' \<or> suff = lit ''tsv''"
  shows "is_native_middle (csv_middle suff rows table)"
  using assms by (auto simp: is_native_middle_def csv_middle_eq csv_doc_metadata_eq jget_def)

lemma fill_schema_middle: "fill_schema (csv_middle suff rows table) = csv_middle suff rows table"
  by (simp add: fill_schema_def csv_middle_eq or_insert_def)

lemma check_document_middle:
  assumes "suff = lit ''csv'' \<or> suff = lit ''tsv''"
  shows "check_document (csv_middle suff rows table) = Ok ()"
  using assms
  by (auto simp: check_document_def csv_middle_eq csv_doc_metadata_eq check_keys_def jidx_def jget_def jnth_def
      CARGO_PKG_VERSION_def)

lemma middle_blocks:
  "as_array (jidx (jnth (jidx (csv_middle suff rows table) ''pages'') 0) ''blocks'') =
     Some (if rows = [] then [] else [table_block table])"
  by (simp add: csv_middle_eq jidx_def jget_def jnth_def)

lemma restore_rows_table:
  assumes "blen table \<le> TABLE_BUDGET"
  shows "restore_rows False [table_block table] = parse_table False table"
  using assms
  by (simp add: restore_rows_def table_block_def check_keys_def jidx_def jget_def block_index_def)

lemma html_enc_no_bf: "\<not> disallowed_control ch \<Longrightarrow> no_bf (html_enc ch)"
  by (auto simp: no_bf_def html_enc_def html_escape_def disallowed_control_def)

lemma no_bf_simps [simp]:
  "no_bf []" "no_bf (c # a) \<longleftrightarrow> c \<noteq> 8 \<and> c \<noteq> 12 \<and> no_bf a" "no_bf (a @ b) \<longleftrightarrow> no_bf a \<and> no_bf b"
  by (auto simp: no_bf_def)

lemma no_bf_concat: "(\<And>x. x \<in> set xs \<Longrightarrow> no_bf x) \<Longrightarrow> no_bf (concat xs)"
  by (auto simp: no_bf_def)

lemma no_bf_body: "no_bf (html_body v)"
  unfolding html_body_def
proof (rule no_bf_concat)
  fix x assume "x \<in> set (map html_enc (normal v))"
  then obtain ch where "x = html_enc ch" "ch \<in> set (normal v)" by auto
  then show "no_bf x" using normal_text_normal [of v] by (auto simp: normal_text_def list_all_iff html_enc_no_bf)
qed

lemma no_bf_html_text: "no_bf (html_text rows width header)"
proof -
  have tag: "no_bf (row_tag header i)" for i by (simp add: row_tag_def)
  have cell: "no_bf (html_cell_text (row_tag header i) v)" for i v
    using tag no_bf_body by (simp add: html_cell_text_def)
  have row: "no_bf (html_row_text width (row_tag header i) r)" for i r
    using cell by (simp add: html_row_text_def) (auto intro!: no_bf_concat)
  show ?thesis using row by (simp add: html_text_def) (auto intro!: no_bf_concat)
qed

lemma printable_middle:
  assumes "suff = lit ''csv'' \<or> suff = lit ''tsv''"
  shows "printable (csv_middle suff rows (html_text rows width header))"
  using assms no_bf_html_text [of rows width header]
  by (auto simp: csv_middle_eq csv_doc_metadata_eq table_block_def CARGO_PKG_VERSION_def no_bf_def)

lemma parse_native_csv_parts:
  assumes "parse_native_csv mt bytes suff cancelled cap = Ok r"
  obtains rows header table markdown budget where
    "suff = lit ''csv'' \<or> suff = lit ''tsv''" "grid_ok MAX_ROWS rows" "budget = min cap MAX_RENDERED div 5"
    "render_html rows (row_width rows) header cancelled budget = Ok table"
    "render_markdown rows (row_width rows) header cancelled budget = Ok markdown"
    "r = \<lparr>or_middle = csv_middle suff rows table, or_model = Some (csv_model suff rows table), or_markdown = markdown,
          or_structured = structured_content (csv_middle suff rows table) markdown,
          or_assets = [], or_warnings = [], or_metadata = csv_metadata\<rparr>"
    "retained_bytes r \<le> cap"
proof -
  from assms obtain parsed where p: "analyze_with_cancel mt bytes suff cancelled cap = Ok parsed"
    and r: "r = \<lparr>or_middle = nc_middle parsed, or_model = Some (nc_model parsed),
                   or_markdown = nc_markdown parsed, or_structured = nc_structured parsed,
                   or_assets = [], or_warnings = [], or_metadata = csv_metadata\<rparr>" "retained_bytes r \<le> cap"
    by (auto simp: parse_native_csv_def Let_def and_then_Ok_iff not_less split: if_splits)
  from p obtain t d rows table markdown where q: "suff = lit ''csv'' \<or> suff = lit ''tsv''"
      "csv_parse t d MAX_ROWS False cancelled = Ok rows"
      "render_html rows (row_width rows) (infer_header mt rows) cancelled (min cap MAX_RENDERED div 5) = Ok table"
      "render_markdown rows (row_width rows) (infer_header mt rows) cancelled (min cap MAX_RENDERED div 5) = Ok markdown"
      "parsed = \<lparr>nc_model = csv_model suff rows table, nc_middle = csv_middle suff rows table, nc_markdown = markdown,
         nc_structured = structured_content (csv_middle suff rows table) markdown\<rparr>"
    by (auto simp: analyze_with_cancel_def Let_def and_then_Ok_iff ensure_Ok_iff case_prod_beta)
  show thesis by (rule that [OF q(1) csv_parse_grid_ok [OF q(2)] refl q(3,4)]) (use q(5) r in simp_all)
qed

lemma grid_ok_width:
  assumes "grid_ok MAX_ROWS rows"
  shows "row_width rows \<le> MAX_COLUMNS" "length rows \<le> 1048576" "length rows * row_width rows \<le> MAX_GRID"
proof -
  have "row_width rs \<le> MAX_COLUMNS" if "list_all (\<lambda>r. r \<noteq> [] \<and> length r \<le> MAX_COLUMNS) rs" for rs
    using that by (induction rs) auto
  then show "row_width rows \<le> MAX_COLUMNS" "length rows \<le> 1048576" "length rows * row_width rows \<le> MAX_GRID"
    using assms by (auto simp: grid_ok_def MAX_ROWS_def)
qed

text \<open>
  C24: Analysing and restoring is a round trip. Every result of the native CSV parser within the
  retained cap is accepted by the restorer when its middle JSON comes back, and the restored
  result has the same middle JSON, Markdown, structured content, assets and metadata; only the
  model output, which the middle JSON does not carry, is absent.
\<close>

theorem restore_parse_native_csv:
  assumes "parse_native_csv mt bytes suff cancelled cap = Ok r" "cap \<le> RETAINED_RESULT_CAP"
  shows "restore (or_middle r) [] False = Ok (r\<lparr>or_model := None\<rparr>)"
proof -
  from assms(1) obtain rows header table markdown budget where
    sfx: "suff = lit ''csv'' \<or> suff = lit ''tsv''" and grid: "grid_ok MAX_ROWS rows" and
    budget: "budget = min cap MAX_RENDERED div 5" and
    html: "render_html rows (row_width rows) header cancelled budget = Ok table" and
    md: "render_markdown rows (row_width rows) header cancelled budget = Ok markdown" and
    r: "r = \<lparr>or_middle = csv_middle suff rows table, or_model = Some (csv_model suff rows table), or_markdown = markdown,
          or_structured = structured_content (csv_middle suff rows table) markdown,
          or_assets = [], or_warnings = [], or_metadata = csv_metadata\<rparr>" and
    cap: "retained_bytes r \<le> cap"
    by (rule parse_native_csv_parts)
  let ?m = "csv_middle suff rows table"
  let ?rows = "map (pad_row (row_width rows)) rows"
  have b: "budget \<le> TABLE_BUDGET" "budget \<le> U64_MAX" "TABLE_BUDGET \<le> U64_MAX" "TABLE_BUDGET \<le> MAX_RENDERED"
    using budget assms(2)
    by (auto simp: TABLE_BUDGET_def RETAINED_RESULT_CAP_def MAX_RENDERED_def U64_MAX_def)
  have table: "table = html_text rows (row_width rows) header" "blen table \<le> TABLE_BUDGET"
    using render_html_Ok [OF b(2) html] b(1) by auto
  have rows: "restore_rows False (if rows = [] then [] else [table_block table]) = Ok ?rows"
    using restore_rows_table [OF table(2)] parse_table_html [OF grid_ok_width [OF grid], of header]
    by (simp add: table(1)) (simp add: restore_rows_def)
  have small: "retained_bytes r \<le> RETAINED_RESULT_CAP" "RETAINED_RESULT_CAP < U64_MAX"
    using cap assms(2) by (simp_all add: RETAINED_RESULT_CAP_def U64_MAX_def)
  have mid: "blen (to_text ?m) \<le> RETAINED_RESULT_CAP" and ret: "retained_bytes (r\<lparr>or_model := None\<rparr>) \<le> RETAINED_RESULT_CAP"
    using small by (auto simp: retained_bytes_sum r)
  obtain n where n: "json_size False ?m = Ok n" "sat_eq n (size_of ?m)" using json_size_False by blast
  have "n \<le> RETAINED_RESULT_CAP"
    using n(2) mid small(2) size_of_printable [OF printable_middle [OF sfx], of rows "row_width rows" header]
    by (auto simp: sat_eq_def table(1) min_def split: if_splits)
  have md': "render_markdown ?rows (row_width ?rows) h (Some False) TABLE_BUDGET = Ok markdown" for h
    by (rule render_markdown_pad [OF md b(1,3)]) simp
  have "blen markdown \<le> MAX_RENDERED" using render_markdown_Ok [OF b(2) md] b(1,4) by (meson order_trans)
  moreover have "r\<lparr>or_model := None\<rparr> = \<lparr>or_middle = ?m, or_model = None, or_markdown = markdown,
                   or_structured = structured_content ?m markdown, or_assets = [],
                   or_warnings = [], or_metadata = csv_metadata\<rparr>" by (simp add: r)
  ultimately show ?thesis
    using n(1) \<open>n \<le> RETAINED_RESULT_CAP\<close> ret md' rows
    by (simp add: restore_def r csv_middle_native [OF sfx] fill_schema_middle check_document_middle [OF sfx] middle_blocks
        Let_def)
qed

theorem restore_parse_native_csv_witness:
  "\<exists>r. parse_native_csv \<lparr>is_match = \<lambda>_ _. False, unicase_eq = (=)\<rparr> (map of_char ''sep=,'' @ [10] @ map of_char ''x'')
         (lit ''csv'') None 10000 = Ok r \<and> restore (or_middle r) [] False = Ok (r\<lparr>or_model := None\<rparr>)"
proof -
  let ?mt = "\<lparr>is_match = \<lambda>_ _. False, unicase_eq = (=)\<rparr> :: Matchers"
  let ?b = "map of_char ''sep=,'' @ [10] @ map of_char ''x'' :: byte list"
  have d: "decode ?b = Ok (lit ''sep=,'' @ [10] @ lit ''x'')"
    by (simp add: decode_def from_utf8_def)
  have dir: "directive (lit ''sep=,'' @ [10] @ lit ''x'') = (lit ''x'', Some 44)"
    by (simp add: directive_def newline_def len_utf8_def to_ascii_lowercase_def delimiters_def eval_nat_numeral)
  have p: "csv_parse (lit ''x'') 44 MAX_ROWS False None = Ok [[lit ''x'']]"
    by (simp add: csv_parse_def parser_start_def parse_loop_Cons parse_char_def parse_end_def parser_ops
        MAX_COLUMNS_def MAX_ROWS_def sat_add_def U64_MAX_def check_grid_def MAX_GRID_def sat_mul_def)
  define html where "html = html_text [[lit ''x'']] 1 False"
  define md where "md = md_text [[lit ''x'']] 1"
  note eval = cell_at_def normal_char_def disallowed_control_def len_utf8_def U64_MAX_def
  have html: "blen html = 46" "sum_list (map size_of_char html) = 50"
    by (simp_all add: html_def html_text_def html_row_text_def html_cell_text_def html_body_def row_tag_def html_enc_def
        html_escape_def size_of_char_def eval)
  have md: "blen (md_full [[lit ''x'']] 1) = 14" "sum_list (map size_of_char md) = 14" "blen md = 13"
    by (simp_all add: md_def md_text_full md_full_Cons md_line_def md_separator_def md_cell_text_def trim_cell_edges_def
        trim_matches_def is_edge_space_def is_whitespace_def md_enc_def md_escape_def size_of_char_def eval)
  have "render_html [[lit ''x'']] 1 False None 2000 = Ok html"
    using html(1) by (subst render_html_eq) (simp_all add: html_def U64_MAX_def)
  moreover have "render_markdown [[lit ''x'']] 1 False None 2000 = Ok md"
    using md(1) by (simp add: render_markdown_eq md_def U64_MAX_def)
  ultimately have a: "analyze_with_cancel ?mt ?b (lit ''csv'') None 10000 =
      Ok \<lparr>nc_model = csv_model (lit ''csv'') [[lit ''x'']] html, nc_middle = csv_middle (lit ''csv'') [[lit ''x'']] html,
          nc_markdown = md, nc_structured = structured_content (csv_middle (lit ''csv'') [[lit ''x'']] html) md\<rparr>"
    using d dir p
    by (simp add: analyze_with_cancel_def CSV_MAX_BYTES_def check_cancel_def infer_header_def MAX_COLUMNS_def
        MAX_GRID_def MAX_RENDERED_def sat_mul_def U64_MAX_def Let_def)
  have "size_of (csv_middle (lit ''csv'') [[lit ''x'']] html) \<le> 1000"
    "size_of (structured_content (csv_middle (lit ''csv'') [[lit ''x'']] html) md) \<le> 1000"
    "size_of (csv_model (lit ''csv'') [[lit ''x'']] html) \<le> 1000"
    using html md
    by (simp_all add: csv_middle_eq csv_doc_metadata_eq table_block_def CARGO_PKG_VERSION_def structured_content_def
        csv_model_def jobject_def map_remove_def size_of_char_def len_utf8_def show_nat.simps [of 0])
  note sizes = order_trans [OF size_of_le this(1)] order_trans [OF size_of_le this(2)] order_trans [OF size_of_le this(3)]
  have "is_ok (parse_native_csv ?mt ?b (lit ''csv'') None 10000)"
    using a sizes md(3) by (simp add: parse_native_csv_def retained_bytes_sum Let_def CSV_MAX_BYTES_def)
  then obtain r where r: "parse_native_csv ?mt ?b (lit ''csv'') None 10000 = Ok r"
    by (auto simp: is_ok_iff)
  then show ?thesis using restore_parse_native_csv [OF r] by (auto simp: RETAINED_RESULT_CAP_def)
qed

section \<open>Errors of the restorer\<close>

text \<open>A step that fails only as announced: bad input, a limit, or a set flag.\<close>

definition announced :: "'a official \<Rightarrow> bool" where
  "announced r \<longleftrightarrow> (\<forall>e. r = Err e \<longrightarrow> oe_kind e \<in> {InvalidInput, LimitExceeded, Cancelled})"

named_theorems announced_intros \<open>steps that fail only as announced\<close>

lemma announced_Ok [announced_intros, simp]: "announced (Ok x)"
  by (simp add: announced_def)

lemma announced_Err [simp]: "announced (Err e) \<longleftrightarrow> oe_kind e \<in> {InvalidInput, LimitExceeded, Cancelled}"
  by (simp add: announced_def)

lemma announced_ensure [announced_intros]:
  "oe_kind e \<in> {InvalidInput, LimitExceeded, Cancelled} \<Longrightarrow> announced (ensure b e)"
  by (cases b) (simp_all add: announced_def)

lemma announced_ok_or [announced_intros]:
  "oe_kind e \<in> {InvalidInput, LimitExceeded, Cancelled} \<Longrightarrow> announced (ok_or v e)"
  by (cases v) (simp_all add: announced_def)

lemma announced_then [announced_intros]:
  "announced r \<Longrightarrow> (\<And>x. r = Ok x \<Longrightarrow> announced (f x)) \<Longrightarrow> announced (and_then r f)"
  by (cases r) simp_all

lemma error_kinds [simp]:
  "oe_kind limit_error = LimitExceeded" "oe_kind budget_error = LimitExceeded" "oe_kind csv_cancelled = Cancelled"
  by (simp_all add: limit_error_def budget_error_def csv_cancelled_def)

lemma announced_check [announced_intros]: "announced (restore_check cancelled)"
  by (simp add: restore_check_def announced_ensure)

lemma announced_append_text [announced_intros]: "announced (append_text cancelled t r)"
proof (induction cancelled t r rule: append_text.induct)
  case (1 cancelled t r)
  then show ?case
    by (subst append_text.simps) (auto intro!: announced_intros split: option.split)
qed

text \<open>An open tag always has its cell.\<close>

definition tag_has_cell :: "Table \<Rightarrow> bool" where
  "tag_has_cell s \<longleftrightarrow> (t_cell_tag s \<noteq> None \<longrightarrow> t_cell s \<noteq> None)"

lemma tag_has_cell_chars:
  "tag_has_cell s \<Longrightarrow> table_chars cancelled m ws s = Ok s' \<Longrightarrow> tag_has_cell s'"
  by (auto simp: table_chars_def tag_has_cell_def and_then_Ok_iff split: option.splits if_splits)

lemma tag_has_cell_drop: "tag_has_cell (drop_tag s)"
  by (auto simp: tag_has_cell_def drop_tag_def)

lemma announced_tag: "tag_has_cell s \<Longrightarrow> announced (table_tag tag s)"
  by (auto simp: table_tag_def close_cell_def tag_has_cell_def Let_def split: option.splits)

lemma announced_chars [announced_intros]: "announced (table_chars cancelled m ws s)"
  by (auto simp: table_chars_def intro!: announced_intros split: option.split)

lemma announced_limits [announced_intros]: "announced (table_limits s)"
  by (simp add: table_limits_def announced_ensure)

lemma announced_loop: "tag_has_cell s \<Longrightarrow> announced (table_loop cancelled n rest s)"
proof (induction cancelled n rest s rule: table_loop.induct)
  case (1 cancelled n rest s)
  show ?case
    by (subst table_loop.simps)
       (auto simp del: One_nat_def intro!: announced_intros announced_tag "1.IH" tag_has_cell_drop
         dest: tag_has_cell_chars [OF "1.prems"] split: option.split)
qed

lemma announced_parse_table [announced_intros]: "announced (parse_table cancelled html)"
  unfolding parse_table_def
  by (intro announced_intros announced_loop) (auto simp: tag_has_cell_def table_start_def)

lemma announced_try_for:
  "(\<And>x s. announced (f x s)) \<Longrightarrow> announced (try_for f xs s)"
  by (induction xs arbitrary: s) (auto intro: announced_intros)

lemma announced_emits:
  assumes "emits c limit t f"
  shows "announced (f [])"
  using assms unfolding emits_def by (auto simp: announced_def dest!: spec [of _ "[]"] split: if_splits)

lemma announced_markdown:
  assumes "limit \<le> U64_MAX"
  shows "announced (render_markdown rows width header cancelled limit)"
  using announced_emits [OF emits_md_full [OF assms, of cancelled rows width]]
  by (auto simp: render_markdown_alt intro!: announced_intros)

lemma announced_json_string_size [announced_intros]: "announced (json_string_size cancelled s)"
  unfolding json_string_size_def by (rule announced_try_for) (auto intro!: announced_intros)

lemma announced_json:
  "announced (json_size cancelled v)" "announced (json_items cancelled i n xs)" "announced (json_members cancelled i n m)"
proof (induction cancelled v and cancelled i n xs and cancelled i n m rule: json_size_json_items_json_members.induct)
  case (1 cancelled v)
  then show ?case by (subst json_size.simps) (auto intro!: announced_intros split: Value.split)
qed (auto intro!: announced_intros)

lemma announced_document [announced_intros]:
  "announced (check_keys v ks)" "announced (block_index v)" "announced (check_document v)"
  by (auto simp: check_keys_def block_index_def check_document_def intro!: announced_intros)

lemma announced_rows [announced_intros]: "announced (restore_rows cancelled blocks)"
  by (auto simp: restore_rows_def intro!: announced_intros split: list.split)

text \<open>
  Restoring a document never fails in an unannounced way. Whatever JSON value and assets come
  in and whatever the flag, an error is invalid input, an exceeded limit or the cancellation; in
  particular the \<open>unwrap\<close> calls of the table reader always find their cell.
\<close>

theorem restore_errors:
  assumes "restore middle assets cancelled = Err e"
  shows "oe_kind e \<in> {InvalidInput, LimitExceeded, Cancelled} \<and> e \<noteq> panicked"
proof -
  have "TABLE_BUDGET \<le> U64_MAX" by (simp add: TABLE_BUDGET_def MAX_RENDERED_def RETAINED_RESULT_CAP_def U64_MAX_def)
  then have "announced (restore middle assets cancelled)"
    unfolding restore_def Let_def by (auto intro!: announced_intros announced_json announced_markdown)
  then show ?thesis using assms by (auto simp: announced_def panicked_def)
qed

theorem restore_errors_witness:
  "restore JNull [] False = Err (invalid ''native CSV restore requires its own producer and no assets'') \<and>
   oe_kind (invalid ''native CSV restore requires its own producer and no assets'') \<in> {InvalidInput, LimitExceeded, Cancelled}"
proof -
  have e: "restore JNull [] False = Err (invalid ''native CSV restore requires its own producer and no assets'')"
    by (simp add: restore_def is_native_middle_def jget_def ensure_def)
  show ?thesis using e restore_errors [OF e] by simp
qed

end
