(* ===== verification/Wire.thy ===== *)
theory Wire
  imports Text
begin

text \<open>
  \<^verbatim>\<open>src/official_api/wire.rs\<close>: the data of the parse API and the validation of requests. JSON
  decoding is done by the serialization library; a request is the decoded record. Static strings are HOL
  strings, texts that come from a client are lists of Unicode scalar values; \<open>u64\<close>, \<open>u32\<close> and \<open>u16\<close>
  fields are natural numbers, their bound written out where the code depends on it.
\<close>

section \<open>Constants and data\<close>

definition INLINE_MAX_BYTES :: nat where "INLINE_MAX_BYTES = 1048576"
definition UPLOAD_MAX_BYTES :: nat where "UPLOAD_MAX_BYTES = 16777216"

definition OUTPUT_FORMATS :: "string list" where
  "OUTPUT_FORMATS = [''markdown'', ''middle_json'', ''structured_content'', ''zip'']"

definition SOURCES :: "string list" where
  "SOURCES = [''file_id'', ''inline'']"

datatype Anchor = CreatedAt

record ExpiresAfter =
  ea_anchor :: Anchor
  ea_seconds :: nat

definition default_expiry :: nat where "default_expiry = 3600"

definition parse_purpose :: ustr where "parse_purpose = lit ''parse''"

record UploadCreate =
  uc_filename :: ustr
  uc_bytes :: nat
  uc_mime_type :: ustr
  uc_purpose :: ustr
  uc_sha256sum :: "ustr option"
  uc_expires_after :: "ExpiresAfter option"

record FileObject =
  fo_id :: ustr
  fo_bytes :: nat
  fo_created_at :: int
  fo_expires_at :: "int option"
  fo_filename :: ustr
  fo_purpose :: ustr
  fo_sha256sum :: "ustr option"

record UploadResponse =
  ur_id :: ustr
  ur_bytes :: nat
  ur_created_at :: int
  ur_expires_at :: int
  ur_filename :: ustr
  ur_purpose :: ustr
  ur_mime_type :: ustr
  ur_sha256sum :: "ustr option"
  ur_status :: string
  ur_upload_url :: "ustr option"
  ur_upload_method :: "string option"
  ur_upload_headers :: "(string \<times> ustr) list"
  ur_file :: "FileObject option"

datatype OutputFormat = Markdown | MiddleJson | StructuredContent | Zip

datatype Tier = Flash | Basic | Standard | Advanced

datatype OcrMode = Auto | Txt | Ocr

datatype JobSource = SrcFileId ustr | SrcInline ustr ustr

record JobFile =
  jf_source :: JobSource
  jf_page_range :: "ustr option"

record JobCreate =
  jc_files :: "JobFile list"
  jc_tier :: "Tier option"
  jc_ocr_mode :: OcrMode
  jc_output_formats :: "OutputFormat list"

definition default_outputs :: "OutputFormat list" where
  "default_outputs = [Markdown]"

datatype ListOrder = Asc | Desc

record Pagination =
  pg_after :: "ustr option"
  pg_limit :: "nat option"
  pg_order :: "ListOrder option"

record 'a ListResponse =
  lr_data :: "'a list"
  lr_first_id :: "ustr option"
  lr_last_id :: "ustr option"
  lr_has_more :: bool

section \<open>Errors\<close>

record WireError =
  we_status :: nat
  we_code :: string
  we_message :: string
  we_param :: "string option"

type_synonym 'a wired = "('a, WireError) result"

definition bad :: "string \<Rightarrow> string \<Rightarrow> WireError" where
  "bad param message =
     \<lparr>we_status = 400, we_code = ''invalid_request_error'', we_message = message, we_param = Some param\<rparr>"

definition too_large :: WireError where
  "too_large =
     \<lparr>we_status = 413, we_code = ''file_too_large'', we_message = ''The request exceeds the allowed size.'',
      we_param = None\<rparr>"

record ApiErrorBody =
  ae_type :: string
  ae_code :: string
  ae_message :: string
  ae_param :: "string option"

definition into_response :: "WireError \<Rightarrow> nat \<times> ApiErrorBody" where
  "into_response e =
     (we_status e, \<lparr>ae_type = ''invalid_request_error'', ae_code = we_code e, ae_message = we_message e,
                     ae_param = we_param e\<rparr>)"

section \<open>Validation\<close>

definition validate_hash :: "ustr \<Rightarrow> unit wired" where
  "validate_hash hash =
     (if blen hash \<noteq> 64 \<or> \<not> list_all (\<lambda>b. is_ascii_digit b \<or> 97 \<le> b \<and> b \<le> 102) (str_bytes hash)
      then Err (bad ''sha256sum'' ''Expected a lowercase SHA-256 hex digest.'')
      else Ok ())"

definition validate_upload :: "UploadCreate \<Rightarrow> unit wired" where
  "validate_upload r =
     (if trim (uc_filename r) = [] \<or> blen (uc_filename r) > 255
      then Err (bad ''filename'' ''A valid filename is required.'')
      else if trim (uc_mime_type r) = [] \<or> blen (uc_mime_type r) > 255
      then Err (bad ''mime_type'' ''A valid MIME type is required.'')
      else if uc_bytes r = 0 then Err (bad ''bytes'' ''Bytes must be positive.'')
      else if uc_bytes r > UPLOAD_MAX_BYTES then Err too_large
      else if uc_purpose r \<noteq> lit ''parse'' \<and> uc_purpose r \<noteq> lit ''input_image''
      then Err (bad ''purpose'' ''Unsupported upload purpose.'')
      else and_then (case uc_sha256sum r of Some hash \<Rightarrow> validate_hash hash | None \<Rightarrow> Ok ()) (\<lambda>_.
           case uc_expires_after r of
             Some expiry \<Rightarrow>
               if ea_anchor expiry \<noteq> CreatedAt \<or> \<not> (3600 \<le> ea_seconds expiry \<and> ea_seconds expiry \<le> 2592000)
               then Err (bad ''expires_after'' ''Unsupported upload expiry.'')
               else Ok ()
           | None \<Rightarrow> Ok ()))"

definition bad_range :: WireError where
  "bad_range = bad ''page_range'' ''Invalid page range.''"

text \<open>\<open>str::parse::<u32>\<close> on a text of decimal digits.\<close>

definition parse_u32 :: "ustr \<Rightarrow> nat option" where
  "parse_u32 ds = (if digits_val ds < 2 ^ 32 then Some (digits_val ds) else None)"

definition page_endpoint :: "ustr \<Rightarrow> (bool \<times> nat) wired" where
  "page_endpoint s =
     (let (relative, digits) = (case strip_prefix [114] s of None \<Rightarrow> (False, s) | Some v \<Rightarrow> (True, v))
      in if digits = [] \<or> prefix [48] digits \<or> \<not> list_all is_ascii_digit (str_bytes digits)
         then Err bad_range
         else and_then (ok_or (parse_u32 digits) bad_range) (\<lambda>n. Ok (relative, n)))"

fun invalid_order :: "bool \<Rightarrow> bool \<Rightarrow> nat \<Rightarrow> nat \<Rightarrow> bool" where
  "invalid_order True True start fin = (start < fin)"
| "invalid_order False False start fin = (start > fin)"
| "invalid_order _ _ start fin = False"

definition validate_part :: "ustr \<Rightarrow> unit wired" where
  "validate_part part =
     (let endpoints = map trim (split_on 45 part)
      in if endpoints = [] \<or> length endpoints > 2 then Err bad_range
         else and_then (page_endpoint (endpoints ! 0)) (\<lambda>(start_relative, start).
              if length endpoints > 1
              then and_then (page_endpoint (endpoints ! 1)) (\<lambda>(relative, fin).
                   if invalid_order start_relative relative start fin then Err bad_range else Ok ())
              else Ok ()))"

fun validate_parts :: "ustr list \<Rightarrow> unit wired" where
  "validate_parts [] = Ok ()"
| "validate_parts (part # parts) = and_then (validate_part part) (\<lambda>_. validate_parts parts)"

definition validate_page_range :: "ustr \<Rightarrow> unit wired" where
  "validate_page_range s =
     (let s = trim s in
      if s = [] \<or> s = lit ''all'' then Ok () else validate_parts (split_on 44 s))"

text \<open>The number of \<open>=\<close> at the end of a text.\<close>

definition padding :: "ustr \<Rightarrow> nat" where
  "padding bytes = length (takeWhile (\<lambda>b. b = 61) (rev bytes))"

definition validate_inline_base64 :: "ustr \<Rightarrow> unit wired" where
  "validate_inline_base64 data =
     (if blen data > (INLINE_MAX_BYTES + 2) div 3 * 4 then Err too_large
      else let bytes = str_bytes data; pad = padding bytes in
        if length bytes mod 4 \<noteq> 0 \<or> pad > 2 \<or>
           list_ex (\<lambda>b. \<not> is_ascii_alphanumeric b \<and> b \<noteq> 43 \<and> b \<noteq> 47) (take (length bytes - pad) bytes) \<or>
           list_ex (\<lambda>b. b \<noteq> 61) (drop (length bytes - pad) bytes) \<or>
           length bytes div 4 * 3 - pad > INLINE_MAX_BYTES
        then Err (bad ''data'' ''Expected valid bounded base64 data.'')
        else Ok ())"

definition pagination_validate :: "Pagination \<Rightarrow> nat \<Rightarrow> nat \<Rightarrow> nat wired" where
  "pagination_validate p dflt maximum =
     (let limit = (case pg_limit p of Some l \<Rightarrow> l | None \<Rightarrow> dflt)
      in if limit = 0 \<or> limit > maximum then Err (bad ''limit'' ''Pagination limit is out of range.'')
         else Ok limit)"

fun validate_job_file :: "JobFile \<Rightarrow> unit wired" where
  "validate_job_file f =
     and_then (case jf_page_range f of Some rng \<Rightarrow> validate_page_range rng | None \<Rightarrow> Ok ()) (\<lambda>_.
     case jf_source f of
       SrcFileId file_id \<Rightarrow>
         if trim file_id = [] then Err (bad ''file_id'' ''A file identifier is required.'') else Ok ()
     | SrcInline nm data \<Rightarrow>
         if trim nm = [] \<or> blen nm > 255 then Err (bad ''name'' ''A valid filename is required.'')
         else validate_inline_base64 data)"

fun validate_job_files :: "JobFile list \<Rightarrow> unit wired" where
  "validate_job_files [] = Ok ()"
| "validate_job_files (f # fs) = and_then (validate_job_file f) (\<lambda>_. validate_job_files fs)"

definition validate_job_create :: "JobCreate \<Rightarrow> unit wired" where
  "validate_job_create r =
     (if jc_files r = [] \<or> length (jc_files r) > 100
      then Err (bad ''files'' ''Expected between 1 and 100 files.'')
      else if jc_output_formats r = []
      then Err (bad ''output_formats'' ''At least one output format is required.'')
      else if \<not> distinct (jc_output_formats r)
      then Err (bad ''output_formats'' ''Output formats must be unique.'')
      else validate_job_files (jc_files r))"

section \<open>Page ranges\<close>

text \<open>
  The grammar of a page range: endpoints counted from the start or, with \<open>r\<close>, from the end, written in
  decimal without leading zeros.
\<close>

datatype endpoint = FromStart nat | FromEnd nat

fun show_endpoint :: "endpoint \<Rightarrow> ustr" where
  "show_endpoint (FromStart n) = show_nat n"
| "show_endpoint (FromEnd n) = 114 # show_nat n"

fun endpoint_ok :: "endpoint \<Rightarrow> bool" where
  "endpoint_ok (FromStart n) \<longleftrightarrow> 0 < n \<and> n < 2 ^ 32"
| "endpoint_ok (FromEnd n) \<longleftrightarrow> 0 < n \<and> n < 2 ^ 32"

text \<open>\<open>a\<close> is not behind \<open>b\<close> when both count from the same end.\<close>

fun ordered :: "endpoint \<Rightarrow> endpoint \<Rightarrow> bool" where
  "ordered (FromStart a) (FromStart b) \<longleftrightarrow> a \<le> b"
| "ordered (FromEnd a) (FromEnd b) \<longleftrightarrow> b \<le> a"
| "ordered _ _ \<longleftrightarrow> True"

definition part_spec :: "ustr \<Rightarrow> bool" where
  "part_spec part \<longleftrightarrow>
     (\<exists>e. endpoint_ok e \<and> trim part = show_endpoint e) \<or>
     (\<exists>e1 e2 a b. endpoint_ok e1 \<and> endpoint_ok e2 \<and> ordered e1 e2 \<and> part = a @ [45] @ b \<and>
        trim a = show_endpoint e1 \<and> trim b = show_endpoint e2)"

lemma digits_below: "is_ascii_digit b \<Longrightarrow> b < 0x80"
  by (simp add: is_ascii_digit_def)

lemma digits_canonical:
  "ds \<noteq> [] \<and> \<not> prefix [48] ds \<and> list_all is_ascii_digit (str_bytes ds) \<longleftrightarrow>
     (\<exists>n > 0. ds = show_nat n)"
  (is "?l = ?r")
proof
  assume l: ?l
  then have a: "list_all is_ascii_digit ds" "hd ds \<noteq> 48"
    using list_all_str_bytes [of is_ascii_digit ds] digits_below by (auto simp: neq_Nil_conv)
  then show ?r using l digits_val_pos [of ds] show_nat_digits_val [of ds] by metis
next
  assume ?r
  then obtain n where n: "0 < n" "ds = show_nat n" by blast
  have "list_all is_ascii_digit ds" using show_nat_digits n by (auto simp: list_all_iff)
  moreover have "\<not> prefix [48] ds" using show_nat_hd [OF n(1)] n(2) by (auto simp: prefix_def)
  ultimately show ?l using n list_all_str_bytes [of is_ascii_digit ds] digits_below by auto
qed

definition endpoint_of :: "bool \<Rightarrow> nat \<Rightarrow> endpoint" where
  "endpoint_of relative n = (if relative then FromEnd n else FromStart n)"

lemma ex_endpoint: "(\<exists>e. P e) \<longleftrightarrow> (\<exists>relative n. P (endpoint_of relative n))"
proof
  assume "\<exists>e. P e"
  then obtain e where "P e" ..
  then show "\<exists>relative n. P (endpoint_of relative n)"
    by (cases e) (auto simp: endpoint_of_def intro: exI [of _ True] exI [of _ False])
qed blast

lemma ordered_endpoint_of: "ordered (endpoint_of r1 a) (endpoint_of r2 b) \<longleftrightarrow> \<not> invalid_order r1 r2 a b"
  by (cases r1; cases r2) (auto simp: endpoint_of_def)

lemma page_endpoint_Ok_iff:
  "page_endpoint s = Ok (relative, n) \<longleftrightarrow>
     endpoint_ok (endpoint_of relative n) \<and> s = show_endpoint (endpoint_of relative n)"
proof -
  have d: "(\<not> (ds = [] \<or> prefix [48] ds \<or> \<not> list_all is_ascii_digit (str_bytes ds)) \<and> parse_u32 ds = Some n) \<longleftrightarrow>
      0 < n \<and> n < 2 ^ 32 \<and> ds = show_nat n" for ds
    using digits_canonical [of ds] by (auto simp: parse_u32_def digits_val_show_nat)
  have r: "show_nat n \<noteq> 114 # v" for v
    using show_nat_digits [of 114 n] by (auto simp: is_ascii_digit_def)
  show ?thesis
  proof (cases "strip_prefix [114] s")
    case None
    then have "page_endpoint s = Ok (relative, n) \<longleftrightarrow> \<not> relative \<and> 0 < n \<and> n < 2 ^ 32 \<and> s = show_nat n"
      using d [of s] by (auto simp: page_endpoint_def result_simps)
    then show ?thesis using None by (auto simp: endpoint_of_def strip_prefix_def split: if_splits)
  next
    case (Some v)
    then have "page_endpoint s = Ok (relative, n) \<longleftrightarrow> relative \<and> 0 < n \<and> n < 2 ^ 32 \<and> v = show_nat n"
      using d [of v] by (auto simp: page_endpoint_def result_simps)
    moreover have "s = 114 # v" using Some by (auto simp: strip_prefix_def prefix_def split: if_splits)
    ultimately show ?thesis using r [of v] r [of v, symmetric] by (auto simp: endpoint_of_def)
  qed
qed

lemma split_on_single_iff: "split_on x s = [a] \<longleftrightarrow> s = a \<and> x \<notin> set a"
proof (induction s arbitrary: a)
  case (Cons c s)
  obtain h t where ht: "split_on x s = h # t" using split_by_not_Nil by (cases "split_on x s") auto
  then have "t = [] \<and> h = b \<longleftrightarrow> s = b \<and> x \<notin> set b" for b using Cons.IH [of b] by auto
  then show ?case using ht by (cases a) auto
qed auto

lemma split_on_two_iff: "split_on x s = [a, b] \<longleftrightarrow> s = a @ [x] @ b \<and> x \<notin> set a \<and> x \<notin> set b"
proof (induction s arbitrary: a)
  case (Cons c s)
  show ?case
  proof (cases "c = x")
    case True
    then show ?thesis using split_on_single_iff [of x s b] by (cases a) auto
  next
    case False
    obtain h t where ht: "split_on x s = h # t" using split_by_not_Nil by (cases "split_on x s") auto
    then have "h = a' \<and> t = [b] \<longleftrightarrow> s = a' @ [x] @ b \<and> x \<notin> set a' \<and> x \<notin> set b" for a'
      using Cons.IH [of a'] by auto
    then show ?thesis using False ht by (cases a) auto
  qed
qed simp

lemma set_dropWhile_keep: "c \<in> set s \<Longrightarrow> \<not> p c \<Longrightarrow> c \<in> set (dropWhile p s)"
  by (metis Un_iff set_append set_takeWhileD takeWhile_dropWhile_id)

lemma trim_keeps: "c \<in> set s \<Longrightarrow> \<not> is_whitespace c \<Longrightarrow> c \<in> set (trim s)"
  by (simp add: trim_def trim_matches_def set_dropWhile_keep)

lemma show_endpoint_chars: "c \<in> set (show_endpoint e) \<Longrightarrow> is_ascii_digit c \<or> c = 114"
  by (cases e) (auto dest: show_nat_digits)

lemma no_dash: "trim a = show_endpoint e \<Longrightarrow> 45 \<notin> set a"
  using trim_keeps [of 45 a] show_endpoint_chars [of 45 e]
  by (auto simp: is_whitespace_def is_ascii_digit_def)

lemma validate_part_Ok_iff: "validate_part part = Ok () \<longleftrightarrow> part_spec part"
proof -
  consider (one) a where "split_on 45 part = [a]" | (two) a b where "split_on 45 part = [a, b]"
    | (more) "length (split_on 45 part) > 2"
  proof (cases "split_on 45 part")
    case (Cons a l)
    then show ?thesis using one two more by (cases l; cases "tl l") auto
  qed simp
  then show ?thesis
  proof cases
    case one
    then have p: "part = a" "45 \<notin> set a" by (simp_all add: split_on_single_iff)
    have "validate_part part = Ok () \<longleftrightarrow> (\<exists>r n. page_endpoint (trim a) = Ok (r, n))"
      by (auto simp: validate_part_def one result_simps split: prod.splits)
    also have "\<dots> \<longleftrightarrow> (\<exists>e. endpoint_ok e \<and> trim part = show_endpoint e)"
      by (simp only: page_endpoint_Ok_iff ex_endpoint p)
    finally show ?thesis using p by (auto simp: part_spec_def)
  next
    case two
    then have p: "part = a @ [45] @ b" "45 \<notin> set a" "45 \<notin> set b"
      using split_on_two_iff [of 45 part a b, THEN iffD1] by blast+
    have uniq: "a' = a \<and> b' = b" if "part = a' @ [45] @ b'" "45 \<notin> set a'" "45 \<notin> set b'" for a' b'
    proof -
      have "split_on 45 part = [a', b']" using that by (intro split_on_two_iff [THEN iffD2]) blast
      then show ?thesis using two by simp
    qed
    have "validate_part part = Ok () \<longleftrightarrow>
        (\<exists>r1 n1. page_endpoint (trim a) = Ok (r1, n1) \<and>
          (\<exists>r2 n2. page_endpoint (trim b) = Ok (r2, n2) \<and> \<not> invalid_order r1 r2 n1 n2))"
      by (auto simp: validate_part_def two and_then_Ok_iff split: prod.splits if_splits)
    also have "\<dots> \<longleftrightarrow> (\<exists>e1 e2. endpoint_ok e1 \<and> endpoint_ok e2 \<and> ordered e1 e2 \<and>
        trim a = show_endpoint e1 \<and> trim b = show_endpoint e2)"
      unfolding page_endpoint_Ok_iff ordered_endpoint_of [symmetric] ex_endpoint by blast
    also have "\<dots> \<longleftrightarrow> part_spec part"
    proof
      assume "part_spec part"
      moreover have "trim part \<noteq> show_endpoint e" for e using no_dash [of part e] p(1) by auto
      ultimately obtain e1 e2 a' b' where e: "endpoint_ok e1" "endpoint_ok e2" "ordered e1 e2"
        "part = a' @ [45] @ b'" "trim a' = show_endpoint e1" "trim b' = show_endpoint e2"
        unfolding part_spec_def by blast
      then show "\<exists>e1 e2. endpoint_ok e1 \<and> endpoint_ok e2 \<and> ordered e1 e2 \<and>
          trim a = show_endpoint e1 \<and> trim b = show_endpoint e2"
        using uniq [OF e(4) no_dash [OF e(5)] no_dash [OF e(6)]] by blast
    qed (unfold part_spec_def, use p(1) in blast)
    finally show ?thesis .
  next
    case more
    then have "validate_part part \<noteq> Ok ()" by (simp add: validate_part_def)
    moreover have "\<not> part_spec part"
    proof
      assume "part_spec part"
      then consider (1) e where "trim part = show_endpoint e" | (2) a b e1 e2 where "part = a @ [45] @ b"
        "trim a = show_endpoint e1" "trim b = show_endpoint e2" by (auto simp: part_spec_def)
      then show False
      proof cases
        case 1 then show ?thesis using split_on_single [OF no_dash] more by fastforce
      next
        case 2
        then have "split_on 45 part = [a, b]" using no_dash by (auto simp: split_on_two_iff)
        then show ?thesis using more by simp
      qed
    qed
    ultimately show ?thesis by blast
  qed
qed

lemma validate_parts_Ok_iff: "validate_parts ps = Ok () \<longleftrightarrow> (\<forall>p \<in> set ps. part_spec p)"
  by (induction ps) (auto simp: and_then_Ok_iff validate_part_Ok_iff)

section \<open>Base64\<close>

lemma padding_split:
  "padding s \<le> length s" "drop (length s - padding s) s = replicate (padding s) 61"
proof -
  let ?t = "takeWhile (\<lambda>b. b = 61) (rev s)"
  show le: "padding s \<le> length s" unfolding padding_def by (metis length_rev length_takeWhile_le)
  have "?t = replicate (length ?t) 61"
    by (rule replicate_length_same [symmetric]) (auto dest: set_takeWhileD)
  moreover have "?t = take (padding s) (rev s)" unfolding padding_def by (rule takeWhile_eq_take)
  then have "rev ?t = drop (length s - padding s) s" by (simp add: take_rev)
  ultimately show "drop (length s - padding s) s = replicate (padding s) 61"
    unfolding padding_def by (metis rev_replicate)
qed

lemma padding_append:
  assumes "b = [] \<or> last b \<noteq> 61"
  shows "padding (b @ replicate k 61) = k"
proof -
  have "takeWhile (\<lambda>b. b = 61) (replicate k 61 @ rev b) = replicate k 61 @ takeWhile (\<lambda>b. b = 61) (rev b)"
    by (rule takeWhile_append2) simp
  moreover have "takeWhile (\<lambda>b. b = 61) (rev b) = []"
    using assms by (cases b rule: rev_cases) auto
  ultimately show ?thesis by (simp add: padding_def)
qed

definition base64_char :: "uchar \<Rightarrow> bool" where
  "base64_char b \<longleftrightarrow> is_ascii_alphanumeric b \<or> b = 43 \<or> b = 47"

text \<open>Padded base64 text: whole quanta of alphabet characters, the last one padded with at most two \<open>=\<close>.\<close>

definition base64_text :: "ustr \<Rightarrow> nat \<Rightarrow> bool" where
  "base64_text data k \<longleftrightarrow> (\<exists>body. data = body @ replicate k 61 \<and> list_all base64_char body \<and>
     k \<le> 2 \<and> length data mod 4 = 0)"

lemma base64_char_simps: "base64_char b \<Longrightarrow> b < 0x80 \<and> b \<noteq> 61"
  by (auto simp: base64_char_def is_ascii_alphanumeric_def is_ascii_digit_def)

lemma base64_text_ascii: "base64_text data k \<Longrightarrow> str_bytes data = data"
  using base64_char_simps by (intro str_bytes_ascii_id) (auto simp: base64_text_def list_all_iff)

lemma base64_text_padding: "base64_text data k \<Longrightarrow> padding data = k"
proof -
  assume "base64_text data k"
  then obtain body where b: "data = body @ replicate k 61" "list_all base64_char body"
    by (auto simp: base64_text_def)
  have "body = [] \<or> last body \<noteq> 61" using b(2) base64_char_simps by (auto simp: list_all_iff)
  then show ?thesis using padding_append b(1) by simp
qed

lemma str_bytes_base64:
  assumes "list_all (\<lambda>b. base64_char b \<or> b = 61) (str_bytes s)"
  shows "str_bytes s = s"
proof -
  have "list_all (\<lambda>b. base64_char b \<or> b = 61) s"
    using assms by (subst (asm) list_all_str_bytes) (auto dest: base64_char_simps)
  then show ?thesis using base64_char_simps by (intro str_bytes_ascii_id) (auto simp: list_all_iff)
qed

lemma validate_inline_base64_Ok_iff:
  "validate_inline_base64 data = Ok () \<longleftrightarrow>
     (\<exists>k. base64_text data k \<and> length data div 4 * 3 - k \<le> INLINE_MAX_BYTES)"
  (is "?l \<longleftrightarrow> ?r")
proof
  assume ?l
  let ?b = "str_bytes data" and ?k = "padding (str_bytes data)"
  have h: "length ?b mod 4 = 0" "?k \<le> 2"
    "list_all base64_char (take (length ?b - ?k) ?b)" "length ?b div 4 * 3 - ?k \<le> INLINE_MAX_BYTES"
    using \<open>?l\<close> by (auto simp: validate_inline_base64_def Let_def list_ex_iff list_all_iff base64_char_def not_less
        split: if_splits)
  have e: "?b = take (length ?b - ?k) ?b @ replicate ?k 61"
    using padding_split(2) [of ?b] append_take_drop_id [of "length ?b - ?k" ?b] by simp
  have "list_all (\<lambda>b. base64_char b \<or> b = 61) ?b"
    using h(3) by (subst e) (auto simp: list_all_iff)
  then have id: "str_bytes data = data" by (rule str_bytes_base64)
  have "base64_text data ?k" unfolding base64_text_def using h e id by metis
  then show ?r using h(4) id by metis
next
  assume ?r
  then obtain k where k: "base64_text data k" "length data div 4 * 3 - k \<le> INLINE_MAX_BYTES" by blast
  note id = base64_text_ascii [OF k(1)] and pad = base64_text_padding [OF k(1)]
  obtain body where body: "data = body @ replicate k 61" "list_all base64_char body" "k \<le> 2" "length data mod 4 = 0"
    using k(1) by (auto simp: base64_text_def)
  have len: "blen data = length data" using length_str_bytes [of data] id by simp
  have t: "take (length data - k) data = body" "drop (length data - k) data = replicate k 61"
    using body(1) by simp_all
  have "length data \<le> (INLINE_MAX_BYTES + 2) div 3 * 4"
  proof -
    obtain m where m: "length data = 4 * m" using body(4) by (auto elim: dvdE simp: mod_eq_0_iff_dvd)
    then have "3 * m \<le> 1048576 + 2" using k(2) body(3) by (simp add: INLINE_MAX_BYTES_def)
    then show ?thesis using m by (simp add: INLINE_MAX_BYTES_def)
  qed
  then show ?l
    using body(2,3,4) k(2)
    by (simp add: validate_inline_base64_def Let_def id pad len t list_ex_iff list_all_iff base64_char_def)
qed

section \<open>Properties\<close>

text \<open>
  C23: a page range is accepted exactly when, trimmed, it is empty, \<open>all\<close>, or a comma-separated list in which
  every part is one endpoint or two endpoints joined by a dash, each a decimal number between 1 and
  \<open>u32::MAX\<close> without leading zeros (from the end with \<open>r\<close>), not in descending page order.
\<close>

theorem validate_page_range_spec:
  "validate_page_range v = Ok () \<longleftrightarrow>
     trim v = [] \<or> trim v = lit ''all'' \<or> list_all part_spec (split_on 44 (trim v))"
  by (simp add: validate_page_range_def Let_def validate_parts_Ok_iff list_all_iff)

text \<open>
  Inline data is accepted exactly when it is padded base64 of whole quanta over the standard alphabet whose
  decoded size, three bytes per quantum less the padding, is at most one MiB; the encoded-length bound never
  refuses such data.
\<close>

theorem validate_inline_base64_spec:
  "validate_inline_base64 data = Ok () \<longleftrightarrow>
     (\<exists>k. base64_text data k \<and> length data div 4 * 3 - k \<le> INLINE_MAX_BYTES)"
  by (rule validate_inline_base64_Ok_iff)

lemma validate_upload_Ok:
  assumes "validate_upload r = Ok ()"
  shows "0 < uc_bytes r \<and> uc_bytes r \<le> UPLOAD_MAX_BYTES"
  using assms by (auto simp: validate_upload_def split: if_splits)

end
