(* ===== verification/Store.thy ===== *)
theory Store
  imports Wire "HOL-Library.AList"
begin

text \<open>
  \<^verbatim>\<open>src/official_api/server/store.rs\<close>: the in-memory store of uploads and files and the three capacity
  pools it charges. The atomics are counters of the state; each \<open>fetch_update\<close>, \<open>fetch_sub\<close> and critical
  section is one transition. \<open>Arc\<close>s are addresses into a list of reservation cells with their reference
  counts: cloning and dropping a handle counts up and down, and the last drop runs the \<open>Drop\<close> code. A
  \<open>Bytes\<close> value made by \<open>charged\<close> keeps its reservation alive, so every clone of it counts as a reference to
  the reservation. \<open>fetch_sub\<close> wraps around at 64 bits. The weak reference of a reservation to the store
  always upgrades here: the store outlives its handles in the server.
\<close>

section \<open>Data\<close>

definition INPUT_CAP :: nat where "INPUT_CAP = 256 * 1024 * 1024"
definition ARTIFACT_CAP :: nat where "ARTIFACT_CAP = 256 * 1024 * 1024"
definition META_CAP :: nat where "META_CAP = 1024"

record Reservation =
  r_size :: nat
  r_artifact :: bool
  r_refs :: nat

record MetadataReservation =
  m_count :: nat
  m_refs :: nat

record Bytes =
  b_data :: "byte list"
  b_res :: nat

record Upload =
  up_request :: UploadCreate
  up_created :: int
  up_expires :: int
  up_bytes :: "Bytes option"
  up_reservation :: "nat option"
  up_metadata :: nat
  up_file_id :: "ustr option"
  up_uploading :: bool

record File =
  f_object :: FileObject
  f_bytes :: Bytes
  f_source :: bool
  f_metadata :: "nat option"

datatype Entry = EUpload Upload | EFile File

record Inner =
  entries :: "(ustr \<times> Entry) list"
  used :: nat
  artifact_used :: nat
  meta_used :: nat
  ids :: nat
  accepting :: bool
  resv :: "Reservation list"
  metas :: "MetadataReservation list"

record TransportLimits =
  tl_file :: nat
  tl_body :: nat
  tl_zip :: nat

record StoreConfig =
  retention :: nat
  limits :: TransportLimits
  max_concurrent :: nat

section \<open>Reservations\<close>

definition wrap_sub :: "nat \<Rightarrow> nat \<Rightarrow> nat" where
  "wrap_sub a b = (if b \<le> a then a - b else a + 2 ^ 64 - b)"

definition pool_sub :: "bool \<Rightarrow> nat \<Rightarrow> Inner \<Rightarrow> Inner" where
  "pool_sub artifact n s =
     (if artifact then s\<lparr>artifact_used := wrap_sub (artifact_used s) n\<rparr>
      else s\<lparr>used := wrap_sub (used s) n\<rparr>)"

definition arc_clone :: "nat \<Rightarrow> Inner \<Rightarrow> Inner" where
  "arc_clone a s = s\<lparr>resv := (resv s)[a := (resv s ! a)\<lparr>r_refs := r_refs (resv s ! a) + 1\<rparr>]\<rparr>"

text \<open>Dropping an \<open>Arc<Reservation>\<close>; the last one runs \<open>Reservation::drop\<close>.\<close>

definition arc_drop :: "nat \<Rightarrow> Inner \<Rightarrow> Inner" where
  "arc_drop a s =
     (let r = resv s ! a; s' = s\<lparr>resv := (resv s)[a := r\<lparr>r_refs := r_refs r - 1\<rparr>]\<rparr>
      in if r_refs r = 1 then pool_sub (r_artifact r) (r_size r) s' else s')"

definition res_split :: "nat \<Rightarrow> nat \<Rightarrow> Inner \<Rightarrow> nat option \<times> Inner" where
  "res_split bytes a s =
     (let r = resv s ! a in
      case csub (r_size r) bytes of
        None \<Rightarrow> (None, s)
      | Some rest \<Rightarrow>
          (Some (length (resv s)),
           s\<lparr>resv := (resv s)[a := r\<lparr>r_size := rest\<rparr>] @
                [\<lparr>r_size = bytes, r_artifact = r_artifact r, r_refs = 1\<rparr>]\<rparr>))"

definition res_shrink_to :: "nat \<Rightarrow> nat \<Rightarrow> Inner \<Rightarrow> Inner" where
  "res_shrink_to sz a s =
     (let r = resv s ! a; s' = s\<lparr>resv := (resv s)[a := r\<lparr>r_size := sz\<rparr>]\<rparr>
      in if sz < r_size r then pool_sub (r_artifact r) (r_size r - sz) s' else s')"

definition meta_clone :: "nat \<Rightarrow> Inner \<Rightarrow> Inner" where
  "meta_clone a s = s\<lparr>metas := (metas s)[a := (metas s ! a)\<lparr>m_refs := m_refs (metas s ! a) + 1\<rparr>]\<rparr>"

definition meta_sub :: "nat \<Rightarrow> Inner \<Rightarrow> Inner" where
  "meta_sub n s = s\<lparr>meta_used := wrap_sub (meta_used s) n\<rparr>"

definition meta_drop :: "nat \<Rightarrow> Inner \<Rightarrow> Inner" where
  "meta_drop a s =
     (let r = metas s ! a; s' = s\<lparr>metas := (metas s)[a := r\<lparr>m_refs := m_refs r - 1\<rparr>]\<rparr>
      in if m_refs r = 1 then meta_sub (m_count r) s' else s')"

definition meta_split :: "nat \<Rightarrow> Inner \<Rightarrow> nat option \<times> Inner" where
  "meta_split a s =
     (let r = metas s ! a in
      case csub (m_count r) 1 of
        None \<Rightarrow> (None, s)
      | Some rest \<Rightarrow>
          (Some (length (metas s)),
           s\<lparr>metas := (metas s)[a := r\<lparr>m_count := rest\<rparr>] @ [\<lparr>m_count = 1, m_refs = 1\<rparr>]\<rparr>))"

definition meta_shrink_to :: "nat \<Rightarrow> nat \<Rightarrow> Inner \<Rightarrow> Inner" where
  "meta_shrink_to n a s =
     (let r = metas s ! a; s' = s\<lparr>metas := (metas s)[a := r\<lparr>m_count := n\<rparr>]\<rparr>
      in if n < m_count r then meta_sub (m_count r - n) s' else s')"

section \<open>The store\<close>

definition new_inner :: Inner where
  "new_inner = \<lparr>entries = [], used = 0, artifact_used = 0, meta_used = 0, ids = 1, accepting = True,
     resv = [], metas = []\<rparr>"

definition store_new :: "nat \<Rightarrow> nat \<Rightarrow> (StoreConfig \<times> Inner, string) result" where
  "store_new permits retain =
     (if retain < 3600 then Err ''official file retention must be at least one hour''
      else Ok (\<lparr>retention = retain,
                limits = \<lparr>tl_file = 16777216, tl_body = 16777216, tl_zip = 64 * 1024 * 1024\<rparr>,
                max_concurrent = permits\<rparr>, new_inner))"

definition with_transport_limits :: "nat \<Rightarrow> nat \<Rightarrow> nat \<Rightarrow> StoreConfig \<Rightarrow> StoreConfig" where
  "with_transport_limits file_cap0 body_cap0 zip_cap0 c =
     c\<lparr>limits := \<lparr>tl_file = min (tl_file (limits c)) file_cap0, tl_body = min (tl_body (limits c)) body_cap0,
                 tl_zip = min (tl_zip (limits c)) zip_cap0\<rparr>\<rparr>"

definition file_cap :: "StoreConfig \<Rightarrow> nat" where "file_cap c = tl_file (limits c)"
definition body_cap :: "StoreConfig \<Rightarrow> nat" where "body_cap c = tl_body (limits c)"
definition zip_cap :: "StoreConfig \<Rightarrow> nat" where "zip_cap c = tl_zip (limits c)"

definition ingest_body_cap :: "StoreConfig \<Rightarrow> nat" where
  "ingest_body_cap c = min (body_cap c) INPUT_CAP"

definition retain_for :: "StoreConfig \<Rightarrow> nat \<Rightarrow> bool" where
  "retain_for c seconds \<longleftrightarrow> seconds \<le> retention c"

definition ingest_concurrency :: "StoreConfig \<Rightarrow> nat" where
  "ingest_concurrency c = max (min (max_concurrent c) (INPUT_CAP div max (ingest_body_cap c) 1)) 1"

definition next_id :: "string \<Rightarrow> Inner \<Rightarrow> ustr \<times> Inner" where
  "next_id pre s = (lit pre @ [95] @ show_hex 16 (ids s), s\<lparr>ids := (ids s + 1) mod 2 ^ 64\<rparr>)"

definition reserve :: "nat \<Rightarrow> Inner \<Rightarrow> bool \<times> Inner" where
  "reserve bytes s =
     (case opt_filter (\<lambda>v. v \<le> INPUT_CAP) (cadd (used s) bytes) of
        None \<Rightarrow> (False, s)
      | Some v \<Rightarrow> (True, s\<lparr>used := v\<rparr>))"

definition input_reservation :: "nat \<Rightarrow> Inner \<Rightarrow> nat option \<times> Inner" where
  "input_reservation bytes s =
     (case reserve bytes s of
        (False, s) \<Rightarrow> (None, s)
      | (True, s) \<Rightarrow> (Some (length (resv s)),
           s\<lparr>resv := resv s @ [\<lparr>r_size = bytes, r_artifact = False, r_refs = 1\<rparr>]\<rparr>))"

definition artifact_budget :: "nat \<Rightarrow> Inner \<Rightarrow> nat option \<times> Inner" where
  "artifact_budget bytes s =
     (case opt_filter (\<lambda>v. v \<le> ARTIFACT_CAP) (cadd (artifact_used s) bytes) of
        None \<Rightarrow> (None, s)
      | Some v \<Rightarrow> (Some (length (resv s)),
           s\<lparr>artifact_used := v, resv := resv s @ [\<lparr>r_size = bytes, r_artifact = True, r_refs = 1\<rparr>]\<rparr>))"

definition reserve_metadata :: "nat \<Rightarrow> Inner \<Rightarrow> nat option \<times> Inner" where
  "reserve_metadata n s =
     (case opt_filter (\<lambda>v. v \<le> META_CAP) (cadd (meta_used s) n) of
        None \<Rightarrow> (None, s)
      | Some v \<Rightarrow> (Some (length (metas s)),
           s\<lparr>meta_used := v, metas := metas s @ [\<lparr>m_count = n, m_refs = 1\<rparr>]\<rparr>))"

definition charged :: "byte list \<Rightarrow> nat \<Rightarrow> Bytes" where
  "charged data a = \<lparr>b_data = data, b_res = a\<rparr>"

text \<open>The handles an entry owns, and dropping or inserting an entry.\<close>

fun entry_res :: "Entry \<Rightarrow> nat list" where
  "entry_res (EUpload u) =
     (case up_bytes u of Some b \<Rightarrow> [b_res b] | None \<Rightarrow> []) @
     (case up_reservation u of Some a \<Rightarrow> [a] | None \<Rightarrow> [])"
| "entry_res (EFile f) = [b_res (f_bytes f)]"

fun entry_meta :: "Entry \<Rightarrow> nat list" where
  "entry_meta (EUpload u) = [up_metadata u]"
| "entry_meta (EFile f) = (case f_metadata f of Some a \<Rightarrow> [a] | None \<Rightarrow> [])"

definition drop_entry :: "Entry \<Rightarrow> Inner \<Rightarrow> Inner" where
  "drop_entry e s = fold meta_drop (entry_meta e) (fold arc_drop (entry_res e) s)"

definition remove_entry :: "ustr \<Rightarrow> Inner \<Rightarrow> Inner" where
  "remove_entry k s = s\<lparr>entries := AList.delete k (entries s)\<rparr>"

definition insert_entry :: "ustr \<Rightarrow> Entry \<Rightarrow> Inner \<Rightarrow> Inner" where
  "insert_entry k e s =
     (let s' = s\<lparr>entries := AList.update k e (entries s)\<rparr>
      in case map_of (entries s) k of None \<Rightarrow> s' | Some old \<Rightarrow> drop_entry old s')"

definition lookup :: "ustr \<Rightarrow> Inner \<Rightarrow> Entry option" where
  "lookup k s = map_of (entries s) k"

fun is_none_or :: "('a \<Rightarrow> bool) \<Rightarrow> 'a option \<Rightarrow> bool" where
  "is_none_or p None = True"
| "is_none_or p (Some x) = p x"

definition store_file :: "ustr \<Rightarrow> int \<Rightarrow> Inner \<Rightarrow> FileObject option" where
  "store_file k now s =
     (case lookup k s of
        Some (EFile f) \<Rightarrow>
          if is_none_or (\<lambda>expiry. expiry > now) (fo_expires_at (f_object f)) then Some (f_object f) else None
      | _ \<Rightarrow> None)"

definition input_lease :: "ustr \<Rightarrow> int \<Rightarrow> Inner \<Rightarrow> (FileObject \<times> Bytes) option \<times> Inner" where
  "input_lease k now s =
     (case lookup k s of
        Some (EFile f) \<Rightarrow>
          if f_source f \<and> is_none_or (\<lambda>expiry. expiry > now) (fo_expires_at (f_object f))
          then (Some (f_object f, f_bytes f), arc_clone (b_res (f_bytes f)) s)
          else (None, s)
      | _ \<Rightarrow> (None, s))"

definition clear_retained :: "Inner \<Rightarrow> Inner" where
  "clear_retained s = fold (\<lambda>(_, e). drop_entry e) (entries s) (s\<lparr>entries := []\<rparr>)"

definition stop_admissions :: "Inner \<Rightarrow> Inner" where
  "stop_admissions s = s\<lparr>accepting := False\<rparr>"

fun expired :: "int \<Rightarrow> Entry \<Rightarrow> bool" where
  "expired now (EUpload u) \<longleftrightarrow> up_expires u \<le> now"
| "expired now (EFile f) \<longleftrightarrow> (case fo_expires_at (f_object f) of Some t \<Rightarrow> t \<le> now | None \<Rightarrow> False)"

definition cleanup_expired :: "int \<Rightarrow> Inner \<Rightarrow> Inner" where
  "cleanup_expired now s =
     (let removed = filter (\<lambda>(_, e). expired now e) (entries s);
          s' = fold (\<lambda>(k, _). remove_entry k) removed s
      in fold (\<lambda>(_, e). drop_entry e) removed s')"

section \<open>Publishing artifacts\<close>

definition PER_FILE_CAP :: nat where "PER_FILE_CAP = 64 * 1024 * 1024"

fun batch_total :: "(FileObject \<times> byte list) list \<Rightarrow> nat \<Rightarrow> nat option" where
  "batch_total [] n = Some n"
| "batch_total ((_, v) # files) n =
     (case opt_filter (\<lambda>_. length v \<le> PER_FILE_CAP) (cadd n (length v)) of
        None \<Rightarrow> None
      | Some n' \<Rightarrow> batch_total files n')"

fun charge_files :: "(FileObject \<times> byte list) list \<Rightarrow> nat \<Rightarrow> nat \<Rightarrow> (FileObject \<times> Bytes \<times> nat) list \<Rightarrow> Inner \<Rightarrow>
    (unit, string) result \<times> (FileObject \<times> Bytes \<times> nat) list \<times> Inner" where
  "charge_files [] metadata reservation acc s = (Ok (), acc, s)"
| "charge_files ((object, data) # files) metadata reservation acc s =
     (case res_split (length data) reservation s of
        (None, s) \<Rightarrow> (Err ''artifact reservation exhausted'', acc, s)
      | (Some r, s) \<Rightarrow>
          (case meta_split metadata s of
             (None, s) \<Rightarrow> (Err ''metadata capacity exhausted'', acc, arc_drop r s)
           | (Some m, s) \<Rightarrow> charge_files files metadata reservation (acc @ [(object, charged data r, m)]) s))"

definition drop_charged :: "(FileObject \<times> Bytes \<times> nat) list \<Rightarrow> Inner \<Rightarrow> Inner" where
  "drop_charged = fold (\<lambda>(_, b, m) s. meta_drop m (arc_drop (b_res b) s))"

definition insert_artifacts :: "(FileObject \<times> Bytes \<times> nat) list \<Rightarrow> Inner \<Rightarrow> Inner" where
  "insert_artifacts = fold (\<lambda>(object, b, m).
     insert_entry (fo_id object)
       (EFile \<lparr>f_object = object, f_bytes = b, f_source = False, f_metadata = Some m\<rparr>))"

text \<open>The two handles are arguments by value: they are dropped when the function returns.\<close>

definition publish_artifact_batch :: "(FileObject \<times> byte list) list \<Rightarrow> nat \<Rightarrow> nat \<Rightarrow> Inner \<Rightarrow>
    (unit, string) result \<times> Inner" where
  "publish_artifact_batch files metadata reservation s =
     (let finish = (\<lambda>(r, s). (r, meta_drop metadata (arc_drop reservation s))) in
      finish
        (case batch_total files 0 of
           None \<Rightarrow> (Err ''artifact exceeds per-file/job limit'', s)
         | Some tot \<Rightarrow>
             if tot > r_size (resv s ! reservation) then (Err ''artifact reservation exhausted'', s)
             else if sat_add (length (entries s)) (length files) > META_CAP
             then (Err ''metadata capacity exhausted'', s)
             else if list_ex (\<lambda>(f, _). lookup (fo_id f) s \<noteq> None) files
             then (Err ''artifact identifier conflict'', s)
             else (case charge_files files metadata reservation [] s of
                     (Err e, acc, s) \<Rightarrow> (Err e, drop_charged acc s)
                   | (Ok _, acc, s) \<Rightarrow> (Ok (), insert_artifacts acc s))))"

section \<open>The contract of a capacity pool\<close>

text \<open>
  A pool is a counter and a heap of reference-counted cells; \<open>mine\<close> selects the cells charged to this
  counter. The laws say what the operations do to one cell and to the counter, wrap-around included. From
  them: as long as the reference counts are those of the handles \<open>R\<close> that exist, the counter is the sum of
  the live cells, is never above the cap and never wraps.
\<close>

lemma sum_list_map_update:
  "a < length xs \<Longrightarrow> sum_list (map f (xs[a := c])) + f (xs ! a) = sum_list (map f xs) + (f c :: nat)"
proof (induction xs arbitrary: a)
  case (Cons x xs)
  then show ?case by (cases a) simp_all
qed simp

lemma member_le_sum_list_map: "a < length xs \<Longrightarrow> f (xs ! a) \<le> (sum_list (map f xs) :: nat)"
  using member_le_sum_list [of "f (xs ! a)" "map f xs"] by simp

locale arc_pool =
  fixes counter :: "'s \<Rightarrow> nat" and cells :: "'s \<Rightarrow> 'c list" and amount :: "'c \<Rightarrow> nat" and refs :: "'c \<Rightarrow> nat"
    and mine :: "'c \<Rightarrow> bool" and cap :: nat
    and acquire :: "nat \<Rightarrow> 's \<Rightarrow> nat option \<times> 's" and clone :: "nat \<Rightarrow> 's \<Rightarrow> 's" and release :: "nat \<Rightarrow> 's \<Rightarrow> 's"
    and split :: "nat \<Rightarrow> nat \<Rightarrow> 's \<Rightarrow> nat option \<times> 's" and shrink :: "nat \<Rightarrow> nat \<Rightarrow> 's \<Rightarrow> 's"
  assumes acquire_Some: "acquire n s = (Some a, s') \<Longrightarrow>
      a = length (cells s) \<and> counter s' = counter s + n \<and> counter s' \<le> cap \<and>
      (\<exists>c. cells s' = cells s @ [c] \<and> amount c = n \<and> refs c = 1 \<and> mine c)"
    and acquire_None: "acquire n s = (None, s') \<Longrightarrow> s' = s \<and> cap < counter s + n"
    and clone_law: "a < length (cells s) \<Longrightarrow> counter (clone a s) = counter s \<and>
      (\<exists>c. cells (clone a s) = (cells s)[a := c] \<and> amount c = amount (cells s ! a) \<and>
           refs c = refs (cells s ! a) + 1 \<and> (mine c \<longleftrightarrow> mine (cells s ! a)))"
    and release_law: "a < length (cells s) \<Longrightarrow>
      counter (release a s) =
        (if mine (cells s ! a) \<and> refs (cells s ! a) = 1 then wrap_sub (counter s) (amount (cells s ! a)) else counter s) \<and>
      (\<exists>c. cells (release a s) = (cells s)[a := c] \<and> amount c = amount (cells s ! a) \<and>
           refs c = refs (cells s ! a) - 1 \<and> (mine c \<longleftrightarrow> mine (cells s ! a)))"
    and split_Some: "a < length (cells s) \<Longrightarrow> split n a s = (Some b, s') \<Longrightarrow>
      b = length (cells s) \<and> counter s' = counter s \<and>
      (\<exists>c d. cells s' = (cells s)[a := c] @ [d] \<and> amount c + amount d = amount (cells s ! a) \<and>
           refs c = refs (cells s ! a) \<and> refs d = 1 \<and>
           (mine c \<longleftrightarrow> mine (cells s ! a)) \<and> (mine d \<longleftrightarrow> mine (cells s ! a)))"
    and split_None: "split n a s = (None, s') \<Longrightarrow> s' = s"
    and shrink_law: "a < length (cells s) \<Longrightarrow> n \<le> amount (cells s ! a) \<Longrightarrow>
      counter (shrink n a s) =
        (if mine (cells s ! a) then wrap_sub (counter s) (amount (cells s ! a) - n) else counter s) \<and>
      (\<exists>c. cells (shrink n a s) = (cells s)[a := c] \<and> amount c = n \<and>
           refs c = refs (cells s ! a) \<and> (mine c \<longleftrightarrow> mine (cells s ! a)))"
begin

definition charge :: "'c \<Rightarrow> nat" where
  "charge c = (if mine c \<and> refs c > 0 then amount c else 0)"

definition pool_inv :: "nat multiset \<Rightarrow> 's \<Rightarrow> bool" where
  "pool_inv R s \<longleftrightarrow> (\<forall>a < length (cells s). refs (cells s ! a) = count R a) \<and> (\<forall>a \<in># R. a < length (cells s)) \<and>
     counter s = sum_list (map charge (cells s)) \<and> counter s \<le> cap"

lemma live: "pool_inv R s \<Longrightarrow> a \<in># R \<Longrightarrow> a < length (cells s) \<and> 0 < refs (cells s ! a)"
  by (simp add: pool_inv_def)

lemma covered: "pool_inv R s \<Longrightarrow> a < length (cells s) \<Longrightarrow> charge (cells s ! a) \<le> counter s"
  by (simp add: pool_inv_def member_le_sum_list_map)

lemma frame: "cells s' = cells s \<Longrightarrow> counter s' = counter s \<Longrightarrow> pool_inv R s' \<longleftrightarrow> pool_inv R s"
  by (simp add: pool_inv_def)

lemma counts_update:
  assumes "pool_inv R s" "a < length (cells s)" "cells s' = (cells s)[a := c]" "refs c = count R' a"
    "\<And>b. b \<noteq> a \<Longrightarrow> count R' b = count R b"
  shows "(\<forall>b < length (cells s'). refs (cells s' ! b) = count R' b) \<and> (\<forall>b \<in># R'. b < length (cells s'))"
proof (intro conjI allI impI ballI)
  fix b assume "b < length (cells s')"
  then show "refs (cells s' ! b) = count R' b"
    using assms by (cases "b = a") (simp_all add: pool_inv_def)
next
  fix b assume b: "b \<in># R'"
  then have "b = a \<or> b \<in># R" using assms(5) [of b] by (metis count_eq_zero_iff)
  then show "b < length (cells s')" using assms(1,2,3) by (auto simp: pool_inv_def)
qed

lemma update_inv:
  assumes "pool_inv R s" "a < length (cells s)" "cells s' = (cells s)[a := c]" "refs c = count R' a"
    "\<And>b. b \<noteq> a \<Longrightarrow> count R' b = count R b"
    "charge c \<le> charge (cells s ! a)" "counter s' = counter s - (charge (cells s ! a) - charge c)"
  shows "pool_inv R' s'"
proof -
  have cov: "charge (cells s ! a) \<le> counter s" using covered [OF assms(1,2)] .
  have "sum_list (map charge (cells s')) + charge (cells s ! a) = counter s + charge c"
    using sum_list_map_update [OF assms(2), of charge c] assms(1,3) by (simp add: pool_inv_def)
  then have "counter s' = sum_list (map charge (cells s'))" "counter s' \<le> counter s"
    using assms(6,7) cov by simp_all
  then show ?thesis using counts_update [OF assms(1-5)] assms(1) by (simp add: pool_inv_def)
qed

lemma append_inv:
  assumes "pool_inv R s" "cells s' = cells s @ [c]" "refs c = 1" "counter s' = counter s + charge c" "counter s' \<le> cap"
  shows "pool_inv (add_mset (length (cells s)) R) s'"
proof -
  have "count R (length (cells s)) = 0"
    using assms(1) by (auto simp: pool_inv_def count_eq_zero_iff)
  then show ?thesis using assms
    by (auto simp: pool_inv_def nth_append less_Suc_eq)
qed

lemma foreign_inv:
  assumes "pool_inv R s" "cells s' = cells s @ [c]" "refs c = 1" "\<not> mine c" "counter s' = counter s"
  shows "pool_inv (add_mset (length (cells s)) R) s'"
  using append_inv [OF assms(1,2,3)] assms(1,4,5) by (simp add: charge_def pool_inv_def)

lemma acquire_inv:
  assumes "pool_inv R s" "acquire n s = (Some a, s')"
  shows "pool_inv (add_mset a R) s'"
  using acquire_Some [OF assms(2)] append_inv [OF assms(1)] by (auto simp: charge_def)

lemma clone_inv:
  assumes "pool_inv R s" "a \<in># R"
  shows "pool_inv (add_mset a R) (clone a s)"
proof -
  note l = live [OF assms]
  obtain c where c: "cells (clone a s) = (cells s)[a := c]" "amount c = amount (cells s ! a)"
    "refs c = refs (cells s ! a) + 1" "mine c \<longleftrightarrow> mine (cells s ! a)" "counter (clone a s) = counter s"
    using clone_law l by blast
  have "refs c = count (add_mset a R) a" using c(3) l assms(1) by (simp add: pool_inv_def)
  then show ?thesis
    by (rule update_inv [OF assms(1) conjunct1 [OF l] c(1)]) (use c l in \<open>auto simp: charge_def\<close>)
qed

lemma release_inv:
  assumes "pool_inv (add_mset a R) s"
  shows "pool_inv R (release a s)"
proof -
  have l: "a < length (cells s)" "0 < refs (cells s ! a)" using live [OF assms] by auto
  obtain c where c: "cells (release a s) = (cells s)[a := c]" "amount c = amount (cells s ! a)"
    "refs c = refs (cells s ! a) - 1" "mine c \<longleftrightarrow> mine (cells s ! a)"
    "counter (release a s) = (if mine (cells s ! a) \<and> refs (cells s ! a) = 1
       then wrap_sub (counter s) (amount (cells s ! a)) else counter s)"
    using release_law [OF l(1)] by blast
  have "refs c = count R a" using c(3) l assms by (simp add: pool_inv_def)
  then show ?thesis
    by (rule update_inv [OF assms l(1) c(1)])
      (use c l covered [OF assms l(1)] in \<open>auto simp: charge_def wrap_sub_def\<close>)
qed

lemma shrink_inv:
  assumes "pool_inv R s" "a \<in># R" "n \<le> amount (cells s ! a)"
  shows "pool_inv R (shrink n a s)"
proof -
  have l: "a < length (cells s)" "0 < refs (cells s ! a)" using live [OF assms(1,2)] by auto
  obtain c where c: "cells (shrink n a s) = (cells s)[a := c]" "amount c = n"
    "refs c = refs (cells s ! a)" "mine c \<longleftrightarrow> mine (cells s ! a)"
    "counter (shrink n a s) = (if mine (cells s ! a) then wrap_sub (counter s) (amount (cells s ! a) - n) else counter s)"
    using shrink_law [OF l(1) assms(3)] by blast
  have "refs c = count R a" using c(3) l assms by (simp add: pool_inv_def)
  then show ?thesis
    by (rule update_inv [OF assms(1) l(1) c(1)])
      (use c l assms(3) covered [OF assms(1) l(1)] in \<open>auto simp: charge_def wrap_sub_def\<close>)
qed

lemma split_inv:
  assumes "pool_inv R s" "a \<in># R" "split n a s = (Some b, s')"
  shows "pool_inv (add_mset b R) s'"
proof -
  have l: "a < length (cells s)" "0 < refs (cells s ! a)" using live [OF assms(1,2)] by auto
  obtain c d where c: "cells s' = (cells s)[a := c] @ [d]" "amount c + amount d = amount (cells s ! a)"
    "refs c = refs (cells s ! a)" "refs d = 1" "mine c \<longleftrightarrow> mine (cells s ! a)" "mine d \<longleftrightarrow> mine (cells s ! a)"
    "b = length (cells s)" "counter s' = counter s"
    using split_Some [OF l(1) assms(3)] by blast
  have ch: "charge c + charge d = charge (cells s ! a)" using c l by (auto simp: charge_def)
  have z: "count R (length (cells s)) = 0" using assms(1) by (auto simp: pool_inv_def count_eq_zero_iff)
  have "sum_list (map charge (cells s')) = sum_list (map charge (cells s))"
    using sum_list_map_update [OF l(1), of charge c] ch c(1) by simp
  moreover have "refs (cells s' ! i) = count (add_mset b R) i" if "i < length (cells s')" for i
    using that c z assms(1) l by (auto simp: pool_inv_def nth_append nth_list_update less_Suc_eq)
  moreover have "i < length (cells s')" if "i \<in># add_mset b R" for i
    using that c assms(1) by (auto simp: pool_inv_def)
  ultimately show ?thesis using assms(1) c(8) by (simp add: pool_inv_def)
qed

lemma idle:
  assumes "pool_inv {#} s"
  shows "counter s = 0"
proof -
  have "charge c = 0" if "c \<in> set (cells s)" for c
    using that assms by (auto simp: pool_inv_def charge_def in_set_conv_nth)
  then show ?thesis using assms by (simp add: pool_inv_def map_idI sum_list_eq_0_iff)
qed

end

section \<open>The three pools\<close>

lemma caps_fit: "INPUT_CAP \<le> U64_MAX" "ARTIFACT_CAP \<le> U64_MAX" "META_CAP \<le> U64_MAX"
  by (simp_all add: INPUT_CAP_def ARTIFACT_CAP_def META_CAP_def U64_MAX_def)

lemma guarded_add:
  assumes "c \<le> U64_MAX"
  shows "opt_filter (\<lambda>v. v \<le> c) (cadd m n) = (if m + n \<le> c then Some (m + n) else None)"
  using assms by (auto simp: cadd_def)

lemmas acquire_defs = reserve_def input_reservation_def artifact_budget_def reserve_metadata_def
  guarded_add [OF caps_fit(1)] guarded_add [OF caps_fit(2)] guarded_add [OF caps_fit(3)]

lemmas cell_defs = arc_clone_def arc_drop_def res_split_def res_shrink_to_def meta_clone_def meta_drop_def
  meta_split_def meta_shrink_to_def pool_sub_def meta_sub_def Let_def

interpretation input_pool: arc_pool used resv r_size r_refs "\<lambda>r. \<not> r_artifact r" INPUT_CAP
  input_reservation arc_clone arc_drop res_split res_shrink_to
  by unfold_locales
    (auto simp: acquire_defs cell_defs checked_simps wrap_sub_def split: if_splits option.splits,
     (metis list_update_id)+)

interpretation artifact_pool: arc_pool artifact_used resv r_size r_refs r_artifact ARTIFACT_CAP
  artifact_budget arc_clone arc_drop res_split res_shrink_to
  by unfold_locales
    (auto simp: acquire_defs cell_defs checked_simps wrap_sub_def split: if_splits option.splits,
     (metis list_update_id)+)

interpretation meta_pool: arc_pool meta_used metas m_count m_refs "\<lambda>_. True" META_CAP
  reserve_metadata meta_clone meta_drop "\<lambda>_. meta_split" meta_shrink_to
  by unfold_locales
    (auto simp: acquire_defs cell_defs checked_simps wrap_sub_def split: if_splits option.splits,
     (metis list_update_id)+)

text \<open>
  The invariant of the heaps: \<open>R\<close> and \<open>M\<close> are all handles on reservations and on metadata reservations
  that exist, wherever they are.
\<close>

definition heap_inv :: "nat multiset \<Rightarrow> nat multiset \<Rightarrow> Inner \<Rightarrow> bool" where
  "heap_inv R M s \<longleftrightarrow> input_pool.pool_inv R s \<and> artifact_pool.pool_inv R s \<and> meta_pool.pool_inv M s"

lemma heap_frame:
  "resv s' = resv s \<Longrightarrow> metas s' = metas s \<Longrightarrow> used s' = used s \<Longrightarrow> artifact_used s' = artifact_used s \<Longrightarrow>
   meta_used s' = meta_used s \<Longrightarrow> heap_inv R M s' \<longleftrightarrow> heap_inv R M s"
  by (simp add: heap_inv_def input_pool.frame [of s' s] artifact_pool.frame [of s' s] meta_pool.frame [of s' s])

lemma res_ops_frame [simp]:
  "metas (arc_clone a s) = metas s" "meta_used (arc_clone a s) = meta_used s"
  "metas (arc_drop a s) = metas s" "meta_used (arc_drop a s) = meta_used s"
  "metas (res_shrink_to n a s) = metas s" "meta_used (res_shrink_to n a s) = meta_used s"
  "entries (arc_clone a s) = entries s" "entries (arc_drop a s) = entries s"
  "entries (res_shrink_to n a s) = entries s"
  "ids (arc_clone a s) = ids s" "ids (arc_drop a s) = ids s" "ids (res_shrink_to n a s) = ids s"
  "accepting (arc_clone a s) = accepting s" "accepting (arc_drop a s) = accepting s"
  "accepting (res_shrink_to n a s) = accepting s"
  by (simp_all add: cell_defs)

lemma meta_ops_frame [simp]:
  "resv (meta_clone a s) = resv s" "used (meta_clone a s) = used s" "artifact_used (meta_clone a s) = artifact_used s"
  "resv (meta_drop a s) = resv s" "used (meta_drop a s) = used s" "artifact_used (meta_drop a s) = artifact_used s"
  "resv (meta_shrink_to n a s) = resv s" "used (meta_shrink_to n a s) = used s"
  "artifact_used (meta_shrink_to n a s) = artifact_used s"
  "entries (meta_clone a s) = entries s" "entries (meta_drop a s) = entries s"
  "entries (meta_shrink_to n a s) = entries s"
  "ids (meta_clone a s) = ids s" "ids (meta_drop a s) = ids s" "ids (meta_shrink_to n a s) = ids s"
  "accepting (meta_clone a s) = accepting s" "accepting (meta_drop a s) = accepting s"
  "accepting (meta_shrink_to n a s) = accepting s"
  by (simp_all add: cell_defs)

lemma acquire_frame:
  "input_reservation n s = (v, s') \<Longrightarrow> entries s' = entries s \<and> metas s' = metas s \<and> meta_used s' = meta_used s \<and>
     artifact_used s' = artifact_used s \<and> ids s' = ids s \<and> accepting s' = accepting s"
  "artifact_budget n s = (v, s') \<Longrightarrow> entries s' = entries s \<and> metas s' = metas s \<and> meta_used s' = meta_used s \<and>
     used s' = used s \<and> ids s' = ids s \<and> accepting s' = accepting s"
  "reserve_metadata n s = (v, s') \<Longrightarrow> entries s' = entries s \<and> resv s' = resv s \<and> used s' = used s \<and>
     artifact_used s' = artifact_used s \<and> ids s' = ids s \<and> accepting s' = accepting s"
  "res_split n a s = (v, s') \<Longrightarrow> entries s' = entries s \<and> metas s' = metas s \<and> meta_used s' = meta_used s \<and>
     ids s' = ids s \<and> accepting s' = accepting s"
  "meta_split a s = (v, s') \<Longrightarrow> entries s' = entries s \<and> resv s' = resv s \<and> used s' = used s \<and>
     artifact_used s' = artifact_used s \<and> ids s' = ids s \<and> accepting s' = accepting s"
  by (auto simp: acquire_defs cell_defs split: if_splits option.splits)

lemma arc_clone_inv: "heap_inv R M s \<Longrightarrow> a \<in># R \<Longrightarrow> heap_inv (add_mset a R) M (arc_clone a s)"
  by (simp add: heap_inv_def input_pool.clone_inv artifact_pool.clone_inv meta_pool.frame [of "arc_clone a s" s])

lemma arc_drop_inv: "heap_inv (add_mset a R) M s \<Longrightarrow> heap_inv R M (arc_drop a s)"
  by (simp add: heap_inv_def input_pool.release_inv artifact_pool.release_inv meta_pool.frame [of "arc_drop a s" s])

lemma res_shrink_inv: "heap_inv R M s \<Longrightarrow> a \<in># R \<Longrightarrow> n \<le> r_size (resv s ! a) \<Longrightarrow> heap_inv R M (res_shrink_to n a s)"
  by (simp add: heap_inv_def input_pool.shrink_inv artifact_pool.shrink_inv meta_pool.frame [of "res_shrink_to n a s" s])

lemma res_split_inv: "heap_inv R M s \<Longrightarrow> a \<in># R \<Longrightarrow> res_split n a s = (Some b, s') \<Longrightarrow> heap_inv (add_mset b R) M s'"
  using meta_pool.frame [of s' s M] acquire_frame(4) [of n a s "Some b" s']
  by (auto simp: heap_inv_def intro: input_pool.split_inv artifact_pool.split_inv)

lemma meta_clone_inv: "heap_inv R M s \<Longrightarrow> a \<in># M \<Longrightarrow> heap_inv R (add_mset a M) (meta_clone a s)"
  by (simp add: heap_inv_def meta_pool.clone_inv input_pool.frame [of "meta_clone a s" s]
      artifact_pool.frame [of "meta_clone a s" s])

lemma meta_drop_inv: "heap_inv R (add_mset a M) s \<Longrightarrow> heap_inv R M (meta_drop a s)"
  by (simp add: heap_inv_def meta_pool.release_inv input_pool.frame [of "meta_drop a s" s]
      artifact_pool.frame [of "meta_drop a s" s])

lemma meta_shrink_inv:
  "heap_inv R M s \<Longrightarrow> a \<in># M \<Longrightarrow> n \<le> m_count (metas s ! a) \<Longrightarrow> heap_inv R M (meta_shrink_to n a s)"
  by (simp add: heap_inv_def meta_pool.shrink_inv input_pool.frame [of "meta_shrink_to n a s" s]
      artifact_pool.frame [of "meta_shrink_to n a s" s])

lemma meta_split_inv: "heap_inv R M s \<Longrightarrow> a \<in># M \<Longrightarrow> meta_split a s = (Some b, s') \<Longrightarrow> heap_inv R (add_mset b M) s'"
  using input_pool.frame [of s' s R] artifact_pool.frame [of s' s R] acquire_frame(5) [of a s "Some b" s']
  by (auto simp: heap_inv_def intro: meta_pool.split_inv)

lemma input_reservation_inv:
  assumes "heap_inv R M s" "input_reservation n s = (Some a, s')"
  shows "heap_inv (add_mset a R) M s'"
proof -
  obtain c where c: "resv s' = resv s @ [c]" "r_refs c = 1" "\<not> r_artifact c" "a = length (resv s)"
    using input_pool.acquire_Some [OF assms(2)] by blast
  then show ?thesis using assms acquire_frame(1) [OF assms(2)] meta_pool.frame [of s' s M]
    artifact_pool.foreign_inv [OF _ c(1,2,3)] by (auto simp: heap_inv_def intro: input_pool.acquire_inv)
qed

lemma artifact_budget_inv:
  assumes "heap_inv R M s" "artifact_budget n s = (Some a, s')"
  shows "heap_inv (add_mset a R) M s'"
proof -
  obtain c where c: "resv s' = resv s @ [c]" "r_refs c = 1" "r_artifact c" "a = length (resv s)"
    using artifact_pool.acquire_Some [OF assms(2)] by blast
  then show ?thesis using assms acquire_frame(2) [OF assms(2)] meta_pool.frame [of s' s M]
    input_pool.foreign_inv [OF _ c(1,2)] by (auto simp: heap_inv_def intro: artifact_pool.acquire_inv)
qed

lemma reserve_metadata_inv:
  "heap_inv R M s \<Longrightarrow> reserve_metadata n s = (Some a, s') \<Longrightarrow> heap_inv R (add_mset a M) s'"
  using acquire_frame(3) [of n s "Some a" s'] input_pool.frame [of s' s R] artifact_pool.frame [of s' s R]
  by (auto simp: heap_inv_def intro: meta_pool.acquire_inv)

section \<open>Entries\<close>

definition res_refs :: "Inner \<Rightarrow> nat multiset" where
  "res_refs s = mset (concat (map (\<lambda>(_, e). entry_res e) (entries s)))"

definition meta_refs :: "Inner \<Rightarrow> nat multiset" where
  "meta_refs s = mset (concat (map (\<lambda>(_, e). entry_meta e) (entries s)))"

text \<open>
  The invariant of the store: keys are distinct, and the handles that exist are those of the entries and
  those \<open>H\<close>, \<open>N\<close> held elsewhere (by running handlers, job records and response bodies).
\<close>

definition store_inv :: "nat multiset \<Rightarrow> nat multiset \<Rightarrow> Inner \<Rightarrow> bool" where
  "store_inv H N s \<longleftrightarrow> distinct (map fst (entries s)) \<and> heap_inv (res_refs s + H) (meta_refs s + N) s"

lemma drops_inv:
  "heap_inv (mset as + R) M s \<Longrightarrow> heap_inv R M (fold arc_drop as s)"
  "heap_inv R (mset as + M) s \<Longrightarrow> heap_inv R M (fold meta_drop as s)"
  by (induction as arbitrary: s) (auto intro: arc_drop_inv meta_drop_inv)

lemma fold_frame [simp]:
  "entries (fold arc_drop as s) = entries s" "entries (fold meta_drop as s) = entries s"
  "ids (fold arc_drop as s) = ids s" "ids (fold meta_drop as s) = ids s"
  "accepting (fold arc_drop as s) = accepting s" "accepting (fold meta_drop as s) = accepting s"
  by (induction as arbitrary: s) simp_all

lemma drop_entry_frame [simp]:
  "entries (drop_entry e s) = entries s" "ids (drop_entry e s) = ids s" "accepting (drop_entry e s) = accepting s"
  by (simp_all add: drop_entry_def)

lemma heap_drop_entry:
  "heap_inv (mset (entry_res e) + R) (mset (entry_meta e) + M) s \<Longrightarrow> heap_inv R M (drop_entry e s)"
  unfolding drop_entry_def by (intro drops_inv) (simp add: drops_inv)

lemma refs_cong:
  "entries s' = entries s \<Longrightarrow> res_refs s' = res_refs s" "entries s' = entries s \<Longrightarrow> meta_refs s' = meta_refs s"
  by (simp_all add: res_refs_def meta_refs_def)

lemma mset_delete:
  assumes "distinct (map fst es)" "map_of es k = Some e"
  shows "mset (concat (map (\<lambda>(_, e). f e) es)) = mset (f e) + mset (concat (map (\<lambda>(_, e). f e) (AList.delete k es)))"
  using assms
proof (induction es)
  case (Cons p es)
  show ?case
  proof (cases "fst p = k")
    case True
    then have "AList.delete k es = es" using Cons.prems(1) by (intro AList.delete_id) auto
    then show ?thesis using Cons.prems True by (auto simp: case_prod_beta)
  next
    case False
    then have "map_of es k = Some e" using Cons.prems by (cases p) auto
    then show ?thesis using Cons False by (auto simp: case_prod_beta)
  qed
qed simp

lemma mset_update:
  "map_of es k = None \<Longrightarrow> mset (concat (map (\<lambda>(_, e). f e) (AList.update k v es))) = mset (f v) + mset (concat (map (\<lambda>(_, e). f e) es))"
  "map_of es k = Some e \<Longrightarrow>
     mset (concat (map (\<lambda>(_, e). f e) (AList.update k v es))) + mset (f e) = mset (f v) + mset (concat (map (\<lambda>(_, e). f e) es))"
  by (induction es) (auto split: if_splits)

lemma store_inv_drop_entry:
  "store_inv (mset (entry_res e) + H) (mset (entry_meta e) + N) s \<Longrightarrow> store_inv H N (drop_entry e s)"
  using heap_drop_entry [of e "res_refs s + H" "meta_refs s + N" s] refs_cong [of "drop_entry e s" s]
  by (auto simp: store_inv_def ac_simps)

lemma remove_entry_inv:
  assumes "store_inv H N s" "lookup k s = Some e"
  shows "store_inv (mset (entry_res e) + H) (mset (entry_meta e) + N) (remove_entry k s)"
proof -
  have d: "distinct (map fst (entries s))" using assms(1) by (simp add: store_inv_def)
  let ?s = "remove_entry k s"
  have "res_refs s = mset (entry_res e) + res_refs ?s" "meta_refs s = mset (entry_meta e) + meta_refs ?s"
    using mset_delete [OF d] assms(2) by (simp_all add: res_refs_def meta_refs_def remove_entry_def lookup_def)
  moreover have "heap_inv R M ?s \<longleftrightarrow> heap_inv R M s" for R M by (rule heap_frame) (simp_all add: remove_entry_def)
  ultimately show ?thesis using assms(1) d
    by (simp add: store_inv_def remove_entry_def AList.distinct_delete ac_simps)
qed

text \<open>Overwriting an entry in place hands the old entry's handles back.\<close>

lemma replace_entry_inv:
  assumes "store_inv (mset (entry_res e) + H) (mset (entry_meta e) + N) s" "lookup k s = Some old"
  shows "store_inv (mset (entry_res old) + H) (mset (entry_meta old) + N) (s\<lparr>entries := AList.update k e (entries s)\<rparr>)"
    (is "store_inv _ _ ?s")
proof -
  have h: "heap_inv R M ?s \<longleftrightarrow> heap_inv R M s" for R M by (rule heap_frame) simp_all
  have "distinct (map fst (entries s))" using assms by (simp add: store_inv_def)
  then have d': "distinct (map fst (entries ?s))" by (simp add: AList.distinct_update)
  have "res_refs ?s + mset (entry_res old) = mset (entry_res e) + res_refs s"
    "meta_refs ?s + mset (entry_meta old) = mset (entry_meta e) + meta_refs s"
    using mset_update(2) [OF assms(2) [unfolded lookup_def]] by (simp_all add: res_refs_def meta_refs_def)
  then have r: "res_refs ?s + (mset (entry_res old) + H) = res_refs s + (mset (entry_res e) + H)"
    "meta_refs ?s + (mset (entry_meta old) + N) = meta_refs s + (mset (entry_meta e) + N)"
    by (metis add.assoc add.commute)+
  show ?thesis unfolding store_inv_def r h using assms d' by (simp add: store_inv_def)
qed

lemma insert_entry_inv:
  assumes "store_inv (mset (entry_res e) + H) (mset (entry_meta e) + N) s"
  shows "store_inv H N (insert_entry k e s)"
proof (cases "map_of (entries s) k")
  case None
  let ?s = "s\<lparr>entries := AList.update k e (entries s)\<rparr>"
  have h: "heap_inv R M ?s \<longleftrightarrow> heap_inv R M s" for R M by (rule heap_frame) simp_all
  have "distinct (map fst (entries s))" using assms by (simp add: store_inv_def)
  then have d': "distinct (map fst (entries ?s))" by (simp add: AList.distinct_update)
  have "res_refs ?s = mset (entry_res e) + res_refs s" "meta_refs ?s = mset (entry_meta e) + meta_refs s"
    using mset_update(1) [OF None] by (simp_all add: res_refs_def meta_refs_def)
  then have r: "res_refs ?s + H = res_refs s + (mset (entry_res e) + H)"
    "meta_refs ?s + N = meta_refs s + (mset (entry_meta e) + N)"
    by (simp_all only: ac_simps)
  have "store_inv H N ?s" unfolding store_inv_def r h using assms d' by (simp add: store_inv_def)
  then show ?thesis using None by (simp add: insert_entry_def)
next
  case (Some old)
  then have "store_inv (mset (entry_res old) + H) (mset (entry_meta old) + N) (s\<lparr>entries := AList.update k e (entries s)\<rparr>)"
    by (intro replace_entry_inv [OF assms]) (simp add: lookup_def)
  then show ?thesis using Some store_inv_drop_entry by (simp add: insert_entry_def)
qed

lemma fold_drop_frame [simp]:
  "entries (fold (\<lambda>(_, e). drop_entry e) es s) = entries s" "ids (fold (\<lambda>(_, e). drop_entry e) es s) = ids s"
  "accepting (fold (\<lambda>(_, e). drop_entry e) es s) = accepting s"
  by (induction es arbitrary: s) (simp_all add: case_prod_beta)

lemma fold_drop_inv:
  "store_inv (mset (concat (map (\<lambda>(_, e). entry_res e) es)) + H) (mset (concat (map (\<lambda>(_, e). entry_meta e) es)) + N) s \<Longrightarrow>
   store_inv H N (fold (\<lambda>(_, e). drop_entry e) es s)"
proof (induction es arbitrary: s)
  case (Cons p es)
  obtain k e where p: "p = (k, e)" by (cases p)
  let ?H = "mset (concat (map (\<lambda>(_, e). entry_res e) es)) + H"
  let ?N = "mset (concat (map (\<lambda>(_, e). entry_meta e) es)) + N"
  have "store_inv (mset (entry_res e) + ?H) (mset (entry_meta e) + ?N) s"
    using Cons.prems by (simp add: p add.assoc)
  then have "store_inv ?H ?N (drop_entry e s)" by (rule store_inv_drop_entry)
  from Cons.IH [OF this] show ?case by (simp add: p)
qed simp

lemma fold_remove_frame [simp]:
  "ids (fold (\<lambda>(k, _). remove_entry k) es s) = ids s"
  "accepting (fold (\<lambda>(k, _). remove_entry k) es s) = accepting s"
  "resv (fold (\<lambda>(k, _). remove_entry k) es s) = resv s" "metas (fold (\<lambda>(k, _). remove_entry k) es s) = metas s"
  "used (fold (\<lambda>(k, _). remove_entry k) es s) = used s"
  "artifact_used (fold (\<lambda>(k, _). remove_entry k) es s) = artifact_used s"
  "meta_used (fold (\<lambda>(k, _). remove_entry k) es s) = meta_used s"
  by (induction es arbitrary: s) (simp_all add: case_prod_beta remove_entry_def)

lemma entries_fold_remove:
  "entries (fold (\<lambda>(k, _). remove_entry k) es s) = filter (\<lambda>p. fst p \<notin> fst ` set es) (entries s)"
proof (induction es arbitrary: s)
  case (Cons p es)
  have "filter (\<lambda>q. fst q \<notin> fst ` set es) (AList.delete (fst p) l) = filter (\<lambda>q. fst q \<notin> fst ` set (p # es)) l" for l :: "(ustr \<times> Entry) list"
    by (induction l) auto
  then show ?case using Cons by (simp add: case_prod_beta remove_entry_def)
qed simp

lemma mset_concat_filter:
  "mset (concat (map f xs)) = mset (concat (map f (filter P xs))) + mset (concat (map f (filter (\<lambda>x. \<not> P x) xs)))"
  by (induction xs) simp_all

lemma distinct_keys_filter:
  assumes "distinct (map fst es)"
  shows "filter (\<lambda>p. fst p \<notin> fst ` set (filter P es)) es = filter (\<lambda>x. \<not> P x) es"
proof (rule filter_cong [OF refl])
  fix x assume x: "x \<in> set es"
  have "fst x \<in> fst ` set (filter P es) \<longleftrightarrow> P x"
    using x assms by (auto simp: distinct_map inj_on_def)
  then show "(fst x \<notin> fst ` set (filter P es)) = (\<not> P x)" by simp
qed

lemma fold_remove_inv:
  assumes "store_inv H N s"
  shows "store_inv (mset (concat (map (\<lambda>(_, e). entry_res e) (filter P (entries s)))) + H)
     (mset (concat (map (\<lambda>(_, e). entry_meta e) (filter P (entries s)))) + N)
     (fold (\<lambda>(k, _). remove_entry k) (filter P (entries s)) s)"
    (is "store_inv ?H ?N ?s")
proof -
  have d: "distinct (map fst (entries s))" using assms by (simp add: store_inv_def)
  have e: "entries ?s = filter (\<lambda>x. \<not> P x) (entries s)"
    by (simp only: entries_fold_remove distinct_keys_filter [OF d])
  have r: "res_refs ?s + ?H = res_refs s + H" "meta_refs ?s + ?N = meta_refs s + N"
    unfolding res_refs_def meta_refs_def e by (subst (3) mset_concat_filter [of _ _ P], simp)+
  have "heap_inv R M ?s \<longleftrightarrow> heap_inv R M s" for R M by (intro heap_frame) simp_all
  then show ?thesis unfolding store_inv_def r e using assms
    by (auto simp: store_inv_def distinct_map intro: inj_on_subset)
qed

lemma entries_cleanup:
  assumes "distinct (map fst (entries s))"
  shows "entries (cleanup_expired now s) = filter (\<lambda>p. \<not> expired now (snd p)) (entries s)"
proof -
  have "entries (cleanup_expired now s) = filter (\<lambda>x. \<not> (case x of (_, e) \<Rightarrow> expired now e)) (entries s)"
    unfolding cleanup_expired_def Let_def fold_drop_frame
    by (simp only: entries_fold_remove distinct_keys_filter [OF assms])
  then show ?thesis by (simp add: case_prod_beta)
qed

lemma cleanup_expired_inv: "store_inv H N s \<Longrightarrow> store_inv H N (cleanup_expired now s)"
  unfolding cleanup_expired_def Let_def by (intro fold_drop_inv fold_remove_inv)

lemma cleanup_frame [simp]:
  "ids (cleanup_expired now s) = ids s" "accepting (cleanup_expired now s) = accepting s"
  by (simp_all add: cleanup_expired_def Let_def)

lemma clear_retained_inv: "store_inv H N s \<Longrightarrow> store_inv H N (clear_retained s)"
proof -
  assume i: "store_inv H N s"
  have h: "heap_inv R M (s\<lparr>entries := []\<rparr>) \<longleftrightarrow> heap_inv R M s" for R M by (rule heap_frame) simp_all
  show ?thesis unfolding clear_retained_def
    by (rule fold_drop_inv) (use i h in \<open>simp add: store_inv_def res_refs_def meta_refs_def\<close>)
qed

lemma store_inv_live:
  assumes "store_inv H N s"
  shows "a \<in># res_refs s + H \<Longrightarrow> a < length (resv s) \<and> 0 < r_refs (resv s ! a)"
    "m \<in># meta_refs s + N \<Longrightarrow> m < length (metas s) \<and> 0 < m_refs (metas s ! m)"
  using assms input_pool.live [of "res_refs s + H" s a] meta_pool.live [of "meta_refs s + N" s m]
  by (simp_all add: store_inv_def heap_inv_def)

lemma entry_refs_sub:
  assumes "lookup k s = Some e"
  shows "mset (entry_res e) \<subseteq># res_refs s" "mset (entry_meta e) \<subseteq># meta_refs s"
proof -
  have "(k, e) \<in> set (entries s)" using assms by (simp add: lookup_def map_of_SomeD)
  then obtain xs ys where "entries s = xs @ (k, e) # ys" by (meson split_list)
  then show "mset (entry_res e) \<subseteq># res_refs s" "mset (entry_meta e) \<subseteq># meta_refs s"
    by (simp_all add: res_refs_def meta_refs_def)
qed

lemma store_inv_ops:
  assumes "store_inv H N s"
  shows "a \<in># res_refs s + H \<Longrightarrow> store_inv (add_mset a H) N (arc_clone a s)"
    and "m \<in># meta_refs s + N \<Longrightarrow> store_inv H (add_mset m N) (meta_clone m s)"
    and "input_reservation n s = (Some a, s') \<Longrightarrow> store_inv (add_mset a H) N s'"
    and "artifact_budget n s = (Some a, s') \<Longrightarrow> store_inv (add_mset a H) N s'"
    and "reserve_metadata n s = (Some m, s') \<Longrightarrow> store_inv H (add_mset m N) s'"
    and "a \<in># res_refs s + H \<Longrightarrow> res_split n a s = (Some b, s') \<Longrightarrow> store_inv (add_mset b H) N s'"
    and "m \<in># meta_refs s + N \<Longrightarrow> meta_split m s = (Some b, s') \<Longrightarrow> store_inv H (add_mset b N) s'"
    and "a \<in># res_refs s + H \<Longrightarrow> n \<le> r_size (resv s ! a) \<Longrightarrow> store_inv H N (res_shrink_to n a s)"
    and "m \<in># meta_refs s + N \<Longrightarrow> n \<le> m_count (metas s ! m) \<Longrightarrow> store_inv H N (meta_shrink_to n m s)"
proof -
  have d: "distinct (map fst (entries s))" and h: "heap_inv (res_refs s + H) (meta_refs s + N) s"
    using assms by (simp_all add: store_inv_def)
  have transfer: "store_inv H' N' t" if "entries t = entries s" "heap_inv (res_refs s + H') (meta_refs s + N') t" for H' N' t
    using that d refs_cong [of t s] by (simp add: store_inv_def)
  show "store_inv (add_mset a H) N (arc_clone a s)" if "a \<in># res_refs s + H"
    using transfer arc_clone_inv [OF h that] by simp
  show "store_inv H (add_mset m N) (meta_clone m s)" if "m \<in># meta_refs s + N"
    using transfer meta_clone_inv [OF h that] by simp
  show "store_inv (add_mset a H) N s'" if "input_reservation n s = (Some a, s')"
    using transfer input_reservation_inv [OF h that] acquire_frame(1) [OF that] by simp
  show "store_inv (add_mset a H) N s'" if "artifact_budget n s = (Some a, s')"
    using transfer artifact_budget_inv [OF h that] acquire_frame(2) [OF that] by simp
  show "store_inv H (add_mset m N) s'" if "reserve_metadata n s = (Some m, s')"
    using transfer reserve_metadata_inv [OF h that] acquire_frame(3) [OF that] by simp
  show "store_inv (add_mset b H) N s'" if "a \<in># res_refs s + H" "res_split n a s = (Some b, s')"
    using transfer res_split_inv [OF h that] acquire_frame(4) [OF that(2)] by simp
  show "store_inv H (add_mset b N) s'" if "m \<in># meta_refs s + N" "meta_split m s = (Some b, s')"
    using transfer meta_split_inv [OF h that] acquire_frame(5) [OF that(2)] by simp
  show "store_inv H N (res_shrink_to n a s)" if "a \<in># res_refs s + H" "n \<le> r_size (resv s ! a)"
    using transfer res_shrink_inv [OF h that] by simp
  show "store_inv H N (meta_shrink_to n m s)" if "m \<in># meta_refs s + N" "n \<le> m_count (metas s ! m)"
    using transfer meta_shrink_inv [OF h that] by simp
qed

lemma store_inv_drops:
  "store_inv (add_mset a H) N s \<Longrightarrow> store_inv H N (arc_drop a s)"
  "store_inv H (add_mset m N) s \<Longrightarrow> store_inv H N (meta_drop m s)"
  using arc_drop_inv [of a "res_refs s + H" "meta_refs s + N" s] meta_drop_inv [of "res_refs s + H" m "meta_refs s + N" s]
    refs_cong [of "arc_drop a s" s] refs_cong [of "meta_drop m s" s]
  by (auto simp: store_inv_def)

lemma input_lease_inv:
  assumes "store_inv H N s" "input_lease k now s = (Some (object, b), s')"
  shows "store_inv (add_mset (b_res b) H) N s'"
proof -
  obtain f where f: "lookup k s = Some (EFile f)" "b = f_bytes f" "s' = arc_clone (b_res b) s"
    using assms(2) by (auto simp: input_lease_def split: option.splits Entry.splits if_splits)
  have "b_res b \<in># res_refs s" using entry_refs_sub(1) [OF f(1)] f(2) by simp
  then show ?thesis using store_inv_ops(1) [OF assms(1)] f(3) by simp
qed

section \<open>Publication\<close>

definition acc_res :: "(FileObject \<times> Bytes \<times> nat) list \<Rightarrow> nat multiset" where
  "acc_res acc = mset (map (\<lambda>(_, b, _). b_res b) acc)"

definition acc_meta :: "(FileObject \<times> Bytes \<times> nat) list \<Rightarrow> nat multiset" where
  "acc_meta acc = mset (map (\<lambda>(_, _, m). m) acc)"

lemma acc_simps [simp]:
  "acc_res [] = {#}" "acc_meta [] = {#}"
  "acc_res ((f, b, m) # acc) = add_mset (b_res b) (acc_res acc)" "acc_meta ((f, b, m) # acc) = add_mset m (acc_meta acc)"
  "acc_res (acc @ acc') = acc_res acc + acc_res acc'" "acc_meta (acc @ acc') = acc_meta acc + acc_meta acc'"
  by (simp_all add: acc_res_def acc_meta_def)

lemma charge_files_inv:
  assumes "store_inv (acc_res acc + H) (acc_meta acc + N) s" "reservation \<in># H" "metadata \<in># N"
    "charge_files files metadata reservation acc s = (r, acc', s')"
  shows "store_inv (acc_res acc' + H) (acc_meta acc' + N) s' \<and> entries s' = entries s \<and> ids s' = ids s \<and>
    accepting s' = accepting s"
  using assms(1,4)
proof (induction files arbitrary: acc s)
  case (Cons p files)
  obtain object data where p: "p = (object, data)" by (cases p)
  show ?case
  proof (cases "res_split (length data) reservation s")
    case (Pair v s1)
    show ?thesis
    proof (cases v)
      case None
      then show ?thesis using Cons.prems Pair input_pool.split_None [of "length data" reservation s s1] by (simp add: p)
    next
      case (Some b)
      have i1: "store_inv (add_mset b (acc_res acc + H)) (acc_meta acc + N) s1"
        using store_inv_ops(6) [OF Cons.prems(1), of reservation] Pair Some assms(2) by simp
      note f1 = acquire_frame(4) [OF Pair]
      show ?thesis
      proof (cases "meta_split metadata s1")
        case (Pair v2 s2)
        note f2 = acquire_frame(5) [OF Pair]
        show ?thesis
        proof (cases v2)
          case None
          then have "s2 = s1" using Pair meta_pool.split_None by blast
          then show ?thesis using Cons.prems(2) None Pair \<open>res_split _ _ _ = _\<close> Some f1 store_inv_drops(1) [OF i1]
            by (auto simp: p)
        next
          case (Some m)
          let ?acc = "acc @ [(object, charged data b, m)]"
          have i2: "store_inv (acc_res ?acc + H) (acc_meta ?acc + N) s2"
            using store_inv_ops(7) [OF i1, of metadata m s2] Pair Some assms(3) by (simp add: charged_def)
          have "charge_files files metadata reservation ?acc s2 = (r, acc', s')"
            using Cons.prems(2) Pair Some \<open>res_split _ _ _ = _\<close> \<open>v = Some b\<close> by (simp add: p)
          from Cons.IH [OF i2 this] show ?thesis using f1 f2 by simp
        qed
      qed
    qed
  qed
qed auto

lemma drop_charged_inv:
  "store_inv (acc_res acc + H) (acc_meta acc + N) s \<Longrightarrow> store_inv H N (drop_charged acc s)"
proof (induction acc arbitrary: s)
  case (Cons x acc)
  obtain f b m where x: "x = (f, b, m)" by (cases x)
  have "store_inv (acc_res acc + H) (acc_meta acc + N) (meta_drop m (arc_drop (b_res b) s))"
    using Cons.prems by (intro store_inv_drops) (simp add: x)
  from Cons.IH [OF this] show ?case by (simp add: x drop_charged_def)
qed (simp add: drop_charged_def)

lemma insert_artifacts_inv:
  "store_inv (acc_res acc + H) (acc_meta acc + N) s \<Longrightarrow> store_inv H N (insert_artifacts acc s)"
proof (induction acc arbitrary: s)
  case (Cons x acc)
  obtain f b m where x: "x = (f, b, m)" by (cases x)
  have "store_inv (acc_res acc + H) (acc_meta acc + N) (insert_entry (fo_id f)
      (EFile \<lparr>f_object = f, f_bytes = b, f_source = False, f_metadata = Some m\<rparr>) s)"
    using Cons.prems by (intro insert_entry_inv) (simp add: x)
  from Cons.IH [OF this] show ?case by (simp add: x insert_artifacts_def)
qed (simp add: insert_artifacts_def)

lemma drop_charged_frame [simp]:
  "entries (drop_charged acc s) = entries s" "ids (drop_charged acc s) = ids s"
  "accepting (drop_charged acc s) = accepting s"
  by (induction acc arbitrary: s) (auto simp: drop_charged_def)

lemma insert_entry_frame [simp]:
  "ids (insert_entry k e s) = ids s" "accepting (insert_entry k e s) = accepting s"
  "entries (insert_entry k e s) = AList.update k e (entries s)"
  by (simp_all add: insert_entry_def Let_def split: option.splits)

lemma insert_artifacts_frame [simp]:
  "ids (insert_artifacts acc s) = ids s" "accepting (insert_artifacts acc s) = accepting s"
  by (induction acc arbitrary: s) (auto simp: insert_artifacts_def)

text \<open>The branches of \<open>publish_artifact_batch\<close>: no entry changes before every file is charged.\<close>

lemma publish_cases:
  assumes "publish_artifact_batch files metadata reservation s = (r, s')"
    "store_inv (add_mset reservation H) (add_mset metadata N) s"
  obtains (refused) e s1 where "r = Err e" "entries s1 = entries s" "s' = meta_drop metadata (arc_drop reservation s1)"
      "store_inv (add_mset reservation H) (add_mset metadata N) s1" "ids s1 = ids s" "accepting s1 = accepting s"
  | (published) acc s1 where "r = Ok ()" "charge_files files metadata reservation [] s = (Ok (), acc, s1)"
      "s' = meta_drop metadata (arc_drop reservation (insert_artifacts acc s1))"
      "store_inv (acc_res acc + add_mset reservation H) (acc_meta acc + add_mset metadata N) s1"
      "entries s1 = entries s" "ids s1 = ids s" "accepting s1 = accepting s"
proof -
  obtain r1 acc s1 where c: "charge_files files metadata reservation [] s = (r1, acc, s1)"
    by (cases "charge_files files metadata reservation [] s") auto
  have i: "store_inv (acc_res acc + add_mset reservation H) (acc_meta acc + add_mset metadata N) s1 \<and>
      entries s1 = entries s \<and> ids s1 = ids s \<and> accepting s1 = accepting s"
    using charge_files_inv [OF _ _ _ c, of "add_mset reservation H" "add_mset metadata N"] assms(2) by simp
  have "(\<exists>e. publish_artifact_batch files metadata reservation s =
        (Err e, meta_drop metadata (arc_drop reservation s))) \<or>
      (\<exists>e. r1 = Err e \<and> publish_artifact_batch files metadata reservation s =
        (Err e, meta_drop metadata (arc_drop reservation (drop_charged acc s1)))) \<or>
      r1 = Ok () \<and> publish_artifact_batch files metadata reservation s =
        (Ok (), meta_drop metadata (arc_drop reservation (insert_artifacts acc s1)))"
    by (cases r1) (auto simp: publish_artifact_batch_def Let_def c split: option.splits)
  then consider (a) e where "publish_artifact_batch files metadata reservation s =
      (Err e, meta_drop metadata (arc_drop reservation s))"
    | (b) e where "publish_artifact_batch files metadata reservation s =
      (Err e, meta_drop metadata (arc_drop reservation (drop_charged acc s1)))"
    | (c) "r1 = Ok ()" "publish_artifact_batch files metadata reservation s =
      (Ok (), meta_drop metadata (arc_drop reservation (insert_artifacts acc s1)))"
    by blast
  then show ?thesis
  proof cases
    case a
    then show ?thesis using refused [of e s] assms by simp
  next
    case b
    then show ?thesis using refused [of e "drop_charged acc s1"] assms(1) i drop_charged_inv by simp
  next
    case c
    then show ?thesis using published [of acc s1] assms(1) i \<open>charge_files _ _ _ _ _ = _\<close> by simp
  qed
qed

lemma publish_inv:
  assumes "store_inv (add_mset reservation H) (add_mset metadata N) s"
    "publish_artifact_batch files metadata reservation s = (r, s')"
  shows "store_inv H N s'"
  using assms(2,1)
proof (cases rule: publish_cases)
  case refused
  then show ?thesis by (simp add: store_inv_drops)
next
  case published
  then show ?thesis by (simp add: store_inv_drops insert_artifacts_inv)
qed

lemma charge_files_Ok:
  assumes "sum_list (map (\<lambda>p. length (snd p)) files) \<le> r_size (resv s ! reservation)"
    "length files \<le> m_count (metas s ! metadata)" "reservation < length (resv s)" "metadata < length (metas s)"
  shows "\<exists>acc' s'. charge_files files metadata reservation acc s = (Ok (), acc @ acc', s') \<and>
    map (\<lambda>(f, b, _). (f, b_data b)) acc' = files"
  using assms
proof (induction files arbitrary: acc s)
  case (Cons p files)
  obtain object data where p: "p = (object, data)" by (cases p)
  let ?r = "resv s ! reservation" and ?m = "metas s ! metadata"
  let ?s1 = "s\<lparr>resv := (resv s)[reservation := ?r\<lparr>r_size := r_size ?r - length data\<rparr>] @
      [\<lparr>r_size = length data, r_artifact = r_artifact ?r, r_refs = 1\<rparr>]\<rparr>"
  let ?s2 = "?s1\<lparr>metas := (metas s)[metadata := ?m\<lparr>m_count := m_count ?m - 1\<rparr>] @ [\<lparr>m_count = 1, m_refs = 1\<rparr>]\<rparr>"
  have r: "res_split (length data) reservation s = (Some (length (resv s)), ?s1)"
    using Cons.prems(1) by (simp add: res_split_def csub_def p Let_def)
  have m: "meta_split metadata ?s1 = (Some (length (metas s)), ?s2)"
    using Cons.prems(2) by (simp add: meta_split_def csub_def p Let_def)
  let ?x = "(object, charged data (length (resv s)), length (metas s))"
  obtain acc' s' where a: "charge_files files metadata reservation (acc @ [?x]) ?s2 = (Ok (), (acc @ [?x]) @ acc', s')"
    "map (\<lambda>(f, b, _). (f, b_data b)) acc' = files"
  proof -
    have h: "sum_list (map (\<lambda>p. length (snd p)) files) \<le> r_size (resv ?s2 ! reservation)"
      "length files \<le> m_count (metas ?s2 ! metadata)" "reservation < length (resv ?s2)" "metadata < length (metas ?s2)"
      using Cons.prems by (simp_all add: p nth_append)
    show thesis using Cons.IH [OF h, of "acc @ [?x]"] that by blast
  qed
  have "charge_files (p # files) metadata reservation acc s = (Ok (), acc @ (?x # acc'), s')"
    using r m a(1) by (simp add: p)
  then show ?case using a(2) by (intro exI [of _ "?x # acc'"] exI [of _ s']) (simp add: p charged_def)
qed simp

lemma batch_total_Some:
  assumes "n + sum_list (map (\<lambda>p. length (snd p)) files) \<le> U64_MAX" "\<forall>(_, v) \<in> set files. length v \<le> PER_FILE_CAP"
  shows "batch_total files n = Some (n + sum_list (map (\<lambda>p. length (snd p)) files))"
  using assms
proof (induction files arbitrary: n)
  case (Cons p files)
  obtain f v where p: "p = (f, v)" by (cases p)
  have "cadd n (length v) = Some (n + length v)" using Cons.prems(1) by (simp add: p cadd_def)
  then show ?case using Cons by (simp add: p)
qed simp

text \<open>Every entry is backed by a metadata slot: its reservation counts at least the entries that share it.\<close>

definition quota_inv :: "Inner \<Rightarrow> bool" where
  "quota_inv s \<longleftrightarrow> list_all (\<lambda>(_, e). length (entry_meta e) = 1) (entries s) \<and>
     (\<forall>a < length (metas s). count (meta_refs s) a \<le> m_count (metas s ! a))"

lemma length_entries:
  "list_all (\<lambda>(_, e). length (entry_meta e) = 1) es \<Longrightarrow> length (concat (map (\<lambda>(_, e). entry_meta e) es)) = length es"
  by (induction es) (auto simp: case_prod_beta)

lemma quota_bound:
  assumes i: "store_inv H N s" and quota: "quota_inv s" and m: "m \<in># N" "count (meta_refs s) m = 0"
  shows "length (entries s) + m_count (metas s ! m) \<le> META_CAP"
proof -
  let ?n = "length (metas s)" and ?R = "meta_refs s"
  have p: "meta_pool.pool_inv (?R + N) s" using i by (simp add: store_inv_def heap_inv_def)
  have live: "m < ?n" "0 < m_refs (metas s ! m)" using meta_pool.live [OF p, of m] m(1) by auto
  have "length (entries s) = size ?R"
    using quota length_entries [of "entries s"] by (simp add: quota_inv_def meta_refs_def)
  also have "size ?R = (\<Sum>a \<in> {..< ?n}. count ?R a)"
  proof -
    have "set_mset ?R \<subseteq> {..< ?n}" using p by (auto simp: meta_pool.pool_inv_def)
    then show ?thesis unfolding size_multiset_overloaded_eq
      by (intro sum.mono_neutral_left) (auto simp: count_eq_zero_iff)
  qed
  also have "\<dots> + m_count (metas s ! m) = (\<Sum>a \<in> {..< ?n}. count ?R a + (if a = m then m_count (metas s ! m) else 0))"
    using live(1) by (simp add: sum.distrib)
  also have "\<dots> \<le> (\<Sum>a \<in> {..< ?n}. meta_pool.charge (metas s ! a))"
  proof (rule sum_mono)
    fix a assume a: "a \<in> {..< ?n}"
    have "m_refs (metas s ! a) = count (?R + N) a" using p a by (simp add: meta_pool.pool_inv_def)
    then show "count ?R a + (if a = m then m_count (metas s ! m) else 0) \<le> meta_pool.charge (metas s ! a)"
      using quota a m live by (cases "count ?R a = 0") (auto simp: quota_inv_def meta_pool.charge_def)
  qed
  also have "\<dots> = meta_used s"
    using p by (simp add: meta_pool.pool_inv_def sum_list_sum_nth atLeast0LessThan)
  also have "\<dots> \<le> META_CAP" using p by (simp add: meta_pool.pool_inv_def)
  finally show ?thesis .
qed

definition artifact_entry :: "FileObject \<Rightarrow> byte list \<Rightarrow> Entry option \<Rightarrow> bool" where
  "artifact_entry object data e \<longleftrightarrow>
     (\<exists>f. e = Some (EFile f) \<and> f_object f = object \<and> b_data (f_bytes f) = data \<and> \<not> f_source f)"

lemma lookup_insert_entry: "lookup k (insert_entry k' e s) = (if k = k' then Some e else lookup k s)"
  by (simp add: lookup_def AList.update_conv)

lemma lookup_insert_artifacts:
  assumes "distinct (map (\<lambda>p. fo_id (fst p)) acc)"
  shows "(\<forall>(f, b, m) \<in> set acc. artifact_entry f (b_data b) (lookup (fo_id f) (insert_artifacts acc s))) \<and>
    (\<forall>k. k \<notin> (\<lambda>p. fo_id (fst p)) ` set acc \<longrightarrow> lookup k (insert_artifacts acc s) = lookup k s)"
  using assms
proof (induction acc arbitrary: s)
  case (Cons x acc)
  obtain f b m where x: "x = (f, b, m)" by (cases x)
  let ?e = "EFile \<lparr>f_object = f, f_bytes = b, f_source = False, f_metadata = Some m\<rparr>"
  have s: "insert_artifacts (x # acc) s = insert_artifacts acc (insert_entry (fo_id f) ?e s)"
    by (simp add: x insert_artifacts_def)
  have n: "fo_id f \<notin> (\<lambda>p. fo_id (fst p)) ` set acc" and d: "distinct (map (\<lambda>p. fo_id (fst p)) acc)"
    using Cons.prems by (auto simp: x)
  note ih = Cons.IH [OF d, of "insert_entry (fo_id f) ?e s"]
  have "lookup (fo_id f) (insert_artifacts (x # acc) s) = Some ?e"
    unfolding s using ih n by (simp add: lookup_insert_entry)
  then have "artifact_entry f (b_data b) (lookup (fo_id f) (insert_artifacts (x # acc) s))"
    by (simp add: artifact_entry_def)
  moreover have "lookup k (insert_artifacts (x # acc) s) = lookup k s" if "k \<notin> (\<lambda>p. fo_id (fst p)) ` set (x # acc)" for k
    unfolding s using ih that by (simp add: x lookup_insert_entry)
  ultimately show ?case using ih unfolding s by (simp add: x)
qed (simp add: insert_artifacts_def)

lemma publish_succeeds:
  assumes i: "store_inv (add_mset reservation H) (add_mset metadata N) s" and quota: "quota_inv s"
    and sizes: "\<forall>(_, v) \<in> set files. length v \<le> PER_FILE_CAP"
    "sum_list (map (\<lambda>p. length (snd p)) files) \<le> r_size (resv s ! reservation)"
    and meta: "length files \<le> m_count (metas s ! metadata)" "count (meta_refs s) metadata = 0"
    and fresh: "distinct (map (\<lambda>p. fo_id (fst p)) files)" "\<forall>(f, _) \<in> set files. lookup (fo_id f) s = None"
    and size64: "r_size (resv s ! reservation) \<le> U64_MAX"
  shows "\<exists>s'. publish_artifact_batch files metadata reservation s = (Ok (), s') \<and>
    (\<forall>(f, v) \<in> set files. artifact_entry f v (lookup (fo_id f) s')) \<and>
    (\<forall>k. k \<notin> (\<lambda>p. fo_id (fst p)) ` set files \<longrightarrow> lookup k s' = lookup k s)"
proof -
  have l: "reservation < length (resv s)" "metadata < length (metas s)" using store_inv_live [OF i] by auto
  obtain acc s1 where c: "charge_files files metadata reservation [] s = (Ok (), acc, s1)"
    "map (\<lambda>(f, b, _). (f, b_data b)) acc = files"
    using charge_files_Ok [OF sizes(2) meta(1) l, of "[]"] by auto
  have tot: "batch_total files 0 = Some (sum_list (map (\<lambda>p. length (snd p)) files))"
    using batch_total_Some [of 0 files] sizes size64 by simp
  have "length (entries s) + length files \<le> META_CAP"
    using quota_bound [OF i quota, of metadata] meta by simp
  then have "\<not> META_CAP < sat_add (length (entries s)) (length files)" by (simp add: sat_add_def)
  moreover have "\<not> list_ex (\<lambda>(f, _). lookup (fo_id f) s \<noteq> None) files"
    using fresh(2) by (auto simp: list_ex_iff)
  ultimately have pub: "publish_artifact_batch files metadata reservation s =
      (Ok (), meta_drop metadata (arc_drop reservation (insert_artifacts acc s1)))" (is "_ = (_, ?s')")
    using tot sizes(2) c(1) by (simp add: publish_artifact_batch_def Let_def)
  have e1: "entries s1 = entries s"
    using charge_files_inv [OF _ _ _ c(1), of "add_mset reservation H" "add_mset metadata N"] i by simp
  have look: "lookup k ?s' = lookup k (insert_artifacts acc s1)" for k by (simp add: lookup_def)
  have ids: "map (\<lambda>p. fo_id (fst p)) acc = map (\<lambda>p. fo_id (fst p)) files"
    unfolding c(2) [symmetric] by (simp add: case_prod_beta)
  have keys: "(\<lambda>p. fo_id (fst p)) ` set acc = (\<lambda>p. fo_id (fst p)) ` set files"
    using arg_cong [OF ids, of set] by simp
  have a: "\<forall>(f, b, m) \<in> set acc. artifact_entry f (b_data b) (lookup (fo_id f) ?s')"
    "\<And>k. k \<notin> (\<lambda>p. fo_id (fst p)) ` set files \<Longrightarrow> lookup k ?s' = lookup k s1"
    using lookup_insert_artifacts [of acc s1] fresh(1) ids keys look by auto
  have "artifact_entry f v (lookup (fo_id f) ?s')" if "(f, v) \<in> set files" for f v
    using that a(1) unfolding c(2) [symmetric] by auto
  then show ?thesis using pub a(2) e1 by (auto simp: lookup_def)
qed

section \<open>Sizes of live cells\<close>

text \<open>
  Only \<open>split\<close> and \<open>shrink_to\<close> change the size of a reservation; every other operation keeps the sizes of
  all cells that exist.
\<close>

definition kept :: "Inner \<Rightarrow> Inner \<Rightarrow> bool" where
  "kept s s' \<longleftrightarrow> length (resv s) \<le> length (resv s') \<and> length (metas s) \<le> length (metas s') \<and>
     (\<forall>a < length (resv s). r_size (resv s' ! a) = r_size (resv s ! a) \<and> r_artifact (resv s' ! a) = r_artifact (resv s ! a)) \<and>
     (\<forall>a < length (metas s). m_count (metas s' ! a) = m_count (metas s ! a))"

named_theorems kept_intros \<open>operations that keep the sizes of cells\<close>

lemma kept_refl [kept_intros, simp]: "kept s s"
  by (simp add: kept_def)

lemma kept_trans: "kept s t \<Longrightarrow> kept t u \<Longrightarrow> kept s u"
  by (auto simp: kept_def)

lemma nth_update_same: "i < length xs \<Longrightarrow> f c = f (xs ! a) \<Longrightarrow> f (xs[a := c] ! i) = f (xs ! i)"
  by (cases "a = i") simp_all

lemma kept_cells [kept_intros]:
  "kept s (arc_clone a s)" "kept s (arc_drop a s)" "kept s (meta_clone m s)" "kept s (meta_drop m s)"
  by (simp_all add: kept_def cell_defs nth_update_same [of _ _ r_size] nth_update_same [of _ _ r_artifact]
      nth_update_same [of _ _ m_count])

lemma kept_acquire [kept_intros]:
  "input_reservation n s = (v, s') \<Longrightarrow> kept s s'" "artifact_budget n s = (v, s') \<Longrightarrow> kept s s'"
  "reserve_metadata n s = (v, s') \<Longrightarrow> kept s s'"
  by (auto simp: kept_def acquire_defs nth_append split: if_splits)

lemma kept_entries [kept_intros]: "kept s (s\<lparr>entries := es\<rparr>)" "kept s (remove_entry k s)" "kept s (s\<lparr>ids := i\<rparr>)"
  by (simp_all add: kept_def remove_entry_def)

lemma kept_folds [kept_intros]:
  "kept s (fold arc_drop as s)" "kept s (fold meta_drop as s)"
  by (induction as arbitrary: s) (auto intro: kept_trans [OF kept_cells(2)] kept_trans [OF kept_cells(4)])

lemma kept_drop_entry [kept_intros]: "kept s (drop_entry e s)"
  unfolding drop_entry_def by (rule kept_trans [OF kept_folds(1) kept_folds(2)])

lemma kept_fold_drop [kept_intros]: "kept s (fold (\<lambda>(_, e). drop_entry e) es s)"
  by (induction es arbitrary: s) (auto intro: kept_trans [OF kept_drop_entry] simp: case_prod_beta)

lemma kept_fold_remove [kept_intros]: "kept s (fold (\<lambda>(k, _). remove_entry k) es s)"
  by (simp add: kept_def)

lemma kept_cleanup [kept_intros]: "kept s (cleanup_expired now s)"
  unfolding cleanup_expired_def Let_def by (rule kept_trans [OF kept_fold_remove kept_fold_drop])

lemma kept_clear [kept_intros]: "kept s (clear_retained s)"
  unfolding clear_retained_def by (rule kept_trans [OF kept_entries(1) kept_fold_drop])

lemma kept_insert [kept_intros]: "kept s (insert_entry k e s)"
  by (auto simp: insert_entry_def Let_def kept_entries split: option.splits
      intro: kept_trans [OF kept_entries(1) kept_drop_entry])

end
