(* ===== verification/Uploads.thy ===== *)
theory Uploads
  imports Store
begin

text \<open>
  \<^verbatim>\<open>src/official_api/server/uploads.rs\<close>: the upload endpoints. Each critical section of a handler is one
  function on the store; a handler that releases the lock in between (\<open>create\<close>, \<open>put\<close>) is split there, so
  that other handlers may run in between. The clock is read by the caller: \<open>cnow\<close> is the time
  \<open>cleanup_expired\<close> sees and \<open>now\<close> the later reading. SHA-256 (as lowercase hexadecimal digits) is a
  parameter. Poisoned locks are not modelled.
\<close>

section \<open>Errors\<close>

definition shutting_down :: WireError where
  "shutting_down = \<lparr>we_status = 503, we_code = ''server_shutting_down'',
     we_message = ''The server is shutting down.'', we_param = None\<rparr>"

definition meta_exhausted :: WireError where
  "meta_exhausted = \<lparr>we_status = 429, we_code = ''capacity_exceeded'',
     we_message = ''Metadata capacity is exhausted.'', we_param = None\<rparr>"

definition input_exhausted :: WireError where
  "input_exhausted = \<lparr>we_status = 429, we_code = ''capacity_exceeded'',
     we_message = ''Input storage capacity is exhausted.'', we_param = None\<rparr>"

definition not_found :: WireError where
  "not_found = \<lparr>we_status = 404, we_code = ''not_found'',
     we_message = ''The requested resource was not found.'', we_param = None\<rparr>"

definition internal :: WireError where
  "internal = \<lparr>we_status = 500, we_code = ''server_error'',
     we_message = ''The request could not be processed.'', we_param = None\<rparr>"

definition not_writable :: WireError where
  "not_writable = \<lparr>we_status = 409, we_code = ''upload_conflict'',
     we_message = ''Upload is not writable.'', we_param = None\<rparr>"

definition completed_conflict :: WireError where
  "completed_conflict = \<lparr>we_status = 409, we_code = ''upload_conflict'',
     we_message = ''Completed uploads cannot be canceled.'', we_param = None\<rparr>"

definition incomplete :: WireError where
  "incomplete = \<lparr>we_status = 409, we_code = ''upload_incomplete'',
     we_message = ''Upload content is missing.'', we_param = None\<rparr>"

definition upload_timeout :: WireError where
  "upload_timeout = \<lparr>we_status = 408, we_code = ''upload_timeout'',
     we_message = ''Upload deadline exceeded.'', we_param = None\<rparr>"

definition digest_mismatch :: WireError where
  "digest_mismatch = bad ''sha256sum'' ''Upload digest does not match.''"

section \<open>Creation\<close>

definition upload_response :: "ustr \<Rightarrow> UploadCreate \<Rightarrow> int \<Rightarrow> int \<Rightarrow> FileObject option \<Rightarrow> UploadResponse" where
  "upload_response k req created expires file =
     \<lparr>ur_id = k, ur_bytes = uc_bytes req, ur_created_at = created, ur_expires_at = expires,
      ur_filename = uc_filename req, ur_purpose = uc_purpose req, ur_mime_type = uc_mime_type req,
      ur_sha256sum = uc_sha256sum req,
      ur_status = (if file \<noteq> None then ''completed'' else ''pending''),
      ur_upload_url = (if file \<noteq> None then None else Some (lit ''/v1/uploads/'' @ k @ lit ''/content'')),
      ur_upload_method = (if file \<noteq> None then None else Some ''PUT''),
      ur_upload_headers = (if file \<noteq> None then [] else [(''Content-Type'', uc_mime_type req)]),
      ur_file = file\<rparr>"

text \<open>What \<open>create\<close> holds when it reaches \<open>commit_upload\<close>.\<close>

record PendingUpload =
  pu_id :: ustr
  pu_request :: UploadCreate
  pu_now :: int
  pu_ttl :: nat
  pu_metadata :: nat
  pu_reservation :: nat

definition reserve_upload :: "int \<Rightarrow> UploadCreate \<Rightarrow> nat \<Rightarrow> Inner \<Rightarrow> PendingUpload wired \<times> Inner" where
  "reserve_upload now req ttl s =
     (let (k, s) = next_id ''upload'' s in
      case reserve_metadata 2 s of
        (None, s) \<Rightarrow> (Err meta_exhausted, s)
      | (Some m, s) \<Rightarrow>
          (case input_reservation (uc_bytes req) s of
             (None, s) \<Rightarrow> (Err input_exhausted, meta_drop m s)
           | (Some r, s) \<Rightarrow>
               (Ok \<lparr>pu_id = k, pu_request = req, pu_now = now, pu_ttl = ttl, pu_metadata = m,
                    pu_reservation = r\<rparr>, s)))"

definition create_reserve :: "StoreConfig \<Rightarrow> int \<Rightarrow> int \<Rightarrow> UploadCreate option \<Rightarrow> Inner \<Rightarrow>
    PendingUpload wired \<times> Inner" where
  "create_reserve cfg cnow now request s =
     (case request of
        None \<Rightarrow> (Err (bad ''body'' ''Invalid upload request.''), s)
      | Some req \<Rightarrow>
          if \<not> accepting s then (Err shutting_down, s)
          else let s = cleanup_expired cnow s in
          case validate_upload req of
            Err e \<Rightarrow> (Err e, s)
          | Ok _ \<Rightarrow>
              if uc_bytes req > file_cap cfg \<or> uc_bytes req > body_cap cfg then (Err too_large, s)
              else let ttl = (case uc_expires_after req of None \<Rightarrow> 3600 | Some v \<Rightarrow> ea_seconds v) in
              if \<not> retain_for cfg ttl
              then (Err (bad ''expires_after'' ''Expiry exceeds configured retention.''), s)
              else reserve_upload now req ttl s)"

definition commit_upload :: "PendingUpload \<Rightarrow> Inner \<Rightarrow> UploadResponse wired \<times> Inner" where
  "commit_upload p s =
     (if \<not> accepting s then (Err shutting_down, arc_drop (pu_reservation p) (meta_drop (pu_metadata p) s))
      else (Ok (upload_response (pu_id p) (pu_request p) (pu_now p) (pu_now p + int (pu_ttl p)) None),
            insert_entry (pu_id p)
              (EUpload \<lparr>up_request = pu_request p, up_created = pu_now p,
                 up_expires = pu_now p + int (pu_ttl p), up_bytes = None,
                 up_reservation = Some (pu_reservation p), up_metadata = pu_metadata p,
                 up_file_id = None, up_uploading = False\<rparr>) s))"

definition create :: "StoreConfig \<Rightarrow> int \<Rightarrow> int \<Rightarrow> UploadCreate option \<Rightarrow> Inner \<Rightarrow> UploadResponse wired \<times> Inner" where
  "create cfg cnow now request s =
     (case create_reserve cfg cnow now request s of
        (Err e, s) \<Rightarrow> (Err e, s)
      | (Ok p, s) \<Rightarrow> commit_upload p s)"

section \<open>Reading\<close>

definition get_upload :: "int \<Rightarrow> int \<Rightarrow> ustr \<Rightarrow> Inner \<Rightarrow> UploadResponse wired \<times> Inner" where
  "get_upload cnow now k s =
     (let s = cleanup_expired cnow s in
      (case lookup k s of
         Some (EUpload u) \<Rightarrow>
           if up_expires u > now
           then (case up_file_id u of
                   None \<Rightarrow> Ok (upload_response k (up_request u) (up_created u) (up_expires u) None)
                 | Some fid \<Rightarrow>
                     (case lookup fid s of
                        Some (EFile f) \<Rightarrow>
                          Ok (upload_response k (up_request u) (up_created u) (up_expires u) (Some (f_object f)))
                      | _ \<Rightarrow> Err not_found))
           else Err not_found
       | _ \<Rightarrow> Err not_found, s))"

section \<open>Content\<close>

definition put_upload_entry :: "ustr \<Rightarrow> Upload \<Rightarrow> Inner \<Rightarrow> Inner" where
  "put_upload_entry k u s = s\<lparr>entries := AList.update k (EUpload u) (entries s)\<rparr>"

record WriterGuard =
  wg_id :: ustr
  wg_expected :: nat
  wg_reservation :: nat

definition put_begin :: "StoreConfig \<Rightarrow> int \<Rightarrow> int \<Rightarrow> ustr \<Rightarrow> Inner \<Rightarrow> WriterGuard wired \<times> Inner" where
  "put_begin cfg cnow now k s =
     (let s = cleanup_expired cnow s in
      case lookup k s of
        Some (EUpload u) \<Rightarrow>
          if up_expires u > now \<and> up_file_id u = None \<and> up_bytes u = None \<and> \<not> up_uploading u
          then
            if uc_bytes (up_request u) > file_cap cfg \<or> uc_bytes (up_request u) > body_cap cfg
            then (Err too_large, s)
            else let s = put_upload_entry k (u\<lparr>up_uploading := True\<rparr>) s in
              (case up_reservation u of
                 None \<Rightarrow> (Err internal, s)
               | Some r \<Rightarrow>
                   (Ok \<lparr>wg_id = k, wg_expected = uc_bytes (up_request u), wg_reservation = r\<rparr>, arc_clone r s))
          else (Err not_writable, s)
      | _ \<Rightarrow> (Err not_found, s))"

text \<open>One event of the body stream: a chunk, a transport error, or the deadline.\<close>

datatype chunk = Chunk "byte list" | Interrupted | Deadline

fun read_body :: "nat \<Rightarrow> byte list \<Rightarrow> chunk list \<Rightarrow> byte list wired" where
  "read_body expected data [] =
     (if length data \<noteq> expected then Err (bad ''body'' ''Upload length does not match declaration.'') else Ok data)"
| "read_body expected data (Deadline # _) = Err upload_timeout"
| "read_body expected data (Interrupted # _) = Err (bad ''body'' ''Upload body was interrupted.'')"
| "read_body expected data (Chunk c # cs) =
     (if sat_add (length data) (length c) > expected then Err too_large
      else read_body expected (data @ c) cs)"

text \<open>\<open>WriterGuard::drop\<close> while active: the upload is removed, then the guard's own handle is dropped.\<close>

definition writer_abort :: "WriterGuard \<Rightarrow> Inner \<Rightarrow> Inner" where
  "writer_abort w s =
     arc_drop (wg_reservation w)
       (case lookup (wg_id w) s of
          None \<Rightarrow> s
        | Some e \<Rightarrow> drop_entry e (remove_entry (wg_id w) s))"

definition put_finish :: "(byte list \<Rightarrow> ustr) \<Rightarrow> WriterGuard \<Rightarrow> byte list \<Rightarrow> Inner \<Rightarrow> nat wired \<times> Inner" where
  "put_finish sha256_hex w data s =
     (case lookup (wg_id w) s of
        Some (EUpload u) \<Rightarrow>
          if is_none_or (\<lambda>v. v = sha256_hex data) (uc_sha256sum (up_request u))
          then
            let s = arc_clone (wg_reservation w) s;
                s = put_upload_entry (wg_id w)
                      (u\<lparr>up_bytes := Some (charged data (wg_reservation w)),
                         up_request := (up_request u)\<lparr>uc_sha256sum := Some (sha256_hex data)\<rparr>,
                         up_reservation := None, up_uploading := False\<rparr>) s;
                s = (case up_bytes u of None \<Rightarrow> s | Some b \<Rightarrow> arc_drop (b_res b) s);
                s = (case up_reservation u of None \<Rightarrow> s | Some r \<Rightarrow> arc_drop r s)
            in (Ok 200, arc_drop (wg_reservation w) s)
          else (Err digest_mismatch, writer_abort w s)
      | _ \<Rightarrow> (Err digest_mismatch, writer_abort w s))"

text \<open>The whole handler, when nothing else runs in between; \<open>content_length\<close> is the parsed header.\<close>

definition put :: "(byte list \<Rightarrow> ustr) \<Rightarrow> StoreConfig \<Rightarrow> int \<Rightarrow> int \<Rightarrow> ustr \<Rightarrow> nat option \<Rightarrow> chunk list \<Rightarrow> Inner \<Rightarrow>
    nat wired \<times> Inner" where
  "put sha256_hex cfg cnow now k content_length body s =
     (case put_begin cfg cnow now k s of
        (Err e, s) \<Rightarrow> (Err e, s)
      | (Ok w, s) \<Rightarrow>
          if (case content_length of Some n \<Rightarrow> n \<noteq> wg_expected w | None \<Rightarrow> False)
          then (Err (bad ''content-length'' ''Content length does not match upload.''), writer_abort w s)
          else (case read_body (wg_expected w) [] body of
                  Err e \<Rightarrow> (Err e, writer_abort w s)
                | Ok data \<Rightarrow> put_finish sha256_hex w data s))"

section \<open>Completion and cancellation\<close>

definition digest_differs :: "ustr option \<Rightarrow> UploadCreate \<Rightarrow> bool" where
  "digest_differs digest req = (case digest of Some d \<Rightarrow> uc_sha256sum req \<noteq> Some d | None \<Rightarrow> False)"

definition complete :: "int \<Rightarrow> int \<Rightarrow> ustr option wired \<Rightarrow> ustr \<Rightarrow> Inner \<Rightarrow> UploadResponse wired \<times> Inner" where
  "complete cnow now body k s =
     (let s = cleanup_expired cnow s in
      case body of
        Err _ \<Rightarrow> (Err (bad ''body'' ''Invalid completion request.''), s)
      | Ok digest \<Rightarrow>
          (case lookup k s of
             Some (EUpload u) \<Rightarrow>
               if up_expires u \<le> now then (Err not_found, s)
               else
                 (case up_file_id u of
                    Some file_id \<Rightarrow>
                      (case lookup file_id s of
                         Some (EFile f) \<Rightarrow>
                           if digest_differs digest (up_request u) then (Err digest_mismatch, s)
                           else (Ok (upload_response k (up_request u) (up_created u) (up_expires u)
                                       (Some (f_object f))), s)
                       | _ \<Rightarrow> (Err not_found, s))
                  | None \<Rightarrow>
                      (case up_bytes u of
                         None \<Rightarrow> (Err incomplete, s)
                       | Some b \<Rightarrow>
                           if digest_differs digest (up_request u) then (Err digest_mismatch, s)
                           else
                             let req = up_request u;
                                 s = arc_clone (b_res b) s;
                                 (file_id, s) = next_id ''file'' s;
                                 object = \<lparr>fo_id = file_id, fo_bytes = uc_bytes req, fo_created_at = up_created u,
                                   fo_expires_at = Some (up_expires u), fo_filename = uc_filename req,
                                   fo_purpose = uc_purpose req, fo_sha256sum = uc_sha256sum req\<rparr>;
                                 s = meta_clone (up_metadata u) s;
                                 s = insert_entry file_id
                                       (EFile \<lparr>f_object = object, f_bytes = b, f_source = True,
                                          f_metadata = Some (up_metadata u)\<rparr>) s;
                                 s = (case lookup k s of
                                        Some (EUpload upload) \<Rightarrow>
                                          let s = put_upload_entry k (upload\<lparr>up_file_id := Some file_id, up_bytes := None\<rparr>) s
                                          in (case up_bytes upload of None \<Rightarrow> s | Some b' \<Rightarrow> arc_drop (b_res b') s)
                                      | _ \<Rightarrow> s)
                             in (Ok (upload_response k req (up_created u) (up_expires u) (Some object)), s)))
           | _ \<Rightarrow> (Err not_found, s)))"

definition cancel_upload :: "int \<Rightarrow> ustr \<Rightarrow> Inner \<Rightarrow> UploadResponse wired \<times> Inner" where
  "cancel_upload cnow k s =
     (let s = cleanup_expired cnow s in
      case lookup k s of
        Some (EUpload u) \<Rightarrow>
          if up_file_id u \<noteq> None then (Err completed_conflict, s)
          else (Ok ((upload_response k (up_request u) (up_created u) (up_expires u) None)
                     \<lparr>ur_status := ''canceled'', ur_upload_url := None, ur_upload_method := None,
                      ur_upload_headers := []\<rparr>),
                drop_entry (EUpload u) (remove_entry k s))
      | _ \<Rightarrow> (Err not_found, s))"

section \<open>The invariant of the file store\<close>

text \<open>
  An upload is in one of three states: it still holds its input reservation (nothing written), it holds the
  charged content, or it is completed and the content has moved to its file. The reservation behind a
  content has exactly the size of the content.
\<close>

definition charged_exactly :: "Inner \<Rightarrow> bool \<Rightarrow> nat \<Rightarrow> Bytes \<Rightarrow> bool" where
  "charged_exactly s artifact n b \<longleftrightarrow> length (b_data b) = n \<and> r_size (resv s ! b_res b) = n \<and>
     r_artifact (resv s ! b_res b) = artifact"

fun entry_wf :: "Inner \<Rightarrow> Entry \<Rightarrow> bool" where
  "entry_wf s (EUpload u) \<longleftrightarrow>
     (case (up_file_id u, up_bytes u, up_reservation u) of
        (None, None, Some r) \<Rightarrow> r_size (resv s ! r) = uc_bytes (up_request u) \<and> \<not> r_artifact (resv s ! r)
      | (None, Some b, None) \<Rightarrow> \<not> up_uploading u \<and> charged_exactly s False (uc_bytes (up_request u)) b
      | (Some _, None, None) \<Rightarrow> \<not> up_uploading u
      | _ \<Rightarrow> False)"
| "entry_wf s (EFile f) \<longleftrightarrow> f_metadata f \<noteq> None \<and>
     charged_exactly s (\<not> f_source f) (fo_bytes (f_object f)) (f_bytes f)"

text \<open>A file is stored under its own identifier.\<close>

fun named :: "ustr \<times> Entry \<Rightarrow> bool" where
  "named (k, EUpload u) \<longleftrightarrow> True"
| "named (k, EFile f) \<longleftrightarrow> fo_id (f_object f) = k"

definition entries_wf :: "Inner \<Rightarrow> bool" where
  "entries_wf s \<longleftrightarrow> (\<forall>p \<in> set (entries s). entry_wf s (snd p) \<and> named p)"

fun own_slot :: "Inner \<Rightarrow> Entry \<Rightarrow> bool" where
  "own_slot s (EUpload u) \<longleftrightarrow> (up_file_id u = None \<longrightarrow>
     count (meta_refs s) (up_metadata u) = 1 \<and> m_count (metas s ! up_metadata u) = 2)"
| "own_slot s (EFile f) \<longleftrightarrow> True"

text \<open>Metadata handles held outside the entries (by \<open>N\<close>) back no entry yet.\<close>

definition slots_inv :: "nat multiset \<Rightarrow> Inner \<Rightarrow> bool" where
  "slots_inv N s \<longleftrightarrow> quota_inv s \<and> (\<forall>a \<in># N. count (meta_refs s) a = 0) \<and>
     (\<forall>p \<in> set (entries s). own_slot s (snd p))"

definition files_inv :: "nat multiset \<Rightarrow> nat multiset \<Rightarrow> Inner \<Rightarrow> bool" where
  "files_inv H N s \<longleftrightarrow> store_inv H N s \<and> entries_wf s \<and> slots_inv N s"

lemma entry_wf_kept:
  "entry_wf s e \<Longrightarrow> kept s s' \<Longrightarrow> \<forall>a \<in> set (entry_res e). a < length (resv s) \<Longrightarrow> entry_wf s' e"
  by (cases e) (auto simp: kept_def charged_exactly_def split: option.splits)

lemma entry_addresses:
  assumes "store_inv H N s" "p \<in> set (entries s)"
  shows "\<forall>a \<in> set (entry_res (snd p)). a < length (resv s)" "\<forall>a \<in> set (entry_meta (snd p)). a < length (metas s)"
  using assms store_inv_live [OF assms(1)]
  by (force simp: res_refs_def meta_refs_def case_prod_beta)+

lemma entries_wf_kept:
  assumes "store_inv H N s" "entries_wf s" "kept s s'" "set (entries s') \<subseteq> set (entries s)"
  shows "entries_wf s'"
  unfolding entries_wf_def
proof
  fix p assume "p \<in> set (entries s')"
  then have p: "p \<in> set (entries s)" using assms(4) by blast
  then show "entry_wf s' (snd p) \<and> named p"
    using assms(2) entry_wf_kept [OF _ assms(3) entry_addresses(1) [OF assms(1) p]] by (simp add: entries_wf_def)
qed

lemma meta_refs_filter:
  "entries s' = filter P (entries s) \<Longrightarrow> meta_refs s' \<subseteq># meta_refs s"
  using mset_concat_filter [of "\<lambda>(_, e). entry_meta e" "entries s" P] by (simp add: meta_refs_def)

lemma meta_in_refs: "p \<in> set (entries s) \<Longrightarrow> a \<in> set (entry_meta (snd p)) \<Longrightarrow> a \<in># meta_refs s"
  by (force simp: meta_refs_def case_prod_beta)

lemma slots_inv_filter:
  assumes i: "store_inv H N s" and sl: "slots_inv N s" and k: "kept s s'" and e: "entries s' = filter P (entries s)"
  shows "slots_inv N s'"
proof -
  note sub = meta_refs_filter [OF e]
  have c: "count (meta_refs s') a \<le> count (meta_refs s) a" for a using sub by (simp add: mset_subset_eq_count)
  have range: "a < length (metas s)" if "a \<in># meta_refs s" for a using store_inv_live(2) [OF i, of a] that by simp
  have q: "count (meta_refs s') a \<le> m_count (metas s' ! a)" if "a < length (metas s')" for a
  proof (cases "count (meta_refs s') a = 0")
    case False
    then have "a < length (metas s)" using c [of a] range by (metis count_eq_zero_iff le_zero_eq)
    then show ?thesis using c [of a] sl k by (fastforce simp: slots_inv_def quota_inv_def kept_def)
  qed simp
  have own: "own_slot s' (snd p)" if p: "p \<in> set (entries s')" for p
  proof (cases "snd p")
    case (EUpload u)
    have ps: "p \<in> set (entries s)" using p e by simp
    have m: "up_metadata u \<in># meta_refs s'" using meta_in_refs [OF p] EUpload by simp
    have "own_slot s (EUpload u)" using sl ps EUpload by (auto simp: slots_inv_def)
    moreover have "up_metadata u < length (metas s)" using range meta_in_refs [OF ps] EUpload by simp
    moreover have "count (meta_refs s') (up_metadata u) = 1" if "count (meta_refs s) (up_metadata u) = 1"
      using that c [of "up_metadata u"] count_greater_zero_iff [THEN iffD2, OF m] by linarith
    ultimately show ?thesis using EUpload k by (auto simp: kept_def)
  qed simp
  show ?thesis
    using sl c q own e by (auto simp: slots_inv_def quota_inv_def list_all_iff dest!: le_zero_eq [THEN iffD1])
      (metis count_greater_zero_iff gr_zeroI le_zero_eq not_gr_zero c)
qed

lemma cleanup_files_inv: "files_inv H N s \<Longrightarrow> files_inv H N (cleanup_expired now s)"
  using cleanup_expired_inv [of H N s now] entries_cleanup [of s now]
    entries_wf_kept [OF _ _ kept_cleanup] slots_inv_filter [OF _ _ kept_cleanup]
  by (auto simp: files_inv_def store_inv_def)

lemma entries_wf_same: "store_inv H N s \<Longrightarrow> entries_wf s \<Longrightarrow> kept s s' \<Longrightarrow> entries s' = entries s \<Longrightarrow> entries_wf s'"
  by (rule entries_wf_kept) auto

lemma files_inv_handles:
  assumes "files_inv H N s" "store_inv H' N' s'" "entries s' = entries s" "kept s s'"
    "\<forall>a \<in># N'. count (meta_refs s) a = 0"
  shows "files_inv H' N' s'"
proof -
  have "slots_inv N s'"
    using slots_inv_filter [of H N s s' "\<lambda>_. True"] assms by (simp add: files_inv_def)
  then show ?thesis
    using assms entries_wf_same [of H N s s'] refs_cong(2) [of s' s] by (simp add: files_inv_def slots_inv_def)
qed

lemma fresh_slot: "store_inv H N s \<Longrightarrow> count (meta_refs s) (length (metas s)) = 0"
  using store_inv_live(2) [of H N s "length (metas s)"] by (auto simp: count_eq_zero_iff)

lemma next_id_frame:
  assumes "next_id pre s = (k, s')"
  shows "entries s' = entries s" "kept s s'" "store_inv H N s' \<longleftrightarrow> store_inv H N s" "accepting s' = accepting s"
    "files_inv H N s' \<longleftrightarrow> files_inv H N s" "lookup k' s' = lookup k' s"
proof -
  have s': "s' = s\<lparr>ids := (ids s + 1) mod 2 ^ 64\<rparr>" using assms by (auto simp: next_id_def)
  show "entries s' = entries s" "kept s s'" "accepting s' = accepting s" "lookup k' s' = lookup k' s"
    by (simp_all add: s' kept_entries lookup_def)
  have h: "heap_inv R M s' \<longleftrightarrow> heap_inv R M s" for R M by (rule heap_frame) (simp_all add: s')
  show st: "store_inv H N s' \<longleftrightarrow> store_inv H N s" using h by (simp add: s' store_inv_def res_refs_def meta_refs_def)
  have e: "entry_wf s' e = entry_wf s e" "own_slot s' e = own_slot s e" for e
    by (cases e; simp add: s' charged_exactly_def meta_refs_def cong: option.case_cong)+
  show "files_inv H N s' \<longleftrightarrow> files_inv H N s"
    unfolding files_inv_def st entries_wf_def slots_inv_def e by (simp add: s' quota_inv_def meta_refs_def)
qed

text \<open>What the handler of \<open>create\<close> owns between its two critical sections.\<close>

definition pending_ok :: "PendingUpload \<Rightarrow> Inner \<Rightarrow> bool" where
  "pending_ok p s \<longleftrightarrow> pu_reservation p < length (resv s) \<and> pu_metadata p < length (metas s) \<and>
     r_size (resv s ! pu_reservation p) = uc_bytes (pu_request p) \<and> \<not> r_artifact (resv s ! pu_reservation p) \<and>
     m_count (metas s ! pu_metadata p) = 2"

lemma files_inv_slots: "files_inv H N s \<Longrightarrow> a \<in># N \<Longrightarrow> count (meta_refs s) a = 0"
  by (simp add: files_inv_def slots_inv_def)

lemma reserve_metadata_files_inv:
  assumes "files_inv H N s" "reserve_metadata n s = (Some a, s')"
  shows "files_inv H (add_mset a N) s' \<and> a < length (metas s') \<and> m_count (metas s' ! a) = n"
proof -
  have st: "store_inv H N s" using assms(1) by (simp add: files_inv_def)
  have a: "a = length (metas s)" "metas s' = metas s @ [\<lparr>m_count = n, m_refs = 1\<rparr>]"
    using assms(2) by (auto simp: acquire_defs split: if_splits)
  have "files_inv H (add_mset a N) s'"
    by (rule files_inv_handles [OF assms(1) store_inv_ops(5) [OF st assms(2)]])
      (use assms files_inv_slots acquire_frame(3) kept_acquire(3) fresh_slot [OF st] a(1) in auto)
  then show ?thesis by (simp add: a)
qed

lemma input_reservation_files_inv:
  assumes "files_inv H N s" "input_reservation n s = (Some b, s')"
  shows "files_inv (add_mset b H) N s' \<and> b < length (resv s') \<and> r_size (resv s' ! b) = n \<and> \<not> r_artifact (resv s' ! b)"
proof -
  have st: "store_inv H N s" using assms(1) by (simp add: files_inv_def)
  have b: "b = length (resv s)" "resv s' = resv s @ [\<lparr>r_size = n, r_artifact = False, r_refs = 1\<rparr>]"
    using assms(2) by (auto simp: acquire_defs split: if_splits)
  have "files_inv (add_mset b H) N s'"
    by (rule files_inv_handles [OF assms(1) store_inv_ops(3) [OF st assms(2)]])
      (use assms files_inv_slots acquire_frame(1) kept_acquire(1) in auto)
  then show ?thesis by (simp add: b)
qed

lemma drops_files_inv:
  "files_inv (add_mset a H) N s \<Longrightarrow> files_inv H N (arc_drop a s)"
  "files_inv H (add_mset m N) s \<Longrightarrow> files_inv H N (meta_drop m s)"
proof -
  assume i: "files_inv (add_mset a H) N s"
  then have "store_inv H N (arc_drop a s)" by (simp add: files_inv_def store_inv_drops)
  from files_inv_handles [OF i this _ kept_cells(2)] show "files_inv H N (arc_drop a s)" using files_inv_slots [OF i] by simp
next
  assume i: "files_inv H (add_mset m N) s"
  then have "store_inv H N (meta_drop m s)" by (simp add: files_inv_def store_inv_drops)
  from files_inv_handles [OF i this _ kept_cells(4)] show "files_inv H N (meta_drop m s)" using files_inv_slots [OF i] by simp
qed

lemma clone_files_inv:
  assumes "files_inv H N s" "a \<in># res_refs s + H"
  shows "files_inv (add_mset a H) N (arc_clone a s)"
  by (rule files_inv_handles [OF assms(1) store_inv_ops(1) [OF _ assms(2)]])
    (use assms files_inv_slots kept_cells(1) in \<open>auto simp: files_inv_def\<close>)

lemma reserve_upload_inv:
  assumes i: "files_inv H N s" and c: "reserve_upload now req ttl s = (r, s')"
  shows "(case r of
      Ok p \<Rightarrow> files_inv (add_mset (pu_reservation p) H) (add_mset (pu_metadata p) N) s' \<and> pending_ok p s' \<and> pu_request p = req
    | Err _ \<Rightarrow> files_inv H N s')"
proof -
  obtain k s1 where n: "next_id ''upload'' s = (k, s1)" by fastforce
  have i1: "files_inv H N s1" using next_id_frame(5) [OF n] i by simp
  obtain v s2 where m: "reserve_metadata 2 s1 = (v, s2)" by fastforce
  show ?thesis
  proof (cases v)
    case None
    then have "s2 = s1" using m meta_pool.acquire_None by blast
    then show ?thesis using c n m None i1 by (auto simp: reserve_upload_def)
  next
    case (Some a)
    note i2 = reserve_metadata_files_inv [OF i1 m [unfolded Some]]
    obtain v' s3 where b: "input_reservation (uc_bytes req) s2 = (v', s3)" by fastforce
    show ?thesis
    proof (cases v')
      case None
      then have "s3 = s2" using input_pool.acquire_None b by blast
      then show ?thesis using c n m Some b None i2 by (auto simp: reserve_upload_def drops_files_inv)
    next
      case (Some b')
      note i3 = input_reservation_files_inv [OF conjunct1 [OF i2] b [unfolded Some]]
      moreover have "kept s2 s3" using kept_acquire(1) [OF b] .
      ultimately show ?thesis using c n m \<open>v = Some a\<close> b Some i2
        by (auto simp: reserve_upload_def pending_ok_def kept_def)
    qed
  qed
qed

lemma create_reserve_cases:
  obtains (err) e s1 where "create_reserve cfg cnow now request s = (Err e, s1)" "s1 = s \<or> s1 = cleanup_expired cnow s"
  | (go) req ttl where "request = Some req" "accepting s" "validate_upload req = Ok ()" "uc_bytes req \<le> file_cap cfg"
      "uc_bytes req \<le> body_cap cfg" "ttl = (case uc_expires_after req of None \<Rightarrow> 3600 | Some v \<Rightarrow> ea_seconds v)"
      "retain_for cfg ttl"
      "create_reserve cfg cnow now request s = reserve_upload now req ttl (cleanup_expired cnow s)"
proof (cases request)
  case None
  then show ?thesis using err by (simp add: create_reserve_def)
next
  case (Some req)
  show ?thesis
  proof (cases "validate_upload req")
    case (Err e)
    then show ?thesis using Some err by (cases "accepting s") (simp_all add: create_reserve_def)
  next
    case (Ok u)
    let ?ttl = "case uc_expires_after req of None \<Rightarrow> 3600 | Some v \<Rightarrow> ea_seconds v"
    consider (1) "\<not> accepting s" | (2) "accepting s" "uc_bytes req > file_cap cfg \<or> uc_bytes req > body_cap cfg"
      | (3) "accepting s" "\<not> (uc_bytes req > file_cap cfg \<or> uc_bytes req > body_cap cfg)" "\<not> retain_for cfg ?ttl"
      | (4) "accepting s" "\<not> (uc_bytes req > file_cap cfg \<or> uc_bytes req > body_cap cfg)" "retain_for cfg ?ttl"
      by blast
    then show ?thesis
    proof cases
      case 4
      then have "create_reserve cfg cnow now request s = reserve_upload now req ?ttl (cleanup_expired cnow s)"
        using Ok Some by (simp add: create_reserve_def Let_def)
      then show ?thesis using go [OF Some] 4 Ok by (simp add: not_less)
    qed (use err Some Ok in \<open>simp_all add: create_reserve_def Let_def\<close>)
  qed
qed

lemma create_reserve_inv:
  assumes i: "files_inv H N s" and c: "create_reserve cfg cnow now request s = (r, s')"
  shows "(case r of
      Ok p \<Rightarrow> files_inv (add_mset (pu_reservation p) H) (add_mset (pu_metadata p) N) s' \<and> pending_ok p s'
    | Err _ \<Rightarrow> files_inv H N s')"
proof (cases rule: create_reserve_cases [of cfg cnow now request s])
  case err
  then show ?thesis using c i cleanup_files_inv [OF i] by auto
next
  case (go req ttl)
  then have "reserve_upload now req ttl (cleanup_expired cnow s) = (r, s')" using c by simp
  from reserve_upload_inv [OF cleanup_files_inv [OF i] this] show ?thesis by (cases r) auto
qed

lemma update_fresh: "map_of al k = None \<Longrightarrow> AList.update k v al = al @ [(k, v)]"
  by (induction al) (auto split: if_splits)

lemma insert_fresh:
  assumes "lookup k s = None"
  shows "insert_entry k e s = s\<lparr>entries := entries s @ [(k, e)]\<rparr>"
  using assms by (simp add: insert_entry_def lookup_def update_fresh)

lemma refs_insert_fresh:
  "res_refs (s\<lparr>entries := entries s @ [(k, e)]\<rparr>) = res_refs s + mset (entry_res e)"
  "meta_refs (s\<lparr>entries := entries s @ [(k, e)]\<rparr>) = meta_refs s + mset (entry_meta e)"
  by (simp_all add: res_refs_def meta_refs_def)

lemma entry_wf_cells: "resv s' = resv s \<Longrightarrow> entry_wf s' e = entry_wf s e"
  by (cases e) (simp_all add: charged_exactly_def cong: option.case_cong)

lemma commit_upload_inv:
  assumes i: "files_inv (add_mset (pu_reservation p) H) (add_mset (pu_metadata p) N) s" and p: "pending_ok p s"
    and m: "pu_metadata p \<notin># N" and fresh: "lookup (pu_id p) s = None" and c: "commit_upload p s = (r, s')"
  shows "files_inv H N s'"
proof (cases "accepting s")
  case False
  then have "s' = arc_drop (pu_reservation p) (meta_drop (pu_metadata p) s)" using c by (simp add: commit_upload_def)
  then show ?thesis using i by (simp add: drops_files_inv)
next
  case True
  define e where "e = EUpload \<lparr>up_request = pu_request p, up_created = pu_now p, up_expires = pu_now p + int (pu_ttl p),
    up_bytes = None, up_reservation = Some (pu_reservation p), up_metadata = pu_metadata p, up_file_id = None, up_uploading = False\<rparr>"
  have s': "s' = insert_entry (pu_id p) e s" using c True by (simp add: commit_upload_def e_def)
  then have s'': "s' = s\<lparr>entries := entries s @ [(pu_id p, e)]\<rparr>" using insert_fresh [OF fresh] by simp
  have st: "store_inv H N s'" unfolding s' by (rule insert_entry_inv) (use i in \<open>simp add: e_def files_inv_def\<close>)
  have wf: "entries_wf s'" using i p entry_wf_cells [of s' s]
    by (auto simp: s'' entries_wf_def files_inv_def e_def pending_ok_def)
  have ms: "metas s' = metas s" by (simp add: s'')
  have zero: "count (meta_refs s) (pu_metadata p) = 0" using files_inv_slots [OF i] by simp
  have mr: "meta_refs s' = add_mset (pu_metadata p) (meta_refs s)" using refs_insert_fresh(2) [of s] by (simp add: s'' e_def)
  have "own_slot s' (snd q)" if q: "q \<in> set (entries s')" for q
  proof (cases "q \<in> set (entries s)")
    case True
    then have "own_slot s (snd q)" using i by (simp add: files_inv_def slots_inv_def)
    moreover have "a \<noteq> pu_metadata p" if "a \<in> set (entry_meta (snd q))" for a
      using meta_in_refs [OF True that] zero by (auto simp: count_eq_zero_iff)
    ultimately show ?thesis using ms by (cases "snd q") (auto simp: mr)
  next
    case False
    then have "snd q = e" using q by (auto simp: s'')
    then show ?thesis using zero p ms by (simp add: e_def mr pending_ok_def)
  qed
  moreover have "quota_inv s'"
    unfolding quota_inv_def mr ms
    using i p zero by (auto simp: files_inv_def slots_inv_def quota_inv_def pending_ok_def s'' e_def)
  moreover have "\<forall>a \<in># N. count (meta_refs s') a = 0" using files_inv_slots [OF i] m mr by auto
  ultimately show ?thesis using st wf by (simp add: files_inv_def slots_inv_def)
qed

text \<open>Removing an entry and dropping it.\<close>

lemma delete_filter: "AList.delete k al = filter (\<lambda>p. fst p \<noteq> k) al"
  by (induction al) auto

lemma remove_files_inv:
  assumes i: "files_inv H N s" and l: "lookup k s = Some e"
  shows "files_inv H N (drop_entry e (remove_entry k s))"
proof -
  let ?s = "drop_entry e (remove_entry k s)"
  have k: "kept s ?s" by (rule kept_trans [OF kept_entries(2) kept_drop_entry])
  have e: "entries ?s = filter (\<lambda>p. fst p \<noteq> k) (entries s)" by (simp add: remove_entry_def delete_filter)
  have st: "store_inv H N ?s"
    by (rule store_inv_drop_entry [OF remove_entry_inv]) (use i l in \<open>simp_all add: files_inv_def\<close>)
  then show ?thesis using i entries_wf_kept [OF _ _ k] slots_inv_filter [OF _ _ k e] e
    by (auto simp: files_inv_def)
qed

lemma writer_abort_inv:
  assumes "files_inv (add_mset (wg_reservation w) H) N s"
  shows "files_inv H N (writer_abort w s)"
  using assms remove_files_inv [OF assms]
  by (auto simp: writer_abort_def intro!: drops_files_inv(1) split: option.split)

lemma cancel_upload_inv:
  assumes "files_inv H N s" "cancel_upload cnow k s = (r, s')"
  shows "files_inv H N s'"
  using assms(2) cleanup_files_inv [OF assms(1), of cnow]
    remove_files_inv [OF cleanup_files_inv [OF assms(1), of cnow], of k]
  by (auto simp: cancel_upload_def Let_def split: option.splits Entry.splits if_splits)

lemma get_upload_inv: "files_inv H N s \<Longrightarrow> files_inv H N (snd (get_upload cnow now k s))"
  by (simp add: get_upload_def Let_def cleanup_files_inv)

text \<open>Rewriting an upload in place: its metadata handle stays, the content handles are exchanged.\<close>

lemma set_update: "p \<in> set (AList.update k v al) \<Longrightarrow> p = (k, v) \<or> p \<in> set al \<and> (distinct (map fst al) \<longrightarrow> fst p \<noteq> k)"
  by (induction al) (auto split: if_splits)

lemma put_upload_entry_store_inv:
  assumes "store_inv H N s" "lookup k s = Some (EUpload u)" "up_metadata u' = up_metadata u"
    and ex: "mset (entry_res (EUpload u')) + H' = mset (entry_res (EUpload u)) + H"
  shows "store_inv H' N (put_upload_entry k u' s)" and "meta_refs (put_upload_entry k u' s) = meta_refs s"
proof -
  let ?s = "put_upload_entry k u' s"
  have h: "heap_inv R M ?s \<longleftrightarrow> heap_inv R M s" for R M by (rule heap_frame) (simp_all add: put_upload_entry_def)
  have "distinct (map fst (entries s))" using assms by (simp add: store_inv_def)
  then have d': "distinct (map fst (entries ?s))" by (simp add: put_upload_entry_def AList.distinct_update)
  have "res_refs ?s + mset (entry_res (EUpload u)) = mset (entry_res (EUpload u')) + res_refs s"
    using mset_update(2) [OF assms(2) [unfolded lookup_def], of entry_res "EUpload u'"]
    by (simp add: res_refs_def put_upload_entry_def)
  then have "(res_refs ?s + H') + mset (entry_res (EUpload u)) = (mset (entry_res (EUpload u')) + H') + res_refs s"
    by (metis add.assoc add.commute)
  then have r: "res_refs ?s + H' = res_refs s + H" unfolding ex by (metis add.assoc add.commute add_left_imp_eq)
  show m: "meta_refs ?s = meta_refs s"
    using mset_update(2) [OF assms(2) [unfolded lookup_def], of entry_meta "EUpload u'"] assms(3)
    by (simp add: meta_refs_def put_upload_entry_def)
  show "store_inv H' N ?s"
    unfolding store_inv_def r m h using assms d' by (simp add: store_inv_def)
qed

lemma put_upload_entry_inv:
  assumes i: "files_inv H N s" and l: "lookup k s = Some (EUpload u)"
    and m: "up_metadata u' = up_metadata u" and wf: "entry_wf s (EUpload u')"
    and fid: "up_file_id u' = None \<Longrightarrow> up_file_id u = None"
    and ex: "mset (entry_res (EUpload u')) + H' = mset (entry_res (EUpload u)) + H"
  shows "files_inv H' N (put_upload_entry k u' s)"
proof -
  let ?s = "put_upload_entry k u' s"
  have st: "store_inv H N s" using i by (simp add: files_inv_def)
  note r = put_upload_entry_store_inv [OF st l m ex]
  have es: "entries ?s = AList.update k (EUpload u') (entries s)" "metas ?s = metas s" "resv ?s = resv s"
    by (simp_all add: put_upload_entry_def)
  have own: "own_slot s (EUpload u)"
    using i l by (force simp: files_inv_def slots_inv_def lookup_def dest: map_of_SomeD)
  have same: "own_slot ?s e = own_slot s e" "entry_wf ?s e = entry_wf s e" for e
    by (cases e; simp add: r(2) es(2)) (rule entry_wf_cells [OF es(3)])
  have old: "entry_wf s (snd p) \<and> own_slot s (snd p) \<and> length (entry_meta (snd p)) = 1 \<and> named p" if "p \<in> set (entries s)" for p
    using that i by (auto simp: files_inv_def entries_wf_def slots_inv_def quota_inv_def list_all_iff)
  have new: "own_slot s (EUpload u')" using own m fid by simp
  have each: "entry_wf ?s (snd p) \<and> own_slot ?s (snd p) \<and> length (entry_meta (snd p)) = 1 \<and> named p"
    if p: "p \<in> set (entries ?s)" for p
  proof -
    consider "p = (k, EUpload u')" | "p \<in> set (entries s)" using set_update [OF p [unfolded es]] by blast
    then have "entry_wf s (snd p) \<and> own_slot s (snd p) \<and> length (entry_meta (snd p)) = 1 \<and> named p"
    proof cases
      case 1
      then show ?thesis using wf new by (simp del: entry_wf.simps own_slot.simps)
    qed (use old in blast)
    then show ?thesis unfolding same .
  qed
  have "entries_wf ?s" using each by (simp add: entries_wf_def)
  moreover have "quota_inv ?s" unfolding quota_inv_def r(2) es(2)
    using each i by (simp add: list_all_iff case_prod_beta files_inv_def slots_inv_def quota_inv_def)
  moreover have "\<forall>a \<in># N. count (meta_refs ?s) a = 0" using files_inv_slots [OF i] r(2) by simp
  ultimately show ?thesis using r(1) each by (simp add: files_inv_def slots_inv_def)
qed

lemma put_begin_cases:
  obtains (err) e where "put_begin cfg cnow now k s = (Err e, cleanup_expired cnow s)"
  | (corrupt) u where "lookup k (cleanup_expired cnow s) = Some (EUpload u)" "up_file_id u = None" "up_bytes u = None"
      "up_reservation u = None"
  | (go) u r where "lookup k (cleanup_expired cnow s) = Some (EUpload u)" "up_expires u > now" "up_file_id u = None"
      "up_bytes u = None" "\<not> up_uploading u" "up_reservation u = Some r" "uc_bytes (up_request u) \<le> file_cap cfg"
      "uc_bytes (up_request u) \<le> body_cap cfg"
      "put_begin cfg cnow now k s =
         (Ok \<lparr>wg_id = k, wg_expected = uc_bytes (up_request u), wg_reservation = r\<rparr>,
          arc_clone r (put_upload_entry k (u\<lparr>up_uploading := True\<rparr>) (cleanup_expired cnow s)))"
proof (cases "lookup k (cleanup_expired cnow s)")
  case None
  then show ?thesis using err by (simp add: put_begin_def Let_def)
next
  case (Some e)
  show ?thesis
  proof (cases e)
    case (EFile f)
    then show ?thesis using err Some by (simp add: put_begin_def Let_def)
  next
    case (EUpload u)
    show ?thesis
    proof (cases "up_expires u > now \<and> up_file_id u = None \<and> up_bytes u = None \<and> \<not> up_uploading u \<and>
        \<not> (uc_bytes (up_request u) > file_cap cfg \<or> uc_bytes (up_request u) > body_cap cfg)")
      case True
      then show ?thesis using Some EUpload corrupt go [of u]
        by (cases "up_reservation u") (auto simp: put_begin_def Let_def not_less)
    next
      case False
      then have "put_begin cfg cnow now k s = (Err not_writable, cleanup_expired cnow s) \<or>
          put_begin cfg cnow now k s = (Err too_large, cleanup_expired cnow s)"
        using Some EUpload by (auto simp: put_begin_def Let_def)
      then show ?thesis using err by blast
    qed
  qed
qed

lemma lookup_wf:
  assumes "files_inv H N s" "lookup k s = Some e"
  shows "entry_wf s e" "own_slot s e"
  using assms by (force simp: files_inv_def entries_wf_def slots_inv_def lookup_def dest: map_of_SomeD)+

text \<open>What a writer owns between the two critical sections of \<open>put\<close>.\<close>

definition writer_ok :: "WriterGuard \<Rightarrow> Inner \<Rightarrow> bool" where
  "writer_ok w s \<longleftrightarrow> wg_reservation w < length (resv s) \<and> r_size (resv s ! wg_reservation w) = wg_expected w \<and>
     \<not> r_artifact (resv s ! wg_reservation w) \<and>
     (case lookup (wg_id w) s of
        Some (EUpload u) \<Rightarrow> up_uploading u \<and> up_reservation u = Some (wg_reservation w) \<and>
          uc_bytes (up_request u) = wg_expected w
      | _ \<Rightarrow> True)"

lemma put_begin_inv:
  assumes i: "files_inv H N s" and p: "put_begin cfg cnow now k s = (r, s')"
  shows "case r of
      Ok w \<Rightarrow> files_inv (add_mset (wg_reservation w) H) N s' \<and> writer_ok w s' \<and> wg_id w = k \<and>
        wg_expected w \<le> file_cap cfg \<and> wg_expected w \<le> body_cap cfg
    | Err _ \<Rightarrow> files_inv H N s'"
proof (cases rule: put_begin_cases [of cfg cnow now k s])
  case err
  then show ?thesis using p cleanup_files_inv [OF i] by auto
next
  case corrupt
  then show ?thesis using lookup_wf(1) [OF cleanup_files_inv [OF i]] by fastforce
next
  case (go u a)
  let ?s0 = "cleanup_expired cnow s" and ?u = "u\<lparr>up_uploading := True\<rparr>"
  let ?s1 = "put_upload_entry k ?u ?s0"
  have i0: "files_inv H N ?s0" by (rule cleanup_files_inv [OF i])
  have wf: "entry_wf ?s0 (EUpload u)" using lookup_wf(1) [OF i0 go(1)] .
  have i1: "files_inv H N ?s1"
    by (rule put_upload_entry_inv [OF i0 go(1)]) (use go wf in simp_all)
  have l1: "lookup k ?s1 = Some (EUpload ?u)" by (simp add: lookup_def put_upload_entry_def AList.update_conv)
  have a1: "a \<in># res_refs ?s1" using entry_refs_sub(1) [OF l1] go(4,6) by simp
  then have "files_inv (add_mset a H) N (arc_clone a ?s1)" using clone_files_inv [OF i1] by simp
  moreover have "a < length (resv ?s1)" using a1 i1 store_inv_live(1) [of H N ?s1 a] by (simp add: files_inv_def)
  moreover have "lookup k (arc_clone a ?s1) = Some (EUpload ?u)" using l1 by (simp add: lookup_def)
  moreover have "kept ?s1 (arc_clone a ?s1)" by (rule kept_cells)
  moreover have "r_size (resv ?s1 ! a) = uc_bytes (up_request u)" "\<not> r_artifact (resv ?s1 ! a)"
    using wf go by (simp_all add: put_upload_entry_def)
  ultimately show ?thesis using p go by (auto simp: writer_ok_def kept_def)
qed

lemma arc_clone_lookup [simp]: "lookup k (arc_clone a s) = lookup k s" "lookup k (arc_drop a s) = lookup k s"
  "lookup k (meta_clone a s) = lookup k s" "lookup k (meta_drop a s) = lookup k s"
  by (simp_all add: lookup_def)

text \<open>\<open>put_finish\<close> on a writer whose upload is still there: the reservation moves into the content.\<close>

lemma put_finish_go:
  assumes w: "writer_ok w s" and l: "lookup (wg_id w) s = Some (EUpload u)"
    and wf: "entry_wf s (EUpload u)"
  shows "up_bytes u = None" "up_reservation u = Some (wg_reservation w)" "up_file_id u = None"
  using assms by (auto simp: writer_ok_def split: option.splits)

definition written :: "(byte list \<Rightarrow> ustr) \<Rightarrow> WriterGuard \<Rightarrow> byte list \<Rightarrow> Upload \<Rightarrow> Upload" where
  "written sha256_hex w data u =
     u\<lparr>up_bytes := Some (charged data (wg_reservation w)),
       up_request := (up_request u)\<lparr>uc_sha256sum := Some (sha256_hex data)\<rparr>,
       up_reservation := None, up_uploading := False\<rparr>"

lemma put_finish_inv:
  assumes i: "files_inv (add_mset (wg_reservation w) H) N s" and w: "writer_ok w s"
    and len: "length data = wg_expected w" and p: "put_finish sha256_hex w data s = (r, s')"
  shows "files_inv H N s'"
proof (cases "\<exists>u. lookup (wg_id w) s = Some (EUpload u) \<and> is_none_or (\<lambda>v. v = sha256_hex data) (uc_sha256sum (up_request u))")
  case False
  then have "s' = writer_abort w s" using p
    by (auto simp: put_finish_def split: option.splits Entry.splits if_splits)
  then show ?thesis using writer_abort_inv [OF i] by simp
next
  case True
  then obtain u where l: "lookup (wg_id w) s = Some (EUpload u)"
    and sha: "is_none_or (\<lambda>v. v = sha256_hex data) (uc_sha256sum (up_request u))" by blast
  let ?a = "wg_reservation w"
  let ?s1 = "arc_clone ?a s"
  let ?s2 = "put_upload_entry (wg_id w) (written sha256_hex w data u) ?s1"
  note u = put_finish_go [OF w l lookup_wf(1) [OF i l]]
  have s': "s' = arc_drop ?a (arc_drop ?a ?s2)" using p l sha u by (simp add: put_finish_def Let_def written_def)
  have i1: "files_inv (add_mset ?a (add_mset ?a H)) N ?s1" using clone_files_inv [OF i, of ?a] by simp
  have "kept s ?s1" by (rule kept_cells)
  then have wf: "entry_wf ?s1 (EUpload (written sha256_hex w data u))"
    using w l u len by (auto simp: written_def charged_exactly_def charged_def writer_ok_def kept_def)
  have i2: "files_inv (add_mset ?a (add_mset ?a H)) N ?s2"
    by (rule put_upload_entry_inv [where u = u, OF i1 _ _ wf]) (use l u in \<open>simp_all add: written_def charged_def\<close>)
  show ?thesis unfolding s' using i2 by (simp add: drops_files_inv)
qed

text \<open>\<open>complete\<close>: refused, repeated, or the step that turns the content into a file.\<close>

definition completed_object :: "ustr \<Rightarrow> Upload \<Rightarrow> FileObject" where
  "completed_object file_id u =
     \<lparr>fo_id = file_id, fo_bytes = uc_bytes (up_request u), fo_created_at = up_created u,
      fo_expires_at = Some (up_expires u), fo_filename = uc_filename (up_request u),
      fo_purpose = uc_purpose (up_request u), fo_sha256sum = uc_sha256sum (up_request u)\<rparr>"

definition completed_file :: "ustr \<Rightarrow> Upload \<Rightarrow> Bytes \<Rightarrow> Entry" where
  "completed_file file_id u b =
     EFile \<lparr>f_object = completed_object file_id u, f_bytes = b, f_source = True, f_metadata = Some (up_metadata u)\<rparr>"

definition completed_upload :: "ustr \<Rightarrow> Upload \<Rightarrow> Upload" where
  "completed_upload file_id u = u\<lparr>up_file_id := Some file_id, up_bytes := None\<rparr>"

definition complete_step :: "ustr \<Rightarrow> Upload \<Rightarrow> Bytes \<Rightarrow> Inner \<Rightarrow> Inner" where
  "complete_step k u b s =
     (let (file_id, s) = next_id ''file'' (arc_clone (b_res b) s)
      in arc_drop (b_res b) (put_upload_entry k (completed_upload file_id u)
           (insert_entry file_id (completed_file file_id u b) (meta_clone (up_metadata u) s))))"

lemma complete_cases:
  assumes fresh: "lookup (fst (next_id ''file'' s)) (cleanup_expired cnow s) = None"
  obtains (err) e where "complete cnow now body k s = (Err e, cleanup_expired cnow s)"
  | (again) u fid f where "lookup k (cleanup_expired cnow s) = Some (EUpload u)" "up_file_id u = Some fid"
      "lookup fid (cleanup_expired cnow s) = Some (EFile f)"
      "complete cnow now body k s =
         (Ok (upload_response k (up_request u) (up_created u) (up_expires u) (Some (f_object f))), cleanup_expired cnow s)"
  | (new) u b where "lookup k (cleanup_expired cnow s) = Some (EUpload u)" "up_expires u > now" "up_file_id u = None"
      "up_bytes u = Some b"
      "complete cnow now body k s =
         (Ok (upload_response k (up_request u) (up_created u) (up_expires u)
                (Some (completed_object (fst (next_id ''file'' s)) u))),
          complete_step k u b (cleanup_expired cnow s))"
proof -
  let ?s = "cleanup_expired cnow s" and ?fid = "fst (next_id ''file'' s)"
  show ?thesis
  proof (cases "\<exists>u b digest. body = Ok digest \<and> lookup k ?s = Some (EUpload u) \<and> up_expires u > now \<and>
      up_file_id u = None \<and> up_bytes u = Some b \<and> \<not> digest_differs digest (up_request u)")
    case True
    then obtain u b digest where h: "body = Ok digest" "lookup k ?s = Some (EUpload u)" "up_expires u > now"
      "up_file_id u = None" "up_bytes u = Some b" "\<not> digest_differs digest (up_request u)" by blast
    have "next_id ''file'' (arc_clone (b_res b) ?s) = (?fid, snd (next_id ''file'' (arc_clone (b_res b) ?s)))"
      by (simp add: next_id_def)
    moreover have "k \<noteq> ?fid" using h(2) fresh by auto
    ultimately have "complete cnow now body k s =
         (Ok (upload_response k (up_request u) (up_created u) (up_expires u) (Some (completed_object ?fid u))),
          complete_step k u b ?s)"
      using h by (auto simp: complete_def complete_step_def Let_def completed_file_def completed_object_def
          completed_upload_def lookup_insert_entry next_id_def not_le
          lookup_def [of _ "_\<lparr>ids := _\<rparr>"] lookup_def [of k ?s])
    then show ?thesis using new h by blast
  next
    case False
    then have "(\<exists>e. complete cnow now body k s = (Err e, ?s)) \<or>
       (\<exists>u fid f. lookup k ?s = Some (EUpload u) \<and> up_file_id u = Some fid \<and> lookup fid ?s = Some (EFile f) \<and>
         complete cnow now body k s =
           (Ok (upload_response k (up_request u) (up_created u) (up_expires u) (Some (f_object f))), ?s))"
      by (auto simp: complete_def Let_def not_le split: option.splits Entry.splits result.splits)
    then show ?thesis using err again by blast
  qed
qed

lemma two_references:
  assumes "p \<in> set es" "q \<in> set es" "p \<noteq> q" "a \<in> set (f p)" "a \<in> set (f q)"
  shows "2 \<le> count (mset (concat (map f es))) a"
proof -
  have pos: "1 \<le> count (mset (concat (map f es))) a" if "r \<in> set es" "a \<in> set (f r)" for es r
    using that by (induction es) (auto simp: Suc_le_eq)
  obtain xs ys where e: "es = xs @ p # ys" using assms(1) by (meson split_list)
  then have "q \<in> set xs \<or> q \<in> set ys" using assms(2,3) by auto
  moreover have "1 \<le> count (mset (f p)) a" using assms(4) by (simp add: Suc_le_eq)
  moreover have "count (mset (concat (map f es))) a =
      count (mset (concat (map f xs))) a + count (mset (f p)) a + count (mset (concat (map f ys))) a"
    by (simp add: e)
  ultimately show ?thesis using pos [OF _ assms(5), of xs] pos [OF _ assms(5), of ys] by linarith
qed

text \<open>The new file shares the metadata reservation of its upload, which counts two.\<close>

lemma complete_slots:
  assumes i: "files_inv H N s" and l: "lookup k s = Some (EUpload u)"
    and one: "count (meta_refs s) (up_metadata u) = 1" "m_count (metas s ! up_metadata u) = 2"
    and mr: "meta_refs s' = add_mset (up_metadata u) (meta_refs s)" and k: "kept s s'"
    and ent: "\<And>p. p \<in> set (entries s') \<Longrightarrow> p = (k, EUpload (completed_upload fid u)) \<or> p = (fid, completed_file fid u b) \<or>
      p \<in> set (entries s) \<and> fst p \<noteq> k"
  shows "slots_inv N s'"
proof -
  let ?m = "up_metadata u"
  have st: "store_inv H N s" using i by (simp add: files_inv_def)
  have ku: "(k, EUpload u) \<in> set (entries s)" using l by (simp add: lookup_def map_of_SomeD)
  have mem: "?m \<in># meta_refs s" using entry_refs_sub(2) [OF l] by simp
  have range: "a < length (metas s)" if "a \<in># meta_refs s" for a using store_inv_live(2) [OF st, of a] that by simp
  have "quota_inv s'" unfolding quota_inv_def
  proof (intro conjI allI impI)
    show "list_all (\<lambda>(_, e). length (entry_meta e) = 1) (entries s')"
      using ent i by (fastforce simp: list_all_iff completed_upload_def completed_file_def files_inv_def slots_inv_def quota_inv_def)
    fix a assume "a < length (metas s')"
    show "count (meta_refs s') a \<le> m_count (metas s' ! a)"
    proof (cases "a \<in># meta_refs s")
      case True
      then have "m_count (metas s' ! a) = m_count (metas s ! a)" "count (meta_refs s) a \<le> m_count (metas s ! a)"
        using range k i by (auto simp: kept_def files_inv_def slots_inv_def quota_inv_def)
      then show ?thesis using one by (auto simp: mr)
    next
      case False
      then have "a \<noteq> ?m" "count (meta_refs s) a = 0" using mem by (auto simp: count_eq_zero_iff)
      then show ?thesis by (simp add: mr)
    qed
  qed
  moreover have "\<forall>a \<in># N. count (meta_refs s') a = 0"
    using files_inv_slots [OF i] one by (auto simp: mr)
  moreover have "own_slot s' (snd p)" if "p \<in> set (entries s')" for p
    using ent [OF that]
  proof (elim disjE conjE)
    assume p: "p \<in> set (entries s)" "fst p \<noteq> k"
    have "a \<noteq> ?m" if "a \<in> set (entry_meta (snd p))" for a
    proof
      assume "a = ?m"
      then have "2 \<le> count (meta_refs s) ?m"
        using two_references [OF p(1) ku, of ?m "\<lambda>(_, e). entry_meta e"] p(2) that
        unfolding meta_refs_def by (cases p) auto
      then show False using one by simp
    qed
    moreover have "own_slot s (snd p)" using p i by (auto simp: files_inv_def slots_inv_def)
    moreover have "a < length (metas s)" if "a \<in> set (entry_meta (snd p))" for a using range meta_in_refs [OF p(1) that] .
    ultimately show ?thesis using k by (cases "snd p") (auto simp: mr kept_def)
  qed (simp_all add: completed_upload_def completed_file_def)
  ultimately show ?thesis by (simp add: slots_inv_def)
qed

lemma complete_step_inv:
  assumes i: "files_inv H N s" and l: "lookup k s = Some (EUpload u)" and u: "up_file_id u = None" "up_bytes u = Some b"
    and fresh: "lookup (fst (next_id ''file'' s)) s = None"
  shows "files_inv H N (complete_step k u b s)"
proof -
  let ?m = "up_metadata u"
  define fid where "fid = fst (next_id ''file'' s)"
  define s1 where "s1 = arc_clone (b_res b) s"
  define s2 where "s2 = snd (next_id ''file'' s1)"
  define s3 where "s3 = meta_clone ?m s2"
  define s4 where "s4 = insert_entry fid (completed_file fid u b) s3"
  define s5 where "s5 = put_upload_entry k (completed_upload fid u) s4"
  define s6 where "s6 = arc_drop (b_res b) s5"
  have n: "next_id ''file'' s1 = (fid, s2)" by (simp add: s2_def s1_def fid_def next_id_def)
  have s6: "complete_step k u b s = s6"
    using n by (simp add: complete_step_def s6_def s5_def s4_def s3_def s1_def)
  have wf: "entry_wf s (EUpload u)" "own_slot s (EUpload u)" using lookup_wf [OF i l] .
  then have r: "up_reservation u = None" and ce: "charged_exactly s False (uc_bytes (up_request u)) b" "\<not> up_uploading u"
    using u by (auto split: option.splits)
  have one: "count (meta_refs s) ?m = 1" "m_count (metas s ! ?m) = 2" using wf(2) u by simp_all
  have mem: "b_res b \<in># res_refs s" "?m \<in># meta_refs s" using entry_refs_sub [OF l] u r by simp_all
  have st0: "store_inv H N s" using i by (simp add: files_inv_def)
  have st1: "store_inv (add_mset (b_res b) H) N s1" using store_inv_ops(1) [OF st0] mem by (simp add: s1_def)
  have st2: "store_inv (add_mset (b_res b) H) N s2" using next_id_frame(3) [OF n] st1 by simp
  have e2: "entries s2 = entries s" using next_id_frame(1) [OF n] by (simp add: s1_def)
  have st3: "store_inv (add_mset (b_res b) H) (add_mset ?m N) s3"
    using store_inv_ops(2) [OF st2, of ?m] mem refs_cong(2) [OF e2] by (simp add: s3_def)
  have e3: "entries s3 = entries s" using e2 by (simp add: s3_def)
  have l3: "lookup x s3 = lookup x s" for x by (simp add: lookup_def e3)
  have st4: "store_inv H N s4" unfolding s4_def
    by (rule insert_entry_inv) (use st3 in \<open>simp add: completed_file_def\<close>)
  have e4: "s4 = s3\<lparr>entries := entries s @ [(fid, completed_file fid u b)]\<rparr>"
    using insert_fresh [of fid s3] fresh by (simp add: s4_def l3 fid_def e3)
  have ne: "k \<noteq> fid" using fresh l by (auto simp: fid_def)
  have l4: "lookup k s4 = Some (EUpload u)" using l l3 ne by (simp add: s4_def lookup_insert_entry)
  have st5: "store_inv (add_mset (b_res b) H) N s5" "meta_refs s5 = meta_refs s4" unfolding s5_def
    by (rule put_upload_entry_store_inv [OF st4 l4]; use u r in \<open>simp add: completed_upload_def\<close>)+
  have st6: "store_inv H N s6" using st5(1) by (simp add: s6_def store_inv_drops)
  have mr: "meta_refs s6 = add_mset ?m (meta_refs s)"
  proof -
    have "meta_refs s6 = meta_refs s5" by (rule refs_cong) (simp add: s6_def)
    then show ?thesis using st5(2) refs_insert_fresh(2) [of s3 fid] refs_cong(2) [OF e3]
      by (simp add: e4 e3 completed_file_def)
  qed
  have k6: "kept s s6"
    unfolding s6_def s5_def put_upload_entry_def e4 s3_def
    by (rule kept_trans [OF _ kept_cells(2)], rule kept_trans [OF _ kept_entries(1)], rule kept_trans [OF _ kept_entries(1)],
        rule kept_trans [OF _ kept_cells(3)], rule kept_trans [OF _ next_id_frame(2) [OF n]]) (simp add: s1_def kept_cells)
  have ent: "p = (k, EUpload (completed_upload fid u)) \<or> p = (fid, completed_file fid u b) \<or> p \<in> set (entries s) \<and> fst p \<noteq> k"
    if "p \<in> set (entries s6)" for p
  proof -
    have "p \<in> set (AList.update k (EUpload (completed_upload fid u)) (entries s4))"
      using that by (simp add: s6_def s5_def put_upload_entry_def)
    moreover have "distinct (map fst (entries s4))" using st4 by (simp add: store_inv_def)
    ultimately show ?thesis using set_update [of p k _ "entries s4"] by (auto simp: e4)
  qed
  show ?thesis unfolding s6 files_inv_def
  proof (intro conjI st6)
    have bl: "b_res b < length (resv s)" using store_inv_live(1) [OF st0, of "b_res b"] mem by simp
    show "entries_wf s6" unfolding entries_wf_def
    proof
      fix p assume "p \<in> set (entries s6)"
      from ent [OF this] show "entry_wf s6 (snd p) \<and> named p"
      proof (elim disjE conjE)
        assume "p \<in> set (entries s)"
        then show ?thesis using entry_wf_kept [OF _ k6 entry_addresses(1) [OF st0]] i by (auto simp: files_inv_def entries_wf_def)
      qed (use ce r k6 bl in \<open>auto simp: completed_upload_def completed_file_def completed_object_def charged_exactly_def kept_def\<close>)
    qed
    show "slots_inv N s6"
      by (rule complete_slots [OF i l one mr k6 ent])
  qed
qed

lemma complete_inv:
  assumes i: "files_inv H N s" and fresh: "lookup (fst (next_id ''file'' s)) s = None"
    and c: "complete cnow now body k s = (r, s')"
  shows "files_inv H N s'"
proof -
  let ?s = "cleanup_expired cnow s"
  have i0: "files_inv H N ?s" by (rule cleanup_files_inv [OF i])
  have "map_of (filter P es) x = None" if "map_of es x = None" for P es x and f :: "Entry"
    using that by (auto simp: map_of_eq_None_iff)
  then have f0: "lookup (fst (next_id ''file'' s)) ?s = None"
    using fresh entries_cleanup [of s cnow] i by (simp add: lookup_def files_inv_def store_inv_def)
  have n: "fst (next_id ''file'' ?s) = fst (next_id ''file'' s)" by (simp add: next_id_def)
  from f0 show ?thesis
  proof (cases rule: complete_cases [where now = now and body = body and k = k])
    case (new u b)
    then show ?thesis using c complete_step_inv [OF i0 new(1,3,4)] f0 n by simp
  qed (use c i0 in auto)
qed

lemma read_body_Ok_iff:
  assumes "n < U64_MAX"
  shows "read_body n data cs = Ok d \<longleftrightarrow> (\<exists>bs. cs = map Chunk bs \<and> d = data @ concat bs \<and> length d = n)"
  using assms
proof (induction n data cs rule: read_body.induct)
  case (4 n data c cs)
  have g: "sat_add (length data) (length c) > n \<longleftrightarrow> length data + length c > n"
    using 4(2) by (auto simp: sat_add_def)
  show ?case
  proof (cases "length data + length c > n")
    case True
    then show ?thesis using g by (auto simp: Cons_eq_map_conv)
  next
    case False
    then show ?thesis using 4 g by (auto simp: Cons_eq_map_conv)
  qed
qed (auto simp: Cons_eq_map_conv)

lemma read_body_Ok: "read_body n data cs = Ok d \<Longrightarrow> length d = n \<and> (\<exists>bs. cs = map Chunk bs \<and> d = data @ concat bs)"
proof (induction n data cs rule: read_body.induct)
  case (4 n data c cs)
  then obtain bs where "cs = map Chunk bs" "d = (data @ c) @ concat bs" "length d = n" by (auto split: if_splits)
  then show ?case by (auto intro: exI [of _ "c # bs"])
qed (auto split: if_splits)

lemma put_inv:
  assumes i: "files_inv H N s" and p: "put sha256_hex cfg cnow now k cl body s = (r, s')"
  shows "files_inv H N s'"
proof (cases "put_begin cfg cnow now k s")
  case (Pair v s1)
  show ?thesis
  proof (cases v)
    case (Err e)
    then show ?thesis using put_begin_inv [OF i Pair] p Pair by (simp add: put_def)
  next
    case (Ok w)
    then have w: "files_inv (add_mset (wg_reservation w) H) N s1" "writer_ok w s1"
      using put_begin_inv [OF i Pair] by simp_all
    consider "s' = writer_abort w s1" | data where "read_body (wg_expected w) [] body = Ok data"
      "put_finish sha256_hex w data s1 = (r, s')"
      using p Pair Ok by (auto simp: put_def split: if_splits result.splits)
    then show ?thesis
    proof cases
      case 1 then show ?thesis using writer_abort_inv [OF w(1)] by simp
    next
      case 2 then show ?thesis using put_finish_inv [OF w _ 2(2)] read_body_Ok [OF 2(1)] by simp
    qed
  qed
qed

lemma lookup_put_upload_entry: "lookup x (put_upload_entry k u s) = (if x = k then Some (EUpload u) else lookup x s)"
  by (simp add: lookup_def put_upload_entry_def AList.update_conv)

lemma put_Ok:
  assumes i: "files_inv H N s" and p: "put sha256_hex cfg cnow now k cl body s = (Ok c, s')"
  shows "\<exists>u bs. lookup k (cleanup_expired cnow s) = Some (EUpload u) \<and> up_expires u > now \<and>
    up_reservation u \<noteq> None \<and> body = map Chunk bs \<and> length (concat bs) = uc_bytes (up_request u) \<and>
    is_none_or (\<lambda>v. v = sha256_hex (concat bs)) (uc_sha256sum (up_request u)) \<and>
    lookup k s' = Some (EUpload (written sha256_hex
      \<lparr>wg_id = k, wg_expected = uc_bytes (up_request u), wg_reservation = the (up_reservation u)\<rparr> (concat bs) u))"
proof (cases rule: put_begin_cases [of cfg cnow now k s])
  case err
  then show ?thesis using p by (simp add: put_def)
next
  case corrupt
  then show ?thesis using lookup_wf(1) [OF cleanup_files_inv [OF i]] by fastforce
next
  case (go u r)
  let ?w = "\<lparr>wg_id = k, wg_expected = uc_bytes (up_request u), wg_reservation = r\<rparr>"
  let ?u = "u\<lparr>up_uploading := True\<rparr>"
  let ?s1 = "arc_clone r (put_upload_entry k ?u (cleanup_expired cnow s))"
  have l1: "lookup k ?s1 = Some (EUpload ?u)" by (simp add: lookup_put_upload_entry)
  obtain data where d: "read_body (uc_bytes (up_request u)) [] body = Ok data" "put_finish sha256_hex ?w data ?s1 = (Ok c, s')"
    using p go(9) by (auto simp: put_def split: if_splits result.splits)
  obtain bs where bs: "body = map Chunk bs" "data = concat bs" "length data = uc_bytes (up_request u)"
    using read_body_Ok [OF d(1)] by auto
  have sha: "is_none_or (\<lambda>v. v = sha256_hex data) (uc_sha256sum (up_request u))"
    using d(2) l1 by (auto simp: put_finish_def split: if_splits)
  then have "s' = arc_drop r (arc_drop r (put_upload_entry k (written sha256_hex ?w data ?u) (arc_clone r ?s1)))"
    using d(2) l1 go by (simp add: put_finish_def Let_def written_def)
  then have "lookup k s' = Some (EUpload (written sha256_hex ?w data ?u))" by (simp add: lookup_put_upload_entry)
  moreover have "written sha256_hex ?w data ?u = written sha256_hex ?w data u" by (simp add: written_def)
  ultimately show ?thesis using go bs sha by auto
qed

lemma lookup_cleanup:
  assumes "store_inv H N s"
  shows "lookup k (cleanup_expired now s) =
    (case lookup k s of Some e \<Rightarrow> if expired now e then None else Some e | None \<Rightarrow> None)"
proof -
  have d: "distinct (map fst (entries s))" using assms by (simp add: store_inv_def)
  have "distinct (map fst es) \<Longrightarrow> map_of (filter (\<lambda>p. \<not> expired now (snd p)) es) k =
      (case map_of es k of Some e \<Rightarrow> if expired now e then None else Some e | None \<Rightarrow> None)" for es
  proof (induction es)
    case (Cons p es)
    then show ?case by (cases p) (auto simp: map_of_eq_None_iff split: option.splits)
  qed simp
  then show ?thesis using d entries_cleanup [OF d] by (simp add: lookup_def)
qed

lemma lookup_complete_step:
  assumes "lookup (fst (next_id ''file'' s)) s = None" "lookup k s = Some (EUpload u)"
  shows "lookup x (complete_step k u b s) =
    (if x = k then Some (EUpload (completed_upload (fst (next_id ''file'' s)) u))
     else if x = fst (next_id ''file'' s) then Some (completed_file (fst (next_id ''file'' s)) u b)
     else lookup x s)"
proof -
  have "lookup x (snd (next_id ''file'' (arc_clone (b_res b) s))) = lookup x s" by (simp add: next_id_def lookup_def)
  moreover have "fst (next_id ''file'' (arc_clone (b_res b) s)) = fst (next_id ''file'' s)" by (simp add: next_id_def)
  ultimately show ?thesis
    by (simp add: complete_step_def case_prod_beta lookup_put_upload_entry lookup_insert_entry)
qed

section \<open>Properties\<close>

text \<open>
  C21: an upload that \<open>put\<close> accepts and \<open>complete\<close> turns into a file can be leased by a job with exactly the bytes
  of the request body: the body was sent as chunks whose total is the declared length, the file object carries
  that length and the SHA-256 of the bytes, and the store invariant holds afterwards, the lease being one more
  handle on the one input reservation made at creation.
\<close>

theorem upload_roundtrip:
  assumes "files_inv H N s" "put sha256_hex cfg cnow now k cl body s = (Ok c, s1)"
    and "complete cnow2 now2 (Ok None) k s1 = (Ok resp, s2)" "lookup (fst (next_id ''file'' s1)) s1 = None"
    and "ur_expires_at resp > now3"
  shows "\<exists>bs obj b s3. body = map Chunk bs \<and> ur_file resp = Some obj \<and>
    input_lease (fo_id obj) now3 s2 = (Some (obj, b), s3) \<and> b_data b = concat bs \<and>
    fo_bytes obj = length (concat bs) \<and> fo_sha256sum obj = Some (sha256_hex (concat bs)) \<and>
    files_inv (add_mset (b_res b) H) N s3"
proof -
  note i1 = put_inv [OF assms(1,2)]
  have st1: "store_inv H N s1" using i1 by (simp add: files_inv_def)
  note i2 = complete_inv [OF i1 assms(4,3)]
  obtain u bs where u: "body = map Chunk bs" "length (concat bs) = uc_bytes (up_request u)" "up_reservation u \<noteq> None"
    "lookup k (cleanup_expired cnow s) = Some (EUpload u)"
    "lookup k s1 = Some (EUpload (written sha256_hex \<lparr>wg_id = k, wg_expected = uc_bytes (up_request u),
       wg_reservation = the (up_reservation u)\<rparr> (concat bs) u))" (is "_ = Some (EUpload ?w)")
    using put_Ok [OF assms(1,2)] by blast
  have fid: "up_file_id u = None"
    using lookup_wf(1) [OF cleanup_files_inv [OF assms(1)] u(4)] u(3) by (auto split: option.splits)
  let ?fid = "fst (next_id ''file'' s1)" and ?s = "cleanup_expired cnow2 s1"
  have f0: "lookup ?fid ?s = None" using assms(4) lookup_cleanup [OF st1] by simp
  have n: "fst (next_id ''file'' ?s) = ?fid" by (simp add: next_id_def)
  from f0 show ?thesis
  proof (cases rule: complete_cases [where now = now2 and body = "Ok None" and k = k])
    case (new v b)
    have v: "v = ?w" using new(1) u(5) lookup_cleanup [OF st1, of k cnow2] by (auto split: if_splits)
    have b: "b_data b = concat bs" using new(4) by (auto simp: v written_def charged_def)
    let ?obj = "completed_object ?fid v"
    have s2: "s2 = complete_step k v b ?s" "ur_file resp = Some ?obj" "ur_expires_at resp = up_expires v"
      using assms(3) new(5) by (auto simp: upload_response_def)
    have "?fid \<noteq> k" using f0 new(1) by auto
    then have "lookup ?fid s2 = Some (completed_file ?fid v b)"
      unfolding s2(1) using lookup_complete_step [of ?s k v ?fid b] f0 n new(1) by simp
    then have "input_lease ?fid now3 s2 = (Some (?obj, b), arc_clone (b_res b) s2)"
      using assms(5) s2(3) by (simp add: input_lease_def completed_file_def completed_object_def)
    moreover have "files_inv (add_mset (b_res b) H) N (arc_clone (b_res b) s2)"
      using clone_files_inv [OF i2, of "b_res b"] entry_refs_sub(1) [of ?fid s2] \<open>lookup ?fid s2 = _\<close>
      by (simp add: completed_file_def)
    ultimately show ?thesis using u(1,2) b s2(2)
      by (intro exI [of _ bs] exI [of _ ?obj] exI [of _ b]) (simp add: completed_object_def v written_def)
  next
    case (again v f g)
    then show ?thesis using u(5) lookup_cleanup [OF st1, of k cnow2] fid by (auto simp: written_def split: if_splits)
  qed (use assms(3) in simp)
qed

text \<open>A store with one pending upload of a single byte, and the byte 7 put and completed.\<close>

definition sample_config :: StoreConfig where
  "sample_config = \<lparr>retention = 3600, limits = \<lparr>tl_file = 16, tl_body = 16, tl_zip = 16\<rparr>, max_concurrent = 1\<rparr>"

definition sample_request :: UploadCreate where
  "sample_request = \<lparr>uc_filename = lit ''a'', uc_bytes = 1, uc_mime_type = lit ''b'', uc_purpose = parse_purpose,
     uc_sha256sum = None, uc_expires_after = None\<rparr>"

definition sample_upload :: Upload where
  "sample_upload = \<lparr>up_request = sample_request, up_created = 0, up_expires = 3600, up_bytes = None,
     up_reservation = Some 0, up_metadata = 0, up_file_id = None, up_uploading = False\<rparr>"

definition sample_store :: Inner where
  "sample_store = \<lparr>entries = [(lit ''u'', EUpload sample_upload)], used = 1, artifact_used = 0, meta_used = 2, ids = 1,
     accepting = True, resv = [\<lparr>r_size = 1, r_artifact = False, r_refs = 1\<rparr>], metas = [\<lparr>m_count = 2, m_refs = 1\<rparr>]\<rparr>"

lemma sample_store_inv: "files_inv {#} {#} sample_store"
proof -
  have "store_inv {#} {#} sample_store"
    unfolding store_inv_def heap_inv_def input_pool.pool_inv_def artifact_pool.pool_inv_def meta_pool.pool_inv_def
    by (simp add: input_pool.charge_def artifact_pool.charge_def meta_pool.charge_def res_refs_def meta_refs_def
        sample_store_def sample_upload_def INPUT_CAP_def META_CAP_def)
  then show ?thesis
    by (simp add: files_inv_def entries_wf_def slots_inv_def quota_inv_def meta_refs_def
        sample_store_def sample_upload_def sample_request_def)
qed

definition sample_written :: Inner where
  "sample_written = snd (put (\<lambda>_. []) sample_config 0 0 (lit ''u'') None [Chunk [7]] sample_store)"

definition sample_done :: "UploadResponse wired \<times> Inner" where
  "sample_done = complete 0 0 (Ok None) (lit ''u'') sample_written"

lemma sample_cleanup: "cleanup_expired 0 sample_store = sample_store"
  by (simp add: cleanup_expired_def sample_store_def sample_upload_def)

lemma sample_lookup: "lookup (lit ''u'') sample_store = Some (EUpload sample_upload)"
  by (simp add: lookup_def sample_store_def)

lemma sample_put: "put (\<lambda>_. []) sample_config 0 0 (lit ''u'') None [Chunk [7]] sample_store = (Ok 200, sample_written)"
  and sample_written_entries: "\<exists>u b. entries sample_written = [(lit ''u'', EUpload u)] \<and> up_file_id u = None \<and> up_bytes u = Some b \<and>
    up_expires u = 3600"
proof -
  let ?u = "sample_upload\<lparr>up_uploading := True\<rparr>" and ?k = "lit ''u''"
  let ?s1 = "arc_clone 0 (put_upload_entry ?k ?u sample_store)"
  let ?w = "\<lparr>wg_id = ?k, wg_expected = 1, wg_reservation = 0\<rparr>"
  let ?v = "written (\<lambda>_. []) ?w [7] ?u"
  let ?s2 = "arc_drop 0 (arc_drop 0 (put_upload_entry ?k ?v (arc_clone 0 ?s1)))"
  have b: "put_begin sample_config 0 0 ?k sample_store = (Ok ?w, ?s1)"
    unfolding put_begin_def Let_def sample_cleanup sample_lookup
    by (simp add: sample_upload_def sample_request_def sample_config_def file_cap_def body_cap_def)
  have r: "read_body 1 [] [Chunk [7]] = Ok [7]" by (simp add: sat_add_def U64_MAX_def)
  have l: "lookup ?k ?s1 = Some (EUpload ?u)" by (simp add: lookup_put_upload_entry)
  have f: "put_finish (\<lambda>_. []) ?w [7] ?s1 = (Ok 200, ?s2)"
    using l by (simp add: put_finish_def sample_upload_def sample_request_def written_def Let_def)
  have p: "put (\<lambda>_. []) sample_config 0 0 ?k None [Chunk [7]] sample_store = (Ok 200, ?s2)"
    unfolding put_def b using r f by simp
  then show "put (\<lambda>_. []) sample_config 0 0 ?k None [Chunk [7]] sample_store = (Ok 200, sample_written)"
    unfolding sample_written_def by simp
  have "entries sample_written = [(?k, EUpload ?v)]"
    unfolding sample_written_def p by (simp add: put_upload_entry_def sample_store_def)
  then show "\<exists>u b. entries sample_written = [(?k, EUpload u)] \<and> up_file_id u = None \<and> up_bytes u = Some b \<and>
      up_expires u = 3600"
    by (simp add: written_def sample_upload_def)
qed

lemma sample_complete: "\<exists>resp. sample_done = (Ok resp, snd sample_done) \<and> ur_expires_at resp = 3600"
proof -
  obtain u b where u: "entries sample_written = [(lit ''u'', EUpload u)]" "up_file_id u = None" "up_bytes u = Some b"
    "up_expires u = 3600" using sample_written_entries by blast
  have "cleanup_expired 0 sample_written = sample_written" using u by (simp add: cleanup_expired_def)
  then show ?thesis using u
    by (simp add: sample_done_def complete_def lookup_def digest_differs_def Let_def case_prod_beta upload_response_def)
qed

lemma sample_fresh: "lookup (fst (next_id ''file'' sample_written)) sample_written = None"
  using sample_written_entries by (auto simp: lookup_def next_id_def)

lemma sample_done_inv: "files_inv {#} {#} (snd sample_done)"
  unfolding sample_done_def
  by (rule complete_inv [OF put_inv [OF sample_store_inv sample_put] sample_fresh surjective_pairing])

theorem upload_roundtrip_witness:
  "\<exists>obj b s3. input_lease (fo_id obj) 5 (snd sample_done) = (Some (obj, b), s3) \<and> b_data b = [7] \<and> fo_bytes obj = 1"
proof -
  obtain resp where r: "complete 0 0 (Ok None) (lit ''u'') sample_written = (Ok resp, snd sample_done)" "ur_expires_at resp = 3600"
    using sample_complete by (auto simp: sample_done_def)
  show ?thesis using upload_roundtrip [OF sample_store_inv sample_put r(1) sample_fresh, of 5] r(2)
    by (auto simp: Cons_eq_map_conv)
qed

end
