(* ===== verification/Paging.thy ===== *)
theory Paging
  imports Wire "HOL-Library.List_Lexorder" "HOL-Library.Product_Lexorder"
begin

text \<open>
  The cursor pagination shared by the list endpoints of \<^verbatim>\<open>src/official_api/server/files.rs\<close> and
  \<^verbatim>\<open>src/official_api/server/jobs/query.rs\<close>: the statements both handlers end with, and the contract of an
  endpoint whose pages enumerate a list.
\<close>

text \<open>\<open>if let Some(i) = data.iter().position(|v| id == after) { data.drain(..=i) }\<close>\<close>

definition drain_after :: "('a \<Rightarrow> ustr) \<Rightarrow> ustr option \<Rightarrow> 'a list \<Rightarrow> 'a list" where
  "drain_after key after data =
     (case after of
        None \<Rightarrow> data
      | Some a \<Rightarrow> if a \<in> key ` set data then tl (dropWhile (\<lambda>v. key v \<noteq> a) data) else data)"

definition page :: "('a \<Rightarrow> ustr) \<Rightarrow> nat \<Rightarrow> 'a list \<Rightarrow> 'a ListResponse" where
  "page key limit data =
     (let shown = take limit data in
      \<lparr>lr_data = shown,
       lr_first_id = (case shown of [] \<Rightarrow> None | x # _ \<Rightarrow> Some (key x)),
       lr_last_id = (if shown = [] then None else Some (key (last shown))),
       lr_has_more = (length data > limit)\<rparr>)"

lemma drain_after_None [simp]: "drain_after key None xs = xs"
  by (simp add: drain_after_def)

lemma dropWhile_to:
  assumes "distinct (map key (xs @ x # ys))"
  shows "dropWhile (\<lambda>v. key v \<noteq> key x) (xs @ x # ys) = x # ys"
  using assms by (induction xs) auto

lemma drain_after_split:
  assumes "distinct (map key (xs @ x # ys))"
  shows "drain_after key (Some (key x)) (xs @ x # ys) = ys"
  using dropWhile_to [OF assms] by (simp add: drain_after_def)

lemma drain_after_filter:
  assumes "distinct (map key xs)" "x \<in> set (filter P xs)"
  shows "filter P (drain_after key (Some (key x)) xs) = drain_after key (Some (key x)) (filter P xs)"
proof -
  obtain as bs where xs: "xs = as @ x # bs" "P x" using assms(2) by (auto dest: split_list)
  have "distinct (map key (filter P xs))" using assms(1) by (simp add: distinct_map inj_on_def)
  then have d: "distinct (map key (filter P as @ x # filter P bs))" by (simp add: xs)
  show ?thesis
    using drain_after_split [of key as x bs] assms(1) drain_after_split [OF d] by (simp add: xs)
qed

text \<open>A client that follows \<open>last_id\<close> while \<open>has_more\<close> is set, for at most \<open>n\<close> requests.\<close>

fun walk :: "(ustr option \<Rightarrow> 'a ListResponse) \<Rightarrow> nat \<Rightarrow> ustr option \<Rightarrow> 'a list" where
  "walk fetch 0 after = []"
| "walk fetch (Suc n) after =
     (let r = fetch after
      in lr_data r @ (if lr_has_more r then walk fetch n (lr_last_id r) else []))"

locale cursor_list =
  fixes inv :: "'s \<Rightarrow> bool" and items :: "'s \<Rightarrow> 'q \<Rightarrow> 'a list" and key :: "'a \<Rightarrow> ustr" and limit :: "'q \<Rightarrow> nat"
    and valid :: "'q \<Rightarrow> bool" and fetch :: "'s \<Rightarrow> 'q \<Rightarrow> ustr option \<Rightarrow> 'a ListResponse"
  assumes keys: "inv s \<Longrightarrow> distinct (map key (items s q))"
    and valid_limit: "valid q \<Longrightarrow> 0 < limit q"
    and fetch_first: "inv s \<Longrightarrow> valid q \<Longrightarrow> fetch s q None = page key (limit q) (items s q)"
    and fetch_next: "inv s \<Longrightarrow> valid q \<Longrightarrow> x \<in> set (items s q) \<Longrightarrow>
      fetch s q (Some (key x)) = page key (limit q) (drain_after key (Some (key x)) (items s q))"
begin

lemma walk_from:
  assumes "inv s" "valid q" "items s q = xs @ ys" "length ys < n"
    and after: "after = (if xs = [] then None else Some (key (last xs)))"
  shows "walk (fetch s q) n after = ys"
  using assms(3-)
proof (induction n arbitrary: xs ys after)
  case (Suc n)
  have f: "fetch s q after = page key (limit q) ys"
  proof (cases xs rule: rev_cases)
    case Nil
    then show ?thesis using Suc.prems fetch_first [OF assms(1,2)] by simp
  next
    case (snoc zs x)
    then have e: "items s q = zs @ x # ys" using Suc.prems(1) by simp
    then show ?thesis using Suc.prems(3) snoc fetch_next [OF assms(1,2), of x] keys [OF assms(1), of q]
      drain_after_split [of key zs x ys] by simp
  qed
  show ?case
  proof (cases "length ys > limit q")
    case False
    then show ?thesis by (simp add: f page_def Let_def)
  next
    case True
    let ?t = "take (limit q) ys"
    have ne: "?t \<noteq> []" using True valid_limit [OF assms(2)] by auto
    have "walk (fetch s q) n (Some (key (last ?t))) = drop (limit q) ys"
      using Suc.IH [of "xs @ ?t" "drop (limit q) ys"] Suc.prems True valid_limit [OF assms(2)] ne by simp
    then show ?thesis using True ne by (simp add: f page_def Let_def)
  qed
qed simp

lemma walk_complete: "inv s \<Longrightarrow> valid q \<Longrightarrow> length (items s q) < n \<Longrightarrow> walk (fetch s q) n None = items s q"
  using walk_from [of s q "[]"] by simp

end

end
