(* ===== verification/Files.thy ===== *)
theory Files
  imports Uploads Paging
begin

text \<open>
  \<^verbatim>\<open>src/official_api/server/files.rs\<close>: listing, reading, deleting and downloading stored files.
\<close>

record FileQuery =
  fq_after :: "ustr option"
  fq_limit :: "nat option"
  fq_order :: "ListOrder option"
  fq_purpose :: "ustr option"

definition file_objects :: "ustr option \<Rightarrow> Inner \<Rightarrow> FileObject list" where
  "file_objects purpose s =
     List.map_filter (\<lambda>(_, e). case e of
         EFile f \<Rightarrow> if is_none_or (\<lambda>p. p = fo_purpose (f_object f)) purpose then Some (f_object f) else None
       | EUpload _ \<Rightarrow> None) (entries s)"

definition sorted_files :: "ListOrder option \<Rightarrow> ustr option \<Rightarrow> Inner \<Rightarrow> FileObject list" where
  "sorted_files order purpose s =
     (let data = sort_key (\<lambda>f. (fo_created_at f, fo_id f)) (file_objects purpose s)
      in if order = Some Desc then rev data else data)"

definition list_files :: "int \<Rightarrow> FileQuery wired \<Rightarrow> Inner \<Rightarrow> FileObject ListResponse wired \<times> Inner" where
  "list_files cnow query s =
     (let s = cleanup_expired cnow s in
      (and_then (case query of Ok q \<Rightarrow> Ok q | Err _ \<Rightarrow> Err (bad ''query'' ''Invalid file list query.'')) (\<lambda>q.
       if (case fq_purpose q of Some p \<Rightarrow> p \<noteq> lit ''parse'' \<and> p \<noteq> lit ''input_image'' | None \<Rightarrow> False)
       then Err (bad ''purpose'' ''Unsupported file purpose.'')
       else and_then (pagination_validate \<lparr>pg_after = fq_after q, pg_limit = fq_limit q, pg_order = fq_order q\<rparr> 100 1000)
              (\<lambda>limit. Ok (page fo_id limit
                 (drain_after fo_id (fq_after q) (sorted_files (fq_order q) (fq_purpose q) s))))), s))"

definition get_file :: "int \<Rightarrow> int \<Rightarrow> ustr \<Rightarrow> Inner \<Rightarrow> FileObject wired \<times> Inner" where
  "get_file cnow now k s =
     (let s = cleanup_expired cnow s in (ok_or (store_file k now s) not_found, s))"

record FileDeletion =
  fd_id :: ustr
  fd_deleted :: bool

definition delete_file :: "int \<Rightarrow> ustr \<Rightarrow> Inner \<Rightarrow> FileDeletion wired \<times> Inner" where
  "delete_file cnow k s =
     (let s = cleanup_expired cnow s in
      case lookup k s of
        Some (EFile f) \<Rightarrow> (Ok \<lparr>fd_id = k, fd_deleted = True\<rparr>, drop_entry (EFile f) (remove_entry k s))
      | _ \<Rightarrow> (Err not_found, s))"

definition not_downloadable :: WireError where
  "not_downloadable = \<lparr>we_status = 403, we_code = ''file_not_downloadable'',
     we_message = ''Source file content is not available for download.'', we_param = None\<rparr>"

definition safe_name :: "ustr \<Rightarrow> ustr" where
  "safe_name nm = take 128 (filter (\<lambda>c. is_ascii_alphanumeric c \<or> c = 46 \<or> c = 45 \<or> c = 95) nm)"

definition disposition :: "ustr \<Rightarrow> ustr" where
  "disposition nm =
     lit ''attachment; filename='' @ [34] @ (if safe_name nm = [] then lit ''artifact'' else safe_name nm) @ [34]"

text \<open>The response body keeps the content's reservation alive until it is sent.\<close>

definition content :: "int \<Rightarrow> ustr \<Rightarrow> Inner \<Rightarrow> (Bytes \<times> ustr) wired \<times> Inner" where
  "content cnow k s =
     (let s = cleanup_expired cnow s in
      case lookup k s of
        Some (EFile f) \<Rightarrow>
          if f_source f then (Err not_downloadable, s)
          else (Ok (f_bytes f, disposition (fo_filename (f_object f))), arc_clone (b_res (f_bytes f)) s)
      | _ \<Rightarrow> (Err not_found, s))"

section \<open>Listing\<close>

definition file_limit :: "FileQuery \<Rightarrow> nat" where
  "file_limit q = (case fq_limit q of Some l \<Rightarrow> l | None \<Rightarrow> 100)"

definition valid_file_query :: "FileQuery \<Rightarrow> bool" where
  "valid_file_query q \<longleftrightarrow> 0 < file_limit q \<and> file_limit q \<le> 1000 \<and>
     is_none_or (\<lambda>p. p = lit ''parse'' \<or> p = lit ''input_image'') (fq_purpose q)"

definition file_page :: "int \<times> Inner \<Rightarrow> FileQuery \<Rightarrow> ustr option \<Rightarrow> FileObject ListResponse" where
  "file_page st q after = ok_val (fst (list_files (fst st) (Ok (q\<lparr>fq_after := after\<rparr>)) (snd st)))"

lemma list_files_Ok:
  assumes "valid_file_query q"
  shows "fst (list_files cnow (Ok q) s) =
    Ok (page fo_id (file_limit q) (drain_after fo_id (fq_after q) (sorted_files (fq_order q) (fq_purpose q) (cleanup_expired cnow s))))"
  using assms
  by (auto simp: list_files_def Let_def valid_file_query_def file_limit_def pagination_validate_def split: option.splits)

lemma file_objects_ids:
  assumes "distinct (map fst es)" "\<forall>p \<in> set es. named p"
  shows "distinct (map fo_id (file_objects purpose (s\<lparr>entries := es\<rparr>)))"
proof -
  let ?g = "\<lambda>(_, e). case e of
         EFile f \<Rightarrow> if is_none_or (\<lambda>p. p = fo_purpose (f_object f)) purpose then Some (f_object f) else None
       | EUpload _ \<Rightarrow> None"
  have "distinct (map fo_id (List.map_filter ?g es)) \<and> set (map fo_id (List.map_filter ?g es)) \<subseteq> fst ` set es"
    using assms
  proof (induction es)
    case (Cons p es)
    obtain k e where p: "p = (k, e)" by (cases p)
    show ?case using Cons by (cases e) (auto simp: p map_filter_simps)
  qed (simp add: map_filter_simps)
  then show ?thesis by (simp add: file_objects_def)
qed

lemma sorted_files_ids:
  assumes "files_inv H N s"
  shows "distinct (map fo_id (sorted_files order purpose s))"
proof -
  have "distinct (map fo_id (file_objects purpose s))"
    using file_objects_ids [of "entries s" purpose s] assms by (simp add: files_inv_def store_inv_def entries_wf_def)
  then have "distinct (map fo_id (sort_key (\<lambda>f. (fo_created_at f, fo_id f)) (file_objects purpose s)))"
    by (simp add: distinct_map)
  then show ?thesis by (simp add: sorted_files_def Let_def rev_map [symmetric])
qed

interpretation file_pages: cursor_list "\<lambda>st. \<exists>H N. files_inv H N (snd st)"
  "\<lambda>st q. sorted_files (fq_order q) (fq_purpose q) (cleanup_expired (fst st) (snd st))" fo_id file_limit valid_file_query file_page
proof (unfold_locales, goal_cases)
  case (1 st q)
  then show ?case using sorted_files_ids cleanup_files_inv by blast
next
  case (2 q)
  then show ?case by (simp add: valid_file_query_def)
next
  case (3 st q)
  then have "valid_file_query (q\<lparr>fq_after := None\<rparr>)" by (simp add: valid_file_query_def file_limit_def)
  then show ?case by (simp add: file_page_def list_files_Ok file_limit_def)
next
  case (4 st q x)
  then have "valid_file_query (q\<lparr>fq_after := Some (fo_id x)\<rparr>)" by (simp add: valid_file_query_def file_limit_def)
  then show ?case by (simp add: file_page_def list_files_Ok file_limit_def)
qed

section \<open>Deletion and download\<close>

lemma delete_file_inv:
  assumes "files_inv H N s" "delete_file cnow k s = (r, s')"
  shows "files_inv H N s'"
  using assms(2) cleanup_files_inv [OF assms(1), of cnow]
    remove_files_inv [OF cleanup_files_inv [OF assms(1), of cnow], of k]
  by (auto simp: delete_file_def Let_def split: option.splits Entry.splits)

lemma content_inv:
  assumes "files_inv H N s" "content cnow k s = (r, s')"
  shows "case r of Ok (b, _) \<Rightarrow> files_inv (add_mset (b_res b) H) N s' | Err _ \<Rightarrow> files_inv H N s'"
proof -
  have i: "files_inv H N (cleanup_expired cnow s)" by (rule cleanup_files_inv [OF assms(1)])
  show ?thesis
  proof (cases "\<exists>f. lookup k (cleanup_expired cnow s) = Some (EFile f) \<and> \<not> f_source f")
    case True
    then obtain f where f: "lookup k (cleanup_expired cnow s) = Some (EFile f)" "\<not> f_source f" by blast
    then show ?thesis using assms(2) clone_files_inv [OF i, of "b_res (f_bytes f)"] entry_refs_sub(1) [OF f(1)]
      by (auto simp: content_def Let_def)
  next
    case False
    then show ?thesis using assms(2) i by (auto simp: content_def Let_def split: option.splits Entry.splits)
  qed
qed

section \<open>Properties\<close>

text \<open>
  C22: following the cursor of \<open>GET /v1/files\<close> from the first page enumerates every file that matches the query
  exactly once, in the order of creation time and identifier (reversed for \<open>desc\<close>), whatever the page size.
\<close>

theorem list_files_walk:
  assumes "files_inv H N s" "valid_file_query q"
  shows "walk (file_page (cnow, s) q) (Suc (length (entries s))) None =
      sorted_files (fq_order q) (fq_purpose q) (cleanup_expired cnow s) \<and>
    mset (sorted_files (fq_order q) (fq_purpose q) (cleanup_expired cnow s)) =
      mset (file_objects (fq_purpose q) (cleanup_expired cnow s))"
proof -
  let ?s = "cleanup_expired cnow s"
  have "length (file_objects p t) \<le> length (entries t)" for p t
    by (simp add: file_objects_def List.map_filter_def)
  moreover have "length (entries ?s) \<le> length (entries s)"
    using entries_cleanup [of s cnow] assms(1) by (simp add: files_inv_def store_inv_def)
  ultimately have "length (sorted_files (fq_order q) (fq_purpose q) ?s) < Suc (length (entries s))"
    by (simp add: sorted_files_def Let_def le_less_trans less_Suc_eq_le) (meson le_trans)
  then have "walk (file_page (cnow, s) q) (Suc (length (entries s))) None = sorted_files (fq_order q) (fq_purpose q) ?s"
    using file_pages.walk_complete [of "(cnow, s)" q "Suc (length (entries s))"] assms by (simp only: fst_conv snd_conv) blast
  then show ?thesis by (simp only: simp_thms) (simp add: sorted_files_def Let_def)
qed

theorem list_files_walk_witness:
  "walk (file_page (0, snd sample_done) \<lparr>fq_after = None, fq_limit = Some 1, fq_order = Some Desc, fq_purpose = None\<rparr>)
     (Suc (length (entries (snd sample_done)))) None =
   sorted_files (Some Desc) None (cleanup_expired 0 (snd sample_done))"
proof -
  have "files_inv {#} {#} (snd sample_done)" by (rule sample_done_inv)
  then show ?thesis
    using list_files_walk [of "{#}" "{#}" "snd sample_done"
      "\<lparr>fq_after = None, fq_limit = Some 1, fq_order = Some Desc, fq_purpose = None\<rparr>" 0]
    by (simp add: valid_file_query_def file_limit_def)
qed

text \<open>
  The download header is well formed for every stored name: the attachment name is at most 128 characters
  out of ASCII letters, digits, dot, dash and underscore, never empty, so it holds no quote, separator or
  control character.
\<close>

theorem disposition_safe:
  "\<exists>nm'. disposition nm = lit ''attachment; filename='' @ [34] @ nm' @ [34] \<and> nm' \<noteq> [] \<and> length nm' \<le> 128 \<and>
     list_all (\<lambda>c. is_ascii_alphanumeric c \<or> c = 46 \<or> c = 45 \<or> c = 95) nm'"
  by (intro exI [of _ "if safe_name nm = [] then lit ''artifact'' else safe_name nm"])
     (auto simp: disposition_def safe_name_def list_all_iff is_ascii_alphanumeric_def dest: in_set_takeD)

end
