(* ===== verification/Submission.thy ===== *)
theory Submission
  imports Wire
begin

text \<open>
  \<^verbatim>\<open>src/official_api/server/submission.rs\<close> and \<^verbatim>\<open>src/official_api/server/jobs/tier.rs\<close>: the submission
  shared by the job and task endpoints, its validation, and the tier a document is parsed with.
\<close>

definition decoded_size :: "ustr \<Rightarrow> nat" where
  "decoded_size data = blen data div 4 * 3 - padding (str_bytes data)"

datatype InputSource = FileId ustr | Inline ustr ustr | Raw ustr "byte list"

record SubmittedFile =
  sf_source :: InputSource
  sf_page_range :: "ustr option"

record submission =
  sub_files :: "SubmittedFile list"
  sub_tier :: "Tier option"
  sub_ocr_mode :: OcrMode
  sub_output_formats :: "OutputFormat list"

fun input_source :: "JobSource \<Rightarrow> InputSource" where
  "input_source (SrcFileId file_id) = FileId file_id"
| "input_source (SrcInline nm data) = Inline nm data"

definition from_create :: "JobCreate \<Rightarrow> submission" where
  "from_create req =
     \<lparr>sub_files = map (\<lambda>f. \<lparr>sf_source = input_source (jf_source f), sf_page_range = jf_page_range f\<rparr>) (jc_files req),
      sub_tier = jc_tier req, sub_ocr_mode = jc_ocr_mode req, sub_output_formats = jc_output_formats req\<rparr>"

fun validate_submitted :: "SubmittedFile \<Rightarrow> unit wired" where
  "validate_submitted f =
     and_then (case sf_page_range f of Some rng \<Rightarrow> validate_page_range rng | None \<Rightarrow> Ok ()) (\<lambda>_.
     case sf_source f of
       FileId file_id \<Rightarrow>
         if trim file_id = [] then Err (bad ''file_id'' ''A file identifier is required.'') else Ok ()
     | Inline nm data \<Rightarrow>
         if trim nm = [] \<or> blen nm > 255 then Err (bad ''name'' ''A valid filename is required.'')
         else validate_inline_base64 data
     | Raw nm _ \<Rightarrow>
         if trim nm = [] \<or> blen nm > 255 then Err (bad ''name'' ''A valid filename is required.'') else Ok ())"

fun validate_submitted_files :: "SubmittedFile list \<Rightarrow> unit wired" where
  "validate_submitted_files [] = Ok ()"
| "validate_submitted_files (f # fs) = and_then (validate_submitted f) (\<lambda>_. validate_submitted_files fs)"

definition submission_validate :: "submission \<Rightarrow> unit wired" where
  "submission_validate r =
     (if sub_files r = [] \<or> length (sub_files r) > 100
      then Err (bad ''files'' ''Expected between 1 and 100 files.'')
      else if sub_output_formats r = []
      then Err (bad ''output_formats'' ''At least one output format is required.'')
      else if \<not> distinct (sub_output_formats r)
      then Err (bad ''output_formats'' ''Output formats must be unique.'')
      else validate_submitted_files (sub_files r))"

section \<open>Tiers\<close>

datatype OfficialTier = TFlash | TBasic | TStandard | TAdvanced

fun convert_tier :: "Tier \<Rightarrow> OfficialTier" where
  "convert_tier Flash = TFlash"
| "convert_tier Basic = TBasic"
| "convert_tier Standard = TStandard"
| "convert_tier Advanced = TAdvanced"

definition image_extensions :: "ustr list" where
  "image_extensions = map lit [''pdf'', ''png'', ''jpg'', ''jpeg'', ''webp'', ''gif'', ''bmp'', ''tiff'', ''jp2'']"

definition is_native :: "ustr \<Rightarrow> bool" where
  "is_native nm \<longleftrightarrow> map to_ascii_lowercase (last (split_on 46 nm)) \<notin> set image_extensions"

definition requested_tier :: "Tier option \<Rightarrow> ustr \<Rightarrow> OfficialTier" where
  "requested_tier request nm =
     (case request of Some t \<Rightarrow> convert_tier t | None \<Rightarrow> if is_native nm then TFlash else TStandard)"

section \<open>Lemmas\<close>

lemma validate_submitted_files_map:
  "validate_submitted_files (map (\<lambda>f. \<lparr>sf_source = input_source (jf_source f), sf_page_range = jf_page_range f\<rparr>) fs) =
   validate_job_files fs"
proof (induction fs)
  case (Cons f fs)
  then show ?case by (cases "jf_source f") simp_all
qed simp

lemma formats_length: "distinct (fs :: OutputFormat list) \<Longrightarrow> length fs \<le> 4"
proof -
  assume d: "distinct fs"
  have "set fs \<subseteq> {Markdown, MiddleJson, StructuredContent, Zip}" by (auto intro: OutputFormat.exhaust)
  from card_mono [OF _ this] show ?thesis using distinct_card [OF d] by simp
qed

lemma validated_formats:
  assumes "submission_validate r = Ok ()"
  shows "0 < length (sub_files r)" "length (sub_files r) \<le> 100" "0 < length (sub_output_formats r)"
    "length (sub_output_formats r) \<le> 4" "distinct (sub_output_formats r)"
proof -
  show d: "distinct (sub_output_formats r)" "0 < length (sub_files r)" "length (sub_files r) \<le> 100"
    "0 < length (sub_output_formats r)"
    using assms by (auto simp: submission_validate_def split: if_splits)
  show "length (sub_output_formats r) \<le> 4" using formats_length [OF d(1)] .
qed

lemma validated_file: "submission_validate r = Ok () \<Longrightarrow> f \<in> set (sub_files r) \<Longrightarrow> validate_submitted f = Ok ()"
proof -
  assume a: "submission_validate r = Ok ()" "f \<in> set (sub_files r)"
  have "validate_submitted_files fs = Ok () \<Longrightarrow> f \<in> set fs \<Longrightarrow> validate_submitted f = Ok ()" for fs
    by (induction fs) (auto simp: and_then_Ok_iff simp del: validate_submitted.simps)
  then show ?thesis using a by (auto simp: submission_validate_def simp del: validate_submitted.simps split: if_splits)
qed

lemma inline_size:
  assumes "validate_inline_base64 data = Ok ()"
  shows "decoded_size data \<le> INLINE_MAX_BYTES" "padding (str_bytes data) \<le> blen data div 4 * 3"
proof -
  obtain k where k: "base64_text data k" "length data div 4 * 3 - k \<le> INLINE_MAX_BYTES"
    using assms by (auto simp: validate_inline_base64_Ok_iff)
  note id = base64_text_ascii [OF k(1)]
  have len: "blen data = length data" using length_str_bytes [of data] id by simp
  have pad: "padding data = k" using base64_text_padding [OF k(1)] .
  show "decoded_size data \<le> INLINE_MAX_BYTES" using k(2) by (simp add: decoded_size_def id pad len)
  obtain body where b: "data = body @ replicate k 61" "k \<le> 2" "length data mod 4 = 0"
    using k(1) by (auto simp: base64_text_def)
  show "padding (str_bytes data) \<le> blen data div 4 * 3"
  proof (cases "k = 0")
    case False
    then have "0 < length data" using b(1) by simp
    then have "4 \<le> length data" using b(3) by (metis dvd_imp_le mod_eq_0_iff_dvd)
    then have "1 \<le> length data div 4" by simp
    then show ?thesis using b(2) by (simp add: id pad len)
  qed (simp add: id pad)
qed

section \<open>Properties\<close>

text \<open>
  The two validations of a job request agree, error included: a JSON job is accepted by
  \<open>JobCreate::validate\<close> exactly when the submission made from it is accepted by the shared pipeline.
\<close>

theorem submission_validate_from_create:
  "submission_validate (from_create req) = validate_job_create req"
  by (simp add: submission_validate_def validate_job_create_def from_create_def validate_submitted_files_map)

text \<open>
  For inline data that validation accepts, the size charged to the input pool is three bytes per quantum
  less the padding, the subtraction does not saturate, and it is at most one MiB.
\<close>

theorem decoded_size_bounded:
  assumes "validate_inline_base64 data = Ok ()"
  shows "decoded_size data + padding (str_bytes data) = blen data div 4 * 3 \<and> decoded_size data \<le> INLINE_MAX_BYTES"
  using inline_size [OF assms] by (simp add: decoded_size_def)

theorem decoded_size_bounded_witness:
  "decoded_size (lit ''QQ=='') + padding (str_bytes (lit ''QQ=='')) = blen (lit ''QQ=='') div 4 * 3"
proof -
  have "validate_inline_base64 (lit ''QQ=='') = Ok ()"
    by (simp add: validate_inline_base64_def INLINE_MAX_BYTES_def padding_def enc_char_def len_utf8_def
        is_ascii_alphanumeric_def is_ascii_digit_def)
  then show ?thesis using decoded_size_bounded by blast
qed

end
