(* ===== verification/Jobs.thy ===== *)
theory Jobs
  imports Files Submission
begin

text \<open>
  \<^verbatim>\<open>src/official_api/server/jobs.rs\<close>, \<^verbatim>\<open>jobs/query.rs\<close>, \<^verbatim>\<open>jobs/output.rs\<close> and the data of
  \<^verbatim>\<open>service.rs\<close>: parse jobs from admission to the terminal state. Every critical section is one function on
  the service state. The clock (\<open>now\<close>), the timestamp text (\<open>stamp\<close>), base64 decoding, SHA-256, rendering and
  the parser's outcome are parameters. The \<open>Arc\<close> of a job record is its place in the job map; a runner that
  works on a job keeps the record alive.
\<close>

section \<open>Data\<close>

record OutputReference =
  or_file_id :: ustr
  or_bytes :: nat

record JobFileResponse =
  jfr_file_id :: "ustr option"
  jfr_name :: ustr
  jfr_page_range :: ustr
  jfr_status :: string
  jfr_parse :: "nat option"
  jfr_output_files :: "(string \<times> OutputReference) list option"
  jfr_error :: "ApiErrorBody option"

record JobProgress =
  jp_total :: nat
  jp_completed :: nat
  jp_failed :: nat

record JobLinks =
  jl_self_url :: ustr
  jl_cancel :: ustr

record JobResponse =
  jr_job_id :: ustr
  jr_status :: string
  jr_created_at :: ustr
  jr_started_at :: "ustr option"
  jr_finished_at :: "ustr option"
  jr_tier :: Tier
  jr_output_formats :: "OutputFormat list"
  jr_access_level :: string
  jr_progress :: JobProgress
  jr_files :: "JobFileResponse list"
  jr_links :: JobLinks

record PreparedFile =
  pf_file_id :: "ustr option"
  pf_name :: ustr
  pf_data :: Bytes
  pf_page_range :: "ustr option"
  pf_tier :: OfficialTier

record JobRecord =
  job_response :: JobResponse
  job_files :: "PreparedFile list"
  job_cancel :: bool
  job_metadata :: nat
  job_budget :: nat
  job_expiry :: "int option"
  job_ocr_mode :: OcrMode

record ServiceInner =
  store :: Inner
  jobs :: "(ustr \<times> JobRecord) list"
  queue :: "ustr list"
  stopping :: bool
  free_slots :: nat
  jobs_created :: nat
  pages_processed :: nat
  files_processed :: nat

definition JOB_CAP :: nat where "JOB_CAP = 64 * 1024 * 1024"

definition job_exhausted :: WireError where
  "job_exhausted = \<lparr>we_status = 429, we_code = ''capacity_exceeded'',
     we_message = ''Job capacity is exhausted.'', we_param = None\<rparr>"

definition artifact_exhausted :: WireError where
  "artifact_exhausted = \<lparr>we_status = 429, we_code = ''capacity_exceeded'',
     we_message = ''Artifact storage capacity is exhausted.'', we_param = None\<rparr>"

definition job_terminal :: WireError where
  "job_terminal = \<lparr>we_status = 409, we_code = ''job_terminal'',
     we_message = ''Terminal jobs cannot be canceled.'', we_param = None\<rparr>"

section \<open>Admission\<close>

definition source_size :: "StoreConfig \<Rightarrow> int \<Rightarrow> Inner \<Rightarrow> InputSource \<Rightarrow> nat wired" where
  "source_size cfg now s src =
     (case src of
        FileId file_id \<Rightarrow>
          (case store_file file_id now s of
             None \<Rightarrow> Err not_found
           | Some object \<Rightarrow>
               if fo_purpose object \<noteq> lit ''parse'' then Err (bad ''file_id'' ''File purpose is not parse.'')
               else if fo_bytes object > file_cap cfg then Err too_large
               else Ok (fo_bytes object))
      | Inline _ data \<Rightarrow>
          if decoded_size data > INLINE_MAX_BYTES \<or> decoded_size data > file_cap cfg then Err too_large
          else Ok (decoded_size data)
      | Raw _ bytes \<Rightarrow>
          if bytes = [] \<or> length bytes > file_cap cfg
          then Err (if bytes = [] then bad ''files'' ''Empty files are not supported.'' else too_large)
          else Ok (length bytes))"

fun total_size :: "StoreConfig \<Rightarrow> int \<Rightarrow> Inner \<Rightarrow> SubmittedFile list \<Rightarrow> nat \<Rightarrow> nat wired" where
  "total_size cfg now s [] tot = Ok tot"
| "total_size cfg now s (f # fs) tot =
     and_then (source_size cfg now s (sf_source f)) (\<lambda>sz.
     and_then (ok_or (opt_filter (\<lambda>v. v \<le> JOB_CAP) (cadd tot sz)) too_large) (\<lambda>tot'.
     total_size cfg now s fs tot'))"

definition lease_source :: "(ustr \<Rightarrow> byte list option) \<Rightarrow> int \<Rightarrow> InputSource \<Rightarrow> Inner \<Rightarrow>
    (ustr option \<times> ustr \<times> Bytes) wired \<times> Inner" where
  "lease_source decode now src s =
     (case src of
        FileId file_id \<Rightarrow>
          (case input_lease file_id now s of
             (None, s) \<Rightarrow> (Err not_found, s)
           | (Some (object, b), s) \<Rightarrow>
               if fo_purpose object \<noteq> lit ''parse''
               then (Err (bad ''file_id'' ''File purpose is not parse.''), arc_drop (b_res b) s)
               else (Ok (Some file_id, fo_filename object, b), s))
      | Inline nm data \<Rightarrow>
          (case input_reservation (decoded_size data) s of
             (None, s) \<Rightarrow> (Err input_exhausted, s)
           | (Some r, s) \<Rightarrow>
               (case decode data of
                  None \<Rightarrow> (Err (bad ''data'' ''Expected valid base64 data.''), arc_drop r s)
                | Some d \<Rightarrow> (Ok (None, nm, charged d r), s)))
      | Raw nm bytes \<Rightarrow>
          (case input_reservation (length bytes) s of
             (None, s) \<Rightarrow> (Err input_exhausted, s)
           | (Some r, s) \<Rightarrow> (Ok (None, nm, charged bytes r), s)))"

definition effective_range :: "ustr option \<Rightarrow> ustr option" where
  "effective_range rng = opt_filter (\<lambda>v. trim v \<noteq> [] \<and> trim v \<noteq> lit ''all'') rng"

definition drop_files :: "PreparedFile list \<Rightarrow> Inner \<Rightarrow> Inner" where
  "drop_files fs = fold arc_drop (map (\<lambda>f. b_res (pf_data f)) fs)"

fun lease_files :: "(ustr \<Rightarrow> byte list option) \<Rightarrow> int \<Rightarrow> Tier option \<Rightarrow> SubmittedFile list \<Rightarrow> PreparedFile list \<Rightarrow> Inner \<Rightarrow>
    PreparedFile list wired \<times> Inner" where
  "lease_files decode now tier [] acc s = (Ok acc, s)"
| "lease_files decode now tier (f # fs) acc s =
     (case lease_source decode now (sf_source f) s of
        (Err e, s) \<Rightarrow> (Err e, drop_files acc s)
      | (Ok (k, nm, b), s) \<Rightarrow>
          (let t = requested_tier tier nm in
           if is_native nm \<and> t \<noteq> TFlash
           then (Err (bad ''tier'' ''Native formats require the flash tier.''), drop_files acc (arc_drop (b_res b) s))
           else lease_files decode now tier fs
                  (acc @ [\<lparr>pf_file_id = k, pf_name = nm, pf_data = b,
                           pf_page_range = effective_range (sf_page_range f), pf_tier = t\<rparr>]) s))"

definition queued_file :: "PreparedFile \<Rightarrow> JobFileResponse" where
  "queued_file f =
     \<lparr>jfr_file_id = pf_file_id f, jfr_name = pf_name f,
      jfr_page_range = (case pf_page_range f of Some r \<Rightarrow> r | None \<Rightarrow> []), jfr_status = ''queued'',
      jfr_parse = None, jfr_output_files = None, jfr_error = None\<rparr>"

definition queued_response :: "ustr \<Rightarrow> ustr \<Rightarrow> submission \<Rightarrow> PreparedFile list \<Rightarrow> JobResponse" where
  "queued_response k stamp req files =
     \<lparr>jr_job_id = k, jr_status = ''queued'', jr_created_at = stamp, jr_started_at = None, jr_finished_at = None,
      jr_tier = (case sub_tier req of
         Some t \<Rightarrow> t
       | None \<Rightarrow> if list_ex (\<lambda>f. pf_tier f = TFlash) files then Flash else Standard),
      jr_output_formats = sub_output_formats req, jr_access_level = ''self-hosted'',
      jr_progress = \<lparr>jp_total = length files, jp_completed = 0, jp_failed = 0\<rparr>,
      jr_files = map queued_file files,
      jr_links = \<lparr>jl_self_url = lit ''/v1/parse/jobs/'' @ k, jl_cancel = lit ''/v1/parse/jobs/'' @ k\<rparr>\<rparr>"

text \<open>The record dropped: its content handles, metadata and budget handles and its slot.\<close>

definition drop_record :: "JobRecord \<Rightarrow> ServiceInner \<Rightarrow> ServiceInner" where
  "drop_record j w = w\<lparr>store := arc_drop (job_budget j) (meta_drop (job_metadata j) (drop_files (job_files j) (store w))),
     free_slots := free_slots w + 1\<rparr>"

definition prepare_record :: "StoreConfig \<Rightarrow> (ustr \<Rightarrow> byte list option) \<Rightarrow> int \<Rightarrow> int \<Rightarrow> ustr \<Rightarrow> submission \<Rightarrow> nat \<Rightarrow> nat \<Rightarrow>
    Inner \<Rightarrow> (ustr \<times> JobRecord) wired \<times> Inner" where
  "prepare_record cfg decode now now' stamp req m b s =
     (case total_size cfg now s (sub_files req) 0 of
        Err e \<Rightarrow> (Err e, arc_drop b (meta_drop m s))
      | Ok _ \<Rightarrow>
          (case lease_files decode now' (sub_tier req) (sub_files req) [] s of
             (Err e, s) \<Rightarrow> (Err e, arc_drop b (meta_drop m s))
           | (Ok files, s) \<Rightarrow>
               (let (k, s) = next_id ''job'' s in
                (Ok (k, \<lparr>job_response = queued_response k stamp req files, job_files = files, job_cancel = False,
                         job_metadata = m, job_budget = b, job_expiry = None, job_ocr_mode = sub_ocr_mode req\<rparr>), s))))"

definition prepare_reserve :: "StoreConfig \<Rightarrow> (ustr \<Rightarrow> byte list option) \<Rightarrow> int \<Rightarrow> int \<Rightarrow> ustr \<Rightarrow> submission \<Rightarrow>
    ServiceInner \<Rightarrow> (ustr \<times> JobRecord) wired \<times> ServiceInner" where
  "prepare_reserve cfg decode now now' stamp req w =
     (if stopping w then (Err shutting_down, w)
      else case submission_validate req of
        Err e \<Rightarrow> (Err e, w)
      | Ok _ \<Rightarrow>
          if free_slots w = 0 then (Err job_exhausted, w)
          else
            (case reserve_metadata (1 + length (sub_files req) * length (sub_output_formats req)) (store w) of
               (None, s) \<Rightarrow> (Err meta_exhausted, w)
             | (Some m, s) \<Rightarrow>
                 (case artifact_budget JOB_CAP s of
                    (None, s) \<Rightarrow> (Err artifact_exhausted, w\<lparr>store := meta_drop m s\<rparr>)
                  | (Some b, s) \<Rightarrow>
                      (case prepare_record cfg decode now now' stamp req m b s of
                         (Err e, s) \<Rightarrow> (Err e, w\<lparr>store := s\<rparr>)
                       | (Ok r, s) \<Rightarrow> (Ok r, w\<lparr>store := s, free_slots := free_slots w - 1\<rparr>)))))"

definition commit_job :: "ustr \<Rightarrow> JobRecord \<Rightarrow> ServiceInner \<Rightarrow> unit wired \<times> ServiceInner" where
  "commit_job k j w =
     (if stopping w \<or> \<not> accepting (store w) then (Err shutting_down, drop_record j w)
      else
        (let w' = w\<lparr>jobs := AList.update k j (jobs w), queue := queue w @ [k],
                    jobs_created := (jobs_created w + 1) mod 2 ^ 64\<rparr>
         in (Ok (), case map_of (jobs w) k of None \<Rightarrow> w' | Some old \<Rightarrow> drop_record old w')))"

definition prepare_job :: "StoreConfig \<Rightarrow> (ustr \<Rightarrow> byte list option) \<Rightarrow> int \<Rightarrow> int \<Rightarrow> ustr \<Rightarrow> submission \<Rightarrow>
    ServiceInner \<Rightarrow> (nat \<times> JobResponse) wired \<times> ServiceInner" where
  "prepare_job cfg decode now now' stamp req w =
     (case prepare_reserve cfg decode now now' stamp req w of
        (Err e, w) \<Rightarrow> (Err e, w)
      | (Ok (k, j), w) \<Rightarrow>
          (case commit_job k j w of
             (Err e, w) \<Rightarrow> (Err e, w)
           | (Ok _, w) \<Rightarrow> (Ok (202, job_response j), w)))"

section \<open>Progress\<close>

definition count_status :: "string \<Rightarrow> JobFileResponse list \<Rightarrow> nat" where
  "count_status st fs = length (filter (\<lambda>f. jfr_status f = st) fs)"

definition update_progress :: "JobResponse \<Rightarrow> JobResponse" where
  "update_progress r = r\<lparr>jr_progress := (jr_progress r)
     \<lparr>jp_completed := count_status ''completed'' (jr_files r), jp_failed := count_status ''failed'' (jr_files r)\<rparr>\<rparr>"

definition parse_failed :: "string \<Rightarrow> ApiErrorBody" where
  "parse_failed message = \<lparr>ae_type = ''server_error'', ae_code = ''parse_failed'', ae_message = message, ae_param = None\<rparr>"

definition mark_file :: "nat \<Rightarrow> string \<Rightarrow> string option \<Rightarrow> JobResponse \<Rightarrow> JobResponse" where
  "mark_file index st message r =
     (let file = jr_files r ! index;
          file = file\<lparr>jfr_status := st\<rparr>;
          file = (case message of None \<Rightarrow> file | Some m \<Rightarrow> file\<lparr>jfr_error := Some (parse_failed m)\<rparr>)
      in update_progress (r\<lparr>jr_files := (jr_files r)[index := file]\<rparr>))"

definition final_status :: "bool \<Rightarrow> nat \<Rightarrow> nat \<Rightarrow> string" where
  "final_status canceled successes failures =
     (if canceled then ''canceled'' else if failures = 0 then ''completed''
      else if successes = 0 then ''failed'' else ''partial'')"

definition cancel_unfinished :: "JobFileResponse \<Rightarrow> JobFileResponse" where
  "cancel_unfinished f =
     (if jfr_status f = ''queued'' \<or> jfr_status f = ''running'' then f\<lparr>jfr_status := ''canceled''\<rparr> else f)"

text \<open>Replacing the record of a job.\<close>

definition set_job :: "ustr \<Rightarrow> JobRecord \<Rightarrow> ServiceInner \<Rightarrow> ServiceInner" where
  "set_job k j w = w\<lparr>jobs := AList.update k j (jobs w)\<rparr>"

definition release_output :: "JobRecord \<Rightarrow> Inner \<Rightarrow> Inner" where
  "release_output j s = drop_files (job_files j) (meta_shrink_to 1 (job_metadata j) (res_shrink_to 0 (job_budget j) s))"

definition finalize_job :: "StoreConfig \<Rightarrow> int \<Rightarrow> ustr \<Rightarrow> ustr \<Rightarrow> nat \<Rightarrow> nat \<Rightarrow> ServiceInner \<Rightarrow> ServiceInner" where
  "finalize_job cfg now stamp k successes failures w =
     (case map_of (jobs w) k of
        None \<Rightarrow> w
      | Some j \<Rightarrow>
          (let r = update_progress ((job_response j)\<lparr>jr_files := map cancel_unfinished (jr_files (job_response j))\<rparr>);
               r = r\<lparr>jr_finished_at := Some stamp,
                    jr_status := final_status (job_cancel j \<or> stopping w) successes failures\<rparr>
           in set_job k (j\<lparr>job_response := r, job_files := [], job_expiry := Some (now + int (retention cfg))\<rparr>)
                (w\<lparr>store := release_output j (store w)\<rparr>)))"

section \<open>Cancellation\<close>

definition cancel_job :: "StoreConfig \<Rightarrow> int \<Rightarrow> ustr \<Rightarrow> ustr \<Rightarrow> ServiceInner \<Rightarrow> unit wired \<times> ServiceInner" where
  "cancel_job cfg now stamp k w =
     (case map_of (jobs w) k of
        None \<Rightarrow> (Err not_found, w)
      | Some j \<Rightarrow>
          if jr_status (job_response j) \<noteq> ''queued'' \<and> jr_status (job_response j) \<noteq> ''running''
          then (Err job_terminal, w)
          else if jr_status (job_response j) = ''queued''
          then
            (let r = (job_response j)\<lparr>jr_status := ''canceled'', jr_finished_at := Some stamp,
                       jr_files := map (\<lambda>f. f\<lparr>jfr_status := ''canceled''\<rparr>) (jr_files (job_response j))\<rparr>
             in (Ok (), set_job k (j\<lparr>job_cancel := True, job_response := update_progress r, job_files := [],
                                     job_expiry := Some (now + int (retention cfg))\<rparr>)
                          (w\<lparr>store := release_output j (store w)\<rparr>)))
          else (Ok (), set_job k (j\<lparr>job_cancel := True\<rparr>) w))"

section \<open>Queries\<close>

record JobListEntry =
  jle_job_id :: ustr
  jle_status :: string
  jle_created_at :: ustr
  jle_file_count :: nat

record JobQuery =
  jq_status :: "ustr option"
  jq_limit :: "nat option"
  jq_after :: "ustr option"
  jq_order :: "ListOrder option"
  jq_created_after :: "ustr option"

definition JOB_STATUSES :: "string list" where
  "JOB_STATUSES = [''queued'', ''running'', ''completed'', ''partial'', ''failed'', ''canceled'']"

definition query_statuses :: "JobQuery \<Rightarrow> ustr list" where
  "query_statuses q = filter (\<lambda>v. v \<noteq> []) (split_on 44 (case jq_status q of Some v \<Rightarrow> v | None \<Rightarrow> []))"

definition job_entries :: "ustr list \<Rightarrow> ServiceInner \<Rightarrow> JobListEntry list" where
  "job_entries statuses w =
     map (\<lambda>(k, j). \<lparr>jle_job_id = k, jle_status = jr_status (job_response j), jle_created_at = jr_created_at (job_response j),
                     jle_file_count = length (jr_files (job_response j))\<rparr>)
       (filter (\<lambda>(k, j). statuses = [] \<or> lit (jr_status (job_response j)) \<in> set statuses) (jobs w))"

definition sorted_jobs :: "ListOrder option \<Rightarrow> ustr list \<Rightarrow> ServiceInner \<Rightarrow> JobListEntry list" where
  "sorted_jobs order statuses w =
     (let data = sort_key (\<lambda>e. (jle_created_at e, jle_job_id e)) (job_entries statuses w)
      in if order = Some Desc then rev data else data)"

definition created_filter :: "ustr option \<Rightarrow> JobListEntry list \<Rightarrow> JobListEntry list" where
  "created_filter after data = (case after of None \<Rightarrow> data | Some a \<Rightarrow> filter (\<lambda>v. a \<le> jle_created_at v) data)"

definition list_jobs :: "JobQuery wired \<Rightarrow> ServiceInner \<Rightarrow> JobListEntry ListResponse wired" where
  "list_jobs query w =
     and_then (case query of Ok q \<Rightarrow> Ok q | Err _ \<Rightarrow> Err (bad ''query'' ''Invalid job list query.'')) (\<lambda>q.
     and_then (pagination_validate \<lparr>pg_after = jq_after q, pg_limit = jq_limit q, pg_order = jq_order q\<rparr> 20 100) (\<lambda>limit.
     if list_ex (\<lambda>st. st \<notin> set (map lit JOB_STATUSES)) (query_statuses q)
     then Err (bad ''status'' ''Unsupported job status.'')
     else Ok (page jle_job_id limit (created_filter (jq_created_after q)
            (drain_after jle_job_id (jq_after q) (sorted_jobs (jq_order q) (query_statuses q) w))))))"

definition get_job :: "ustr \<Rightarrow> ServiceInner \<Rightarrow> JobResponse wired" where
  "get_job k w = and_then (ok_or (map_of (jobs w) k) not_found) (\<lambda>j. Ok (job_response j))"

section \<open>Publication of a file's outputs\<close>

fun output_name :: "OutputFormat \<Rightarrow> string" where
  "output_name Markdown = ''markdown''"
| "output_name MiddleJson = ''middle_json''"
| "output_name StructuredContent = ''structured_content''"
| "output_name Zip = ''zip''"

definition safe_stem :: "ustr \<Rightarrow> ustr" where
  "safe_stem nm =
     take 100 (map (\<lambda>c. if is_ascii_alphanumeric c \<or> c = 45 \<or> c = 95 then c else 95)
       (case rsplit_once 46 nm of Some (a, _) \<Rightarrow> a | None \<Rightarrow> nm))"

text \<open>\<open>render cap format\<close> is the outcome of \<open>artifacts::render\<close> for the parsed document.\<close>

fun render_all :: "nat \<Rightarrow> (nat \<Rightarrow> OutputFormat \<Rightarrow> byte list option) \<Rightarrow> nat \<Rightarrow> OutputFormat list \<Rightarrow> nat \<Rightarrow>
    (nat \<times> (OutputFormat \<times> byte list) list) option" where
  "render_all zipcap render aggregate [] tot = Some (tot, [])"
| "render_all zipcap render aggregate (format # formats) tot =
     (case render (min (JOB_CAP - (aggregate + tot)) zipcap) format of
        None \<Rightarrow> None
      | Some bytes \<Rightarrow>
          (case opt_filter (\<lambda>n. sat_add n aggregate \<le> JOB_CAP) (cadd tot (length bytes)) of
             None \<Rightarrow> None
           | Some tot' \<Rightarrow>
               map_option (\<lambda>(t, rendered). (t, (format, bytes) # rendered))
                 (render_all zipcap render aggregate formats tot')))"

fun name_outputs :: "(byte list \<Rightarrow> ustr) \<Rightarrow> int \<Rightarrow> int \<Rightarrow> ustr \<Rightarrow> (OutputFormat \<times> byte list) list \<Rightarrow> Inner \<Rightarrow>
    ((FileObject \<times> byte list) list \<times> (string \<times> OutputReference) list) \<times> Inner" where
  "name_outputs sha256_hex now expires stem [] s = (([], []), s)"
| "name_outputs sha256_hex now expires stem ((format, bytes) # rendered) s =
     (let (file_id, s) = next_id ''file'' s;
          object = \<lparr>fo_id = file_id, fo_bytes = length bytes, fo_created_at = now, fo_expires_at = Some expires,
                    fo_filename = stem @ [46] @ lit (output_name format), fo_purpose = lit ''parse'',
                    fo_sha256sum = Some (sha256_hex bytes)\<rparr>;
          ((artifacts, refs), s) = name_outputs sha256_hex now expires stem rendered s
      in (((object, bytes) # artifacts,
           (output_name format, \<lparr>or_file_id = file_id, or_bytes = length bytes\<rparr>) # refs), s))"

text \<open>
  The part of \<open>publish_outputs\<close> under the job's lock: the batch is published with clones of the job's budget and
  metadata handles unless the job is canceled or the service is stopping.
\<close>

definition publish_locked :: "(FileObject \<times> byte list) list \<Rightarrow> (string \<times> OutputReference) list \<Rightarrow> nat \<Rightarrow> nat \<Rightarrow> ustr \<Rightarrow>
    ServiceInner \<Rightarrow> (unit, unit) result \<times> ServiceInner" where
  "publish_locked artifacts refs pages index k w =
     (case map_of (jobs w) k of
        None \<Rightarrow> (Err (), w)
      | Some j \<Rightarrow>
          if job_cancel j \<or> stopping w then (Err (), w)
          else
            (let s = meta_clone (job_metadata j) (arc_clone (job_budget j) (store w)) in
             case publish_artifact_batch artifacts (job_metadata j) (job_budget j) s of
               (Err _, s) \<Rightarrow> (Err (), w\<lparr>store := s\<rparr>)
             | (Ok _, s) \<Rightarrow>
                 (let r = job_response j;
                      file = (jr_files r ! index)\<lparr>jfr_output_files := Some refs, jfr_parse := Some pages\<rparr>
                  in (Ok (), set_job k (j\<lparr>job_response := r\<lparr>jr_files := (jr_files r)[index := file]\<rparr>\<rparr>)
                               (w\<lparr>store := s\<rparr>)))))"

definition publish_outputs :: "StoreConfig \<Rightarrow> (byte list \<Rightarrow> ustr) \<Rightarrow> (nat \<Rightarrow> OutputFormat \<Rightarrow> byte list option) \<Rightarrow> int \<Rightarrow> nat \<Rightarrow>
    nat \<Rightarrow> nat \<Rightarrow> ustr \<Rightarrow> ServiceInner \<Rightarrow> (nat, unit) result \<times> ServiceInner" where
  "publish_outputs cfg sha256_hex render now pages index aggregate k w =
     (case map_of (jobs w) k of
        None \<Rightarrow> (Err (), w)
      | Some j \<Rightarrow>
          (case render_all (zip_cap cfg) render aggregate (jr_output_formats (job_response j)) 0 of
             None \<Rightarrow> (Err (), w)
           | Some (tot, rendered) \<Rightarrow>
               (let ((artifacts, refs), s) = name_outputs sha256_hex now (now + int (retention cfg))
                      (safe_stem (pf_name (job_files j ! index))) rendered (store w)
                in case publish_locked artifacts refs pages index k (w\<lparr>store := s\<rparr>) of
                     (Err _, w) \<Rightarrow> (Err (), w)
                   | (Ok _, w) \<Rightarrow> (Ok (aggregate + tot), w))))"

end
