(* ===== verification/Artifacts.thy ===== *)
theory Artifacts
  imports Wire Results
begin

text \<open>
  Rendering results into stored artifacts (\<open>official_api/server/artifacts.rs\<close>) and the bounded
  output of combined archives (\<open>BoundedCursor\<close> in \<open>tasks/result.rs\<close>): two byte sinks that a
  serialiser drives by writes and seeks and that never grow past their cap. The ZIP writer (crate
  \<open>zip\<close>) is the sequence of operations it performs on its sink; the JSON writer is a split of
  the text into chunks.
\<close>

section \<open>Byte sinks\<close>

text \<open>\<open>SeekFrom\<close>\<close>

datatype SeekFrom = SeekStart nat | SeekCurrent int | SeekEnd int

datatype sink_op = Write "byte list" | Seek SeekFrom

definition sink_step :: "(byte list \<Rightarrow> 's \<Rightarrow> 's option) \<Rightarrow> (SeekFrom \<Rightarrow> 's \<Rightarrow> 's option) \<Rightarrow> sink_op \<Rightarrow> 's \<Rightarrow> 's option" where
  "sink_step put_bytes move_to op s = (case op of Write buf \<Rightarrow> put_bytes buf s | Seek t \<Rightarrow> move_to t s)"

text \<open>A serialiser stops at the first failure.\<close>

fun run_ops :: "(sink_op \<Rightarrow> 's \<Rightarrow> 's option) \<Rightarrow> sink_op list \<Rightarrow> 's \<Rightarrow> 's option" where
  "run_ops step [] s = Some s"
| "run_ops step (op # ops) s = Option.bind (step op s) (run_ops step ops)"

text \<open>
  What the users of a sink rely on: a successful operation keeps the data within the cap, and a
  write at the end of the data appends.
\<close>

locale bounded_sink =
  fixes put_bytes :: "byte list \<Rightarrow> 's \<Rightarrow> 's option"
    and move_to :: "SeekFrom \<Rightarrow> 's \<Rightarrow> 's option"
    and contents :: "'s \<Rightarrow> byte list"
    and position :: "'s \<Rightarrow> nat"
    and cap :: "'s \<Rightarrow> nat"
  assumes write_bound: "put_bytes buf s = Some s' \<Longrightarrow> length (contents s) \<le> cap s \<Longrightarrow> length (contents s') \<le> cap s'"
    and seek_contents: "move_to from s = Some s' \<Longrightarrow> contents s' = contents s"
    and write_cap: "put_bytes buf s = Some s' \<Longrightarrow> cap s' = cap s"
    and seek_cap: "move_to from s = Some s' \<Longrightarrow> cap s' = cap s"
    and append_iff: "position s = length (contents s) \<Longrightarrow> cap s \<le> U64_MAX \<Longrightarrow>
          (put_bytes buf s = None \<longleftrightarrow> cap s < length (contents s) + length buf)"
    and append_contents: "position s = length (contents s) \<Longrightarrow> put_bytes buf s = Some s' \<Longrightarrow>
          contents s' = contents s @ buf \<and> position s' = length (contents s')"
begin

abbreviation step :: "sink_op \<Rightarrow> 's \<Rightarrow> 's option" where
  "step \<equiv> sink_step put_bytes move_to"

lemma run_op_bound:
  assumes "step op s = Some s'" "length (contents s) \<le> cap s"
  shows "length (contents s') \<le> cap s' \<and> cap s' = cap s"
proof (cases op)
  case (Write buf)
  then have w: "put_bytes buf s = Some s'" using assms(1) by (simp add: sink_step_def)
  show ?thesis using write_bound [OF w assms(2)] write_cap [OF w] by simp
next
  case (Seek t)
  then have "move_to t s = Some s'" using assms(1) by (simp add: sink_step_def)
  then show ?thesis using assms(2) by (simp add: seek_contents seek_cap)
qed

lemma run_ops_bound:
  assumes "run_ops step ops s = Some s'" "length (contents s) \<le> cap s"
  shows "length (contents s') \<le> cap s' \<and> cap s' = cap s"
  using assms
proof (induction ops arbitrary: s)
  case (Cons op ops)
  then obtain s1 where s1: "step op s = Some s1" "run_ops step ops s1 = Some s'" by (auto simp: bind_Some_iff)
  note b = run_op_bound [OF s1(1) Cons.prems(2)]
  show ?case using Cons.IH [OF s1(2)] b by simp
qed simp

text \<open>Appending in chunks succeeds exactly when the whole fits, and leaves the whole.\<close>

lemma run_ops_append:
  assumes "position s = length (contents s)" "length (contents s) \<le> cap s" "cap s \<le> U64_MAX"
  shows "map_option contents (run_ops step (map Write chunks) s) =
    (if length (contents s) + length (concat chunks) \<le> cap s then Some (contents s @ concat chunks) else None)"
  using assms
proof (induction chunks arbitrary: s)
  case (Cons chunk chunks)
  show ?case
  proof (cases "put_bytes chunk s")
    case None
    then have "cap s < length (contents s) + length chunk" using append_iff [OF Cons.prems(1,3)] by blast
    then show ?thesis by (simp add: None sink_step_def)
  next
    case (Some s1)
    have c: "contents s1 = contents s @ chunk" "position s1 = length (contents s1)" "cap s1 = cap s"
      using append_contents [OF Cons.prems(1) Some] write_cap [OF Some] by simp_all
    have "length (contents s1) \<le> cap s1" using append_iff [OF Cons.prems(1,3), of chunk] Some c by simp
    then show ?thesis using Cons.IH [of s1] c Cons.prems Some by (simp add: add.assoc sink_step_def)
  qed
qed simp

end

section \<open>The capped vector\<close>

record Capped =
  cp_data :: "byte list"
  cp_pos :: nat
  cp_cap :: nat

definition capped_new :: "nat \<Rightarrow> Capped" where
  "capped_new c = \<lparr>cp_data = [], cp_pos = 0, cp_cap = c\<rparr>"

text \<open>\<open>Vec::resize\<close> with zeros up to the end, then the copy.\<close>

definition splice :: "byte list \<Rightarrow> nat \<Rightarrow> byte list \<Rightarrow> byte list" where
  "splice xs p buf =
     (let e = p + length buf;
          ys = (if length xs < e then xs @ replicate (e - length xs) 0 else xs)
      in take p ys @ buf @ drop e ys)"

definition capped_write :: "byte list \<Rightarrow> Capped \<Rightarrow> Capped option" where
  "capped_write buf s =
     map_option (\<lambda>e. s\<lparr>cp_data := splice (cp_data s) (cp_pos s) buf, cp_pos := e\<rparr>)
       (opt_filter (\<lambda>v. v \<le> cp_cap s) (cadd (cp_pos s) (length buf)))"

fun seek_target :: "SeekFrom \<Rightarrow> nat \<Rightarrow> nat \<Rightarrow> int" where
  "seek_target (SeekStart n) p len = int n"
| "seek_target (SeekCurrent d) p len = int p + d"
| "seek_target (SeekEnd d) p len = int len + d"

definition capped_seek :: "SeekFrom \<Rightarrow> Capped \<Rightarrow> Capped option" where
  "capped_seek from s =
     (let p = seek_target from (cp_pos s) (length (cp_data s))
      in if p < 0 \<or> cp_cap s < nat p then None else Some (s\<lparr>cp_pos := nat p\<rparr>))"

lemma length_splice [simp]: "length (splice xs p buf) = max (length xs) (p + length buf)"
  by (simp add: splice_def Let_def max_def)

lemma splice_end [simp]: "splice xs (length xs) buf = xs @ buf"
  by (cases "buf = []") (simp_all add: splice_def)

lemma capped_write_Some_iff:
  "capped_write buf s = Some s' \<longleftrightarrow> cp_pos s + length buf \<le> cp_cap s \<and> cp_pos s + length buf \<le> U64_MAX \<and>
     s' = s\<lparr>cp_data := splice (cp_data s) (cp_pos s) buf, cp_pos := cp_pos s + length buf\<rparr>"
  by (auto simp: capped_write_def opt_filter_Some_iff cadd_Some_iff)

interpretation capped: bounded_sink capped_write capped_seek cp_data cp_pos cp_cap
proof
  show "length (cp_data s') \<le> cp_cap s'" if "capped_write buf s = Some s'" "length (cp_data s) \<le> cp_cap s" for buf s s'
    using that by (auto simp: capped_write_Some_iff)
  show "cp_data s' = cp_data s" "cp_cap s' = cp_cap s" if "capped_seek from s = Some s'" for "from" s s'
    using that by (auto simp: capped_seek_def Let_def split: if_splits)
  show "cp_cap s' = cp_cap s" if "capped_write buf s = Some s'" for buf s s'
    using that by (auto simp: capped_write_Some_iff)
  show "capped_write buf s = None \<longleftrightarrow> cp_cap s < length (cp_data s) + length buf"
    if "cp_pos s = length (cp_data s)" "cp_cap s \<le> U64_MAX" for buf s
    using that by (cases "capped_write buf s") (auto simp: capped_write_Some_iff capped_write_def cadd_def split: if_splits)
  show "cp_data s' = cp_data s @ buf \<and> cp_pos s' = length (cp_data s')"
    if "cp_pos s = length (cp_data s)" "capped_write buf s = Some s'" for buf s s'
    using that by (simp add: capped_write_Some_iff)
qed

section \<open>The bounded cursor\<close>

text \<open>
  \<open>BoundedCursor\<close> wraps a \<open>Cursor<Vec<u8>>\<close>: a write behind the end fills the gap with zeros, a
  seek may go anywhere a \<open>u64\<close> reaches.
\<close>

record BoundedCursor =
  bc_data :: "byte list"
  bc_position :: nat
  bc_cap :: nat

definition cursor_new :: "nat \<Rightarrow> BoundedCursor" where
  "cursor_new c = \<lparr>bc_data = [], bc_position = 0, bc_cap = c\<rparr>"

definition cursor_write :: "byte list \<Rightarrow> BoundedCursor \<Rightarrow> BoundedCursor option" where
  "cursor_write buf s =
     map_option (\<lambda>e. s\<lparr>bc_data := (if buf = [] then bc_data s else splice (bc_data s) (bc_position s) buf),
                       bc_position := bc_position s + length buf\<rparr>)
       (opt_filter (\<lambda>v. v \<le> bc_cap s) (cadd (bc_position s) (length buf)))"

definition cursor_seek :: "SeekFrom \<Rightarrow> BoundedCursor \<Rightarrow> BoundedCursor option" where
  "cursor_seek from s =
     (let p = seek_target from (bc_position s) (length (bc_data s))
      in if p < 0 \<or> U64_MAX < nat p then None else Some (s\<lparr>bc_position := nat p\<rparr>))"

lemma cursor_write_Some_iff:
  "cursor_write buf s = Some s' \<longleftrightarrow> bc_position s + length buf \<le> bc_cap s \<and> bc_position s + length buf \<le> U64_MAX \<and>
     s' = s\<lparr>bc_data := (if buf = [] then bc_data s else splice (bc_data s) (bc_position s) buf),
            bc_position := bc_position s + length buf\<rparr>"
  by (auto simp: cursor_write_def opt_filter_Some_iff cadd_Some_iff)

interpretation cursor: bounded_sink cursor_write cursor_seek bc_data bc_position bc_cap
proof
  show "length (bc_data s') \<le> bc_cap s'" if "cursor_write buf s = Some s'" "length (bc_data s) \<le> bc_cap s" for buf s s'
    using that by (auto simp: cursor_write_Some_iff)
  show "bc_data s' = bc_data s" "bc_cap s' = bc_cap s" if "cursor_seek from s = Some s'" for "from" s s'
    using that by (auto simp: cursor_seek_def Let_def split: if_splits)
  show "bc_cap s' = bc_cap s" if "cursor_write buf s = Some s'" for buf s s'
    using that by (auto simp: cursor_write_Some_iff)
  show "cursor_write buf s = None \<longleftrightarrow> bc_cap s < length (bc_data s) + length buf"
    if "bc_position s = length (bc_data s)" "bc_cap s \<le> U64_MAX" for buf s
    using that by (cases "cursor_write buf s") (auto simp: cursor_write_Some_iff cursor_write_def cadd_def split: if_splits)
  show "bc_data s' = bc_data s @ buf \<and> bc_position s' = length (bc_data s')"
    if "bc_position s = length (bc_data s)" "cursor_write buf s = Some s'" for buf s s'
    using that by (simp add: cursor_write_Some_iff)
qed

section \<open>Rendering\<close>

definition ARTIFACT_JOB_CAP :: nat where "ARTIFACT_JOB_CAP = 64 * 1024 * 1024"

definition artifact_limit :: OfficialError where
  "artifact_limit = official_error LimitExceeded (lit ''result exceeds artifact limit'')"

definition text_bytes :: "ustr \<Rightarrow> byte list" where
  "text_bytes t = map of_nat (str_bytes t)"

definition bounded :: "byte list \<Rightarrow> nat \<Rightarrow> (byte list, OfficialError) result" where
  "bounded bytes c = (if c < length bytes then Err artifact_limit else Ok bytes)"

text \<open>\<open>serde_json::to_writer\<close> hands the text to the sink in the chunks \<open>split v\<close>.\<close>

definition json_artifact :: "(Value \<Rightarrow> byte list list) \<Rightarrow> Value \<Rightarrow> nat \<Rightarrow> (byte list, OfficialError) result" where
  "json_artifact split v c =
     and_then (ok_or (run_ops (sink_step capped_write capped_seek) (map Write (split v)) (capped_new c)) artifact_limit)
       (\<lambda>out. Ok (cp_data out))"

record Bundle =
  bu_files :: "(ustr \<times> byte list) list"
  bu_total :: nat
  bu_cap :: nat

definition insert_owned :: "ustr \<Rightarrow> byte list \<Rightarrow> Bundle \<Rightarrow> (Bundle, OfficialError) result" where
  "insert_owned path bytes b =
     (if map_of (bu_files b) path = None \<and> 4096 \<le> length (bu_files b) then Err artifact_limit
      else and_then (ok_or (opt_filter (\<lambda>v. v \<le> bu_cap b) (cadd (bu_total b) (length bytes))) artifact_limit) (\<lambda>v.
        Ok (b\<lparr>bu_files := map_insert path bytes (bu_files b), bu_total := v\<rparr>)))"

definition bundle_insert :: "ustr \<Rightarrow> byte list \<Rightarrow> Bundle \<Rightarrow> (Bundle, OfficialError) result" where
  "bundle_insert path bytes b =
     (if map_of (bu_files b) path = None \<and> 4096 \<le> length (bu_files b) then Err artifact_limit
      else if bu_cap b - bu_total b < length bytes then Err artifact_limit
      else insert_owned path bytes b)"

definition insert_json :: "(Value \<Rightarrow> byte list list) \<Rightarrow> ustr \<Rightarrow> Value \<Rightarrow> Bundle \<Rightarrow> (Bundle, OfficialError) result" where
  "insert_json split path v b =
     and_then (json_artifact split v (bu_cap b - bu_total b)) (\<lambda>bytes. insert_owned path bytes b)"

fun insert_assets :: "(ustr \<times> byte list) list \<Rightarrow> Bundle \<Rightarrow> (Bundle, OfficialError) result" where
  "insert_assets [] b = Ok b"
| "insert_assets ((path, bytes) # assets) b = and_then (insert_owned path bytes b) (insert_assets assets)"

text \<open>
  \<open>ZipWriter\<close> on a sink: \<open>zip_ops files\<close> is the sequence of writes and seeks it performs for
  these members, or \<open>None\<close> when it refuses one of them.
\<close>

definition archive :: "(Value \<Rightarrow> byte list list) \<Rightarrow> ((ustr \<times> byte list) list \<Rightarrow> sink_op list option)
    \<Rightarrow> OfficialResult \<Rightarrow> nat \<Rightarrow> (byte list, OfficialError) result" where
  "archive split zip_ops r c =
     and_then (bundle_insert (lit ''markdown.md'') (text_bytes (or_markdown r))
                 \<lparr>bu_files = [], bu_total = 0, bu_cap = ARTIFACT_JOB_CAP\<rparr>) (\<lambda>b.
     and_then (insert_json split (lit ''middle_json.json'') (or_middle r) b) (\<lambda>b.
     and_then (insert_json split (lit ''structured_content.json'') (or_structured r) b) (\<lambda>b.
     and_then (case or_model r of
                 Some model \<Rightarrow> insert_json split (lit ''model_output.json'') model b
               | None \<Rightarrow> Ok b) (\<lambda>b.
     and_then (insert_assets (or_assets r) b) (\<lambda>b.
     and_then (ok_or (zip_ops (bu_files b)) artifact_limit) (\<lambda>ops.
     and_then (ok_or (run_ops (sink_step capped_write capped_seek) ops (capped_new c)) artifact_limit)
       (\<lambda>out. Ok (cp_data out))))))))"

definition render :: "(Value \<Rightarrow> byte list list) \<Rightarrow> ((ustr \<times> byte list) list \<Rightarrow> sink_op list option)
    \<Rightarrow> OfficialResult \<Rightarrow> OutputFormat \<Rightarrow> nat \<Rightarrow> (byte list, OfficialError) result" where
  "render split zip_ops r format c =
     (case format of
        Markdown \<Rightarrow> bounded (text_bytes (or_markdown r)) c
      | MiddleJson \<Rightarrow> json_artifact split (or_middle r) c
      | StructuredContent \<Rightarrow> json_artifact split (or_structured r) c
      | Zip \<Rightarrow> archive split zip_ops r (min c ARTIFACT_JOB_CAP))"

lemma capped_new_simps [simp]: "cp_data (capped_new c) = []" "cp_pos (capped_new c) = 0" "cp_cap (capped_new c) = c"
  by (simp_all add: capped_new_def)

lemma capped_ops_bound:
  assumes "run_ops (sink_step capped_write capped_seek) ops (capped_new c) = Some s"
  shows "length (cp_data s) \<le> c"
  using capped.run_ops_bound [OF assms] by simp

lemma json_artifact_bound: "json_artifact split v c = Ok bytes \<Longrightarrow> length bytes \<le> c"
  by (auto simp: json_artifact_def and_then_Ok_iff ok_or_Ok_iff dest: capped_ops_bound)

lemma json_artifact_eq:
  assumes "concat (split v) = text_bytes (to_text v)" "c \<le> U64_MAX"
  shows "json_artifact split v c = bounded (text_bytes (to_text v)) c"
  using capped.run_ops_append [of "capped_new c" "split v"] assms
  by (cases "run_ops (sink_step capped_write capped_seek) (map Write (split v)) (capped_new c)")
     (auto simp: json_artifact_def bounded_def split: if_splits)

text \<open>
  C29: No rendered artifact exceeds the cap it was rendered for, in any of the four formats and
  whatever writes and seeks the JSON and ZIP writers perform on the capped buffer; a JSON artifact
  is the whole text of the value or the limit error, however the writer splits it.
\<close>

theorem render_within_cap:
  assumes "\<And>v. concat (split v) = text_bytes (to_text v)" "c \<le> U64_MAX"
  shows "(\<forall>bytes. render split zip_ops r format c = Ok bytes \<longrightarrow> length bytes \<le> c) \<and>
    render split zip_ops r MiddleJson c = bounded (text_bytes (to_text (or_middle r))) c \<and>
    render split zip_ops r StructuredContent c = bounded (text_bytes (to_text (or_structured r))) c"
proof -
  have "length bytes \<le> c" if "render split zip_ops r format c = Ok bytes" for bytes
  proof (cases format)
    case Markdown
    then show ?thesis using that by (auto simp: render_def bounded_def split: if_splits)
  next
    case Zip
    then show ?thesis using that
      by (auto simp: render_def archive_def and_then_Ok_iff ok_or_Ok_iff dest!: capped_ops_bound)
  qed (use that in \<open>auto simp: render_def dest: json_artifact_bound\<close>)
  moreover have "json_artifact split v c = bounded (text_bytes (to_text v)) c" for v
    by (rule json_artifact_eq [OF assms(1,2)])
  ultimately show ?thesis by (simp add: render_def)
qed

theorem render_within_cap_witness:
  "render (\<lambda>v. [text_bytes (to_text v)]) (\<lambda>_. None)
     \<lparr>or_middle = JNull, or_model = None, or_markdown = [], or_structured = JNull, or_assets = [], or_warnings = [],
      or_metadata = \<lparr>mineru_package = [], schema_version = [], bundle_name = []\<rparr>\<rparr> MiddleJson 10 =
   Ok (text_bytes (lit ''null''))"
  using render_within_cap [of "\<lambda>v. [text_bytes (to_text v)]" 10 "\<lambda>_. None"
      "\<lparr>or_middle = JNull, or_model = None, or_markdown = [], or_structured = JNull, or_assets = [], or_warnings = [],
      or_metadata = \<lparr>mineru_package = [], schema_version = [], bundle_name = []\<rparr>\<rparr>"]
  by (simp add: U64_MAX_def bounded_def text_bytes_def enc_char_def)

end
