(* ===== verification/Tasks.thy ===== *)
theory Tasks
  imports Jobs Artifacts
begin

text \<open>
  The task interface over the job pipeline (\<open>official_api/server/tasks.rs\<close>, \<open>tasks/query.rs\<close>,
  \<open>tasks/result.rs\<close>): the query string, the three body formats of a submission, the task payload
  and the result of a finished task as JSON with inlined contents or as a ZIP archive. The body
  stream, the multipart reader, JSON and ZIP decoding and SHA-256 are parameters.
\<close>

section \<open>The query string\<close>

record IngestQuery =
  iq_tier :: "ustr option"
  iq_ocr_mode :: "ustr option"
  iq_page_range :: "ustr option"
  iq_output_formats :: "ustr list"
  iq_filename :: "ustr option"
  iq_sha256sum :: "ustr option"
  iq_response_format :: "ustr option"
  iq_wait_timeout :: "ustr option"

definition query_default :: IngestQuery where
  "query_default = \<lparr>iq_tier = None, iq_ocr_mode = None, iq_page_range = None, iq_output_formats = [],
     iq_filename = None, iq_sha256sum = None, iq_response_format = None, iq_wait_timeout = None\<rparr>"

definition QUERY_KEYS :: "string list" where
  "QUERY_KEYS = [''tier'', ''ocr_mode'', ''page_range'', ''output_formats'', ''filename'', ''sha256sum'',
     ''response_format'', ''wait_timeout'']"

text \<open>\<open>u8::from_str_radix(hex, 16)\<close> on two characters: a leading plus sign is accepted.\<close>

definition hex_val :: "nat \<Rightarrow> nat option" where
  "hex_val b =
     (if 48 \<le> b \<and> b \<le> 57 then Some (b - 48)
      else if 97 \<le> b \<and> b \<le> 102 then Some (b - 87)
      else if 65 \<le> b \<and> b \<le> 70 then Some (b - 55)
      else None)"

definition from_hex :: "nat \<Rightarrow> nat \<Rightarrow> nat option" where
  "from_hex a b =
     (case (hex_val a, hex_val b) of
        (Some x, Some y) \<Rightarrow> Some (16 * x + y)
      | (None, Some y) \<Rightarrow> if a = 43 then Some y else None
      | _ \<Rightarrow> None)"

fun percent_bytes :: "nat list \<Rightarrow> nat list" where
  "percent_bytes [] = []"
| "percent_bytes (b # r) =
     (if b = 37 then
        (case r of
           x # y # r' \<Rightarrow>
             (case from_hex x y of
                Some v \<Rightarrow> v # percent_bytes r'
              | None \<Rightarrow> 37 # percent_bytes r)
         | _ \<Rightarrow> 37 # percent_bytes r)
      else if b = 43 then 32 # percent_bytes r
      else b # percent_bytes r)"

definition percent_decode :: "ustr \<Rightarrow> ustr" where
  "percent_decode v = utf8_lossy (percent_bytes (str_bytes v))"

definition unsupported_query :: WireError where
  "unsupported_query = bad ''query'' ''Unsupported query parameter.''"

definition query_pair :: "ustr \<Rightarrow> IngestQuery \<Rightarrow> IngestQuery wired" where
  "query_pair pair q =
     (let (key, v) = (case split_once 61 pair of Some p \<Rightarrow> p | None \<Rightarrow> (pair, []));
          key = percent_decode key;
          v = percent_decode v
      in if key \<notin> set (map lit QUERY_KEYS) then Err unsupported_query
         else if key = lit ''tier'' then Ok (q\<lparr>iq_tier := Some v\<rparr>)
         else if key = lit ''ocr_mode'' then Ok (q\<lparr>iq_ocr_mode := Some v\<rparr>)
         else if key = lit ''page_range'' then Ok (q\<lparr>iq_page_range := Some v\<rparr>)
         else if key = lit ''filename'' then Ok (q\<lparr>iq_filename := Some v\<rparr>)
         else if key = lit ''sha256sum'' then Ok (q\<lparr>iq_sha256sum := Some v\<rparr>)
         else if key = lit ''response_format'' then Ok (q\<lparr>iq_response_format := Some v\<rparr>)
         else if key = lit ''wait_timeout'' then Ok (q\<lparr>iq_wait_timeout := Some v\<rparr>)
         else Ok (q\<lparr>iq_output_formats := iq_output_formats q @ [v]\<rparr>))"

fun query_pairs :: "ustr list \<Rightarrow> IngestQuery \<Rightarrow> IngestQuery wired" where
  "query_pairs [] q = Ok q"
| "query_pairs (p # ps) q = and_then (query_pair p q) (query_pairs ps)"

definition parse_query :: "ustr option \<Rightarrow> IngestQuery wired" where
  "parse_query query =
     query_pairs (filter (\<lambda>p. p \<noteq> []) (split_on 38 (case query of None \<Rightarrow> [] | Some s \<Rightarrow> s))) query_default"

section \<open>Options\<close>

definition parse_response_format :: "ustr option \<Rightarrow> string wired" where
  "parse_response_format v =
     (if v = None \<or> v = Some (lit ''json'') then Ok ''json''
      else if v = Some (lit ''zip'') then Ok ''zip''
      else Err (bad ''response_format'' ''Unsupported response format.''))"

definition parse_tier :: "ustr \<Rightarrow> Tier wired" where
  "parse_tier v =
     (if v = lit ''flash'' then Ok Flash else if v = lit ''basic'' then Ok Basic
      else if v = lit ''standard'' then Ok Standard else if v = lit ''advanced'' then Ok Advanced
      else Err (bad ''tier'' ''Unsupported tier.''))"

definition parse_ocr_mode :: "ustr \<Rightarrow> OcrMode wired" where
  "parse_ocr_mode v =
     (if v = lit ''auto'' then Ok Auto else if v = lit ''txt'' then Ok Txt
      else if v = lit ''ocr'' then Ok Ocr
      else Err (bad ''ocr_mode'' ''Unsupported OCR mode.''))"

definition parse_format :: "ustr \<Rightarrow> OutputFormat wired" where
  "parse_format v =
     (if v = lit ''markdown'' then Ok Markdown else if v = lit ''middle_json'' then Ok MiddleJson
      else if v = lit ''structured_content'' then Ok StructuredContent else if v = lit ''zip'' then Ok Zip
      else Err (bad ''output_formats'' ''Unsupported output format.''))"

fun parse_format_list :: "ustr list \<Rightarrow> OutputFormat list wired" where
  "parse_format_list [] = Ok []"
| "parse_format_list (v # vs) =
     and_then (parse_format v) (\<lambda>f. and_then (parse_format_list vs) (\<lambda>fs. Ok (f # fs)))"

definition parse_formats :: "ustr list \<Rightarrow> OutputFormat list wired" where
  "parse_formats vs = (if vs = [] then Ok [Markdown] else parse_format_list vs)"

text \<open>\<open>Option::map(f).transpose()\<close>\<close>

fun transposed :: "('a \<Rightarrow> 'b wired) \<Rightarrow> 'a option \<Rightarrow> 'b option wired" where
  "transposed f None = Ok None"
| "transposed f (Some x) = and_then (f x) (\<lambda>y. Ok (Some y))"

definition submission_from_files :: "SubmittedFile list \<Rightarrow> IngestQuery \<Rightarrow> submission wired" where
  "submission_from_files files q =
     and_then (transposed parse_tier (iq_tier q)) (\<lambda>tier.
     and_then (transposed parse_ocr_mode (iq_ocr_mode q)) (\<lambda>mode.
     and_then (parse_formats (iq_output_formats q)) (\<lambda>formats.
     Ok \<lparr>sub_files = files, sub_tier = tier, sub_ocr_mode = (case mode of None \<Rightarrow> Auto | Some m \<Rightarrow> m),
         sub_output_formats = formats\<rparr>)))"

section \<open>Submissions\<close>

text \<open>
  A multipart field with its name, its file name and its bytes (\<open>None\<close> when reading them fails or
  they exceed the body limit), or a field the reader cannot parse.
\<close>

datatype Field = Field "ustr option" "ustr option" "byte list option" | BadField

record Request =
  rq_content_type :: "ustr option"
  rq_content_length :: "ustr option"
  rq_query :: "ustr option"
  rq_body :: "byte list option"
  rq_fields :: "Field list option"

definition bounded_body :: "byte list option \<Rightarrow> nat \<Rightarrow> byte list wired" where
  "bounded_body body limit =
     (case body of None \<Rightarrow> Err too_large | Some d \<Rightarrow> if limit < length d then Err too_large else Ok d)"

text \<open>\<open>str::parse::<u64>\<close>\<close>

definition parse_u64 :: "ustr \<Rightarrow> nat option" where
  "parse_u64 t =
     (let ds = (case t of c # r \<Rightarrow> if c = 43 then r else t | [] \<Rightarrow> t)
      in if ds \<noteq> [] \<and> list_all is_ascii_digit ds \<and> digits_val ds \<le> U64_MAX then Some (digits_val ds) else None)"

definition empty_file :: WireError where
  "empty_file = bad ''files'' ''Empty files are not supported.''"

definition json_query_ok :: "IngestQuery \<Rightarrow> bool" where
  "json_query_ok q \<longleftrightarrow> iq_tier q = None \<and> iq_ocr_mode q = None \<and> iq_page_range q = None \<and>
     iq_output_formats q = [] \<and> iq_filename q = None \<and> iq_sha256sum q = None"

fun multipart_files :: "ustr option \<Rightarrow> Field list \<Rightarrow> SubmittedFile list \<Rightarrow> SubmittedFile list wired" where
  "multipart_files rng [] files = Ok files"
| "multipart_files rng (BadField # _) files = Err (bad ''body'' ''Invalid multipart body.'')"
| "multipart_files rng (Field nm filename data # parts) files =
     (if nm \<noteq> Some (lit ''files'') then Err (bad ''files'' ''Only files fields are accepted.'')
      else (case filename of
              None \<Rightarrow> Err (bad ''files'' ''Every files field needs a filename.'')
            | Some fname \<Rightarrow>
                (case data of
                   None \<Rightarrow> Err too_large
                 | Some d \<Rightarrow>
                     if d = [] then Err empty_file
                     else (let files = files @ [\<lparr>sf_source = Raw (trim fname) d, sf_page_range = rng\<rparr>]
                           in if 100 < length files then Err (bad ''files'' ''Expected between 1 and 100 files.'')
                              else multipart_files rng parts files))))"

definition length_required :: WireError where
  "length_required = \<lparr>we_status = 411, we_code = ''length_required'',
     we_message = ''A Content-Length header is required.'', we_param = None\<rparr>"

definition size_mismatch :: WireError where
  "size_mismatch = \<lparr>we_status = 400, we_code = ''upload_size_mismatch'',
     we_message = ''Body length does not match the declared Content-Length.'', we_param = None\<rparr>"

definition unsupported_media :: WireError where
  "unsupported_media = \<lparr>we_status = 415, we_code = ''unsupported_media_type'',
     we_message = ''Expected application/json, multipart/form-data, or application/octet-stream.'', we_param = None\<rparr>"

definition octet_submission :: "StoreConfig \<Rightarrow> (byte list \<Rightarrow> ustr) \<Rightarrow> Request \<Rightarrow> submission wired" where
  "octet_submission cfg sha rq =
     and_then (parse_query (rq_query rq)) (\<lambda>q.
     and_then (ok_or (Option.bind (rq_content_length rq) parse_u64) length_required) (\<lambda>declared.
     and_then (ensure (\<not> (declared = 0 \<or> file_cap cfg < declared)) too_large) (\<lambda>_.
     and_then (ok_or (opt_filter (\<lambda>nm. trim nm \<noteq> []) (iq_filename q))
                 (bad ''filename'' ''A filename parameter is required.'')) (\<lambda>nm.
     and_then (bounded_body (rq_body rq) (ingest_body_cap cfg)) (\<lambda>data.
     and_then (ensure (data \<noteq> []) empty_file) (\<lambda>_.
     and_then (ensure (length data = declared) size_mismatch) (\<lambda>_.
     and_then (ensure (case iq_sha256sum q of None \<Rightarrow> True | Some expected \<Rightarrow> expected = sha data)
                 (bad ''sha256sum'' ''Digest does not match.'')) (\<lambda>_.
     submission_from_files [\<lparr>sf_source = Raw nm data, sf_page_range = iq_page_range q\<rparr>] q))))))))"

definition multipart_submission :: "Request \<Rightarrow> submission wired" where
  "multipart_submission rq =
     and_then (parse_query (rq_query rq)) (\<lambda>q.
     and_then (ensure (iq_filename q = None \<and> iq_sha256sum q = None)
                 (bad ''query'' ''filename and sha256sum are not supported with multipart submissions.'')) (\<lambda>_.
     and_then (ok_or (rq_fields rq) (bad ''body'' ''Invalid multipart body.'')) (\<lambda>parts.
     and_then (multipart_files (iq_page_range q) parts []) (\<lambda>files.
     submission_from_files files q))))"

definition json_submission :: "StoreConfig \<Rightarrow> (byte list \<Rightarrow> JobCreate option) \<Rightarrow> Request \<Rightarrow> submission wired" where
  "json_submission cfg json_create rq =
     and_then (parse_query (rq_query rq)) (\<lambda>q.
     and_then (ensure (json_query_ok q) (bad ''query'' ''JSON parse options must be supplied in the request body.'')) (\<lambda>_.
     and_then (bounded_body (rq_body rq) (ingest_body_cap cfg)) (\<lambda>bytes.
     and_then (ok_or (json_create bytes) (bad ''body'' ''Invalid task request.'')) (\<lambda>c.
     Ok (from_create c)))))"

definition submission_from_request :: "StoreConfig \<Rightarrow> (byte list \<Rightarrow> ustr) \<Rightarrow> (byte list \<Rightarrow> JobCreate option)
    \<Rightarrow> Request \<Rightarrow> submission wired" where
  "submission_from_request cfg sha json_create rq =
     (let content_type = map to_ascii_lowercase (case rq_content_type rq of None \<Rightarrow> [] | Some t \<Rightarrow> t)
      in if prefix (lit ''application/json'') content_type \<or> content_type = []
         then json_submission cfg json_create rq
         else if prefix (lit ''multipart/form-data'') content_type then multipart_submission rq
         else if prefix (lit ''application/octet-stream'') content_type then octet_submission cfg sha rq
         else Err unsupported_media)"

section \<open>The task payload\<close>

definition opt_value :: "('a \<Rightarrow> Value) \<Rightarrow> 'a option \<Rightarrow> Value" where
  "opt_value f v = (case v of None \<Rightarrow> JNull | Some x \<Rightarrow> f x)"

fun tier_name :: "Tier \<Rightarrow> string" where
  "tier_name Flash = ''flash''" | "tier_name Basic = ''basic''"
| "tier_name Standard = ''standard''" | "tier_name Advanced = ''advanced''"

abbreviation jnat :: "nat \<Rightarrow> Value" where
  "jnat n \<equiv> JNumber (PosInt n)"

definition error_value :: "ApiErrorBody \<Rightarrow> Value" where
  "error_value e =
     jobject ([(''type'', jstr (ae_type e)), (''code'', jstr (ae_code e)), (''message'', jstr (ae_message e))]
       @ (case ae_param e of None \<Rightarrow> [] | Some p \<Rightarrow> [(''param'', jstr p)]))"

definition reference_value :: "OutputReference \<Rightarrow> Value" where
  "reference_value r = jobject [(''file_id'', JString (or_file_id r)), (''bytes'', jnat (or_bytes r))]"

definition file_value :: "JobFileResponse \<Rightarrow> Value" where
  "file_value f =
     jobject [(''file_id'', opt_value JString (jfr_file_id f)), (''name'', JString (jfr_name f)),
       (''page_range'', JString (jfr_page_range f)), (''status'', jstr (jfr_status f)),
       (''parse'', opt_value (\<lambda>n. jobject [(''pages'', jnat n)]) (jfr_parse f)),
       (''output_files'', opt_value (\<lambda>refs. jobject (map (\<lambda>(k, r). (k, reference_value r)) refs)) (jfr_output_files f)),
       (''error'', opt_value error_value (jfr_error f))]"

text \<open>The derived \<open>Serialize\<close> of \<open>JobResponse\<close>\<close>

definition job_value :: "JobResponse \<Rightarrow> Value" where
  "job_value r =
     jobject [(''job_id'', JString (jr_job_id r)), (''status'', jstr (jr_status r)),
       (''created_at'', JString (jr_created_at r)), (''started_at'', opt_value JString (jr_started_at r)),
       (''finished_at'', opt_value JString (jr_finished_at r)), (''tier'', jstr (tier_name (jr_tier r))),
       (''output_formats'', JArray (map (\<lambda>f. jstr (output_name f)) (jr_output_formats r))),
       (''access_level'', jstr (jr_access_level r)),
       (''progress'', jobject [(''total'', jnat (jp_total (jr_progress r))),
          (''completed'', jnat (jp_completed (jr_progress r))), (''failed'', jnat (jp_failed (jr_progress r)))]),
       (''files'', JArray (map file_value (jr_files r))),
       (''links'', jobject [(''self'', JString (jl_self_url (jr_links r))), (''cancel'', JString (jl_cancel (jr_links r)))])]"

text \<open>\<open>None\<close> stands for the panic of \<open>expect\<close> on a value that is not an object.\<close>

definition task_payload :: "JobResponse \<Rightarrow> Value option" where
  "task_payload job =
     (case job_value job of
        JObject m \<Rightarrow>
          (let id' = (case Option.bind (map_of m (lit ''job_id'')) as_str of None \<Rightarrow> [] | Some s \<Rightarrow> s);
               m = map_remove (lit ''job_id'') m;
               m = map_insert (lit ''task_id'') (JString id') m;
               m = map_insert (lit ''status_url'') (JString (lit ''/v1/tasks/'' @ id')) m;
               m = map_insert (lit ''result_url'') (JString (lit ''/v1/tasks/'' @ id' @ lit ''/result'')) m;
               m = map_insert (lit ''links'') (jobject [(''self'', JString (lit ''/v1/tasks/'' @ id')),
                                                    (''cancel'', JString (lit ''/v1/tasks/'' @ id'))]) m
           in Some (JObject m))
      | _ \<Rightarrow> None)"

section \<open>Percent encoding\<close>

text \<open>The encoder of RFC 3986: unreserved characters stand for themselves.\<close>

definition unreserved :: "nat \<Rightarrow> bool" where
  "unreserved b \<longleftrightarrow> 48 \<le> b \<and> b \<le> 57 \<or> 65 \<le> b \<and> b \<le> 90 \<or> 97 \<le> b \<and> b \<le> 122 \<or> b \<in> {45, 46, 95, 126}"

definition percent_byte :: "nat \<Rightarrow> ustr" where
  "percent_byte b = (if unreserved b then [b] else [37, hex_digit (b div 16), hex_digit (b mod 16)])"

definition percent_encode :: "ustr \<Rightarrow> ustr" where
  "percent_encode s = concat (map percent_byte (str_bytes s))"

lemma hex_val_digit [simp]: "d < 16 \<Longrightarrow> hex_val (hex_digit d) = Some d"
  by (simp add: hex_val_def hex_digit_def)

lemma percent_bytes_append:
  assumes "b < 256"
  shows "percent_bytes (percent_byte b @ r) = b # percent_bytes r"
proof (cases "unreserved b")
  case True
  then have "b \<noteq> 37" "b \<noteq> 43" by (auto simp: unreserved_def)
  then show ?thesis using True by (simp add: percent_byte_def)
next
  case False
  have "b div 16 < 16" using assms by (simp add: div_less_iff_less_mult)
  then have "from_hex (hex_digit (b div 16)) (hex_digit (b mod 16)) = Some b"
    by (simp add: from_hex_def)
  then show ?thesis using False by (simp add: percent_byte_def)
qed

lemma percent_bytes_concat:
  "\<forall>b \<in> set bs. b < 256 \<Longrightarrow> percent_bytes (concat (map percent_byte bs)) = bs"
  by (induction bs) (simp_all add: percent_bytes_append)

lemma hex_digit_unreserved: "d < 16 \<Longrightarrow> unreserved (hex_digit d)"
  by (simp add: hex_digit_def unreserved_def)

lemma percent_byte_chars: "b < 256 \<Longrightarrow> c \<in> set (percent_byte b) \<Longrightarrow> unreserved c \<or> c = 37"
  using hex_digit_unreserved [of "b div 16"] hex_digit_unreserved [of "b mod 16"]
    div_less_iff_less_mult [of 16 b 16] by (auto simp: percent_byte_def split: if_splits)

lemma percent_encode_chars:
  assumes "\<forall>c \<in> set s. scalar c" "c \<in> set (percent_encode s)"
  shows "unreserved c \<or> c = 37"
  using assms percent_byte_chars enc_char_bytes by (fastforce simp: percent_encode_def str_bytes_def)

lemma percent_decode_encode:
  assumes "\<forall>c \<in> set s. scalar c"
  shows "percent_decode (percent_encode s) = s"
proof -
  have "list_all (\<lambda>c. c < 0x80) (percent_encode s)"
    using percent_encode_chars [OF assms] by (fastforce simp: list_all_iff unreserved_def)
  then have "str_bytes (percent_encode s) = percent_encode s" by (rule str_bytes_ascii_id)
  moreover have "percent_bytes (percent_encode s) = str_bytes s"
    unfolding percent_encode_def using assms enc_char_bytes by (intro percent_bytes_concat) (auto simp: str_bytes_def)
  ultimately show ?thesis using assms by (simp add: percent_decode_def utf8_lossy_str_bytes)
qed

section \<open>Printing a query\<close>

definition query_part :: "string \<times> ustr \<Rightarrow> ustr" where
  "query_part kv = lit (fst kv) @ [61] @ percent_encode (snd kv)"

fun query_string :: "(string \<times> ustr) list \<Rightarrow> ustr" where
  "query_string [] = []"
| "query_string (kv # kvs) = query_part kv @ (if kvs = [] then [] else 38 # query_string kvs)"

definition opt_pair :: "string \<Rightarrow> ustr option \<Rightarrow> (string \<times> ustr) list" where
  "opt_pair k v = (case v of None \<Rightarrow> [] | Some t \<Rightarrow> [(k, t)])"

definition query_entries :: "IngestQuery \<Rightarrow> (string \<times> ustr) list" where
  "query_entries q =
     opt_pair ''tier'' (iq_tier q) @ opt_pair ''ocr_mode'' (iq_ocr_mode q) @ opt_pair ''page_range'' (iq_page_range q)
     @ map (Pair ''output_formats'') (iq_output_formats q) @ opt_pair ''filename'' (iq_filename q)
     @ opt_pair ''sha256sum'' (iq_sha256sum q) @ opt_pair ''response_format'' (iq_response_format q)
     @ opt_pair ''wait_timeout'' (iq_wait_timeout q)"

definition query_texts :: "IngestQuery \<Rightarrow> ustr list" where
  "query_texts q = map snd (query_entries q)"

text \<open>The field a key sets.\<close>

definition set_field :: "string \<Rightarrow> ustr \<Rightarrow> IngestQuery \<Rightarrow> IngestQuery" where
  "set_field k v q =
     (if k = ''tier'' then q\<lparr>iq_tier := Some v\<rparr>
      else if k = ''ocr_mode'' then q\<lparr>iq_ocr_mode := Some v\<rparr>
      else if k = ''page_range'' then q\<lparr>iq_page_range := Some v\<rparr>
      else if k = ''filename'' then q\<lparr>iq_filename := Some v\<rparr>
      else if k = ''sha256sum'' then q\<lparr>iq_sha256sum := Some v\<rparr>
      else if k = ''response_format'' then q\<lparr>iq_response_format := Some v\<rparr>
      else if k = ''wait_timeout'' then q\<lparr>iq_wait_timeout := Some v\<rparr>
      else q\<lparr>iq_output_formats := iq_output_formats q @ [v]\<rparr>)"

lemma split_once_first: "x \<notin> set a \<Longrightarrow> split_once x (a @ x # b) = Some (a, b)"
  by (induction a) auto

lemma split_on_first: "x \<notin> set a \<Longrightarrow> split_on x (a @ x # b) = a # split_on x b"
  by (induction a) auto

lemma query_part_split:
  assumes "k \<in> set QUERY_KEYS"
  shows "split_once 61 (query_part (k, v)) = Some (lit k, percent_encode v)"
    and "percent_decode (lit k) = lit k"
  using assms
  by (auto simp: QUERY_KEYS_def query_part_def percent_decode_def str_bytes_def enc_char_def
      simp del: split_once.simps intro!: split_once_first)

lemma query_pair_part:
  assumes "k \<in> set QUERY_KEYS" "\<forall>c \<in> set v. scalar c"
  shows "query_pair (query_part (k, v)) q = Ok (set_field k v q)"
proof -
  have mem: "lit k \<in> set (map lit QUERY_KEYS)" using assms(1) by simp
  have eq: "lit k = lit k' \<longleftrightarrow> k = k'" for k' by (auto simp: inj_map_eq_map inj_def)
  show ?thesis
    unfolding query_pair_def query_part_split [OF assms(1)] set_field_def
    by (simp only: option.case prod.case Let_def query_part_split(2) [OF assms(1)] percent_decode_encode [OF assms(2)]
        mem not_True_eq_False if_False eq if_distrib [of Ok])
qed

lemma query_part_clean:
  assumes "k \<in> set QUERY_KEYS" "\<forall>c \<in> set v. scalar c"
  shows "38 \<notin> set (query_part (k, v))" "query_part (k, v) \<noteq> []"
proof -
  have "38 \<notin> set (lit k)" using assms(1) by (auto simp: QUERY_KEYS_def)
  then show "38 \<notin> set (query_part (k, v))"
    using percent_encode_chars [OF assms(2), of 38] by (auto simp: query_part_def unreserved_def)
  show "query_part (k, v) \<noteq> []" by (simp add: query_part_def)
qed

definition entries_ok :: "(string \<times> ustr) list \<Rightarrow> bool" where
  "entries_ok kvs \<longleftrightarrow> (\<forall>(k, v) \<in> set kvs. k \<in> set QUERY_KEYS \<and> (\<forall>c \<in> set v. scalar c))"

lemma query_string_split:
  "entries_ok kvs \<Longrightarrow> filter (\<lambda>p. p \<noteq> []) (split_on 38 (query_string kvs)) = map query_part kvs"
proof (induction kvs)
  case (Cons kv kvs)
  obtain k v where kv: "kv = (k, v)" by force
  have ok: "k \<in> set QUERY_KEYS" "\<forall>c \<in> set v. scalar c" "entries_ok kvs"
    using Cons.prems by (auto simp: entries_ok_def kv)
  show ?case
    using query_part_clean [OF ok(1,2)] Cons.IH [OF ok(3)] by (simp add: kv split_on_first split_on_single)
qed simp

lemma query_pairs_parts:
  "entries_ok kvs \<Longrightarrow> query_pairs (map query_part kvs) q = Ok (fold (\<lambda>(k, v). set_field k v) kvs q)"
  by (induction kvs arbitrary: q) (auto simp: entries_ok_def query_pair_part)

lemma query_entries_keys: "(k, v) \<in> set (query_entries q) \<Longrightarrow> k \<in> set QUERY_KEYS"
  by (auto simp: query_entries_def opt_pair_def QUERY_KEYS_def split: option.splits)

lemma query_entries_ok:
  "\<forall>t \<in> set (query_texts q). \<forall>c \<in> set t. scalar c \<Longrightarrow> entries_ok (query_entries q)"
  by (force simp: entries_ok_def query_texts_def dest: query_entries_keys)

lemma fold_formats:
  "fold (\<lambda>(k, v). set_field k v) (map (Pair ''output_formats'') fs) q
   = q\<lparr>iq_output_formats := iq_output_formats q @ fs\<rparr>"
  by (induction fs arbitrary: q) (simp_all add: set_field_def)

lemma fold_entries: "fold (\<lambda>(k, v). set_field k v) (query_entries q) query_default = q"
  by (cases q) (simp add: query_entries_def fold_formats opt_pair_def query_default_def set_field_def split: option.split)

text \<open>
  C30: The query parser inverts the standard encoding. For every set of ingestion options whose
  values are Unicode text, writing the options that are present as \<open>key=value\<close> pairs joined by
  ampersands, each value percent-encoded as RFC 3986 prescribes, and parsing the result gives back
  exactly these options, the output formats in order.
\<close>

theorem query_roundtrip:
  assumes "\<forall>t \<in> set (query_texts q). \<forall>c \<in> set t. scalar c"
  shows "parse_query (Some (query_string (query_entries q))) = Ok q"
  using query_entries_ok [OF assms] by (simp add: parse_query_def query_string_split query_pairs_parts fold_entries)

definition sample_query :: IngestQuery where
  "sample_query = query_default\<lparr>iq_tier := Some (lit ''flash''), iq_filename := Some [0xE9, 38, 0x1F600],
     iq_output_formats := [lit ''zip'', lit ''markdown'']\<rparr>"

lemma query_roundtrip_witness:
  "parse_query (Some (query_string (query_entries sample_query))) = Ok sample_query \<and>
   percent_encode [0xE9, 38, 0x1F600] = lit ''%c3%a9%26%f0%9f%98%80''"
proof
  show "parse_query (Some (query_string (query_entries sample_query))) = Ok sample_query"
    by (rule query_roundtrip)
      (simp add: sample_query_def query_default_def query_texts_def query_entries_def opt_pair_def scalar_def)
  show "percent_encode [0xE9, 38, 0x1F600] = lit ''%c3%a9%26%f0%9f%98%80''"
    by (simp add: percent_encode_def percent_byte_def unreserved_def hex_digit_def str_bytes_def enc_char_def)
qed

text \<open>
  Two characters after the percent sign that are no hexadecimal byte are still decoded when the
  first is a plus sign.
\<close>

lemma percent_plus_decoded: "percent_decode (lit ''%+5'') = [5]"
  by code_simp

section \<open>Accepted bodies\<close>

definition raw_ok :: "SubmittedFile \<Rightarrow> bool" where
  "raw_ok f = (case sf_source f of Raw nm data \<Rightarrow> data \<noteq> [] | _ \<Rightarrow> False)"

lemma submission_from_files_files:
  "submission_from_files files q = Ok sub \<Longrightarrow> sub_files sub = files"
  by (auto simp: submission_from_files_def and_then_Ok_iff)

lemma parse_formats_ne: "parse_formats vs = Ok fs \<Longrightarrow> fs \<noteq> []"
  by (cases vs) (auto simp: parse_formats_def and_then_Ok_iff)

lemma submission_from_files_formats:
  "submission_from_files files q = Ok sub \<Longrightarrow> sub_output_formats sub \<noteq> []"
  by (auto simp: submission_from_files_def and_then_Ok_iff parse_formats_ne)

lemma multipart_files_ok:
  "multipart_files rng parts files = Ok out \<Longrightarrow> list_all raw_ok files \<Longrightarrow> length files \<le> 100 \<Longrightarrow>
   list_all raw_ok out \<and> length out \<le> 100 \<and> length out = length files + length parts \<and>
   (\<forall>f \<in> set out. f \<in> set files \<or> sf_page_range f = rng)"
proof (induction rng parts files rule: multipart_files.induct)
  case (3 rng nm filename data parts files)
  from 3(2) obtain fname d where *: "nm = Some (lit ''files'')" "filename = Some fname" "data = Some d" "d \<noteq> []"
      "\<not> 100 < length (files @ [\<lparr>sf_source = Raw (trim fname) d, sf_page_range = rng\<rparr>])"
      "multipart_files rng parts (files @ [\<lparr>sf_source = Raw (trim fname) d, sf_page_range = rng\<rparr>]) = Ok out"
    by (auto simp: Let_def split: if_splits option.splits)
  have "list_all raw_ok out \<and> length out \<le> 100 \<and>
      length out = length (files @ [\<lparr>sf_source = Raw (trim fname) d, sf_page_range = rng\<rparr>]) + length parts \<and>
      (\<forall>f \<in> set out. f \<in> set (files @ [\<lparr>sf_source = Raw (trim fname) d, sf_page_range = rng\<rparr>]) \<or> sf_page_range f = rng)"
    by (rule 3(1)) (use * 3(3) in \<open>simp_all add: raw_ok_def\<close>)
  then show ?case by auto
qed simp_all

lemma multipart_submission_ok:
  assumes "multipart_submission rq = Ok sub"
  shows "list_all raw_ok (sub_files sub) \<and> length (sub_files sub) \<le> 100 \<and> sub_output_formats sub \<noteq> [] \<and>
    rq_fields rq \<noteq> None \<and> length (sub_files sub) = length (the (rq_fields rq))"
proof -
  obtain q parts files where *: "rq_fields rq = Some parts" "multipart_files (iq_page_range q) parts [] = Ok files"
      "submission_from_files files q = Ok sub"
    using assms by (auto simp: multipart_submission_def result_simps)
  then show ?thesis
    using multipart_files_ok [OF *(2)] submission_from_files_files [OF *(3)] submission_from_files_formats [OF *(3)]
    by simp
qed

lemma octet_submission_ok:
  assumes "octet_submission cfg sha rq = Ok sub"
  shows "sub_output_formats sub \<noteq> [] \<and>
    (\<exists>nm data q. parse_query (rq_query rq) = Ok q \<and> iq_filename q = Some nm \<and> trim nm \<noteq> [] \<and>
       sub_files sub = [\<lparr>sf_source = Raw nm data, sf_page_range = iq_page_range q\<rparr>] \<and> rq_body rq = Some data \<and>
       data \<noteq> [] \<and> Option.bind (rq_content_length rq) parse_u64 = Some (length data) \<and>
       length data \<le> file_cap cfg \<and> (\<forall>e. iq_sha256sum q = Some e \<longrightarrow> sha data = e))"
proof -
  obtain q nm data where *: "parse_query (rq_query rq) = Ok q"
      "Option.bind (rq_content_length rq) parse_u64 = Some (length data)" "length data \<le> file_cap cfg"
      "opt_filter (\<lambda>nm. trim nm \<noteq> []) (iq_filename q) = Some nm"
      "bounded_body (rq_body rq) (ingest_body_cap cfg) = Ok data" "data \<noteq> []"
      "case iq_sha256sum q of None \<Rightarrow> True | Some expected \<Rightarrow> expected = sha data"
      "submission_from_files [\<lparr>sf_source = Raw nm data, sf_page_range = iq_page_range q\<rparr>] q = Ok sub"
    using assms unfolding octet_submission_def result_simps not_less de_Morgan_disj by metis
  have "iq_filename q = Some nm" "trim nm \<noteq> []"
    using *(4) by (cases "iq_filename q"; auto simp: opt_filter_def split: if_splits)+
  moreover have "rq_body rq = Some data"
    using *(5) by (auto simp: bounded_body_def split: option.splits if_splits)
  moreover have "\<forall>e. iq_sha256sum q = Some e \<longrightarrow> sha data = e" using *(7) by auto
  ultimately show ?thesis
    using *(1-3,6) submission_from_files_files [OF *(8)] submission_from_files_formats [OF *(8)] by blast
qed

definition request_type :: "Request \<Rightarrow> ustr" where
  "request_type rq = map to_ascii_lowercase (case rq_content_type rq of None \<Rightarrow> [] | Some t \<Rightarrow> t)"

text \<open>
  C31: What the task endpoint makes of a binary body. A multipart submission that is accepted
  consists of one file per field, at most 100, none of them empty. An octet-stream submission that
  is accepted is the whole body as one file, with the requested page range: the body is not empty,
  its length is the declared content length and within the file limit, it has a file name that is
  not blank, and its digest is the requested one when the query gives one. Either has at least one
  output format. A request of any other type than these and JSON is refused with status 415.
\<close>

theorem task_body_submission:
  assumes "request_type rq \<noteq> []" "\<not> prefix (lit ''application/json'') (request_type rq)"
  shows "(case submission_from_request cfg sha json_create rq of
      Err e \<Rightarrow> True
    | Ok sub \<Rightarrow>
        sub_output_formats sub \<noteq> [] \<and> length (sub_files sub) \<le> 100 \<and> list_all raw_ok (sub_files sub) \<and>
        (if prefix (lit ''multipart/form-data'') (request_type rq)
         then rq_fields rq \<noteq> None \<and> length (sub_files sub) = length (the (rq_fields rq))
         else prefix (lit ''application/octet-stream'') (request_type rq) \<and>
           (\<exists>nm data q. parse_query (rq_query rq) = Ok q \<and> iq_filename q = Some nm \<and> trim nm \<noteq> [] \<and>
             sub_files sub = [\<lparr>sf_source = Raw nm data, sf_page_range = iq_page_range q\<rparr>] \<and> rq_body rq = Some data \<and>
             data \<noteq> [] \<and> Option.bind (rq_content_length rq) parse_u64 = Some (length data) \<and>
             length data \<le> file_cap cfg \<and> (\<forall>e. iq_sha256sum q = Some e \<longrightarrow> sha data = e)))) \<and>
    (\<not> prefix (lit ''multipart/form-data'') (request_type rq) \<and> \<not> prefix (lit ''application/octet-stream'') (request_type rq)
      \<longrightarrow> submission_from_request cfg sha json_create rq = Err unsupported_media)"
proof (cases "prefix (lit ''multipart/form-data'') (request_type rq)")
  case True
  then have "submission_from_request cfg sha json_create rq = multipart_submission rq"
    using assms by (simp add: submission_from_request_def request_type_def)
  then show ?thesis using True multipart_submission_ok [of rq] by (cases "multipart_submission rq") simp_all
next
  case multi: False
  show ?thesis
  proof (cases "prefix (lit ''application/octet-stream'') (request_type rq)")
    case True
    then have eq: "submission_from_request cfg sha json_create rq = octet_submission cfg sha rq"
      using assms multi by (simp add: submission_from_request_def request_type_def)
    show ?thesis
    proof (cases "octet_submission cfg sha rq")
      case (Ok sub)
      have "length (sub_files sub) \<le> 100 \<and> list_all raw_ok (sub_files sub)"
        using octet_submission_ok [OF Ok] by (auto simp: raw_ok_def)
      then show ?thesis using octet_submission_ok [OF Ok] multi True eq Ok by simp
    qed (use True in \<open>simp add: eq\<close>)
  next
    case False
    then show ?thesis using assms multi by (simp add: submission_from_request_def request_type_def)
  qed
qed

definition sample_request :: Request where
  "sample_request = \<lparr>rq_content_type = Some (lit ''Application/Octet-Stream''), rq_content_length = Some (lit ''3''),
     rq_query = Some (lit ''filename=a.pdf''), rq_body = Some [1, 2, 3], rq_fields = None\<rparr>"

lemma sample_request_query: "parse_query (rq_query sample_request) = Ok (query_default\<lparr>iq_filename := Some (lit ''a.pdf'')\<rparr>)"
  by (simp add: parse_query_def sample_request_def query_pair_def QUERY_KEYS_def percent_decode_def str_bytes_def
      enc_char_def Let_def)

lemma sample_request_submission:
  "submission_from_request sample_config (\<lambda>_. []) (\<lambda>_. None) sample_request =
   Ok \<lparr>sub_files = [\<lparr>sf_source = Raw (lit ''a.pdf'') [1, 2, 3], sf_page_range = None\<rparr>], sub_tier = None,
       sub_ocr_mode = Auto, sub_output_formats = [Markdown]\<rparr>"
proof -
  have n: "parse_u64 (lit ''3'') = Some 3"
    by (simp add: parse_u64_def is_ascii_digit_def digits_val_def U64_MAX_def)
  have b: "bounded_body (Some [1, 2, 3]) (ingest_body_cap sample_config) = Ok [1, 2, 3]"
    by (simp add: bounded_body_def ingest_body_cap_def sample_config_def body_cap_def INPUT_CAP_def)
  have t: "trim (lit ''a.pdf'') \<noteq> []" by (simp add: trim_def trim_matches_def is_whitespace_def)
  have "octet_submission sample_config (\<lambda>_. []) sample_request =
      Ok \<lparr>sub_files = [\<lparr>sf_source = Raw (lit ''a.pdf'') [1, 2, 3], sf_page_range = None\<rparr>], sub_tier = None,
       sub_ocr_mode = Auto, sub_output_formats = [Markdown]\<rparr>"
    using n b t unfolding octet_submission_def sample_request_query
    by (simp add: sample_request_def query_default_def file_cap_def sample_config_def opt_filter_def
        submission_from_files_def parse_formats_def)
  then show ?thesis
    by (simp add: submission_from_request_def sample_request_def to_ascii_lowercase_def)
qed

theorem task_body_submission_witness:
  "request_type sample_request = lit ''application/octet-stream'' \<and>
   (\<exists>sub. submission_from_request sample_config (\<lambda>_. []) (\<lambda>_. None) sample_request = Ok sub \<and> list_all raw_ok (sub_files sub))"
proof -
  have t: "request_type sample_request = lit ''application/octet-stream''"
    by (simp add: request_type_def sample_request_def to_ascii_lowercase_def)
  have "request_type sample_request \<noteq> []" "\<not> prefix (lit ''application/json'') (request_type sample_request)"
    unfolding t by simp_all
  from task_body_submission [OF this, of sample_config "\<lambda>_. []" "\<lambda>_. None"] show ?thesis
    unfolding sample_request_submission using t by simp
qed

end
