(* ===== verification/Sessions.thy ===== *)
theory Sessions
  imports Files
begin

text \<open>
  The file endpoints running concurrently. A session state is the store together with what the handlers in
  flight own: creations between reservation and commit, writers between the two critical sections of
  \<open>put\<close>, and response bodies still being sent. One step is one critical section of one handler; any
  interleaving is a path. Identifiers come from one 64-bit counter; the steps that draw one assume it has not
  wrapped around (fewer than 18446744073709551615 identifiers were issued).
\<close>

section \<open>Identifiers\<close>

definition idstr :: "string \<Rightarrow> nat \<Rightarrow> ustr" where
  "idstr pre n = lit pre @ [95] @ show_hex 16 n"

definition ID_MAX :: nat where "ID_MAX = 2 ^ 64 - 1"

lemma next_id_idstr: "next_id pre s = (idstr pre (ids s), s\<lparr>ids := (ids s + 1) mod 2 ^ 64\<rparr>)"
  by (simp add: next_id_def idstr_def)

lemma idstr_inject:
  assumes "idstr p m = idstr q n" "m < 2 ^ 64" "n < 2 ^ 64"
  shows "m = n"
proof -
  have "show_hex 16 m = show_hex 16 n"
  proof -
    have "drop (length (idstr p m) - 16) (idstr p m) = show_hex 16 m" for p m
      by (simp add: idstr_def length_show_hex)
    then show ?thesis using assms(1) by metis
  qed
  then show ?thesis using show_hex_inject [of m 16 n] assms(2,3) by simp
qed

text \<open>An identifier already issued.\<close>

definition issued :: "nat \<Rightarrow> ustr \<Rightarrow> bool" where
  "issued n k \<longleftrightarrow> (\<exists>p m. k = idstr p m \<and> m < n)"

lemma issued_mono:
  assumes "issued n k" "n \<le> n'"
  shows "issued n' k"
proof -
  obtain p m where "k = idstr p m" "m < n" using assms(1) by (auto simp: issued_def)
  then show ?thesis unfolding issued_def using assms(2) by (intro exI [of _ p] exI [of _ m]) simp
qed

lemma issued_fresh:
  assumes "issued n k" "n \<le> ID_MAX"
  shows "k \<noteq> idstr p n"
proof
  assume e: "k = idstr p n"
  obtain q m where m: "k = idstr q m" "m < n" using assms(1) by (auto simp: issued_def)
  have "n < 2 ^ 64" using assms(2) by (simp add: ID_MAX_def)
  then show False using idstr_inject [of q m p n] e m by simp
qed

section \<open>Sessions\<close>

record Session =
  inner :: Inner
  pend :: "PendingUpload list"
  writers :: "WriterGuard list"
  bodies :: "nat list"

text \<open>The steps; \<open>cfg\<close> and the digest function are those of the server.\<close>

inductive fstep :: "StoreConfig \<Rightarrow> (byte list \<Rightarrow> ustr) \<Rightarrow> Session \<Rightarrow> Session \<Rightarrow> bool" for cfg sha where
  reserve_err: "create_reserve cfg cnow now req (inner f) = (Err e, s') \<Longrightarrow> ids (inner f) < ID_MAX \<Longrightarrow>
     fstep cfg sha f (f\<lparr>inner := s'\<rparr>)"
| reserve_ok: "create_reserve cfg cnow now req (inner f) = (Ok p, s') \<Longrightarrow> ids (inner f) < ID_MAX \<Longrightarrow>
     fstep cfg sha f (f\<lparr>inner := s', pend := p # pend f\<rparr>)"
| commit: "p \<in> set (pend f) \<Longrightarrow> commit_upload p (inner f) = (r, s') \<Longrightarrow>
     fstep cfg sha f (f\<lparr>inner := s', pend := remove1 p (pend f)\<rparr>)"
| get_up: "fstep cfg sha f (f\<lparr>inner := snd (get_upload cnow now k (inner f))\<rparr>)"
| put_err: "put_begin cfg cnow now k (inner f) = (Err e, s') \<Longrightarrow> fstep cfg sha f (f\<lparr>inner := s'\<rparr>)"
| put_ok: "put_begin cfg cnow now k (inner f) = (Ok w, s') \<Longrightarrow>
     fstep cfg sha f (f\<lparr>inner := s', writers := w # writers f\<rparr>)"
| abort: "w \<in> set (writers f) \<Longrightarrow>
     fstep cfg sha f (f\<lparr>inner := writer_abort w (inner f), writers := remove1 w (writers f)\<rparr>)"
| finish: "w \<in> set (writers f) \<Longrightarrow> read_body (wg_expected w) [] body = Ok data \<Longrightarrow>
     put_finish sha w data (inner f) = (r, s') \<Longrightarrow>
     fstep cfg sha f (f\<lparr>inner := s', writers := remove1 w (writers f)\<rparr>)"
| compl: "complete cnow now body k (inner f) = (r, s') \<Longrightarrow> ids (inner f) < ID_MAX \<Longrightarrow>
     fstep cfg sha f (f\<lparr>inner := s'\<rparr>)"
| cancel: "cancel_upload cnow k (inner f) = (r, s') \<Longrightarrow> fstep cfg sha f (f\<lparr>inner := s'\<rparr>)"
| listing: "list_files cnow q (inner f) = (r, s') \<Longrightarrow> fstep cfg sha f (f\<lparr>inner := s'\<rparr>)"
| get: "get_file cnow now k (inner f) = (r, s') \<Longrightarrow> fstep cfg sha f (f\<lparr>inner := s'\<rparr>)"
| del: "delete_file cnow k (inner f) = (r, s') \<Longrightarrow> fstep cfg sha f (f\<lparr>inner := s'\<rparr>)"
| content_err: "content cnow k (inner f) = (Err e, s') \<Longrightarrow> fstep cfg sha f (f\<lparr>inner := s'\<rparr>)"
| content_ok: "content cnow k (inner f) = (Ok (b, h), s') \<Longrightarrow>
     fstep cfg sha f (f\<lparr>inner := s', bodies := b_res b # bodies f\<rparr>)"
| sent: "a \<in> set (bodies f) \<Longrightarrow> fstep cfg sha f (f\<lparr>inner := arc_drop a (inner f), bodies := remove1 a (bodies f)\<rparr>)"
| cleanup: "fstep cfg sha f (f\<lparr>inner := cleanup_expired now (inner f)\<rparr>)"
| stop: "fstep cfg sha f (f\<lparr>inner := stop_admissions (inner f)\<rparr>)"

definition held_res :: "Session \<Rightarrow> nat multiset" where
  "held_res f = mset (map pu_reservation (pend f)) + mset (map wg_reservation (writers f)) + mset (bodies f)"

definition held_meta :: "Session \<Rightarrow> nat multiset" where
  "held_meta f = mset (map pu_metadata (pend f))"

text \<open>Every identifier in use was issued, and no two handlers work on the same one.\<close>

definition keys_inv :: "Session \<Rightarrow> bool" where
  "keys_inv f \<longleftrightarrow> ids (inner f) \<le> ID_MAX \<and>
     (\<forall>k. lookup k (inner f) \<noteq> None \<longrightarrow> issued (ids (inner f)) k) \<and>
     (\<forall>p \<in> set (pend f). issued (ids (inner f)) (pu_id p) \<and> lookup (pu_id p) (inner f) = None) \<and>
     (\<forall>w \<in> set (writers f). issued (ids (inner f)) (wg_id w)) \<and>
     distinct (map pu_id (pend f) @ map wg_id (writers f))"

definition session_inv :: "nat multiset \<Rightarrow> nat multiset \<Rightarrow> Session \<Rightarrow> bool" where
  "session_inv H N f \<longleftrightarrow> files_inv (held_res f + H) (held_meta f + N) (inner f) \<and> keys_inv f \<and>
     (\<forall>p \<in> set (pend f). pending_ok p (inner f) \<and> count (held_meta f + N) (pu_metadata p) = 1) \<and>
     (\<forall>w \<in> set (writers f). writer_ok w (inner f))"

section \<open>Preservation\<close>

lemma pending_ok_kept: "pending_ok p s \<Longrightarrow> kept s s' \<Longrightarrow> pending_ok p s'"
  by (auto simp: pending_ok_def kept_def)

lemma writer_ok_kept:
  assumes "writer_ok w s" "kept s s'" "lookup (wg_id w) s' = lookup (wg_id w) s \<or> lookup (wg_id w) s' = None"
  shows "writer_ok w s'"
  using assms by (auto simp: writer_ok_def kept_def)

text \<open>
  One step from \<open>s\<close> to \<open>s'\<close>, seen by the other handlers: sizes of cells are kept, identifiers only grow, and
  apart from the keys \<open>K\<close> the step writes, an entry is as before or gone.
\<close>

definition evolves :: "ustr set \<Rightarrow> Inner \<Rightarrow> Inner \<Rightarrow> bool" where
  "evolves K s s' \<longleftrightarrow> kept s s' \<and> ids s \<le> ids s' \<and> ids s' \<le> ID_MAX \<and> (\<forall>k \<in> K. issued (ids s') k) \<and>
     (\<forall>k. k \<notin> K \<longrightarrow> lookup k s' = lookup k s \<or> lookup k s' = None)"

lemma session_evolve:
  assumes i: "session_inv H N f" and fi: "files_inv (held_res f' + H) (held_meta f' + N) (inner f')"
    and ev: "evolves K (inner f) (inner f')"
    and pend: "\<forall>p \<in> set (pend f'). count (held_meta f' + N) (pu_metadata p) = 1 \<and>
      (p \<in> set (pend f) \<and> pu_id p \<notin> K \<or>
       issued (ids (inner f')) (pu_id p) \<and> lookup (pu_id p) (inner f') = None \<and> pending_ok p (inner f'))"
    and wr: "\<forall>w \<in> set (writers f'). w \<in> set (writers f) \<and> wg_id w \<notin> K \<or>
      issued (ids (inner f')) (wg_id w) \<and> writer_ok w (inner f')"
    and dist: "distinct (map pu_id (pend f') @ map wg_id (writers f'))"
  shows "session_inv H N f'"
proof -
  let ?s = "inner f" and ?s' = "inner f'"
  have k: "kept ?s ?s'" "ids ?s \<le> ids ?s'" "ids ?s' \<le> ID_MAX" and K: "\<And>x. x \<in> K \<Longrightarrow> issued (ids ?s') x"
    and look: "\<And>x. x \<notin> K \<Longrightarrow> lookup x ?s' = lookup x ?s \<or> lookup x ?s' = None"
    using ev by (auto simp: evolves_def)
  have old: "\<And>x. lookup x ?s \<noteq> None \<Longrightarrow> issued (ids ?s) x"
    "\<And>p. p \<in> set (pend f) \<Longrightarrow> issued (ids ?s) (pu_id p) \<and> lookup (pu_id p) ?s = None \<and> pending_ok p ?s"
    "\<And>w. w \<in> set (writers f) \<Longrightarrow> issued (ids ?s) (wg_id w) \<and> writer_ok w ?s"
    using i by (auto simp: session_inv_def keys_inv_def)
  have keys: "issued (ids ?s') x" if "lookup x ?s' \<noteq> None" for x
    using that K look [of x] old(1) [of x] issued_mono [OF _ k(2)] by (cases "x \<in> K") auto
  have p: "issued (ids ?s') (pu_id p) \<and> lookup (pu_id p) ?s' = None \<and> pending_ok p ?s'" if "p \<in> set (pend f')" for p
  proof (cases "p \<in> set (pend f) \<and> pu_id p \<notin> K")
    case True
    then show ?thesis using old(2) [of p] look [of "pu_id p"] issued_mono [OF _ k(2)] pending_ok_kept [OF _ k(1)] by auto
  next
    case False
    then show ?thesis using pend that by auto
  qed
  have w: "issued (ids ?s') (wg_id w) \<and> writer_ok w ?s'" if "w \<in> set (writers f')" for w
  proof (cases "w \<in> set (writers f) \<and> wg_id w \<notin> K")
    case True
    then show ?thesis using old(3) [of w] look [of "wg_id w"] issued_mono [OF _ k(2)] writer_ok_kept [OF _ k(1)] by auto
  next
    case False
    then show ?thesis using wr that by auto
  qed
  show ?thesis unfolding session_inv_def keys_inv_def using fi k(3) keys p w pend dist by blast
qed

lemma distinct_count_le: "(\<And>a. count (mset xs) a \<le> 1) \<Longrightarrow> distinct xs"
proof (induction xs)
  case (Cons x xs)
  have z: "count (mset xs) x = 0" using Cons.prems [of x] by simp
  have "count (mset xs) a \<le> 1" for a
  proof (cases "x = a")
    case True
    then show ?thesis using z by (simp only:)
  next
    case False
    then show ?thesis using Cons.prems [of a] by simp
  qed
  then show ?case using z using Cons.IH by (simp add: count_eq_zero_iff)
qed simp

lemma distinct_map_submset:
  assumes "distinct (map g xs)" "mset ys \<subseteq># mset xs"
  shows "distinct (map g ys)"
proof (rule distinct_count_le)
  fix a
  have "count (mset (map g ys)) a \<le> count (mset (map g xs)) a"
    using mset_subset_eq_count [OF image_mset_subseteq_mono [OF assms(2), of g]] by simp
  also have "\<dots> \<le> 1" using assms(1) distinct_count_atmost_1 [of "map g xs"] by simp
  finally show "count (mset (map g ys)) a \<le> 1" .
qed

text \<open>Steps that write no entry and take no new part: the remaining handlers keep what they own.\<close>

lemma session_shrink:
  assumes i: "session_inv H N f" and fi: "files_inv (held_res f' + H) (held_meta f' + N) (inner f')"
    and ev: "evolves {} (inner f) (inner f')"
    and sub: "mset (pend f') \<subseteq># mset (pend f)" "mset (writers f') \<subseteq># mset (writers f)"
  shows "session_inv H N f'"
proof (rule session_evolve [OF i fi ev])
  have c: "count (held_meta f' + N) a \<le> count (held_meta f + N) a" for a
    using image_mset_subseteq_mono [OF sub(1), of pu_metadata]
    by (simp add: held_meta_def mset_map [symmetric] mset_subset_eq_count del: mset_map)
  have one: "count (held_meta f' + N) (pu_metadata p) = 1" and mem: "p \<in> set (pend f)" if p: "p \<in> set (pend f')" for p
  proof -
    show m: "p \<in> set (pend f)" using mset_subset_eqD [OF sub(1)] p by simp
    have "pu_metadata p \<in># held_meta f'" using p by (simp add: held_meta_def)
    then have "0 < count (held_meta f') (pu_metadata p)" by (simp only: count_greater_zero_iff)
    moreover have "count (held_meta f + N) (pu_metadata p) = 1" using i m by (simp add: session_inv_def)
    ultimately show "count (held_meta f' + N) (pu_metadata p) = 1"
      using c [of "pu_metadata p"] unfolding count_union by linarith
  qed
  then show "\<forall>p \<in> set (pend f'). count (held_meta f' + N) (pu_metadata p) = 1 \<and>
      (p \<in> set (pend f) \<and> pu_id p \<notin> {} \<or>
       issued (ids (inner f')) (pu_id p) \<and> lookup (pu_id p) (inner f') = None \<and> pending_ok p (inner f'))" by simp
  show "\<forall>w \<in> set (writers f'). w \<in> set (writers f) \<and> wg_id w \<notin> {} \<or>
      issued (ids (inner f')) (wg_id w) \<and> writer_ok w (inner f')"
    using mset_subset_eqD [OF sub(2)] by auto
  have "distinct (map pu_id (pend f') @ map wg_id (writers f'))"
  proof -
    have d: "distinct (map pu_id (pend f) @ map wg_id (writers f))" using i by (simp add: session_inv_def keys_inv_def)
    have "set (pend f') \<subseteq> set (pend f)" "set (writers f') \<subseteq> set (writers f)"
      using set_mset_mono [OF sub(1)] set_mset_mono [OF sub(2)] by simp_all
    then show ?thesis using d distinct_map_submset [OF _ sub(1), of pu_id] distinct_map_submset [OF _ sub(2), of wg_id] by auto
  qed
  then show "distinct (map pu_id (pend f') @ map wg_id (writers f'))" .
qed

section \<open>What each operation does to the entries\<close>

named_theorems evolves_intros \<open>operations as seen by other handlers\<close>

lemma evolves_refl: "ids s \<le> ID_MAX \<Longrightarrow> evolves {} s s"
  by (simp add: evolves_def)

lemma evolves_trans:
  assumes "evolves K s t" "evolves L t u"
  shows "evolves (K \<union> L) s u"
proof -
  have "issued (ids u) k" if "k \<in> K" for k using assms that issued_mono by (auto simp: evolves_def)
  moreover have "lookup k u = lookup k s \<or> lookup k u = None" if "k \<notin> K" "k \<notin> L" for k
  proof -
    have "lookup k t = lookup k s \<or> lookup k t = None" "lookup k u = lookup k t \<or> lookup k u = None"
      using assms that by (auto simp: evolves_def)
    then show ?thesis by auto
  qed
  ultimately show ?thesis using assms kept_trans [of s t u] by (simp add: evolves_def) blast
qed

lemma evolves_trans0: "evolves {} s t \<Longrightarrow> evolves K t u \<Longrightarrow> evolves K s u"
  using evolves_trans [of "{}" s t K u] by simp

lemma evolves_trans1: "evolves K s t \<Longrightarrow> evolves {} t u \<Longrightarrow> evolves K s u"
  using evolves_trans [of K s t "{}" u] by simp

lemma evolves_same: "kept s t \<Longrightarrow> entries t = entries s \<Longrightarrow> ids t = ids s \<Longrightarrow> ids s \<le> ID_MAX \<Longrightarrow> evolves {} s t"
  by (simp add: evolves_def lookup_def)

lemma evolves_cells:
  assumes "ids s \<le> ID_MAX"
  shows "evolves {} s (arc_clone a s)" "evolves {} s (arc_drop a s)" "evolves {} s (meta_clone a s)"
    "evolves {} s (meta_drop a s)" "evolves {} s (drop_entry e s)"
  using assms by (auto intro!: evolves_same kept_intros)

lemma evolves_acquire:
  assumes "ids s \<le> ID_MAX"
  shows "input_reservation n s = (v, t) \<Longrightarrow> evolves {} s t" "reserve_metadata n s = (v, t) \<Longrightarrow> evolves {} s t"
  using assms acquire_frame(1,3) kept_acquire(1,3) by (blast intro: evolves_same)+

lemma evolves_remove: "ids s \<le> ID_MAX \<Longrightarrow> evolves {} s (remove_entry k s)"
  by (auto simp: evolves_def kept_entries remove_entry_def lookup_def AList.delete_conv')

lemma evolves_next_id:
  assumes "ids s < ID_MAX" "next_id p s = (k, t)"
  shows "evolves {} s t" "k = idstr p (ids s)" "issued (ids t) k" "ids t = ids s + 1"
proof -
  have t: "t = s\<lparr>ids := ids s + 1\<rparr>" "k = idstr p (ids s)" using assms by (auto simp: next_id_idstr ID_MAX_def)
  then show "evolves {} s t" "k = idstr p (ids s)" "ids t = ids s + 1"
    using assms by (auto simp: evolves_def kept_entries lookup_def)
  show "issued (ids t) k" unfolding issued_def using t by (intro exI [of _ p] exI [of _ "ids s"]) simp
qed

lemma evolves_cleanup: "store_inv H N s \<Longrightarrow> ids s \<le> ID_MAX \<Longrightarrow> evolves {} s (cleanup_expired now s)"
  by (auto simp: evolves_def kept_cleanup lookup_cleanup split: option.splits)

lemma evolves_insert: "ids s \<le> ID_MAX \<Longrightarrow> issued (ids s) k \<Longrightarrow> evolves {k} s (insert_entry k e s)"
  by (auto simp: evolves_def kept_insert lookup_insert_entry)

lemma evolves_put_entry: "ids s \<le> ID_MAX \<Longrightarrow> issued (ids s) k \<Longrightarrow> evolves {k} s (put_upload_entry k u s)"
  by (auto simp: evolves_def lookup_put_upload_entry) (auto simp: kept_def put_upload_entry_def)

lemma evolves_ids: "evolves K s t \<Longrightarrow> ids t \<le> ID_MAX \<and> ids s \<le> ids t"
  by (simp add: evolves_def)

lemma evolves_lookup: "evolves K s t \<Longrightarrow> k \<notin> K \<Longrightarrow> lookup k t = lookup k s \<or> lookup k t = None"
  by (simp add: evolves_def)

lemma evolves_None: "evolves {} s t \<Longrightarrow> lookup k s = None \<Longrightarrow> lookup k t = None"
  using evolves_lookup [of "{}" s t k] by auto

lemma evolves_weaken: "evolves {} s t \<Longrightarrow> issued (ids s) k \<Longrightarrow> evolves {k} s t"
  by (auto simp: evolves_def intro: issued_mono)

lemma evolves_abort:
  assumes "ids s \<le> ID_MAX"
  shows "evolves {} s (writer_abort w s)"
proof (cases "lookup (wg_id w) s")
  case None
  then show ?thesis using evolves_cells(2) [OF assms] by (simp add: writer_abort_def)
next
  case (Some e)
  have "evolves {} s (drop_entry e (remove_entry (wg_id w) s))"
    using evolves_remove [OF assms] by (rule evolves_trans0) (rule evolves_cells, simp add: remove_entry_def assms)
  then show ?thesis using Some
    by (simp add: writer_abort_def) (rule evolves_trans0, assumption, rule evolves_cells, simp add: remove_entry_def assms)
qed

lemma evolves_cancel:
  assumes "store_inv H N s" "ids s \<le> ID_MAX" "cancel_upload cnow k s = (r, t)"
  shows "evolves {} s t"
proof -
  let ?s = "cleanup_expired cnow s"
  have c: "evolves {} s ?s" by (rule evolves_cleanup [OF assms(1,2)])
  have "evolves {} ?s (drop_entry e (remove_entry k ?s))" for e
    by (rule evolves_trans0 [OF evolves_remove evolves_cells(5)]) (simp_all add: remove_entry_def assms)
  then show ?thesis using assms(3) c evolves_trans0 [OF c]
    by (auto simp: cancel_upload_def Let_def split: option.splits Entry.splits if_splits)
qed

lemma evolves_delete:
  assumes "store_inv H N s" "ids s \<le> ID_MAX" "delete_file cnow k s = (r, t)"
  shows "evolves {} s t"
proof -
  let ?s = "cleanup_expired cnow s"
  have c: "evolves {} s ?s" by (rule evolves_cleanup [OF assms(1,2)])
  have "evolves {} ?s (drop_entry e (remove_entry k ?s))" for e
    by (rule evolves_trans0 [OF evolves_remove evolves_cells(5)]) (simp_all add: remove_entry_def assms)
  then show ?thesis using assms(3) c evolves_trans0 [OF c]
    by (auto simp: delete_file_def Let_def split: option.splits Entry.splits)
qed

lemma evolves_content:
  assumes "store_inv H N s" "ids s \<le> ID_MAX" "content cnow k s = (r, t)"
  shows "evolves {} s t"
proof -
  let ?s = "cleanup_expired cnow s"
  have c: "evolves {} s ?s" by (rule evolves_cleanup [OF assms(1,2)])
  have "evolves {} ?s (arc_clone a ?s)" for a by (rule evolves_cells) (simp add: assms)
  then show ?thesis using assms(3) c evolves_trans0 [OF c]
    by (auto simp: content_def Let_def split: option.splits Entry.splits if_splits)
qed

lemma evolves_reserve:
  assumes "store_inv H N s" "ids s < ID_MAX" "create_reserve cfg cnow now req s = (r, t)"
  shows "evolves {} s t \<and> (\<forall>p. r = Ok p \<longrightarrow> pu_id p = idstr ''upload'' (ids s) \<and> ids t = ids s + 1)"
proof (cases rule: create_reserve_cases [of cfg cnow now req s])
  case err
  then show ?thesis using assms evolves_cleanup [OF assms(1)] evolves_refl by auto
next
  case (go q ttl)
  let ?s = "cleanup_expired cnow s"
  obtain k s1 where n: "next_id ''upload'' ?s = (k, s1)" by fastforce
  have i1: "ids ?s < ID_MAX" using assms(2) by simp
  note n1 = evolves_next_id [OF i1 n]
  obtain v s2 where m: "reserve_metadata 2 s1 = (v, s2)" by fastforce
  obtain v' s3 where b: "input_reservation (uc_bytes q) s2 = (v', s3)" by fastforce
  have id1: "ids s1 \<le> ID_MAX" using n1(4) i1 by simp
  have id2: "ids s2 = ids s1" "ids s3 = ids s1" using acquire_frame(1) [OF b] acquire_frame(3) [OF m] by simp_all
  have e1: "evolves {} s s1" using evolves_trans0 [OF evolves_cleanup [OF assms(1)] n1(1)] assms(2) by simp
  have e2: "evolves {} s s2" using evolves_trans0 [OF e1 evolves_acquire(2) [OF id1 m]] .
  have e3: "evolves {} s s3" using evolves_trans0 [OF e2 evolves_acquire(1) [OF _ b]] id1 id2 by simp
  have e4: "evolves {} s (meta_drop a s3)" for a using evolves_trans0 [OF e3 evolves_cells(4)] id1 id2 by simp
  have "t = s2 \<and> (\<exists>e. r = Err e) \<or> (\<exists>a. t = meta_drop a s3 \<and> (\<exists>e. r = Err e)) \<or> t = s3 \<and> (\<forall>p. r = Ok p \<longrightarrow> pu_id p = k)"
    using assms(3) go(8) n m b by (auto simp: reserve_upload_def split: option.splits)
  then show ?thesis using e2 e3 e4 n1(2,4) id2 by auto
qed

section \<open>Every step keeps the invariant\<close>

lemma held_simps [simp]:
  "held_res (f\<lparr>inner := s\<rparr>) = held_res f" "held_meta (f\<lparr>inner := s\<rparr>) = held_meta f"
  "held_meta (f\<lparr>inner := s, writers := ws\<rparr>) = held_meta f" "held_meta (f\<lparr>inner := s, bodies := bs\<rparr>) = held_meta f"
  "held_res (f\<lparr>inner := s, bodies := a # bodies f\<rparr>) = add_mset a (held_res f)"
  "held_res (f\<lparr>inner := s, writers := w # writers f\<rparr>) = add_mset (wg_reservation w) (held_res f)"
  "held_res (f\<lparr>inner := s, pend := p # pend f\<rparr>) = add_mset (pu_reservation p) (held_res f)"
  "held_meta (f\<lparr>inner := s, pend := p # pend f\<rparr>) = add_mset (pu_metadata p) (held_meta f)"
  by (simp_all add: held_res_def held_meta_def)

lemma mset_map_remove1: "x \<in> set xs \<Longrightarrow> add_mset (g x) (mset (map g (remove1 x xs))) = mset (map g xs)"
  by (induction xs) auto

lemma held_remove:
  "a \<in> set (bodies f) \<Longrightarrow> held_res f = add_mset a (held_res (f\<lparr>inner := s, bodies := remove1 a (bodies f)\<rparr>))"
  "w \<in> set (writers f) \<Longrightarrow> held_res f = add_mset (wg_reservation w) (held_res (f\<lparr>inner := s, writers := remove1 w (writers f)\<rparr>))"
  "p \<in> set (pend f) \<Longrightarrow> held_res f = add_mset (pu_reservation p) (held_res (f\<lparr>inner := s, pend := remove1 p (pend f)\<rparr>))"
  "p \<in> set (pend f) \<Longrightarrow> held_meta f = add_mset (pu_metadata p) (held_meta (f\<lparr>inner := s, pend := remove1 p (pend f)\<rparr>))"
  by (simp_all add: held_res_def held_meta_def mset_map_remove1 [symmetric] del: mset_map)

lemma session_files: "session_inv H N f \<Longrightarrow> files_inv (held_res f + H) (held_meta f + N) (inner f)"
  by (simp add: session_inv_def)

lemma session_store: "session_inv H N f \<Longrightarrow> store_inv (held_res f + H) (held_meta f + N) (inner f)"
  by (simp add: session_inv_def files_inv_def)

lemma session_ids: "session_inv H N f \<Longrightarrow> ids (inner f) \<le> ID_MAX"
  by (simp add: session_inv_def keys_inv_def)

lemma plain_step:
  assumes "session_inv H N f" "files_inv (held_res f + H) (held_meta f + N) s'" "evolves {} (inner f) s'"
  shows "session_inv H N (f\<lparr>inner := s'\<rparr>)"
  by (rule session_shrink [OF assms(1)]) (use assms in simp_all)

lemma remove1_ids: "distinct (map g xs) \<Longrightarrow> x \<in> set xs \<Longrightarrow> y \<in> set (remove1 x xs) \<Longrightarrow> g y \<noteq> g x"
  by (auto simp: distinct_map set_remove1_eq inj_on_def)

lemma reserve_fresh:
  assumes "create_reserve cfg cnow now req s = (Ok p, s')"
  shows "length (metas s) \<le> pu_metadata p"
proof (cases rule: create_reserve_cases [of cfg cnow now req s])
  case err
  then show ?thesis using assms by simp
next
  case (go q ttl)
  have "length (metas s) \<le> length (metas (cleanup_expired cnow s))" using kept_cleanup [of s cnow] by (simp add: kept_def)
  moreover have "pu_metadata p = length (metas (cleanup_expired cnow s))"
    using assms go(8) by (auto simp: reserve_upload_def next_id_def acquire_defs split: if_splits option.splits)
  ultimately show ?thesis by simp
qed

lemma step_reserve_ok:
  assumes i: "session_inv H N f" and c: "create_reserve cfg cnow now req (inner f) = (Ok p, s')" and n: "ids (inner f) < ID_MAX"
  shows "session_inv H N (f\<lparr>inner := s', pend := p # pend f\<rparr>)" (is "session_inv H N ?f")
proof (rule session_evolve [OF i])
  note fi = create_reserve_inv [OF session_files [OF i] c]
  note ev = evolves_reserve [OF session_store [OF i] n c]
  show "files_inv (held_res ?f + H) (held_meta ?f + N) (inner ?f)" "evolves {} (inner f) (inner ?f)" using fi ev by simp_all
  have fresh: "\<not> issued (ids (inner f)) (pu_id p)" using ev issued_fresh [of "ids (inner f)"] n by auto
  have "issued (ids s') (pu_id p)" using ev unfolding issued_def by auto
  moreover have "lookup (pu_id p) s' = None"
  proof -
    have "lookup (pu_id p) (inner f) = None" using fresh i by (auto simp: session_inv_def keys_inv_def)
    then show ?thesis using ev by (auto dest: evolves_None)
  qed
  moreover have m: "pu_metadata p \<notin># held_meta f + N"
    using store_inv_live(2) [OF session_store [OF i], of "pu_metadata p"] reserve_fresh [OF c] by auto
  ultimately show "\<forall>q \<in> set (pend ?f). count (held_meta ?f + N) (pu_metadata q) = 1 \<and>
      (q \<in> set (pend f) \<and> pu_id q \<notin> {} \<or>
       issued (ids (inner ?f)) (pu_id q) \<and> lookup (pu_id q) (inner ?f) = None \<and> pending_ok q (inner ?f))"
    using fi i by (auto simp: session_inv_def count_eq_zero_iff held_meta_def)
  show "\<forall>w \<in> set (writers ?f). w \<in> set (writers f) \<and> wg_id w \<notin> {} \<or> issued (ids (inner ?f)) (wg_id w) \<and> writer_ok w (inner ?f)"
    by simp
  show "distinct (map pu_id (pend ?f) @ map wg_id (writers ?f))"
    using fresh i by (auto simp: session_inv_def keys_inv_def)
qed

lemma step_commit:
  assumes i: "session_inv H N f" and p: "p \<in> set (pend f)" and c: "commit_upload p (inner f) = (r, s')"
  shows "session_inv H N (f\<lparr>inner := s', pend := remove1 p (pend f)\<rparr>)" (is "session_inv H N ?f")
proof (rule session_evolve [OF i])
  let ?s = "inner f"
  have d: "distinct (map pu_id (pend f))" "distinct (map pu_id (pend f) @ map wg_id (writers f))"
    using i by (simp_all add: session_inv_def keys_inv_def)
  have one: "count (held_meta f + N) (pu_metadata p) = 1" "pending_ok p ?s" "lookup (pu_id p) ?s = None" "issued (ids ?s) (pu_id p)"
    using i p by (auto simp: session_inv_def keys_inv_def)
  note hr = held_remove(3,4) [OF p, of s']
  have "files_inv (add_mset (pu_reservation p) (held_res ?f + H)) (add_mset (pu_metadata p) (held_meta ?f + N)) ?s"
    using session_files [OF i] hr by simp
  moreover have nm: "pu_metadata p \<notin># held_meta ?f + N" using one(1) hr(2) by (simp add: count_eq_zero_iff)
  ultimately show "files_inv (held_res ?f + H) (held_meta ?f + N) (inner ?f)" using commit_upload_inv one c by simp
  have id: "ids ?s \<le> ID_MAX" using session_ids [OF i] .
  have "evolves {} ?s (arc_drop a (meta_drop b ?s))" for a b
    by (rule evolves_trans0 [OF evolves_cells(4) evolves_cells(2)]) (simp_all add: id)
  then have "evolves {pu_id p} ?s (arc_drop a (meta_drop b ?s))" for a b using one(4) by (auto simp: evolves_def)
  then show "evolves {pu_id p} (inner f) (inner ?f)"
    using c evolves_insert [OF id one(4)] by (auto simp: commit_upload_def split: if_splits)
  have "pu_metadata q \<in># held_meta ?f" if "q \<in> set (remove1 p (pend f))" for q
    using imageI [OF that, of pu_metadata] by (simp add: held_meta_def mset_map [symmetric] del: mset_map mset_remove1)
  then have "count (held_meta ?f + N) (pu_metadata q) = 1" if "q \<in> set (remove1 p (pend f))" for q
    using that i nm hr(2) by (auto simp: session_inv_def dest: notin_set_remove1 split: if_splits)
  then show "\<forall>q \<in> set (pend ?f). count (held_meta ?f + N) (pu_metadata q) = 1 \<and>
      (q \<in> set (pend f) \<and> pu_id q \<notin> {pu_id p} \<or>
       issued (ids (inner ?f)) (pu_id q) \<and> lookup (pu_id q) (inner ?f) = None \<and> pending_ok q (inner ?f))"
    using remove1_ids [OF d(1) p] by (auto dest: notin_set_remove1)
  show "\<forall>w \<in> set (writers ?f). w \<in> set (writers f) \<and> wg_id w \<notin> {pu_id p} \<or> issued (ids (inner ?f)) (wg_id w) \<and> writer_ok w (inner ?f)"
    using d(2) p by force
  show "distinct (map pu_id (pend ?f) @ map wg_id (writers ?f))"
    using d(2) distinct_map_submset [OF d(1), of "remove1 p (pend f)"] set_remove1_subset [of p "pend f"] by auto
qed

text \<open>A handler that is writing \<open>k\<close> keeps the upload marked, so no second writer and no completion starts on it.\<close>

lemma no_other_writer:
  assumes i: "session_inv H N f" and l: "lookup k (cleanup_expired cnow (inner f)) = Some (EUpload u)"
    and u: "\<not> up_uploading u \<or> up_reservation u = None"
  shows "k \<notin> wg_id ` set (writers f)" "k \<notin> pu_id ` set (pend f)" "issued (ids (inner f)) k"
proof -
  have l0: "lookup k (inner f) = Some (EUpload u)"
    using evolves_lookup [OF evolves_cleanup [OF session_store [OF i] session_ids [OF i]], of k cnow] l by auto
  show "k \<notin> wg_id ` set (writers f)" "k \<notin> pu_id ` set (pend f)" "issued (ids (inner f)) k"
    using i l0 u by (auto simp: session_inv_def keys_inv_def writer_ok_def)
qed

lemma step_put_err:
  assumes i: "session_inv H N f" and c: "put_begin cfg cnow now k (inner f) = (Err e, s')"
  shows "session_inv H N (f\<lparr>inner := s'\<rparr>)"
proof (rule plain_step [OF i])
  note fi = session_files [OF i]
  show "files_inv (held_res f + H) (held_meta f + N) s'" using put_begin_inv [OF fi c] by simp
  show "evolves {} (inner f) s'"
  proof (cases rule: put_begin_cases [of cfg cnow now k "inner f"])
    case err
    then show ?thesis using c evolves_cleanup [OF session_store [OF i] session_ids [OF i]] by simp
  next
    case corrupt
    then show ?thesis using lookup_wf(1) [OF cleanup_files_inv [OF fi]] by fastforce
  next
    case go
    then show ?thesis using c by simp
  qed
qed

lemma step_put_ok:
  assumes i: "session_inv H N f" and c: "put_begin cfg cnow now k (inner f) = (Ok w, s')"
  shows "session_inv H N (f\<lparr>inner := s', writers := w # writers f\<rparr>)" (is "session_inv H N ?f")
proof (cases rule: put_begin_cases [of cfg cnow now k "inner f"])
  case err
  then show ?thesis using c by simp
next
  case corrupt
  then show ?thesis using lookup_wf(1) [OF cleanup_files_inv [OF session_files [OF i]]] by fastforce
next
  case (go u r)
  note b = put_begin_inv [OF session_files [OF i] c, simplified]
  note no = no_other_writer [OF i go(1) disjI1 [OF go(5)]]
  let ?c = "cleanup_expired cnow (inner f)"
  have id: "ids ?c \<le> ID_MAX" "issued (ids ?c) k" using session_ids [OF i] no(3) by simp_all
  have "evolves {k} (inner f) (put_upload_entry k (u\<lparr>up_uploading := True\<rparr>) ?c)"
    by (rule evolves_trans0 [OF evolves_cleanup [OF session_store [OF i] session_ids [OF i]] evolves_put_entry [OF id]])
  then have ev: "evolves {k} (inner f) s'"
    using c go(9) by (auto intro: evolves_trans1 [OF _ evolves_cells(1)] dest: evolves_ids)
  then have iss: "issued (ids s') k" by (simp add: evolves_def)
  have ne: "wg_id v \<noteq> k" if "v \<in> set (writers f)" for v using no(1) that by blast
  show ?thesis
  proof (rule session_evolve [OF i])
    show "files_inv (held_res ?f + H) (held_meta ?f + N) (inner ?f)" "evolves {k} (inner f) (inner ?f)" using b ev by simp_all
    show "\<forall>p \<in> set (pend ?f). count (held_meta ?f + N) (pu_metadata p) = 1 \<and>
      (p \<in> set (pend f) \<and> pu_id p \<notin> {k} \<or>
       issued (ids (inner ?f)) (pu_id p) \<and> lookup (pu_id p) (inner ?f) = None \<and> pending_ok p (inner ?f))"
      using i no(2) by (auto simp: session_inv_def)
    show "\<forall>v \<in> set (writers ?f). v \<in> set (writers f) \<and> wg_id v \<notin> {k} \<or> issued (ids (inner ?f)) (wg_id v) \<and> writer_ok v (inner ?f)"
      using ne b iss by auto
    show "distinct (map pu_id (pend ?f) @ map wg_id (writers ?f))"
      using i no(1,2) b by (auto simp: session_inv_def keys_inv_def)
  qed
qed

lemma evolves_finish:
  assumes fi: "files_inv (add_mset (wg_reservation w) H) N s" and w: "writer_ok w s" "issued (ids s) (wg_id w)"
    and id: "ids s \<le> ID_MAX" and p: "put_finish sha w data s = (r, s')"
  shows "evolves {wg_id w} s s'"
proof -
  have a: "evolves {wg_id w} s (writer_abort w s)" using evolves_abort [OF id, of w] w(2) by (rule evolves_weaken)
  have "s' = writer_abort w s \<or> (\<exists>u. s' = arc_drop (wg_reservation w) (arc_drop (wg_reservation w)
      (put_upload_entry (wg_id w) u (arc_clone (wg_reservation w) s))))"
  proof (cases "\<exists>u. lookup (wg_id w) s = Some (EUpload u)")
    case True
    then obtain u where l: "lookup (wg_id w) s = Some (EUpload u)" by blast
    then show ?thesis using put_finish_go [OF w(1) l lookup_wf(1) [OF fi l]] p
      by (auto simp: put_finish_def Let_def split: if_splits)
  next
    case False
    then show ?thesis using p by (auto simp: put_finish_def split: option.splits Entry.splits)
  qed
  moreover have "evolves {wg_id w} s (arc_drop b (arc_drop a (put_upload_entry (wg_id w) u (arc_clone a s))))" for a b u
    by (rule evolves_trans1 [OF evolves_trans1 [OF evolves_trans0 [OF evolves_cells(1) evolves_put_entry] evolves_cells(2)] evolves_cells(2)])
      (use id w(2) in \<open>simp_all add: put_upload_entry_def\<close>)
  ultimately show ?thesis using a by auto
qed

lemma step_finish:
  assumes i: "session_inv H N f" and w: "w \<in> set (writers f)" and r: "read_body (wg_expected w) [] body = Ok data"
    and c: "put_finish sha w data (inner f) = (r, s')"
  shows "session_inv H N (f\<lparr>inner := s', writers := remove1 w (writers f)\<rparr>)" (is "session_inv H N ?f")
proof (rule session_evolve [OF i])
  have d: "distinct (map wg_id (writers f))" "distinct (map pu_id (pend f) @ map wg_id (writers f))"
    using i by (simp_all add: session_inv_def keys_inv_def)
  have wo: "writer_ok w (inner f)" "issued (ids (inner f)) (wg_id w)" using i w by (auto simp: session_inv_def keys_inv_def)
  have fi: "files_inv (add_mset (wg_reservation w) (held_res ?f + H)) (held_meta ?f + N) (inner f)"
    using session_files [OF i] held_remove(2) [OF w, of s'] by simp
  show "files_inv (held_res ?f + H) (held_meta ?f + N) (inner ?f)"
    using put_finish_inv [OF fi wo(1) _ c] read_body_Ok [OF r] by simp
  show "evolves {wg_id w} (inner f) (inner ?f)" using evolves_finish [OF fi wo session_ids [OF i] c] by simp
  show "\<forall>p \<in> set (pend ?f). count (held_meta ?f + N) (pu_metadata p) = 1 \<and>
      (p \<in> set (pend f) \<and> pu_id p \<notin> {wg_id w} \<or>
       issued (ids (inner ?f)) (pu_id p) \<and> lookup (pu_id p) (inner ?f) = None \<and> pending_ok p (inner ?f))"
    using i d(2) w by (auto simp: session_inv_def)
  show "\<forall>v \<in> set (writers ?f). v \<in> set (writers f) \<and> wg_id v \<notin> {wg_id w} \<or> issued (ids (inner ?f)) (wg_id v) \<and> writer_ok v (inner ?f)"
    using remove1_ids [OF d(1) w] by (auto dest: notin_set_remove1)
  show "distinct (map pu_id (pend ?f) @ map wg_id (writers ?f))"
    using d(2) distinct_map_submset [OF d(1), of "remove1 w (writers f)"] set_remove1_subset [of w "writers f"] by auto
qed

lemma step_compl:
  assumes i: "session_inv H N f" and n: "ids (inner f) < ID_MAX" and c: "complete cnow now body k (inner f) = (r, s')"
  shows "session_inv H N (f\<lparr>inner := s'\<rparr>)" (is "session_inv H N ?f")
proof -
  let ?s = "inner f" and ?c = "cleanup_expired cnow (inner f)"
  define fid where "fid = fst (next_id ''file'' ?s)"
  have fid: "fid = idstr ''file'' (ids ?s)" by (simp add: fid_def next_id_idstr)
  have new: "\<not> issued (ids ?s) fid" using issued_fresh [of "ids ?s" fid] fid n by auto
  then have fresh: "lookup fid ?s = None" using i by (auto simp: session_inv_def keys_inv_def)
  have ec: "evolves {} ?s ?c" by (rule evolves_cleanup [OF session_store [OF i] session_ids [OF i]])
  have fi: "files_inv (held_res ?f + H) (held_meta ?f + N) (inner ?f)"
    using complete_inv [OF session_files [OF i] _ c] fresh by (simp add: fid_def)
  from evolves_None [OF ec fresh, unfolded fid_def] show ?thesis
  proof (cases rule: complete_cases [where now = now and body = body and k = k])
    case (new u b)
    have wf: "up_reservation u = None" using lookup_wf(1) [OF cleanup_files_inv [OF session_files [OF i]] new(1)] new(3,4)
      by (auto split: option.splits)
    note no = no_other_writer [OF i new(1) disjI2 [OF wf]]
    obtain s1 where s1: "next_id ''file'' (arc_clone (b_res b) ?c) = (fid, s1)" by (simp add: fid_def next_id_idstr)
    have e1: "evolves {} ?s (arc_clone (b_res b) ?c)" using evolves_trans0 [OF ec evolves_cells(1)] session_ids [OF i] by simp
    have lt: "ids (arc_clone (b_res b) ?c) < ID_MAX" using n by simp
    note nx = evolves_next_id [OF lt s1]
    have e2: "evolves {} ?s (meta_clone (up_metadata u) s1)" (is "evolves {} ?s ?s2")
      using evolves_trans0 [OF evolves_trans0 [OF e1 nx(1)] evolves_cells(3)] nx(4) lt by simp
    have id2: "ids ?s2 \<le> ID_MAX" "issued (ids ?s2) fid" "issued (ids ?s2) k"
      using nx(3,4) lt issued_mono [OF no(3), of "ids ?s2"] by simp_all
    have e3: "evolves ({fid} \<union> {k}) ?s (put_upload_entry k (completed_upload fid u) (insert_entry fid (completed_file fid u b) ?s2))"
      by (rule evolves_trans [OF evolves_trans0 [OF e2 evolves_insert [OF id2(1,2)]] evolves_put_entry])
        (use id2 in \<open>simp_all add: insert_entry_def Let_def split: option.split\<close>)
    have "s' = complete_step k u b ?c" using c new(5) by simp
    then have ev: "evolves {fid, k} ?s s'"
      using s1 evolves_trans1 [OF e3 evolves_cells(2)] evolves_ids [OF e3] by (simp add: complete_step_def insert_commute)
    have old: "pu_id p \<notin> {fid, k}" if "p \<in> set (pend f)" for p
      using that \<open>\<not> issued (ids ?s) fid\<close> no(2) i by (auto simp: session_inv_def keys_inv_def)
    have old': "wg_id w \<notin> {fid, k}" if "w \<in> set (writers f)" for w
      using that \<open>\<not> issued (ids ?s) fid\<close> no(1) i by (auto simp: session_inv_def keys_inv_def)
    show ?thesis by (rule session_evolve [OF i fi]) (use ev old old' i in \<open>auto simp: session_inv_def keys_inv_def\<close>)
  qed (use c plain_step [OF i] fi ec in \<open>auto\<close>)
qed

lemma step_abort:
  assumes i: "session_inv H N f" and w: "w \<in> set (writers f)"
  shows "session_inv H N (f\<lparr>inner := writer_abort w (inner f), writers := remove1 w (writers f)\<rparr>)" (is "session_inv H N ?f")
proof (rule session_shrink [OF i])
  have "files_inv (add_mset (wg_reservation w) (held_res ?f + H)) (held_meta ?f + N) (inner f)"
    using session_files [OF i] held_remove(2) [OF w, of "writer_abort w (inner f)"] by simp
  then show "files_inv (held_res ?f + H) (held_meta ?f + N) (inner ?f)" by (simp add: writer_abort_inv)
qed (simp_all add: evolves_abort [OF session_ids [OF i]] diff_subset_eq_self)

lemma step_sent:
  assumes i: "session_inv H N f" and a: "a \<in> set (bodies f)"
  shows "session_inv H N (f\<lparr>inner := arc_drop a (inner f), bodies := remove1 a (bodies f)\<rparr>)" (is "session_inv H N ?f")
proof (rule session_shrink [OF i])
  have "files_inv (add_mset a (held_res ?f + H)) (held_meta ?f + N) (inner f)"
    using session_files [OF i] held_remove(1) [OF a, of "arc_drop a (inner f)"] by simp
  then show "files_inv (held_res ?f + H) (held_meta ?f + N) (inner ?f)" by (simp add: drops_files_inv)
qed (simp_all add: evolves_cells [OF session_ids [OF i]])

lemma stop_admissions_inv: "files_inv H N s \<Longrightarrow> files_inv H N (stop_admissions s)"
proof -
  assume i: "files_inv H N s"
  have e: "entries (stop_admissions s) = entries s" by (simp add: stop_admissions_def)
  have "store_inv H N (stop_admissions s)"
    using i refs_cong [OF e] heap_frame [of "stop_admissions s" s]
    by (simp add: files_inv_def store_inv_def stop_admissions_def)
  from files_inv_handles [OF i this e] show "files_inv H N (stop_admissions s)"
    using files_inv_slots [OF i] by (simp add: stop_admissions_def kept_def)
qed

lemmas step_intros = step_reserve_ok step_commit step_put_err step_put_ok step_finish step_compl

lemma fstep_inv:
  assumes st: "fstep cfg sha f f'" and i: "session_inv H N f"
  shows "session_inv H N f'"
proof -
  note fi = session_files [OF i] and si = session_store [OF i] and id = session_ids [OF i]
  from st show ?thesis
  proof cases
    case (reserve_err cnow now req e s')
    then show ?thesis
      using plain_step [OF i] create_reserve_inv [OF fi reserve_err(2)] evolves_reserve [OF si reserve_err(3,2)] by simp
  next
    case (get_up cnow now k)
    then show ?thesis using plain_step [OF i get_upload_inv [OF fi]] evolves_cleanup [OF si id]
      by (simp add: get_upload_def Let_def)
  next
    case (abort w)
    then show ?thesis using step_abort [OF i abort(2)] by simp
  next
    case (cancel cnow k r s')
    then show ?thesis using plain_step [OF i cancel_upload_inv [OF fi] evolves_cancel [OF si id]] by simp
  next
    case (listing cnow q r s')
    then have "s' = cleanup_expired cnow (inner f)" by (auto simp: list_files_def Let_def split: result.splits if_splits)
    then show ?thesis using listing plain_step [OF i cleanup_files_inv [OF fi] evolves_cleanup [OF si id]] by simp
  next
    case (get cnow now k r s')
    then have "s' = cleanup_expired cnow (inner f)" by (auto simp: get_file_def Let_def split: option.splits Entry.splits if_splits)
    then show ?thesis using get plain_step [OF i cleanup_files_inv [OF fi] evolves_cleanup [OF si id]] by simp
  next
    case (del cnow k r s')
    then show ?thesis using plain_step [OF i delete_file_inv [OF fi] evolves_delete [OF si id]] by simp
  next
    case (content_err cnow k e s')
    then show ?thesis using plain_step [OF i _ evolves_content [OF si id]] content_inv [OF fi content_err(2)] by simp
  next
    case (content_ok cnow k b h s')
    then show ?thesis using content_inv [OF fi content_ok(2)] evolves_content [OF si id content_ok(2)]
      by (simp, intro session_shrink [OF i]) simp_all
  next
    case (sent a)
    then show ?thesis using step_sent [OF i sent(2)] by simp
  next
    case (cleanup now)
    then show ?thesis using plain_step [OF i cleanup_files_inv [OF fi] evolves_cleanup [OF si id]] by simp
  next
    case stop
    have "files_inv (held_res f + H) (held_meta f + N) (stop_admissions (inner f))"
      by (rule stop_admissions_inv [OF fi])
    moreover have "evolves {} (inner f) (stop_admissions (inner f))"
      by (simp add: evolves_def stop_admissions_def kept_def lookup_def id)
    ultimately show ?thesis using stop plain_step [OF i] by simp
  qed (use i in \<open>auto intro: step_intros\<close>)
qed

section \<open>Reachable sessions\<close>

definition session_start :: Session where
  "session_start = \<lparr>inner = new_inner, pend = [], writers = [], bodies = []\<rparr>"

inductive freach :: "StoreConfig \<Rightarrow> (byte list \<Rightarrow> ustr) \<Rightarrow> Session \<Rightarrow> bool" for cfg sha where
  start: "freach cfg sha session_start"
| step: "freach cfg sha f \<Longrightarrow> fstep cfg sha f f' \<Longrightarrow> freach cfg sha f'"

lemma session_start_inv: "session_inv {#} {#} session_start"
  by (simp add: session_inv_def session_start_def keys_inv_def held_res_def held_meta_def files_inv_def store_inv_def
      heap_inv_def input_pool.pool_inv_def artifact_pool.pool_inv_def meta_pool.pool_inv_def entries_wf_def slots_inv_def
      quota_inv_def new_inner_def res_refs_def meta_refs_def lookup_def ID_MAX_def)

lemma freach_inv: "freach cfg sha f \<Longrightarrow> session_inv {#} {#} f"
  by (induction rule: freach.induct) (simp_all add: session_start_inv fstep_inv)

text \<open>
  C18: In every state the file endpoints can reach, by any interleaving, the three counters are exact and within
  their limits: the input counter is the total size of the input reservations some handle still refers to, the
  metadata counter that of the metadata reservations, every reference count equals the number of handles held by
  stored entries and by handlers in flight, and neither counter passes its limit (so no subtraction wraps).
\<close>

theorem session_accounting:
  assumes "freach cfg sha f"
  shows "used (inner f) = sum_list (map (\<lambda>c. if \<not> r_artifact c \<and> 0 < r_refs c then r_size c else 0) (resv (inner f)))
    \<and> meta_used (inner f) = sum_list (map (\<lambda>c. if 0 < m_refs c then m_count c else 0) (metas (inner f)))
    \<and> (\<forall>a < length (resv (inner f)). r_refs (resv (inner f) ! a) = count (res_refs (inner f) + held_res f) a)
    \<and> (\<forall>a < length (metas (inner f)). m_refs (metas (inner f) ! a) = count (meta_refs (inner f) + held_meta f) a)
    \<and> used (inner f) \<le> INPUT_CAP \<and> meta_used (inner f) \<le> META_CAP"
  using session_store [OF freach_inv [OF assms]]
  by (simp add: store_inv_def heap_inv_def input_pool.pool_inv_def meta_pool.pool_inv_def input_pool.charge_def [abs_def]
      meta_pool.charge_def [abs_def])

definition sample_pending :: PendingUpload where
  "sample_pending = \<lparr>pu_id = idstr ''upload'' 1, pu_request = sample_request, pu_now = 0, pu_ttl = 3600, pu_metadata = 0,
     pu_reservation = 0\<rparr>"

definition sample_session :: Session where
  "sample_session = session_start\<lparr>inner := new_inner\<lparr>used := 1, meta_used := 2, ids := 2,
       resv := [\<lparr>r_size = 1, r_artifact = False, r_refs = 1\<rparr>], metas := [\<lparr>m_count = 2, m_refs = 1\<rparr>]\<rparr>,
     pend := [sample_pending]\<rparr>"

lemma sample_reach: "freach sample_config sha sample_session"
proof (rule freach.step [OF freach.start])
  have caps: "Suc 0 \<le> INPUT_CAP" "Suc (Suc 0) \<le> META_CAP" by (simp_all add: INPUT_CAP_def META_CAP_def)
  have "create_reserve sample_config 0 0 (Some sample_request) new_inner = (Ok sample_pending, inner sample_session)"
    by (simp add: create_reserve_def reserve_upload_def sample_request_def sample_config_def sample_pending_def
        sample_session_def new_inner_def cleanup_expired_def Let_def validate_upload_def file_cap_def body_cap_def
        retain_for_def next_id_idstr acquire_defs trim_def trim_matches_def is_whitespace_def len_utf8_def
        parse_purpose_def UPLOAD_MAX_BYTES_def caps)
  from fstep.reserve_ok [of sample_config 0 0 "Some sample_request" session_start, simplified session_start_def, simplified, OF this]
  show "fstep sample_config sha session_start sample_session"
    by (simp add: session_start_def sample_session_def new_inner_def ID_MAX_def)
qed

theorem session_accounting_witness:
  "used (inner sample_session) = 1 \<and> meta_used (inner sample_session) = 2 \<and> count (held_res sample_session) 0 = 1"
  using session_accounting [OF sample_reach [where sha = "\<lambda>_. []"]]
  by (simp add: sample_session_def new_inner_def res_refs_def meta_refs_def)

text \<open>
  C19: Nothing leaks. Once every upload and file is gone and no handler is in flight, all three counters of a
  reachable state are back at zero, whatever interleaving of creations, writes, aborted writes, completions,
  downloads, deletions and expirations led there.
\<close>

theorem session_released:
  assumes "freach cfg sha f" "entries (inner f) = []" "pend f = []" "writers f = []" "bodies f = []"
  shows "used (inner f) = 0 \<and> artifact_used (inner f) = 0 \<and> meta_used (inner f) = 0"
proof -
  have "res_refs (inner f) + held_res f = {#}" "meta_refs (inner f) + held_meta f = {#}"
    using assms(2-5) by (simp_all add: res_refs_def meta_refs_def held_res_def held_meta_def)
  then have "heap_inv {#} {#} (inner f)"
    using session_store [OF freach_inv [OF assms(1)]] by (simp add: store_inv_def)
  then show ?thesis using input_pool.idle artifact_pool.idle meta_pool.idle by (simp add: heap_inv_def)
qed

text \<open>The sample creation, refused at commit because the server stopped admissions in between.\<close>

definition sample_stopped :: Session where
  "sample_stopped = sample_session\<lparr>inner := snd (commit_upload sample_pending (stop_admissions (inner sample_session))),
     pend := []\<rparr>"

lemma sample_stopped_reach: "freach sample_config sha sample_stopped"
proof (rule freach.step [OF freach.step [OF sample_reach fstep.stop]])
  let ?f = "sample_session\<lparr>inner := stop_admissions (inner sample_session)\<rparr>"
  have "fstep sample_config sha ?f (?f\<lparr>inner := snd (commit_upload sample_pending (inner ?f)), pend := remove1 sample_pending (pend ?f)\<rparr>)"
    by (rule fstep.commit [where r = "fst (commit_upload sample_pending (inner ?f))"]) (simp_all add: sample_session_def)
  then show "fstep sample_config sha ?f sample_stopped" by (simp add: sample_stopped_def) (simp add: sample_session_def)
qed

theorem session_released_witness:
  "used (inner sample_stopped) = 0 \<and> artifact_used (inner sample_stopped) = 0 \<and> meta_used (inner sample_stopped) = 0"
  by (rule session_released [OF sample_stopped_reach [where sha = "\<lambda>_. []"]])
    (simp_all add: sample_stopped_def sample_session_def session_start_def commit_upload_def stop_admissions_def new_inner_def)

text \<open>
  C20: Stored data is what was declared. In every reachable state a file holds exactly as many bytes as its object
  says, is charged for exactly that many, and is stored under the identifier its object carries; two writers never
  work on the same upload, and no identifier a handler is about to use is already taken.
\<close>

theorem session_files_exact:
  assumes "freach cfg sha f"
  shows "(\<forall>k fl. lookup k (inner f) = Some (EFile fl) \<longrightarrow>
      fo_id (f_object fl) = k \<and> length (b_data (f_bytes fl)) = fo_bytes (f_object fl) \<and>
      r_size (resv (inner f) ! b_res (f_bytes fl)) = fo_bytes (f_object fl))
    \<and> distinct (map wg_id (writers f)) \<and> (\<forall>p \<in> set (pend f). lookup (pu_id p) (inner f) = None)"
proof -
  note i = freach_inv [OF assms]
  have "fo_id (f_object fl) = k \<and> length (b_data (f_bytes fl)) = fo_bytes (f_object fl) \<and>
      r_size (resv (inner f) ! b_res (f_bytes fl)) = fo_bytes (f_object fl)" if l: "lookup k (inner f) = Some (EFile fl)" for k fl
  proof -
    have "named (k, EFile fl)" using session_files [OF i] map_of_SomeD [OF l [unfolded lookup_def]]
      by (force simp: files_inv_def entries_wf_def simp del: named.simps)
    then show ?thesis using lookup_wf(1) [OF session_files [OF i] l] by (simp add: charged_exactly_def)
  qed
  then show ?thesis using i by (simp add: session_inv_def keys_inv_def)
qed

theorem session_files_exact_witness:
  "pend sample_session = [sample_pending] \<and> lookup (pu_id sample_pending) (inner sample_session) = None"
  using session_files_exact [OF sample_reach [where sha = "\<lambda>_. []"]] by (simp add: sample_session_def)

end
