(* ===== verification/Runner.thy ===== *)
theory Runner
  imports Jobs Sessions
begin

text \<open>
  The runner task of \<^verbatim>\<open>src/official_api/server/service.rs\<close> and \<open>run_job\<close> of \<^verbatim>\<open>jobs.rs\<close>, interleaved with the
  job endpoints, the file endpoints, the periodic cleanup and the shutdown. One step is one critical section; the
  state between two of them is a phase of the runner. The parser's outcome, the rendering, the clock and the timestamps
  are arbitrary in every step.
\<close>

section \<open>The runner\<close>

text \<open>How the wait for the execution gate ends: woken by a cancellation, with a permit, or with the gate closed.\<close>

datatype permit = NoPermit | Acquired | Closed

datatype phase =
    PHead
  | PPermit
  | PParse
  | PName nat
  | PPublish "(FileObject \<times> byte list) list" "(string \<times> OutputReference) list" nat nat
  | PPubFailed
  | PMark string "string option" bool
  | PFinal

record Run =
  run_id :: ustr
  run_files :: "PreparedFile list"
  run_index :: nat
  run_succ :: nat
  run_fail :: nat
  run_agg :: nat
  run_phase :: phase

definition canceled :: "ustr \<Rightarrow> ServiceInner \<Rightarrow> bool" where
  "canceled k w \<longleftrightarrow> (case map_of (jobs w) k of Some j \<Rightarrow> job_cancel j | None \<Rightarrow> False) \<or> stopping w"

definition set_response :: "ustr \<Rightarrow> (JobResponse \<Rightarrow> JobResponse) \<Rightarrow> ServiceInner \<Rightarrow> ServiceInner" where
  "set_response k f w =
     (case map_of (jobs w) k of None \<Rightarrow> w | Some j \<Rightarrow> set_job k (j\<lparr>job_response := f (job_response j)\<rparr>) w)"

definition file_running :: "nat \<Rightarrow> JobResponse \<Rightarrow> JobResponse" where
  "file_running i r = r\<lparr>jr_files := (jr_files r)[i := (jr_files r ! i)\<lparr>jfr_status := ''running''\<rparr>]\<rparr>"

definition clone_files :: "PreparedFile list \<Rightarrow> Inner \<Rightarrow> Inner" where
  "clone_files fs = fold arc_clone (map (\<lambda>f. b_res (pf_data f)) fs)"

text \<open>\<open>run_job\<close> up to the loop: a job that is no longer queued is left alone.\<close>

definition start_job :: "ustr \<Rightarrow> ustr \<Rightarrow> ServiceInner \<Rightarrow> Run option \<times> ServiceInner" where
  "start_job stamp k w =
     (case map_of (jobs w) k of
        None \<Rightarrow> (None, w)
      | Some j \<Rightarrow>
          if jr_status (job_response j) \<noteq> ''queued'' then (None, w)
          else (Some \<lparr>run_id = k, run_files = job_files j, run_index = 0, run_succ = 0, run_fail = 0, run_agg = 0,
                      run_phase = PHead\<rparr>,
                set_job k (j\<lparr>job_cancel := job_cancel j \<or> stopping w,
                            job_response := (job_response j)\<lparr>jr_status := ''running'', jr_started_at := Some stamp\<rparr>\<rparr>)
                  (w\<lparr>store := clone_files (job_files j) (store w)\<rparr>)))"

definition run_head :: "Run \<Rightarrow> ServiceInner \<Rightarrow> Run \<times> ServiceInner" where
  "run_head r w =
     (if run_index r < length (run_files r) \<and> \<not> canceled (run_id r) w
      then (r\<lparr>run_phase := PPermit\<rparr>, set_response (run_id r) (file_running (run_index r)) w)
      else (r\<lparr>run_phase := PFinal\<rparr>, w))"

definition fail_file :: "string \<Rightarrow> Run \<Rightarrow> Run" where
  "fail_file message r = r\<lparr>run_fail := run_fail r + 1, run_phase := PMark ''failed'' (Some message) False\<rparr>"

definition run_permit :: "permit \<Rightarrow> Run \<Rightarrow> ServiceInner \<Rightarrow> Run" where
  "run_permit p r w =
     (case p of
        NoPermit \<Rightarrow> r\<lparr>run_phase := PFinal\<rparr>
      | Closed \<Rightarrow> fail_file ''runtime unavailable'' r
      | Acquired \<Rightarrow> if canceled (run_id r) w then r\<lparr>run_phase := PFinal\<rparr> else r\<lparr>run_phase := PParse\<rparr>)"

text \<open>\<open>outcome\<close> is the number of pages the parser returned, or None for its error.\<close>

definition run_parse :: "nat option \<Rightarrow> Run \<Rightarrow> ServiceInner \<Rightarrow> Run" where
  "run_parse outcome r w =
     (if canceled (run_id r) w then r\<lparr>run_phase := PMark ''canceled'' None True\<rparr>
      else case outcome of
        None \<Rightarrow> fail_file ''document parsing failed'' r
      | Some pages \<Rightarrow> if pages > 1000 then fail_file ''page limit exceeded'' r else r\<lparr>run_phase := PName pages\<rparr>)"

definition run_name :: "StoreConfig \<Rightarrow> (byte list \<Rightarrow> ustr) \<Rightarrow> (nat \<Rightarrow> OutputFormat \<Rightarrow> byte list option) \<Rightarrow> int \<Rightarrow> nat \<Rightarrow> Run \<Rightarrow>
    ServiceInner \<Rightarrow> Run \<times> ServiceInner" where
  "run_name cfg sha256_hex render now pages r w =
     (case map_of (jobs w) (run_id r) of
        None \<Rightarrow> (r\<lparr>run_phase := PPubFailed\<rparr>, w)
      | Some j \<Rightarrow>
          (case render_all (zip_cap cfg) render (run_agg r) (jr_output_formats (job_response j)) 0 of
             None \<Rightarrow> (r\<lparr>run_phase := PPubFailed\<rparr>, w)
           | Some (tot, rendered) \<Rightarrow>
               (let ((artifacts, refs), s) = name_outputs sha256_hex now (now + int (retention cfg))
                      (safe_stem (pf_name (job_files j ! run_index r))) rendered (store w)
                in (r\<lparr>run_phase := PPublish artifacts refs pages tot\<rparr>, w\<lparr>store := s\<rparr>))))"

definition run_publish :: "(FileObject \<times> byte list) list \<Rightarrow> (string \<times> OutputReference) list \<Rightarrow> nat \<Rightarrow> nat \<Rightarrow> Run \<Rightarrow>
    ServiceInner \<Rightarrow> Run \<times> ServiceInner" where
  "run_publish artifacts refs pages tot r w =
     (case publish_locked artifacts refs pages (run_index r) (run_id r) w of
        (Err _, w) \<Rightarrow> (r\<lparr>run_phase := PPubFailed\<rparr>, w)
      | (Ok _, w) \<Rightarrow>
          (r\<lparr>run_agg := run_agg r + tot, run_succ := run_succ r + 1, run_phase := PMark ''completed'' None False\<rparr>,
           w\<lparr>files_processed := (files_processed w + 1) mod 2 ^ 64,
             pages_processed := (pages_processed w + pages) mod 2 ^ 64\<rparr>))"

definition run_pubfailed :: "Run \<Rightarrow> ServiceInner \<Rightarrow> Run" where
  "run_pubfailed r w =
     (if canceled (run_id r) w then r\<lparr>run_phase := PFinal\<rparr> else fail_file ''artifact generation failed'' r)"

definition run_mark :: "string \<Rightarrow> string option \<Rightarrow> bool \<Rightarrow> Run \<Rightarrow> ServiceInner \<Rightarrow> Run \<times> ServiceInner" where
  "run_mark st message brk r w =
     ((if brk then r\<lparr>run_phase := PFinal\<rparr> else r\<lparr>run_index := run_index r + 1, run_phase := PHead\<rparr>),
      set_response (run_id r) (mark_file (run_index r) st message) w)"

definition run_final :: "StoreConfig \<Rightarrow> int \<Rightarrow> ustr \<Rightarrow> Run \<Rightarrow> ServiceInner \<Rightarrow> ServiceInner" where
  "run_final cfg now stamp r w =
     (let w = finalize_job cfg now stamp (run_id r) (run_succ r) (run_fail r) w
      in w\<lparr>store := drop_files (run_files r) (store w)\<rparr>)"

section \<open>The service\<close>

definition stop_flags :: "ServiceInner \<Rightarrow> ServiceInner" where
  "stop_flags w = w\<lparr>stopping := True, store := stop_admissions (store w)\<rparr>"

definition live_status :: "string \<Rightarrow> bool" where
  "live_status st \<longleftrightarrow> st = ''queued'' \<or> st = ''running''"

text \<open>\<open>locked\<close>: the records whose lock is taken when \<open>stop_admissions\<close> walks the jobs.\<close>

definition stop_cancel :: "(ustr \<Rightarrow> bool) \<Rightarrow> ServiceInner \<Rightarrow> ServiceInner" where
  "stop_cancel locked w = w\<lparr>jobs := map (\<lambda>(k, j).
     (k, if \<not> locked k \<and> live_status (jr_status (job_response j)) then j\<lparr>job_cancel := True\<rparr> else j)) (jobs w)\<rparr>"

definition service_stop :: "(ustr \<Rightarrow> bool) \<Rightarrow> ServiceInner \<Rightarrow> ServiceInner" where
  "service_stop locked w = stop_cancel locked (stop_flags w)"

text \<open>\<open>busy\<close>: the records some other task holds or has locked.\<close>

definition job_retained :: "(ustr \<Rightarrow> bool) \<Rightarrow> int \<Rightarrow> ustr \<times> JobRecord \<Rightarrow> bool" where
  "job_retained busy now = (\<lambda>(k, j). busy k \<or> live_status (jr_status (job_response j)) \<or>
     is_none_or (\<lambda>t. t > now) (job_expiry j))"

definition service_cleanup :: "(ustr \<Rightarrow> bool) \<Rightarrow> int \<Rightarrow> int \<Rightarrow> ServiceInner \<Rightarrow> ServiceInner" where
  "service_cleanup busy cnow now w =
     (let w = w\<lparr>store := cleanup_expired cnow (store w)\<rparr>
      in fold (\<lambda>(_, j). drop_record j) (filter (\<lambda>p. \<not> job_retained busy now p) (jobs w))
           (w\<lparr>jobs := filter (job_retained busy now) (jobs w)\<rparr>))"

text \<open>The end of \<open>shutdown\<close>, once the runner has finished and the parser is shut down.\<close>

definition shutdown_clear :: "ServiceInner \<Rightarrow> ServiceInner" where
  "shutdown_clear w =
     (let w = fold (\<lambda>(_, j). drop_record j) (jobs w) (w\<lparr>jobs := []\<rparr>)
      in w\<lparr>store := clear_retained (store w)\<rparr>)"

section \<open>Worlds\<close>

record World =
  svc :: ServiceInner
  prepared :: "(ustr \<times> JobRecord) list"
  runner :: "Run option"
  w_pend :: "PendingUpload list"
  w_writers :: "WriterGuard list"
  w_bodies :: "nat list"

definition session_of :: "World \<Rightarrow> Session" where
  "session_of w = \<lparr>inner = store (svc w), pend = w_pend w, writers = w_writers w, bodies = w_bodies w\<rparr>"

definition with_session :: "Session \<Rightarrow> World \<Rightarrow> World" where
  "with_session f w = w\<lparr>svc := (svc w)\<lparr>store := inner f\<rparr>, w_pend := pend f, w_writers := writers f, w_bodies := bodies f\<rparr>"

text \<open>Steps of the runner task.\<close>

inductive rstep :: "StoreConfig \<Rightarrow> (byte list \<Rightarrow> ustr) \<Rightarrow> World \<Rightarrow> World \<Rightarrow> bool" for cfg sha where
  pop: "runner w = None \<Longrightarrow> queue (svc w) = k # q \<Longrightarrow> start_job stamp k ((svc w)\<lparr>queue := q\<rparr>) = (r, v) \<Longrightarrow>
     rstep cfg sha w (w\<lparr>svc := v, runner := r\<rparr>)"
| head: "runner w = Some r \<Longrightarrow> run_phase r = PHead \<Longrightarrow> run_head r (svc w) = (r', v) \<Longrightarrow>
     rstep cfg sha w (w\<lparr>svc := v, runner := Some r'\<rparr>)"
| permit: "runner w = Some r \<Longrightarrow> run_phase r = PPermit \<Longrightarrow> (p = NoPermit \<Longrightarrow> canceled (run_id r) (svc w)) \<Longrightarrow>
     rstep cfg sha w (w\<lparr>runner := Some (run_permit p r (svc w))\<rparr>)"
| parse: "runner w = Some r \<Longrightarrow> run_phase r = PParse \<Longrightarrow>
     rstep cfg sha w (w\<lparr>runner := Some (run_parse outcome r (svc w))\<rparr>)"
| name: "runner w = Some r \<Longrightarrow> run_phase r = PName pages \<Longrightarrow> ids (store (svc w)) + 4 \<le> ID_MAX \<Longrightarrow>
     run_name cfg sha render now pages r (svc w) = (r', v) \<Longrightarrow> rstep cfg sha w (w\<lparr>svc := v, runner := Some r'\<rparr>)"
| publish: "runner w = Some r \<Longrightarrow> run_phase r = PPublish artifacts refs pages tot \<Longrightarrow>
     run_publish artifacts refs pages tot r (svc w) = (r', v) \<Longrightarrow> rstep cfg sha w (w\<lparr>svc := v, runner := Some r'\<rparr>)"
| pubfailed: "runner w = Some r \<Longrightarrow> run_phase r = PPubFailed \<Longrightarrow>
     rstep cfg sha w (w\<lparr>runner := Some (run_pubfailed r (svc w))\<rparr>)"
| mark: "runner w = Some r \<Longrightarrow> run_phase r = PMark st message brk \<Longrightarrow> run_mark st message brk r (svc w) = (r', v) \<Longrightarrow>
     rstep cfg sha w (w\<lparr>svc := v, runner := Some r'\<rparr>)"
| final: "runner w = Some r \<Longrightarrow> run_phase r = PFinal \<Longrightarrow>
     rstep cfg sha w (w\<lparr>svc := run_final cfg now stamp r (svc w), runner := None\<rparr>)"

text \<open>Steps of everything else.\<close>

inductive ostep :: "StoreConfig \<Rightarrow> (byte list \<Rightarrow> ustr) \<Rightarrow> (ustr \<Rightarrow> byte list option) \<Rightarrow> World \<Rightarrow> World \<Rightarrow> bool" for cfg sha decode where
  files: "fstep cfg sha (session_of w) f \<Longrightarrow> ostep cfg sha decode w (with_session f w)"
| prepare_err: "prepare_reserve cfg decode now now' stamp req (svc w) = (Err e, v) \<Longrightarrow>
     ids (store (svc w)) < ID_MAX \<Longrightarrow> ostep cfg sha decode w (w\<lparr>svc := v\<rparr>)"
| prepare_ok: "prepare_reserve cfg decode now now' stamp req (svc w) = (Ok p, v) \<Longrightarrow>
     ids (store (svc w)) < ID_MAX \<Longrightarrow> ostep cfg sha decode w (w\<lparr>svc := v, prepared := p # prepared w\<rparr>)"
| commit: "(k, j) \<in> set (prepared w) \<Longrightarrow> commit_job k j (svc w) = (r, v) \<Longrightarrow>
     ostep cfg sha decode w (w\<lparr>svc := v, prepared := remove1 (k, j) (prepared w)\<rparr>)"
| cancel: "cancel_job cfg now stamp k (svc w) = (r, v) \<Longrightarrow> ostep cfg sha decode w (w\<lparr>svc := v\<rparr>)"
| stopping: "ostep cfg sha decode w (w\<lparr>svc := stop_flags (svc w)\<rparr>)"
| canceling: "stopping (svc w) \<Longrightarrow> ostep cfg sha decode w (w\<lparr>svc := stop_cancel locked (svc w)\<rparr>)"
| cleanup: "ostep cfg sha decode w (w\<lparr>svc := service_cleanup busy cnow now (svc w)\<rparr>)"
| shut: "stopping (svc w) \<Longrightarrow> runner w = None \<Longrightarrow> queue (svc w) = [] \<Longrightarrow>
     ostep cfg sha decode w (w\<lparr>svc := shutdown_clear (svc w)\<rparr>)"

definition service_new :: "nat \<Rightarrow> Inner \<Rightarrow> ServiceInner" where
  "service_new slots s = \<lparr>store = s, jobs = [], queue = [], stopping = False, free_slots = slots, jobs_created = 0,
     pages_processed = 0, files_processed = 0\<rparr>"

definition world_start :: "nat \<Rightarrow> World" where
  "world_start slots = \<lparr>svc = service_new slots new_inner, prepared = [], runner = None, w_pend = [], w_writers = [], w_bodies = []\<rparr>"

inductive wreach :: "StoreConfig \<Rightarrow> (byte list \<Rightarrow> ustr) \<Rightarrow> (ustr \<Rightarrow> byte list option) \<Rightarrow> nat \<Rightarrow> World \<Rightarrow> bool" for cfg sha decode slots where
  start: "wreach cfg sha decode slots (world_start slots)"
| run: "wreach cfg sha decode slots w \<Longrightarrow> rstep cfg sha w w' \<Longrightarrow> wreach cfg sha decode slots w'"
| other: "wreach cfg sha decode slots w \<Longrightarrow> ostep cfg sha decode w w' \<Longrightarrow> wreach cfg sha decode slots w'"

section \<open>Records\<close>

abbreviation status_of :: "JobRecord \<Rightarrow> string" where
  "status_of j \<equiv> jr_status (job_response j)"

abbreviation files_of :: "JobRecord \<Rightarrow> JobFileResponse list" where
  "files_of j \<equiv> jr_files (job_response j)"

definition progress_ok :: "JobResponse \<Rightarrow> bool" where
  "progress_ok r \<longleftrightarrow> jr_progress r = \<lparr>jp_total = length (jr_files r), jp_completed = count_status ''completed'' (jr_files r),
     jp_failed = count_status ''failed'' (jr_files r)\<rparr>"

definition all_status :: "string set \<Rightarrow> JobFileResponse list \<Rightarrow> bool" where
  "all_status S fs \<longleftrightarrow> (\<forall>f \<in> set fs. jfr_status f \<in> S)"

definition verdict_ok :: "JobRecord \<Rightarrow> bool" where
  "verdict_ok j \<longleftrightarrow>
     (status_of j = ''completed'' \<longrightarrow> all_status {''completed''} (files_of j)) \<and>
     (status_of j = ''failed'' \<longrightarrow> all_status {''failed''} (files_of j) \<and> files_of j \<noteq> []) \<and>
     (status_of j = ''partial'' \<longrightarrow> all_status {''completed'', ''failed''} (files_of j) \<and>
        \<not> all_status {''completed''} (files_of j) \<and> \<not> all_status {''failed''} (files_of j)) \<and>
     (status_of j = ''canceled'' \<longrightarrow> all_status {''completed'', ''failed'', ''canceled''} (files_of j))"

text \<open>A completed file lists one output per requested format.\<close>

definition published :: "OutputFormat list \<Rightarrow> JobFileResponse \<Rightarrow> bool" where
  "published formats f \<longleftrightarrow> (\<exists>refs. jfr_output_files f = Some refs \<and> map fst refs = map output_name formats)"

definition outputs_ok :: "JobResponse \<Rightarrow> bool" where
  "outputs_ok r \<longleftrightarrow> (\<forall>f \<in> set (jr_files r). jfr_status f = ''completed'' \<longrightarrow> published (jr_output_formats r) f)"

definition job_ok :: "ustr \<Rightarrow> JobRecord \<Rightarrow> bool" where
  "job_ok k j \<longleftrightarrow> jr_job_id (job_response j) = k \<and> status_of j \<in> set JOB_STATUSES \<and> progress_ok (job_response j) \<and> verdict_ok j \<and>
     outputs_ok (job_response j) \<and> distinct (jr_output_formats (job_response j)) \<and>
     (status_of j = ''queued'' \<longrightarrow> all_status {''queued''} (files_of j) \<and> length (job_files j) = length (files_of j)) \<and>
     (\<not> live_status (status_of j) \<longrightarrow> job_files j = [] \<and> job_expiry j \<noteq> None \<and> jr_finished_at (job_response j) \<noteq> None) \<and>
     (live_status (status_of j) \<longrightarrow> job_expiry j = None \<and> jr_finished_at (job_response j) = None)"

lemma count_status_update:
  assumes "i < length fs"
  shows "count_status st (fs[i := f]) + (if jfr_status (fs ! i) = st then 1 else 0) =
    count_status st fs + (if jfr_status f = st then 1 else 0)"
  using assms unfolding count_status_def
proof (induction fs arbitrary: i)
  case (Cons a fs)
  then show ?case by (cases i) auto
qed simp

lemma count_status_zero: "count_status st fs = 0 \<longleftrightarrow> (\<forall>f \<in> set fs. jfr_status f \<noteq> st)"
  by (auto simp: count_status_def filter_empty_conv)

lemma count_status_map: "(\<And>f. f \<in> set fs \<Longrightarrow> (jfr_status (g f) = st) = (jfr_status f = st)) \<Longrightarrow> count_status st (map g fs) = count_status st fs"
  unfolding count_status_def by (induction fs) auto

lemma progress_ok_update: "length (jr_files r) = jp_total (jr_progress r) \<Longrightarrow> progress_ok (update_progress r)"
  by (simp add: progress_ok_def update_progress_def)

lemma progress_ok_total: "progress_ok r \<Longrightarrow> jp_total (jr_progress r) = length (jr_files r)"
  by (simp add: progress_ok_def)

lemma update_progress_simps [simp]:
  "jr_files (update_progress r) = jr_files r" "jr_status (update_progress r) = jr_status r"
  "jr_job_id (update_progress r) = jr_job_id r" "jr_finished_at (update_progress r) = jr_finished_at r"
  "jr_output_formats (update_progress r) = jr_output_formats r" "jr_started_at (update_progress r) = jr_started_at r"
  "jp_total (jr_progress (update_progress r)) = jp_total (jr_progress r)"
  by (simp_all add: update_progress_def)

section \<open>The running job\<close>

text \<open>What holds of the file statuses and the counters of the runner in each phase.\<close>

definition counted :: "nat \<Rightarrow> nat \<Rightarrow> Run \<Rightarrow> JobRecord \<Rightarrow> bool" where
  "counted a b r j \<longleftrightarrow> run_succ r = count_status ''completed'' (files_of j) + a \<and> run_fail r = count_status ''failed'' (files_of j) + b"

fun phase_ok :: "phase \<Rightarrow> bool \<Rightarrow> Run \<Rightarrow> JobRecord \<Rightarrow> bool" where
  "phase_ok PHead stop r j \<longleftrightarrow> counted 0 0 r j \<and> (run_index r < length (files_of j) \<longrightarrow> jfr_status (files_of j ! run_index r) = ''queued'')"
| "phase_ok (PMark st message brk) stop r j \<longleftrightarrow> run_index r < length (files_of j) \<and> jfr_status (files_of j ! run_index r) = ''running'' \<and>
     (st = ''completed'' \<and> \<not> brk \<and> counted 1 0 r j \<and>
        published (jr_output_formats (job_response j)) (files_of j ! run_index r) \<or> st = ''failed'' \<and> \<not> brk \<and> counted 0 1 r j \<or> st = ''canceled'' \<and> brk \<and> stop)"
| "phase_ok PFinal stop r j \<longleftrightarrow>
     (run_index r < length (files_of j) \<longrightarrow> jfr_status (files_of j ! run_index r) \<in> {''queued'', ''running'', ''canceled''}) \<and>
     (stop \<or> run_index r = length (files_of j) \<and> counted 0 0 r j)"
| "phase_ok (PPublish artifacts refs pages tot) stop r j \<longleftrightarrow> counted 0 0 r j \<and> run_index r < length (files_of j) \<and>
     jfr_status (files_of j ! run_index r) = ''running'' \<and> map fst refs = map output_name (jr_output_formats (job_response j))"
| "phase_ok _ stop r j \<longleftrightarrow> counted 0 0 r j \<and> run_index r < length (files_of j) \<and> jfr_status (files_of j ! run_index r) = ''running''"

definition run_ok :: "Run \<Rightarrow> ServiceInner \<Rightarrow> bool" where
  "run_ok r w \<longleftrightarrow> (\<exists>j. map_of (jobs w) (run_id r) = Some j \<and> status_of j = ''running'' \<and> job_files j = run_files r \<and>
     length (run_files r) = length (files_of j) \<and> run_index r \<le> length (files_of j) \<and>
     (\<forall>i < run_index r. jfr_status (files_of j ! i) \<in> {''completed'', ''failed''}) \<and>
     (\<forall>i < length (files_of j). run_index r < i \<longrightarrow> jfr_status (files_of j ! i) = ''queued'') \<and>
     phase_ok (run_phase r) (job_cancel j \<or> stopping w) r j)"

definition jobs_inv :: "World \<Rightarrow> bool" where
  "jobs_inv w \<longleftrightarrow> distinct (map fst (jobs (svc w))) \<and> ids (store (svc w)) \<le> ID_MAX \<and>
     (\<forall>k j. map_of (jobs (svc w)) k = Some j \<longrightarrow> job_ok k j \<and> issued (ids (store (svc w))) k \<and>
        (status_of j = ''queued'' \<longrightarrow> k \<in> set (queue (svc w))) \<and>
        (status_of j = ''running'' \<longrightarrow> (\<exists>r. runner w = Some r \<and> run_id r = k))) \<and>
     distinct (map fst (prepared w)) \<and>
     (\<forall>(k, j) \<in> set (prepared w). job_ok k j \<and> status_of j = ''queued'' \<and> issued (ids (store (svc w))) k \<and>
        map_of (jobs (svc w)) k = None) \<and>
     (\<forall>r. runner w = Some r \<longrightarrow> run_ok r (svc w))"

lemma jobs_inv_job:
  assumes "jobs_inv w" "map_of (jobs (svc w)) k = Some j"
  shows "job_ok k j" "issued (ids (store (svc w))) k" "status_of j = ''queued'' \<Longrightarrow> k \<in> set (queue (svc w))"
    "status_of j = ''running'' \<Longrightarrow> \<exists>r. runner w = Some r \<and> run_id r = k"
  using assms by (auto simp: jobs_inv_def)

lemma jobs_inv_prepared:
  assumes "jobs_inv w" "(k, j) \<in> set (prepared w)"
  shows "job_ok k j" "status_of j = ''queued''" "issued (ids (store (svc w))) k" "map_of (jobs (svc w)) k = None"
  using assms unfolding jobs_inv_def by blast+

lemma jobs_inv_run: "jobs_inv w \<Longrightarrow> runner w = Some r \<Longrightarrow> run_ok r (svc w)"
  by (simp add: jobs_inv_def)

text \<open>A step that rewrites one record.\<close>

lemma jobs_inv_set:
  assumes i: "jobs_inv w" and j: "map_of (jobs (svc w)) k = Some j" and ok: "job_ok k j'"
    and jobs: "jobs (svc w') = AList.update k j' (jobs (svc w))"
    and q: "status_of j' = ''queued'' \<Longrightarrow> k \<in> set (queue (svc w'))"
    and rn: "status_of j' = ''running'' \<Longrightarrow> \<exists>r. runner w' = Some r \<and> run_id r = k"
    and queue: "set (queue (svc w)) \<subseteq> insert k (set (queue (svc w')))"
    and other: "\<And>r. runner w = Some r \<Longrightarrow> run_id r \<noteq> k \<Longrightarrow> \<exists>r'. runner w' = Some r' \<and> run_id r' = run_id r"
    and run: "\<And>r. runner w' = Some r \<Longrightarrow> run_ok r (svc w')"
    and prep: "prepared w' = prepared w"
    and ids: "ids (store (svc w)) \<le> ids (store (svc w'))" "ids (store (svc w')) \<le> ID_MAX"
  shows "jobs_inv w'"
proof -
  have m: "map_of (jobs (svc w')) = (map_of (jobs (svc w)))(k \<mapsto> j')" by (simp add: jobs AList.update_conv')
  have "distinct (map fst (jobs (svc w')))" using i by (simp add: jobs distinct_update jobs_inv_def)
  moreover have "job_ok x y \<and> issued (ids (store (svc w'))) x \<and> (status_of y = ''queued'' \<longrightarrow> x \<in> set (queue (svc w'))) \<and>
      (status_of y = ''running'' \<longrightarrow> (\<exists>r. runner w' = Some r \<and> run_id r = x))" if "map_of (jobs (svc w')) x = Some y" for x y
  proof (cases "x = k")
    case True
    then show ?thesis using that m ok q rn issued_mono [OF jobs_inv_job(2) [OF i j] ids(1)] by auto
  next
    case False
    then have "map_of (jobs (svc w)) x = Some y" using that m by simp
    note o = jobs_inv_job [OF i this]
    show ?thesis using o(1) issued_mono [OF o(2) ids(1)] o(3) queue False other o(4) by blast
  qed
  moreover have "case p of (x, y) \<Rightarrow> job_ok x y \<and> status_of y = ''queued'' \<and> issued (ids (store (svc w'))) x \<and> map_of (jobs (svc w')) x = None"
    if "p \<in> set (prepared w')" for p
  proof (cases p)
    case (Pair x y)
    then have "(x, y) \<in> set (prepared w)" using that prep by simp
    note o = jobs_inv_prepared [OF i this]
    have "x \<noteq> k" using o(4) j by auto
    then show ?thesis using Pair o m issued_mono [OF o(3) ids(1)] by simp
  qed
  ultimately show ?thesis unfolding jobs_inv_def using i ids(2) prep run by (simp add: jobs_inv_def)
qed

text \<open>A step that leaves the records, the queue and the runner alone.\<close>

lemma run_ok_cong: "jobs w' = jobs w \<Longrightarrow> stopping w' = stopping w \<Longrightarrow> run_ok r w' \<longleftrightarrow> run_ok r w"
  by (simp add: run_ok_def)

lemma jobs_inv_frame:
  assumes i: "jobs_inv w" and e: "jobs (svc w') = jobs (svc w)" "queue (svc w') = queue (svc w)" "stopping (svc w') = stopping (svc w)"
    "runner w' = runner w" "prepared w' = prepared w"
    and ids: "ids (store (svc w)) \<le> ids (store (svc w'))" "ids (store (svc w')) \<le> ID_MAX"
  shows "jobs_inv w'"
  using i issued_mono [OF _ ids(1)] ids(2) unfolding jobs_inv_def e run_ok_cong [OF e(1,3)] by blast

lemma jobs_inv_phase:
  assumes "jobs_inv w" "runner w = Some r" "run_id r' = run_id r" "run_ok r' (svc w)"
  shows "jobs_inv (w\<lparr>runner := Some r'\<rparr>)"
  using assms unfolding jobs_inv_def by auto

lemma job_ok_running:
  assumes "job_ok k j" "status_of j = ''running''" "status_of j' = ''running''" "jr_job_id (job_response j') = k"
    "progress_ok (job_response j')" "outputs_ok (job_response j')" "jr_output_formats (job_response j') = jr_output_formats (job_response j)"
    "job_expiry j' = job_expiry j" "jr_finished_at (job_response j') = jr_finished_at (job_response j)"
  shows "job_ok k j'"
  using assms by (simp add: job_ok_def live_status_def verdict_ok_def)

lemma run_okE:
  assumes "run_ok r w"
  obtains j where "map_of (jobs w) (run_id r) = Some j" "status_of j = ''running''" "job_files j = run_files r"
    "length (run_files r) = length (files_of j)" "run_index r \<le> length (files_of j)"
    "\<forall>i < run_index r. jfr_status (files_of j ! i) \<in> {''completed'', ''failed''}"
    "\<forall>i < length (files_of j). run_index r < i \<longrightarrow> jfr_status (files_of j ! i) = ''queued''"
    "phase_ok (run_phase r) (canceled (run_id r) w) r j" "canceled (run_id r) w \<longleftrightarrow> job_cancel j \<or> stopping w"
  using assms unfolding run_ok_def canceled_def by fastforce

lemma run_okI:
  assumes "map_of (jobs w) (run_id r) = Some j" "status_of j = ''running''" "job_files j = run_files r"
    "length (run_files r) = length (files_of j)" "run_index r \<le> length (files_of j)"
    "\<forall>i < run_index r. jfr_status (files_of j ! i) \<in> {''completed'', ''failed''}"
    "\<forall>i < length (files_of j). run_index r < i \<longrightarrow> jfr_status (files_of j ! i) = ''queued''"
    "phase_ok (run_phase r) (job_cancel j \<or> stopping w) r j"
  shows "run_ok r w"
  using assms unfolding run_ok_def by blast

text \<open>Phases that only move the runner.\<close>

lemma run_ok_move:
  assumes r: "run_ok r w" and r': "run_id r' = run_id r" "run_files r' = run_files r" "run_index r' = run_index r"
    and p: "\<And>j. phase_ok (run_phase r) (canceled (run_id r) w) r j \<Longrightarrow> phase_ok (run_phase r') (canceled (run_id r) w) r' j"
  shows "run_ok r' w"
proof -
  obtain j where j: "map_of (jobs w) (run_id r) = Some j" "status_of j = ''running''" "job_files j = run_files r"
    "length (run_files r) = length (files_of j)" "run_index r \<le> length (files_of j)"
    "\<forall>i < run_index r. jfr_status (files_of j ! i) \<in> {''completed'', ''failed''}"
    "\<forall>i < length (files_of j). run_index r < i \<longrightarrow> jfr_status (files_of j ! i) = ''queued''"
    "phase_ok (run_phase r) (canceled (run_id r) w) r j" "canceled (run_id r) w \<longleftrightarrow> job_cancel j \<or> stopping w"
    using r by (rule run_okE)
  show ?thesis by (rule run_okI [where j = j], unfold r' j(9) [symmetric]) (fact j p [OF j(8)])+
qed

lemma run_permit_ok:
  assumes "run_ok r w" "run_phase r = PPermit" "p = NoPermit \<Longrightarrow> canceled (run_id r) w"
  shows "run_ok (run_permit p r w) w \<and> run_id (run_permit p r w) = run_id r"
  by (intro conjI run_ok_move [OF assms(1)])
    (use assms(2,3) in \<open>cases p; simp add: run_permit_def fail_file_def counted_def\<close>)+

lemma run_parse_ok:
  assumes "run_ok r w" "run_phase r = PParse"
  shows "run_ok (run_parse outcome r w) w \<and> run_id (run_parse outcome r w) = run_id r"
  by (intro conjI run_ok_move [OF assms(1)])
    (use assms(2) in \<open>cases outcome; simp add: run_parse_def fail_file_def counted_def\<close>)+

lemma run_pubfailed_ok:
  assumes "run_ok r w" "run_phase r = PPubFailed"
  shows "run_ok (run_pubfailed r w) w \<and> run_id (run_pubfailed r w) = run_id r"
  by (intro conjI run_ok_move [OF assms(1)])
    (use assms(2) in \<open>simp add: run_pubfailed_def fail_file_def counted_def\<close>)+

text \<open>Phases that rewrite the running file of the response.\<close>

lemma count_status_running:
  assumes "i < length fs" "jfr_status (fs ! i) \<in> {''queued'', ''running''}" "st \<in> {''completed'', ''failed''}"
  shows "count_status st (fs[i := f]) = count_status st fs + (if jfr_status f = st then 1 else 0)"
proof -
  have "jfr_status (fs ! i) \<noteq> st" using assms(2,3) by auto
  then show ?thesis using count_status_update [OF assms(1), of st f] by simp
qed

lemma set_response_simps [simp]:
  "store (set_response k f w) = store w" "queue (set_response k f w) = queue w" "stopping (set_response k f w) = stopping w"
  by (simp_all add: set_response_def set_job_def split: option.split)

lemma set_response_jobs:
  "map_of (jobs w) k = Some j \<Longrightarrow> jobs (set_response k f w) = AList.update k (j\<lparr>job_response := f (job_response j)\<rparr>) (jobs w)"
  by (simp add: set_response_def set_job_def)

text \<open>
  The record of the running job is replaced by \<open>j'\<close>, which differs in the response only, and the runner moves on
  to \<open>r'\<close>.
\<close>

lemma running_step:
  assumes i: "jobs_inv w" and r: "runner w = Some r" and j: "map_of (jobs (svc w)) (run_id r) = Some j" "status_of j = ''running''"
    and v: "jobs v = AList.update (run_id r) (j\<lparr>job_response := f\<rparr>) (jobs (svc w))" "queue v = queue (svc w)"
      "stopping v = stopping (svc w)"
    and f: "jr_status f = ''running''" "jr_job_id f = jr_job_id (job_response j)" "jr_finished_at f = jr_finished_at (job_response j)"
      "progress_ok f" "outputs_ok f" "jr_output_formats f = jr_output_formats (job_response j)"
    and r': "run_id r' = run_id r" "run_files r' = run_files r"
    and ids: "ids (store (svc w)) \<le> ids (store v)" "ids (store v) \<le> ID_MAX"
    and new: "length (run_files r) = length (jr_files f)" "job_files j = run_files r" "run_index r' \<le> length (jr_files f)"
      "\<forall>i < run_index r'. jfr_status (jr_files f ! i) \<in> {''completed'', ''failed''}"
      "\<forall>i < length (jr_files f). run_index r' < i \<longrightarrow> jfr_status (jr_files f ! i) = ''queued''"
      "phase_ok (run_phase r') (canceled (run_id r) (svc w)) r' (j\<lparr>job_response := f\<rparr>)"
  shows "jobs_inv (w\<lparr>svc := v, runner := Some r'\<rparr>)"
proof (rule jobs_inv_set [OF i j(1)])
  have "canceled (run_id r) (svc w) \<longleftrightarrow> job_cancel j \<or> stopping (svc w)" using j(1) by (simp add: canceled_def)
  then have "run_ok r' v" using r' new v(3) f(1) by (intro run_okI [where j = "j\<lparr>job_response := f\<rparr>"]) (simp_all add: v(1) AList.update_conv')
  then show "run_ok r'' (svc (w\<lparr>svc := v, runner := Some r'\<rparr>))" if "runner (w\<lparr>svc := v, runner := Some r'\<rparr>) = Some r''" for r''
    using that by simp
  show "job_ok (run_id r) (j\<lparr>job_response := f\<rparr>)"
    by (rule job_ok_running [OF jobs_inv_job(1) [OF i j(1)] j(2)]) (use f jobs_inv_job(1) [OF i j(1)] in \<open>simp_all add: job_ok_def\<close>)
qed (use v r r' f ids in \<open>auto\<close>)

lemma jobs_inv_progress: "jobs_inv w \<Longrightarrow> map_of (jobs (svc w)) k = Some j \<Longrightarrow> progress_ok (job_response j)"
  using jobs_inv_job(1) by (auto simp: job_ok_def)

lemma jobs_inv_ids: "jobs_inv w \<Longrightarrow> ids (store (svc w)) \<le> ID_MAX"
  by (simp add: jobs_inv_def)

lemma outputs_ok_update:
  assumes "outputs_ok r" "jr_files r' = (jr_files r)[i := f]" "jr_output_formats r' = jr_output_formats r"
    "jfr_status f = ''completed'' \<Longrightarrow> published (jr_output_formats r) f"
  shows "outputs_ok r'"
  using assms set_update_subset_insert [of "jr_files r" i f] by (auto simp: outputs_ok_def)

lemma jobs_inv_outputs: "jobs_inv w \<Longrightarrow> map_of (jobs (svc w)) k = Some j \<Longrightarrow> outputs_ok (job_response j)"
  using jobs_inv_job(1) by (auto simp: job_ok_def)

lemma head_inv:
  assumes i: "jobs_inv w" and r: "runner w = Some r" and p: "run_phase r = PHead" and h: "run_head r (svc w) = (r', v)"
  shows "jobs_inv (w\<lparr>svc := v, runner := Some r'\<rparr>)"
proof -
  note ok = jobs_inv_run [OF i r]
  obtain j where j: "map_of (jobs (svc w)) (run_id r) = Some j" "status_of j = ''running''" "job_files j = run_files r"
    "length (run_files r) = length (files_of j)" "run_index r \<le> length (files_of j)"
    "\<forall>i < run_index r. jfr_status (files_of j ! i) \<in> {''completed'', ''failed''}"
    "\<forall>i < length (files_of j). run_index r < i \<longrightarrow> jfr_status (files_of j ! i) = ''queued''"
    "phase_ok (run_phase r) (canceled (run_id r) (svc w)) r j" "canceled (run_id r) (svc w) \<longleftrightarrow> job_cancel j \<or> stopping (svc w)"
    using ok by (rule run_okE)
  show ?thesis
  proof (cases "run_index r < length (run_files r) \<and> \<not> canceled (run_id r) (svc w)")
    case False
    then have "run_ok (r\<lparr>run_phase := PFinal\<rparr>) (svc w)" using j p by (intro run_okI [where j = j]) (auto simp: counted_def)
    then show ?thesis using jobs_inv_phase [OF i r, of "r\<lparr>run_phase := PFinal\<rparr>"] False h by (auto simp: run_head_def)
  next
    case True
    let ?f = "file_running (run_index r) (job_response j)"
    have lt: "run_index r < length (files_of j)" using True j(4) by simp
    have st: "jfr_status (files_of j ! run_index r) = ''queued''" "counted 0 0 r j" using j(8) p lt by simp_all
    have c: "count_status x (jr_files ?f) = count_status x (files_of j)" if "x \<in> {''completed'', ''failed''}" for x
      using count_status_running [OF lt _ that, of "(files_of j ! run_index r)\<lparr>jfr_status := ''running''\<rparr>"] st(1) that
      by (auto simp: file_running_def)
    have "progress_ok ?f" using jobs_inv_progress [OF i j(1)] c by (simp add: progress_ok_def) (simp add: file_running_def)
    moreover have "phase_ok PPermit (canceled (run_id r) (svc w)) (r\<lparr>run_phase := PPermit\<rparr>) (j\<lparr>job_response := ?f\<rparr>)"
      using st(2) c lt by (simp add: counted_def) (simp add: file_running_def)
    moreover have "outputs_ok ?f"
      using jobs_inv_outputs [OF i j(1)] by (rule outputs_ok_update [where i = "run_index r" and f = "(files_of j ! run_index r)\<lparr>jfr_status := ''running''\<rparr>"])
        (simp_all add: file_running_def)
    moreover have "r' = r\<lparr>run_phase := PPermit\<rparr>" "v = set_response (run_id r) (file_running (run_index r)) (svc w)"
      using h True by (simp_all add: run_head_def)
    moreover have "jr_files ?f ! n = files_of j ! n" if "n \<noteq> run_index r" for n using that by (simp add: file_running_def)
    ultimately show ?thesis
      using j(2-7) jobs_inv_ids [OF i] lt
      by (intro running_step [OF i r j(1,2), where f = ?f]) (simp_all add: set_response_jobs [OF j(1)], simp_all add: file_running_def)
  qed
qed

text \<open>Naming the outputs draws one identifier each.\<close>

lemma name_outputs_spec:
  assumes "name_outputs sha now expires stem rendered s = ((artifacts, refs), s')" "ids s + length rendered \<le> ID_MAX"
  shows "s' = s\<lparr>ids := ids s + length rendered\<rparr> \<and> map (\<lambda>p. fo_id (fst p)) artifacts = map (idstr ''file'') [ids s ..< ids s + length rendered]
    \<and> map snd artifacts = map snd rendered \<and> map fst refs = map (\<lambda>p. output_name (fst p)) rendered
    \<and> (\<forall>(f, d) \<in> set artifacts. fo_bytes f = length d)"
  using assms
proof (induction rendered arbitrary: s artifacts refs s')
  case Nil
  then show ?case by simp
next
  case (Cons p rendered)
  obtain format bytes where p: "p = (format, bytes)" by fastforce
  let ?s = "s\<lparr>ids := ids s + 1\<rparr>"
  have n: "next_id ''file'' s = (idstr ''file'' (ids s), ?s)" using Cons.prems(2) by (simp add: next_id_idstr ID_MAX_def)
  obtain a' r' s1 where rec: "name_outputs sha now expires stem rendered ?s = ((a', r'), s1)" by (metis surj_pair)
  have "ids ?s + length rendered \<le> ID_MAX" using Cons.prems(2) by simp
  note ih = Cons.IH [OF rec this]
  have "[ids s ..< ids s + length (p # rendered)] = ids s # [ids ?s ..< ids ?s + length rendered]"
    using upt_conv_Cons [of "ids s" "ids s + length (p # rendered)"] by (simp del: upt_Suc)
  then show ?case using Cons.prems(1) ih rec n p by (auto simp: Let_def)
qed

lemma render_all_formats:
  "render_all zipcap render aggregate formats tot = Some (t, rendered) \<Longrightarrow> map fst rendered = formats"
  by (induction formats arbitrary: tot t rendered) (auto split: option.splits)

lemma running_record:
  assumes "jobs_inv w" "runner w = Some r"
  obtains j where "map_of (jobs (svc w)) (run_id r) = Some j" "status_of j = ''running''" "job_files j = run_files r"
    "length (run_files r) = length (files_of j)" "run_index r \<le> length (files_of j)"
    "\<forall>i < run_index r. jfr_status (files_of j ! i) \<in> {''completed'', ''failed''}"
    "\<forall>i < length (files_of j). run_index r < i \<longrightarrow> jfr_status (files_of j ! i) = ''queued''"
    "phase_ok (run_phase r) (canceled (run_id r) (svc w)) r j" "canceled (run_id r) (svc w) \<longleftrightarrow> job_cancel j \<or> stopping (svc w)"
    "progress_ok (job_response j)" "outputs_ok (job_response j)" "distinct (jr_output_formats (job_response j))"
  using jobs_inv_run [OF assms] by (rule run_okE) (use assms(1) in \<open>auto simp: job_ok_def dest: jobs_inv_job(1)\<close>)

lemma name_inv:
  assumes i: "jobs_inv w" and r: "runner w = Some r" and p: "run_phase r = PName pages" and n: "ids (store (svc w)) + 4 \<le> ID_MAX"
    and h: "run_name cfg sha render now pages r (svc w) = (r', v)"
  shows "jobs_inv (w\<lparr>svc := v, runner := Some r'\<rparr>)"
  using i r
proof (cases rule: running_record)
  case (1 j)
  note j = 1
  have ph: "counted 0 0 r j" "run_index r < length (files_of j)" "jfr_status (files_of j ! run_index r) = ''running''"
    using j(8) p by simp_all
  show ?thesis
  proof (cases "render_all (zip_cap cfg) render (run_agg r) (jr_output_formats (job_response j)) 0")
    case None
    then have "r' = r\<lparr>run_phase := PPubFailed\<rparr>" "v = svc w" using h j(1) by (simp_all add: run_name_def)
    moreover have "run_ok (r\<lparr>run_phase := PPubFailed\<rparr>) (svc w)" using j ph by (intro run_okI [where j = j]) (auto simp: counted_def)
    ultimately show ?thesis using jobs_inv_phase [OF i r, of "r\<lparr>run_phase := PPubFailed\<rparr>"] by simp
  next
    case (Some tr)
    obtain tot rendered where tr: "tr = (tot, rendered)" by fastforce
    obtain artifacts refs s where no: "name_outputs sha now (now + int (retention cfg)) (safe_stem (pf_name (job_files j ! run_index r)))
        rendered (store (svc w)) = ((artifacts, refs), s)" by (metis surj_pair)
    have fm: "map fst rendered = jr_output_formats (job_response j)" using Some tr by (auto dest: render_all_formats)
    have len: "length rendered \<le> 4" using formats_length [OF j(12)] fm by (metis length_map)
    note sp = name_outputs_spec [OF no]
    have s: "s = (store (svc w))\<lparr>ids := ids (store (svc w)) + length rendered\<rparr>" "map fst refs = map output_name (jr_output_formats (job_response j))"
      using sp n len by (auto simp: fm [symmetric])
    let ?r = "r\<lparr>run_phase := PPublish artifacts refs pages tot\<rparr>" and ?w = "w\<lparr>svc := (svc w)\<lparr>store := s\<rparr>\<rparr>"
    have rv: "r' = ?r" "v = (svc w)\<lparr>store := s\<rparr>" using h j(1) Some tr no by (simp_all add: run_name_def)
    have i': "jobs_inv ?w" by (rule jobs_inv_frame [OF i]) (use s(1) n len in simp_all)
    have "run_ok ?r (svc ?w)" using j ph s(2) by (intro run_okI [where j = j]) (auto simp: counted_def)
    then show ?thesis using jobs_inv_phase [OF i', of r ?r] r rv by simp
  qed
qed

lemma charge_files_ids: "charge_files files m a acc s = (x, acc', s') \<Longrightarrow> ids s' = ids s"
proof (induction files arbitrary: acc s)
  case (Cons p files)
  then show ?case
    by (cases p) (auto split: prod.splits option.splits dest!: acquire_frame(4,5))
qed simp

lemma publish_ids: "publish_artifact_batch files m a s = (x, s') \<Longrightarrow> ids s' = ids s"
  by (auto simp: publish_artifact_batch_def Let_def split: option.splits if_splits prod.splits result.splits
      dest: charge_files_ids)

lemma publish_inv_step:
  assumes i: "jobs_inv w" and r: "runner w = Some r" and p: "run_phase r = PPublish artifacts refs pages tot"
    and h: "run_publish artifacts refs pages tot r (svc w) = (r', v)"
  shows "jobs_inv (w\<lparr>svc := v, runner := Some r'\<rparr>)"
  using i r
proof (cases rule: running_record)
  case (1 j)
  note j = 1
  let ?i = "run_index r" and ?s = "meta_clone (job_metadata j) (arc_clone (job_budget j) (store (svc w)))"
  have ph: "counted 0 0 r j" "?i < length (files_of j)" "jfr_status (files_of j ! ?i) = ''running''"
    "map fst refs = map output_name (jr_output_formats (job_response j))"
    using j(8) p by simp_all
  have fail: "jobs_inv (w\<lparr>svc := (svc w)\<lparr>store := s\<rparr>, runner := Some (r\<lparr>run_phase := PPubFailed\<rparr>)\<rparr>)"
    if "ids s = ids (store (svc w))" for s
  proof -
    have "jobs_inv (w\<lparr>svc := (svc w)\<lparr>store := s\<rparr>\<rparr>)" by (rule jobs_inv_frame [OF i]) (use that jobs_inv_ids [OF i] in simp_all)
    moreover have "run_ok (r\<lparr>run_phase := PPubFailed\<rparr>) ((svc w)\<lparr>store := s\<rparr>)"
      using j ph by (intro run_okI [where j = j]) (auto simp: counted_def)
    ultimately show ?thesis using jobs_inv_phase [of "w\<lparr>svc := (svc w)\<lparr>store := s\<rparr>\<rparr>" r "r\<lparr>run_phase := PPubFailed\<rparr>"] r by simp
  qed
  obtain x s where pb: "publish_artifact_batch artifacts (job_metadata j) (job_budget j) ?s = (x, s)" by fastforce
  have ids: "ids s = ids (store (svc w))" using publish_ids [OF pb] by simp
  show ?thesis
  proof (cases "job_cancel j \<or> stopping (svc w) \<or> (\<exists>e. x = Err e)")
    case True
    then have "r' = r\<lparr>run_phase := PPubFailed\<rparr> \<and> (v = svc w \<or> v = (svc w)\<lparr>store := s\<rparr>)"
      using h j(1) pb by (cases "job_cancel j \<or> stopping (svc w)") (auto simp: run_publish_def publish_locked_def Let_def)
    then show ?thesis using fail [of s] fail [of "store (svc w)"] ids by auto
  next
    case False
    then have x: "x = Ok ()" by (cases x) auto
    let ?g = "(files_of j ! ?i)\<lparr>jfr_output_files := Some refs, jfr_parse := Some pages\<rparr>"
    let ?f = "(job_response j)\<lparr>jr_files := (files_of j)[?i := ?g]\<rparr>"
    have c: "count_status y (jr_files ?f) = count_status y (files_of j)" if "y \<in> {''completed'', ''failed''}" for y
      using count_status_running [OF ph(2) _ that, of ?g] ph(3) that by auto
    have po: "progress_ok ?f" using j(10) c by (simp add: progress_ok_def)
    have oo: "outputs_ok ?f" by (rule outputs_ok_update [OF j(11), where i = ?i and f = ?g]) (use ph(3) in simp_all)
    have "publish_locked artifacts refs pages ?i (run_id r) (svc w) =
        (Ok (), set_job (run_id r) (j\<lparr>job_response := ?f\<rparr>) ((svc w)\<lparr>store := s\<rparr>))"
      using j(1) False pb x by (simp add: publish_locked_def Let_def)
    then have rv: "r' = r\<lparr>run_agg := run_agg r + tot, run_succ := run_succ r + 1, run_phase := PMark ''completed'' None False\<rparr>"
      "jobs v = AList.update (run_id r) (j\<lparr>job_response := ?f\<rparr>) (jobs (svc w))" "queue v = queue (svc w)" "stopping v = stopping (svc w)"
      "store v = s" using h by (auto simp: run_publish_def set_job_def)
    have pub: "published (jr_output_formats (job_response j)) ?g" using ph(4) by (simp add: published_def)
    have "counted 1 0 r' (j\<lparr>job_response := ?f\<rparr>)" using ph(1) c rv(1) by (simp add: counted_def)
    then have new: "phase_ok (run_phase r') (canceled (run_id r) (svc w)) r' (j\<lparr>job_response := ?f\<rparr>)"
      using ph(2,3) pub rv(1) by simp
    have rest: "\<forall>n < run_index r'. jfr_status (jr_files ?f ! n) \<in> {''completed'', ''failed''}"
      "\<forall>n < length (jr_files ?f). run_index r' < n \<longrightarrow> jfr_status (jr_files ?f ! n) = ''queued''"
      using j(6,7) rv(1) by simp_all
    show ?thesis
      by (rule running_step [OF i r j(1,2) rv(2-4) _ _ _ po oo _ _ _ _ _ _ j(3) _ rest new])
        (simp_all add: rv(1,5) ids jobs_inv_ids [OF i] j(2,4,5))
  qed
qed

lemma mark_inv:
  assumes i: "jobs_inv w" and r: "runner w = Some r" and p: "run_phase r = PMark st message brk"
    and h: "run_mark st message brk r (svc w) = (r', v)"
  shows "jobs_inv (w\<lparr>svc := v, runner := Some r'\<rparr>)"
  using i r
proof (cases rule: running_record)
  case (1 j)
  note j = 1
  let ?i = "run_index r" and ?f = "mark_file (run_index r) st message (job_response j)"
  have ph: "?i < length (files_of j)" "jfr_status (files_of j ! ?i) = ''running''"
    "st = ''completed'' \<and> \<not> brk \<and> counted 1 0 r j \<and> published (jr_output_formats (job_response j)) (files_of j ! ?i) \<or>
     st = ''failed'' \<and> \<not> brk \<and> counted 0 1 r j \<or> st = ''canceled'' \<and> brk \<and> canceled (run_id r) (svc w)"
    using j(8) p by simp_all
  obtain g where g: "jr_files ?f = (files_of j)[?i := g]" "jfr_status g = st" "jfr_output_files g = jfr_output_files (files_of j ! ?i)"
    by (auto simp: mark_file_def Let_def split: option.splits)
  have c: "count_status y (jr_files ?f) = count_status y (files_of j) + (if st = y then 1 else 0)" if "y \<in> {''completed'', ''failed''}" for y
    using count_status_running [OF ph(1) _ that, of g] ph(2) g by auto
  have po: "progress_ok ?f" using progress_ok_total [OF j(10)] unfolding mark_file_def Let_def
    by (intro progress_ok_update) simp
  have oo: "outputs_ok ?f" by (rule outputs_ok_update [OF j(11) g(1)]) (use ph(3) g in \<open>auto simp: published_def mark_file_def Let_def\<close>)
  have fs: "jr_status ?f = ''running''" "jr_job_id ?f = jr_job_id (job_response j)" "jr_finished_at ?f = jr_finished_at (job_response j)"
    "jr_output_formats ?f = jr_output_formats (job_response j)"
    using j(2) by (simp_all add: mark_file_def Let_def)
  have rv: "r' = (if brk then r\<lparr>run_phase := PFinal\<rparr> else r\<lparr>run_index := ?i + 1, run_phase := PHead\<rparr>)"
    "v = set_response (run_id r) (mark_file ?i st message) (svc w)" using h by (simp_all add: run_mark_def)
  show ?thesis
  proof (rule running_step [OF i r j(1,2), where f = ?f])
    show "\<forall>n < run_index r'. jfr_status (jr_files ?f ! n) \<in> {''completed'', ''failed''}"
      using rv(1) ph j(6) g(1,2) by (auto simp: nth_list_update less_Suc_eq split: if_splits)
    show "\<forall>n < length (jr_files ?f). run_index r' < n \<longrightarrow> jfr_status (jr_files ?f ! n) = ''queued''"
      using rv(1) j(7) g(1) by (auto simp: nth_list_update split: if_splits)
    show "phase_ok (run_phase r') (canceled (run_id r) (svc w)) r' (j\<lparr>job_response := ?f\<rparr>)"
    proof (cases brk)
      case True
      then show ?thesis using rv(1) ph g by auto
    next
      case False
      then have "counted 0 0 r' (j\<lparr>job_response := ?f\<rparr>)" using rv(1) ph(3) c by (auto simp: counted_def)
      moreover have "jfr_status (jr_files ?f ! Suc ?i) = ''queued''" if "Suc ?i < length (jr_files ?f)"
        using that j(7) g(1) by simp
      ultimately show ?thesis using False rv(1) by (simp add: counted_def)
    qed
  qed (use rv fs po oo j(3,4,5) ph(1) g(1) jobs_inv_ids [OF i] in \<open>auto simp: set_response_jobs [OF j(1)]\<close>)
qed

text \<open>The end of a run.\<close>

lemma all_statusI: "(\<And>i. i < length fs \<Longrightarrow> jfr_status (fs ! i) \<in> S) \<Longrightarrow> all_status S fs"
  by (auto simp: all_status_def in_set_conv_nth)

lemma count_status_all:
  assumes "all_status {a, b} fs" "a \<noteq> b"
  shows "count_status a fs = 0 \<longleftrightarrow> all_status {b} fs" "count_status b fs = 0 \<longleftrightarrow> all_status {a} fs"
  using assms by (auto simp: count_status_zero all_status_def)

lemma file_status_cases:
  assumes "run_ok r w" "map_of (jobs w) (run_id r) = Some j" "f \<in> set (files_of j)"
  shows "jfr_status f \<in> {''queued'', ''running'', ''completed'', ''failed'', ''canceled''}"
proof -
  obtain n where n: "n < length (files_of j)" "f = files_of j ! n" using assms(3) by (auto simp: in_set_conv_nth)
  from assms(1) show ?thesis
  proof (rule run_okE)
    fix j' assume j: "map_of (jobs w) (run_id r) = Some j'"
      "\<forall>i < run_index r. jfr_status (files_of j' ! i) \<in> {''completed'', ''failed''}"
      "\<forall>i < length (files_of j'). run_index r < i \<longrightarrow> jfr_status (files_of j' ! i) = ''queued''"
      "phase_ok (run_phase r) (canceled (run_id r) w) r j'"
    then have "j' = j" using assms(2) by simp
    then consider "n < run_index r" | "n = run_index r" | "run_index r < n" by linarith
    then show ?thesis
    proof cases
      case 2
      then show ?thesis using j(4) n \<open>j' = j\<close> by (cases "run_phase r") auto
    qed (use j n \<open>j' = j\<close> in auto)
  qed
qed

lemma final_record:
  assumes ok: "run_ok r w" and p: "run_phase r = PFinal" and j: "map_of (jobs w) (run_id r) = Some j"
    and fs: "fs = map cancel_unfinished (files_of j)"
  shows "all_status {''completed'', ''failed'', ''canceled''} fs"
    "\<not> canceled (run_id r) w \<Longrightarrow> all_status {''completed'', ''failed''} fs \<and> run_succ r = count_status ''completed'' fs \<and>
       run_fail r = count_status ''failed'' fs"
proof -
  show "all_status {''completed'', ''failed'', ''canceled''} fs"
    using file_status_cases [OF ok j] fs by (fastforce simp: all_status_def cancel_unfinished_def)
  show "all_status {''completed'', ''failed''} fs \<and> run_succ r = count_status ''completed'' fs \<and> run_fail r = count_status ''failed'' fs"
    if c: "\<not> canceled (run_id r) w"
    using ok
  proof (rule run_okE)
    fix j' assume j': "map_of (jobs w) (run_id r) = Some j'"
      "\<forall>i < run_index r. jfr_status (files_of j' ! i) \<in> {''completed'', ''failed''}"
      "phase_ok (run_phase r) (canceled (run_id r) w) r j'"
    then have e: "j' = j" using j by simp
    then have n: "run_index r = length (files_of j)" "counted 0 0 r j" using j'(3) p c by simp_all
    have a: "all_status {''completed'', ''failed''} (files_of j)" using j'(2) n(1) e by (intro all_statusI) auto
    then have "fs = files_of j" using fs by (auto simp: all_status_def cancel_unfinished_def intro!: map_idI)
    then show ?thesis using a n(2) by (simp add: counted_def)
  qed
qed

lemma finalize_jobs:
  assumes "map_of (jobs w) k = Some j"
  shows "finalize_job cfg now stamp k a b w = set_job k (j\<lparr>job_response := (update_progress ((job_response j)\<lparr>jr_files := map cancel_unfinished (files_of j)\<rparr>))
        \<lparr>jr_finished_at := Some stamp, jr_status := final_status (canceled k w) a b\<rparr>,
      job_files := [], job_expiry := Some (now + int (retention cfg))\<rparr>) (w\<lparr>store := release_output j (store w)\<rparr>)"
  using assms by (simp add: finalize_job_def canceled_def Let_def)

lemma drop_files_frame [simp]: "ids (drop_files fs s) = ids s" "entries (drop_files fs s) = entries s"
  by (simp_all add: drop_files_def)

lemma release_output_frame [simp]: "ids (release_output j s) = ids s" "entries (release_output j s) = entries s"
  by (simp_all add: release_output_def)

lemma final_job_ok:
  assumes ok: "job_ok k j" and run: "run_ok r w" "run_phase r = PFinal" "map_of (jobs w) k = Some j" "run_id r = k"
  shows "job_ok k (j\<lparr>job_response := (update_progress ((job_response j)\<lparr>jr_files := map cancel_unfinished (files_of j)\<rparr>))
        \<lparr>jr_finished_at := Some stamp, jr_status := final_status (canceled k w) (run_succ r) (run_fail r)\<rparr>,
      job_files := [], job_expiry := Some t\<rparr>)" (is "job_ok k ?j")
proof -
  let ?fs = "map cancel_unfinished (files_of j)"
  note fr = final_record [OF run(1,2) run(3) [folded run(4)] refl, unfolded run(4)]
  have prog: "progress_ok (job_response ?j)"
    using progress_ok_update [of "(job_response j)\<lparr>jr_files := ?fs\<rparr>"] ok
    by (simp add: job_ok_def progress_ok_def)
  have out: "outputs_ok (job_response ?j)"
    using ok by (auto simp: job_ok_def outputs_ok_def cancel_unfinished_def published_def)
  have ver: "verdict_ok ?j"
  proof (cases "canceled k w")
    case True
    then show ?thesis using fr(1) by (simp add: verdict_ok_def final_status_def)
  next
    case False
    note f = fr(2) [OF False]
    note c = count_status_all [OF conjunct1 [OF f]]
    have ne: "?fs \<noteq> []" if "count_status ''failed'' ?fs \<noteq> 0" using that by (auto simp: count_status_def)
    consider "run_fail r = 0" | "run_fail r \<noteq> 0" "run_succ r = 0" | "run_fail r \<noteq> 0" "run_succ r \<noteq> 0" by blast
    then show ?thesis
    proof cases
      case 1
      then show ?thesis using False f c by (simp add: verdict_ok_def final_status_def)
    next
      case 2
      then show ?thesis using False f c ne by (simp add: verdict_ok_def final_status_def)
    next
      case 3
      then show ?thesis using False f c by (simp add: verdict_ok_def final_status_def)
    qed
  qed
  have st: "status_of ?j \<in> set JOB_STATUSES" "\<not> live_status (status_of ?j)" "status_of ?j \<noteq> ''queued''"
    by (simp_all add: final_status_def JOB_STATUSES_def live_status_def)
  have "jr_job_id (job_response j) = k" "distinct (jr_output_formats (job_response j))" using ok by (simp_all add: job_ok_def)
  then show ?thesis unfolding job_ok_def using prog out ver st by simp
qed

lemma final_inv:
  assumes i: "jobs_inv w" and r: "runner w = Some r" and p: "run_phase r = PFinal"
  shows "jobs_inv (w\<lparr>svc := run_final cfg now stamp r (svc w), runner := None\<rparr>)"
  using i r
proof (cases rule: running_record)
  case (1 j)
  note fin = finalize_jobs [OF 1(1), of cfg now stamp "run_succ r" "run_fail r"]
  note ok = final_job_ok [OF jobs_inv_job(1) [OF i 1(1)] jobs_inv_run [OF i r] p 1(1) refl, where t = "now + int (retention cfg)" and stamp = stamp]
  have st: "final_status c a b \<noteq> ''queued''" "final_status c a b \<noteq> ''running''" for c a b by (simp_all add: final_status_def)
  show ?thesis
    by (rule jobs_inv_set [OF i 1(1) ok]) (use r st jobs_inv_ids [OF i] in \<open>auto simp: run_final_def fin Let_def set_job_def\<close>)
qed

lemma clone_files_frame [simp]: "ids (clone_files fs s) = ids s" "entries (clone_files fs s) = entries s"
  unfolding clone_files_def by (induction fs arbitrary: s) simp_all

lemma pop_inv:
  assumes i: "jobs_inv w" and r: "runner w = None" and q: "queue (svc w) = k # q"
    and st: "start_job stamp k ((svc w)\<lparr>queue := q\<rparr>) = (x, v)"
  shows "jobs_inv (w\<lparr>svc := v, runner := x\<rparr>)"
proof (cases "\<exists>j. map_of (jobs (svc w)) k = Some j \<and> status_of j = ''queued''")
  case True
  then obtain j where j: "map_of (jobs (svc w)) k = Some j" "status_of j = ''queued''" by blast
  let ?f = "(job_response j)\<lparr>jr_status := ''running'', jr_started_at := Some stamp\<rparr>"
  let ?j = "j\<lparr>job_cancel := job_cancel j \<or> stopping (svc w), job_response := ?f\<rparr>"
  let ?r = "\<lparr>run_id = k, run_files = job_files j, run_index = 0, run_succ = 0, run_fail = 0, run_agg = 0, run_phase = PHead\<rparr>"
  have xv: "x = Some ?r" "v = set_job k ?j ((svc w)\<lparr>queue := q, store := clone_files (job_files j) (store (svc w))\<rparr>)"
    using st j by (auto simp: start_job_def)
  note ok = jobs_inv_job(1) [OF i j(1)]
  have qd: "jfr_status (files_of j ! n) = ''queued''" if "n < length (files_of j)" for n
    using ok that j(2) by (auto simp: job_ok_def all_status_def)
  have c: "count_status x (files_of j) = 0" if "x \<noteq> ''queued''" for x
    using ok that j(2) by (auto simp: job_ok_def all_status_def count_status_zero)
  have ok': "job_ok k ?j" using ok j(2)
    by (simp add: job_ok_def progress_ok_def verdict_ok_def outputs_ok_def JOB_STATUSES_def live_status_def)
  have "length (job_files j) = length (files_of j)" using ok j(2) by (simp add: job_ok_def)
  then have "run_ok ?r v"
    using qd c xv(2) by (intro run_okI [where j = ?j]) (simp_all add: set_job_def AList.update_conv' counted_def)
  then show ?thesis
    by (intro jobs_inv_set [OF i j(1) ok']) (use xv r q jobs_inv_ids [OF i] in \<open>auto simp: set_job_def\<close>)
next
  case False
  then have xv: "x = None" "v = (svc w)\<lparr>queue := q\<rparr>" using st by (auto simp: start_job_def split: option.splits if_splits)
  show ?thesis unfolding jobs_inv_def
  proof (intro conjI)
    show "\<forall>k' j. map_of (jobs (svc (w\<lparr>svc := v, runner := x\<rparr>))) k' = Some j \<longrightarrow>
        job_ok k' j \<and> issued (ids (store (svc (w\<lparr>svc := v, runner := x\<rparr>)))) k' \<and>
        (status_of j = ''queued'' \<longrightarrow> k' \<in> set (queue (svc (w\<lparr>svc := v, runner := x\<rparr>)))) \<and>
        (status_of j = ''running'' \<longrightarrow> (\<exists>r. runner (w\<lparr>svc := v, runner := x\<rparr>) = Some r \<and> run_id r = k'))"
      using jobs_inv_job [OF i] False q r xv by fastforce
  qed (use i xv in \<open>auto simp: jobs_inv_def\<close>)
qed

lemma rstep_jobs_inv: "rstep cfg sha w w' \<Longrightarrow> jobs_inv w \<Longrightarrow> jobs_inv w'"
proof (induction rule: rstep.induct)
  case (permit w r p)
  then show ?case using jobs_inv_phase run_permit_ok jobs_inv_run by metis
next
  case (parse w r outcome)
  then show ?case using jobs_inv_phase run_parse_ok jobs_inv_run by metis
next
  case (pubfailed w r)
  then show ?case using jobs_inv_phase run_pubfailed_ok jobs_inv_run by metis
qed (blast intro: pop_inv head_inv name_inv publish_inv_step mark_inv final_inv)+

section \<open>The other steps\<close>

lemma phase_ok_stop: "phase_ok p a r j \<Longrightarrow> phase_ok p True r j"
  by (cases p) auto

lemma drop_entry_ids [simp]: "ids (drop_entry e s) = ids s" "ids (remove_entry k s) = ids s" "ids (put_upload_entry k u s) = ids s"
  by (simp_all add: drop_entry_def remove_entry_def put_upload_entry_def)

lemma put_begin_ids: "put_begin cfg cnow now k s = (r, s') \<Longrightarrow> ids s' = ids s"
  by (auto simp: put_begin_def Let_def split: option.splits Entry.splits if_splits)

lemma put_finish_ids: "put_finish sha w data s = (r, s') \<Longrightarrow> ids s' = ids s" "ids (writer_abort w s) = ids s"
  by (auto simp: put_finish_def writer_abort_def Let_def split: option.splits Entry.splits if_splits)

lemma file_ops_ids:
  "commit_upload p s = (r0, s') \<Longrightarrow> ids s' = ids s" "cancel_upload cnow k s = (r1, s') \<Longrightarrow> ids s' = ids s"
  "list_files cnow q s = (r2, s') \<Longrightarrow> ids s' = ids s" "get_file cnow now k s = (r3, s') \<Longrightarrow> ids s' = ids s"
  "delete_file cnow k s = (r4, s') \<Longrightarrow> ids s' = ids s" "content cnow k s = (r5, s') \<Longrightarrow> ids s' = ids s"
  "ids (snd (get_upload cnow now k s)) = ids s"
  by (auto simp: commit_upload_def cancel_upload_def list_files_def get_file_def delete_file_def content_def get_upload_def Let_def
      split: option.splits Entry.splits if_splits result.splits)

lemma create_reserve_ids:
  assumes "create_reserve cfg cnow now req s = (r, s')" "ids s < ID_MAX"
  shows "ids s \<le> ids s' \<and> ids s' \<le> ID_MAX"
proof (cases rule: create_reserve_cases [of cfg cnow now req s])
  case err
  then show ?thesis using assms by auto
next
  case (go q ttl)
  let ?s = "cleanup_expired cnow s"
  obtain m s1 where m: "reserve_metadata 2 (?s\<lparr>ids := (ids ?s + 1) mod 2 ^ 64\<rparr>) = (m, s1)" by fastforce
  obtain b s2 where b: "input_reservation (uc_bytes q) s1 = (b, s2)" by fastforce
  have "ids s2 = ids s + 1" "ids s1 = ids s + 1"
    using acquire_frame(3) [OF m] acquire_frame(1) [OF b] assms(2) by (simp_all add: ID_MAX_def)
  then show ?thesis using assms go(8) m b
    by (auto simp: reserve_upload_def next_id_idstr split: option.splits)
qed

lemma complete_ids:
  assumes "complete cnow now body k s = (r, s')" "ids s < ID_MAX"
  shows "ids s \<le> ids s' \<and> ids s' \<le> ID_MAX"
  using assms by (auto simp: complete_def Let_def next_id_idstr ID_MAX_def split: option.splits Entry.splits if_splits result.splits)

lemma fstep_ids:
  assumes "fstep cfg sha f f'" "ids (inner f) \<le> ID_MAX"
  shows "ids (inner f) \<le> ids (inner f') \<and> ids (inner f') \<le> ID_MAX"
  using assms(1)
  by cases (use assms(2) in \<open>auto dest: put_begin_ids put_finish_ids(1) file_ops_ids(1-6) create_reserve_ids complete_ids
    simp: put_finish_ids(2) file_ops_ids(7) stop_admissions_def\<close>)

lemma lease_source_ids: "lease_source decode now src s = (x, s') \<Longrightarrow> ids s' = ids s"
  by (auto simp: lease_source_def input_lease_def split: InputSource.splits option.splits if_splits prod.splits Entry.splits
      dest!: acquire_frame(1))

lemma lease_files_ids: "lease_files decode now tier fs acc s = (x, s') \<Longrightarrow> ids s' = ids s"
proof (induction fs arbitrary: acc s)
  case (Cons f fs)
  obtain y s1 where l: "lease_source decode now (sf_source f) s = (y, s1)" by fastforce
  show ?case using Cons.prems Cons.IH lease_source_ids [OF l]
    by (cases y) (auto simp: l Let_def split: if_splits)
qed simp

lemma queued_job_ok:
  assumes "distinct (sub_output_formats req)"
  shows "job_ok k \<lparr>job_response = queued_response k stamp req files, job_files = files, job_cancel = False, job_metadata = m,
    job_budget = b, job_expiry = None, job_ocr_mode = oc\<rparr>"
  using assms by (auto simp: job_ok_def queued_response_def queued_file_def progress_ok_def verdict_ok_def outputs_ok_def all_status_def
      JOB_STATUSES_def live_status_def count_status_def filter_empty_conv)

lemma prepare_record_step:
  assumes "prepare_record cfg decode now now' stamp req m b s = (x, s')" "ids s < ID_MAX" "distinct (sub_output_formats req)"
  shows "ids s \<le> ids s' \<and> ids s' \<le> ID_MAX \<and>
    (\<forall>k j. x = Ok (k, j) \<longrightarrow> job_ok k j \<and> status_of j = ''queued'' \<and> k = idstr ''job'' (ids s) \<and> ids s' = ids s + 1)"
proof (cases "\<exists>t. total_size cfg now s (sub_files req) 0 = Ok t")
  case False
  then have "ids s' = ids s \<and> (\<exists>e. x = Err e)"
    using assms(1) by (cases "total_size cfg now s (sub_files req) 0") (auto simp: prepare_record_def)
  then show ?thesis using assms(2) by auto
next
  case True
  obtain y s1 where l: "lease_files decode now' (sub_tier req) (sub_files req) [] s = (y, s1)" by fastforce
  have i: "ids s1 = ids s" using lease_files_ids [OF l] .
  show ?thesis
  proof (cases y)
    case (Err e)
    then show ?thesis using assms(1,2) True l i by (auto simp: prepare_record_def)
  next
    case (Ok files)
    have x: "x = Ok (idstr ''job'' (ids s), \<lparr>job_response = queued_response (idstr ''job'' (ids s)) stamp req files, job_files = files,
        job_cancel = False, job_metadata = m, job_budget = b, job_expiry = None, job_ocr_mode = sub_ocr_mode req\<rparr>)"
      "ids s' = ids s + 1"
      using assms(1,2) True l i Ok by (auto simp: prepare_record_def next_id_idstr ID_MAX_def)
    then show ?thesis using assms(2) queued_job_ok [OF assms(3)] by (auto simp: queued_response_def)
  qed
qed

lemma prepare_reserve_step:
  assumes "prepare_reserve cfg decode now now' stamp req w = (x, v)" "ids (store w) < ID_MAX"
  shows "jobs v = jobs w \<and> queue v = queue w \<and> stopping v = stopping w \<and> ids (store w) \<le> ids (store v) \<and> ids (store v) \<le> ID_MAX \<and>
    (\<forall>k j. x = Ok (k, j) \<longrightarrow> job_ok k j \<and> status_of j = ''queued'' \<and> k = idstr ''job'' (ids (store w)) \<and> ids (store v) = ids (store w) + 1)"
proof (cases "\<not> stopping w \<and> submission_validate req = Ok () \<and> free_slots w \<noteq> 0")
  case False
  then have "v = w \<and> (\<exists>e. x = Err e)" using assms(1) by (auto simp: prepare_reserve_def split: result.splits if_splits)
  then show ?thesis using assms(2) by auto
next
  case True
  then have d: "distinct (sub_output_formats req)" by (auto simp: submission_validate_def split: if_splits)
  obtain m s1 where m: "reserve_metadata (1 + length (sub_files req) * length (sub_output_formats req)) (store w) = (m, s1)" by fastforce
  obtain b s2 where b: "artifact_budget JOB_CAP s1 = (b, s2)" by fastforce
  have i: "ids s1 = ids (store w)" "ids s2 = ids (store w)" using acquire_frame(3) [OF m] acquire_frame(2) [OF b] by simp_all
  show ?thesis
  proof (cases "m = None \<or> b = None")
    case none: True
    then have "v = w \<and> (\<exists>e. x = Err e) \<or> (\<exists>n e. v = w\<lparr>store := meta_drop n s2\<rparr> \<and> x = Err e)"
      using assms(1) True m b by (cases m) (auto simp: prepare_reserve_def)
    then show ?thesis using assms(2) i by auto
  next
    case False
    then obtain m' b' where mb: "m = Some m'" "b = Some b'" by auto
    obtain y s3 where r: "prepare_record cfg decode now now' stamp req m' b' s2 = (y, s3)" by fastforce
    have "ids s2 < ID_MAX" using i assms(2) by simp
    note p = prepare_record_step [OF r this d]
    show ?thesis
    proof (cases y)
      case (Err e)
      then have "v = w\<lparr>store := s3\<rparr>" "x = Err e" using assms(1) True m b mb r by (auto simp: prepare_reserve_def)
      then show ?thesis using p i by simp
    next
      case (Ok z)
      then have "v = w\<lparr>store := s3, free_slots := free_slots w - 1\<rparr>" "x = Ok z"
        using assms(1) True m b mb r by (auto simp: prepare_reserve_def)
      then show ?thesis using p i Ok by simp
    qed
  qed
qed

lemma prepare_ok_inv:
  assumes i: "jobs_inv w" and p: "prepare_reserve cfg decode now now' stamp req (svc w) = (Ok (k, j), v)" and n: "ids (store (svc w)) < ID_MAX"
  shows "jobs_inv (w\<lparr>svc := v, prepared := (k, j) # prepared w\<rparr>)" (is "jobs_inv ?w")
proof -
  note st = prepare_reserve_step [OF p n]
  have i': "jobs_inv (w\<lparr>svc := v\<rparr>)" by (rule jobs_inv_frame [OF i]) (use st in simp_all)
  have k: "k = idstr ''job'' (ids (store (svc w)))" "ids (store v) = ids (store (svc w)) + 1" using st by simp_all
  have "\<not> issued (ids (store (svc w))) k" using issued_fresh [of "ids (store (svc w))" k "''job''"] k n by auto
  then have fresh: "map_of (jobs (svc w)) k = None" "k \<notin> fst ` set (prepared w)"
    using jobs_inv_job(2) [OF i, of k] jobs_inv_prepared(3) [OF i] by (cases "map_of (jobs (svc w)) k", auto)
  have "issued (ids (store v)) k" unfolding issued_def using k by (intro exI [of _ "''job''"] exI [of _ "ids (store (svc w))"]) simp
  then show ?thesis using i' fresh st unfolding jobs_inv_def by auto
qed

lemma commit_inv:
  assumes i: "jobs_inv w" and p: "(k, j) \<in> set (prepared w)" and c: "commit_job k j (svc w) = (x, v)"
  shows "jobs_inv (w\<lparr>svc := v, prepared := remove1 (k, j) (prepared w)\<rparr>)" (is "jobs_inv ?w")
proof -
  note o = jobs_inv_prepared [OF i p]
  have d: "distinct (map fst (prepared w))" using i by (simp add: jobs_inv_def)
  have d': "distinct (map fst (remove1 (k, j) (prepared w)))"
    by (rule distinct_map_submset [OF d]) simp
  have rest: "(k', j') \<in> set (prepared w) \<and> k' \<noteq> k" if "(k', j') \<in> set (remove1 (k, j) (prepared w))" for k' j'
    using that remove1_ids [OF d p, of "(k', j')"] by (auto dest: notin_set_remove1)
  have pr: "\<forall>(k', j') \<in> set (remove1 (k, j) (prepared w)). job_ok k' j' \<and> status_of j' = ''queued'' \<and>
      issued (ids (store (svc w))) k' \<and> map_of (jobs (svc w)) k' = None \<and> k' \<noteq> k"
    using rest jobs_inv_prepared [OF i] by blast
  show ?thesis
  proof (cases "stopping (svc w) \<or> \<not> accepting (store (svc w))")
    case True
    then have v: "jobs v = jobs (svc w)" "queue v = queue (svc w)" "stopping v = stopping (svc w)" "ids (store v) = ids (store (svc w))"
      using c by (auto simp: commit_job_def drop_record_def)
    show ?thesis using i d' pr unfolding jobs_inv_def by (auto simp: v run_ok_cong [of v "svc w"])
  next
    case False
    have v: "jobs v = AList.update k j (jobs (svc w))" "queue v = queue (svc w) @ [k]" "stopping v = stopping (svc w)"
      "ids (store v) = ids (store (svc w))" using c False o(4) by (auto simp: commit_job_def Let_def)
    have m: "map_of (jobs v) = (map_of (jobs (svc w)))(k \<mapsto> j)" by (simp add: v AList.update_conv')
    have dj: "distinct (map fst (jobs v))" using i by (simp add: v distinct_update jobs_inv_def)
    have ro: "run_ok r v" if "runner w = Some r" for r
    proof -
      have "run_ok r (svc w)" using i that by (simp add: jobs_inv_def)
      moreover have "run_id r \<noteq> k" using \<open>run_ok r (svc w)\<close> o(4) by (auto simp: run_ok_def)
      ultimately show ?thesis using m by (simp add: run_ok_def v(3))
    qed
    have jb: "job_ok x y \<and> issued (ids (store (svc w))) x \<and> (status_of y = ''queued'' \<longrightarrow> x \<in> set (queue v)) \<and>
        (status_of y = ''running'' \<longrightarrow> (\<exists>r. runner w = Some r \<and> run_id r = x))" if "map_of (jobs v) x = Some y" for x y
    proof (cases "x = k")
      case True
      then show ?thesis using that m o v(2) by auto
    next
      case False
      then have "map_of (jobs (svc w)) x = Some y" using that m by simp
      from jobs_inv_job [OF i this] show ?thesis using v(2) by auto
    qed
    show ?thesis unfolding jobs_inv_def
      using d' dj ro jb pr v(4) jobs_inv_ids [OF i] by (auto simp: m)
  qed
qed

lemma cancel_queued_ok:
  assumes ok: "job_ok k j" and q: "status_of j = ''queued''"
  shows "job_ok k (j\<lparr>job_cancel := True, job_response := update_progress ((job_response j)\<lparr>jr_status := ''canceled'',
      jr_finished_at := Some stamp, jr_files := map (\<lambda>f. f\<lparr>jfr_status := ''canceled''\<rparr>) (files_of j)\<rparr>), job_files := [],
      job_expiry := Some t\<rparr>)" (is "job_ok k ?j")
proof -
  have "progress_ok (job_response ?j)"
    using progress_ok_update [of "(job_response j)\<lparr>jr_status := ''canceled'', jr_finished_at := Some stamp,
      jr_files := map (\<lambda>f. f\<lparr>jfr_status := ''canceled''\<rparr>) (files_of j)\<rparr>"] ok by (simp add: job_ok_def progress_ok_def)
  moreover have "verdict_ok ?j" "outputs_ok (job_response ?j)" by (auto simp: verdict_ok_def outputs_ok_def all_status_def)
  ultimately show ?thesis using ok q by (simp add: job_ok_def live_status_def JOB_STATUSES_def)
qed

lemma cancel_inv:
  assumes i: "jobs_inv w" and c: "cancel_job cfg now stamp k (svc w) = (x, v)"
  shows "jobs_inv (w\<lparr>svc := v\<rparr>)"
proof (cases "\<exists>j. map_of (jobs (svc w)) k = Some j \<and> live_status (status_of j)")
  case False
  then have "v = svc w" using c by (auto simp: cancel_job_def live_status_def split: option.splits if_splits)
  then show ?thesis using i by simp
next
  case True
  then obtain j where j: "map_of (jobs (svc w)) k = Some j" "status_of j = ''queued'' \<or> status_of j = ''running''"
    by (auto simp: live_status_def)
  note ok = jobs_inv_job(1) [OF i j(1)]
  show ?thesis
  proof (cases "status_of j = ''queued''")
    case True
    note ok' = cancel_queued_ok [OF ok True, where stamp = stamp and t = "now + int (retention cfg)"]
    have ro: "run_ok r v" if "runner w = Some r" for r
    proof -
      have r: "run_ok r (svc w)" using i that by (simp add: jobs_inv_def)
      then have "run_id r \<noteq> k" using j(1) True by (auto simp: run_ok_def)
      moreover have "map_of (jobs v) x = map_of (jobs (svc w)) x" if "x \<noteq> k" for x
        using c j(1) True that by (auto simp: cancel_job_def set_job_def AList.update_conv' Let_def)
      moreover have "stopping v = stopping (svc w)" using c j(1) True by (auto simp: cancel_job_def set_job_def Let_def)
      ultimately show ?thesis using r by (simp add: run_ok_def)
    qed
    show ?thesis by (rule jobs_inv_set [OF i j(1) ok'])
      (use c j(1) True ro jobs_inv_ids [OF i] in \<open>auto simp: cancel_job_def set_job_def Let_def\<close>)
  next
    case False
    then have run: "status_of j = ''running''" using j(2) by simp
    have v: "v = set_job k (j\<lparr>job_cancel := True\<rparr>) (svc w)" using c j(1) run by (simp add: cancel_job_def)
    have ok': "job_ok k (j\<lparr>job_cancel := True\<rparr>)" using ok by (simp add: job_ok_def verdict_ok_def)
    obtain r where r: "runner w = Some r" "run_id r = k" using jobs_inv_job(4) [OF i j(1) run] by blast
    have "run_ok r v" using jobs_inv_run [OF i r(1)]
    proof (rule run_okE)
      fix j' assume j': "map_of (jobs (svc w)) (run_id r) = Some j'" "status_of j' = ''running''" "job_files j' = run_files r"
        "length (run_files r) = length (files_of j')" "run_index r \<le> length (files_of j')"
        "\<forall>i < run_index r. jfr_status (files_of j' ! i) \<in> {''completed'', ''failed''}"
        "\<forall>i < length (files_of j'). run_index r < i \<longrightarrow> jfr_status (files_of j' ! i) = ''queued''"
        "phase_ok (run_phase r) (canceled (run_id r) (svc w)) r j'"
      have e: "j' = j" using j'(1) j(1) r(2) by simp
      have "phase_ok (run_phase r) True r (j\<lparr>job_cancel := True\<rparr>)" using phase_ok_stop [OF j'(8)] e
        by (cases "run_phase r") (simp_all add: counted_def)
      then show ?thesis using j' e r(2) v
        by (intro run_okI [where j = "j\<lparr>job_cancel := True\<rparr>"]) (simp_all add: set_job_def AList.update_conv')
    qed
    then show ?thesis by (intro jobs_inv_set [OF i j(1) ok']) (use v r run jobs_inv_ids [OF i] in \<open>auto simp: set_job_def\<close>)
  qed
qed

text \<open>Stopping, cleanup and the end of the shutdown.\<close>

lemma run_ok_stop:
  assumes r: "run_ok r w" and v: "stopping v = stopping w \<or> stopping v"
    and j: "\<And>j. map_of (jobs w) (run_id r) = Some j \<Longrightarrow> \<exists>c. map_of (jobs v) (run_id r) = Some (j\<lparr>job_cancel := c\<rparr>) \<and> (job_cancel j \<longrightarrow> c)"
  shows "run_ok r v"
  using r
proof (rule run_okE)
  fix j' assume j': "map_of (jobs w) (run_id r) = Some j'" "status_of j' = ''running''" "job_files j' = run_files r"
    "length (run_files r) = length (files_of j')" "run_index r \<le> length (files_of j')"
    "\<forall>i < run_index r. jfr_status (files_of j' ! i) \<in> {''completed'', ''failed''}"
    "\<forall>i < length (files_of j'). run_index r < i \<longrightarrow> jfr_status (files_of j' ! i) = ''queued''"
    "phase_ok (run_phase r) (canceled (run_id r) w) r j'" "canceled (run_id r) w \<longleftrightarrow> job_cancel j' \<or> stopping w"
  obtain c where c: "map_of (jobs v) (run_id r) = Some (j'\<lparr>job_cancel := c\<rparr>)" "job_cancel j' \<longrightarrow> c" using j [OF j'(1)] by blast
  have "phase_ok (run_phase r) (c \<or> stopping v) r j'"
    using j'(8) phase_ok_stop [OF j'(8)] c(2) v j'(9) by (cases "canceled (run_id r) w"; cases "c \<or> stopping v") auto
  then have "phase_ok (run_phase r) (c \<or> stopping v) r (j'\<lparr>job_cancel := c\<rparr>)" by (cases "run_phase r") (simp_all add: counted_def)
  then show ?thesis using j' c(1) by (intro run_okI [where j = "j'\<lparr>job_cancel := c\<rparr>"]) simp_all
qed

lemma job_ok_cancel [simp]: "job_ok k (j\<lparr>job_cancel := c\<rparr>) = job_ok k j"
  by (simp add: job_ok_def verdict_ok_def)

lemma same_cancel: "\<exists>c. j = j\<lparr>job_cancel := c\<rparr> \<and> (job_cancel j \<longrightarrow> c)"
  by (rule exI [of _ "job_cancel j"]) simp

lemma stop_flags_inv:
  assumes i: "jobs_inv w"
  shows "jobs_inv (w\<lparr>svc := stop_flags (svc w)\<rparr>)"
proof -
  have "run_ok r (stop_flags (svc w))" if "runner w = Some r" for r
    by (rule run_ok_stop [OF jobs_inv_run [OF i that]]) (auto simp: stop_flags_def same_cancel)
  then show ?thesis using i unfolding jobs_inv_def by (simp add: stop_flags_def stop_admissions_def)
qed

lemma map_of_stop_cancel:
  "map_of (jobs (stop_cancel locked w)) k =
     map_option (\<lambda>j. if \<not> locked k \<and> live_status (status_of j) then j\<lparr>job_cancel := True\<rparr> else j) (map_of (jobs w) k)"
proof -
  have "map_of (map (\<lambda>(k, j). (k, g k j)) xs) k = map_option (g k) (map_of xs k)" for g :: "ustr \<Rightarrow> JobRecord \<Rightarrow> JobRecord" and xs
    by (induction xs) auto
  then show ?thesis by (simp add: stop_cancel_def)
qed

lemma stop_cancel_inv:
  assumes i: "jobs_inv w"
  shows "jobs_inv (w\<lparr>svc := stop_cancel locked (svc w)\<rparr>)"
proof -
  let ?v = "stop_cancel locked (svc w)"
  have v: "queue ?v = queue (svc w)" "store ?v = store (svc w)" "stopping ?v = stopping (svc w)" "map fst (jobs ?v) = map fst (jobs (svc w))"
    by (simp_all add: stop_cancel_def comp_def case_prod_beta)
  have "run_ok r ?v" if "runner w = Some r" for r
    by (rule run_ok_stop [OF jobs_inv_run [OF i that]]) (auto simp: v map_of_stop_cancel same_cancel)
  moreover have "job_ok k j \<and> issued (ids (store (svc w))) k \<and> (status_of j = ''queued'' \<longrightarrow> k \<in> set (queue (svc w))) \<and>
      (status_of j = ''running'' \<longrightarrow> (\<exists>r. runner w = Some r \<and> run_id r = k))" if m: "map_of (jobs ?v) k = Some j" for k j
  proof -
    obtain j0 where j0: "map_of (jobs (svc w)) k = Some j0" "j = j0 \<or> j = j0\<lparr>job_cancel := True\<rparr>"
      using m by (auto simp: map_of_stop_cancel split: if_splits)
    show ?thesis using j0(2) jobs_inv_job [OF i j0(1)] by auto
  qed
  ultimately show ?thesis unfolding jobs_inv_def using i
    by (simp add: v) (simp add: jobs_inv_def map_of_stop_cancel)
qed

lemma drop_record_frame [simp]:
  "jobs (drop_record j w) = jobs w" "queue (drop_record j w) = queue w" "stopping (drop_record j w) = stopping w"
  "ids (store (drop_record j w)) = ids (store w)" "entries (store (drop_record j w)) = entries (store w)"
  by (simp_all add: drop_record_def)

lemma drop_records_frame [simp]:
  "jobs (fold (\<lambda>(_, j). drop_record j) xs w) = jobs w" "queue (fold (\<lambda>(_, j). drop_record j) xs w) = queue w"
  "stopping (fold (\<lambda>(_, j). drop_record j) xs w) = stopping w" "ids (store (fold (\<lambda>(_, j). drop_record j) xs w)) = ids (store w)"
  by (induction xs arbitrary: w) (auto simp: case_prod_beta)

lemma map_of_filter_Some:
  "distinct (map fst xs) \<Longrightarrow> map_of (filter P xs) k = (case map_of xs k of Some v \<Rightarrow> if P (k, v) then Some v else None | None \<Rightarrow> None)"
  by (induction xs) (auto simp: split: option.splits, (force simp: map_of_eq_None_iff dest: map_of_SomeD)+)

lemma service_cleanup_inv:
  assumes i: "jobs_inv w"
  shows "jobs_inv (w\<lparr>svc := service_cleanup busy cnow now (svc w)\<rparr>)"
proof -
  let ?v = "service_cleanup busy cnow now (svc w)"
  have d: "distinct (map fst (jobs (svc w)))" using i by (simp add: jobs_inv_def)
  have v: "queue ?v = queue (svc w)" "ids (store ?v) = ids (store (svc w))" "stopping ?v = stopping (svc w)"
    "jobs ?v = filter (job_retained busy now) (jobs (svc w))"
    by (simp_all add: service_cleanup_def Let_def)
  note m = map_of_filter_Some [OF d, of "job_retained busy now"]
  have live: "job_retained busy now (k, j)" if "status_of j = ''running''" for k j using that by (simp add: job_retained_def live_status_def)
  have "run_ok r ?v" if "runner w = Some r" for r
    by (rule run_ok_stop [OF jobs_inv_run [OF i that]])
      (use jobs_inv_run [OF i that] in \<open>auto simp: v m same_cancel run_ok_def live\<close>)
  moreover have "map_of (jobs (svc w)) k = Some j" if "map_of (jobs ?v) k = Some j" for k j
    using that by (auto simp: v m split: option.splits if_splits)
  moreover have "map_of (jobs ?v) k = None" if "map_of (jobs (svc w)) k = None" for k using that by (simp add: v m)
  moreover have "distinct (map fst (jobs ?v))" using d by (simp add: v distinct_map_filter)
  ultimately show ?thesis using i jobs_inv_job [OF i] jobs_inv_prepared [OF i] unfolding jobs_inv_def
    by (simp add: v(1-3)) blast
qed

lemma shutdown_clear_inv:
  assumes i: "jobs_inv w" and r: "runner w = None"
  shows "jobs_inv (w\<lparr>svc := shutdown_clear (svc w)\<rparr>)"
proof -
  have "ids (clear_retained s) = ids s" for s by (simp add: clear_retained_def)
  then have v: "jobs (shutdown_clear (svc w)) = []" "queue (shutdown_clear (svc w)) = queue (svc w)"
    "ids (store (shutdown_clear (svc w))) = ids (store (svc w))" by (simp_all add: shutdown_clear_def Let_def)
  show ?thesis using i r jobs_inv_prepared [OF i] unfolding jobs_inv_def by (auto simp: v)
qed

lemma ostep_jobs_inv: "ostep cfg sha decode w w' \<Longrightarrow> jobs_inv w \<Longrightarrow> jobs_inv w'"
proof (induction rule: ostep.induct)
  case (files w f)
  have "ids (store (svc w)) \<le> ids (inner f) \<and> ids (inner f) \<le> ID_MAX"
    using fstep_ids [OF files(1)] jobs_inv_ids [OF files(2)] by (simp add: session_of_def)
  then show ?case by (intro jobs_inv_frame [OF files(2)]) (simp_all add: with_session_def)
next
  case (prepare_err now now' stamp req w e v)
  then show ?case using prepare_reserve_step [OF prepare_err(1,2)] by (intro jobs_inv_frame [OF prepare_err(3)]) simp_all
next
  case (prepare_ok now now' stamp req w p v)
  then show ?case using prepare_ok_inv by (cases p) blast
qed (blast intro: commit_inv cancel_inv stop_flags_inv stop_cancel_inv service_cleanup_inv shutdown_clear_inv)+

lemma world_start_inv: "jobs_inv (world_start slots)"
  by (simp add: jobs_inv_def world_start_def service_new_def new_inner_def ID_MAX_def)

lemma wreach_jobs_inv: "wreach cfg sha decode slots w \<Longrightarrow> jobs_inv w"
  by (induction rule: wreach.induct) (blast intro: world_start_inv rstep_jobs_inv ostep_jobs_inv)+

text \<open>Records other than the one a step works on.\<close>

lemma set_job_other: "k \<noteq> k' \<Longrightarrow> map_of (jobs (set_job k' j w)) k = map_of (jobs w) k"
  by (simp add: set_job_def AList.update_conv')

lemma set_response_other: "k \<noteq> k' \<Longrightarrow> map_of (jobs (set_response k' f w)) k = map_of (jobs w) k"
  by (simp add: set_response_def set_job_other split: option.split)

lemma run_other:
  assumes "k \<noteq> run_id r"
  shows "run_head r w = (r', v) \<Longrightarrow> map_of (jobs v) k = map_of (jobs w) k"
    "run_name cfg sha render now pages r w = (r', v) \<Longrightarrow> map_of (jobs v) k = map_of (jobs w) k"
    "run_publish artifacts refs pages tot r w = (r', v) \<Longrightarrow> map_of (jobs v) k = map_of (jobs w) k"
    "run_mark st message brk r w = (r', v) \<Longrightarrow> map_of (jobs v) k = map_of (jobs w) k"
    "map_of (jobs (run_final cfg now stamp r w)) k = map_of (jobs w) k"
  using assms
  by (auto simp: run_head_def run_name_def run_publish_def publish_locked_def run_mark_def run_final_def finalize_job_def Let_def
      set_job_other set_response_other split: if_splits option.splits prod.splits result.splits)

lemma terminal_rstep:
  assumes "rstep cfg sha w w'" "jobs_inv w" "map_of (jobs (svc w)) k = Some j" "\<not> live_status (status_of j)"
  shows "map_of (jobs (svc w')) k = Some j"
proof -
  have ne: "k \<noteq> run_id r" if "runner w = Some r" for r
    using jobs_inv_run [OF assms(2) that] assms(3,4) by (auto simp: run_ok_def live_status_def)
  from assms(1) show ?thesis
  proof cases
    case (pop k' q stamp x v)
    then show ?thesis using assms(3,4)
      by (cases "k = k'") (auto simp: start_job_def live_status_def set_job_other split: option.splits if_splits)
  qed (use assms(3) ne run_other in auto)
qed

lemma terminal_ostep:
  assumes "ostep cfg sha decode w w'" "jobs_inv w" "map_of (jobs (svc w)) k = Some j" "\<not> live_status (status_of j)"
  shows "map_of (jobs (svc w')) k = Some j \<or> map_of (jobs (svc w')) k = None"
  using assms(1)
proof cases
  case (prepare_err now now' stamp req e v)
  then show ?thesis using assms(3) prepare_reserve_step by simp
next
  case (prepare_ok now now' stamp req p v)
  then show ?thesis using assms(3) prepare_reserve_step by simp
next
  case (commit k' j' r v)
  have "k' \<noteq> k" using jobs_inv_prepared(4) [OF assms(2) commit(2)] assms(3) by auto
  then show ?thesis using commit assms(3) jobs_inv_prepared(4) [OF assms(2) commit(2)]
    by (auto simp: commit_job_def Let_def AList.update_conv' split: if_splits)
next
  case (cancel now stamp k' r v)
  then show ?thesis using assms(3,4)
    by (cases "k = k'") (auto simp: cancel_job_def live_status_def Let_def set_job_other split: option.splits if_splits)
next
  case (canceling locked)
  then show ?thesis using assms(3,4) by (simp add: map_of_stop_cancel)
next
  case (cleanup busy cnow now)
  have "distinct (map fst (jobs (svc w)))" using assms(2) by (simp add: jobs_inv_def)
  from map_of_filter_Some [OF this, of "job_retained busy now" k] show ?thesis
    using cleanup assms(3) by (simp add: service_cleanup_def Let_def)
qed (use assms(3) in \<open>auto simp: with_session_def stop_flags_def shutdown_clear_def Let_def\<close>)

section \<open>A sample run\<close>

definition sample_submission :: submission where
  "sample_submission = \<lparr>sub_files = [\<lparr>sf_source = Raw (lit ''a.png'') [7], sf_page_range = None\<rparr>], sub_tier = None,
     sub_ocr_mode = Auto, sub_output_formats = [Markdown]\<rparr>"

definition sample_job :: JobRecord where
  "sample_job = \<lparr>job_response = queued_response (idstr ''job'' 1) [] sample_submission
       [\<lparr>pf_file_id = None, pf_name = lit ''a.png'', pf_data = charged [7] 1, pf_page_range = None, pf_tier = TStandard\<rparr>],
     job_files = [\<lparr>pf_file_id = None, pf_name = lit ''a.png'', pf_data = charged [7] 1, pf_page_range = None, pf_tier = TStandard\<rparr>],
     job_cancel = False, job_metadata = 0, job_budget = 0, job_expiry = None, job_ocr_mode = Auto\<rparr>"

definition sample_service :: ServiceInner where
  "sample_service = (service_new 1 (new_inner\<lparr>used := 1, artifact_used := JOB_CAP, meta_used := 2, ids := 2,
     resv := [\<lparr>r_size = JOB_CAP, r_artifact = True, r_refs = 1\<rparr>, \<lparr>r_size = 1, r_artifact = False, r_refs = 1\<rparr>],
     metas := [\<lparr>m_count = 2, m_refs = 1\<rparr>]\<rparr>))\<lparr>free_slots := 0\<rparr>"

lemma sample_prepare:
  "prepare_reserve sample_config decode 0 0 [] sample_submission (service_new 1 new_inner) = (Ok (idstr ''job'' 1, sample_job), sample_service)"
proof -
  have caps: "Suc 0 \<le> INPUT_CAP" "Suc (Suc 0) \<le> META_CAP" "JOB_CAP \<le> ARTIFACT_CAP" "Suc 0 \<le> JOB_CAP"
    by (simp_all add: INPUT_CAP_def META_CAP_def ARTIFACT_CAP_def JOB_CAP_def)
  have nat: "is_native [97, 46, 112, 110, 103] = False" by (simp add: is_native_def image_extensions_def to_ascii_lowercase_def)
  have val: "submission_validate sample_submission = Ok ()"
    by (simp add: submission_validate_def sample_submission_def trim_def trim_matches_def is_whitespace_def len_utf8_def)
  let ?s1 = "new_inner\<lparr>meta_used := 2, metas := [\<lparr>m_count = 2, m_refs = 1\<rparr>]\<rparr>"
  let ?s2 = "?s1\<lparr>artifact_used := JOB_CAP, resv := [\<lparr>r_size = JOB_CAP, r_artifact = True, r_refs = 1\<rparr>]\<rparr>"
  let ?s3 = "?s2\<lparr>used := 1, resv := [\<lparr>r_size = JOB_CAP, r_artifact = True, r_refs = 1\<rparr>, \<lparr>r_size = 1, r_artifact = False, r_refs = 1\<rparr>]\<rparr>"
  let ?fs = "[\<lparr>sf_source = Raw (lit ''a.png'') [7], sf_page_range = None\<rparr>]"
  let ?pf = "\<lparr>pf_file_id = None, pf_name = lit ''a.png'', pf_data = charged [7] 1, pf_page_range = None, pf_tier = TStandard\<rparr>"
  have m: "reserve_metadata 2 new_inner = (Some 0, ?s1)" using caps(2) by (simp add: acquire_defs new_inner_def)
  have b: "artifact_budget JOB_CAP ?s1 = (Some 0, ?s2)" using caps(3) by (simp add: acquire_defs new_inner_def)
  have t: "total_size sample_config 0 ?s2 ?fs 0 = Ok 1"
    using caps(4) by (simp add: source_size_def file_cap_def sample_config_def checked_simps cadd_def U64_MAX_def)
  have l: "lease_files decode 0 None ?fs [] ?s2 = (Ok [?pf], ?s3)"
    using caps(1) nat by (simp add: lease_source_def requested_tier_def effective_range_def acquire_defs new_inner_def charged_def)
  have r: "prepare_record sample_config decode 0 0 [] sample_submission 0 0 ?s2 = (Ok (idstr ''job'' 1, sample_job), ?s3\<lparr>ids := 2\<rparr>)"
    using t l by (simp add: prepare_record_def sample_submission_def sample_job_def next_id_idstr new_inner_def
      del: total_size.simps lease_files.simps)
  have len: "1 + length (sub_files sample_submission) * length (sub_output_formats sample_submission) = 2"
    by (simp add: sample_submission_def)
  show ?thesis unfolding prepare_reserve_def val len using m b r
    by (simp add: service_new_def sample_service_def new_inner_def)
qed

definition sample_queued :: ServiceInner where
  "sample_queued = sample_service\<lparr>jobs := [(idstr ''job'' 1, sample_job)], queue := [idstr ''job'' 1], jobs_created := 1\<rparr>"

definition sample_world :: World where
  "sample_world = (world_start 1)\<lparr>svc := sample_queued\<rparr>"

lemma sample_world_reach: "wreach sample_config sha decode 1 sample_world"
proof -
  let ?k = "idstr ''job'' 1"
  let ?p = "(world_start 1)\<lparr>svc := sample_service, prepared := [(?k, sample_job)]\<rparr>"
  have "ostep sample_config sha decode (world_start 1) ?p"
    using ostep.prepare_ok [of sample_config decode 0 0 "[]" sample_submission "world_start 1" "(?k, sample_job)" sample_service sha] sample_prepare
    by (simp add: world_start_def service_new_def new_inner_def ID_MAX_def)
  moreover have "ostep sample_config sha decode ?p sample_world"
    using ostep.commit [of ?k sample_job ?p "Ok ()" sample_queued sample_config sha decode]
    by (simp add: commit_job_def sample_service_def sample_queued_def sample_world_def world_start_def service_new_def new_inner_def)
  ultimately show ?thesis by (blast intro: wreach.intros)
qed

lemma sample_world_job: "map_of (jobs (svc sample_world)) (idstr ''job'' 1) = Some sample_job"
  by (simp add: sample_world_def sample_queued_def)

definition sample_canceled :: World where
  "sample_canceled = sample_world\<lparr>svc := snd (cancel_job sample_config 0 [] (idstr ''job'' 1) sample_queued)\<rparr>"

lemma sample_canceled_reach: "wreach sample_config sha decode 1 sample_canceled"
proof (rule wreach.other [OF sample_world_reach])
  show "ostep sample_config sha decode sample_world sample_canceled"
    using ostep.cancel [of sample_config 0 "[]" "idstr ''job'' 1" sample_world "fst (cancel_job sample_config 0 [] (idstr ''job'' 1) sample_queued)"]
    by (simp add: sample_canceled_def sample_world_def)
qed

definition sample_done_job :: JobRecord where
  "sample_done_job = sample_job\<lparr>job_cancel := True, job_response := update_progress ((job_response sample_job)\<lparr>jr_status := ''canceled'',
     jr_finished_at := Some [], jr_files := map (\<lambda>f. f\<lparr>jfr_status := ''canceled''\<rparr>) (files_of sample_job)\<rparr>), job_files := [],
     job_expiry := Some 3600\<rparr>"

lemma sample_canceled_job: "map_of (jobs (svc sample_canceled)) (idstr ''job'' 1) = Some sample_done_job"
  by (simp add: sample_canceled_def sample_queued_def cancel_job_def set_job_def Let_def sample_done_job_def sample_config_def)
    (simp add: sample_job_def queued_response_def)

section \<open>What clients can rely on\<close>

text \<open>
  C1: In every state the service can reach, by any interleaving of requests, runner, cleanup and shutdown, every job
  record is consistent: the progress counters are the numbers of completed and failed files, a completed job has only
  completed files, a failed one only failed files and at least one, a partial one both kinds and nothing else, a
  terminal job has no file left queued or running, and a completed file lists one output for each requested format.
\<close>

theorem job_records_consistent:
  assumes "wreach cfg sha decode slots w" "map_of (jobs (svc w)) k = Some j"
  shows "jp_completed (jr_progress (job_response j)) = length (filter (\<lambda>f. jfr_status f = ''completed'') (jr_files (job_response j)))
    \<and> jp_failed (jr_progress (job_response j)) = length (filter (\<lambda>f. jfr_status f = ''failed'') (jr_files (job_response j)))
    \<and> jp_total (jr_progress (job_response j)) = length (jr_files (job_response j))
    \<and> (jr_status (job_response j) = ''completed'' \<longrightarrow> (\<forall>f \<in> set (jr_files (job_response j)). jfr_status f = ''completed''))
    \<and> (jr_status (job_response j) = ''failed'' \<longrightarrow> jr_files (job_response j) \<noteq> [] \<and>
         (\<forall>f \<in> set (jr_files (job_response j)). jfr_status f = ''failed''))
    \<and> (jr_status (job_response j) = ''partial'' \<longrightarrow> (\<forall>f \<in> set (jr_files (job_response j)). jfr_status f \<in> {''completed'', ''failed''}) \<and>
         (\<exists>f \<in> set (jr_files (job_response j)). jfr_status f = ''completed'') \<and> (\<exists>f \<in> set (jr_files (job_response j)). jfr_status f = ''failed''))
    \<and> (jr_status (job_response j) \<notin> {''queued'', ''running''} \<longrightarrow>
         (\<forall>f \<in> set (jr_files (job_response j)). jfr_status f \<notin> {''queued'', ''running''}))
    \<and> (\<forall>f \<in> set (jr_files (job_response j)). jfr_status f = ''completed'' \<longrightarrow>
         (\<exists>refs. jfr_output_files f = Some refs \<and> map fst refs = map output_name (jr_output_formats (job_response j))))"
proof -
  have ok: "job_ok k j" using jobs_inv_job(1) [OF wreach_jobs_inv [OF assms(1)] assms(2)] .
  then have p: "progress_ok (job_response j)" and v: "verdict_ok j" and o: "outputs_ok (job_response j)"
    and st: "status_of j \<in> set JOB_STATUSES" by (simp_all add: job_ok_def)
  have f: "\<exists>f \<in> set (files_of j). jfr_status f = ''completed''" "\<exists>f \<in> set (files_of j). jfr_status f = ''failed''"
    if "status_of j = ''partial''" using v that by (auto simp: verdict_ok_def all_status_def)
  have "\<forall>f \<in> set (files_of j). jfr_status f \<notin> {''queued'', ''running''}" if "status_of j \<notin> {''queued'', ''running''}"
    using st v that by (auto simp: JOB_STATUSES_def verdict_ok_def all_status_def)
  then show ?thesis using p v o f by (simp add: progress_ok_def count_status_def verdict_ok_def outputs_ok_def published_def all_status_def)
qed

theorem job_records_consistent_witness:
  "jp_total (jr_progress (job_response sample_job)) = 1 \<and> jp_completed (jr_progress (job_response sample_job)) = 0"
  using job_records_consistent [OF sample_world_reach [where sha = "\<lambda>_. []" and decode = "\<lambda>_. None"] sample_world_job]
  by (simp add: sample_job_def queued_response_def queued_file_def)

text \<open>
  C9: Terminal records are immutable: once a job is completed, partial, failed or canceled, every later step of the
  service leaves its response as it is, or removes the record (expiry or shutdown).
\<close>

theorem terminal_jobs_immutable:
  assumes "wreach cfg sha decode slots w" "map_of (jobs (svc w)) k = Some j" "jr_status (job_response j) \<notin> {''queued'', ''running''}"
    "rstep cfg sha w w' \<or> ostep cfg sha decode w w'"
  shows "map_of (jobs (svc w')) k = Some j \<or> map_of (jobs (svc w')) k = None"
proof -
  note i = wreach_jobs_inv [OF assms(1)]
  have live: "\<not> live_status (status_of j)" using assms(3) by (simp add: live_status_def)
  from assms(4) show ?thesis
  proof
    assume "rstep cfg sha w w'"
    from terminal_rstep [OF this i assms(2) live] show ?thesis ..
  next
    assume "ostep cfg sha decode w w'"
    from terminal_ostep [OF this i assms(2) live] show ?thesis .
  qed
qed

theorem terminal_jobs_immutable_witness:
  "map_of (jobs (svc (sample_canceled\<lparr>svc := stop_flags (svc sample_canceled)\<rparr>))) (idstr ''job'' 1) = Some sample_done_job"
proof -
  let ?w = "sample_canceled\<lparr>svc := stop_flags (svc sample_canceled)\<rparr>"
  have st: "ostep sample_config (\<lambda>_. []) (\<lambda>_. None) sample_canceled ?w" by (rule ostep.stopping)
  have "jr_status (job_response sample_done_job) \<notin> {''queued'', ''running''}" by (simp add: sample_done_job_def)
  from terminal_jobs_immutable [OF sample_canceled_reach sample_canceled_job this disjI2 [OF st]] show ?thesis
    using sample_canceled_job by (simp add: stop_flags_def)
qed

section \<open>Termination of the runner\<close>

fun weight :: "phase \<Rightarrow> nat" where
  "weight PHead = 8"
| "weight PPermit = 7"
| "weight PParse = 6"
| "weight (PName _) = 5"
| "weight (PPublish _ _ _ _) = 4"
| "weight PPubFailed = 3"
| "weight (PMark _ _ _) = 2"
| "weight PFinal = 1"

definition run_left :: "Run option \<Rightarrow> nat" where
  "run_left x = (case x of None \<Rightarrow> 0 | Some r \<Rightarrow> (if run_phase r = PFinal then 0 else 8 * (length (run_files r) - run_index r)) + weight (run_phase r))"

definition runner_order :: "World rel" where
  "runner_order = inv_image (less_than <*lex*> less_than) (\<lambda>w. (length (queue (svc w)), run_left (runner w)))"

lemma wf_runner_order: "wf runner_order"
  by (simp add: runner_order_def wf_lex_prod)

lemma run_steps_left:
  "run_phase r = PHead \<Longrightarrow> run_head r v = (r', v') \<Longrightarrow> run_left (Some r') < run_left (Some r) \<and> queue v' = queue v"
  "run_phase r = PPermit \<Longrightarrow> run_left (Some (run_permit p r v)) < run_left (Some r)"
  "run_phase r = PParse \<Longrightarrow> run_left (Some (run_parse outcome r v)) < run_left (Some r)"
  "run_phase r = PName pages \<Longrightarrow> run_name cfg sha render now pages r v = (r', v') \<Longrightarrow> run_left (Some r') < run_left (Some r) \<and> queue v' = queue v"
  "run_phase r = PPublish artifacts refs pages tot \<Longrightarrow> run_publish artifacts refs pages tot r v = (r', v') \<Longrightarrow>
     run_left (Some r') < run_left (Some r) \<and> queue v' = queue v"
  "run_phase r = PPubFailed \<Longrightarrow> run_left (Some (run_pubfailed r v)) < run_left (Some r)"
  "run_phase r = PMark st message brk \<Longrightarrow> run_mark st message brk r v = (r', v') \<Longrightarrow> run_index r < length (run_files r) \<Longrightarrow>
     run_left (Some r') < run_left (Some r) \<and> queue v' = queue v"
  by (auto simp: run_left_def run_head_def run_permit_def run_parse_def run_name_def run_publish_def publish_locked_def run_pubfailed_def
      run_mark_def fail_file_def set_job_def Let_def split: if_splits option.splits permit.splits prod.splits result.splits)

lemma rstep_decreases:
  assumes "rstep cfg sha w w'" "jobs_inv w"
  shows "(w', w) \<in> runner_order"
  using assms(1)
proof cases
  case (pop k q stamp x v)
  then have "queue v = q" by (auto simp: start_job_def set_job_def split: option.splits if_splits)
  then show ?thesis using pop by (simp add: runner_order_def)
next
  case (mark r st message brk r' v)
  have "run_index r < length (run_files r)" using jobs_inv_run [OF assms(2) mark(2)] mark(3) by (auto simp: run_ok_def)
  then show ?thesis using mark run_steps_left(7) [OF mark(3,4)] by (simp add: runner_order_def)
next
  case (final r now stamp)
  then show ?thesis by (simp add: runner_order_def run_left_def run_final_def finalize_job_def set_job_def Let_def split: option.splits)
qed (use run_steps_left in \<open>auto simp: runner_order_def\<close>)

text \<open>
  C10: The runner never runs for ever: from a reachable state, with no new submissions, every sequence of its steps
  ends, whatever the parser, the renderer and the execution gate answer.
\<close>

theorem runner_terminates:
  assumes "wreach cfg sha decode slots w"
  shows "\<not> (\<exists>f. f 0 = w \<and> (\<forall>n. rstep cfg sha (f n) (f (Suc n))))"
proof
  assume "\<exists>f. f 0 = w \<and> (\<forall>n. rstep cfg sha (f n) (f (Suc n)))"
  then obtain f where f: "f 0 = w" "\<And>n. rstep cfg sha (f n) (f (Suc n))" by blast
  have "jobs_inv (f n)" for n
  proof (induction n)
    case 0
    then show ?case using f(1) wreach_jobs_inv [OF assms] by simp
  next
    case (Suc n)
    then show ?case by (rule rstep_jobs_inv [OF f(2)])
  qed
  then have "(f (Suc n), f n) \<in> runner_order" for n using rstep_decreases f(2) by blast
  then show False using wf_runner_order unfolding wf_iff_no_infinite_down_chain by blast
qed

text \<open>While stopping, a runner that is not idle can move, even when no permit of the execution gate is ever granted.\<close>

lemma rstep_enabled:
  assumes i: "jobs_inv w" and st: "stopping (svc w)" and busy: "runner w \<noteq> None \<or> queue (svc w) \<noteq> []"
    and n: "\<And>r p. runner w = Some r \<Longrightarrow> run_phase r = PName p \<Longrightarrow> ids (store (svc w)) + 4 \<le> ID_MAX"
  shows "\<exists>w'. rstep cfg sha w w'"
proof (cases "runner w")
  case None
  then obtain k q where "queue (svc w) = k # q" using busy by (cases "queue (svc w)") auto
  then show ?thesis using rstep.pop [OF None, of k q] by (metis surj_pair)
next
  case (Some r)
  show ?thesis
  proof (cases "run_phase r")
    case PHead
    then show ?thesis using rstep.head [OF Some] by (metis surj_pair)
  next
    case PPermit
    then show ?thesis using rstep.permit [OF Some, of NoPermit] st by (auto simp: canceled_def)
  next
    case PParse
    then show ?thesis using rstep.parse [OF Some] by blast
  next
    case (PName p)
    then show ?thesis using rstep.name [OF Some PName n [OF Some PName]] by (metis surj_pair)
  next
    case (PPublish a b c d)
    then show ?thesis using rstep.publish [OF Some] by (metis surj_pair)
  next
    case PPubFailed
    then show ?thesis using rstep.pubfailed [OF Some] by blast
  next
    case (PMark a b c)
    then show ?thesis using rstep.mark [OF Some] by (metis surj_pair)
  next
    case PFinal
    then show ?thesis using rstep.final [OF Some] by blast
  qed
qed

lemma run_stopping:
  assumes "stopping w"
  shows "run_head r w = (r', v) \<Longrightarrow> stopping v \<and> (\<forall>p. run_phase r' \<noteq> PName p)"
    "run_name cfg sha render now pages r w = (r', v) \<Longrightarrow> stopping v \<and> (\<forall>p. run_phase r' \<noteq> PName p)"
    "run_publish artifacts refs pages tot r w = (r', v) \<Longrightarrow> stopping v \<and> (\<forall>p. run_phase r' \<noteq> PName p)"
    "run_mark st message brk r w = (r', v) \<Longrightarrow> stopping v \<and> (\<forall>p. run_phase r' \<noteq> PName p)"
    "stopping (run_final cfg now stamp r w)" "run_phase (run_permit pm r w) \<noteq> PName p" "run_phase (run_parse oc r w) \<noteq> PName p"
    "run_phase (run_pubfailed r w) \<noteq> PName p"
  using assms
  by (auto simp: run_head_def run_name_def run_publish_def publish_locked_def run_mark_def run_final_def run_permit_def run_parse_def
      run_pubfailed_def fail_file_def canceled_def finalize_job_def set_job_def Let_def
      split: if_splits option.splits prod.splits result.splits permit.splits)

lemma rstep_stopping:
  assumes "rstep cfg sha w w'" "stopping (svc w)"
  shows "stopping (svc w') \<and> (\<forall>r p. runner w' = Some r \<longrightarrow> run_phase r \<noteq> PName p)"
  using assms(1)
proof cases
  case (pop k q stamp x v)
  then show ?thesis using assms(2) by (auto simp: start_job_def set_job_def split: option.splits if_splits)
qed (use assms(2) run_stopping [OF assms(2)] in auto)

lemma drains:
  assumes "jobs_inv w" "stopping (svc w)" "\<And>r p. runner w = Some r \<Longrightarrow> run_phase r = PName p \<Longrightarrow> ids (store (svc w)) + 4 \<le> ID_MAX"
  shows "\<exists>w'. (rstep cfg sha)\<^sup>*\<^sup>* w w' \<and> jobs_inv w' \<and> runner w' = None \<and> queue (svc w') = []"
  using assms
proof (induction w rule: wf_induct_rule [OF wf_runner_order])
  case (1 w)
  show ?case
  proof (cases "runner w = None \<and> queue (svc w) = []")
    case True
    then show ?thesis using "1.prems" by blast
  next
    case False
    have "\<exists>w1. rstep cfg sha w w1" by (rule rstep_enabled [OF "1.prems"(1,2)]) (use False "1.prems"(3) in auto)
    then obtain w1 where st: "rstep cfg sha w w1" by blast
    note stp = rstep_stopping [OF st "1.prems"(2)]
    obtain w' where "(rstep cfg sha)\<^sup>*\<^sup>* w1 w'" "jobs_inv w'" "runner w' = None" "queue (svc w') = []"
      using "1.IH" [OF rstep_decreases [OF st "1.prems"(1)] rstep_jobs_inv [OF st "1.prems"(1)]] stp by blast
    then show ?thesis using converse_rtranclp_into_rtranclp [of "rstep cfg sha", OF st] by blast
  qed
qed

text \<open>
  C2: Shutdown drains. From any reachable state in which the service is stopping (and the 64-bit identifier counter
  is not about to wrap), the runner's own steps lead to a state with no run and an empty queue, and in it every job
  is terminal: no job is left queued or running when \<open>shutdown\<close> has awaited the runner.
\<close>

theorem shutdown_drains:
  assumes "wreach cfg sha decode slots w" "stopping (svc w)" "ids (store (svc w)) + 4 \<le> ID_MAX"
  shows "\<exists>w'. (rstep cfg sha)\<^sup>*\<^sup>* w w' \<and> runner w' = None \<and> queue (svc w') = [] \<and>
    (\<forall>k j. map_of (jobs (svc w')) k = Some j \<longrightarrow> jr_status (job_response j) \<notin> {''queued'', ''running''})"
proof -
  obtain w' where w': "(rstep cfg sha)\<^sup>*\<^sup>* w w'" "jobs_inv w'" "runner w' = None" "queue (svc w') = []"
    using drains [OF wreach_jobs_inv [OF assms(1)] assms(2)] assms(3) by blast
  have "jr_status (job_response j) \<notin> {''queued'', ''running''}" if "map_of (jobs (svc w')) k = Some j" for k j
    using jobs_inv_job(3,4) [OF w'(2) that] w'(3,4) by auto
  then show ?thesis using w' by blast
qed

theorem runner_terminates_witness:
  "queue (svc sample_world) = [idstr ''job'' 1] \<and> \<not> (\<exists>f. f 0 = sample_world \<and> (\<forall>n. rstep sample_config (\<lambda>_. []) (f n) (f (Suc n))))"
  using runner_terminates [OF sample_world_reach [where decode = "\<lambda>_. None"]] by (simp add: sample_world_def sample_queued_def)

definition sample_stopping :: World where
  "sample_stopping = sample_world\<lparr>svc := stop_flags (svc sample_world)\<rparr>"

theorem shutdown_drains_witness:
  "\<exists>w'. (rstep sample_config (\<lambda>_. []))\<^sup>*\<^sup>* sample_stopping w' \<and> runner w' = None \<and> queue (svc w') = [] \<and>
    (\<forall>k j. map_of (jobs (svc w')) k = Some j \<longrightarrow> jr_status (job_response j) \<notin> {''queued'', ''running''})"
  unfolding sample_stopping_def
  by (rule shutdown_drains [OF wreach.other [OF sample_world_reach [where decode = "\<lambda>_. None"] ostep.stopping]])
    (simp_all add: stop_flags_def stop_admissions_def sample_world_def sample_queued_def sample_service_def service_new_def new_inner_def ID_MAX_def)

end
