(* ===== verification/Task_Results.thy ===== *)
theory Task_Results
  imports Tasks Runner
begin

text \<open>
  The results of tasks (\<open>official_api/server/tasks/result.rs\<close>) and the task endpoints
  (\<open>official_api/server/tasks.rs\<close>): a finished task as JSON with its contents inlined, as the
  archive of its only file, or as one archive combined from the archives of its files. The JSON
  reader, the ZIP reader and writer and the check of header values are parameters. A value \<open>None\<close>
  stands for a panic (\<open>expect\<close>).
\<close>

definition invalid_response :: WireError where
  "invalid_response = \<lparr>we_status = 502, we_code = ''invalid_response'',
     we_message = ''The task artifacts are unavailable.'', we_param = None\<rparr>"

definition zip_not_requested :: WireError where
  "zip_not_requested = \<lparr>we_status = 400, we_code = ''unsupported_output_format'',
     we_message = ''Zip output was not requested for this task.'', we_param = None\<rparr>"

datatype Response =
    JsonResponse nat Value
  | ZipResponse ustr ustr ustr "byte list"

fun response_status :: "Response \<Rightarrow> nat" where
  "response_status (JsonResponse st _) = st"
| "response_status (ZipResponse _ _ _ _) = 200"

section \<open>Contents in JSON\<close>

definition artifact_bytes :: "Inner \<Rightarrow> ustr \<Rightarrow> byte list wired" where
  "artifact_bytes s file_id =
     (case map_of (entries s) file_id of Some (EFile f) \<Rightarrow> Ok (b_data (f_bytes f)) | _ \<Rightarrow> Err invalid_response)"

fun inline_content :: "(byte list \<Rightarrow> Value option) \<Rightarrow> Inner \<Rightarrow> (string \<times> OutputReference) list \<Rightarrow> OutputFormat list \<Rightarrow>
    (ustr \<times> Value) list \<Rightarrow> (ustr \<times> Value) list wired" where
  "inline_content from_slice s refs [] acc = Ok acc"
| "inline_content from_slice s refs (format # formats) acc =
     (if format = Zip then inline_content from_slice s refs formats acc
      else
        and_then (ok_or (map_of refs (output_name format)) invalid_response) (\<lambda>reference.
        and_then (artifact_bytes s (or_file_id reference)) (\<lambda>bytes.
        and_then (if format = Markdown then Ok (JString (utf8_lossy (map unat bytes)))
                  else ok_or (from_slice bytes) invalid_response) (\<lambda>v.
        inline_content from_slice s refs formats (map_insert (lit (output_name format)) v acc)))))"

fun inline_files :: "(byte list \<Rightarrow> Value option) \<Rightarrow> Inner \<Rightarrow> OutputFormat list \<Rightarrow> nat \<Rightarrow> JobFileResponse list \<Rightarrow>
    Value list \<Rightarrow> Value list wired option" where
  "inline_files from_slice s formats index [] files = Some (Ok files)"
| "inline_files from_slice s formats index (file # rest) files =
     (case (if index < length files then as_object (files ! index) else None) of
        None \<Rightarrow> None
      | Some entry \<Rightarrow>
          if jfr_status file \<noteq> ''completed''
          then inline_files from_slice s formats (index + 1) rest
                 (files[index := JObject (map_insert (lit ''content'') (jobject []) entry)])
          else
            (case jfr_output_files file of
               None \<Rightarrow> Some (Err invalid_response)
             | Some refs \<Rightarrow>
                 (case inline_content from_slice s refs formats [] of
                    Err e \<Rightarrow> Some (Err e)
                  | Ok acc \<Rightarrow>
                      inline_files from_slice s formats (index + 1) rest
                        (files[index := JObject (map_insert (lit ''content'') (JObject acc) entry)]))))"

definition json_result :: "(byte list \<Rightarrow> Value option) \<Rightarrow> Inner \<Rightarrow> JobResponse \<Rightarrow> Response wired option" where
  "json_result from_slice s payload =
     Option.bind (task_payload payload) (\<lambda>v.
     Option.bind (as_object v) (\<lambda>obj.
     Option.bind (Option.bind (map_of obj (lit ''files'')) as_array) (\<lambda>files.
     map_option (\<lambda>r. and_then r (\<lambda>files'.
         Ok (JsonResponse 200 (JObject (map_insert (lit ''files'') (JArray files') obj)))))
       (inline_files from_slice s (jr_output_formats payload) 0 (jr_files payload) files))))"

section \<open>Combined archives\<close>

text \<open>
  A member as the ZIP reader presents it: the declared size, the name (\<open>None\<close> when it cannot be
  decoded) and the bytes of reading at most so many (\<open>None\<close> when reading fails). An archive is the
  list of its members, each \<open>None\<close> when it cannot be opened.
\<close>

record ZipFile =
  zf_size :: nat
  zf_name :: "ustr option"
  zf_read :: "nat \<Rightarrow> byte list option"

type_synonym zip_open = "byte list \<Rightarrow> ZipFile option list option"

fun scan_members :: "nat \<Rightarrow> nat \<Rightarrow> nat \<Rightarrow> ZipFile option list \<Rightarrow> nat \<Rightarrow> nat wired" where
  "scan_members c max_entries n [] expanded = Ok expanded"
| "scan_members c max_entries n (m # ms) expanded =
     and_then (ok_or m invalid_response) (\<lambda>file.
     and_then (ok_or (cadd expanded (zf_size file)) invalid_response) (\<lambda>expanded.
     if c < expanded \<or> max_entries < n then Err invalid_response
     else scan_members c max_entries n ms expanded))"

fun scan_sources :: "zip_open \<Rightarrow> nat \<Rightarrow> nat \<Rightarrow> (nat \<times> byte list) list \<Rightarrow> nat \<Rightarrow> nat \<Rightarrow> (nat \<times> nat) wired" where
  "scan_sources open_zip c max_entries [] n expanded = Ok (n, expanded)"
| "scan_sources open_zip c max_entries ((_, source) # sources) n expanded =
     and_then (ok_or (open_zip source) invalid_response) (\<lambda>ms.
     and_then (ok_or (cadd n (length ms)) invalid_response) (\<lambda>n.
     and_then (scan_members c max_entries n ms expanded) (\<lambda>expanded.
     scan_sources open_zip c max_entries sources n expanded)))"

text \<open>The format \<open>{:04}/\<close>\<close>

definition index_prefix :: "nat \<Rightarrow> ustr" where
  "index_prefix index = replicate (4 - length (show_nat (index + 1))) 48 @ show_nat (index + 1) @ [47]"

definition unsafe_name :: "ustr \<Rightarrow> bool" where
  "unsafe_name name \<longleftrightarrow> prefix [47] name \<or> 92 \<in> set name \<or> contains [46, 46] name"

fun copy_members :: "nat \<Rightarrow> ustr \<Rightarrow> ZipFile option list \<Rightarrow> nat \<Rightarrow> (ustr \<times> byte list) list \<Rightarrow>
    (nat \<times> (ustr \<times> byte list) list) wired" where
  "copy_members c pre [] copied out = Ok (copied, out)"
| "copy_members c pre (m # ms) copied out =
     and_then (ok_or m invalid_response) (\<lambda>entry.
     and_then (ok_or (zf_name entry) invalid_response) (\<lambda>name.
     and_then (ensure (\<not> unsafe_name name) invalid_response) (\<lambda>_.
     and_then (ok_or (zf_read entry (sat_add (zf_size entry) 1)) invalid_response) (\<lambda>data.
     and_then (ensure (length data = zf_size entry) invalid_response) (\<lambda>_.
     and_then (ok_or (cadd copied (length data)) invalid_response) (\<lambda>copied.
     and_then (ensure (copied \<le> c) invalid_response) (\<lambda>_.
     copy_members c pre ms copied (out @ [(pre @ name, data)]))))))))"

fun copy_sources :: "zip_open \<Rightarrow> nat \<Rightarrow> (nat \<times> byte list) list \<Rightarrow> nat \<Rightarrow> (ustr \<times> byte list) list \<Rightarrow>
    (ustr \<times> byte list) list wired" where
  "copy_sources open_zip c [] copied out = Ok out"
| "copy_sources open_zip c ((index, source) # sources) copied out =
     and_then (ok_or (open_zip source) invalid_response) (\<lambda>ms.
     and_then (copy_members c (index_prefix index) ms copied out) (\<lambda>(copied, out).
     copy_sources open_zip c sources copied out))"

text \<open>
  The writer's operations on its sink are those for the members in order, as in the rendering of
  artifacts; every failure, of the reader, of the writer or of a check, has the same answer.
\<close>

definition combine_zips :: "zip_open \<Rightarrow> ((ustr \<times> byte list) list \<Rightarrow> sink_op list option) \<Rightarrow> JobResponse \<Rightarrow>
    (nat \<times> byte list) list \<Rightarrow> nat \<Rightarrow> nat \<Rightarrow> byte list wired option" where
  "combine_zips open_zip zip_ops payload sources c max_entries =
     map_option (\<lambda>v.
       let manifest = text_bytes (to_text v) in
       and_then (scan_sources open_zip c max_entries sources 1 (length manifest)) (\<lambda>(n, expanded).
       and_then (ensure (\<not> (c < expanded \<or> max_entries < n)) invalid_response) (\<lambda>_.
       and_then (copy_sources open_zip c sources (length manifest) [(lit ''manifest.json'', manifest)]) (\<lambda>members.
       and_then (ok_or (zip_ops members) invalid_response) (\<lambda>ops.
       and_then (ok_or (run_ops (sink_step cursor_write cursor_seek) ops (cursor_new c)) invalid_response) (\<lambda>out.
       Ok (bc_data out))))))) (task_payload payload)"

section \<open>Serving a result\<close>

fun zip_sources :: "Inner \<Rightarrow> nat \<Rightarrow> JobFileResponse list \<Rightarrow> (nat \<times> byte list) list wired" where
  "zip_sources s index [] = Ok []"
| "zip_sources s index (file # files) =
     (if jfr_status file \<noteq> ''completed'' then zip_sources s (index + 1) files
      else
        and_then (ok_or (Option.bind (jfr_output_files file) (\<lambda>refs. map_of refs ''zip'')) invalid_response) (\<lambda>reference.
        and_then (artifact_bytes s (or_file_id reference)) (\<lambda>bytes.
        and_then (zip_sources s (index + 1) files) (\<lambda>rest. Ok ((index, bytes) # rest)))))"

definition zip_http :: "(ustr \<Rightarrow> bool) \<Rightarrow> ustr \<Rightarrow> string \<Rightarrow> byte list \<Rightarrow> Response wired" where
  "zip_http header_ok k st bytes =
     (let disposition = lit ''attachment; filename='' @ [34] @ k @ lit ''.zip'' @ [34] in
      if \<not> header_ok disposition \<or> \<not> header_ok k \<or> \<not> header_ok (lit st) then Err internal
      else Ok (ZipResponse disposition k (lit st) bytes))"

record ResultEnv =
  re_from_slice :: "byte list \<Rightarrow> Value option"
  re_open :: zip_open
  re_zip_ops :: "(ustr \<times> byte list) list \<Rightarrow> sink_op list option"
  re_header_ok :: "ustr \<Rightarrow> bool"

definition zip_response :: "StoreConfig \<Rightarrow> ResultEnv \<Rightarrow> Inner \<Rightarrow> ustr \<Rightarrow> JobResponse \<Rightarrow> Response wired option" where
  "zip_response cfg env s k payload =
     (if Zip \<notin> set (jr_output_formats payload) then Some (Err zip_not_requested)
      else
        (case zip_sources s 0 (jr_files payload) of
           Err e \<Rightarrow> Some (Err e)
         | Ok sources \<Rightarrow>
             map_option (\<lambda>r. and_then r (zip_http (re_header_ok env) k (jr_status payload)))
               (if length (jr_files payload) = 1
                then (case sources of [] \<Rightarrow> None | (_, bytes) # _ \<Rightarrow> Some (Ok bytes))
                else combine_zips (re_open env) (re_zip_ops env) payload sources (zip_cap cfg) 100000)))"

definition payload_response :: "nat \<Rightarrow> JobResponse \<Rightarrow> Response wired option" where
  "payload_response st payload = map_option (\<lambda>v. Ok (JsonResponse st v)) (task_payload payload)"

definition is_terminal :: "string \<Rightarrow> bool" where
  "is_terminal st \<longleftrightarrow> st \<in> {''completed'', ''partial'', ''failed'', ''canceled''}"

definition serve_result :: "StoreConfig \<Rightarrow> ResultEnv \<Rightarrow> ustr \<Rightarrow> string option \<Rightarrow> ServiceInner \<Rightarrow> Response wired option" where
  "serve_result cfg env k format w =
     (case map_of (jobs w) k of
        None \<Rightarrow> Some (Err not_found)
      | Some j \<Rightarrow>
          (let payload = job_response j in
           if \<not> is_terminal (jr_status payload) then payload_response 202 payload
           else if jr_status payload \<in> {''failed'', ''canceled''} then payload_response 409 payload
           else if format = Some ''zip'' then zip_response cfg env (store w) k payload
           else json_result (re_from_slice env) (store w) payload))"

section \<open>Endpoints\<close>

text \<open>
  Each handler takes the states it reads at its successive critical sections. \<open>free\<close> tells whether
  a request slot is free, \<open>received\<close> is the request, or \<open>None\<close> when its body does not arrive in time.
\<close>

definition ingest_exhausted :: WireError where
  "ingest_exhausted = \<lparr>we_status = 429, we_code = ''capacity_exceeded'',
     we_message = ''Request body capacity is exhausted.'', we_param = None\<rparr>"

definition ingest_timeout :: WireError where
  "ingest_timeout = \<lparr>we_status = 408, we_code = ''body_timeout'',
     we_message = ''Request body was not received before the deadline.'', we_param = None\<rparr>"

definition ingest_permit :: "bool \<Rightarrow> unit wired" where
  "ingest_permit free = ensure free ingest_exhausted"

definition submit_task :: "StoreConfig \<Rightarrow> (ustr \<Rightarrow> byte list option) \<Rightarrow> int \<Rightarrow> int \<Rightarrow> ustr \<Rightarrow> submission \<Rightarrow> ServiceInner \<Rightarrow>
    Response wired option \<times> ServiceInner" where
  "submit_task cfg decode now now' stamp sub w =
     (if stopping w then (Some (Err shutting_down), w)
      else case prepare_job cfg decode now now' stamp sub w of
        (Err e, w) \<Rightarrow> (Some (Err e), w)
      | (Ok (_, job), w) \<Rightarrow> (payload_response 202 job, w))"

definition create_task :: "StoreConfig \<Rightarrow> (byte list \<Rightarrow> ustr) \<Rightarrow> (byte list \<Rightarrow> JobCreate option) \<Rightarrow> (ustr \<Rightarrow> byte list option) \<Rightarrow>
    int \<Rightarrow> int \<Rightarrow> ustr \<Rightarrow> bool \<Rightarrow> Request option \<Rightarrow> bool \<Rightarrow> ServiceInner \<Rightarrow> Response wired option \<times> ServiceInner" where
  "create_task cfg sha json_create decode now now' stamp free received stopping_at_start w =
     (case and_then (ensure (\<not> stopping_at_start) shutting_down) (\<lambda>_.
           and_then (ingest_permit free) (\<lambda>_.
           and_then (ok_or received ingest_timeout) (submission_from_request cfg sha json_create))) of
        Err e \<Rightarrow> (Some (Err e), w)
      | Ok sub \<Rightarrow> submit_task cfg decode now now' stamp sub w)"

definition task_status :: "ustr \<Rightarrow> ServiceInner \<Rightarrow> Response wired option" where
  "task_status k w = (case get_job k w of Err e \<Rightarrow> Some (Err e) | Ok payload \<Rightarrow> payload_response 200 payload)"

text \<open>\<open>steps\<close> is what happens between the cancellation and the answer.\<close>

definition cancel_task :: "StoreConfig \<Rightarrow> int \<Rightarrow> ustr \<Rightarrow> ustr \<Rightarrow> (ServiceInner \<Rightarrow> ServiceInner) \<Rightarrow> ServiceInner \<Rightarrow>
    Response wired option \<times> ServiceInner" where
  "cancel_task cfg now stamp k steps w =
     (case cancel_job cfg now stamp k w of
        (Err e, w) \<Rightarrow> (Some (Err e), w)
      | (Ok _, w) \<Rightarrow> (let w = steps w in (task_status k w, w)))"

definition task_result :: "StoreConfig \<Rightarrow> ResultEnv \<Rightarrow> ustr \<Rightarrow> ustr option \<Rightarrow> ServiceInner \<Rightarrow> Response wired option" where
  "task_result cfg env k query w =
     (case and_then (parse_query query) (\<lambda>q. parse_response_format (iq_response_format q)) of
        Err e \<Rightarrow> Some (Err e)
      | Ok format \<Rightarrow> serve_result cfg env k (Some format) w)"

text \<open>
  \<open>file_parse\<close>: the submission, the wait on the successive states it observes every 50 ms, and the
  answer.
\<close>

definition file_parse_options :: "ustr option \<Rightarrow> nat option \<Rightarrow> (nat \<times> string) wired" where
  "file_parse_options response_format wait_timeout =
     (let timeout = (case wait_timeout of None \<Rightarrow> 300 | Some t \<Rightarrow> t) in
      and_then (ensure (1 \<le> timeout \<and> timeout \<le> 3600)
                  (bad ''wait_timeout'' ''wait_timeout must be between 1 and 3600 seconds.'')) (\<lambda>_.
      and_then (parse_response_format response_format) (\<lambda>format. Ok (timeout, format))))"

definition with_zip :: "string \<Rightarrow> submission \<Rightarrow> submission" where
  "with_zip format sub =
     (if format = ''zip'' \<and> Zip \<notin> set (sub_output_formats sub)
      then sub\<lparr>sub_output_formats := sub_output_formats sub @ [Zip]\<rparr> else sub)"

definition file_parse_submit :: "StoreConfig \<Rightarrow> (byte list \<Rightarrow> ustr) \<Rightarrow> (byte list \<Rightarrow> JobCreate option) \<Rightarrow> (ustr \<Rightarrow> byte list option) \<Rightarrow>
    int \<Rightarrow> int \<Rightarrow> ustr \<Rightarrow> bool \<Rightarrow> Request option \<Rightarrow> ustr option \<Rightarrow> nat option \<Rightarrow> bool \<Rightarrow> ServiceInner \<Rightarrow>
    (ustr \<times> nat \<times> string) wired \<times> ServiceInner" where
  "file_parse_submit cfg sha json_create decode now now' stamp free received response_format wait_timeout stopping_at_start w =
     (case and_then (ensure (\<not> stopping_at_start) shutting_down) (\<lambda>_.
           and_then (file_parse_options response_format wait_timeout) (\<lambda>(timeout, format).
           and_then (ingest_permit free) (\<lambda>_.
           and_then (ok_or received ingest_timeout) (\<lambda>rq.
           and_then (submission_from_request cfg sha json_create rq) (\<lambda>sub. Ok (timeout, format, sub)))))) of
        Err e \<Rightarrow> (Err e, w)
      | Ok (timeout, format, sub) \<Rightarrow>
          (case prepare_job cfg decode now now' stamp (with_zip format sub) w of
             (Err e, w) \<Rightarrow> (Err e, w)
           | (Ok (_, job), w) \<Rightarrow> (Ok (jr_job_id job, timeout, format), w)))"

fun wait_for_terminal :: "ustr \<Rightarrow> int \<Rightarrow> (int \<times> ServiceInner) list \<Rightarrow> (int \<times> ServiceInner) option" where
  "wait_for_terminal k deadline [] = None"
| "wait_for_terminal k deadline ((t, w) # polls) =
     (case map_of (jobs w) k of
        None \<Rightarrow> Some (t, w)
      | Some j \<Rightarrow>
          if is_terminal (jr_status (job_response j)) \<or> deadline \<le> t then Some (t, w)
          else wait_for_terminal k deadline polls)"

definition file_parse_reply :: "StoreConfig \<Rightarrow> ResultEnv \<Rightarrow> ustr \<Rightarrow> string \<Rightarrow> ServiceInner \<Rightarrow> ServiceInner \<Rightarrow> Response wired option" where
  "file_parse_reply cfg env k format w w' =
     (case serve_result cfg env k (Some format) w of
        None \<Rightarrow> None
      | Some (Err e) \<Rightarrow> Some (Err e)
      | Some (Ok response) \<Rightarrow>
          if response_status response \<noteq> 202 then Some (Ok response)
          else (case get_job k w' of Err e \<Rightarrow> Some (Err e) | Ok payload \<Rightarrow> payload_response 202 payload))"

section \<open>No panics\<close>

lemma map_remove_Cons [simp]: "map_remove k ((k', v) # m) = (if k' = k then map_remove k m else (k', v) # map_remove k m)"
  by (simp add: map_remove_def)

lemma task_payload_files:
  "\<exists>m. task_payload r = Some (JObject m) \<and> map_of m (lit ''files'') = Some (JArray (map file_value (jr_files r)))"
  unfolding task_payload_def job_value_def jobject_def by (simp add: Let_def)

lemma file_value_object: "\<exists>m. file_value f = JObject m"
  by (simp add: file_value_def jobject_def)

lemma task_payload_Some: "task_payload r \<noteq> None"
  using task_payload_files [of r] by auto

lemma inline_files_no_panic:
  "index + length fs \<le> length files \<Longrightarrow> (\<And>i. i < length files \<Longrightarrow> as_object (files ! i) \<noteq> None) \<Longrightarrow>
   inline_files from_slice s formats index fs files \<noteq> None"
proof (induction fs arbitrary: index files)
  case (Cons f fs)
  then obtain entry where e: "as_object (files ! index) = Some entry" "index < length files" by force
  have upd: "as_object (files[index := JObject m] ! i) \<noteq> None" if "i < length (files[index := JObject m])" for m i
    using that Cons.prems(2) [of i] by (cases "i = index") auto
  have "inline_files from_slice s formats (index + 1) fs (files[index := JObject m]) \<noteq> None" for m
    using Cons.prems(1) upd by (intro Cons.IH) auto
  then show ?case using e by (simp split: option.split result.split)
qed simp

lemma json_result_no_panic: "json_result from_slice s payload \<noteq> None"
proof -
  obtain m where m: "task_payload payload = Some (JObject m)"
      "map_of m (lit ''files'') = Some (JArray (map file_value (jr_files payload)))"
    using task_payload_files by blast
  have "as_object (map file_value (jr_files payload) ! i) \<noteq> None" if "i < length (map file_value (jr_files payload))" for i
    using that file_value_object [of "jr_files payload ! i"] by auto
  from inline_files_no_panic [where index = 0, OF _ this, of "jr_files payload"] show ?thesis
    using m by (simp add: json_result_def)
qed

lemma zip_sources_completed:
  assumes "zip_sources s index [f] = Ok sources" "jfr_status f = ''completed''"
  shows "sources \<noteq> []"
  using assms by (auto simp: result_simps)

text \<open>A job with one file that is completed or partial has a completed file.\<close>

lemma single_file_completed:
  assumes "job_ok k j" "status_of j \<in> {''completed'', ''partial''}" "files_of j = [f]"
  shows "jfr_status f = ''completed''"
  using assms by (auto simp: job_ok_def verdict_ok_def all_status_def)

lemma zip_response_no_panic:
  assumes "job_ok k j" "status_of j \<in> {''completed'', ''partial''}"
  shows "zip_response cfg env s k (job_response j) \<noteq> None"
proof (cases "zip_sources s 0 (files_of j)")
  case (Ok sources)
  have "sources \<noteq> []" if "length (files_of j) = 1"
  proof -
    obtain f where f: "files_of j = [f]" using \<open>length (files_of j) = 1\<close> by (auto simp: length_Suc_conv)
    show ?thesis using zip_sources_completed [of s 0 f] Ok single_file_completed [OF assms f] f by auto
  qed
  then show ?thesis using Ok task_payload_Some [of "job_response j"]
    by (auto simp: zip_response_def combine_zips_def split: list.split)
qed (simp add: zip_response_def)

text \<open>Every failure of the archives is the same error.\<close>

lemma artifact_bytes_Err: "artifact_bytes s i = Err e \<Longrightarrow> e = invalid_response"
  by (auto simp: artifact_bytes_def split: option.splits Entry.splits)

lemma zip_sources_Err: "zip_sources s index fs = Err e \<Longrightarrow> e = invalid_response"
  by (induction fs arbitrary: index) (auto simp: and_then_Err_iff ok_or_Err_iff dest: artifact_bytes_Err split: if_splits)

lemma scan_members_Err: "scan_members c n x ms e0 = Err e \<Longrightarrow> e = invalid_response"
  by (induction ms arbitrary: e0) (auto simp: and_then_Err_iff ok_or_Err_iff split: if_splits)

lemma scan_sources_Err: "scan_sources open_zip c n srcs x e0 = Err e \<Longrightarrow> e = invalid_response"
  by (induction srcs arbitrary: x e0) (auto simp: and_then_Err_iff ok_or_Err_iff dest: scan_members_Err)

lemma copy_members_Err: "copy_members c pre ms cp out = Err e \<Longrightarrow> e = invalid_response"
  by (induction ms arbitrary: cp out) (auto simp: and_then_Err_iff ok_or_Err_iff ensure_Err_iff)

lemma copy_sources_Err: "copy_sources open_zip c srcs cp out = Err e \<Longrightarrow> e = invalid_response"
  by (induction srcs arbitrary: cp out) (auto simp: and_then_Err_iff ok_or_Err_iff dest: copy_members_Err)

lemma combine_zips_Err: "combine_zips open_zip zip_ops payload srcs c n = Some (Err e) \<Longrightarrow> e = invalid_response"
  by (auto simp: combine_zips_def Let_def and_then_Err_iff ok_or_Err_iff ensure_Err_iff
      dest: scan_sources_Err copy_sources_Err)

lemma zip_http_outcome:
  assumes "\<And>e. x = Err e \<Longrightarrow> e = invalid_response"
  shows "case and_then x (zip_http header_ok k st) of Ok response \<Rightarrow> response_status response = 200
    | Err e \<Rightarrow> e \<in> {invalid_response, zip_not_requested, internal}"
  using assms by (cases x) (auto simp: zip_http_def Let_def)

lemma zip_response_outcome:
  assumes "zip_response cfg env s k payload = Some r"
  shows "case r of Ok response \<Rightarrow> response_status response = 200
    | Err e \<Rightarrow> e \<in> {invalid_response, zip_not_requested, internal}"
proof (cases "Zip \<in> set (jr_output_formats payload)")
  case req: True
  show ?thesis
  proof (cases "zip_sources s 0 (jr_files payload)")
    case (Ok sources)
    obtain x where x: "(if length (jr_files payload) = 1
        then (case sources of [] \<Rightarrow> None | (_, bytes) # _ \<Rightarrow> Some (Ok bytes))
        else combine_zips (re_open env) (re_zip_ops env) payload sources (zip_cap cfg) 100000) = Some x"
      and r: "r = and_then x (zip_http (re_header_ok env) k (jr_status payload))"
      using assms req Ok by (auto simp: zip_response_def simp del: One_nat_def)
    have "e = invalid_response" if "x = Err e" for e
      using x that combine_zips_Err by (auto split: if_splits list.splits)
    then show ?thesis unfolding r by (rule zip_http_outcome)
  next
    case (Err e)
    then show ?thesis using assms req by (auto simp: zip_response_def dest: zip_sources_Err)
  qed
next
  case False
  then show ?thesis using assms by (auto simp: zip_response_def)
qed

text \<open>The outputs a JSON answer reads are in the store, and the JSON documents parse.\<close>

definition outputs_stored :: "(byte list \<Rightarrow> Value option) \<Rightarrow> Inner \<Rightarrow> JobResponse \<Rightarrow> bool" where
  "outputs_stored from_slice s payload \<longleftrightarrow>
     (\<forall>f \<in> set (jr_files payload). jfr_status f = ''completed'' \<longrightarrow>
        (\<forall>refs. jfr_output_files f = Some refs \<longrightarrow>
           (\<forall>(name, reference) \<in> set refs. \<exists>bytes. artifact_bytes s (or_file_id reference) = Ok bytes \<and>
              (name \<in> {''middle_json'', ''structured_content''} \<longrightarrow> from_slice bytes \<noteq> None))))"

lemma inline_content_ok:
  assumes "set (map output_name formats) \<subseteq> set (map fst refs)"
    and "\<forall>(name, reference) \<in> set refs. \<exists>bytes. artifact_bytes s (or_file_id reference) = Ok bytes \<and>
              (name \<in> {''middle_json'', ''structured_content''} \<longrightarrow> from_slice bytes \<noteq> None)"
  shows "is_ok (inline_content from_slice s refs formats acc)"
  using assms(1)
proof (induction formats arbitrary: acc)
  case (Cons format formats)
  then obtain reference where r: "map_of refs (output_name format) = Some reference"
    by (cases "map_of refs (output_name format)") (auto simp: map_of_eq_None_iff)
  then obtain bytes where b: "artifact_bytes s (or_file_id reference) = Ok bytes"
      "output_name format \<in> {''middle_json'', ''structured_content''} \<longrightarrow> from_slice bytes \<noteq> None"
    using assms(2) map_of_SomeD [OF r] by blast
  show ?case using Cons r b by (cases format) auto
qed simp

lemma inline_files_ok:
  assumes "\<forall>f \<in> set fs. jfr_status f = ''completed'' \<longrightarrow>
      (\<exists>refs. jfr_output_files f = Some refs \<and> is_ok (inline_content from_slice s refs formats []))"
    and "inline_files from_slice s formats index fs files = Some r"
  shows "is_ok r"
  using assms
proof (induction fs arbitrary: index files)
  case (Cons f fs)
  then show ?case by (auto simp: is_ok_iff split: option.splits if_splits result.splits)
qed auto

lemma json_result_ok:
  assumes "outputs_ok payload" "outputs_stored from_slice s payload"
  shows "\<exists>v. json_result from_slice s payload = Some (Ok (JsonResponse 200 v))"
proof -
  have "is_ok (inline_content from_slice s refs (jr_output_formats payload) [])"
    if "f \<in> set (jr_files payload)" "jfr_status f = ''completed''" "jfr_output_files f = Some refs" for f refs
  proof (rule inline_content_ok)
    have "published (jr_output_formats payload) f" using assms(1) that by (simp add: outputs_ok_def)
    then show "set (map output_name (jr_output_formats payload)) \<subseteq> set (map fst refs)"
      using that by (auto simp: published_def)
  qed (use assms(2) that in \<open>simp add: outputs_stored_def\<close>)
  moreover have "\<exists>refs. jfr_output_files f = Some refs" if "f \<in> set (jr_files payload)" "jfr_status f = ''completed''" for f
    using assms(1) that by (auto simp: outputs_ok_def published_def)
  ultimately have all: "\<forall>f \<in> set (jr_files payload). jfr_status f = ''completed'' \<longrightarrow>
      (\<exists>refs. jfr_output_files f = Some refs \<and> is_ok (inline_content from_slice s refs (jr_output_formats payload) []))"
    by blast
  obtain r where r: "json_result from_slice s payload = Some r" using json_result_no_panic by blast
  have "is_ok r" using r inline_files_ok [OF all]
    by (fastforce simp: json_result_def is_ok_iff bind_eq_Some_conv)
  then show ?thesis using r by (auto simp: json_result_def is_ok_iff bind_eq_Some_conv result_simps)
qed

text \<open>
  C32: What \<open>GET /v1/tasks/{id}/result\<close> answers in every state the service can reach. The handler
  does not panic on any record, although it unwraps the payload, its file list, every file and the
  archive of a single file. A queued or running task is answered with 202 and its payload, a failed
  or canceled one with 409 and its payload. A task that is completed, wholly or in part, is answered
  as JSON with status 200 whenever the outputs it lists are still stored and its JSON documents
  parse; a ZIP answer has status 200 or is one of three errors.
\<close>

theorem task_result_served:
  assumes "wreach cfg sha decode slots w" "map_of (jobs (svc w)) k = Some j"
  shows "serve_result cfg env k format (svc w) \<noteq> None
    \<and> (status_of j \<in> {''queued'', ''running''} \<longrightarrow>
         serve_result cfg env k format (svc w) = payload_response 202 (job_response j))
    \<and> (status_of j \<in> {''failed'', ''canceled''} \<longrightarrow>
         serve_result cfg env k format (svc w) = payload_response 409 (job_response j))
    \<and> (status_of j \<in> {''completed'', ''partial''} \<and> format \<noteq> Some ''zip'' \<and>
         outputs_stored (re_from_slice env) (store (svc w)) (job_response j) \<longrightarrow>
         (\<exists>v. serve_result cfg env k format (svc w) = Some (Ok (JsonResponse 200 v))))
    \<and> (status_of j \<in> {''completed'', ''partial''} \<and> format = Some ''zip'' \<longrightarrow>
         (case the (serve_result cfg env k format (svc w)) of
            Ok response \<Rightarrow> response_status response = 200
          | Err e \<Rightarrow> e \<in> {invalid_response, zip_not_requested, internal}))"
proof -
  have ok: "job_ok k j" using jobs_inv_job(1) [OF wreach_jobs_inv [OF assms(1)] assms(2)] .
  then have st: "status_of j \<in> set JOB_STATUSES" and out: "outputs_ok (job_response j)" by (simp_all add: job_ok_def)
  consider (live) "status_of j \<in> {''queued'', ''running''}" | (ended) "status_of j \<in> {''failed'', ''canceled''}"
    | (over) "status_of j \<in> {''completed'', ''partial''}" using st by (auto simp: JOB_STATUSES_def)
  then show ?thesis
  proof cases
    case live
    then have "serve_result cfg env k format (svc w) = payload_response 202 (job_response j)"
      using assms(2) by (auto simp: serve_result_def is_terminal_def)
    then show ?thesis using live task_payload_Some by (auto simp: payload_response_def)
  next
    case ended
    then have "serve_result cfg env k format (svc w) = payload_response 409 (job_response j)"
      using assms(2) by (auto simp: serve_result_def is_terminal_def)
    then show ?thesis using ended task_payload_Some by (auto simp: payload_response_def)
  next
    case over
    then have eq: "serve_result cfg env k format (svc w) = (if format = Some ''zip''
        then zip_response cfg env (store (svc w)) k (job_response j)
        else json_result (re_from_slice env) (store (svc w)) (job_response j))"
      using assms(2) by (auto simp: serve_result_def is_terminal_def)
    show ?thesis
    proof (cases "format = Some ''zip''")
      case True
      then obtain r where r: "serve_result cfg env k format (svc w) = Some r"
        using eq zip_response_no_panic [OF ok over, of cfg env "store (svc w)"] by auto
      then have "zip_response cfg env (store (svc w)) k (job_response j) = Some r" using eq True by simp
      from zip_response_outcome [OF this] show ?thesis using True over r by auto
    next
      case False
      then show ?thesis using eq over json_result_no_panic json_result_ok [OF out] by auto
    qed
  qed
qed

definition sample_env :: ResultEnv where
  "sample_env = \<lparr>re_from_slice = (\<lambda>_. Some JNull),
     re_open = (\<lambda>bytes. Some [Some \<lparr>zf_size = length bytes, zf_name = Some (lit ''a''), zf_read = (\<lambda>n. Some (take n bytes))\<rparr>]),
     re_zip_ops = (\<lambda>members. Some (map (\<lambda>(_, data). Write data) members)), re_header_ok = (\<lambda>_. True)\<rparr>"

theorem task_result_served_witness:
  "serve_result sample_config sample_env (idstr ''job'' 1) None (svc sample_canceled) =
   payload_response 409 (job_response sample_done_job)"
  using task_result_served [OF sample_canceled_reach [where sha = "\<lambda>_. []" and decode = "\<lambda>_. None"] sample_canceled_job,
      of sample_env None]
  by (simp add: sample_done_job_def)

section \<open>Bounds of combined archives\<close>

definition member_total :: "(ustr \<times> byte list) list \<Rightarrow> nat" where
  "member_total ms = sum_list (map (\<lambda>(_, data). length data) ms)"

definition source_members :: "zip_open \<Rightarrow> (nat \<times> byte list) list \<Rightarrow> nat" where
  "source_members open_zip sources = sum_list (map (\<lambda>(_, source). length (the (open_zip source))) sources)"

definition member_names :: "ustr \<Rightarrow> (ustr \<times> byte list) list \<Rightarrow> bool" where
  "member_names pre ms \<longleftrightarrow> (\<forall>(n, _) \<in> set ms. \<exists>name. n = pre @ name \<and> \<not> unsafe_name name)"

lemma member_total_simps [simp]:
  "member_total [] = 0" "member_total ((n, d) # ms) = length d + member_total ms"
  "member_total (ms @ ms') = member_total ms + member_total ms'"
  by (simp_all add: member_total_def)

lemma scan_members_mono: "scan_members c n x ms expanded = Ok e \<Longrightarrow> expanded \<le> e"
proof (induction ms arbitrary: expanded)
  case (Cons m ms)
  then obtain f where *: "m = Some f" "cadd expanded (zf_size f) = Some (expanded + zf_size f)"
      "scan_members c n x ms (expanded + zf_size f) = Ok e"
    by (auto simp: result_simps cadd_Some_iff split: if_splits)
  show ?case using Cons.IH [OF *(3)] by simp
qed simp

lemma scan_sources_count:
  "scan_sources open_zip c x sources n expanded = Ok (n', e) \<Longrightarrow>
   n' = n + source_members open_zip sources \<and> expanded \<le> e"
proof (induction sources arbitrary: n expanded)
  case Nil
  then show ?case by (simp add: source_members_def)
next
  case (Cons src sources)
  obtain i source where src: "src = (i, source)" by force
  obtain ms e1 where *: "open_zip source = Some ms" "scan_members c x (n + length ms) ms expanded = Ok e1"
      "scan_sources open_zip c x sources (n + length ms) e1 = Ok (n', e)"
    using Cons.prems by (auto simp: src result_simps cadd_Some_iff)
  show ?case using Cons.IH [OF *(3)] scan_members_mono [OF *(2)] *(1) by (simp add: src source_members_def)
qed

lemma copy_members_ok:
  "copy_members c pre ms copied out = Ok (copied', out') \<Longrightarrow> member_total out = copied \<Longrightarrow> copied \<le> c \<Longrightarrow>
   \<exists>new. out' = out @ new \<and> length new = length ms \<and> member_total out' = copied' \<and> copied' \<le> c \<and> member_names pre new"
proof (induction ms arbitrary: copied out)
  case Nil
  then show ?case by (simp add: member_names_def)
next
  case (Cons m ms)
  obtain name data where *: "\<not> unsafe_name name" "copied + length data \<le> c"
      "copy_members c pre ms (copied + length data) (out @ [(pre @ name, data)]) = Ok (copied', out')"
    using Cons.prems(1) by (auto simp: result_simps cadd_Some_iff)
  obtain new where "out' = (out @ [(pre @ name, data)]) @ new" "length new = length ms" "member_total out' = copied'"
      "copied' \<le> c" "member_names pre new"
    using Cons.IH [OF *(3)] Cons.prems(2) *(2) by auto
  then show ?case using *(1) by (intro exI [of _ "(pre @ name, data) # new"]) (auto simp: member_names_def)
qed

lemma copy_sources_ok:
  "copy_sources open_zip c sources copied out = Ok out' \<Longrightarrow> member_total out = copied \<Longrightarrow> copied \<le> c \<Longrightarrow>
   \<exists>new. out' = out @ new \<and> length new = source_members open_zip sources \<and> member_total out' \<le> c \<and>
     (\<forall>m \<in> set new. \<exists>(index, _) \<in> set sources. member_names (index_prefix index) [m])"
proof (induction sources arbitrary: copied out)
  case Nil
  then show ?case by (simp add: source_members_def)
next
  case (Cons src sources)
  obtain i source where src: "src = (i, source)" by force
  obtain ms copied1 out1 where *: "open_zip source = Some ms" "copy_members c (index_prefix i) ms copied out = Ok (copied1, out1)"
      "copy_sources open_zip c sources copied1 out1 = Ok out'"
    using Cons.prems(1) by (auto simp: src result_simps)
  obtain new1 where 1: "out1 = out @ new1" "length new1 = length ms" "member_total out1 = copied1" "copied1 \<le> c"
      "member_names (index_prefix i) new1"
    using copy_members_ok [OF *(2) Cons.prems(2,3)] by blast
  obtain new2 where 2: "out' = out1 @ new2" "length new2 = source_members open_zip sources" "member_total out' \<le> c"
      "\<forall>m \<in> set new2. \<exists>(index, _) \<in> set sources. member_names (index_prefix index) [m]"
    using Cons.IH [OF *(3) 1(3,4)] by blast
  have "\<forall>m \<in> set new1. member_names (index_prefix i) [m]" using 1(5) by (simp add: member_names_def)
  then show ?case using 1 2 *(1) by (intro exI [of _ "new1 @ new2"]) (auto simp: src source_members_def)
qed

text \<open>
  C33: A combined archive is within its limits and its members stay below their own directories.
  When the archives of a task's files are combined, the bytes produced are at most the cap, whatever
  writes and seeks the ZIP writer performs; the members are the manifest with the task's payload and
  one member per member of the sources, at most \<open>max_entries\<close> in all and at most the cap when
  expanded; every other member has the name of the source's index followed by a name with no leading
  slash, no backslash and no two dots in a row.
\<close>

theorem combined_zip_bounded:
  assumes "combine_zips open_zip zip_ops payload sources c max_entries = Some (Ok bytes)"
  shows "length bytes \<le> c \<and>
    (\<exists>v members ops out. task_payload payload = Some v \<and>
       zip_ops ((lit ''manifest.json'', text_bytes (to_text v)) # members) = Some ops \<and>
       run_ops (sink_step cursor_write cursor_seek) ops (cursor_new c) = Some out \<and> bytes = bc_data out \<and>
       length members = source_members open_zip sources \<and> length members + 1 \<le> max_entries \<and>
       length (text_bytes (to_text v)) + member_total members \<le> c \<and>
       (\<forall>(n, _) \<in> set members. \<exists>(index, _) \<in> set sources. \<exists>name. n = index_prefix index @ name \<and>
          \<not> prefix [47] name \<and> 92 \<notin> set name \<and> \<not> contains [46, 46] name))"
proof -
  obtain v n e ms ops out where *: "task_payload payload = Some v"
      "scan_sources open_zip c max_entries sources 1 (length (text_bytes (to_text v))) = Ok (n, e)" "e \<le> c" "n \<le> max_entries"
      "copy_sources open_zip c sources (length (text_bytes (to_text v))) [(lit ''manifest.json'', text_bytes (to_text v))] = Ok ms"
      "zip_ops ms = Some ops" "run_ops (sink_step cursor_write cursor_seek) ops (cursor_new c) = Some out" "bytes = bc_data out"
    using assms by (auto simp: combine_zips_def Let_def result_simps not_less simp del: One_nat_def)
  have sc: "n = 1 + source_members open_zip sources" "length (text_bytes (to_text v)) \<le> c"
    using scan_sources_count [OF *(2)] *(3) by auto
  obtain members where m: "ms = [(lit ''manifest.json'', text_bytes (to_text v))] @ members"
      "length members = source_members open_zip sources" "member_total ms \<le> c"
      "\<forall>m \<in> set members. \<exists>(index, _) \<in> set sources. member_names (index_prefix index) [m]"
    using copy_sources_ok [OF *(5)] sc(2) by auto
  have "length bytes \<le> c" using cursor.run_ops_bound [OF *(7)] *(8) by (simp add: cursor_new_def)
  moreover have "zip_ops ((lit ''manifest.json'', text_bytes (to_text v)) # members) = Some ops" using *(6) m(1) by simp
  moreover have "length members + 1 \<le> max_entries" using m(2) sc(1) *(4) by simp
  moreover have "length (text_bytes (to_text v)) + member_total members \<le> c" using m(1,3) by simp
  moreover have "\<forall>(n, _) \<in> set members. \<exists>(index, _) \<in> set sources. \<exists>name. n = index_prefix index @ name \<and>
      \<not> prefix [47] name \<and> 92 \<notin> set name \<and> \<not> contains [46, 46] name"
    using m(4) by (fastforce simp: member_names_def unsafe_name_def)
  ultimately show ?thesis using *(1,7,8) m(2) by blast
qed

definition sample_payload :: JobResponse where
  "sample_payload = \<lparr>jr_job_id = lit ''job_1'', jr_status = ''completed'', jr_created_at = [], jr_started_at = None,
     jr_finished_at = None, jr_tier = Flash, jr_output_formats = [Zip], jr_access_level = ''self-hosted'',
     jr_progress = \<lparr>jp_total = 0, jp_completed = 0, jp_failed = 0\<rparr>, jr_files = [], jr_links = \<lparr>jl_self_url = [], jl_cancel = []\<rparr>\<rparr>"

lemma sample_payload_length: "map_option (\<lambda>v. blen (to_text v) \<le> 1000) (task_payload sample_payload) = Some True"
  by code_simp

lemma sample_combined:
  "\<exists>bytes. combine_zips (re_open sample_env) (re_zip_ops sample_env) sample_payload [(0, [7]), (2, [8, 9])] 2000 3 = Some (Ok bytes)"
proof -
  obtain v where v: "task_payload sample_payload = Some v" "blen (to_text v) \<le> 1000"
    using sample_payload_length by auto
  let ?m = "text_bytes (to_text v)"
  have len: "length ?m \<le> 1000" using v(2) by (simp add: text_bytes_def)
  have safe: "\<not> unsafe_name [97]" by (simp add: unsafe_name_def contains_def)
  show ?thesis using v(1) len safe
    by (simp add: combine_zips_def Let_def sample_env_def cadd_def U64_MAX_def sat_add_def sink_step_def
        cursor_write_def cursor_new_def opt_filter_def)
qed

theorem combined_zip_bounded_witness:
  "\<exists>bytes. combine_zips (re_open sample_env) (re_zip_ops sample_env) sample_payload [(0, [7]), (2, [8, 9])] 2000 3 = Some (Ok bytes)
     \<and> length bytes \<le> 2000"
  using sample_combined combined_zip_bounded by blast

end
