(* ===== verification/Hybrid_Output.thy ===== *)
theory Hybrid_Output
  imports Official Json "HOL-Library.AList"
begin

text \<open>
  Publication of a parsed bundle into the output directory (\<open>hybrid_v4_output.rs\<close>, \<open>tree.rs\<close>,
  \<open>transaction.rs\<close>): the bundle is copied into a private stage, checked there and swapped in by two
  renames, with the previous output as a backup. Directories are association lists; every call
  into the operating system may fail, as told by a list of faults that the calls consume. A failing
  removal leaves what its fault says. Nobody else works on the document's directory.
\<close>

section \<open>Files and faults\<close>

text \<open>A name is \<open>None\<close> when it is no UTF-8 text.\<close>

datatype node = File "byte list" | is_Dir: Dir "(ustr option \<times> node) list" | Link | Special

type_synonym dir = "(ustr option \<times> node) list"

text \<open>What an error of the operating system is, apart from the injected faults.\<close>

datatype os_error = NotFound | AlreadyExists | NotEmpty | NotDirectory | IsDirectory

datatype io_error = Os os_error | Injected ustr

datatype fault = Fault ustr "node option"

type_synonym faults = "fault option list"

text \<open>
  Parameters: the texts of errors, lower case of Unicode text, how reading a file splits its
  bytes, and the JSON reader.
\<close>

record HybridEnv =
  he_os :: "os_error \<Rightarrow> ustr"
  he_lower :: "ustr \<Rightarrow> ustr"
  he_reads :: "byte list \<Rightarrow> byte list list"
  he_from_slice :: "byte list \<Rightarrow> (Value, ustr) result"

fun io_text :: "HybridEnv \<Rightarrow> io_error \<Rightarrow> ustr" where
  "io_text env (Os e) = he_os env e"
| "io_text env (Injected t) = t"

text \<open>A call that reads nothing but may fail.\<close>

fun tick :: "faults \<Rightarrow> (unit, ustr) result \<times> faults" where
  "tick [] = (Ok (), [])"
| "tick (None # fs) = (Ok (), fs)"
| "tick (Some (Fault t _) # fs) = (Err t, fs)"

section \<open>Names and budgets\<close>

definition MAX_COMPONENT_BYTES :: nat where "MAX_COMPONENT_BYTES = 255"
definition MAX_DEPTH :: nat where "MAX_DEPTH = 32"
definition MAX_RELATIVE_PATH_BYTES :: nat where "MAX_RELATIVE_PATH_BYTES = 4096"
definition MAX_NAME_BUDGET :: nat where "MAX_NAME_BUDGET = 32 * 1024 * 1024"
definition MAX_RESIDENT_BYTES :: nat where "MAX_RESIDENT_BYTES = 64 * 1024 * 1024"
definition MAX_ENTRIES :: nat where "MAX_ENTRIES = 8192"

definition BUNDLE_NAME :: ustr where "BUNDLE_NAME = lit ''hybrid-v4''"
definition SCHEMA_VERSION :: string where "SCHEMA_VERSION = ''2.0''"

definition is_control :: "uchar \<Rightarrow> bool" where
  "is_control c \<longleftrightarrow> c < 0x20 \<or> 0x7F \<le> c \<and> c < 0xA0"

definition eq_ignore_ascii_case :: "ustr \<Rightarrow> string \<Rightarrow> bool" where
  "eq_ignore_ascii_case s t \<longleftrightarrow> map to_ascii_lowercase s = map to_ascii_lowercase (lit t)"

definition windows_device_name :: "ustr \<Rightarrow> bool" where
  "windows_device_name name =
     (let base = hd (split_on 46 name); bytes = str_bytes base in
      eq_ignore_ascii_case base ''con'' \<or> eq_ignore_ascii_case base ''prn'' \<or>
      eq_ignore_ascii_case base ''aux'' \<or> eq_ignore_ascii_case base ''nul'' \<or>
      blen base = 4 \<and> (eq_ignore_ascii_case (take 3 bytes) ''com'' \<or> eq_ignore_ascii_case (take 3 bytes) ''lpt'') \<and>
        49 \<le> bytes ! 3 \<and> bytes ! 3 \<le> 57)"

definition FORBIDDEN :: "ustr" where
  "FORBIDDEN = lit [CHR ''/'', CHR 0x5C, CHR ''<'', CHR ''>'', CHR '':'', CHR 0x22, CHR ''|'', CHR ''?'', CHR ''*'']"

definition portable_name :: "ustr \<Rightarrow> bool" where
  "portable_name name \<longleftrightarrow>
     name \<noteq> [] \<and> name \<noteq> lit ''.'' \<and> name \<noteq> lit ''..'' \<and> last name \<notin> {46, 32} \<and>
     list_all (\<lambda>c. \<not> is_control c \<and> c \<notin> set FORBIDDEN) name \<and> \<not> windows_device_name name"

record RelativePath =
  rp_depth :: nat
  rp_bytes :: nat
  rp_portable :: ustr

definition relative_root :: RelativePath where
  "relative_root = \<lparr>rp_depth = 0, rp_bytes = 0, rp_portable = []\<rparr>"

definition path_child :: "HybridEnv \<Rightarrow> RelativePath \<Rightarrow> ustr \<Rightarrow> (RelativePath, ustr) result" where
  "path_child env p name =
     and_then (ensure (portable_name name) (lit ''unsafe hybrid-v4 name: '' @ name)) (\<lambda>_.
     and_then (ensure (rp_depth p + 1 < 2 ^ 32) (lit ''hybrid-v4 path depth overflow'')) (\<lambda>_.
     and_then (ok_or (Option.bind (cadd (rp_bytes p) (blen name)) (\<lambda>b. cadd b (if 0 < rp_depth p then 1 else 0)))
                 (lit ''hybrid-v4 relative path size overflow'')) (\<lambda>bytes.
     and_then (ensure (\<not> (MAX_COMPONENT_BYTES < blen name \<or> MAX_DEPTH < rp_depth p + 1 \<or> MAX_RELATIVE_PATH_BYTES < bytes))
                 (lit ''hybrid-v4 path component/depth/length cap exceeded'')) (\<lambda>_.
     Ok \<lparr>rp_depth = rp_depth p + 1, rp_bytes = bytes,
         rp_portable = (if rp_portable p = [] then he_lower env name else rp_portable p @ [47] @ he_lower env name)\<rparr>))))"

record TreeState =
  ts_entries :: nat
  ts_name_bytes :: nat
  ts_data_bytes :: nat
  ts_names :: "ustr set"

definition tree_default :: TreeState where
  "tree_default = \<lparr>ts_entries = 0, ts_name_bytes = 0, ts_data_bytes = 0, ts_names = {}\<rparr>"

text \<open>The fault is the allocation failure of \<open>try_reserve\<close>.\<close>

definition admit :: "HybridEnv \<Rightarrow> RelativePath \<Rightarrow> ustr \<Rightarrow> TreeState \<Rightarrow> faults \<Rightarrow>
    (RelativePath, ustr) result \<times> TreeState \<times> faults" where
  "admit env parent name st fs =
     (case and_then (path_child env parent name) (\<lambda>relative.
           and_then (ok_or (cadd (ts_entries st) 1) (lit ''hybrid-v4 entry count overflow'')) (\<lambda>n.
           and_then (ok_or (cadd (ts_name_bytes st) (rp_bytes relative)) (lit ''hybrid-v4 relative-name budget overflow'')) (\<lambda>nb.
           and_then (ensure (\<not> (MAX_ENTRIES < n \<or> MAX_NAME_BUDGET < nb)) (lit ''hybrid-v4 entry/name cap exceeded'')) (\<lambda>_.
           Ok (relative, n, nb))))) of
        Err e \<Rightarrow> (Err e, st, fs)
      | Ok (relative, n, nb) \<Rightarrow>
          (case tick fs of
             (Err _, fs) \<Rightarrow> (Err (lit ''hybrid-v4 portable-name set allocation failed''), st, fs)
           | (Ok _, fs) \<Rightarrow>
               if rp_portable relative \<in> ts_names st
               then (Err (lit ''duplicate hybrid-v4 portable name: '' @ rp_portable relative), st, fs)
               else (Ok relative, st\<lparr>ts_entries := n, ts_name_bytes := nb, ts_names := insert (rp_portable relative) (ts_names st)\<rparr>, fs)))"

definition charge_data :: "nat \<Rightarrow> nat \<Rightarrow> TreeState \<Rightarrow> (unit, ustr) result \<times> TreeState" where
  "charge_data amount byte_cap st =
     (case cadd (ts_data_bytes st) amount of
        None \<Rightarrow> (Err (lit ''hybrid-v4 bundle byte count overflow''), st)
      | Some n \<Rightarrow>
          (if byte_cap < n then Err (lit ''hybrid-v4 bundle exceeds '' @ show_nat byte_cap @ lit '' bytes'') else Ok (),
           st\<lparr>ts_data_bytes := n\<rparr>))"

section \<open>Copying the tree\<close>

definition known_file :: "ustr \<Rightarrow> bool" where
  "known_file name \<longleftrightarrow>
     name \<in> lit ` {''markdown.md'', ''middle_json.json'', ''structured_content.json'', ''model_output.json''}"

text \<open>The loop of \<open>copy_file\<close> over the reads; an empty read ends the file.\<close>

fun copy_chunks :: "nat \<Rightarrow> byte list list \<Rightarrow> byte list \<Rightarrow> TreeState \<Rightarrow> faults \<Rightarrow>
    (unit, ustr) result \<times> byte list \<times> TreeState \<times> faults" where
  "copy_chunks byte_cap [] out st fs =
     (case tick fs of
        (Err e, fs) \<Rightarrow> (Err e, out, st, fs)
      | (Ok _, fs) \<Rightarrow> (case tick fs of (r, fs) \<Rightarrow> (r, out, st, fs)))"
| "copy_chunks byte_cap (chunk # chunks) out st fs =
     (case tick fs of
        (Err e, fs) \<Rightarrow> (Err e, out, st, fs)
      | (Ok _, fs) \<Rightarrow>
          if chunk = [] then (case tick fs of (r, fs) \<Rightarrow> (r, out, st, fs))
          else
            (case charge_data (length chunk) byte_cap st of
               (Err e, st) \<Rightarrow> (Err e, out, st, fs)
             | (Ok _, st) \<Rightarrow>
                 (case tick fs of
                    (Err e, fs) \<Rightarrow> (Err e, out, st, fs)
                  | (Ok _, fs) \<Rightarrow> copy_chunks byte_cap chunks (out @ chunk) st fs)))"

text \<open>Opening the source (and looking at its type) and creating the destination.\<close>

definition copy_file :: "HybridEnv \<Rightarrow> nat \<Rightarrow> ustr \<Rightarrow> byte list \<Rightarrow> dir \<Rightarrow> TreeState \<Rightarrow> faults \<Rightarrow>
    (unit, ustr) result \<times> dir \<times> TreeState \<times> faults" where
  "copy_file env byte_cap name data dst st fs =
     (case tick fs of
        (Err e, fs) \<Rightarrow> (Err e, dst, st, fs)
      | (Ok _, fs) \<Rightarrow>
          (case tick fs of
             (Err e, fs) \<Rightarrow> (Err e, dst, st, fs)
           | (Ok _, fs) \<Rightarrow>
               if map_of dst (Some name) \<noteq> None then (Err (he_os env AlreadyExists), dst, st, fs)
               else
                 (case tick fs of
                    (Err e, fs) \<Rightarrow> (Err e, dst, st, fs)
                  | (Ok _, fs) \<Rightarrow>
                      (case copy_chunks byte_cap (he_reads env data) [] st fs of
                         (r, out, st, fs) \<Rightarrow> (r, dst @ [(Some name, File out)], st, fs)))))"

definition create_destination_dir :: "ustr \<Rightarrow> dir \<Rightarrow> faults \<Rightarrow> (unit, ustr) result \<times> dir \<times> faults" where
  "create_destination_dir name dst fs =
     (if map_of dst (Some name) \<noteq> None then (Err (lit ''hybrid-v4 destination directory collision''), dst, fs)
      else
        (case tick fs of
           (Err e, fs) \<Rightarrow> (Err e, dst, fs)
         | (Ok _, fs) \<Rightarrow> (case tick fs of (r, fs) \<Rightarrow> (r, dst @ [(Some name, Dir [])], fs))))"

text \<open>The checks before an entry is copied: the directory entry, its name, the budgets, its metadata.\<close>

definition admit_entry :: "HybridEnv \<Rightarrow> RelativePath \<Rightarrow> ustr option \<Rightarrow> TreeState \<Rightarrow> faults \<Rightarrow>
    (ustr \<times> RelativePath, ustr) result \<times> TreeState \<times> faults" where
  "admit_entry env parent nm st fs =
     (case tick fs of
        (Err e, fs) \<Rightarrow> (Err e, st, fs)
      | (Ok _, fs) \<Rightarrow>
          (case nm of
             None \<Rightarrow> (Err (lit ''hybrid-v4 bundle has a non-UTF-8 name''), st, fs)
           | Some name \<Rightarrow>
               (case admit env parent name st fs of
                  (Err e, st, fs) \<Rightarrow> (Err e, st, fs)
                | (Ok relative, st, fs) \<Rightarrow>
                    (case tick fs of
                       (Err e, fs) \<Rightarrow> (Err e, st, fs)
                     | (Ok _, fs) \<Rightarrow> (Ok (name, relative), st, fs)))))"

definition unknown_entry :: "ustr \<Rightarrow> ustr" where
  "unknown_entry name = lit ''unknown hybrid-v4 bundle entry: '' @ name"

text \<open>\<open>walk_entries\<close> is the loop of \<open>walk_directory\<close>, whose call of \<open>read_dir\<close> comes first.\<close>

function (sequential) walk_entries :: "HybridEnv \<Rightarrow> nat \<Rightarrow> bool \<Rightarrow> RelativePath \<Rightarrow> dir \<Rightarrow> dir \<Rightarrow> TreeState \<Rightarrow> faults \<Rightarrow>
    (unit, ustr) result \<times> dir \<times> TreeState \<times> faults" where
  "walk_entries env byte_cap root parent [] dst st fs = (Ok (), dst, st, fs)"
| "walk_entries env byte_cap root parent ((nm, node) # rest) dst st fs =
     (case admit_entry env parent nm st fs of
        (Err e, st, fs) \<Rightarrow> (Err e, dst, st, fs)
      | (Ok (name, relative), st, fs) \<Rightarrow>
          (case node of
             Link \<Rightarrow> (Err (lit ''hybrid-v4 bundle entry is a symlink: '' @ name), dst, st, fs)
           | Special \<Rightarrow> (Err (lit ''hybrid-v4 bundle entry is not a regular file: '' @ rp_portable relative), dst, st, fs)
           | File data \<Rightarrow>
               if root \<and> \<not> known_file name then (Err (unknown_entry name), dst, st, fs)
               else
                 (case copy_file env byte_cap name data dst st fs of
                    (Err e, dst, st, fs) \<Rightarrow> (Err e, dst, st, fs)
                  | (Ok _, dst, st, fs) \<Rightarrow> walk_entries env byte_cap root parent rest dst st fs)
           | Dir es \<Rightarrow>
               if root \<and> name \<noteq> lit ''images'' then (Err (unknown_entry name), dst, st, fs)
               else
                 (case tick fs of
                    (Err e, fs) \<Rightarrow> (Err e, dst, st, fs)
                  | (Ok _, fs) \<Rightarrow>
                      (case create_destination_dir name dst fs of
                         (Err e, dst, fs) \<Rightarrow> (Err e, dst, st, fs)
                       | (Ok _, dst, fs) \<Rightarrow>
                           (case tick fs of
                              (Err e, fs) \<Rightarrow> (Err e, dst, st, fs)
                            | (Ok _, fs) \<Rightarrow>
                                (case walk_entries env byte_cap False relative es [] st fs of
                                   (Err e, sub, st, fs) \<Rightarrow> (Err e, AList.update (Some name) (Dir sub) dst, st, fs)
                                 | (Ok _, sub, st, fs) \<Rightarrow>
                                     walk_entries env byte_cap root parent rest (AList.update (Some name) (Dir sub) dst) st fs))))))"
  by pat_completeness auto

termination
  by (relation "measure (\<lambda>(_, _, _, _, es, _). size_list (size_prod (\<lambda>_. 0) size) es)") auto

definition copy_bundle :: "HybridEnv \<Rightarrow> (dir, ustr) result \<Rightarrow> nat \<Rightarrow> dir \<Rightarrow> faults \<Rightarrow> (unit, ustr) result \<times> dir \<times> faults" where
  "copy_bundle env source byte_cap dst fs =
     (case source of
        Err e \<Rightarrow> (Err e, dst, fs)
      | Ok es \<Rightarrow>
          (case tick fs of
             (Err e, fs) \<Rightarrow> (Err e, dst, fs)
           | (Ok _, fs) \<Rightarrow>
               (case walk_entries env byte_cap True relative_root es dst tree_default fs of
                  (r, dst, _, fs) \<Rightarrow> (r, dst, fs))))"

section \<open>Checking the stage\<close>

fun read_bounded :: "nat \<Rightarrow> byte list list \<Rightarrow> byte list \<Rightarrow> faults \<Rightarrow> (byte list, ustr) result \<times> faults" where
  "read_bounded c [] bytes fs =
     (case tick fs of (Err e, fs) \<Rightarrow> (Err e, fs) | (Ok _, fs) \<Rightarrow> (Ok bytes, fs))"
| "read_bounded c (chunk # chunks) bytes fs =
     (case tick fs of
        (Err e, fs) \<Rightarrow> (Err e, fs)
      | (Ok _, fs) \<Rightarrow>
          if chunk = [] then (Ok bytes, fs)
          else
            (case cadd (length bytes) (length chunk) of
               None \<Rightarrow> (Err (lit ''hybrid-v4 resident buffer size overflow''), fs)
             | Some n \<Rightarrow>
                 if c < n then (Err (lit ''hybrid-v4 bundle exceeds '' @ show_nat c @ lit '' bytes''), fs)
                 else
                   (case tick fs of
                      (Err _, fs) \<Rightarrow> (Err (lit ''hybrid-v4 resident buffer allocation failed''), fs)
                    | (Ok _, fs) \<Rightarrow> read_bounded c chunks (bytes @ chunk) fs)))"

definition validate_json :: "string \<Rightarrow> Value \<Rightarrow> (unit, ustr) result" where
  "validate_json name v =
     (if name = ''middle_json.json'' then
        and_then (ok_or (as_object v) (lit ''hybrid-v4 middle_json.json is not an object'')) (\<lambda>obj.
        and_then (ensure (Option.bind (map_of obj (lit ''schema'')) as_str = Some (lit ''docvortex.middle'') \<and>
                          Option.bind (map_of obj (lit ''schema_version'')) as_str = Some (lit SCHEMA_VERSION))
                    (lit ''hybrid-v4 middle_json schema is invalid'')) (\<lambda>_.
        and_then (ok_or (Option.bind (map_of obj (lit ''pages'')) as_array) (lit ''hybrid-v4 middle_json.json has no pages'')) (\<lambda>pages.
        ensure (JNull \<notin> set pages) (lit ''hybrid-v4 bundle contains null pages''))))
      else if name = ''model_output.json'' then ensure (as_object v \<noteq> None) (lit ''hybrid-v4 model output is not an object'')
      else if name = ''structured_content.json'' then ensure (as_object v \<noteq> None) (lit ''hybrid-v4 structured content is not an object'')
      else Ok ())"

text \<open>The content of a known file, once it is read.\<close>

definition check_known :: "HybridEnv \<Rightarrow> string \<Rightarrow> byte list \<Rightarrow> (unit, ustr) result" where
  "check_known env name bytes =
     (if name = ''markdown.md''
      then ensure (from_utf8 bytes \<noteq> None) (lit ''hybrid-v4 markdown.md is not UTF-8'')
      else (case he_from_slice env bytes of
              Err e \<Rightarrow> Err (lit ''hybrid-v4 '' @ lit name @ lit '' is invalid JSON: '' @ e)
            | Ok v \<Rightarrow> validate_json name v))"

definition validate_known_file :: "HybridEnv \<Rightarrow> string \<Rightarrow> byte list \<Rightarrow> nat \<Rightarrow> nat \<Rightarrow> faults \<Rightarrow> (unit, ustr) result \<times> faults" where
  "validate_known_file env name data expected_size byte_cap fs =
     (let resident_cap = min byte_cap MAX_RESIDENT_BYTES in
      if resident_cap < expected_size
      then (Err (lit ''hybrid-v4 '' @ lit name @ lit '' exceeds resident validation limit '' @ show_nat resident_cap @ lit '' bytes''), fs)
      else
        (case read_bounded resident_cap (he_reads env data) [] fs of
           (Err e, fs) \<Rightarrow> (Err e, fs)
         | (Ok bytes, fs) \<Rightarrow>
             (and_then (ensure (length bytes = expected_size) (lit ''hybrid-v4 staged '' @ lit name @ lit '' changed while validating''))
                (\<lambda>_. check_known env name bytes), fs)))"

text \<open>\<open>open_file_nofollow\<close>: the open without following links, and the look at the type.\<close>

definition open_file_nofollow :: "HybridEnv \<Rightarrow> dir \<Rightarrow> ustr \<Rightarrow> faults \<Rightarrow> (byte list, ustr) result \<times> faults" where
  "open_file_nofollow env d name fs =
     (case map_of d (Some name) of
        None \<Rightarrow> (Err (he_os env NotFound), fs)
      | Some node \<Rightarrow>
          (case tick fs of
             (Err e, fs) \<Rightarrow> (Err e, fs)
           | (Ok _, fs) \<Rightarrow>
               (case tick fs of
                  (Err e, fs) \<Rightarrow> (Err e, fs)
                | (Ok _, fs) \<Rightarrow>
                    (case node of
                       File data \<Rightarrow> (Ok data, fs)
                     | _ \<Rightarrow> (Err (lit ''hybrid-v4 bundle entry is not a regular file''), fs)))))"

definition validate_staged_file :: "HybridEnv \<Rightarrow> dir \<Rightarrow> string \<Rightarrow> nat \<Rightarrow> faults \<Rightarrow> (unit, ustr) result \<times> faults" where
  "validate_staged_file env stage name byte_cap fs =
     (case open_file_nofollow env stage (lit name) fs of
        (Err e, fs) \<Rightarrow> (Err e, fs)
      | (Ok data, fs) \<Rightarrow>
          (case tick fs of
             (Err e, fs) \<Rightarrow> (Err e, fs)
           | (Ok _, fs) \<Rightarrow> validate_known_file env name data (length data) byte_cap fs))"

fun validate_files :: "HybridEnv \<Rightarrow> dir \<Rightarrow> nat \<Rightarrow> string list \<Rightarrow> faults \<Rightarrow> (unit, ustr) result \<times> faults" where
  "validate_files env stage byte_cap [] fs = (Ok (), fs)"
| "validate_files env stage byte_cap (name # names) fs =
     (case validate_staged_file env stage name byte_cap fs of
        (Err e, fs) \<Rightarrow> (Err e, fs)
      | (Ok _, fs) \<Rightarrow> validate_files env stage byte_cap names fs)"

definition validate_staged :: "HybridEnv \<Rightarrow> dir \<Rightarrow> nat \<Rightarrow> faults \<Rightarrow> (unit, ustr) result \<times> faults" where
  "validate_staged env stage byte_cap fs =
     (case validate_files env stage byte_cap [''markdown.md'', ''middle_json.json'', ''structured_content.json''] fs of
        (Err e, fs) \<Rightarrow> (Err e, fs)
      | (Ok _, fs) \<Rightarrow>
          (case tick fs of
             (Err e, fs) \<Rightarrow> (Err e, fs)
           | (Ok _, fs) \<Rightarrow>
               (case map_of stage (Some (lit ''model_output.json'')) of
                  None \<Rightarrow> (Ok (), fs)
                | Some Link \<Rightarrow> (Err (lit ''hybrid-v4 staged model_output.json is a symlink''), fs)
                | Some _ \<Rightarrow> validate_staged_file env stage ''model_output.json'' byte_cap fs)))"

section \<open>Operations on directories\<close>

text \<open>\<open>remove_dir_all\<close>: a failure may leave part of the entry.\<close>

definition remove_all :: "ustr \<Rightarrow> dir \<Rightarrow> faults \<Rightarrow> (unit, io_error) result \<times> dir \<times> faults" where
  "remove_all name d fs =
     (if map_of d (Some name) = None then (Err (Os NotFound), d, fs)
      else
        (case fs of
           Some (Fault t left) # fs \<Rightarrow>
             (Err (Injected t), (case left of None \<Rightarrow> AList.delete (Some name) d | Some n \<Rightarrow> AList.update (Some name) n d), fs)
         | _ \<Rightarrow> (Ok (), AList.delete (Some name) d, drop 1 fs)))"

definition remove_dir :: "ustr \<Rightarrow> dir \<Rightarrow> faults \<Rightarrow> (unit, io_error) result \<times> dir \<times> faults" where
  "remove_dir name d fs =
     (case map_of d (Some name) of
        None \<Rightarrow> (Err (Os NotFound), d, fs)
      | Some (Dir es) \<Rightarrow>
          if es \<noteq> [] then (Err (Os NotEmpty), d, fs)
          else (case tick fs of
                  (Err t, fs) \<Rightarrow> (Err (Injected t), d, fs)
                | (Ok _, fs) \<Rightarrow> (Ok (), AList.delete (Some name) d, fs))
      | Some _ \<Rightarrow> (Err (Os NotDirectory), d, fs))"

text \<open>
  \<open>rename\<close> from one directory to another: a directory replaces nothing or an empty directory, any
  other entry replaces nothing or an entry that is no directory.
\<close>

fun may_replace :: "node \<Rightarrow> node option \<Rightarrow> os_error option" where
  "may_replace _ None = None"
| "may_replace (Dir _) (Some (Dir es)) = (if es = [] then None else Some NotEmpty)"
| "may_replace (Dir _) (Some _) = Some NotDirectory"
| "may_replace _ (Some (Dir _)) = Some IsDirectory"
| "may_replace _ (Some _) = None"

definition rename_entry :: "ustr \<Rightarrow> dir \<Rightarrow> ustr \<Rightarrow> dir \<Rightarrow> faults \<Rightarrow> (unit, io_error) result \<times> dir \<times> dir \<times> faults" where
  "rename_entry sname src dname dst fs =
     (case map_of src (Some sname) of
        None \<Rightarrow> (Err (Os NotFound), src, dst, fs)
      | Some node \<Rightarrow>
          (case may_replace node (map_of dst (Some dname)) of
             Some e \<Rightarrow> (Err (Os e), src, dst, fs)
           | None \<Rightarrow>
               (case tick fs of
                  (Err t, fs) \<Rightarrow> (Err (Injected t), src, dst, fs)
                | (Ok _, fs) \<Rightarrow> (Ok (), AList.delete (Some sname) src, AList.update (Some dname) node dst, fs))))"

text \<open>The entries of a subdirectory, and their replacement, for the handles of the transaction.\<close>

definition sub_dir :: "dir \<Rightarrow> ustr \<Rightarrow> dir" where
  "sub_dir d name = (case map_of d (Some name) of Some (Dir es) \<Rightarrow> es | _ \<Rightarrow> [])"

definition set_sub :: "ustr \<Rightarrow> dir \<Rightarrow> dir \<Rightarrow> dir" where
  "set_sub name es d = AList.update (Some name) (Dir es) d"

section \<open>The transaction\<close>

definition open_transaction :: "ustr \<Rightarrow> dir \<Rightarrow> faults \<Rightarrow> (unit, ustr) result \<times> dir \<times> faults" where
  "open_transaction name doc fs =
     (case tick fs of
        (Err e, fs) \<Rightarrow> (Err e, doc, fs)
      | (Ok _, fs) \<Rightarrow>
          (case tick fs of
             (Err e, fs) \<Rightarrow> (Err e, doc, fs)
           | (Ok _, fs) \<Rightarrow>
               (case tick fs of
                  (r, fs) \<Rightarrow> (r, set_sub name [(Some (lit ''stage''), Dir [])] doc, fs))))"

definition stage_name :: "nat \<Rightarrow> nat \<Rightarrow> ustr" where
  "stage_name pid serial = lit ''.hybrid-v4-stage-'' @ show_nat pid @ [45] @ show_nat serial"

fun create_transaction :: "HybridEnv \<Rightarrow> nat \<Rightarrow> nat \<Rightarrow> nat \<Rightarrow> dir \<Rightarrow> faults \<Rightarrow> (ustr, ustr) result \<times> nat \<times> dir \<times> faults" where
  "create_transaction env pid 0 serial doc fs = (Err (lit ''unable to create a collision-safe hybrid-v4 stage''), serial, doc, fs)"
| "create_transaction env pid (Suc tries) serial doc fs =
     (if serial = U64_MAX then (Err (lit ''hybrid-v4 stage counter overflow''), serial, doc, fs)
      else
        (let name = stage_name pid serial in
         if map_of doc (Some name) \<noteq> None then create_transaction env pid tries (serial + 1) doc fs
         else
           (case tick fs of
              (Err e, fs) \<Rightarrow> (Err e, serial + 1, doc, fs)
            | (Ok _, fs) \<Rightarrow>
                (case open_transaction name (set_sub name [] doc) fs of
                   (Ok _, doc, fs) \<Rightarrow> (Ok name, serial + 1, doc, fs)
                 | (Err e, doc, fs) \<Rightarrow>
                     (case remove_all name doc fs of
                        (Ok _, doc, fs) \<Rightarrow> (Err e, serial + 1, doc, fs)
                      | (Err c, doc, fs) \<Rightarrow>
                          (Err (e @ lit ''; hybrid-v4 transaction cleanup failed: '' @ io_text env c), serial + 1, doc, fs))))))"

definition remove_private_entry :: "HybridEnv \<Rightarrow> ustr \<Rightarrow> dir \<Rightarrow> faults \<Rightarrow> (unit, ustr) result \<times> dir \<times> faults" where
  "remove_private_entry env name d fs =
     (case remove_all name d fs of
        (Ok _, d, fs) \<Rightarrow> (Ok (), d, fs)
      | (Err e, d, fs) \<Rightarrow> (if e = Os NotFound then Ok () else Err (io_text env e), d, fs))"

definition entry_error :: "string \<Rightarrow> (unit, ustr) result \<Rightarrow> ustr list" where
  "entry_error name r = (case r of Ok _ \<Rightarrow> [] | Err e \<Rightarrow> [lit name @ lit '': '' @ e])"

fun join_errors :: "ustr list \<Rightarrow> ustr" where
  "join_errors [] = []"
| "join_errors [e] = e"
| "join_errors (e # es) = e @ lit ''; '' @ join_errors es"

definition cleanup_transaction :: "HybridEnv \<Rightarrow> ustr \<Rightarrow> dir \<Rightarrow> faults \<Rightarrow> (unit, ustr) result \<times> dir \<times> faults" where
  "cleanup_transaction env name doc fs =
     (case remove_private_entry env (lit ''stage'') (sub_dir doc name) fs of
        (r1, tx, fs) \<Rightarrow>
          (case remove_private_entry env (lit ''backup'') tx fs of
             (r2, tx, fs) \<Rightarrow>
               (case remove_dir name (set_sub name tx doc) fs of
                  (r3, doc, fs) \<Rightarrow>
                    (let errors = entry_error ''stage'' r1 @ entry_error ''backup'' r2 @
                           (case r3 of Err e \<Rightarrow> if e = Os NotFound then [] else [lit ''transaction: '' @ io_text env e] | Ok _ \<Rightarrow> [])
                     in (if errors = [] then Ok () else Err (join_errors errors), doc, fs)))))"

definition cleanup_failure :: "ustr \<Rightarrow> (unit, ustr) result \<Rightarrow> ustr \<Rightarrow> ustr" where
  "cleanup_failure message cleanup path =
     (case cleanup of
        Ok _ \<Rightarrow> message
      | Err c \<Rightarrow> message @ lit ''; hybrid-v4 transaction cleanup failed at '' @ path @ lit '': '' @ c)"

text \<open>The failure tells whether the previous output could not be put back.\<close>

definition publish_transaction_inner :: "HybridEnv \<Rightarrow> ustr \<Rightarrow> dir \<Rightarrow> faults \<Rightarrow> (unit, ustr \<times> bool) result \<times> dir \<times> faults" where
  "publish_transaction_inner env name doc fs =
     (case tick fs of
        (Err e, fs) \<Rightarrow> (Err (e, False), doc, fs)
      | (Ok _, fs) \<Rightarrow>
          (let target = map_of doc (Some BUNDLE_NAME) in
           if target = Some Link then (Err (lit ''hybrid-v4 output target is a symlink'', False), doc, fs)
           else if target \<noteq> None \<and> \<not> is_Dir (the target)
           then (Err (lit ''hybrid-v4 output target is not a directory'', False), doc, fs)
           else
             (case (if target = None then (Ok (), doc, sub_dir doc name, fs)
                    else rename_entry BUNDLE_NAME doc (lit ''backup'') (sub_dir doc name) fs) of
                (Err e, doc, tx, fs) \<Rightarrow> (Err (io_text env e, False), doc, fs)
              | (Ok _, doc, tx, fs) \<Rightarrow>
                  (case rename_entry (lit ''stage'') tx BUNDLE_NAME doc fs of
                     (Ok _, tx, doc, fs) \<Rightarrow> (Ok (), set_sub name tx doc, fs)
                   | (Err e, tx, doc, fs) \<Rightarrow>
                       if target = None then (Err (io_text env e, False), set_sub name tx doc, fs)
                       else
                         (case rename_entry (lit ''backup'') tx BUNDLE_NAME doc fs of
                            (Ok _, tx, doc, fs) \<Rightarrow> (Err (io_text env e, False), set_sub name tx doc, fs)
                          | (Err rollback, tx, doc, fs) \<Rightarrow>
                              (Err (lit ''hybrid-v4 install failed: '' @ io_text env e @
                                    lit ''; restoring previous output failed: '' @ io_text env rollback, True),
                               set_sub name tx doc, fs))))))"

definition finish_transaction :: "HybridEnv \<Rightarrow> ustr \<Rightarrow> ustr \<Rightarrow> dir \<Rightarrow> faults \<Rightarrow> (unit, ustr) result \<times> dir \<times> faults" where
  "finish_transaction env path name doc fs =
     (case publish_transaction_inner env name doc fs of
        (Ok _, doc, fs) \<Rightarrow>
          (case cleanup_transaction env name doc fs of
             (Ok _, doc, fs) \<Rightarrow> (Ok (), doc, fs)
           | (Err c, doc, fs) \<Rightarrow>
               (Err (lit ''hybrid-v4 published successfully; transaction cleanup failed at '' @ path @ lit '': '' @ c), doc, fs))
      | (Err (message, True), doc, fs) \<Rightarrow>
          (case remove_private_entry env (lit ''stage'') (sub_dir doc name) fs of
             (r, tx, fs) \<Rightarrow>
               (Err (message @ lit ''; transaction and backup preserved at '' @ path @ lit '' ('' @
                     (case r of Ok _ \<Rightarrow> lit ''staging directory cleaned'' | Err e \<Rightarrow> lit ''staging cleanup failed: '' @ e) @ lit '')''),
                set_sub name tx doc, fs))
      | (Err (message, False), doc, fs) \<Rightarrow>
          (case cleanup_transaction env name doc fs of
             (r, doc, fs) \<Rightarrow> (Err (cleanup_failure message r path), doc, fs)))"

text \<open>
  \<open>validate_and_publish\<close> from the point where the document's directory is open: \<open>source\<close> is what
  \<open>open_bundle\<close> finds, \<open>path\<close> the text of the document's path.
\<close>

definition publish_document :: "HybridEnv \<Rightarrow> nat \<Rightarrow> (ustr \<Rightarrow> ustr) \<Rightarrow> (dir, ustr) result \<Rightarrow> nat \<Rightarrow> nat \<Rightarrow> dir \<Rightarrow> faults \<Rightarrow>
    (unit, ustr) result \<times> nat \<times> dir \<times> faults" where
  "publish_document env pid path source byte_cap serial doc fs =
     (case create_transaction env pid 64 serial doc fs of
        (Err e, serial, doc, fs) \<Rightarrow> (Err e, serial, doc, fs)
      | (Ok name, serial, doc, fs) \<Rightarrow>
          (case copy_bundle env source byte_cap [] fs of
             (r, stage, fs) \<Rightarrow>
               (let doc = set_sub name (AList.update (Some (lit ''stage'')) (Dir stage) (sub_dir doc name)) doc in
                case (case r of Err e \<Rightarrow> (Err e, fs) | Ok _ \<Rightarrow> validate_staged env stage byte_cap fs) of
                  (Err e, fs) \<Rightarrow>
                    (case cleanup_transaction env name doc fs of
                       (c, doc, fs) \<Rightarrow> (Err (cleanup_failure e c (path name)), serial, doc, fs))
                | (Ok _, fs) \<Rightarrow>
                    (case finish_transaction env (path name) name doc fs of
                       (r, doc, fs) \<Rightarrow> (r, serial, doc, fs)))))"

text \<open>Opening the output directory and the document's directory in it, which is created when missing.\<close>

definition open_document :: "ustr \<Rightarrow> nat \<Rightarrow> dir \<Rightarrow> faults \<Rightarrow> (unit, ustr) result \<times> dir \<times> faults" where
  "open_document stem byte_cap root fs =
     (if byte_cap = 0 then (Err (lit ''hybrid-v4 bundle byte cap must be positive''), root, fs)
      else
        (case tick fs of
           (Err e, fs) \<Rightarrow> (Err e, root, fs)
         | (Ok _, fs) \<Rightarrow>
             (case tick fs of
                (Err e, fs) \<Rightarrow> (Err e, root, fs)
              | (Ok _, fs) \<Rightarrow>
                  (case map_of root (Some stem) of
                     Some Link \<Rightarrow> (Err (lit ''hybrid-v4 document stem is a symlink''), root, fs)
                   | Some (Dir _) \<Rightarrow> (case tick fs of (r, fs) \<Rightarrow> (r, root, fs))
                   | Some _ \<Rightarrow> (Err (lit ''hybrid-v4 document stem is not a directory''), root, fs)
                   | None \<Rightarrow>
                       (case tick fs of
                          (Err e, fs) \<Rightarrow> (Err e, root, fs)
                        | (Ok _, fs) \<Rightarrow> (case tick fs of (r, fs) \<Rightarrow> (r, set_sub stem [] root, fs)))))))"

definition validate_and_publish :: "HybridEnv \<Rightarrow> nat \<Rightarrow> (ustr \<Rightarrow> ustr) \<Rightarrow> (dir, ustr) result \<Rightarrow> ustr \<Rightarrow> nat \<Rightarrow> nat \<Rightarrow> dir \<Rightarrow> faults \<Rightarrow>
    (unit, ustr) result \<times> nat \<times> dir \<times> faults" where
  "validate_and_publish env pid path source stem byte_cap serial root fs =
     (case open_document stem byte_cap root fs of
        (Err e, root, fs) \<Rightarrow> (Err e, serial, root, fs)
      | (Ok _, root, fs) \<Rightarrow>
          (case publish_document env pid path source byte_cap serial (sub_dir root stem) fs of
             (r, serial, doc, fs) \<Rightarrow> (r, serial, set_sub stem doc root, fs)))"

section \<open>A copy is the source, within the budgets\<close>

text \<open>What reading a regular file gives: its bytes, in pieces that are not empty.\<close>

definition reads_ok :: "HybridEnv \<Rightarrow> bool" where
  "reads_ok env \<longleftrightarrow> (\<forall>data. concat (he_reads env data) = data \<and> [] \<notin> set (he_reads env data))"

lemma size_entry: "(nm, x) \<in> set es \<Longrightarrow> size x < Suc (size_list (size_prod (\<lambda>_. 0) size) es)"
  by (induction es) auto

function node_data :: "node \<Rightarrow> nat" where
  "node_data (File data) = length data"
| "node_data (Dir es) = sum_list (map (\<lambda>e. node_data (snd e)) es)"
| "node_data Link = 0"
| "node_data Special = 0"
  by pat_completeness auto

termination
  by (relation "measure size") (auto dest: size_entry)

function node_entries :: "node \<Rightarrow> nat" where
  "node_entries (Dir es) = sum_list (map (\<lambda>e. Suc (node_entries (snd e))) es)"
| "node_entries (File data) = 0"
| "node_entries Link = 0"
| "node_entries Special = 0"
  by pat_completeness auto

termination
  by (relation "measure size") (auto dest: size_entry)

text \<open>The lower-case paths of all entries below a directory.\<close>

function node_paths :: "HybridEnv \<Rightarrow> ustr \<Rightarrow> node \<Rightarrow> ustr list" where
  "node_paths env pre (Dir es) =
     concat (map (\<lambda>e. let p = (if pre = [] then [] else pre @ [47]) @ he_lower env (the (fst e))
                      in p # node_paths env p (snd e)) es)"
| "node_paths env pre (File data) = []"
| "node_paths env pre Link = []"
| "node_paths env pre Special = []"
  by pat_completeness auto

termination
  by (relation "measure (\<lambda>(_, _, n). size n)") (auto dest: size_entry)

text \<open>Regular files and directories with portable names, at most so deep.\<close>

function tree_ok :: "nat \<Rightarrow> node \<Rightarrow> bool" where
  "tree_ok d (Dir es) \<longleftrightarrow> (es = [] \<or> 0 < d) \<and>
     list_all (\<lambda>e. (case fst e of None \<Rightarrow> False | Some name \<Rightarrow> portable_name name \<and> blen name \<le> MAX_COMPONENT_BYTES) \<and>
                   tree_ok (d - 1) (snd e)) es"
| "tree_ok d (File data) = True"
| "tree_ok d Link = False"
| "tree_ok d Special = False"
  by pat_completeness auto

termination
  by (relation "measure (\<lambda>(_, n). size n)") (auto dest: size_entry)

lemma copy_chunks_Ok:
  assumes "copy_chunks byte_cap chunks out st fs = (Ok u, out', st', fs')" "[] \<notin> set chunks" "ts_data_bytes st \<le> byte_cap"
  shows "out' = out @ concat chunks \<and> st' = st\<lparr>ts_data_bytes := ts_data_bytes st + length (concat chunks)\<rparr> \<and>
    ts_data_bytes st' \<le> byte_cap"
  using assms
proof (induction chunks arbitrary: out st fs)
  case Nil
  then show ?case by (auto split: prod.splits result.splits)
next
  case (Cons chunk chunks)
  obtain fs1 fs2 where *: "tick fs = (Ok (), fs1)" "chunk \<noteq> []" "tick fs1 = (Ok (), fs2)"
      "charge_data (length chunk) byte_cap st = (Ok (), st\<lparr>ts_data_bytes := ts_data_bytes st + length chunk\<rparr>)"
      "ts_data_bytes st + length chunk \<le> byte_cap"
      "copy_chunks byte_cap chunks (out @ chunk) (st\<lparr>ts_data_bytes := ts_data_bytes st + length chunk\<rparr>) fs2 = (Ok u, out', st', fs')"
    using Cons.prems by (auto simp: charge_data_def cadd_Some_iff split: prod.splits result.splits if_splits option.splits)
  show ?case using Cons.IH [OF *(6)] Cons.prems(2) *(5) by (auto simp: add.assoc)
qed

lemma copy_file_Ok:
  assumes "copy_file env byte_cap name data dst st fs = (Ok u, dst', st', fs')" "reads_ok env" "ts_data_bytes st \<le> byte_cap"
  shows "dst' = dst @ [(Some name, File data)] \<and> st' = st\<lparr>ts_data_bytes := ts_data_bytes st + length data\<rparr> \<and>
    ts_data_bytes st' \<le> byte_cap"
proof -
  obtain out fs1 where *: "copy_chunks byte_cap (he_reads env data) [] st fs1 = (Ok u, out, st', fs')"
      "dst' = dst @ [(Some name, File out)]"
    using assms(1) by (auto simp: copy_file_def split: prod.splits result.splits if_splits)
  have "[] \<notin> set (he_reads env data)" "concat (he_reads env data) = data" using assms(2) by (auto simp: reads_ok_def)
  then show ?thesis using copy_chunks_Ok [OF *(1) _ assms(3)] *(2) by auto
qed

lemma path_child_Ok:
  assumes "path_child env parent name = Ok relative"
  shows "portable_name name" "blen name \<le> MAX_COMPONENT_BYTES" "rp_depth relative = rp_depth parent + 1"
    "rp_depth relative \<le> MAX_DEPTH"
    "rp_portable relative = (if rp_portable parent = [] then [] else rp_portable parent @ [47]) @ he_lower env name"
  using assms by (auto simp: path_child_def result_simps not_less)

lemma admit_entry_Ok:
  assumes "admit_entry env parent nm st fs = (Ok (name, relative), st', fs')"
  shows "nm = Some name \<and> path_child env parent name = Ok relative \<and> rp_portable relative \<notin> ts_names st \<and>
    ts_entries st' = Suc (ts_entries st) \<and> ts_entries st' \<le> MAX_ENTRIES \<and> ts_data_bytes st' = ts_data_bytes st \<and>
    ts_names st' = insert (rp_portable relative) (ts_names st)"
proof -
  obtain fs1 st1 fs2 fs3 where *: "nm = Some name" "admit env parent name st fs1 = (Ok relative, st', fs2)"
    using assms by (auto simp: admit_entry_def split: prod.splits result.splits option.splits)
  show ?thesis using *(2) unfolding *(1) admit_def
    by (auto simp: result_simps cadd_Some_iff not_less split: prod.splits result.splits if_splits)
qed

definition root_entry :: "ustr option \<times> node \<Rightarrow> bool" where
  "root_entry e = (case e of (nm, File _) \<Rightarrow> known_file (the nm) | (nm, Dir _) \<Rightarrow> nm = Some (lit ''images'') | _ \<Rightarrow> False)"

definition walked :: "HybridEnv \<Rightarrow> nat \<Rightarrow> bool \<Rightarrow> RelativePath \<Rightarrow> dir \<Rightarrow> TreeState \<Rightarrow> TreeState \<Rightarrow> bool" where
  "walked env byte_cap root parent es st st' \<longleftrightarrow>
     ts_data_bytes st' = ts_data_bytes st + node_data (Dir es) \<and> ts_data_bytes st' \<le> byte_cap \<and>
     ts_entries st' = ts_entries st + node_entries (Dir es) \<and> ts_entries st' \<le> max (ts_entries st) MAX_ENTRIES \<and>
     ts_names st' = ts_names st \<union> set (node_paths env (rp_portable parent) (Dir es)) \<and>
     distinct (node_paths env (rp_portable parent) (Dir es)) \<and>
     set (node_paths env (rp_portable parent) (Dir es)) \<inter> ts_names st = {} \<and>
     tree_ok (MAX_DEPTH - rp_depth parent) (Dir es) \<and> (root \<longrightarrow> list_all root_entry es)"

text \<open>One entry, and then the rest of its directory.\<close>

lemma walked_Cons:
  assumes "admit_entry env parent nm st fs = (Ok (name, relative), st1, fs1)"
    and "node_data node = n" "tree_ok (MAX_DEPTH - rp_depth relative) node" "root \<longrightarrow> root_entry (nm, node)"
    and "ts_data_bytes st2 = ts_data_bytes st1 + n" "ts_data_bytes st2 \<le> byte_cap"
    and "ts_entries st2 = ts_entries st1 + node_entries node" "ts_entries st2 \<le> max (ts_entries st1) MAX_ENTRIES"
    and "ts_names st2 = ts_names st1 \<union> set (node_paths env (rp_portable relative) node)"
    and "distinct (node_paths env (rp_portable relative) node)" "set (node_paths env (rp_portable relative) node) \<inter> ts_names st1 = {}"
    and "walked env byte_cap root parent rest st2 st'"
  shows "walked env byte_cap root parent ((nm, node) # rest) st st'"
proof -
  note a = admit_entry_Ok [OF assms(1)]
  note pc = path_child_Ok [of env parent name relative]
  have p: "path_child env parent name = Ok relative" using a by blast
  have d: "MAX_DEPTH - rp_depth relative = MAX_DEPTH - rp_depth parent - 1" "0 < MAX_DEPTH - rp_depth parent"
    using pc(3,4) [OF p] by simp_all
  have "tree_ok (MAX_DEPTH - rp_depth parent) (Dir ((nm, node) # rest))"
    using assms(3,12) a pc(1,2) [OF p] d by (simp add: walked_def)
  moreover have paths: "node_paths env (rp_portable parent) (Dir ((nm, node) # rest)) =
      rp_portable relative # node_paths env (rp_portable relative) node @ node_paths env (rp_portable parent) (Dir rest)"
    using a pc(5) [OF p] by (simp add: Let_def)
  moreover have "distinct (p # P @ R) \<and> set (p # P @ R) \<inter> N = {}"
    if "p \<notin> N" "N1 = insert p N" "set P \<inter> N1 = {}" "N2 = N1 \<union> set P" "set R \<inter> N2 = {}" "distinct P" "distinct R"
    for p :: ustr and P R N N1 N2 using that by auto
  note this [of "rp_portable relative" "ts_names st" "ts_names st1" "node_paths env (rp_portable relative) node" "ts_names st2"
      "node_paths env (rp_portable parent) (Dir rest)"]
  then have "distinct (node_paths env (rp_portable parent) (Dir ((nm, node) # rest))) \<and>
      set (node_paths env (rp_portable parent) (Dir ((nm, node) # rest))) \<inter> ts_names st = {}"
    unfolding paths using a assms(9-12) unfolding walked_def by blast
  moreover have "ts_names st' = ts_names st \<union> set (node_paths env (rp_portable parent) (Dir ((nm, node) # rest)))"
    unfolding paths using a assms(9,12) unfolding walked_def by auto
  moreover have "ts_entries st' \<le> max (ts_entries st) MAX_ENTRIES" using a assms(8,12) by (simp add: walked_def)
  ultimately show ?thesis using a assms(2,4,5,6,7,12) by (simp add: walked_def)
qed

lemma walk_entries_Ok:
  assumes "walk_entries env byte_cap root parent es dst st fs = (Ok u, dst', st', fs')" "reads_ok env"
    and "ts_data_bytes st \<le> byte_cap"
  shows "dst' = dst @ es \<and> walked env byte_cap root parent es st st'"
  using assms(1,3)
proof (induction "size_list (size_prod (\<lambda>_. 0) size) es" arbitrary: root parent es dst st fs dst' st' fs' u rule: less_induct)
  case less
  show ?case
  proof (cases es)
    case Nil
    then show ?thesis using less.prems by (simp add: walked_def)
  next
    case (Cons e rest)
    obtain nm node where e: "e = (nm, node)" by force
    obtain name relative st1 fs1 where a: "admit_entry env parent nm st fs = (Ok (name, relative), st1, fs1)"
      using less.prems(1) by (auto simp: Cons e split: prod.splits result.splits)
    have nm: "nm = Some name" and d1: "ts_data_bytes st1 \<le> byte_cap" using admit_entry_Ok [OF a] less.prems(2) by auto
    show ?thesis
    proof (cases node)
      case (File data)
      obtain dst2 st2 fs2 where *: "root \<longrightarrow> known_file name" "copy_file env byte_cap name data dst st1 fs1 = (Ok (), dst2, st2, fs2)"
          "walk_entries env byte_cap root parent rest dst2 st2 fs2 = (Ok u, dst', st', fs')"
        using less.prems(1) a by (auto simp: Cons e File split: prod.splits result.splits if_splits)
      note c = copy_file_Ok [OF *(2) assms(2) d1]
      have "dst' = dst2 @ rest \<and> walked env byte_cap root parent rest st2 st'"
        using less.hyps [OF _ *(3)] conjunct2 [OF conjunct2 [OF c]] by (simp add: Cons e)
      moreover have "walked env byte_cap root parent ((nm, node) # rest) st st'"
        by (rule walked_Cons [OF a, where ?st2.0 = st2, OF refl]) (use calculation c * File nm in \<open>auto simp: root_entry_def\<close>)
      ultimately show ?thesis using c File nm by (simp add: Cons e)
    next
      case (Dir sub)
      obtain fs2 fs3 dst2 fs4 sub' st2 fs5 where *: "root \<longrightarrow> name = lit ''images''"
          "create_destination_dir name dst fs2 = (Ok (), dst2, fs3)"
          "walk_entries env byte_cap False relative sub [] st1 fs4 = (Ok (), sub', st2, fs5)"
          "walk_entries env byte_cap root parent rest (AList.update (Some name) (Dir sub') dst2) st2 fs5 = (Ok u, dst', st', fs')"
        using less.prems(1) a by (auto simp: Cons e Dir split: prod.splits result.splits if_splits)
      have dst2: "dst2 = dst @ [(Some name, Dir [])]" "Some name \<notin> fst ` set dst"
        using *(2) by (auto simp: create_destination_dir_def map_of_eq_None_iff split: prod.splits result.splits if_splits)
      have upd: "AList.update (Some name) (Dir sub') dst2 = dst @ [(Some name, Dir sub')]"
        using dst2(2) unfolding dst2(1) by (induction dst) auto
      have s: "sub' = sub \<and> walked env byte_cap False relative sub st1 st2"
        using less.hyps [OF _ *(3) d1] by (simp add: Cons e Dir)
      then have d2: "ts_data_bytes st2 \<le> byte_cap" by (simp add: walked_def)
      have r: "dst' = dst @ [(Some name, Dir sub')] @ rest \<and> walked env byte_cap root parent rest st2 st'"
        using less.hyps [OF _ *(4) d2] by (simp add: Cons e upd)
      have "walked env byte_cap root parent ((nm, node) # rest) st st'"
        by (rule walked_Cons [OF a, where ?st2.0 = st2, OF refl]) (use r s * Dir nm in \<open>auto simp: root_entry_def walked_def\<close>)
      then show ?thesis using r s Dir nm by (simp add: Cons e)
    qed (use less.prems(1) a in \<open>auto simp: Cons e\<close>)
  qed
qed

lemma copy_bundle_Ok:
  assumes "copy_bundle env source byte_cap [] fs = (Ok u, dst, fs')" "reads_ok env"
  shows "source = Ok dst \<and> (\<exists>st. walked env byte_cap True relative_root dst tree_default st)"
proof -
  obtain es st fs1 where *: "source = Ok es" "walk_entries env byte_cap True relative_root es [] tree_default fs1 = (Ok u, dst, st, fs')"
    using assms(1) by (auto simp: copy_bundle_def split: prod.splits result.splits)
  show ?thesis using walk_entries_Ok [OF *(2) assms(2)] *(1) by (auto simp: tree_default_def)
qed

section \<open>What the operations leave alone\<close>

lemma map_of_update [simp]: "map_of (AList.update k v d) = (map_of d)(k \<mapsto> v)"
  by (rule update_conv')

lemma map_of_delete [simp]: "map_of (AList.delete k d) = (map_of d)(k := None)"
  by (rule delete_conv')

lemma set_sub_simps [simp]:
  "map_of (set_sub name es d) = (map_of d)(Some name \<mapsto> Dir es)" "sub_dir (set_sub name es d) name = es"
  "n \<noteq> name \<Longrightarrow> sub_dir (set_sub n es d) name = sub_dir d name"
  by (simp_all add: set_sub_def sub_dir_def)

definition same_but :: "ustr option set \<Rightarrow> dir \<Rightarrow> dir \<Rightarrow> bool" where
  "same_but S d d' \<longleftrightarrow> (\<forall>k. k \<notin> S \<longrightarrow> map_of d' k = map_of d k)"

lemma same_but_refl [simp]: "same_but S d d"
  by (simp add: same_but_def)

lemma same_but_trans: "same_but S d d' \<Longrightarrow> same_but S d' d'' \<Longrightarrow> same_but S d d''"
  by (simp add: same_but_def)

lemma same_but_mono: "same_but S d d' \<Longrightarrow> S \<subseteq> T \<Longrightarrow> same_but T d d'"
  by (auto simp: same_but_def)

lemma remove_all_same: "remove_all name d fs = (r, d', fs') \<Longrightarrow> same_but {Some name} d d'"
  by (auto simp: remove_all_def same_but_def split: if_splits list.splits option.splits fault.splits)

lemma remove_dir_cases:
  "remove_dir name d fs = (r, d', fs') \<Longrightarrow>
   same_but {Some name} d d' \<and> (r = Ok () \<longrightarrow> map_of d' (Some name) = None) \<and> (r = Err (Os NotFound) \<longrightarrow> map_of d (Some name) = None)"
  by (auto simp: remove_dir_def same_but_def split: if_splits option.splits node.splits prod.splits result.splits)

lemma rename_cases:
  "rename_entry a src b dst fs = (r, src', dst', fs') \<Longrightarrow>
   (case r of
      Ok _ \<Rightarrow> map_of src (Some a) \<noteq> None \<and> map_of src' = (map_of src)(Some a := None) \<and>
        map_of dst' = (map_of dst)(Some b := map_of src (Some a))
    | Err _ \<Rightarrow> src' = src \<and> dst' = dst)"
  by (auto simp: rename_entry_def split: option.splits prod.splits result.splits)

lemma remove_private_same: "remove_private_entry env name d fs = (r, d', fs') \<Longrightarrow> same_but {Some name} d d'"
  by (auto simp: remove_private_entry_def dest: remove_all_same split: prod.splits result.splits)

lemma cleanup_same:
  assumes "cleanup_transaction env name doc fs = (r, doc', fs')"
  shows "same_but {Some name} doc doc' \<and> (r = Ok () \<longrightarrow> map_of doc' (Some name) = None)"
proof -
  obtain r1 tx1 fs1 r2 tx2 fs2 r3 where *: "remove_private_entry env (lit ''stage'') (sub_dir doc name) fs = (r1, tx1, fs1)"
      "remove_private_entry env (lit ''backup'') tx1 fs1 = (r2, tx2, fs2)"
      "remove_dir name (set_sub name tx2 doc) fs2 = (r3, doc', fs')"
      "r = Ok () \<longrightarrow> (case r3 of Err e \<Rightarrow> e = Os NotFound | Ok _ \<Rightarrow> True)"
    using assms by (auto simp: cleanup_transaction_def Let_def split: prod.splits if_splits result.splits)
  have "same_but {Some name} doc (set_sub name tx2 doc)" by (simp add: same_but_def)
  moreover note remove_dir_cases [OF *(3)]
  ultimately show ?thesis using *(4) by (cases r3) (auto intro: same_but_trans)
qed

lemma create_transaction_cases:
  assumes "create_transaction env pid tries serial doc fs = (r, serial', doc', fs')"
  shows "\<exists>n. map_of doc (Some (stage_name pid n)) = None \<and> same_but {Some (stage_name pid n)} doc doc' \<and>
      (case r of Ok name \<Rightarrow> name = stage_name pid n \<and> sub_dir doc' name = [(Some (lit ''stage''), Dir [])] | Err _ \<Rightarrow> True)
    \<or> (doc' = doc \<and> (\<exists>e. r = Err e))"
  using assms
proof (induction tries arbitrary: serial)
  case (Suc tries)
  let ?n = "stage_name pid serial"
  show ?case
  proof (cases "serial = U64_MAX \<or> map_of doc (Some ?n) \<noteq> None")
    case True
    then show ?thesis using Suc by (auto simp: Let_def split: if_splits)
  next
    case False
    then have free: "map_of doc (Some ?n) = None" by simp
    show ?thesis
    proof (cases "tick fs")
      case (Pair r0 fs1)
      show ?thesis
      proof (cases r0)
        case (Err e)
        then show ?thesis using Suc.prems False Pair by (auto simp: Let_def)
      next
        case (Ok u)
        obtain r1 doc1 fs2 where o: "open_transaction ?n (set_sub ?n [] doc) fs1 = (r1, doc1, fs2)" by (metis prod_cases3)
        have s1: "same_but {Some ?n} doc doc1" "r1 = Ok () \<Longrightarrow> sub_dir doc1 ?n = [(Some (lit ''stage''), Dir [])]"
          using o by (auto simp: open_transaction_def same_but_def split: prod.splits result.splits)
        show ?thesis
        proof (cases r1)
          case (Ok u1)
          then show ?thesis using Suc.prems False Pair \<open>r0 = Ok u\<close> o s1 free by (auto simp: Let_def)
        next
          case (Err e)
          obtain r2 doc2 fs3 where "remove_all ?n doc1 fs2 = (r2, doc2, fs3)" by (metis prod_cases3)
          moreover from remove_all_same [OF this] have "same_but {Some ?n} doc doc2" using s1(1) by (rule same_but_trans [rotated])
          ultimately show ?thesis using Suc.prems False Pair Ok Err o free by (auto simp: Let_def split: result.splits)
        qed
      qed
    qed
  qed
qed auto

lemma publish_inner_cases:
  assumes run: "publish_transaction_inner env name doc fs = (r, doc', fs')"
    and ne: "name \<noteq> BUNDLE_NAME" and stage: "map_of (sub_dir doc name) (Some (lit ''stage'')) = Some (Dir es)"
  shows "same_but {Some name, Some BUNDLE_NAME} doc doc' \<and>
    (case r of
       Ok _ \<Rightarrow> map_of doc' (Some BUNDLE_NAME) = Some (Dir es)
     | Err (_, False) \<Rightarrow> map_of doc' (Some BUNDLE_NAME) = map_of doc (Some BUNDLE_NAME)
     | Err (_, True) \<Rightarrow> map_of doc (Some BUNDLE_NAME) \<noteq> None \<and> map_of doc' (Some BUNDLE_NAME) = None \<and>
         map_of (sub_dir doc' name) (Some (lit ''backup'')) = map_of doc (Some BUNDLE_NAME))"
proof (cases "tick fs")
  case (Pair r0 fs0)
  let ?t = "map_of doc (Some BUNDLE_NAME)"
  show ?thesis
  proof (cases "r0 \<noteq> Ok () \<or> ?t = Some Link \<or> ?t \<noteq> None \<and> \<not> is_Dir (the ?t)")
    case True
    then show ?thesis using run Pair by (cases r0) (auto simp: publish_transaction_inner_def Let_def split: if_splits)
  next
    case False
    then have r0: "r0 = Ok ()" by blast
    obtain r1 doc1 tx1 fs1 where 1: "(if ?t = None then (Ok (), doc, sub_dir doc name, fs0)
        else rename_entry BUNDLE_NAME doc (lit ''backup'') (sub_dir doc name) fs0) = (r1, doc1, tx1, fs1)"
      by (metis prod_cases4)
    have c1: "case r1 of Err _ \<Rightarrow> doc1 = doc
      | Ok _ \<Rightarrow> map_of doc1 = (map_of doc)(Some BUNDLE_NAME := None) \<and> map_of tx1 (Some (lit ''stage'')) = Some (Dir es) \<and>
          (?t \<noteq> None \<longrightarrow> map_of tx1 (Some (lit ''backup'')) = ?t)"
    proof (cases "?t = None")
      case True
      then have "r1 = Ok () \<and> doc1 = doc \<and> tx1 = sub_dir doc name" using 1 by auto
      moreover have "map_of doc = (map_of doc)(Some BUNDLE_NAME := None)" using True by (rule fun_upd_idem [symmetric])
      ultimately show ?thesis using True stage by simp
    next
      case False
      then have "rename_entry BUNDLE_NAME doc (lit ''backup'') (sub_dir doc name) fs0 = (r1, doc1, tx1, fs1)"
        using 1 by (simp only: if_False)
      from rename_cases [OF this] show ?thesis using stage by (cases r1) simp_all
    qed
    show ?thesis
    proof (cases r1)
      case (Err e)
      then show ?thesis using run Pair False r0 1 c1 by (auto simp: publish_transaction_inner_def Let_def split: if_splits)
    next
      case (Ok u)
      obtain r2 tx2 doc2 fs2 where 2: "rename_entry (lit ''stage'') tx1 BUNDLE_NAME doc1 fs1 = (r2, tx2, doc2, fs2)"
        by (metis prod_cases4)
      note c2 = rename_cases [OF 2]
      show ?thesis
      proof (cases r2)
        case (Ok u2)
        then show ?thesis using run Pair False r0 1 2 c1 c2 \<open>r1 = Ok u\<close> ne
          by (auto simp: publish_transaction_inner_def Let_def same_but_def split: if_splits)
      next
        case (Err e2)
        obtain r3 tx3 doc3 fs3 where 3: "rename_entry (lit ''backup'') tx2 BUNDLE_NAME doc2 fs2 = (r3, tx3, doc3, fs3)"
          by (metis prod_cases4)
        note c3 = rename_cases [OF 3]
        have same: "tx2 = tx1" "doc2 = doc1" using c2 Err by simp_all
        have c1': "map_of doc1 = (map_of doc)(Some BUNDLE_NAME := None)" "?t \<noteq> None \<longrightarrow> map_of tx1 (Some (lit ''backup'')) = ?t"
          using c1 Ok by simp_all
        have res: "(r, doc') = (if ?t = None then (Err (io_text env e2, False), set_sub name tx2 doc2)
            else case r3 of Ok _ \<Rightarrow> (Err (io_text env e2, False), set_sub name tx3 doc3)
              | Err rollback \<Rightarrow> (Err (lit ''hybrid-v4 install failed: '' @ io_text env e2 @
                   lit ''; restoring previous output failed: '' @ io_text env rollback, True), set_sub name tx3 doc3))"
          using run unfolding publish_transaction_inner_def Pair prod.case r0 result.case Let_def 1 Ok 2 Err 3
          using False by (auto split: result.splits)
        show ?thesis
        proof (cases "?t = None")
          case True
          then show ?thesis using res same c1' ne by (simp add: same_but_def)
        next
          case False
          then obtain old where "?t = Some old" by blast
          then show ?thesis using res same c1' c3 ne by (cases r3) (simp_all add: same_but_def)
        qed
      qed
    qed
  qed
qed

lemma finish_cases:
  assumes run: "finish_transaction env path name doc fs = (r, doc', fs')"
    and ne: "name \<noteq> BUNDLE_NAME" and stage: "map_of (sub_dir doc name) (Some (lit ''stage'')) = Some (Dir es)"
  shows "same_but {Some name, Some BUNDLE_NAME} doc doc' \<and>
    (case r of
       Ok _ \<Rightarrow> map_of doc' (Some BUNDLE_NAME) = Some (Dir es) \<and> map_of doc' (Some name) = None
     | Err e \<Rightarrow> map_of doc' (Some BUNDLE_NAME) = map_of doc (Some BUNDLE_NAME)
         \<or> map_of doc' (Some BUNDLE_NAME) = Some (Dir es) \<and> prefix (lit ''hybrid-v4 published successfully'') e
         \<or> map_of doc (Some BUNDLE_NAME) \<noteq> None \<and> map_of doc' (Some BUNDLE_NAME) = None \<and>
           map_of (sub_dir doc' name) (Some (lit ''backup'')) = map_of doc (Some BUNDLE_NAME))"
proof -
  obtain r1 doc1 fs1 where 1: "publish_transaction_inner env name doc fs = (r1, doc1, fs1)" by (metis prod_cases3)
  note c1 = publish_inner_cases [OF 1 ne stage]
  obtain r2 doc2 fs2 where 2: "cleanup_transaction env name doc1 fs1 = (r2, doc2, fs2)" by (metis prod_cases3)
  note c2 = cleanup_same [OF 2]
  have t2: "map_of doc2 (Some BUNDLE_NAME) = map_of doc1 (Some BUNDLE_NAME)" using c2 ne by (simp add: same_but_def)
  have s2: "same_but {Some name, Some BUNDLE_NAME} doc doc2" using c1 c2 by (simp add: same_but_def)
  show ?thesis
  proof (cases r1)
    case (Ok u)
    then show ?thesis using run 1 2 c1 c2 t2 s2
      by (cases r2) (auto simp: finish_transaction_def prefix_def)
  next
    case (Err e)
    obtain m b where e: "e = (m, b)" by force
    show ?thesis
    proof (cases b)
      case True
      obtain r3 tx3 fs3 where 3: "remove_private_entry env (lit ''stage'') (sub_dir doc1 name) fs1 = (r3, tx3, fs3)"
        by (metis prod_cases3)
      from remove_private_same [OF 3] have "map_of tx3 (Some (lit ''backup'')) = map_of (sub_dir doc1 name) (Some (lit ''backup''))"
        by (simp add: same_but_def)
      then show ?thesis using run 1 3 c1 Err e True ne by (auto simp: finish_transaction_def same_but_def)
    next
      case False
      then show ?thesis using run 1 2 c1 t2 s2 Err e by (auto simp: finish_transaction_def)
    qed
  qed
qed

section \<open>What a checked stage holds\<close>

definition file_valid :: "HybridEnv \<Rightarrow> dir \<Rightarrow> string \<Rightarrow> bool" where
  "file_valid env es name \<longleftrightarrow> (\<exists>data. map_of es (Some (lit name)) = Some (File data) \<and> check_known env name data = Ok ())"

definition bundle_valid :: "HybridEnv \<Rightarrow> dir \<Rightarrow> bool" where
  "bundle_valid env es \<longleftrightarrow>
     file_valid env es ''markdown.md'' \<and> file_valid env es ''middle_json.json'' \<and> file_valid env es ''structured_content.json'' \<and>
     (map_of es (Some (lit ''model_output.json'')) \<noteq> None \<longrightarrow> file_valid env es ''model_output.json'')"

definition bundle_within :: "HybridEnv \<Rightarrow> nat \<Rightarrow> dir \<Rightarrow> bool" where
  "bundle_within env byte_cap es \<longleftrightarrow>
     node_data (Dir es) \<le> byte_cap \<and> node_entries (Dir es) \<le> MAX_ENTRIES \<and> distinct (node_paths env [] (Dir es)) \<and>
     tree_ok MAX_DEPTH (Dir es) \<and> list_all root_entry es"

lemma read_bounded_Ok:
  "read_bounded c chunks bytes fs = (Ok out, fs') \<Longrightarrow> [] \<notin> set chunks \<Longrightarrow> out = bytes @ concat chunks"
proof (induction chunks arbitrary: bytes fs)
  case (Cons chunk chunks)
  then obtain fs2 where "read_bounded c chunks (bytes @ chunk) fs2 = (Ok out, fs')"
    by (auto split: prod.splits result.splits option.splits if_splits)
  from Cons.IH [OF this] show ?case using Cons.prems(2) by simp
qed (auto split: prod.splits result.splits)

lemma validate_staged_file_Ok:
  assumes "validate_staged_file env stage name byte_cap fs = (Ok u, fs')" "reads_ok env"
  shows "file_valid env stage name"
proof -
  obtain data fs1 fs2 where *: "open_file_nofollow env stage (lit name) fs = (Ok data, fs1)"
      "validate_known_file env name data (length data) byte_cap fs2 = (Ok u, fs')"
    using assms(1) by (auto simp: validate_staged_file_def split: prod.splits result.splits)
  have f: "map_of stage (Some (lit name)) = Some (File data)"
    using *(1) by (auto simp: open_file_nofollow_def split: prod.splits result.splits option.splits node.splits)
  obtain bytes fs3 where r: "read_bounded (min byte_cap MAX_RESIDENT_BYTES) (he_reads env data) [] fs2 = (Ok bytes, fs3)"
      "check_known env name bytes = Ok u"
    using *(2) by (auto simp: validate_known_file_def Let_def result_simps split: prod.splits result.splits if_splits)
  have "bytes = data" using read_bounded_Ok [OF r(1)] assms(2) by (simp add: reads_ok_def)
  then show ?thesis using f r(2) by (auto simp: file_valid_def)
qed

lemma validate_files_Ok:
  "validate_files env stage byte_cap names fs = (Ok u, fs') \<Longrightarrow> reads_ok env \<Longrightarrow> \<forall>name \<in> set names. file_valid env stage name"
proof (induction names arbitrary: fs)
  case (Cons name names)
  obtain fs1 where "validate_staged_file env stage name byte_cap fs = (Ok (), fs1)"
      "validate_files env stage byte_cap names fs1 = (Ok u, fs')"
    using Cons.prems by (auto split: prod.splits result.splits)
  then show ?case using Cons.IH validate_staged_file_Ok Cons.prems(2) by auto
qed simp

lemma validate_staged_Ok:
  assumes "validate_staged env stage byte_cap fs = (Ok u, fs')" "reads_ok env"
  shows "bundle_valid env stage"
proof -
  obtain fs1 fs2 where *: "validate_files env stage byte_cap [''markdown.md'', ''middle_json.json'', ''structured_content.json''] fs = (Ok (), fs1)"
      "(case map_of stage (Some (lit ''model_output.json'')) of
                  None \<Rightarrow> (Ok (), fs2)
                | Some Link \<Rightarrow> (Err (lit ''hybrid-v4 staged model_output.json is a symlink''), fs2)
                | Some _ \<Rightarrow> validate_staged_file env stage ''model_output.json'' byte_cap fs2) = (Ok u, fs')"
    using assms(1) unfolding validate_staged_def by (auto simp del: validate_files.simps split: prod.splits result.splits)
  have "file_valid env stage ''model_output.json''" if "map_of stage (Some (lit ''model_output.json'')) \<noteq> None"
    using *(2) that validate_staged_file_Ok [OF _ assms(2)] by (auto split: option.splits node.splits)
  then show ?thesis using validate_files_Ok [OF *(1) assms(2)] unfolding bundle_valid_def by simp
qed

lemma bundle_within_walked: "walked env byte_cap True relative_root es tree_default st \<Longrightarrow> bundle_within env byte_cap es"
  by (simp add: walked_def bundle_within_def tree_default_def relative_root_def)

lemma stage_not_target: "stage_name pid n \<noteq> BUNDLE_NAME"
  by (simp add: stage_name_def BUNDLE_NAME_def)

section \<open>Publication is atomic\<close>

text \<open>
  How the directory of a document may look after the attempt: \<open>old\<close> and \<open>new\<close> are its entries
  before and after, \<open>name\<close> is the private directory of the attempt.
\<close>

definition publish_outcome :: "HybridEnv \<Rightarrow> nat \<Rightarrow> (dir, ustr) result \<Rightarrow> (unit, ustr) result \<Rightarrow> ustr \<Rightarrow> dir \<Rightarrow> dir \<Rightarrow> bool" where
  "publish_outcome env byte_cap source r name old new \<longleftrightarrow>
     same_but {Some name, Some BUNDLE_NAME} old new \<and>
     (case r of
        Ok _ \<Rightarrow> (\<exists>es. source = Ok es \<and> bundle_within env byte_cap es \<and> bundle_valid env es \<and>
                  map_of new (Some BUNDLE_NAME) = Some (Dir es) \<and> map_of new (Some name) = None)
      | Err e \<Rightarrow>
          map_of new (Some BUNDLE_NAME) = map_of old (Some BUNDLE_NAME)
          \<or> (\<exists>es. source = Ok es \<and> bundle_within env byte_cap es \<and> bundle_valid env es \<and>
               map_of new (Some BUNDLE_NAME) = Some (Dir es) \<and> prefix (lit ''hybrid-v4 published successfully'') e)
          \<or> map_of old (Some BUNDLE_NAME) \<noteq> None \<and> map_of new (Some BUNDLE_NAME) = None \<and>
            map_of (sub_dir new name) (Some (lit ''backup'')) = map_of old (Some BUNDLE_NAME))"

lemma open_document_same:
  "open_document stem byte_cap root fs = (r, root', fs') \<Longrightarrow>
   same_but {Some stem} root root' \<and> sub_dir root' stem = sub_dir root stem"
  by (auto simp: open_document_def same_but_def sub_dir_def split: if_splits prod.splits result.splits option.splits node.splits)

lemma publish_outcome_failed:
  "same_but {Some (stage_name pid n)} old new \<Longrightarrow> publish_outcome env byte_cap source (Err e) (stage_name pid n) old new"
  using stage_not_target [of pid n] by (auto simp: publish_outcome_def same_but_def)

lemma publish_document_outcome:
  assumes run: "publish_document env pid path source byte_cap serial doc fs = (r, serial', doc', fs')" and "reads_ok env"
  shows "\<exists>n. map_of doc (Some (stage_name pid n)) = None \<and> publish_outcome env byte_cap source r (stage_name pid n) doc doc'
    \<or> doc' = doc \<and> (\<exists>e. r = Err e)"
proof -
  obtain r0 serial0 doc0 fs0 where 0: "create_transaction env pid 64 serial doc fs = (r0, serial0, doc0, fs0)" by (metis prod_cases4)
  show ?thesis
  proof (cases r0)
    case (Err e)
    then have "r = Err e" "doc' = doc0" using run 0 by (auto simp: publish_document_def)
    then show ?thesis using create_transaction_cases [OF 0] Err publish_outcome_failed by fastforce
  next
    case (Ok name)
    from create_transaction_cases [OF 0] obtain n where n: "map_of doc (Some name) = None" "name = stage_name pid n"
        "same_but {Some name} doc doc0" "sub_dir doc0 name = [(Some (lit ''stage''), Dir [])]"
      unfolding Ok result.case by blast
    obtain r1 stage fs1 where 1: "copy_bundle env source byte_cap [] fs0 = (r1, stage, fs1)" by (metis prod_cases3)
    let ?doc1 = "set_sub name (AList.update (Some (lit ''stage'')) (Dir stage) (sub_dir doc0 name)) doc0"
    have d1: "same_but {Some name} doc ?doc1" using n(3) by (simp add: same_but_def)
    obtain r2 fs2 where 2: "(case r1 of Err e \<Rightarrow> (Err e, fs1) | Ok _ \<Rightarrow> validate_staged env stage byte_cap fs1) = (r2, fs2)" by force
    show ?thesis
    proof (cases r2)
      case (Err e)
      obtain c doc2 fs3 where 3: "cleanup_transaction env name ?doc1 fs2 = (c, doc2, fs3)" by (metis prod_cases3)
      have "r = Err (cleanup_failure e c (path name))" "doc' = doc2"
        using run 0 Ok 1 2 Err 3 by (simp_all add: publish_document_def Let_def)
      moreover have "same_but {Some name} doc doc2" using d1 cleanup_same [OF 3] same_but_trans by blast
      ultimately show ?thesis using n publish_outcome_failed by blast
    next
      case ok2: (Ok u)
      obtain r3 doc3 fs3 where 3: "finish_transaction env (path name) name ?doc1 fs2 = (r3, doc3, fs3)" by (metis prod_cases3)
      have res: "r = r3" "doc' = doc3" using run 0 Ok 1 2 ok2 3 by (simp_all add: publish_document_def Let_def)
      have ok1: "r1 = Ok ()" and v: "validate_staged env stage byte_cap fs1 = (Ok (), fs2)" using 2 ok2 by (cases r1; simp)+
      have src: "source = Ok stage" "bundle_within env byte_cap stage"
        using copy_bundle_Ok [OF 1 [unfolded ok1] assms(2)] bundle_within_walked by blast+
      have val: "bundle_valid env stage" by (rule validate_staged_Ok [OF v assms(2)])
      have ne: "name \<noteq> BUNDLE_NAME" using n(2) stage_not_target by simp
      have t: "map_of ?doc1 (Some BUNDLE_NAME) = map_of doc (Some BUNDLE_NAME)" using d1 ne by (simp add: same_but_def)
      have st: "map_of (sub_dir ?doc1 name) (Some (lit ''stage'')) = Some (Dir stage)" by simp
      note f = finish_cases [OF 3 ne st, unfolded t]
      have "same_but {Some name, Some BUNDLE_NAME} doc doc3"
        using f d1 by (auto simp: same_but_def)
      then have "publish_outcome env byte_cap source r name doc doc'"
        using f src val unfolding res publish_outcome_def by (cases r3) auto
      then show ?thesis using n by blast
    qed
  qed
qed

text \<open>
  C3: Publishing a bundle is atomic, whichever of the calls into the operating system fail. After
  the attempt nothing of the output directory outside the document's directory has changed, and in
  it nothing but the bundle directory and one private directory that did not exist before. If the
  attempt succeeds, the bundle directory is exactly the bundle given, which is complete, valid and
  within the limits, and the private directory is gone. If it fails, the bundle directory is what
  it was before; or it is the whole new bundle and the message says that it was published; or the
  previous output could not be put back and is kept intact as the backup in the private directory.
\<close>

theorem publish_atomic:
  assumes "validate_and_publish env pid path source stem byte_cap serial root fs = (r, serial', root', fs')" "reads_ok env"
  shows "same_but {Some stem} root root' \<and>
    (\<exists>n. map_of (sub_dir root stem) (Some (stage_name pid n)) = None \<and>
         publish_outcome env byte_cap source r (stage_name pid n) (sub_dir root stem) (sub_dir root' stem)
       \<or> sub_dir root' stem = sub_dir root stem \<and> (\<exists>e. r = Err e))"
proof -
  obtain r0 root0 fs0 where 0: "open_document stem byte_cap root fs = (r0, root0, fs0)" by (metis prod_cases3)
  note o = open_document_same [OF 0]
  show ?thesis
  proof (cases r0)
    case (Err e)
    then have "r = Err e" "root' = root0" using assms(1) 0 by (simp_all add: validate_and_publish_def)
    then show ?thesis using o by auto
  next
    case (Ok u)
    obtain r1 s1 doc fs1 where 1: "publish_document env pid path source byte_cap serial (sub_dir root0 stem) fs0 = (r1, s1, doc, fs1)"
      by (metis prod_cases4)
    have res: "r = r1" "root' = set_sub stem doc root0" using assms(1) 0 Ok 1 by (simp_all add: validate_and_publish_def)
    have "same_but {Some stem} root root'" using o unfolding res by (simp add: same_but_def)
    then show ?thesis using publish_document_outcome [OF 1 assms(2)] o unfolding res by simp
  qed
qed

definition sample_hybrid :: HybridEnv where
  "sample_hybrid = \<lparr>he_os = (\<lambda>_. []), he_lower = map to_ascii_lowercase, he_reads = (\<lambda>data. if data = [] then [] else [data]),
     he_from_slice = (\<lambda>_. Ok (JObject [(lit ''pages'', JArray []), (lit ''schema'', jstr ''docvortex.middle''),
       (lit ''schema_version'', jstr ''2.0'')]))\<rparr>"

definition sample_bundle :: dir where
  "sample_bundle = [(Some (lit ''markdown.md''), File [104, 105]), (Some (lit ''middle_json.json''), File [123, 125]),
     (Some (lit ''structured_content.json''), File [123, 125]),
     (Some (lit ''images''), Dir [(Some (lit ''a.png''), File [1])])]"

lemma sample_reads: "reads_ok sample_hybrid"
  by (simp add: reads_ok_def sample_hybrid_def)

lemma sample_portable:
  "portable_name (lit ''markdown.md'')" "portable_name (lit ''middle_json.json'')" "portable_name (lit ''structured_content.json'')"
  "portable_name (lit ''images'')" "portable_name (lit ''a.png'')"
  by (simp_all add: portable_name_def is_control_def FORBIDDEN_def windows_device_name_def Let_def eq_ignore_ascii_case_def
      to_ascii_lowercase_def len_utf8_def)

lemmas budget_defs = MAX_COMPONENT_BYTES_def MAX_DEPTH_def MAX_RELATIVE_PATH_BYTES_def MAX_NAME_BUDGET_def MAX_ENTRIES_def
  MAX_RESIDENT_BYTES_def U64_MAX_def

lemma sample_copy: "copy_bundle sample_hybrid (Ok sample_bundle) 100 [] [] = (Ok (), sample_bundle, [])"
  using sample_portable
  by (simp add: copy_bundle_def sample_bundle_def admit_entry_def admit_def path_child_def relative_root_def tree_default_def
      cadd_def budget_defs len_utf8_def sample_hybrid_def to_ascii_lowercase_def known_file_def copy_file_def charge_data_def
      create_destination_dir_def)

lemma sample_valid: "validate_staged sample_hybrid sample_bundle 100 [] = (Ok (), [])"
  by (simp add: validate_staged_def sample_bundle_def validate_staged_file_def open_file_nofollow_def validate_known_file_def
      Let_def budget_defs sample_hybrid_def cadd_def check_known_def from_utf8_def validate_json_def SCHEMA_VERSION_def)

lemma sample_published:
  "validate_and_publish sample_hybrid 7 (\<lambda>n. n) (Ok sample_bundle) (lit ''doc'') 100 0
     [(Some (lit ''doc''), Dir [(Some BUNDLE_NAME, Dir [])])] [] =
   (Ok (), 1, [(Some (lit ''doc''), Dir [(Some BUNDLE_NAME, Dir sample_bundle)])], [])"
proof -
  have c: "create_transaction sample_hybrid 7 64 0 [(Some BUNDLE_NAME, Dir [])] [] =
      (Ok (stage_name 7 0), 1, [(Some BUNDLE_NAME, Dir []), (Some (stage_name 7 0), Dir [(Some (lit ''stage''), Dir [])])], [])"
  proof -
    have n: "(64::nat) = Suc 63" "U64_MAX \<noteq> 0" by (simp_all add: U64_MAX_def)
    show ?thesis unfolding n(1) create_transaction.simps(2)
      using stage_not_target [of 7 0] n(2) by (simp add: Let_def open_transaction_def set_sub_def)
  qed
  show ?thesis
    using c sample_copy sample_valid stage_not_target [of 7 0]
    by (simp add: validate_and_publish_def open_document_def publish_document_def sub_dir_def set_sub_def Let_def
        finish_transaction_def publish_transaction_inner_def rename_entry_def cleanup_transaction_def remove_private_entry_def
        remove_all_def remove_dir_def entry_error_def)
qed

theorem publish_atomic_witness:
  "\<exists>n. publish_outcome sample_hybrid 100 (Ok sample_bundle) (Ok ()) (stage_name 7 n)
     [(Some BUNDLE_NAME, Dir [])] [(Some BUNDLE_NAME, Dir sample_bundle)]"
  using publish_atomic [OF sample_published sample_reads] by (auto simp: sub_dir_def)

end
