(* ===== verification/Worker_Io.thy ===== *)
theory Worker_Io
  imports Artifacts Hybrid_Output
begin

text \<open>
  The pipes to the Python worker: the sanitised diagnostics of its error stream (\<open>error.rs\<close>,
  \<open>official_worker/process.rs\<close>, the ring of \<open>persistent/child.rs\<close>), the bounded readers of
  \<open>official_worker.rs\<close>, and the line protocol of \<open>persistent/protocol.rs\<close>. The substitutions by
  regular expressions and the reading of JSON are parameters.
\<close>

definition STDOUT_CAP :: nat where "STDOUT_CAP = 64 * 1024"
definition STDERR_CAP :: nat where "STDERR_CAP = 64 * 1024"
definition REQUEST_CAP :: nat where "REQUEST_CAP = 64 * 1024"

section \<open>Diagnostics\<close>

text \<open>\<open>rules\<close> are the substitutions, in the order of the code.\<close>

definition sanitize_vlm_error_bytes :: "(ustr \<Rightarrow> ustr) list \<Rightarrow> byte list \<Rightarrow> nat \<Rightarrow> ustr" where
  "sanitize_vlm_error_bytes rules raw c =
     (let text = fold (\<lambda>rule t. rule t) rules (utf8_lossy (map unat (take c raw)))
      in if c < length raw then text @ lit '' [truncated]'' else text)"

definition MARKER :: ustr where "MARKER = lit '' [truncated]''"

text \<open>The longest prefix of whole characters of at most so many bytes.\<close>

fun truncate_text :: "ustr \<Rightarrow> nat \<Rightarrow> ustr" where
  "truncate_text [] c = []"
| "truncate_text (x # s) c = (if len_utf8 x \<le> c then x # truncate_text s (c - len_utf8 x) else [])"

lemma replace_range_shorter: "find_str MARKER t = Some i \<Longrightarrow> length (replace_range t i (i + length MARKER) []) < length t"
  using find_str_bound [of MARKER t i] by (auto simp: replace_range_def MARKER_def)

function drop_markers :: "ustr \<Rightarrow> ustr" where
  "drop_markers t =
     (case find_str MARKER t of
        None \<Rightarrow> t
      | Some start \<Rightarrow> drop_markers (replace_range t start (start + length MARKER) []))"
  by auto

termination
  by (relation "measure length") (auto dest: replace_range_shorter)

declare drop_markers.simps [simp del]

definition bounded_diagnostic :: "(ustr \<Rightarrow> ustr) list \<Rightarrow> byte list \<Rightarrow> bool \<Rightarrow> ustr" where
  "bounded_diagnostic rules raw truncated =
     (let text = sanitize_vlm_error_bytes rules (take STDERR_CAP raw) STDERR_CAP in
      if \<not> (truncated \<or> STDERR_CAP < blen text) then text
      else if blen MARKER \<le> STDERR_CAP then truncate_text (drop_markers text) (STDERR_CAP - blen MARKER) @ MARKER
      else truncate_text text STDERR_CAP)"

definition with_truncated_diagnostic :: "(ustr \<Rightarrow> ustr) list \<Rightarrow> ustr \<Rightarrow> byte list option \<Rightarrow> bool \<Rightarrow> ustr" where
  "with_truncated_diagnostic rules message diagnostic truncated =
     (case opt_filter (\<lambda>t. t \<noteq> []) (map_option (\<lambda>bytes. bounded_diagnostic rules bytes truncated) diagnostic) of
        Some d \<Rightarrow> message @ lit '': '' @ d
      | None \<Rightarrow> message)"

definition with_diagnostic :: "(ustr \<Rightarrow> ustr) list \<Rightarrow> ustr \<Rightarrow> byte list option \<Rightarrow> ustr" where
  "with_diagnostic rules message diagnostic =
     with_truncated_diagnostic rules message diagnostic
       (case diagnostic of None \<Rightarrow> False | Some bytes \<Rightarrow> STDERR_CAP < length bytes)"

definition persistent_stderr_text :: "(ustr \<Rightarrow> ustr) list \<Rightarrow> ustr \<Rightarrow> byte list \<Rightarrow> ustr" where
  "persistent_stderr_text rules message stderr =
     (if stderr = [] then message else with_diagnostic rules message (Some stderr))"

definition persistent_error_text :: "(ustr \<Rightarrow> ustr) list \<Rightarrow> ustr \<Rightarrow> ustr \<Rightarrow> ustr option \<Rightarrow> byte list \<Rightarrow> ustr" where
  "persistent_error_text rules message err inline_diagnostic stderr =
     with_diagnostic rules message (Some (text_bytes err
       @ (case opt_filter (\<lambda>t. t \<noteq> []) inline_diagnostic of None \<Rightarrow> [] | Some d \<Rightarrow> 10 # text_bytes d)
       @ (if stderr = [] then [] else 10 # stderr)))"

subsection \<open>The ring of the error stream\<close>

record DiagnosticRing =
  dr_bytes :: "byte list"
  dr_truncated :: bool

definition ring_new :: DiagnosticRing where
  "ring_new = \<lparr>dr_bytes = [], dr_truncated = False\<rparr>"

definition ring_byte :: "byte \<Rightarrow> DiagnosticRing \<Rightarrow> DiagnosticRing" where
  "ring_byte b r =
     (let r = (if length (dr_bytes r) = STDERR_CAP then r\<lparr>dr_bytes := drop 1 (dr_bytes r), dr_truncated := True\<rparr> else r)
      in r\<lparr>dr_bytes := dr_bytes r @ [b]\<rparr>)"

definition ring_push :: "byte list \<Rightarrow> DiagnosticRing \<Rightarrow> DiagnosticRing" where
  "ring_push bs r = fold ring_byte bs r"

definition ring_take :: "DiagnosticRing \<Rightarrow> byte list \<times> DiagnosticRing" where
  "ring_take r =
     (if dr_truncated r
      then (let keep = STDERR_CAP - blen MARKER;
                remove = length (dr_bytes r) - keep
            in (drop remove (dr_bytes r) @ text_bytes MARKER, \<lparr>dr_bytes = [], dr_truncated = False\<rparr>))
      else (dr_bytes r, r\<lparr>dr_bytes := []\<rparr>))"

subsection \<open>Bounded readers\<close>

datatype ReadError = TooLarge | IoError

record Diagnostic =
  dg_bytes :: "byte list"
  dg_truncated :: bool

datatype ReadMode = PrefixMode | HardCap

text \<open>A read gives bytes, the end of the stream (no bytes), or an error (\<open>None\<close>).\<close>

fun read_stream :: "nat \<Rightarrow> ReadMode \<Rightarrow> byte list option list \<Rightarrow> Diagnostic \<Rightarrow> (Diagnostic, ReadError) result" where
  "read_stream c mode [] d = Ok d"
| "read_stream c mode (None # reads) d = Err IoError"
| "read_stream c mode (Some chunk # reads) d =
     (if chunk = [] then Ok d
      else case mode of
        PrefixMode \<Rightarrow>
          (let retained = min (length chunk) (c - length (dg_bytes d))
           in read_stream c mode reads \<lparr>dg_bytes = dg_bytes d @ take retained chunk,
                dg_truncated = dg_truncated d \<or> retained < length chunk\<rparr>)
      | HardCap \<Rightarrow>
          if (case cadd (length (dg_bytes d)) (length chunk) of None \<Rightarrow> True | Some n \<Rightarrow> c < n) then Err TooLarge
          else read_stream c mode reads (d\<lparr>dg_bytes := dg_bytes d @ chunk\<rparr>))"

definition read_capped :: "nat \<Rightarrow> byte list option list \<Rightarrow> (byte list, ReadError) result" where
  "read_capped c reads = and_then (read_stream c HardCap reads \<lparr>dg_bytes = [], dg_truncated = False\<rparr>) (\<lambda>d. Ok (dg_bytes d))"

definition read_diagnostic :: "nat \<Rightarrow> byte list option list \<Rightarrow> (Diagnostic, ReadError) result" where
  "read_diagnostic c reads = read_stream c PrefixMode reads \<lparr>dg_bytes = [], dg_truncated = False\<rparr>"

definition with_stderr_diagnostic :: "(ustr \<Rightarrow> ustr) list \<Rightarrow> ustr \<Rightarrow> Diagnostic option \<Rightarrow> ustr" where
  "with_stderr_diagnostic rules message diagnostic =
     (case diagnostic of
        None \<Rightarrow> message
      | Some d \<Rightarrow> with_truncated_diagnostic rules message (Some (dg_bytes d)) (dg_truncated d))"

section \<open>Frames\<close>

text \<open>What the next \<open>fill_buf\<close> of the worker's output gives: bytes, no bytes at its end, or an error.\<close>

datatype input = Avail "byte list" | Broken ustr

type_synonym pipe = "input list"

definition frame_limit :: ustr where "frame_limit = lit ''official persistent frame exceeds its limit''"

definition frame_eof :: "byte list \<Rightarrow> ustr" where
  "frame_eof frame =
     (if frame = [] then lit ''official persistent worker stdout EOF'' else lit ''official persistent frame has no newline'')"

fun read_persistent_frame :: "pipe \<Rightarrow> byte list \<Rightarrow> (byte list, ustr) result \<times> pipe" where
  "read_persistent_frame [] frame = (Err (frame_eof frame), [])"
| "read_persistent_frame (Broken e # p) frame = (Err (lit ''official persistent stdout failed: '' @ e), p)"
| "read_persistent_frame (Avail available # p) frame =
     (if available = [] then (Err (frame_eof frame), p)
      else
        (case find_char (\<lambda>b. b = 10) available of
           Some newline \<Rightarrow>
             (let n = newline + 1 in
              if REQUEST_CAP < length frame + n then (Err frame_limit, Avail available # p)
              else (Ok (frame @ take n available), (if drop n available = [] then p else Avail (drop n available) # p)))
         | None \<Rightarrow>
             if REQUEST_CAP < length frame + length available then (Err frame_limit, Avail available # p)
             else read_persistent_frame p (frame @ available)))"

definition encode_frame :: "Value \<Rightarrow> byte list" where
  "encode_frame frame = text_bytes (to_text frame) @ [10]"

text \<open>The errors are those of writing and of flushing.\<close>

definition write_persistent_frame :: "Value \<Rightarrow> ustr option \<Rightarrow> ustr option \<Rightarrow> (byte list, ustr) result" where
  "write_persistent_frame frame write_error flush_error =
     (let encoded = encode_frame frame in
      if REQUEST_CAP < length encoded then Err frame_limit
      else case write_error of
        Some e \<Rightarrow> Err (lit ''official persistent stdin failed: '' @ e)
      | None \<Rightarrow>
          (case flush_error of
             Some e \<Rightarrow> Err (lit ''official persistent stdin flush failed: '' @ e)
           | None \<Rightarrow> Ok encoded))"

section \<open>Diagnostics are bounded\<close>

lemma blen_truncate_text: "blen (truncate_text s c) \<le> c"
  by (induction s c rule: truncate_text.induct) auto

lemma truncate_text_prefix: "prefix (truncate_text s c) s"
  by (induction s c rule: truncate_text.induct) auto

lemma blen_MARKER [simp]: "blen MARKER = 12"
  by (simp add: MARKER_def len_utf8_def)

lemma bounded_diagnostic_length: "blen (bounded_diagnostic rules raw truncated) \<le> STDERR_CAP"
  using blen_truncate_text [of "drop_markers (sanitize_vlm_error_bytes rules (take STDERR_CAP raw) STDERR_CAP)" "STDERR_CAP - 12"]
  by (auto simp: bounded_diagnostic_def Let_def STDERR_CAP_def)

lemma drop_markers_none: "find_str MARKER (drop_markers t) = None"
proof (induction t rule: drop_markers.induct)
  case (1 t)
  then show ?case by (subst drop_markers.simps) (auto split: option.split)
qed

text \<open>The ring keeps the last bytes of what was pushed.\<close>

lemma ring_push_snoc: "ring_push (bs @ [b]) r = ring_byte b (ring_push bs r)"
  by (simp add: ring_push_def)

lemma ring_push_new:
  "dr_bytes (ring_push bs ring_new) = drop (length bs - STDERR_CAP) bs \<and>
   dr_truncated (ring_push bs ring_new) = (STDERR_CAP < length bs)"
proof (induction bs rule: rev_induct)
  case Nil
  then show ?case by (simp add: ring_push_def ring_new_def)
next
  case (snoc b bs)
  show ?case
  proof (cases "length bs < STDERR_CAP")
    case True
    then show ?thesis using snoc by (simp add: ring_push_snoc ring_byte_def Let_def)
  next
    case False
    have pos: "0 < STDERR_CAP" by (simp add: STDERR_CAP_def)
    have "Suc (length bs) - STDERR_CAP = Suc (length bs - STDERR_CAP)" using False by simp
    then show ?thesis using snoc False pos by (simp add: ring_push_snoc ring_byte_def Let_def not_less Suc_diff_le)
  qed
qed

lemma ring_take_bounded:
  "length (fst (ring_take (ring_push bs ring_new))) \<le> STDERR_CAP \<and> snd (ring_take (ring_push bs ring_new)) = ring_new"
  using ring_push_new [of bs]
  by (auto simp: ring_take_def Let_def ring_new_def text_bytes_def STDERR_CAP_def)

text \<open>The readers: a prefix of the stream, or the whole of it within the cap.\<close>

lemma read_prefix_bound:
  "read_stream c PrefixMode reads d = Ok d' \<Longrightarrow> length (dg_bytes d) \<le> c \<Longrightarrow> length (dg_bytes d') \<le> c"
  by (induction c PrefixMode reads d rule: read_stream.induct) (auto simp: Let_def split: if_splits)

lemma read_capped_whole:
  assumes "read_stream c HardCap (map Some chunks) d = Ok d'" "[] \<notin> set chunks" "length (dg_bytes d) \<le> c"
  shows "dg_bytes d' = dg_bytes d @ concat chunks \<and> length (dg_bytes d') \<le> c"
  using assms
proof (induction chunks arbitrary: d)
  case (Cons chunk chunks)
  then have "length (dg_bytes d) + length chunk \<le> c"
      "read_stream c HardCap (map Some chunks) (d\<lparr>dg_bytes := dg_bytes d @ chunk\<rparr>) = Ok d'"
    by (auto simp: cadd_def split: if_splits)
  then show ?case using Cons.IH [of "d\<lparr>dg_bytes := dg_bytes d @ chunk\<rparr>"] Cons.prems(2) by auto
qed simp

section \<open>Frames are lines\<close>

fun floats :: "Value \<Rightarrow> ustr list" where
  "floats (JNumber (Float t)) = [t]"
| "floats (JArray xs) = concat (map floats xs)"
| "floats (JObject m) = concat (map (\<lambda>(k, v). floats v) m)"
| "floats _ = []"

lemma show_hex_no_newline: "10 \<notin> set (show_hex w n)"
  by (induction w n rule: show_hex.induct) (auto simp: hex_digit_def)

lemma json_string_no_newline: "10 \<notin> set (json_string s)"
proof -
  have "10 \<notin> set (esc_char c)" for c using show_hex_no_newline [of 4 c] by (auto simp: esc_char_def)
  then show ?thesis by (auto simp: json_string_def)
qed

lemma commas_set: "c \<in> set (commas xs) \<Longrightarrow> c = 44 \<or> (\<exists>x \<in> set xs. c \<in> set x)"
  by (induction xs rule: commas.induct) auto

lemma show_nat_no_newline: "10 \<notin> set (show_nat n)"
  using show_nat_digits [of 10 n] by (auto simp: is_ascii_digit_def)

lemma to_text_no_newline: "\<forall>t \<in> set (floats v). 10 \<notin> set t \<Longrightarrow> 10 \<notin> set (to_text v)"
proof (induction v rule: to_text.induct)
  case (3 n)
  then show ?case using show_nat_no_newline by (cases n) auto
next
  case (5 xs)
  then have "\<forall>x \<in> set xs. 10 \<notin> set (to_text x)" by auto
  then show ?case by (auto dest!: commas_set)
next
  case (6 m)
  then have "\<forall>(k, x) \<in> set m. 10 \<notin> set (to_text x)" by fastforce
  then show ?case using json_string_no_newline by (fastforce dest!: commas_set)
qed (simp_all add: json_string_no_newline)

lemma of_nat_byte_eq: "b < 256 \<Longrightarrow> (of_nat b :: byte) = 10 \<longleftrightarrow> b = 10"
proof -
  assume "b < 256"
  then have "unat (of_nat b :: byte) = b" by (simp add: unat_of_nat take_bit_nat_eq_self)
  moreover have "unat (10 :: byte) = 10" by simp
  ultimately show ?thesis by (metis of_nat_numeral)
qed

lemma text_bytes_no_newline:
  assumes "\<forall>c \<in> set t. scalar c" "10 \<notin> set t"
  shows "10 \<notin> set (text_bytes t)"
proof
  assume "10 \<in> set (text_bytes t)"
  then obtain c b where *: "c \<in> set t" "b \<in> set (enc_char c)" "(of_nat b :: byte) = 10"
    by (auto simp: text_bytes_def str_bytes_def)
  then have "b = 10" using of_nat_byte_eq enc_char_bytes assms(1) by blast
  then have "c < 0x80" using *(2) enc_char_high [of c b] by fastforce
  then show False using * assms(2) \<open>b = 10\<close> by (simp add: enc_char_low)
qed

lemma find_newline: "10 \<notin> set a \<Longrightarrow> find_char (\<lambda>b. b = 10) (a @ 10 # b) = Some (length a)"
  for a :: "byte list"
  by (induction a) auto

lemma find_newline_None: "10 \<notin> set a \<Longrightarrow> find_char (\<lambda>b. b = 10) a = None"
  for a :: "byte list"
  by (induction a) auto

text \<open>A line is read whole however the stream is cut into buffers, and nothing behind it is consumed.\<close>

lemma read_frame_line:
  assumes "[] \<notin> set chunks" "concat chunks = body @ 10 # rest" "10 \<notin> set body" "length frame + length body < REQUEST_CAP"
  shows "\<exists>chunks'. read_persistent_frame (map Avail chunks) frame = (Ok (frame @ body @ [10]), map Avail chunks') \<and>
    concat chunks' = rest \<and> [] \<notin> set chunks'"
  using assms
proof (induction chunks arbitrary: body frame)
  case (Cons chunk chunks)
  show ?case
  proof (cases "length body < length chunk")
    case True
    then have "chunk = take (length chunk) (body @ 10 # rest)" using Cons.prems(2) by (metis append_eq_conv_conj concat.simps(2))
    then obtain tl' where c: "chunk = body @ 10 # tl'" using True
      by (metis (no_types, lifting) Suc_diff_Suc append_take_drop_id diff_is_0_eq nat_le_linear not_less take_Suc_Cons take_append take_all zero_less_diff)
    then have t: "tl' @ concat chunks = rest" using Cons.prems(2) by simp
    show ?thesis
    proof (cases "tl' = []")
      case True
      then show ?thesis using c t Cons.prems by (intro exI [of _ chunks]) (simp add: find_newline)
    next
      case False
      then show ?thesis using c t Cons.prems by (intro exI [of _ "tl' # chunks"]) (simp add: find_newline)
    qed
  next
    case False
    then have b: "body = chunk @ drop (length chunk) body" using Cons.prems(2)
      by (metis append_eq_append_conv_if append_take_drop_id concat.simps(2) linorder_not_le order_less_imp_le)
    have no: "10 \<notin> set chunk" "10 \<notin> set (drop (length chunk) body)" using Cons.prems(3) b by (metis Un_iff set_append)+
    have len: "length frame + length chunk + length (drop (length chunk) body) < REQUEST_CAP"
      using Cons.prems(4) False by simp
    have "concat chunks = drop (length chunk) body @ 10 # rest"
      using Cons.prems(2) b by (metis append.assoc concat.simps(2) same_append_eq)
    from Cons.IH [OF _ this no(2), of "frame @ chunk"] show ?thesis
      using Cons.prems(1,4) len no(1) b False by (auto simp: find_newline_None)
  qed
qed simp

text \<open>
  C34: A frame written to the worker is read back as it was, over a pipe that delivers it in any
  pieces. If a JSON frame can be written (with its newline it fits the frame limit), then reading
  from a stream that holds it, followed by anything, cut into buffers at any positions, returns
  exactly the bytes written, of which the last is the only newline, and leaves what follows unread.
\<close>

theorem frame_roundtrip:
  assumes "write_persistent_frame v None None = Ok encoded"
    and "\<forall>c \<in> set (to_text v). scalar c" "\<forall>t \<in> set (floats v). 10 \<notin> set t"
    and "[] \<notin> set chunks" "concat chunks = encoded @ rest"
  shows "\<exists>chunks'. read_persistent_frame (map Avail chunks) [] = (Ok encoded, map Avail chunks') \<and>
    concat chunks' = rest \<and> encoded = text_bytes (to_text v) @ [10] \<and> 10 \<notin> set (text_bytes (to_text v))"
proof -
  let ?body = "text_bytes (to_text v)"
  have e: "encoded = ?body @ [10]" "length ?body < REQUEST_CAP"
    using assms(1) by (auto simp: write_persistent_frame_def Let_def encode_frame_def split: if_splits)
  have no: "10 \<notin> set ?body" by (rule text_bytes_no_newline [OF assms(2) to_text_no_newline [OF assms(3)]])
  show ?thesis using read_frame_line [OF assms(4) _ no, of rest "[]"] assms(5) e no by auto
qed

definition sample_frame :: Value where
  "sample_frame = jobject [(''type'', jstr ''start''), (''n'', JNumber (PosInt 1))]"

lemma sample_frame_text: "to_text sample_frame = lit ''{\"n\":1,\"type\":\"start\"}''"
  by (simp add: sample_frame_def jobject_def json_string_def esc_char_def show_nat.simps)

theorem frame_roundtrip_witness:
  "\<exists>encoded chunks'. read_persistent_frame [Avail (take 5 encoded), Avail (drop 5 encoded @ [7])] [] = (Ok encoded, map Avail chunks') \<and>
     concat chunks' = [7] \<and> encoded = text_bytes (lit ''{\"n\":1,\"type\":\"start\"}'') @ [10]"
proof -
  let ?e = "text_bytes (lit ''{\"n\":1,\"type\":\"start\"}'') @ [10]"
  have w: "write_persistent_frame sample_frame None None = Ok ?e"
    by (simp add: write_persistent_frame_def encode_frame_def sample_frame_text REQUEST_CAP_def text_bytes_def len_utf8_def)
  have s: "\<forall>c \<in> set (to_text sample_frame). scalar c" unfolding sample_frame_text by (simp add: scalar_def)
  have f: "\<forall>t \<in> set (floats sample_frame). 10 \<notin> set t" by (simp add: sample_frame_def jobject_def)
  have n: "[] \<notin> set [take 5 ?e, drop 5 ?e @ [7]]" by (simp add: text_bytes_def enc_char_def)
  have c: "concat [take 5 ?e, drop 5 ?e @ [7]] = ?e @ [7]" by (simp add: text_bytes_def enc_char_def)
  have m: "map Avail [take 5 ?e, drop 5 ?e @ [7]] = [Avail (take 5 ?e), Avail (drop 5 ?e @ [7])]" by (simp only: list.map)
  from frame_roundtrip [OF w s f n c, unfolded m] show ?thesis by blast
qed

end
