(* ===== verification/Worker.thy ===== *)
theory Worker
  imports Worker_Io
begin

text \<open>
  The persistent Python worker (\<open>official_worker/persistent.rs\<close>, \<open>persistent/child.rs\<close>,
  \<open>persistent/protocol.rs\<close>) and the answer of the one-shot worker (\<open>official_worker.rs\<close>). One session
  serves one request after the other over the pipes; whatever interrupts an exchange ends the
  session. What the operating system, the worker and the other tasks do during an exchange is an
  argument. Deserialisation (crate \<open>serde_json\<close>) is a parameter.
\<close>

section \<open>Requests and sessions\<close>

definition PROTOCOL :: string where "PROTOCOL = ''mineru-rs-official-worker/1''"
definition PACKAGE_VERSION :: string where "PACKAGE_VERSION = ''4.0.12''"
definition PERSISTENT_PROTOCOL :: string where "PERSISTENT_PROTOCOL = ''mineru-rs-official-worker/2''"
definition PERSISTENT_TIERS :: "string list" where "PERSISTENT_TIERS = [''flash'', ''basic'', ''standard'', ''advanced'']"
definition PERSISTENT_OCR_MODES :: "string list" where "PERSISTENT_OCR_MODES = [''auto'', ''txt'', ''ocr'']"

definition LEGACY_INPUT_FORMATS :: "string list" where
  "LEGACY_INPUT_FORMATS = [''pdf'', ''png'', ''jpeg'', ''jpg'', ''jp2'', ''webp'', ''gif'', ''bmp'', ''tiff'']"

definition SDK_INPUT_FORMATS :: "string list" where
  "SDK_INPUT_FORMATS = [''pdf'', ''png'', ''jpg'', ''jpeg'', ''webp'', ''gif'', ''bmp'', ''tiff'', ''jp2'', ''doc'', ''docx'',
     ''ppt'', ''pptx'', ''xls'', ''xlsx'', ''rtf'', ''odt'', ''ods'', ''odp'', ''html'', ''htm'', ''shtml'', ''mhtml'', ''mht'',
     ''csv'', ''tsv'', ''epub'', ''ofd'']"

record OfficialRequest =
  rq_request_id :: ustr
  rq_tier :: ustr
  rq_ocr_mode :: ustr
  rq_image_analysis :: bool
  rq_page_range :: "ustr option"
  rq_vlm_server_url :: "ustr option"
  rq_vlm_api_key :: "ustr option"
  rq_vlm_model :: "ustr option"
  rq_model_base_dir :: "ustr option"
  rq_config :: "ustr option"
  rq_source_context :: "Value option"
  rq_official_vlm_config :: "Value option"
  rq_max_bundle_bytes :: nat
  rq_bundle_name :: ustr
  rq_input_path :: ustr
  rq_bundle_path :: ustr

record OfficialSessionConfig =
  sc_package_version :: string
  sc_schema_version :: string
  sc_model_base_dir :: "ustr option"
  sc_config :: "ustr option"
  sc_vlm_api_key :: "ustr option"
  sc_vlm_model :: "ustr option"
  sc_per_request_vlm :: bool
  sc_input_formats :: "string list"

definition session_config_new :: "ustr option \<Rightarrow> ustr option \<Rightarrow> ustr option \<Rightarrow> ustr option \<Rightarrow> OfficialSessionConfig" where
  "session_config_new model_base_dir config key model =
     \<lparr>sc_package_version = PACKAGE_VERSION, sc_schema_version = SCHEMA_VERSION, sc_model_base_dir = model_base_dir,
      sc_config = config, sc_vlm_api_key = key, sc_vlm_model = model, sc_per_request_vlm = False,
      sc_input_formats = LEGACY_INPUT_FORMATS\<rparr>"

definition for_official_sdk :: "ustr option \<Rightarrow> ustr option \<Rightarrow> OfficialSessionConfig" where
  "for_official_sdk model_base_dir config =
     (session_config_new model_base_dir config None None)\<lparr>sc_per_request_vlm := True, sc_input_formats := SDK_INPUT_FORMATS\<rparr>"

definition matches_request :: "OfficialSessionConfig \<Rightarrow> OfficialRequest \<Rightarrow> (unit, ustr) result" where
  "matches_request c r =
     ensure (\<not> (rq_model_base_dir r \<noteq> sc_model_base_dir c \<or> rq_config r \<noteq> sc_config c \<or>
                \<not> sc_per_request_vlm c \<and> (rq_vlm_api_key r \<noteq> sc_vlm_api_key c \<or> rq_vlm_model r \<noteq> sc_vlm_model c)))
       (lit ''official persistent request does not match its session config'')"

definition validate_persistent_request :: "OfficialRequest \<Rightarrow> (unit, ustr) result" where
  "validate_persistent_request r =
     and_then (ensure (rq_request_id r \<noteq> []) (lit ''official persistent request id is empty'')) (\<lambda>_.
     and_then (ensure (rq_tier r \<in> set (map lit PERSISTENT_TIERS)) (lit ''official persistent tier is unsupported'')) (\<lambda>_.
     and_then (ensure (case rq_vlm_server_url r of None \<Rightarrow> True
                       | Some url \<Rightarrow> prefix (lit ''http://'') url \<or> prefix (lit ''https://'') url)
                 (lit ''official persistent vlm_server_url must be an HTTP(S) URL'')) (\<lambda>_.
     and_then (ensure (rq_ocr_mode r \<in> set (map lit PERSISTENT_OCR_MODES)) (lit ''official persistent ocr_mode is unsupported'')) (\<lambda>_.
     and_then (ensure (rq_page_range r \<noteq> Some []) (lit ''official persistent page_range must be nonempty'')) (\<lambda>_.
     and_then (ensure (rq_max_bundle_bytes r \<noteq> 0) (lit ''official persistent max_bundle_bytes must be positive'')) (\<lambda>_.
     ensure (rq_bundle_name r = BUNDLE_NAME) (lit ''official persistent bundle name mismatch'')))))))"

text \<open>The request identifiers of a process: its number and a counter.\<close>

definition next_request_id :: "nat \<Rightarrow> nat \<Rightarrow> ustr \<times> nat" where
  "next_request_id pid n = (show_nat pid @ [45] @ show_nat n, (n + 1) mod 2 ^ 64)"

section \<open>Frames of the protocol\<close>

definition opt_json :: "ustr option \<Rightarrow> Value" where
  "opt_json v = (case v of None \<Rightarrow> JNull | Some s \<Rightarrow> JString s)"

definition persistent_capabilities :: "OfficialSessionConfig \<Rightarrow> Value" where
  "persistent_capabilities c =
     jobject [(''tiers'', JArray (map jstr PERSISTENT_TIERS)), (''ocr_modes'', JArray (map jstr PERSISTENT_OCR_MODES)),
       (''input_formats'', JArray (map jstr (sc_input_formats c))), (''bundle_name'', JString BUNDLE_NAME),
       (''cancellation'', jstr ''process-terminate'')]"

definition persistent_start_frame :: "OfficialSessionConfig \<Rightarrow> Value" where
  "persistent_start_frame c =
     jobject [(''type'', jstr ''start''), (''protocol'', jstr PERSISTENT_PROTOCOL),
       (''package_version'', jstr (sc_package_version c)), (''schema_version'', jstr (sc_schema_version c)),
       (''model_base_dir'', opt_json (sc_model_base_dir c)), (''config'', opt_json (sc_config c)),
       (''vlm_api_key'', opt_json (sc_vlm_api_key c)), (''vlm_model'', opt_json (sc_vlm_model c)),
       (''capabilities'', persistent_capabilities c)]"

definition persistent_request_frame :: "OfficialRequest \<Rightarrow> OfficialSessionConfig \<Rightarrow> nat \<Rightarrow> Value" where
  "persistent_request_frame r c sequence =
     jobject ([(''type'', jstr ''request''), (''protocol'', jstr PERSISTENT_PROTOCOL),
        (''request_id'', JString (rq_request_id r)), (''sequence'', JNumber (PosInt sequence)),
        (''package_version'', jstr (sc_package_version c)), (''schema_version'', jstr (sc_schema_version c)),
        (''tier'', JString (rq_tier r)), (''ocr_mode'', JString (rq_ocr_mode r)), (''image_analysis'', JBool (rq_image_analysis r)),
        (''vlm_server_url'', opt_json (rq_vlm_server_url r)), (''vlm_api_key'', opt_json (rq_vlm_api_key r)),
        (''vlm_model'', opt_json (rq_vlm_model r)), (''model_base_dir'', opt_json (sc_model_base_dir c)),
        (''config'', opt_json (sc_config c)), (''bundle_name'', JString BUNDLE_NAME), (''input_path'', JString (rq_input_path r)),
        (''bundle_path'', JString (rq_bundle_path r)), (''max_bundle_bytes'', JNumber (PosInt (rq_max_bundle_bytes r)))]
       @ (case rq_page_range r of None \<Rightarrow> [] | Some p \<Rightarrow> [(''page_range'', JString p)])
       @ (case rq_source_context r of None \<Rightarrow> [] | Some v \<Rightarrow> [(''source_context'', v)])
       @ (case rq_official_vlm_config r of None \<Rightarrow> [] | Some v \<Rightarrow> [(''official_vlm_config'', v)]))"

record PersistentHandshakeFrame =
  hf_frame_type :: ustr
  hf_protocol :: ustr
  hf_status :: ustr
  hf_package_version :: ustr
  hf_schema_version :: ustr
  hf_max_in_flight :: nat
  hf_capabilities :: Value
  hf_diagnostic :: "ustr option"

record PersistentResultFrame =
  rf_frame_type :: ustr
  rf_protocol :: ustr
  rf_request_id :: ustr
  rf_sequence :: nat
  rf_status :: ustr
  rf_package_version :: ustr
  rf_schema_version :: ustr
  rf_bundle_name :: ustr
  rf_error :: "ustr option"
  rf_diagnostic :: "ustr option"

record PersistentErrorFrame =
  ef_frame_type :: ustr
  ef_protocol :: ustr
  ef_status :: ustr
  ef_package_version :: ustr
  ef_schema_version :: ustr
  ef_bundle_name :: ustr
  ef_error :: ustr
  ef_diagnostic :: "ustr option"

datatype PersistentFrame =
    HandshakeFrame PersistentHandshakeFrame
  | ResultFrame PersistentResultFrame
  | ErrorFrame PersistentErrorFrame

text \<open>The outcome of deserialisation: a frame, an unknown type, or an error with its class and text.\<close>

datatype Envelope = KnownFrame PersistentFrame | Unsupported | SyntaxError ustr | DataError ustr

definition HANDSHAKE_FRAME_ERROR :: ustr where "HANDSHAKE_FRAME_ERROR = lit ''__official_persistent_handshake_frame_error__: ''"
definition RESULT_FRAME_ERROR :: ustr where "RESULT_FRAME_ERROR = lit ''__official_persistent_result_frame_error__: ''"
definition ERROR_FRAME_ERROR :: ustr where "ERROR_FRAME_ERROR = lit ''__official_persistent_error_frame_error__: ''"

definition frame_data_error :: "ustr \<Rightarrow> ustr" where
  "frame_data_error message =
     (if contains (lit ''missing field `type`'') message \<or> prefix (lit ''invalid type'') message
      then lit ''official persistent protocol frame type is missing''
      else case strip_prefix HANDSHAKE_FRAME_ERROR message of
        Some detail \<Rightarrow> lit ''official persistent handshake is invalid: '' @ detail
      | None \<Rightarrow>
          (case strip_prefix RESULT_FRAME_ERROR message of
             Some detail \<Rightarrow> lit ''official persistent result is invalid: '' @ detail
           | None \<Rightarrow>
               (case strip_prefix ERROR_FRAME_ERROR message of
                  Some detail \<Rightarrow> lit ''official persistent error frame is invalid: '' @ detail
                | None \<Rightarrow> lit ''official persistent protocol frame is invalid: '' @ message)))"

definition parse_persistent_frame :: "(byte list \<Rightarrow> Envelope) \<Rightarrow> byte list \<Rightarrow> (PersistentFrame, ustr) result" where
  "parse_persistent_frame from_slice bytes =
     (case from_slice bytes of
        KnownFrame frame \<Rightarrow> Ok frame
      | Unsupported \<Rightarrow> Err (lit ''official persistent protocol frame type is unsupported'')
      | SyntaxError e \<Rightarrow> Err (lit ''official persistent protocol JSON is invalid: '' @ e)
      | DataError message \<Rightarrow> Err (frame_data_error message))"

definition validate_persistent_error :: "PersistentErrorFrame \<Rightarrow> OfficialSessionConfig \<Rightarrow> (unit, ustr) result" where
  "validate_persistent_error f c =
     ensure (ef_frame_type f = lit ''error'' \<and> ef_protocol f = lit PERSISTENT_PROTOCOL \<and> ef_status f = lit ''error'' \<and>
             ef_package_version f = lit (sc_package_version c) \<and> ef_schema_version f = lit (sc_schema_version c) \<and>
             ef_bundle_name f = BUNDLE_NAME)
       (lit ''official persistent error frame mismatch'')"

section \<open>Recent request identifiers\<close>

definition PERSISTENT_RECENT_REQUEST_CAPACITY :: nat where "PERSISTENT_RECENT_REQUEST_CAPACITY = 64"

record RecentRequestIds =
  ri_order :: "ustr list"
  ri_ids :: "ustr set"

definition recent_new :: RecentRequestIds where
  "recent_new = \<lparr>ri_order = [], ri_ids = {}\<rparr>"

definition recent_insert :: "ustr \<Rightarrow> RecentRequestIds \<Rightarrow> bool \<times> RecentRequestIds" where
  "recent_insert request_id r =
     (if request_id \<in> ri_ids r then (False, r)
      else
        (let r = (if length (ri_order r) = PERSISTENT_RECENT_REQUEST_CAPACITY
                  then \<lparr>ri_order = tl (ri_order r), ri_ids = ri_ids r - {hd (ri_order r)}\<rparr> else r)
         in (True, \<lparr>ri_order = ri_order r @ [request_id], ri_ids = insert request_id (ri_ids r)\<rparr>)))"

definition recent_ok :: "RecentRequestIds \<Rightarrow> bool" where
  "recent_ok r \<longleftrightarrow> distinct (ri_order r) \<and> ri_ids r = set (ri_order r) \<and> length (ri_order r) \<le> PERSISTENT_RECENT_REQUEST_CAPACITY"

lemma recent_insert_ok:
  assumes "recent_ok r" "recent_insert k r = (b, r')"
  shows "recent_ok r'"
proof (cases "k \<in> ri_ids r")
  case False
  show ?thesis
  proof (cases "length (ri_order r) = PERSISTENT_RECENT_REQUEST_CAPACITY")
    case True
    then obtain x xs where "ri_order r = x # xs" by (cases "ri_order r") (auto simp: PERSISTENT_RECENT_REQUEST_CAPACITY_def)
    note x = this
    have r': "r' = \<lparr>ri_order = xs @ [k], ri_ids = insert k (ri_ids r - {x})\<rparr>"
      using assms(2) False True by (simp add: recent_insert_def Let_def x)
    show ?thesis using assms(1) True False unfolding r' recent_ok_def x by auto
  next
    case neq: False
    have r': "r' = \<lparr>ri_order = ri_order r @ [k], ri_ids = insert k (ri_ids r)\<rparr>"
      using assms(2) False neq by (simp add: recent_insert_def Let_def)
    show ?thesis using assms(1) neq False unfolding r' recent_ok_def by auto
  qed
qed (use assms in \<open>simp add: recent_insert_def\<close>)

text \<open>The last 64 identifiers are remembered.\<close>

lemma recent_insert_order:
  assumes "recent_ok r" "recent_insert k r = (True, r')"
  shows "k \<notin> set (ri_order r) \<and> ri_order r' = drop (length (ri_order r) - (PERSISTENT_RECENT_REQUEST_CAPACITY - 1)) (ri_order r) @ [k]"
proof -
  have k: "k \<notin> ri_ids r" using assms(2) by (auto simp: recent_insert_def Let_def split: if_splits)
  show ?thesis
  proof (cases "length (ri_order r) = PERSISTENT_RECENT_REQUEST_CAPACITY")
    case True
    then have "length (ri_order r) - (PERSISTENT_RECENT_REQUEST_CAPACITY - 1) = Suc 0"
      by (simp add: PERSISTENT_RECENT_REQUEST_CAPACITY_def)
    moreover have "ri_order r' = tl (ri_order r) @ [k]" using assms(2) k True by (auto simp: recent_insert_def Let_def)
    ultimately show ?thesis using assms(1) k by (simp add: recent_ok_def drop_Suc)
  next
    case False
    then have "length (ri_order r) - (PERSISTENT_RECENT_REQUEST_CAPACITY - 1) = 0"
      using assms(1) by (simp add: recent_ok_def)
    moreover have "ri_order r' = ri_order r @ [k]" using assms(2) k False by (auto simp: recent_insert_def Let_def)
    ultimately show ?thesis using assms(1) k by (simp add: recent_ok_def)
  qed
qed

section \<open>A child process\<close>

text \<open>Why \<open>controlled_io\<close> gives up an operation.\<close>

datatype interruption = ShuttingDown | DeadlineExpired | RequestCancelled

fun interruption_text :: "interruption \<Rightarrow> ustr" where
  "interruption_text ShuttingDown = lit ''official persistent worker is shutting down''"
| "interruption_text DeadlineExpired = lit ''official persistent worker deadline expired''"
| "interruption_text RequestCancelled = lit ''official persistent worker request cancelled''"

definition controlled_io :: "interruption option \<Rightarrow> ('a, ustr) result \<Rightarrow> ('a, ustr) result" where
  "controlled_io stop r = (case stop of Some i \<Rightarrow> Err (interruption_text i) | None \<Rightarrow> r)"

text \<open>
  What happens during an exchange: whether the process has exited when it is asked before and
  after, the interruptions of writing, reading and flushing, the errors of the pipe, what the worker
  writes to its error stream and to its output, and whether the drain of the error stream has
  stopped.
\<close>

record Exchange =
  ex_exited_before :: "(bool, ustr) result"
  ex_write :: "interruption option"
  ex_write_error :: "ustr option"
  ex_flush_error :: "ustr option"
  ex_output :: pipe
  ex_read :: "interruption option"
  ex_stderr :: "byte list"
  ex_flush :: "interruption option"
  ex_drain_stopped :: bool
  ex_exited_after :: "(bool, ustr) result"

text \<open>
  The state of the child: \<open>ch_sent\<close> and \<open>ch_got\<close> record the frames written and read; the code has
  no such fields.
\<close>

record PersistentChild =
  ch_stdout :: pipe
  ch_ring :: DiagnosticRing
  ch_sequence :: nat
  ch_recent :: RecentRequestIds
  ch_sent :: "Value list"
  ch_got :: "byte list list"

definition child_new :: PersistentChild where
  "child_new = \<lparr>ch_stdout = [], ch_ring = ring_new, ch_sequence = 1, ch_recent = recent_new, ch_sent = [], ch_got = []\<rparr>"

definition take_diagnostic :: "PersistentChild \<Rightarrow> byte list \<times> PersistentChild" where
  "take_diagnostic c = (let (bytes, ring) = ring_take (ch_ring c) in (bytes, c\<lparr>ch_ring := ring\<rparr>))"

definition flush_stderr :: "Exchange \<Rightarrow> PersistentChild \<Rightarrow> (unit, ustr) result \<times> PersistentChild" where
  "flush_stderr x c =
     (controlled_io (ex_flush x) (ensure (\<not> ex_drain_stopped x) (lit ''official persistent stderr drain stopped'')),
      c\<lparr>ch_ring := ring_push (ex_stderr x) (ch_ring c)\<rparr>)"

text \<open>\<open>strip_suffix\<close> of a newline\<close>

definition strip_newline :: "byte list \<Rightarrow> byte list" where
  "strip_newline bytes = (if bytes \<noteq> [] \<and> last bytes = 10 then butlast bytes else bytes)"

text \<open>Writing a frame, reading the next one and flushing the diagnostics, as both exchanges do it.\<close>

definition converse :: "(byte list \<Rightarrow> Envelope) \<Rightarrow> Value \<Rightarrow> Exchange \<Rightarrow> PersistentChild \<Rightarrow>
    (PersistentFrame, ustr) result \<times> PersistentChild" where
  "converse from_slice frame x c =
     (case controlled_io (ex_write x) (write_persistent_frame frame (ex_write_error x) (ex_flush_error x)) of
        Err e \<Rightarrow> (Err e, c)
      | Ok _ \<Rightarrow>
          (let c = c\<lparr>ch_sent := ch_sent c @ [frame]\<rparr>;
               (r, p) = read_persistent_frame (ch_stdout c @ ex_output x) [] in
           case controlled_io (ex_read x) r of
             Err e \<Rightarrow> (Err e, c\<lparr>ch_stdout := p\<rparr>)
           | Ok bytes \<Rightarrow>
               (case flush_stderr x (c\<lparr>ch_stdout := p, ch_got := ch_got c @ [bytes]\<rparr>) of
                  (Err e, c) \<Rightarrow> (Err e, c)
                | (Ok _, c) \<Rightarrow> (parse_persistent_frame from_slice (strip_newline bytes), c))))"

definition handshake :: "(ustr \<Rightarrow> ustr) list \<Rightarrow> (byte list \<Rightarrow> Envelope) \<Rightarrow> OfficialSessionConfig \<Rightarrow> Exchange \<Rightarrow> PersistentChild \<Rightarrow>
    (unit, ustr) result \<times> PersistentChild" where
  "handshake rules from_slice cfg x c =
     (case converse from_slice (persistent_start_frame cfg) x c of
        (Err e, c) \<Rightarrow> (Err e, c)
      | (Ok (HandshakeFrame f), c) \<Rightarrow>
          (let (stderr, c) = take_diagnostic c in
           if hf_frame_type f \<noteq> lit ''handshake'' \<or> hf_protocol f \<noteq> lit PERSISTENT_PROTOCOL \<or> hf_status f \<noteq> lit ''ready'' \<or>
              hf_package_version f \<noteq> lit (sc_package_version cfg) \<or> hf_schema_version f \<noteq> lit (sc_schema_version cfg) \<or>
              hf_max_in_flight f \<noteq> 1 \<or> hf_capabilities f \<noteq> persistent_capabilities cfg
           then (Err (persistent_error_text rules (lit ''official persistent handshake mismatch'')
                   (lit ''handshake fields did not match the pinned protocol'') (hf_diagnostic f) stderr), c)
           else (Ok (), c))
      | (Ok (ErrorFrame f), c) \<Rightarrow>
          (case validate_persistent_error f cfg of
             Err e \<Rightarrow> (Err e, c)
           | Ok _ \<Rightarrow>
               (let (stderr, c) = take_diagnostic c in
                (Err (persistent_error_text rules (lit ''official persistent startup failed'') (ef_error f) (ef_diagnostic f) stderr), c)))
      | (Ok (ResultFrame f), c) \<Rightarrow> (Err (lit ''official persistent handshake frame expected''), c))"

definition result_matches :: "OfficialRequest \<Rightarrow> OfficialSessionConfig \<Rightarrow> nat \<Rightarrow> PersistentResultFrame \<Rightarrow> bool" where
  "result_matches r cfg sequence f \<longleftrightarrow>
     rf_frame_type f = lit ''result'' \<and> rf_protocol f = lit PERSISTENT_PROTOCOL \<and> rf_request_id f = rq_request_id r \<and>
     rf_sequence f = sequence \<and> rf_package_version f = lit (sc_package_version cfg) \<and>
     rf_schema_version f = lit (sc_schema_version cfg) \<and> rf_bundle_name f = BUNDLE_NAME \<and>
     rf_status f \<in> {lit ''ok'', lit ''error''}"

definition wait_failed :: "ustr \<Rightarrow> ustr" where
  "wait_failed e = lit ''official persistent worker wait failed: '' @ e"

text \<open>The checks of a result frame, and the sequence number of the next request.\<close>

definition accept_result :: "OfficialRequest \<Rightarrow> OfficialSessionConfig \<Rightarrow> Exchange \<Rightarrow> PersistentResultFrame \<Rightarrow> PersistentChild \<Rightarrow>
    (PersistentResultFrame, ustr) result \<times> PersistentChild" where
  "accept_result r cfg x f c =
     (if \<not> result_matches r cfg (ch_sequence c) f then (Err (lit ''official persistent result mismatch''), c)
      else if rf_status f = lit ''error'' \<and> rf_error f = None
      then (Err (lit ''official persistent result error has no message''), c)
      else
        (case ex_exited_after x of
           Err e \<Rightarrow> (Err (wait_failed e), c)
         | Ok exited \<Rightarrow>
             if exited then (Err (lit ''official persistent worker exited after request''), c)
             else (Ok f, c\<lparr>ch_sequence := sat_add (ch_sequence c) 1\<rparr>)))"

definition child_request :: "(ustr \<Rightarrow> ustr) list \<Rightarrow> (byte list \<Rightarrow> Envelope) \<Rightarrow> OfficialRequest \<Rightarrow> OfficialSessionConfig \<Rightarrow> Exchange \<Rightarrow>
    PersistentChild \<Rightarrow> (PersistentResultFrame, ustr) result \<times> PersistentChild" where
  "child_request rules from_slice r cfg x c =
     (case ex_exited_before x of
        Err e \<Rightarrow> (Err (wait_failed e), c)
      | Ok exited \<Rightarrow>
          if exited then (Err (lit ''official persistent worker exited before request''), c)
          else if rq_request_id r = [] then (Err (lit ''official persistent request id is empty''), c)
          else
            (let (fresh, recent) = recent_insert (rq_request_id r) (ch_recent c); c = c\<lparr>ch_recent := recent\<rparr> in
             if \<not> fresh then (Err (lit ''official persistent request id was repeated''), c)
             else
               (let (_, c) = take_diagnostic c in
                case converse from_slice (persistent_request_frame r cfg (ch_sequence c)) x c of
                  (Err e, c) \<Rightarrow> (Err e, c)
                | (Ok (ResultFrame f), c) \<Rightarrow> accept_result r cfg x f c
                | (Ok (ErrorFrame f), c) \<Rightarrow>
                    (case validate_persistent_error f cfg of
                       Err e \<Rightarrow> (Err e, c)
                     | Ok _ \<Rightarrow>
                         (let (stderr, c) = take_diagnostic c in
                          (Err (persistent_error_text rules (lit ''official persistent protocol error'') (ef_error f) (ef_diagnostic f) stderr), c)))
                | (Ok (HandshakeFrame f), c) \<Rightarrow> (Err (lit ''official persistent result frame expected''), c))))"

section \<open>The owner of the session\<close>

datatype PersistentFailure = Dead ustr | Document ustr

record Command =
  cm_request :: OfficialRequest
  cm_spawn :: "(unit, ustr) result"
  cm_handshake :: Exchange
  cm_exchange :: Exchange

definition ensure_persistent_session :: "(ustr \<Rightarrow> ustr) list \<Rightarrow> (byte list \<Rightarrow> Envelope) \<Rightarrow> OfficialSessionConfig \<Rightarrow> Command \<Rightarrow>
    PersistentChild option \<Rightarrow> (PersistentChild, PersistentFailure) result \<times> PersistentChild option" where
  "ensure_persistent_session rules from_slice cfg cm session =
     (case session of
        Some c \<Rightarrow> (Ok c, session)
      | None \<Rightarrow>
          (case cm_spawn cm of
             Err e \<Rightarrow> (Err (Dead e), session)
           | Ok _ \<Rightarrow>
               (case handshake rules from_slice cfg (cm_handshake cm) child_new of
                  (Err e, c) \<Rightarrow> (Err (Dead (persistent_stderr_text rules e (fst (take_diagnostic c)))), session)
                | (Ok _, c) \<Rightarrow> (Ok c, Some c))))"

definition execute_persistent_request :: "(ustr \<Rightarrow> ustr) list \<Rightarrow> (byte list \<Rightarrow> Envelope) \<Rightarrow> OfficialSessionConfig \<Rightarrow> Command \<Rightarrow>
    PersistentChild option \<Rightarrow> (unit, PersistentFailure) result \<times> PersistentChild option" where
  "execute_persistent_request rules from_slice cfg cm session =
     (case ensure_persistent_session rules from_slice cfg cm session of
        (Err e, session) \<Rightarrow> (Err e, session)
      | (Ok c, session) \<Rightarrow>
          (case child_request rules from_slice (cm_request cm) cfg (cm_exchange cm) c of
             (Err e, c) \<Rightarrow>
               (let (stderr, c) = take_diagnostic c in (Err (Dead (persistent_stderr_text rules e stderr)), Some c))
           | (Ok f, c) \<Rightarrow>
               (let (stderr, c) = take_diagnostic c in
                if rf_status f = lit ''error''
                then (Err (Document (persistent_error_text rules (lit ''official persistent document failed'')
                        (case rf_error f of Some e \<Rightarrow> e | None \<Rightarrow> lit ''official persistent document failed'')
                        (rf_diagnostic f) stderr)), Some c)
                else (Ok (), Some c))))"

text \<open>One turn of the owner's loop; the answer is the path of the bundle.\<close>

definition owner_command :: "(ustr \<Rightarrow> ustr) list \<Rightarrow> (byte list \<Rightarrow> Envelope) \<Rightarrow> OfficialSessionConfig \<Rightarrow> Command \<Rightarrow>
    PersistentChild option \<Rightarrow> (ustr, ustr) result \<times> PersistentChild option" where
  "owner_command rules from_slice cfg cm session =
     (case execute_persistent_request rules from_slice cfg cm session of
        (Ok _, session) \<Rightarrow> (Ok (rq_bundle_path (cm_request cm)), session)
      | (Err (Document e), session) \<Rightarrow> (Err e, session)
      | (Err (Dead e), session) \<Rightarrow> (Err e, None))"

fun persistent_owner_loop :: "(ustr \<Rightarrow> ustr) list \<Rightarrow> (byte list \<Rightarrow> Envelope) \<Rightarrow> OfficialSessionConfig \<Rightarrow> Command list \<Rightarrow>
    PersistentChild option \<Rightarrow> (ustr, ustr) result list \<times> PersistentChild option" where
  "persistent_owner_loop rules from_slice cfg [] session = ([], session)"
| "persistent_owner_loop rules from_slice cfg (cm # cms) session =
     (let (answer, session) = owner_command rules from_slice cfg cm session;
          (answers, session) = persistent_owner_loop rules from_slice cfg cms session
      in (answer # answers, session))"

section \<open>Sessions stay in step\<close>

definition exchange_ok :: "(byte list \<Rightarrow> Envelope) \<Rightarrow> OfficialSessionConfig \<Rightarrow> OfficialRequest set \<Rightarrow> nat \<Rightarrow> Value \<Rightarrow> byte list \<Rightarrow> bool" where
  "exchange_ok from_slice cfg reqs i v bytes \<longleftrightarrow>
     (\<exists>r \<in> reqs. \<exists>f. v = persistent_request_frame r cfg (min U64_MAX i) \<and>
        parse_persistent_frame from_slice (strip_newline bytes) = Ok (ResultFrame f) \<and> result_matches r cfg (min U64_MAX i) f)"

definition session_ok :: "(byte list \<Rightarrow> Envelope) \<Rightarrow> OfficialSessionConfig \<Rightarrow> OfficialRequest set \<Rightarrow> PersistentChild \<Rightarrow> bool" where
  "session_ok from_slice cfg reqs c \<longleftrightarrow>
     ch_sent c \<noteq> [] \<and> hd (ch_sent c) = persistent_start_frame cfg \<and> length (ch_got c) = length (ch_sent c) \<and>
     ch_sequence c = min U64_MAX (length (ch_sent c)) \<and> recent_ok (ch_recent c) \<and>
     (\<forall>i. 0 < i \<and> i < length (ch_sent c) \<longrightarrow> exchange_ok from_slice cfg reqs i (ch_sent c ! i) (ch_got c ! i))"

lemma take_diagnostic_same [simp]:
  "ch_sent (snd (take_diagnostic c)) = ch_sent c" "ch_got (snd (take_diagnostic c)) = ch_got c"
  "ch_sequence (snd (take_diagnostic c)) = ch_sequence c" "ch_recent (snd (take_diagnostic c)) = ch_recent c"
  by (simp_all add: take_diagnostic_def split: prod.split)

lemma session_ok_take [simp]: "session_ok from_slice cfg reqs (snd (take_diagnostic c)) = session_ok from_slice cfg reqs c"
  by (simp add: session_ok_def)

lemma session_ok_mono: "session_ok from_slice cfg reqs c \<Longrightarrow> reqs \<subseteq> reqs' \<Longrightarrow> session_ok from_slice cfg reqs' c"
  unfolding session_ok_def exchange_ok_def by blast

lemma converse_Ok:
  assumes "converse from_slice frame x c = (Ok pf, c')"
  shows "\<exists>bytes. ch_sent c' = ch_sent c @ [frame] \<and> ch_got c' = ch_got c @ [bytes] \<and>
    parse_persistent_frame from_slice (strip_newline bytes) = Ok pf \<and> ch_sequence c' = ch_sequence c \<and> ch_recent c' = ch_recent c"
  using assms by (auto simp: converse_def Let_def flush_stderr_def split: prod.splits result.splits)

lemma handshake_ok:
  assumes "handshake rules from_slice cfg x child_new = (Ok u, c')"
  shows "session_ok from_slice cfg reqs c'"
proof -
  obtain f c1 where *: "converse from_slice (persistent_start_frame cfg) x child_new = (Ok (HandshakeFrame f), c1)"
      "c' = snd (take_diagnostic c1)"
    using assms by (auto simp: handshake_def Let_def split: prod.splits result.splits PersistentFrame.splits if_splits)
  have "session_ok from_slice cfg reqs c1"
    using converse_Ok [OF *(1)] by (auto simp: session_ok_def child_new_def recent_ok_def recent_new_def U64_MAX_def)
  then show ?thesis by (simp add: *(2))
qed

lemma child_request_ok:
  assumes run: "child_request rules from_slice r cfg x c = (Ok f, c')" and ok: "session_ok from_slice cfg reqs c"
    and r: "r \<in> reqs"
  shows "session_ok from_slice cfg reqs c'"
proof -
  obtain fresh recent where ins0: "recent_insert (rq_request_id r) (ch_recent c) = (fresh, recent)" by force
  obtain d c0 where td: "take_diagnostic (c\<lparr>ch_recent := recent\<rparr>) = (d, c0)" by force
  have c0: "ch_sent c0 = ch_sent c" "ch_got c0 = ch_got c" "ch_sequence c0 = ch_sequence c" "ch_recent c0 = recent"
    using take_diagnostic_same [of "c\<lparr>ch_recent := recent\<rparr>"] by (simp_all add: td)
  obtain pr c1 where conv0: "converse from_slice (persistent_request_frame r cfg (ch_sequence c0)) x c0 = (pr, c1)" by force
  have fresh: "fresh" and rest: "(case (pr, c1) of
        (Err e, c) \<Rightarrow> (Err e, c)
      | (Ok (ResultFrame f), c) \<Rightarrow> accept_result r cfg x f c
      | (Ok (ErrorFrame f), c) \<Rightarrow>
          (case validate_persistent_error f cfg of
             Err e \<Rightarrow> (Err e, c)
           | Ok _ \<Rightarrow>
               (let (stderr, c) = take_diagnostic c in
                (Err (persistent_error_text rules (lit ''official persistent protocol error'') (ef_error f) (ef_diagnostic f) stderr), c)))
      | (Ok (HandshakeFrame f), c) \<Rightarrow> (Err (lit ''official persistent result frame expected''), c)) = (Ok f, c')"
    using run unfolding child_request_def Let_def ins0 prod.case td conv0
    by (auto split: result.splits if_splits simp del: split_paired_All)
  then obtain f0 where "pr = Ok (ResultFrame f0)" "accept_result r cfg x f0 c1 = (Ok f, c')"
    by (auto simp: Let_def split: result.splits PersistentFrame.splits prod.splits)
  moreover have "f0 = f" using calculation(2) by (auto simp: accept_result_def split: result.splits if_splits)
  ultimately have conv: "converse from_slice (persistent_request_frame r cfg (ch_sequence c)) x c0 = (Ok (ResultFrame f), c1)"
    and acc: "accept_result r cfg x f c1 = (Ok f, c')" using conv0 c0 by simp_all
  have ins: "recent_insert (rq_request_id r) (ch_recent c) = (True, recent)" using ins0 fresh by simp
  obtain bytes where b: "ch_sent c1 = ch_sent c @ [persistent_request_frame r cfg (ch_sequence c)]" "ch_got c1 = ch_got c @ [bytes]"
      "parse_persistent_frame from_slice (strip_newline bytes) = Ok (ResultFrame f)" "ch_sequence c1 = ch_sequence c" "ch_recent c1 = recent"
    using converse_Ok [OF conv] c0 by auto
  have m: "result_matches r cfg (ch_sequence c1) f" "c' = c1\<lparr>ch_sequence := sat_add (ch_sequence c1) 1\<rparr>"
    using acc by (auto simp: accept_result_def split: result.splits if_splits)
  have seq: "ch_sequence c = min U64_MAX (length (ch_sent c))" using ok by (simp add: session_ok_def)
  have new: "exchange_ok from_slice cfg reqs (length (ch_sent c)) (persistent_request_frame r cfg (ch_sequence c)) bytes"
    using b(3,4) m(1) r seq by (auto simp: exchange_ok_def)
  have "recent_ok recent" using recent_insert_ok [OF _ ins] ok by (simp add: session_ok_def)
  moreover have "exchange_ok from_slice cfg reqs i (ch_sent c1 ! i) (ch_got c1 ! i)" if "0 < i" "i < length (ch_sent c1)" for i
    using ok new that unfolding session_ok_def b by (cases "i = length (ch_sent c)") (auto simp: nth_append)
  ultimately show ?thesis using ok b m(2) seq unfolding session_ok_def by (simp add: sat_add_def hd_append)
qed

lemma owner_command_ok:
  assumes "owner_command rules from_slice cfg cm session = (answer, session')"
    and "\<And>c. session = Some c \<Longrightarrow> session_ok from_slice cfg reqs c" "cm_request cm \<in> reqs" "session' = Some c'"
  shows "session_ok from_slice cfg reqs c'"
proof -
  obtain r1 s1 where 1: "ensure_persistent_session rules from_slice cfg cm session = (r1, s1)" by force
  have ok1: "session_ok from_slice cfg reqs c" if "r1 = Ok c" for c
    using 1 that assms(2) handshake_ok
    by (auto simp: ensure_persistent_session_def split: option.splits result.splits prod.splits)
  obtain c f c2 where "r1 = Ok c" "child_request rules from_slice (cm_request cm) cfg (cm_exchange cm) c = (Ok f, c2)"
      "c' = snd (take_diagnostic c2)"
    using assms(1,4) 1
    by (auto simp: owner_command_def execute_persistent_request_def Let_def split: prod.splits result.splits PersistentFailure.splits if_splits)
       (auto simp: ensure_persistent_session_def split: option.splits result.splits prod.splits)
  then show ?thesis using child_request_ok [OF _ ok1 assms(3)] by simp
qed

lemma owner_loop_ok:
  assumes "persistent_owner_loop rules from_slice cfg cms session = (answers, Some c)"
    and "\<And>c. session = Some c \<Longrightarrow> session_ok from_slice cfg reqs c" "cm_request ` set cms \<subseteq> reqs"
  shows "session_ok from_slice cfg reqs c"
  using assms
proof (induction cms arbitrary: session answers)
  case (Cons cm cms)
  obtain answer s1 where 1: "owner_command rules from_slice cfg cm session = (answer, s1)" by force
  obtain answers' where 2: "persistent_owner_loop rules from_slice cfg cms s1 = (answers', Some c)"
    using Cons.prems(1) by (auto simp: 1 Let_def split: prod.splits)
  show ?case
  proof (rule Cons.IH [OF 2])
    show "session_ok from_slice cfg reqs c1" if "s1 = Some c1" for c1
      using owner_command_ok [OF 1 Cons.prems(2) _ that] Cons.prems(3) by simp
  qed (use Cons.prems(3) in simp)
qed auto

text \<open>
  C4: A session of the persistent worker stays in step, whatever the worker writes, however its
  output is cut and whichever exchanges fail, are interrupted or canceled. In a session that is kept
  after any sequence of commands, exactly one frame was read for every frame written; the first
  frame is the start frame; the frame at position \<open>i\<close> is a request of one of the commands with the
  sequence number \<open>i\<close>, and the frame read at that position is a result for this very request, by its
  identifier, its sequence number and its versions: no reply is ever taken for another request. The
  remembered identifiers are distinct and at most 64.
\<close>

theorem session_in_step:
  assumes "persistent_owner_loop rules from_slice cfg cms None = (answers, Some c)"
  shows "length (ch_got c) = length (ch_sent c) \<and> ch_sent c \<noteq> [] \<and> hd (ch_sent c) = persistent_start_frame cfg
    \<and> ch_sequence c = min U64_MAX (length (ch_sent c))
    \<and> (\<forall>i. 0 < i \<and> i < length (ch_sent c) \<longrightarrow>
         (\<exists>cm \<in> set cms. \<exists>f. ch_sent c ! i = persistent_request_frame (cm_request cm) cfg (min U64_MAX i) \<and>
            parse_persistent_frame from_slice (strip_newline (ch_got c ! i)) = Ok (ResultFrame f) \<and>
            rf_request_id f = rq_request_id (cm_request cm) \<and> rf_sequence f = min U64_MAX i \<and>
            rf_package_version f = lit (sc_package_version cfg) \<and> rf_schema_version f = lit (sc_schema_version cfg)))
    \<and> distinct (ri_order (ch_recent c)) \<and> length (ri_order (ch_recent c)) \<le> 64"
proof -
  have ok: "session_ok from_slice cfg (cm_request ` set cms) c" by (rule owner_loop_ok [OF assms]) simp_all
  have "\<exists>cm \<in> set cms. \<exists>f. ch_sent c ! i = persistent_request_frame (cm_request cm) cfg (min U64_MAX i) \<and>
            parse_persistent_frame from_slice (strip_newline (ch_got c ! i)) = Ok (ResultFrame f) \<and>
            rf_request_id f = rq_request_id (cm_request cm) \<and> rf_sequence f = min U64_MAX i \<and>
            rf_package_version f = lit (sc_package_version cfg) \<and> rf_schema_version f = lit (sc_schema_version cfg)"
    if "0 < i" "i < length (ch_sent c)" for i
    using ok that unfolding session_ok_def exchange_ok_def result_matches_def by fast
  then show ?thesis using ok by (auto simp: session_ok_def recent_ok_def PERSISTENT_RECENT_REQUEST_CAPACITY_def)
qed

definition sample_config :: OfficialSessionConfig where
  "sample_config = session_config_new None None None None"

definition sample_official_request :: OfficialRequest where
  "sample_official_request = \<lparr>rq_request_id = lit ''1-0'', rq_tier = lit ''flash'', rq_ocr_mode = lit ''auto'', rq_image_analysis = False,
     rq_page_range = None, rq_vlm_server_url = None, rq_vlm_api_key = None, rq_vlm_model = None, rq_model_base_dir = None,
     rq_config = None, rq_source_context = None, rq_official_vlm_config = None, rq_max_bundle_bytes = 1,
     rq_bundle_name = BUNDLE_NAME, rq_input_path = lit ''in'', rq_bundle_path = lit ''out''\<rparr>"

definition sample_exchange :: "byte list \<Rightarrow> Exchange" where
  "sample_exchange line = \<lparr>ex_exited_before = Ok False, ex_write = None, ex_write_error = None, ex_flush_error = None,
     ex_output = [Avail line], ex_read = None, ex_stderr = [], ex_flush = None, ex_drain_stopped = False, ex_exited_after = Ok False\<rparr>"

definition sample_from_slice :: "byte list \<Rightarrow> Envelope" where
  "sample_from_slice bytes =
     (if bytes = [1]
      then KnownFrame (HandshakeFrame \<lparr>hf_frame_type = lit ''handshake'', hf_protocol = lit PERSISTENT_PROTOCOL,
        hf_status = lit ''ready'', hf_package_version = lit PACKAGE_VERSION, hf_schema_version = lit SCHEMA_VERSION,
        hf_max_in_flight = 1, hf_capabilities = persistent_capabilities sample_config, hf_diagnostic = None\<rparr>)
      else KnownFrame (ResultFrame \<lparr>rf_frame_type = lit ''result'', rf_protocol = lit PERSISTENT_PROTOCOL,
        rf_request_id = lit ''1-0'', rf_sequence = 1, rf_status = lit ''ok'', rf_package_version = lit PACKAGE_VERSION,
        rf_schema_version = lit SCHEMA_VERSION, rf_bundle_name = BUNDLE_NAME, rf_error = None, rf_diagnostic = None\<rparr>))"

definition sample_command :: Command where
  "sample_command = \<lparr>cm_request = sample_official_request, cm_spawn = Ok (), cm_handshake = sample_exchange [1, 10],
     cm_exchange = sample_exchange [2, 10]\<rparr>"

lemma sample_frames_small:
  "blen (to_text (persistent_start_frame sample_config)) < 1000"
  "blen (to_text (persistent_request_frame sample_official_request sample_config 1)) < 1000"
  by code_simp+

lemma sample_write:
  "write_persistent_frame (persistent_start_frame sample_config) None None = Ok (encode_frame (persistent_start_frame sample_config))"
  "write_persistent_frame (persistent_request_frame sample_official_request sample_config 1) None None
   = Ok (encode_frame (persistent_request_frame sample_official_request sample_config 1))"
  using sample_frames_small by (simp_all add: write_persistent_frame_def encode_frame_def REQUEST_CAP_def text_bytes_def)

lemma sample_session:
  "\<exists>c. persistent_owner_loop [] sample_from_slice sample_config [sample_command] None = ([Ok (lit ''out'')], Some c) \<and>
     length (ch_sent c) = 2"
proof -
  let ?x = "\<lambda>line. sample_exchange line"
  have read: "read_persistent_frame [Avail [b, 10]] [] = (Ok [b, 10], [])" if "b \<noteq> 10" for b
    using that by (simp add: REQUEST_CAP_def)
  have h: "converse sample_from_slice (persistent_start_frame sample_config) (sample_exchange [1, 10]) child_new =
      (Ok (case sample_from_slice [1] of KnownFrame f \<Rightarrow> f | _ \<Rightarrow> undefined),
       child_new\<lparr>ch_sent := [persistent_start_frame sample_config], ch_got := [[1, 10]]\<rparr>)"
    using sample_write(1) read [of 1]
    by (simp add: converse_def sample_exchange_def controlled_io_def child_new_def Let_def flush_stderr_def strip_newline_def
        parse_persistent_frame_def sample_from_slice_def ring_push_def ring_new_def)
  show ?thesis
    using h sample_write(2) read [of 2]
    by (simp add: owner_command_def execute_persistent_request_def ensure_persistent_session_def sample_command_def handshake_def
        sample_from_slice_def Let_def take_diagnostic_def ring_take_def ring_new_def child_new_def child_request_def
        sample_exchange_def sample_official_request_def recent_insert_def recent_new_def PERSISTENT_RECENT_REQUEST_CAPACITY_def
        converse_def controlled_io_def flush_stderr_def strip_newline_def parse_persistent_frame_def ring_push_def
        accept_result_def result_matches_def sample_config_def session_config_new_def)
qed

theorem session_in_step_witness:
  "\<exists>c. persistent_owner_loop [] sample_from_slice sample_config [sample_command] None = ([Ok (lit ''out'')], Some c) \<and>
     length (ch_got c) = 2 \<and> ch_sequence c = 2"
proof -
  obtain c where c: "persistent_owner_loop [] sample_from_slice sample_config [sample_command] None = ([Ok (lit ''out'')], Some c)"
      "length (ch_sent c) = 2" using sample_session by blast
  from session_in_step [OF c(1)] show ?thesis using c by (auto simp: U64_MAX_def)
qed

section \<open>The one-shot worker\<close>

text \<open>
  \<open>run_with_files_owned\<close> from the moment the process runs: the events of its \<open>select!\<close> loop are the
  exit of the process, the ends of the three pipe tasks (\<open>None\<close> for a task that did not finish) and
  the deadline; an event whose branch is disabled is skipped.
\<close>

record WorkerResponse =
  rs_protocol :: ustr
  rs_request_id :: ustr
  rs_status :: ustr
  rs_package_version :: ustr
  rs_schema_version :: ustr
  rs_bundle_name :: ustr
  rs_error :: "ustr option"

datatype event =
    Exited "(bool, ustr) result"
  | InputDone bool
  | StdoutDone "(byte list, ReadError) result option"
  | StderrDone "(Diagnostic, ReadError) result option"
  | DeadlineHit

record Oneshot =
  os_status :: "bool option"
  os_input_task :: bool
  os_stdout_task :: bool
  os_stderr_task :: bool
  os_stdout :: "byte list option"
  os_stderr :: "Diagnostic option"
  os_failure :: "ustr option"

definition oneshot_start :: Oneshot where
  "oneshot_start = \<lparr>os_status = None, os_input_task = True, os_stdout_task = True, os_stderr_task = True, os_stdout = None,
     os_stderr = None, os_failure = None\<rparr>"

fun oneshot_event :: "event \<Rightarrow> Oneshot \<Rightarrow> Oneshot" where
  "oneshot_event (Exited r) s =
     (if os_status s \<noteq> None then s
      else case r of
        Ok success \<Rightarrow> s\<lparr>os_status := Some success\<rparr>
      | Err e \<Rightarrow> s\<lparr>os_failure := Some (lit ''official worker wait failed: '' @ e)\<rparr>)"
| "oneshot_event (InputDone good) s =
     (if \<not> os_input_task s then s
      else let s = s\<lparr>os_input_task := False\<rparr>
           in if good then s else s\<lparr>os_failure := Some (lit ''official worker stdin failed'')\<rparr>)"
| "oneshot_event (StdoutDone r) s =
     (if \<not> os_stdout_task s then s
      else let s = s\<lparr>os_stdout_task := False\<rparr>
           in case r of
                Some (Ok bytes) \<Rightarrow> s\<lparr>os_stdout := Some bytes\<rparr>
              | Some (Err TooLarge) \<Rightarrow> s\<lparr>os_failure := Some (lit ''official worker stdout exceeded its cap'')\<rparr>
              | _ \<Rightarrow> s\<lparr>os_failure := Some (lit ''official worker stdout failed'')\<rparr>)"
| "oneshot_event (StderrDone r) s =
     (if \<not> os_stderr_task s then s
      else let s = s\<lparr>os_stderr_task := False\<rparr>
           in case r of
                Some (Ok d) \<Rightarrow> s\<lparr>os_stderr := Some d\<rparr>
              | _ \<Rightarrow> s\<lparr>os_failure := Some (lit ''official worker stderr failed'')\<rparr>)"
| "oneshot_event DeadlineHit s = s\<lparr>os_failure := Some (lit ''official worker deadline expired'')\<rparr>"

definition oneshot_over :: "Oneshot \<Rightarrow> bool" where
  "oneshot_over s \<longleftrightarrow> os_failure s \<noteq> None \<or>
     os_status s \<noteq> None \<and> \<not> os_input_task s \<and> \<not> os_stdout_task s \<and> \<not> os_stderr_task s"

text \<open>The state in which the loop breaks, or \<open>None\<close> while it still waits.\<close>

fun oneshot_loop :: "event list \<Rightarrow> Oneshot \<Rightarrow> Oneshot option" where
  "oneshot_loop [] s = None"
| "oneshot_loop (e # es) s =
     (let s = oneshot_event e s in if oneshot_over s then Some s else oneshot_loop es s)"

definition check_response :: "(ustr \<Rightarrow> ustr) list \<Rightarrow> OfficialRequest \<Rightarrow> Diagnostic option \<Rightarrow> WorkerResponse \<Rightarrow> (unit, ustr) result" where
  "check_response rules r stderr response =
     and_then (ensure (rs_protocol response = lit PROTOCOL) (lit ''official worker protocol version mismatch'')) (\<lambda>_.
     and_then (ensure (rs_request_id response = rq_request_id r) (lit ''official worker request id mismatch'')) (\<lambda>_.
     and_then (ensure (rs_package_version response = lit PACKAGE_VERSION)
                 (lit ''official worker MinerU package version is not '' @ lit PACKAGE_VERSION)) (\<lambda>_.
     and_then (ensure (rs_schema_version response = lit SCHEMA_VERSION) (lit ''official worker result schema version mismatch'')) (\<lambda>_.
     and_then (ensure (rs_bundle_name response = BUNDLE_NAME) (lit ''official worker bundle name mismatch'')) (\<lambda>_.
     ensure (rs_status response = lit ''ok'')
       (with_stderr_diagnostic rules (case rs_error response of Some e \<Rightarrow> e | None \<Rightarrow> lit ''official worker failed'') stderr))))))"

definition oneshot_result :: "(ustr \<Rightarrow> ustr) list \<Rightarrow> (byte list \<Rightarrow> (WorkerResponse, ustr) result) \<Rightarrow> OfficialRequest \<Rightarrow> Oneshot \<Rightarrow> (unit, ustr) result" where
  "oneshot_result rules from_slice r s =
     (case os_failure s of
        Some e \<Rightarrow> Err (with_stderr_diagnostic rules e (os_stderr s))
      | None \<Rightarrow>
          if os_status s \<noteq> Some True
          then Err (with_stderr_diagnostic rules (lit ''official worker exited unsuccessfully'') (os_stderr s))
          else
            and_then (ok_or (os_stdout s) (lit ''official worker returned no protocol response'')) (\<lambda>bytes.
            case from_slice bytes of
              Err e \<Rightarrow> Err (lit ''official worker protocol JSON is invalid: '' @ e)
            | Ok response \<Rightarrow> check_response rules r (os_stderr s) response))"

text \<open>The loop breaks within five events that are not skipped, and success needs a good exit and a matching response.\<close>

definition oneshot_left :: "Oneshot \<Rightarrow> nat" where
  "oneshot_left s = (if os_status s = None then 1 else 0) + (if os_input_task s then 1 else 0) +
     (if os_stdout_task s then 1 else 0) + (if os_stderr_task s then 1 else 0)"

fun oneshot_enabled :: "event \<Rightarrow> Oneshot \<Rightarrow> bool" where
  "oneshot_enabled (Exited _) s \<longleftrightarrow> os_status s = None"
| "oneshot_enabled (InputDone _) s \<longleftrightarrow> os_input_task s"
| "oneshot_enabled (StdoutDone _) s \<longleftrightarrow> os_stdout_task s"
| "oneshot_enabled (StderrDone _) s \<longleftrightarrow> os_stderr_task s"
| "oneshot_enabled DeadlineHit s \<longleftrightarrow> True"

lemma oneshot_event_left:
  "oneshot_enabled e s \<Longrightarrow> os_failure (oneshot_event e s) = None \<Longrightarrow> oneshot_left (oneshot_event e s) < oneshot_left s"
  by (cases e) (simp_all add: oneshot_left_def Let_def split: if_splits result.splits option.splits ReadError.splits)

lemma oneshot_done: "oneshot_left s = 0 \<Longrightarrow> oneshot_over s"
  by (auto simp: oneshot_left_def oneshot_over_def split: if_splits)

lemma oneshot_success:
  assumes "oneshot_result rules from_slice r s = Ok u"
  shows "os_status s = Some True \<and> (\<exists>bytes response. os_stdout s = Some bytes \<and> from_slice bytes = Ok response \<and>
    rs_request_id response = rq_request_id r \<and> rs_status response = lit ''ok'')"
proof -
  obtain bytes where b: "os_status s = Some True" "os_stdout s = Some bytes"
      "(case from_slice bytes of Err e \<Rightarrow> Err (lit ''official worker protocol JSON is invalid: '' @ e)
        | Ok response \<Rightarrow> check_response rules r (os_stderr s) response) = Ok u"
    using assms by (auto simp: oneshot_result_def result_simps split: option.splits if_splits)
  then show ?thesis by (cases "from_slice bytes") (auto simp: check_response_def result_simps)
qed

end
