(* ===== verification/Vlm_Text.thy ===== *)
theory Vlm_Text
  imports Official "HOL-Library.Product_Lexorder"
begin

text \<open>
  The text cleaning of the model's answers (\<open>vlm_postprocess.rs\<close>): LaTeX equations, inline mathematics
  and the OTSL table language. Positions are character positions. The regular expressions (crate
  \<open>regex\<close>) are a parameter: \<open>eng p v\<close> is what \<open>captures_iter\<close> of the fixed pattern \<open>p\<close> finds in
  \<open>v\<close>, for every match the spans of its groups, the whole match first. A value \<open>None\<close> of the table
  builder stands for a panic of an index.
\<close>

section \<open>Strings\<close>

text \<open>\<open>str::replace\<close>; an empty pattern matches at every boundary.\<close>

function replace_ne :: "'a list \<Rightarrow> 'a list \<Rightarrow> 'a list \<Rightarrow> 'a list" where
  "replace_ne w r [] = []"
| "replace_ne w r (c # s) =
     (if w \<noteq> [] \<and> prefix w (c # s) then r @ replace_ne w r (drop (length w) (c # s)) else c # replace_ne w r s)"
  by pat_completeness auto
termination
  by (relation "measure (\<lambda>(w, r, s). length s)") auto

definition replace_str :: "'a list \<Rightarrow> 'a list \<Rightarrow> 'a list \<Rightarrow> 'a list" where
  "replace_str w r s = (if w = [] then r @ concat (map (\<lambda>c. c # r) s) else replace_ne w r s)"

fun join :: "'a list \<Rightarrow> 'a list list \<Rightarrow> 'a list" where
  "join sep [] = []"
| "join sep [x] = x"
| "join sep (x # y # xs) = x @ sep @ join sep (y # xs)"

definition split_whitespace :: "ustr \<Rightarrow> ustr list" where
  "split_whitespace v = filter (\<lambda>w. w \<noteq> []) (split_by is_whitespace v)"

definition lower :: "ustr \<Rightarrow> ustr" where
  "lower v = map to_ascii_lowercase v"

definition blank :: "ustr \<Rightarrow> bool" where
  "blank v \<longleftrightarrow> trim v = []"

section \<open>Regular expressions\<close>

type_synonym span = "nat \<times> nat"

text \<open>
  The patterns of \<open>vlm_postprocess.rs\<close> and \<open>layout.rs\<close> and, from \<open>DataSource\<close> on, of \<open>official_builders.rs\<close>, named by
  what they match; a field pattern carries the name of the field.
\<close>

datatype VlmPattern =
    TableFormula | FieldStart string | FieldEnd string | FieldXml string | FieldLine string
  | BeginEnv | EndEnv | LeftRight | InlineMath | MacroSuffix | Blanks | OtslToken | ImageTag | LayoutToken
  | DataSource | DataUri | EqElement | SourceAttr | Brackets | ParenMath

type_synonym captures = "span option list"
type_synonym engine = "VlmPattern \<Rightarrow> ustr \<Rightarrow> captures list"

definition span_text :: "'a list \<Rightarrow> span \<Rightarrow> 'a list" where
  "span_text v sp = take (snd sp - fst sp) (drop (fst sp) v)"

definition find_iter :: "engine \<Rightarrow> VlmPattern \<Rightarrow> ustr \<Rightarrow> span list" where
  "find_iter eng p v = map (\<lambda>c. the (hd c)) (eng p v)"

definition re_find :: "engine \<Rightarrow> VlmPattern \<Rightarrow> ustr \<Rightarrow> span option" where
  "re_find eng p v = (case find_iter eng p v of [] \<Rightarrow> None | m # _ \<Rightarrow> Some m)"

definition capture :: "nat \<Rightarrow> captures \<Rightarrow> span option" where
  "capture n c = (if n < length c then c ! n else None)"

fun replace_from :: "nat \<Rightarrow> ustr \<Rightarrow> (span \<times> ustr) list \<Rightarrow> ustr" where
  "replace_from at v [] = drop at v"
| "replace_from at v (((s, e), r) # ms) = span_text v (at, s) @ r @ replace_from e v ms"

definition replace_all :: "engine \<Rightarrow> VlmPattern \<Rightarrow> (captures \<Rightarrow> ustr) \<Rightarrow> ustr \<Rightarrow> ustr" where
  "replace_all eng p f v = replace_from 0 v (map (\<lambda>c. (the (hd c), f c)) (eng p v))"

section \<open>Fields of a classified answer\<close>

record VlmClassOutput =
  vc_class_name :: ustr
  vc_sub_class :: "ustr option"
  vc_caption :: "ustr option"
  vc_content :: "ustr option"

definition tagged_field :: "engine \<Rightarrow> ustr \<Rightarrow> string \<Rightarrow> ustr option" where
  "tagged_field eng v name =
     (let xml = (case eng (FieldXml name) v of
                   [] \<Rightarrow> None
                 | c # _ \<Rightarrow> map_option (\<lambda>g. trim (span_text v g)) (capture 1 c))
      in case re_find eng (FieldStart name) v of
           None \<Rightarrow> xml
         | Some st \<Rightarrow>
             (let body = drop (snd st) v in
              case re_find eng (FieldEnd name) body of
                Some en \<Rightarrow> Some (trim (take (fst en) body))
              | None \<Rightarrow> if name = ''content'' then Some (trim body) else xml))"

definition line_field :: "engine \<Rightarrow> ustr \<Rightarrow> string \<Rightarrow> ustr option" where
  "line_field eng v name =
     (case eng (FieldLine name) v of [] \<Rightarrow> None | c # _ \<Rightarrow> map_option (\<lambda>g. trim (span_text v g)) (capture 1 c))"

definition field :: "engine \<Rightarrow> ustr \<Rightarrow> string \<Rightarrow> ustr option" where
  "field eng v name = (case tagged_field eng v name of Some t \<Rightarrow> Some t | None \<Rightarrow> line_field eng v name)"

definition compact_whitespace :: "ustr \<Rightarrow> ustr" where
  "compact_whitespace v = join [32] (split_whitespace v)"

definition normalized_class :: "ustr \<Rightarrow> ustr" where
  "normalized_class v = map (\<lambda>c. if c = 32 \<or> c = 45 then 95 else c) (lower (compact_whitespace v))"

definition parse_vlm_class_output :: "engine \<Rightarrow> ustr \<Rightarrow> VlmClassOutput option" where
  "parse_vlm_class_output eng v =
     (case tagged_field eng v ''class'' of
        None \<Rightarrow> None
      | Some c \<Rightarrow>
          (let class_name = compact_whitespace c in
           if class_name = [] then None
           else Some \<lparr>vc_class_name = class_name, vc_sub_class = field eng v ''sub_class'',
                       vc_caption = field eng v ''caption'', vc_content = field eng v ''content''\<rparr>))"

section \<open>Equations\<close>

abbreviation slash :: uchar where "slash \<equiv> 92"

definition DELIMITERS :: "(ustr \<times> ustr) list" where
  "DELIMITERS = [([36, 36], [36, 36]), ([slash, 91], [slash, 93]), ([slash, 40], [slash, 41])]"

definition delimited :: "ustr \<Rightarrow> ustr \<times> ustr \<Rightarrow> bool" where
  "delimited v d \<longleftrightarrow> blen (fst d) + blen (snd d) \<le> blen v \<and> prefix (fst d) v \<and> suffix (snd d) v"

definition outer_equation_delimiter :: "ustr \<Rightarrow> ustr option" where
  "outer_equation_delimiter v =
     (case find (delimited v) DELIMITERS of
        None \<Rightarrow> None
      | Some (open_d, close_d) \<Rightarrow> Some (span_text v (length open_d, length v - length close_d)))"

definition is_pure_table :: "ustr \<Rightarrow> bool" where
  "is_pure_table v \<longleftrightarrow> (let v = trim v in prefix (lit ''<table'') (lower v) \<and> suffix (lit ''</table>'') (lower v))"

definition is_pure_formula :: "ustr \<Rightarrow> bool" where
  "is_pure_formula v \<longleftrightarrow> outer_equation_delimiter (trim v) \<noteq> None"

lemma length_trim: "length (trim v) \<le> length v"
proof -
  have "length (trim v) \<le> length (dropWhile is_whitespace v)"
    by (metis trim_def trim_matches_def length_rev length_dropWhile_le)
  then show ?thesis using length_dropWhile_le le_trans by blast
qed

lemma outer_delimiter_shorter:
  assumes "outer_equation_delimiter v = Some inner"
  shows "length inner < length v"
  using assms
  by (auto simp: outer_equation_delimiter_def DELIMITERS_def span_text_def delimited_def blen_def prefix_def split: option.splits if_splits)

text \<open>The loop \<open>while let Some(inner) = outer_equation_delimiter(value)\<close>.\<close>

function strip_delimiters :: "ustr \<Rightarrow> ustr" where
  "strip_delimiters v = (case outer_equation_delimiter v of None \<Rightarrow> v | Some inner \<Rightarrow> strip_delimiters (trim inner))"
  by pat_completeness auto
termination
  by (relation "measure length") (auto intro: le_less_trans [OF length_trim outer_delimiter_shorter])

declare strip_delimiters.simps [simp del]

definition LEFT :: ustr where "LEFT = slash # lit ''left''"
definition RIGHT :: ustr where "RIGHT = slash # lit ''right''"

fun left_right_loop :: "ustr \<Rightarrow> span list \<Rightarrow> ustr \<Rightarrow> nat \<Rightarrow> nat \<Rightarrow> ustr" where
  "left_right_loop v [] output at open_count = output @ drop at v @ concat (replicate open_count (RIGHT @ [46]))"
| "left_right_loop v (c # cs) output at open_count =
     (let output = output @ span_text v (at, fst c);
          output = (if span_text v c = RIGHT \<and> open_count = 0 then output @ LEFT @ [46] else output);
          output = output @ span_text v c
      in left_right_loop v cs output (snd c) (if span_text v c = LEFT then open_count + 1 else open_count - 1))"

definition normalize_left_right :: "engine \<Rightarrow> ustr \<Rightarrow> ustr" where
  "normalize_left_right eng v =
     (if length (find_iter eng BeginEnv v) \<noteq> length (find_iter eng EndEnv v) then v
      else left_right_loop v (find_iter eng LeftRight v) [] 0 0)"

text \<open>\<open>opens\<close> has its top first.\<close>

fun brace_loop :: "(nat \<times> uchar) list \<Rightarrow> bool list \<Rightarrow> nat list \<Rightarrow> nat \<Rightarrow> bool list \<times> nat list" where
  "brace_loop [] remove opens slashes = (remove, opens)"
| "brace_loop ((index, c) # cs) remove opens slashes =
     (if c = slash then brace_loop cs remove opens (slashes + 1)
      else let escaped = slashes mod 2 = 1 in
        if c = 123 \<and> \<not> escaped then brace_loop cs remove (index # opens) 0
        else if c = 125 \<and> \<not> escaped then
          (case opens of
             [] \<Rightarrow> brace_loop cs (remove[index := True]) [] 0
           | _ # opens \<Rightarrow> brace_loop cs remove opens 0)
        else brace_loop cs remove opens 0)"

definition remove_unmatched_braces :: "ustr \<Rightarrow> ustr" where
  "remove_unmatched_braces v =
     (let (remove, opens) = brace_loop (zip [0..<length v] v) (replicate (length v) False) [] 0;
          remove = fold (\<lambda>index r. r[index := True]) (rev opens) remove
      in map snd (filter (\<lambda>(index, c). \<not> remove ! index) (zip [0..<length v] v)))"

definition normalize_equation :: "engine \<Rightarrow> ustr \<Rightarrow> ustr" where
  "normalize_equation eng v = remove_unmatched_braces (normalize_left_right eng (strip_delimiters (trim v)))"

section \<open>Inline mathematics\<close>

definition math_open :: ustr where "math_open = [slash, 40]"
definition math_close :: ustr where "math_close = [slash, 41]"

definition display_to_inline :: "ustr \<Rightarrow> ustr" where
  "display_to_inline v =
     (case find_str [slash, 91] v of
        None \<Rightarrow> v
      | Some st \<Rightarrow>
          (let body = drop (st + 2) v in
           case find_str [slash, 93] body of
             None \<Rightarrow> v
           | Some en \<Rightarrow>
               if contains [slash, 93] (drop (en + 2) body) \<or> contains [slash, 91] (drop (st + 2) v) then v
               else
                 (let inner = trim (take en body);
                      range_only = inner \<noteq> [] \<and>
                        list_all (\<lambda>c. is_ascii_digit c \<or> is_whitespace c \<or> c \<in> set (lit '',.-'')) inner
                  in if inner = [] \<or> range_only \<or> list_ex (\<lambda>c. c \<in> {10, 13, 38, 36}) inner \<or>
                        list_ex (\<lambda>needle. contains needle inner)
                          [[slash, slash], slash # lit ''begin'', slash # lit ''end'', slash # lit ''tag'', slash # lit ''label'']
                     then v
                     else take st v @ math_open @ inner @ math_close @ drop (en + 2) body)))"

definition space_macro :: "ustr \<Rightarrow> captures \<Rightarrow> ustr" where
  "space_macro inner c =
     (let matched = span_text inner (the (capture 0 c));
          letter = span_text inner (the (capture 1 c));
          boundary = span_text inner (the (capture 2 c));
          complete = take (length matched - length boundary) matched
      in if complete \<in> {slash # lit ''top'', slash # lit ''int'', slash # lit ''inf''} then matched
         else take (length complete - length letter) complete @ [32] @ letter @ boundary)"

definition fix_inline_macro_spacing :: "engine \<Rightarrow> ustr \<Rightarrow> ustr" where
  "fix_inline_macro_spacing eng v =
     replace_all eng InlineMath (\<lambda>c.
       (let inner = span_text v (the (capture 1 c)) in
        math_open @ replace_all eng MacroSuffix (space_macro inner) inner @ math_close)) v"

definition isolated :: "ustr \<Rightarrow> span \<Rightarrow> bool" where
  "isolated inner found \<longleftrightarrow>
     (let before = take (fst found) inner; after = drop (snd found) inner in
      (before = [] \<or> is_whitespace (last before)) \<and> (after = [] \<or> is_whitespace (hd after)))"

fun blank_pieces :: "ustr \<Rightarrow> nat \<Rightarrow> span list \<Rightarrow> ustr list" where
  "blank_pieces inner at [] =
     (if blank (drop at inner) then [] else [math_open @ trim (drop at inner) @ math_close])"
| "blank_pieces inner at ((s, e) # bs) =
     (if blank (span_text inner (at, s)) then [] else [math_open @ trim (span_text inner (at, s)) @ math_close])
     @ span_text inner (s, e) # blank_pieces inner e bs"

definition move_blank_underscores :: "engine \<Rightarrow> ustr \<Rightarrow> ustr" where
  "move_blank_underscores eng v =
     replace_all eng InlineMath (\<lambda>c.
       (let inner = span_text v (the (capture 1 c));
            blanks = filter (isolated inner) (find_iter eng Blanks inner)
        in if blanks = [] \<or> blank (take (fst (hd blanks)) inner) \<or> blank (drop (snd (last blanks)) inner)
           then span_text v (the (capture 0 c))
           else join [32] (blank_pieces inner 0 blanks))) v"

definition clean_text :: "engine \<Rightarrow> ustr \<Rightarrow> ustr" where
  "clean_text eng v = move_blank_underscores eng (fix_inline_macro_spacing eng (display_to_inline v))"

definition formulas :: "engine \<Rightarrow> ustr \<Rightarrow> ustr" where
  "formulas eng v =
     replace_all eng TableFormula (\<lambda>c.
       (let body = (case capture 1 c of Some g \<Rightarrow> g | None \<Rightarrow> the (capture 2 c)) in
        lit ''<eq>'' @ trim (span_text v body) @ lit ''</eq>'')) v"

section \<open>OTSL tables\<close>

record Cell =
  cell_text :: ustr
  colspan :: nat
  rowspan :: nat
  hidden :: bool
  anchor :: "(nat \<times> nat) option"

type_synonym rows = "Cell list list"

definition cell_new :: "ustr \<Rightarrow> Cell" where
  "cell_new t = \<lparr>cell_text = t, colspan = 1, rowspan = 1, hidden = False, anchor = None\<rparr>"

definition cell_hidden :: "(nat \<times> nat) option \<Rightarrow> Cell" where
  "cell_hidden a = \<lparr>cell_text = [], colspan = 0, rowspan = 0, hidden = True, anchor = a\<rparr>"

definition escape_attr :: "ustr \<Rightarrow> ustr" where
  "escape_attr v =
     replace_str [60] (lit ''&lt;'') (replace_str [34] (lit ''&quot;'') (replace_str [38] (lit ''&amp;'') v))"

fun escape_from :: "nat \<Rightarrow> ustr \<Rightarrow> span list \<Rightarrow> ustr" where
  "escape_from at v [] = escape_attr (drop at v)"
| "escape_from at v (m # ms) = escape_attr (span_text v (at, fst m)) @ span_text v m @ escape_from (snd m) v ms"

definition escape_cell :: "engine \<Rightarrow> ustr \<Rightarrow> ustr" where
  "escape_cell eng v = escape_from 0 v (find_iter eng ImageTag v)"

definition span_attr :: "string \<Rightarrow> nat \<Rightarrow> ustr" where
  "span_attr name n = (if 1 < n then [32] @ lit name @ [61, 34] @ show_nat n @ [34] else [])"

definition cell_html :: "engine \<Rightarrow> Cell \<Rightarrow> ustr" where
  "cell_html eng c =
     (if hidden c then []
      else lit ''<td'' @ span_attr ''colspan'' (colspan c) @ span_attr ''rowspan'' (rowspan c) @ [62] @
           escape_cell eng (cell_text c) @ lit ''</td>'')"

definition owner_at :: "rows \<Rightarrow> nat \<Rightarrow> nat \<Rightarrow> (nat \<times> nat) option" where
  "owner_at rs row column =
     (if row < length rs \<and> column < length (rs ! row)
      then (let c = rs ! row ! column in if hidden c then anchor c else Some (row, column))
      else None)"

text \<open>\<open>rows[a][b]\<close> as a place: an index out of range panics.\<close>

definition upd_cell :: "(Cell \<Rightarrow> Cell) \<Rightarrow> nat \<times> nat \<Rightarrow> rows \<Rightarrow> rows option" where
  "upd_cell f a rs =
     (if fst a < length rs \<and> snd a < length (rs ! fst a)
      then Some (rs[fst a := (rs ! fst a)[snd a := f (rs ! fst a ! snd a)]]) else None)"

definition push_cell :: "Cell \<Rightarrow> rows \<Rightarrow> rows option" where
  "push_cell c rs = (if rs = [] then None else Some (butlast rs @ [last rs @ [c]]))"

definition extend_colspan :: "nat \<times> nat \<Rightarrow> rows \<Rightarrow> rows option" where
  "extend_colspan a rs = upd_cell (\<lambda>c. c\<lparr>colspan := colspan c + 1\<rparr>) a rs"

definition extend_rowspan :: "nat \<times> nat \<Rightarrow> rows \<Rightarrow> rows option" where
  "extend_rowspan a rs = upd_cell (\<lambda>c. c\<lparr>rowspan := rowspan c + 1\<rparr>) a rs"

definition left_owner :: "rows \<Rightarrow> (nat \<times> nat) option" where
  "left_owner rs = (let column = length (last rs) in if column = 0 then None else owner_at rs (length rs - 1) (column - 1))"

definition up_owner :: "rows \<Rightarrow> (nat \<times> nat) option" where
  "up_owner rs = (let row = length rs - 1 in if row = 0 then None else owner_at rs (row - 1) (length (last rs)))"

definition extend_left :: "rows \<Rightarrow> rows option" where
  "extend_left rs =
     (if rs = [] then None
      else let a = left_owner rs in
        Option.bind (case a of None \<Rightarrow> Some rs | Some p \<Rightarrow> extend_colspan p rs) (push_cell (cell_hidden a)))"

definition extend_up :: "rows \<Rightarrow> rows option" where
  "extend_up rs =
     (if rs = [] then None
      else let a = up_owner rs in
        Option.bind (case a of None \<Rightarrow> Some rs | Some p \<Rightarrow> extend_rowspan p rs) (push_cell (cell_hidden a)))"

definition extend_both :: "rows \<Rightarrow> rows option" where
  "extend_both rs =
     (if rs = [] then None
      else case (left_owner rs, up_owner rs) of
          (Some l, Some u) \<Rightarrow> push_cell (cell_hidden (Some (if l = u then l else u))) rs
        | (Some l, None) \<Rightarrow> Option.bind (extend_colspan l rs) (push_cell (cell_hidden (Some l)))
        | (None, Some u) \<Rightarrow> Option.bind (extend_rowspan u rs) (push_cell (cell_hidden (Some u)))
        | (None, None) \<Rightarrow> push_cell (cell_hidden None) rs)"

text \<open>The match on the token's name; the second result is \<open>current\<close>.\<close>

definition otsl_token :: "ustr \<Rightarrow> rows \<Rightarrow> (rows \<times> (nat \<times> nat) option) option" where
  "otsl_token name rs =
     (let plain = map_option (\<lambda>rs. (rs, None)) in
      if name = lit ''nl'' then Some (rs @ [[]], None)
      else if name = lit ''fcel'' then
        map_option (\<lambda>rs'. (rs', Some (length rs - 1, length (last rs)))) (push_cell (cell_new []) rs)
      else if name = lit ''ecel'' then plain (push_cell (cell_new []) rs)
      else if name = lit ''lcel'' then plain (extend_left rs)
      else if name = lit ''ucel'' then plain (extend_up rs)
      else if name = lit ''xcel'' then plain (extend_both rs)
      else None)"

definition add_before :: "ustr \<Rightarrow> (nat \<times> nat) option \<Rightarrow> rows \<Rightarrow> rows option" where
  "add_before before current rs =
     (case current of
        Some a \<Rightarrow> upd_cell (\<lambda>c. c\<lparr>cell_text := cell_text c @ before\<rparr>) a rs
      | None \<Rightarrow> if before \<noteq> [] \<and> last rs = [] then push_cell (cell_new before) rs else Some rs)"

fun otsl_loop :: "ustr \<Rightarrow> captures list \<Rightarrow> nat \<Rightarrow> (nat \<times> nat) option \<Rightarrow> rows \<Rightarrow> (rows \<times> nat \<times> (nat \<times> nat) option) option" where
  "otsl_loop v [] at current rs = Some (rs, at, current)"
| "otsl_loop v (hit # hits) at current rs =
     (let matched = the (capture 0 hit) in
      Option.bind (add_before (trim (span_text v (at, fst matched))) current rs) (\<lambda>rs.
      Option.bind (otsl_token (lower (span_text v (the (capture 1 hit)))) rs) (\<lambda>(rs, current).
      otsl_loop v hits (snd matched) current rs)))"

definition otsl_rows :: "engine \<Rightarrow> ustr \<Rightarrow> rows option" where
  "otsl_rows eng v =
     Option.bind (otsl_loop v (eng OtslToken v) 0 None [[]]) (\<lambda>(rs, at, current).
       map_option (filter (\<lambda>row. row \<noteq> []))
         (case current of None \<Rightarrow> Some rs | Some a \<Rightarrow> upd_cell (\<lambda>c. c\<lparr>cell_text := cell_text c @ trim (drop at v)\<rparr>) a rs))"

definition OTSL_TOKENS :: "string list" where
  "OTSL_TOKENS = [''<nl>'', ''<fcel>'', ''<ecel>'', ''<lcel>'', ''<ucel>'', ''<xcel>'']"

definition otsl_html :: "engine \<Rightarrow> ustr \<Rightarrow> ustr option" where
  "otsl_html eng v =
     (if \<not> list_ex (\<lambda>t. contains (lit t) v) OTSL_TOKENS then Some v
      else map_option (\<lambda>rs.
             if rs = [] then v
             else lit ''<table>'' @
                  concat (map (\<lambda>row. lit ''<tr>'' @ concat (map (cell_html eng) row) @ lit ''</tr>'') rs) @
                  lit ''</table>'')
           (otsl_rows eng v))"

section \<open>Braces\<close>

text \<open>What a character is for the brace matcher, with the number of backslashes before it.\<close>

datatype brace = OpenB | CloseB | Plain

fun braces :: "ustr \<Rightarrow> nat \<Rightarrow> brace list" where
  "braces [] slashes = []"
| "braces (c # cs) slashes =
     (if c = slash then Plain # braces cs (slashes + 1)
      else (if c = 123 \<and> slashes mod 2 \<noteq> 1 then OpenB else if c = 125 \<and> slashes mod 2 \<noteq> 1 then CloseB else Plain) # braces cs 0)"

text \<open>The depth after the braces, \<open>None\<close> when one closes nothing.\<close>

fun depth :: "brace list \<Rightarrow> nat \<Rightarrow> nat option" where
  "depth [] d = Some d"
| "depth (OpenB # bs) d = depth bs (d + 1)"
| "depth (CloseB # bs) d = (if d = 0 then None else depth bs (d - 1))"
| "depth (Plain # bs) d = depth bs d"

definition balanced :: "ustr \<Rightarrow> bool" where
  "balanced v \<longleftrightarrow> depth (braces v 0) 0 = Some 0"

text \<open>Which braces go, and how many of the \<open>d\<close> braces open before are closed.\<close>

fun unmatched :: "brace list \<Rightarrow> nat \<Rightarrow> bool list \<times> nat" where
  "unmatched [] d = ([], 0)"
| "unmatched (Plain # bs) d = (let (fl, c) = unmatched bs d in (False # fl, c))"
| "unmatched (OpenB # bs) d = (let (fl, c) = unmatched bs (d + 1) in ((c = 0) # fl, c - 1))"
| "unmatched (CloseB # bs) d =
     (if d = 0 then let (fl, c) = unmatched bs 0 in (True # fl, c)
      else let (fl, c) = unmatched bs (d - 1) in (False # fl, c + 1))"

definition keep_unmarked :: "bool list \<Rightarrow> 'a list \<Rightarrow> 'a list" where
  "keep_unmarked fl xs = map snd (filter (\<lambda>(r, x). \<not> r) (zip fl xs))"

lemma keep_unmarked_simps [simp]:
  "keep_unmarked [] xs = []" "keep_unmarked fl [] = []" "keep_unmarked (r # fl) (x # xs) = (if r then keep_unmarked fl xs else x # keep_unmarked fl xs)"
  by (auto simp: keep_unmarked_def)

lemma length_braces [simp]: "length (braces v s) = length v"
  by (induction v arbitrary: s) auto

lemma length_unmatched [simp]: "length (fst (unmatched bs d)) = length bs"
  by (induction bs d rule: unmatched.induct) (auto split: prod.splits)

lemma unmatched_le: "snd (unmatched bs d) \<le> d"
  by (induction bs d rule: unmatched.induct) (auto split: prod.splits)

lemma depth_kept: "depth (keep_unmarked (fst (unmatched bs d)) bs) (snd (unmatched bs d)) = Some 0"
proof (induction bs d rule: unmatched.induct)
  case (4 bs d)
  then show ?case using unmatched_le [of bs 0] by (auto split: prod.splits)
qed (auto split: prod.splits)

lemma depth_unmatched:
  assumes "depth bs d = Some 0"
  shows "unmatched bs d = (replicate (length bs) False, d)"
  using assms
proof (induction bs d rule: unmatched.induct)
  case (4 bs d)
  then show ?case by (cases "d = 0") auto
qed auto

text \<open>Dropping braces that are not escaped changes no other character's class.\<close>

lemma braces_parity: "s mod 2 = s' mod 2 \<Longrightarrow> braces v s = braces v s'"
proof (induction v arbitrary: s s')
  case (Cons c v)
  have "braces v (s + 1) = braces v (s' + 1)" by (rule Cons.IH) (use Cons.prems in presburger)
  then show ?case using Cons.prems by simp
qed simp

lemma braces_kept:
  assumes "length fl = length v" "\<And>i. i < length v \<Longrightarrow> fl ! i \<Longrightarrow> braces v s ! i \<noteq> Plain"
  shows "braces (keep_unmarked fl v) s = keep_unmarked fl (braces v s)"
  using assms
proof (induction v arbitrary: fl s)
  case (Cons c v)
  obtain r fl' where fl: "fl = r # fl'" using Cons.prems(1) by (cases fl) auto
  have hd: "r \<Longrightarrow> braces (c # v) s ! 0 \<noteq> Plain" using Cons.prems(2) [of 0] fl by simp
  have tl: "fl' ! i \<Longrightarrow> i < length v \<Longrightarrow> braces (c # v) s ! Suc i \<noteq> Plain" for i using Cons.prems(2) [of "Suc i"] fl by simp
  have len: "length fl' = length v" using Cons.prems(1) fl by simp
  show ?case
  proof (cases "c = slash")
    case True
    then have "\<not> r" using hd by auto
    moreover have "braces (keep_unmarked fl' v) (s + 1) = keep_unmarked fl' (braces v (s + 1))"
      using tl True by (intro Cons.IH len) auto
    ultimately show ?thesis using fl True by simp
  next
    case False
    have IH: "braces (keep_unmarked fl' v) 0 = keep_unmarked fl' (braces v 0)" using tl False by (intro Cons.IH len) auto
    show ?thesis
    proof (cases r)
      case True
      then have "s mod 2 = 0 mod 2" using hd False by (auto split: if_splits)
      then have "braces (keep_unmarked fl' v) s = braces (keep_unmarked fl' v) 0" by (rule braces_parity)
      then show ?thesis using fl True False IH by simp
    qed (use fl False IH in simp)
  qed
qed simp

lemma unmatched_Plain: "i < length bs \<Longrightarrow> bs ! i = Plain \<Longrightarrow> \<not> fst (unmatched bs d) ! i"
proof (induction bs d arbitrary: i rule: unmatched.induct)
  case (2 bs d)
  then show ?case by (cases i) (auto split: prod.splits)
next
  case (3 bs d)
  then show ?case by (cases i) (auto split: prod.splits)
next
  case (4 bs d)
  then show ?case by (cases i) (auto split: prod.splits)
qed simp

text \<open>The loop of the code marks what \<open>unmatched\<close> says.\<close>

definition marked :: "bool list \<Rightarrow> nat set" where
  "marked r = {i. i < length r \<and> r ! i}"

lemma flags_Cons:
  "{n + k |k. k < Suc m \<and> (b # fl) ! k} = (if b then {n} else {}) \<union> {Suc n + k |k. k < m \<and> fl ! k}" (is "?L = ?R")
proof (rule set_eqI)
  fix x
  have "x \<in> ?L \<longleftrightarrow> (\<exists>k < Suc m. x = n + k \<and> (b # fl) ! k)" by auto
  also have "\<dots> \<longleftrightarrow> (x = n \<and> b) \<or> (\<exists>k < m. x = n + Suc k \<and> fl ! k)" by (subst Ex_less_Suc2) simp
  also have "\<dots> \<longleftrightarrow> x \<in> ?R" by auto
  finally show "x \<in> ?L \<longleftrightarrow> x \<in> ?R" .
qed

lemma brace_loop_marks:
  assumes "brace_loop (zip [n..<n + length v] v) r opens s = (r', opens')" "n + length v \<le> length r"
    "unmatched (braces v s) (length opens) = (fl, c)"
  shows "length r' = length r \<and>
    marked r' \<union> set opens' = marked r \<union> set (drop c opens) \<union> {n + k |k. k < length v \<and> fl ! k}"
  using assms
proof (induction v arbitrary: n r opens s fl c)
  case Nil
  then show ?case by auto
next
  case (Cons a v)
  have z: "zip [n..<n + length (a # v)] (a # v) = (n, a) # zip [Suc n..<Suc n + length v] v"
    by (simp add: upt_conv_Cons del: upt_Suc)
  note shift = flags_Cons [where m = "length v", folded length_Cons [of a v]]
  show ?case
  proof (cases "a = slash")
    case True
    obtain fl' where fl: "fl = False # fl'" "unmatched (braces v (s + 1)) (length opens) = (fl', c)"
      using Cons.prems(3) True by (auto split: prod.splits)
    show ?thesis using Cons.IH [OF _ _ fl(2), of "Suc n" r] Cons.prems(1,2) True z shift fl(1) by simp
  next
    case no: False
    consider (o) "a = 123" "s mod 2 \<noteq> 1" | (c) "a = 125" "s mod 2 \<noteq> 1" | (p) "\<not> (a \<in> {123, 125} \<and> s mod 2 \<noteq> 1)" by blast
    then show ?thesis
    proof cases
      case o
      obtain fl' c' where u: "unmatched (braces v 0) (Suc (length opens)) = (fl', c')" by force
      then have fl: "fl = (c' = 0) # fl'" "c = c' - 1" using Cons.prems(3) o no by auto
      have "length r' = length r \<and> marked r' \<union> set opens' = marked r \<union> set (drop c' (n # opens)) \<union> {Suc n + k |k. k < length v \<and> fl' ! k}"
        using Cons.IH [of "Suc n" r "n # opens" 0 fl' c'] Cons.prems(1,2) o z u by simp
      then show ?thesis unfolding fl shift by (cases c') auto
    next
      case c
      show ?thesis
      proof (cases opens)
        case Nil
        obtain fl' where fl: "fl = True # fl'" "unmatched (braces v 0) 0 = (fl', c)"
          using Cons.prems(3) c no Nil by (auto split: prod.splits)
        have "length r' = length r \<and> marked r' \<union> set opens' = marked (r[n := True]) \<union> set (drop c []) \<union> {Suc n + k |k. k < length v \<and> fl' ! k}"
          using Cons.IH [of "Suc n" "r[n := True]" "[]" 0 fl' c] Cons.prems(1,2) c z fl Nil by simp
        moreover have "marked (r[n := True]) = insert n (marked r)"
          using Cons.prems(2) by (auto simp: marked_def nth_list_update)
        ultimately show ?thesis unfolding fl shift Nil by auto
      next
        case (Cons b opens2)
        obtain fl' c' where fl: "fl = False # fl'" "c = Suc c'" "unmatched (braces v 0) (length opens2) = (fl', c')"
          using Cons.prems(3) c no Cons by (auto split: prod.splits)
        show ?thesis
          using Cons.IH [of "Suc n" r opens2 0 fl' c'] Cons.prems(1,2) c z fl Cons shift by simp
      qed
    next
      case p
      obtain fl' where fl: "fl = False # fl'" "unmatched (braces v 0) (length opens) = (fl', c)"
        using Cons.prems(3) p no by (auto split: prod.splits if_splits)
      show ?thesis using Cons.IH [OF _ _ fl(2), of "Suc n" r] Cons.prems(1,2) p no z shift fl(1)
        by (auto simp: Let_def split: if_splits)
    qed
  qed
qed

lemma marked_fold: "set is \<subseteq> {..<length r} \<Longrightarrow> marked (fold (\<lambda>i r. r[i := True]) is r) = marked r \<union> set is"
proof (induction "is" arbitrary: r)
  case (Cons i "is")
  have "marked (r[i := True]) = insert i (marked r)" using Cons.prems by (auto simp: marked_def nth_list_update)
  then show ?case using Cons by simp
qed simp

lemma length_fold_mark [simp]: "length (fold (\<lambda>i r. r[i := True]) is r) = length r"
  by (induction "is" arbitrary: r) auto

lemma kept_indices:
  fixes v :: ustr
  assumes "length r = length v" "length fl = length v" "\<And>i. i < length v \<Longrightarrow> r ! i = fl ! i"
  shows "map snd (filter (\<lambda>(i, c). \<not> r ! i) (zip [0..<length v] v)) = keep_unmarked fl v"
proof -
  have "r = fl" using assms by (intro nth_equalityI) auto
  moreover have "map snd (filter (\<lambda>(i, c). \<not> r ! (n + i)) (zip [m..<m + length w] w)) = keep_unmarked (drop (n + m) r) w"
    if "length r = n + m + length w" for n m and w :: "uchar list"
    using that
  proof (induction w arbitrary: m)
    case (Cons a w)
    have d: "drop (n + m) r = r ! (n + m) # drop (n + Suc m) r" using Cons.prems by (simp add: Cons_nth_drop_Suc)
    have z: "zip [m..<m + length (a # w)] (a # w) = (m, a) # zip [Suc m..<Suc m + length w] w"
      by (simp add: upt_conv_Cons del: upt_Suc)
    show ?case using Cons.IH [of "Suc m"] Cons.prems unfolding z d by simp
  qed simp
  from this [of 0 0 v] assms(1) have "map snd (filter (\<lambda>(i, c). \<not> r ! i) (zip [0..<length v] v)) = keep_unmarked r v" by simp
  ultimately show ?thesis by simp
qed

lemma remove_unmatched_braces_kept:
  "remove_unmatched_braces v = keep_unmarked (fst (unmatched (braces v 0) 0)) v"
proof -
  obtain r opens where l: "brace_loop (zip [0..<length v] v) (replicate (length v) False) [] 0 = (r, opens)" by force
  obtain fl c where u: "unmatched (braces v 0) 0 = (fl, c)" by force
  have fl: "length fl = length v" using length_unmatched [of "braces v 0" 0] u by simp
  have none: "marked (replicate (length v) False) = {}" by (simp add: marked_def)
  have m: "length r = length v" "marked r \<union> set opens = {k. k < length v \<and> fl ! k}"
    using brace_loop_marks [of 0 v "replicate (length v) False" "[]" 0 r opens fl c] l u none by simp_all
  let ?r = "fold (\<lambda>i r. r[i := True]) (rev opens) r"
  have "marked ?r = {k. k < length v \<and> fl ! k}" using m by (subst marked_fold) auto
  then have "i < length v \<Longrightarrow> ?r ! i = fl ! i" for i using m(1) by (auto simp: marked_def set_eq_iff)
  then show ?thesis using kept_indices [of ?r v fl] l u m(1) fl by (simp add: remove_unmatched_braces_def)
qed

lemma kept_none [simp]: "keep_unmarked (replicate (length v) False) v = v"
  by (induction v) auto

text \<open>
  Which braces have a partner, without a stack: an opening and a closing brace are partners when the braces between
  them are balanced.
\<close>

definition partners :: "brace list \<Rightarrow> nat \<Rightarrow> nat \<Rightarrow> bool" where
  "partners bs i j \<longleftrightarrow> i < j \<and> j < length bs \<and> bs ! i = OpenB \<and> bs ! j = CloseB \<and>
     depth (take (j - Suc i) (drop (Suc i) bs)) 0 = Some 0"

definition kept_braces :: "brace list \<Rightarrow> nat set" where
  "kept_braces bs = {i. bs ! i = Plain \<or> (\<exists>j. partners bs i j \<or> partners bs j i)}"

text \<open>The braces open before that are closed are the latest ones: the one below \<open>k\<close> others is, when a prefix comes down to it.\<close>

lemma unmatched_closes:
  "k < d \<Longrightarrow> k < snd (unmatched bs d) \<longleftrightarrow> (\<exists>j < length bs. bs ! j = CloseB \<and> depth (take j bs) k = Some 0)"
proof (induction bs d arbitrary: k rule: unmatched.induct)
  case (2 bs d)
  then show ?case by (auto simp: Ex_less_Suc2 split: prod.splits)
next
  case (3 bs d)
  obtain fl c where u: "unmatched bs (Suc d) = (fl, c)" by force
  have "Suc k < c \<longleftrightarrow> (\<exists>j < length bs. bs ! j = CloseB \<and> depth (take j bs) (Suc k) = Some 0)"
    using "3.IH" [of "Suc k"] "3.prems" u by simp
  then show ?case using u by (auto simp: Ex_less_Suc2)
next
  case (4 bs d)
  then show ?case by (cases k) (auto simp: Ex_less_Suc2 split: prod.splits)
qed simp

text \<open>The number of open braces, a closing one without partner passed over.\<close>

fun open_before :: "brace list \<Rightarrow> nat \<Rightarrow> nat" where
  "open_before [] d = d"
| "open_before (OpenB # bs) d = open_before bs (d + 1)"
| "open_before (CloseB # bs) d = open_before bs (d - 1)"
| "open_before (Plain # bs) d = open_before bs d"

lemma open_before_snoc: "open_before (bs @ [b]) d = open_before [b] (open_before bs d)"
  by (induction bs d rule: open_before.induct) auto

lemma depth_append: "depth (xs @ ys) d = Option.bind (depth xs d) (depth ys)"
  by (induction xs d rule: depth.induct) auto

lemma open_before_opens:
  "k < open_before bs 0 \<longleftrightarrow> (\<exists>i < length bs. bs ! i = OpenB \<and> depth (drop (Suc i) bs) 0 = Some k)"
proof (induction bs arbitrary: k rule: rev_induct)
  case (snoc b bs)
  have e: "(\<exists>i < length (bs @ [b]). (bs @ [b]) ! i = OpenB \<and> depth (drop (Suc i) (bs @ [b])) 0 = Some k) \<longleftrightarrow>
        b = OpenB \<and> k = 0 \<or> (\<exists>i < length bs. bs ! i = OpenB \<and> Option.bind (depth (drop (Suc i) bs) 0) (depth [b]) = Some k)"
    by (simp add: Ex_less_Suc nth_append depth_append disj_commute cong: conj_cong)
  have o: "Option.bind x (depth [b]) = Some k \<longleftrightarrow>
        (case b of OpenB \<Rightarrow> 0 < k \<and> x = Some (k - 1) | CloseB \<Rightarrow> x = Some (Suc k) | Plain \<Rightarrow> x = Some k)" for x
    by (cases b; cases x) auto
  have "k < open_before (bs @ [b]) 0 \<longleftrightarrow> (case b of OpenB \<Rightarrow> k = 0 \<or> k - 1 < open_before bs 0 | CloseB \<Rightarrow> Suc k < open_before bs 0 | Plain \<Rightarrow> k < open_before bs 0)"
    by (cases b) (auto simp: open_before_snoc)
  then show ?case unfolding e o snoc by (cases b) auto
qed simp

lemma unmatched_close:
  "i < length bs \<Longrightarrow> bs ! i = CloseB \<Longrightarrow> fst (unmatched bs d) ! i \<longleftrightarrow> open_before (take i bs) d = 0"
proof (induction bs d arbitrary: i rule: unmatched.induct)
qed (auto simp: nth_Cons' take_Cons' split: prod.splits if_splits)

lemma unmatched_open:
  "i < length bs \<Longrightarrow> bs ! i = OpenB \<Longrightarrow>
   fst (unmatched bs d) ! i \<longleftrightarrow> \<not> (\<exists>j < length (drop (Suc i) bs). drop (Suc i) bs ! j = CloseB \<and> depth (take j (drop (Suc i) bs)) 0 = Some 0)"
proof (induction bs d arbitrary: i rule: unmatched.induct)
  case (3 bs d)
  then show ?case using unmatched_closes [of 0 "Suc d" bs] by (cases i) (auto split: prod.splits)
qed (auto simp: nth_Cons' split: prod.splits if_splits)

lemma unmatched_kept:
  assumes "i < length bs"
  shows "\<not> fst (unmatched bs 0) ! i \<longleftrightarrow> i \<in> kept_braces bs"
proof (cases "bs ! i")
  case OpenB
  have "(\<exists>j < length (drop (Suc i) bs). drop (Suc i) bs ! j = CloseB \<and> depth (take j (drop (Suc i) bs)) 0 = Some 0) \<longleftrightarrow> (\<exists>j. partners bs i j)"
  proof (safe)
    fix j
    assume "j < length (drop (Suc i) bs)" "drop (Suc i) bs ! j = CloseB" "depth (take j (drop (Suc i) bs)) 0 = Some 0"
    then show "\<exists>j. partners bs i j" using OpenB by (intro exI [of _ "Suc (i + j)"]) (auto simp: partners_def)
  next
    fix j
    assume "partners bs i j"
    then show "\<exists>j < length (drop (Suc i) bs). drop (Suc i) bs ! j = CloseB \<and> depth (take j (drop (Suc i) bs)) 0 = Some 0"
      by (intro exI [of _ "j - Suc i"]) (auto simp: partners_def)
  qed
  then show ?thesis using unmatched_open [OF assms OpenB, of 0] OpenB by (auto simp: kept_braces_def partners_def)
next
  case CloseB
  have "0 < open_before (take i bs) 0 \<longleftrightarrow> (\<exists>j. partners bs j i)"
    using open_before_opens [of 0 "take i bs"] assms CloseB
    by (auto simp: partners_def drop_take cong: conj_cong)
  then show ?thesis using unmatched_close [OF assms CloseB, of 0] CloseB by (auto simp: kept_braces_def partners_def)
next
  case Plain
  then show ?thesis using unmatched_Plain [of i bs 0] assms by (auto simp: kept_braces_def)
qed

lemma keep_unmarked_nths:
  "length fl = length v \<Longrightarrow> keep_unmarked fl v = nths v {i. i < length fl \<and> \<not> fl ! i}"
proof (induction v arbitrary: fl)
  case (Cons a v)
  then obtain r fl' where fl: "fl = r # fl'" "length fl' = length v" by (cases fl) auto
  then show ?case using Cons.IH [of fl'] by (simp add: nths_Cons)
qed simp

lemma nths_cong: "(\<And>i. i < length v \<Longrightarrow> i \<in> A \<longleftrightarrow> i \<in> B) \<Longrightarrow> nths v A = nths v B"
  unfolding nths_def by (intro arg_cong [where f = "map fst"] filter_cong) (auto dest: set_zip_rightD)

text \<open>
  C36: exactly the unmatched braces of an equation are removed. The characters kept are, in order, those at the positions
  that hold no unescaped brace or a brace with a partner: an opening and a closing brace with a balanced text
  between them. The result is balanced, and a text that is balanced already is left as it is.
\<close>

theorem remove_unmatched_braces_spec:
  "remove_unmatched_braces v = nths v (kept_braces (braces v 0)) \<and>
   balanced (remove_unmatched_braces v) \<and> (remove_unmatched_braces v = v \<longleftrightarrow> balanced v)"
proof -
  let ?u = "unmatched (braces v 0) 0" let ?fl = "fst ?u"
  have cl: "i < length v \<Longrightarrow> ?fl ! i \<Longrightarrow> braces v 0 ! i \<noteq> Plain" for i
    using unmatched_Plain [of i "braces v 0" 0] by auto
  have "depth (keep_unmarked ?fl (braces v 0)) (snd ?u) = Some 0" by (rule depth_kept)
  then have bal: "balanced (remove_unmatched_braces v)"
    using unmatched_le [of "braces v 0" 0] braces_kept [of ?fl v 0] cl
    by (simp add: balanced_def remove_unmatched_braces_kept)
  have "remove_unmatched_braces v = nths v {i. i < length v \<and> \<not> ?fl ! i}"
    by (simp add: remove_unmatched_braces_kept keep_unmarked_nths)
  also have "\<dots> = nths v (kept_braces (braces v 0))"
    using unmatched_kept [of _ "braces v 0"] by (intro nths_cong) auto
  finally have "remove_unmatched_braces v = nths v (kept_braces (braces v 0))" .
  moreover have "remove_unmatched_braces v = v" if "balanced v"
    using depth_unmatched [of "braces v 0" 0] that by (simp add: balanced_def remove_unmatched_braces_kept)
  ultimately show ?thesis using bal by auto
qed

end
