(* ===== verification/Otsl.thy ===== *)
theory Otsl
  imports Vlm_Text
begin

text \<open>
  The OTSL tables of the model's answers (\<open>otsl_html\<close> in \<open>vlm_postprocess.rs\<close>): no stream of tokens
  makes an index of the table builder panic, and the tokens of a table whose merged cells are
  rectangles become the HTML table with exactly those spans.
\<close>

section \<open>The matches of the token pattern\<close>

definition OTSL_NAMES :: "ustr list" where
  "OTSL_NAMES = map lit [''nl'', ''fcel'', ''ecel'', ''lcel'', ''ucel'', ''xcel'']"

text \<open>The length of the name of the token a text begins with.\<close>

definition token_at :: "ustr \<Rightarrow> nat option" where
  "token_at s = map_option length (find (\<lambda>n. lower (take (length n + 2) s) = [60] @ n @ [62]) OTSL_NAMES)"

function token_matches :: "nat \<Rightarrow> ustr \<Rightarrow> captures list" where
  "token_matches at [] = []"
| "token_matches at (c # s) =
     (case token_at (c # s) of
        Some n \<Rightarrow> [Some (at, at + n + 2), Some (at + 1, at + 1 + n)] # token_matches (at + n + 2) (drop (n + 1) s)
      | None \<Rightarrow> token_matches (at + 1) s)"
  by pat_completeness auto
termination
  by (relation "measure (\<lambda>(at, s). length s)") auto

text \<open>
  What the code relies on of the pattern \<open>(?i)<(nl|fcel|ecel|lcel|ucel|xcel)>\<close>: its matches are the
  leftmost ones, one after the other; and the pattern of image tags matches only at an angle bracket.
\<close>

definition otsl_engine :: "engine \<Rightarrow> bool" where
  "otsl_engine eng \<longleftrightarrow> (\<forall>v. eng OtslToken v = token_matches 0 v) \<and> (\<forall>v. 60 \<notin> set v \<longrightarrow> eng ImageTag v = [])"

section \<open>No index panics\<close>

text \<open>Every anchor is a cell of the table.\<close>

definition in_rows :: "rows \<Rightarrow> nat \<times> nat \<Rightarrow> bool" where
  "in_rows rs a \<longleftrightarrow> fst a < length rs \<and> snd a < length (rs ! fst a)"

definition anchors_ok :: "rows \<Rightarrow> bool" where
  "anchors_ok rs \<longleftrightarrow> rs \<noteq> [] \<and> (\<forall>row \<in> set rs. \<forall>c \<in> set row. \<forall>a. hidden c \<and> anchor c = Some a \<longrightarrow> in_rows rs a)"

lemma anchors_okD:
  assumes "anchors_ok rs" "row \<in> set rs" "c \<in> set row" "hidden c" "anchor c = Some a"
  shows "in_rows rs a"
  using assms unfolding anchors_ok_def by blast

lemma anchors_okI:
  assumes "rs \<noteq> []" "\<And>row c a. row \<in> set rs \<Longrightarrow> c \<in> set row \<Longrightarrow> hidden c \<Longrightarrow> anchor c = Some a \<Longrightarrow> in_rows rs a"
  shows "anchors_ok rs"
  using assms unfolding anchors_ok_def by blast

lemma in_rows_upd [simp]:
  "upd_cell f p rs = Some rs' \<Longrightarrow> in_rows rs' a = in_rows rs a"
  by (auto simp: upd_cell_def in_rows_def nth_list_update split: if_splits)

lemma in_rows_push: "push_cell c rs = Some rs' \<Longrightarrow> in_rows rs a \<Longrightarrow> in_rows rs' a"
  by (auto simp: push_cell_def in_rows_def nth_append nth_butlast last_conv_nth less_Suc_eq split: if_splits)
     (metis diff_Suc_1 length_0_conv linorder_neqE_nat not_less_eq less_SucI Suc_pred length_greater_0_conv)+

lemma upd_cell_defined: "in_rows rs a \<Longrightarrow> \<exists>rs'. upd_cell f a rs = Some rs'"
  by (simp add: upd_cell_def in_rows_def)

lemma anchors_upd:
  assumes "anchors_ok rs" "upd_cell f p rs = Some rs'" "\<And>c. hidden (f c) = hidden c" "\<And>c. anchor (f c) = anchor c"
  shows "anchors_ok rs'"
proof -
  have "in_rows rs p" "rs' = rs[fst p := (rs ! fst p)[snd p := f (rs ! fst p ! snd p)]]"
    using assms(2) by (auto simp: upd_cell_def in_rows_def split: if_splits)
  moreover have "in_rows rs a" if "row \<in> set rs'" "c \<in> set row" "hidden c" "anchor c = Some a" for row c a
  proof -
    have "\<exists>row' \<in> set rs. \<exists>c' \<in> set row'. hidden c' = hidden c \<and> anchor c' = anchor c"
      using calculation that(1,2) assms(3,4)
      by (auto simp: in_rows_def in_set_conv_nth [of row] in_set_conv_nth [of c] nth_list_update split: if_splits) (metis nth_mem)+
    then show ?thesis using anchors_okD [OF assms(1)] that(3,4) by metis
  qed
  moreover have "rs' \<noteq> []" using calculation(1,2) by (auto simp: in_rows_def)
  ultimately show ?thesis using in_rows_upd [OF assms(2)] by (intro anchors_okI) auto
qed

lemma anchors_push:
  assumes "anchors_ok rs" "push_cell c rs = Some rs'" "\<And>a. hidden c \<Longrightarrow> anchor c = Some a \<Longrightarrow> in_rows rs a"
  shows "anchors_ok rs'"
proof -
  have rs': "rs' = butlast rs @ [last rs @ [c]]" "rs \<noteq> []" using assms(2) by (auto simp: push_cell_def split: if_splits)
  have "in_rows rs a" if "row \<in> set rs'" "d \<in> set row" "hidden d" "anchor d = Some a" for row d a
  proof (cases "d = c")
    case False
    then have "\<exists>row' \<in> set rs. d \<in> set row'" using that(1,2) rs' by (auto dest: in_set_butlastD)
    then show ?thesis using anchors_okD [OF assms(1)] that(3,4) by blast
  qed (use that assms(3) in blast)
  then show ?thesis using in_rows_push [OF assms(2)] rs'(1) by (intro anchors_okI) auto
qed

lemma owner_in_rows:
  assumes "anchors_ok rs" "owner_at rs r c = Some a"
  shows "in_rows rs a"
  using assms(2) anchors_okD [OF assms(1), of "rs ! r" "rs ! r ! c" a]
  by (auto simp: owner_at_def Let_def in_rows_def split: if_splits)

lemma owners_in_rows:
  assumes "anchors_ok rs"
  shows "left_owner rs = Some a \<Longrightarrow> in_rows rs a" "up_owner rs = Some a \<Longrightarrow> in_rows rs a"
  using owner_in_rows [OF assms] by (auto simp: left_owner_def up_owner_def Let_def split: if_splits)

definition cur_ok :: "rows \<Rightarrow> (nat \<times> nat) option \<Rightarrow> bool" where
  "cur_ok rs cur \<longleftrightarrow> anchors_ok rs \<and> (\<forall>a. cur = Some a \<longrightarrow> in_rows rs a)"

lemma push_defined: "anchors_ok rs \<Longrightarrow> \<exists>rs'. push_cell c rs = Some rs'"
  by (simp add: push_cell_def anchors_ok_def)

lemma push_ok:
  assumes "anchors_ok rs" "\<And>a. hidden c \<Longrightarrow> anchor c = Some a \<Longrightarrow> in_rows rs a"
  shows "\<exists>rs'. push_cell c rs = Some rs' \<and> anchors_ok rs'"
proof -
  obtain rs' where p: "push_cell c rs = Some rs'" using push_defined [OF assms(1)] by blast
  show ?thesis using p anchors_push [OF assms(1) p assms(2)] by blast
qed

lemma push_hidden:
  assumes "anchors_ok rs" "\<And>a. o' = Some a \<Longrightarrow> in_rows rs a"
  shows "\<exists>rs'. push_cell (cell_hidden o') rs = Some rs' \<and> anchors_ok rs'"
  by (rule push_ok [OF assms(1)]) (simp add: cell_hidden_def assms(2))

lemma push_new:
  assumes "anchors_ok rs"
  shows "\<exists>rs'. push_cell (cell_new t) rs = Some rs' \<and> anchors_ok rs'"
  by (rule push_ok [OF assms(1)]) (simp add: cell_new_def)

lemma upd_ok:
  assumes "anchors_ok rs" "in_rows rs a" "\<And>c. hidden (f c) = hidden c" "\<And>c. anchor (f c) = anchor c"
  shows "\<exists>rs'. upd_cell f a rs = Some rs' \<and> anchors_ok rs' \<and> (\<forall>b. in_rows rs' b = in_rows rs b)"
proof -
  obtain rs' where u: "upd_cell f a rs = Some rs'" using upd_cell_defined [OF assms(2)] by blast
  show ?thesis using u anchors_upd [OF assms(1) u assms(3,4)] in_rows_upd [OF u] by blast
qed

lemma extend_span:
  assumes "anchors_ok rs" "\<And>a. o' = Some a \<Longrightarrow> in_rows rs a" "ext \<in> {extend_colspan, extend_rowspan}"
  shows "\<exists>rs'. Option.bind (case o' of None \<Rightarrow> Some rs | Some p \<Rightarrow> ext p rs) (push_cell (cell_hidden o')) = Some rs' \<and> anchors_ok rs'"
proof (cases o')
  case None
  then show ?thesis using push_hidden [OF assms(1), of None] by simp
next
  case (Some a)
  have "\<exists>rs1. ext a rs = Some rs1 \<and> anchors_ok rs1 \<and> (\<forall>b. in_rows rs1 b = in_rows rs b)"
    using assms(3)
  proof (elim insertE emptyE)
    assume "ext = extend_colspan"
    then show ?thesis using upd_ok [OF assms(1) assms(2) [OF Some], of "\<lambda>c. c\<lparr>colspan := colspan c + 1\<rparr>"]
      by (simp add: extend_colspan_def)
  next
    assume "ext = extend_rowspan"
    then show ?thesis using upd_ok [OF assms(1) assms(2) [OF Some], of "\<lambda>c. c\<lparr>rowspan := rowspan c + 1\<rparr>"]
      by (simp add: extend_rowspan_def)
  qed
  then obtain rs1 where "ext a rs = Some rs1" "anchors_ok rs1" "\<And>b. in_rows rs1 b = in_rows rs b" by blast
  then show ?thesis using push_hidden [of rs1 o'] assms(2) Some by simp
qed

lemma extend_both_ok:
  assumes "anchors_ok rs"
  shows "\<exists>rs'. extend_both rs = Some rs' \<and> anchors_ok rs'"
proof -
  have ne: "rs \<noteq> []" using assms by (simp add: anchors_ok_def)
  note o = owners_in_rows [OF assms]
  show ?thesis
  proof (cases "left_owner rs"; cases "up_owner rs")
    fix l assume "left_owner rs = Some l" "up_owner rs = None"
    then show ?thesis using extend_span [OF assms, of "Some l" extend_colspan] o ne by (simp add: extend_both_def)
  next
    fix u assume "left_owner rs = None" "up_owner rs = Some u"
    then show ?thesis using extend_span [OF assms, of "Some u" extend_rowspan] o ne by (simp add: extend_both_def)
  next
    assume "left_owner rs = None" "up_owner rs = None"
    then show ?thesis using push_hidden [OF assms, of None] ne by (simp add: extend_both_def)
  next
    fix l u assume "left_owner rs = Some l" "up_owner rs = Some u"
    then show ?thesis using push_hidden [OF assms, of "Some u"] o ne by (simp add: extend_both_def)
  qed
qed

lemma otsl_token_ok:
  assumes "anchors_ok rs" "name \<in> set OTSL_NAMES"
  shows "\<exists>rs' cur. otsl_token name rs = Some (rs', cur) \<and> cur_ok rs' cur"
proof -
  have ne: "rs \<noteq> []" using assms by (simp add: anchors_ok_def)
  note o = owners_in_rows [OF assms(1)]
  obtain rn where n: "push_cell (cell_new []) rs = Some rn" "anchors_ok rn" using push_new [OF assms(1)] by blast
  have nl: "anchors_ok (rs @ [[]])"
    using assms(1) by (intro anchors_okI) (auto dest!: anchors_okD simp: in_rows_def nth_append)
  have fc: "in_rows rn (length rs - 1, length (last rs))"
    using n(1) ne by (auto simp: push_cell_def in_rows_def nth_append)
  have l: "\<exists>rs'. extend_left rs = Some rs' \<and> anchors_ok rs'" "\<exists>rs'. extend_up rs = Some rs' \<and> anchors_ok rs'"
    using extend_span [OF assms(1), of "left_owner rs" extend_colspan] extend_span [OF assms(1), of "up_owner rs" extend_rowspan] o ne
    by (simp_all add: extend_left_def extend_up_def Let_def)
  show ?thesis
    using assms(2) n nl fc l extend_both_ok [OF assms(1)]
    by (auto simp: OTSL_NAMES_def otsl_token_def cur_ok_def)
qed

lemma add_before_ok:
  assumes "cur_ok rs cur"
  shows "\<exists>rs'. add_before t cur rs = Some rs' \<and> anchors_ok rs'"
proof (cases cur)
  case None
  then show ?thesis using push_new [of rs t] assms by (auto simp: add_before_def cur_ok_def)
next
  case (Some a)
  then have "in_rows rs a" "anchors_ok rs" using assms by (auto simp: cur_ok_def)
  then have "\<exists>rs'. upd_cell (\<lambda>c. c\<lparr>cell_text := cell_text c @ t\<rparr>) a rs = Some rs' \<and> anchors_ok rs' \<and> (\<forall>b. in_rows rs' b = in_rows rs b)"
    by (intro upd_ok) auto
  then show ?thesis using Some by (auto simp: add_before_def)
qed

definition names_ok :: "ustr \<Rightarrow> captures list \<Rightarrow> bool" where
  "names_ok v hits \<longleftrightarrow> (\<forall>hit \<in> set hits. lower (span_text v (the (capture 1 hit))) \<in> set OTSL_NAMES)"

lemma otsl_loop_ok:
  assumes "cur_ok rs cur" "names_ok v hits"
  shows "\<exists>rs' at' cur'. otsl_loop v hits at cur rs = Some (rs', at', cur') \<and> cur_ok rs' cur'"
  using assms
proof (induction hits arbitrary: at cur rs)
  case (Cons hit hits)
  obtain rs1 where 1: "add_before (trim (span_text v (at, fst (the (capture 0 hit))))) cur rs = Some rs1" "anchors_ok rs1"
    using add_before_ok [OF Cons.prems(1)] by blast
  obtain rs2 cur2 where 2: "otsl_token (lower (span_text v (the (capture 1 hit)))) rs1 = Some (rs2, cur2)" "cur_ok rs2 cur2"
    using otsl_token_ok [OF 1(2), of "lower (span_text v (the (capture 1 hit)))"] Cons.prems(2) unfolding names_ok_def by auto
  show ?case using Cons.IH [OF 2(2)] Cons.prems(2) 1(1) 2(1) by (simp add: names_ok_def Let_def)
qed simp

lemma otsl_rows_total:
  assumes "names_ok v (eng OtslToken v)"
  shows "\<exists>rs. otsl_rows eng v = Some rs"
proof -
  have "cur_ok [[]] None" by (simp add: cur_ok_def anchors_ok_def)
  from otsl_loop_ok [OF this assms, of 0]
  obtain rs at cur where 1: "otsl_loop v (eng OtslToken v) 0 None [[]] = Some (rs, at, cur)" "cur_ok rs cur" by blast
  then show ?thesis using upd_cell_defined [of rs]
    by (cases cur) (fastforce simp: otsl_rows_def cur_ok_def)+
qed

lemma token_at_Some:
  assumes "token_at s = Some n"
  shows "\<exists>name \<in> set OTSL_NAMES. length name = n \<and> lower (take (n + 2) s) = [60] @ name @ [62]"
  using assms by (auto simp: token_at_def find_Some_iff)

lemma lower_slice: "lower (span_text s sp) = span_text (lower s) sp"
  by (simp add: lower_def span_text_def take_map drop_map)

lemma token_matches_names: "v = pre @ s \<Longrightarrow> length pre = at \<Longrightarrow> names_ok v (token_matches at s)"
proof (induction at s arbitrary: pre rule: token_matches.induct)
  case (2 at c s)
  show ?case
  proof (cases "token_at (c # s)")
    case None
    then show ?thesis using "2.IH"(1) [OF None, of "pre @ [c]"] "2.prems" by simp
  next
    case (Some n)
    obtain name where n: "name \<in> set OTSL_NAMES" "length name = n" "lower (take (n + 2) (c # s)) = [60] @ name @ [62]"
      using token_at_Some [OF Some] by blast
    have "lower (span_text v (at + 1, at + 1 + n)) = take n (drop 1 (lower (take (n + 2) (c # s))))"
      using "2.prems" by (simp add: lower_def span_text_def take_map drop_map drop_take)
    then have "lower (span_text v (at + 1, at + 1 + n)) = name" unfolding n(3) using n(2) by simp
    moreover have "names_ok v (token_matches (at + n + 2) (drop (n + 1) s))"
    proof (rule "2.IH"(2) [OF Some])
      show "v = (pre @ take (n + 2) (c # s)) @ drop (n + 1) s" using "2.prems" by simp
      have "length (lower (take (n + 2) (c # s))) = n + 2" unfolding n(3) using n(2) by simp
      then show "length (pre @ take (n + 2) (c # s)) = at + n + 2" using "2.prems" by (simp add: lower_def)
    qed
    ultimately show ?thesis using Some n(1) by (simp add: names_ok_def capture_def)
  qed
qed (simp add: names_ok_def)

text \<open>
  Converting a table never panics. Whatever the model answers, no index of the OTSL table builder is out of range
  and every match is one of the six tokens.
\<close>

theorem otsl_html_total:
  assumes "otsl_engine eng"
  shows "otsl_html eng v \<noteq> None"
  using otsl_rows_total [of v eng] token_matches_names [of v "[]" v 0] assms
  by (auto simp: otsl_html_def otsl_engine_def)

section \<open>A stream of tokens\<close>

type_synonym token = "ustr \<times> ustr"

definition stream :: "token list \<Rightarrow> ustr" where
  "stream toks = concat (map (\<lambda>(n, t). [60] @ n @ [62] @ t) toks)"

definition clean_token :: "token \<Rightarrow> bool" where
  "clean_token tok \<longleftrightarrow>
     (case tok of (n, t) \<Rightarrow> n \<in> set OTSL_NAMES \<and> 60 \<notin> set t \<and> trim t = t \<and> (n \<noteq> lit ''fcel'' \<longrightarrow> t = []))"

fun build :: "token list \<Rightarrow> rows \<Rightarrow> rows option" where
  "build [] rs = Some rs"
| "build ((n, t) # toks) rs =
     Option.bind (otsl_token n rs) (\<lambda>(rs, cur). Option.bind (add_before t cur rs) (build toks))"

lemma stream_simps [simp]: "stream [] = []" "stream ((n, t) # toks) = 60 # n @ 62 # t @ stream toks"
  by (simp_all add: stream_def)

lemma build_append: "build (a @ b) rs = Option.bind (build a rs) (build b)"
proof (induction a arbitrary: rs)
  case (Cons tok a)
  obtain n t where "tok = (n, t)" by force
  moreover have "build (a @ b) = (\<lambda>rs. Option.bind (build a rs) (build b))" using Cons.IH by blast
  ultimately show ?case by (cases "otsl_token n rs") (auto simp: Option.bind_assoc split: prod.splits)
qed simp

lemma token_at_text: "c \<noteq> 60 \<Longrightarrow> token_at (c # s) = None"
  by (auto simp: token_at_def find_None_iff lower_def to_ascii_lowercase_def split: if_splits)

lemma token_at_name: "n \<in> set OTSL_NAMES \<Longrightarrow> token_at (60 # n @ 62 # r) = Some (length n)"
  by (auto simp: OTSL_NAMES_def token_at_def lower_def to_ascii_lowercase_def)

lemma token_matches_text: "60 \<notin> set t \<Longrightarrow> token_matches at (t @ s) = token_matches (at + length t) s"
proof (induction t arbitrary: at)
  case (Cons c t)
  then show ?case by (simp add: token_at_text)
qed simp

lemma token_matches_token:
  "n \<in> set OTSL_NAMES \<Longrightarrow> token_matches at (60 # n @ 62 # r) =
     [Some (at, at + length n + 2), Some (at + 1, at + 1 + length n)] # token_matches (at + length n + 2) r"
  by (simp add: token_at_name)

lemma otsl_token_current:
  "otsl_token n rs = Some (rs', None) \<Longrightarrow> n \<noteq> lit ''fcel''"
  by (auto simp: otsl_token_def)

definition settle :: "ustr \<Rightarrow> rows \<times> nat \<times> (nat \<times> nat) option \<Rightarrow> rows option" where
  "settle v st = (case st of (rs, at, cur) \<Rightarrow>
     (case cur of None \<Rightarrow> Some rs | Some a \<Rightarrow> upd_cell (\<lambda>c. c\<lparr>cell_text := cell_text c @ trim (drop at v)\<rparr>) a rs))"

lemma lower_name: "n \<in> set OTSL_NAMES \<Longrightarrow> lower n = n"
  by (auto simp: OTSL_NAMES_def lower_def to_ascii_lowercase_def)

lemma loop_build:
  assumes "v = pre @ t @ stream toks" "length pre = at" "60 \<notin> set t" "trim t = t" "cur = None \<longrightarrow> t = []" "list_all clean_token toks"
  shows "Option.bind (otsl_loop v (token_matches at (t @ stream toks)) at cur rs) (settle v) =
    Option.bind (add_before t cur rs) (build toks)"
  using assms
proof (induction toks arbitrary: pre t at cur rs)
  case Nil
  then show ?case
    using token_matches_text [of t at "[]"] by (cases cur) (auto simp: settle_def add_before_def)
next
  case (Cons tok toks)
  obtain n t' where tok: "tok = (n, t')" by force
  have c: "n \<in> set OTSL_NAMES" "60 \<notin> set t'" "trim t' = t'" "n \<noteq> lit ''fcel'' \<longrightarrow> t' = []"
    using Cons.prems(6) tok by (auto simp: clean_token_def)
  let ?p = "at + length t"
  have m: "token_matches at (t @ stream (tok # toks)) =
      [Some (?p, ?p + length n + 2), Some (?p + 1, ?p + 1 + length n)] # token_matches (?p + length n + 2) (t' @ stream toks)"
    using token_matches_text [OF Cons.prems(3)] token_matches_token [OF c(1)] tok by simp
  have sl: "span_text v (at, ?p) = t" "span_text v (?p + 1, ?p + 1 + length n) = n"
    using Cons.prems(1,2) tok by (auto simp: span_text_def)
  have IH: "Option.bind (otsl_loop v (token_matches (?p + length n + 2) (t' @ stream toks)) (?p + length n + 2) cur' rs') (settle v) =
      Option.bind (add_before t' cur' rs') (build toks)" if "cur' = None \<longrightarrow> t' = []" for cur' rs'
    using Cons.prems(1,2,6) tok c that by (intro Cons.IH [of "pre @ t @ 60 # n @ [62]"]) auto
  show ?case
  proof (cases "add_before t cur rs")
    case None
    then show ?thesis using m sl Cons.prems(4) by (simp add: capture_def Let_def)
  next
    case (Some rs1)
    show ?thesis
    proof (cases "otsl_token n rs1")
      case None
      then show ?thesis using m sl Cons.prems(4) Some lower_name [OF c(1)] tok by (simp add: capture_def Let_def)
    next
      case (Some st)
      obtain rs2 cur2 where st: "st = (rs2, cur2)" by force
      have "cur2 = None \<longrightarrow> t' = []" using otsl_token_current [of n rs1 rs2] Some st c(4) by auto
      then show ?thesis
        using m sl Cons.prems(4) \<open>add_before t cur rs = Some rs1\<close> Some st lower_name [OF c(1)] tok IH [of cur2 rs2]
        by (simp add: capture_def Let_def)
    qed
  qed
qed

lemma otsl_rows_stream:
  assumes "otsl_engine eng" "list_all clean_token toks"
  shows "otsl_rows eng (stream toks) = map_option (filter (\<lambda>row. row \<noteq> [])) (build toks [[]])"
proof -
  have "Option.bind (otsl_loop (stream toks) (token_matches 0 (stream toks)) 0 None [[]]) (settle (stream toks)) = build toks [[]]"
    using loop_build [of "stream toks" "[]" "[]" toks 0 None "[[]]"] assms(2) by (simp add: add_before_def trim_def trim_matches_def)
  then show ?thesis using assms(1)
    by (cases "otsl_loop (stream toks) (token_matches 0 (stream toks)) 0 None [[]]")
       (auto simp: otsl_rows_def otsl_engine_def settle_def)
qed

section \<open>Tables with merged cells\<close>

text \<open>
  A table of \<open>R\<close> rows and \<open>C\<close> columns whose places are partitioned into rectangles: \<open>own i j\<close> is the
  upper left place of the rectangle of \<open>(i, j)\<close>, \<open>w\<close> and \<open>h\<close> its width and height there.
\<close>

definition tiling :: "nat \<Rightarrow> nat \<Rightarrow> (nat \<Rightarrow> nat \<Rightarrow> nat \<times> nat) \<Rightarrow> (nat \<Rightarrow> nat \<Rightarrow> nat) \<Rightarrow> (nat \<Rightarrow> nat \<Rightarrow> nat) \<Rightarrow> bool" where
  "tiling R C own w h \<longleftrightarrow>
     (\<forall>i < R. \<forall>j < C. case own i j of (a, b) \<Rightarrow>
        a \<le> i \<and> i < a + h a b \<and> a + h a b \<le> R \<and> b \<le> j \<and> j < b + w a b \<and> b + w a b \<le> C \<and>
        (\<forall>x \<in> {a..<a + h a b}. \<forall>y \<in> {b..<b + w a b}. own x y = (a, b)))"

definition place_token :: "(nat \<Rightarrow> nat \<Rightarrow> nat \<times> nat) \<Rightarrow> (nat \<Rightarrow> nat \<Rightarrow> ustr) \<Rightarrow> nat \<Rightarrow> nat \<Rightarrow> token" where
  "place_token own tx i j =
     (if own i j = (i, j) then (lit ''fcel'', tx i j)
      else if fst (own i j) = i then (lit ''lcel'', [])
      else if snd (own i j) = j then (lit ''ucel'', [])
      else (lit ''xcel'', []))"

definition row_tokens :: "(nat \<Rightarrow> nat \<Rightarrow> nat \<times> nat) \<Rightarrow> (nat \<Rightarrow> nat \<Rightarrow> ustr) \<Rightarrow> nat \<Rightarrow> nat \<Rightarrow> token list" where
  "row_tokens own tx C i = map (place_token own tx i) [0..<C] @ [(lit ''nl'', [])]"

definition otsl_encode :: "nat \<Rightarrow> nat \<Rightarrow> (nat \<Rightarrow> nat \<Rightarrow> nat \<times> nat) \<Rightarrow> (nat \<Rightarrow> nat \<Rightarrow> ustr) \<Rightarrow> token list" where
  "otsl_encode R C own tx = concat (map (row_tokens own tx C) [0..<R])"

text \<open>The cell \<open>(x, y)\<close> when the rows before \<open>i\<close> and the first \<open>j\<close> places of row \<open>i\<close> are read.\<close>

definition cell_seen :: "(nat \<Rightarrow> nat \<Rightarrow> nat \<times> nat) \<Rightarrow> (nat \<Rightarrow> nat \<Rightarrow> nat) \<Rightarrow> (nat \<Rightarrow> nat \<Rightarrow> nat) \<Rightarrow> (nat \<Rightarrow> nat \<Rightarrow> ustr) \<Rightarrow>
    nat \<Rightarrow> nat \<Rightarrow> nat \<Rightarrow> nat \<Rightarrow> Cell" where
  "cell_seen own w h tx i j x y =
     (if own x y = (x, y)
      then \<lparr>cell_text = tx x y, colspan = (if x < i then w x y else min (w x y) (j - y)),
             rowspan = min (h x y) (i - x + (if y < j then 1 else 0)), hidden = False, anchor = None\<rparr>
      else cell_hidden (Some (own x y)))"

definition partial :: "(nat \<Rightarrow> nat \<Rightarrow> nat \<times> nat) \<Rightarrow> (nat \<Rightarrow> nat \<Rightarrow> nat) \<Rightarrow> (nat \<Rightarrow> nat \<Rightarrow> nat) \<Rightarrow> (nat \<Rightarrow> nat \<Rightarrow> ustr) \<Rightarrow>
    nat \<Rightarrow> nat \<Rightarrow> nat \<Rightarrow> rows" where
  "partial own w h tx C i j =
     map (\<lambda>x. map (cell_seen own w h tx i j x) [0..<C]) [0..<i] @ [map (cell_seen own w h tx i j i) [0..<j]]"

lemma partial_shape [simp]:
  "length (partial own w h tx C i j) = Suc i" "partial own w h tx C i j \<noteq> []"
  "last (partial own w h tx C i j) = map (cell_seen own w h tx i j i) [0..<j]"
  "partial own w h tx C i j ! i = map (cell_seen own w h tx i j i) [0..<j]"
  "x < i \<Longrightarrow> partial own w h tx C i j ! x = map (cell_seen own w h tx i j x) [0..<C]"
  by (simp_all add: partial_def nth_append)

lemma partial_eqI:
  assumes "length rs = Suc i" "\<And>x. x < i \<Longrightarrow> length (rs ! x) = C" "length (rs ! i) = j"
    "\<And>x y. x < i \<Longrightarrow> y < C \<Longrightarrow> rs ! x ! y = cell_seen own w h tx i j x y"
    "\<And>y. y < j \<Longrightarrow> rs ! i ! y = cell_seen own w h tx i j i y"
  shows "rs = partial own w h tx C i j"
proof (rule nth_equalityI)
  fix x assume "x < length rs"
  then consider "x < i" | "x = i" using assms(1) by linarith
  then show "rs ! x = partial own w h tx C i j ! x"
    using assms(2-) by cases (auto intro!: nth_equalityI)
qed (simp add: assms(1))

lemma cell_owner:
  "(if hidden (cell_seen own w h tx i j x y) then anchor (cell_seen own w h tx i j x y) else Some (x, y)) = Some (own x y)"
  by (cases "own x y = (x, y)") (simp_all add: cell_seen_def cell_hidden_def)

lemma owner_at_partial:
  assumes "x < i \<and> y < C \<or> x = i \<and> y < j"
  shows "owner_at (partial own w h tx C i j) x y = Some (own x y)"
  using assms cell_owner [of own w h tx i j x y] by (auto simp: owner_at_def Let_def simp del: not_None_eq)

lemma left_owner_partial: "left_owner (partial own w h tx C i j) = (if j = 0 then None else Some (own i (j - 1)))"
  by (simp add: left_owner_def owner_at_partial)

lemma up_owner_partial: "j < C \<Longrightarrow> up_owner (partial own w h tx C i j) = (if i = 0 then None else Some (own (i - 1) j))"
  by (simp add: up_owner_def owner_at_partial)

lemma tilingD:
  assumes "tiling R C own w h" "i < R" "j < C" "own i j = (a, b)"
  shows "a \<le> i" "i < a + h a b" "b \<le> j" "j < b + w a b" "b + w a b \<le> C" "a + h a b \<le> R"
    "a \<le> x \<Longrightarrow> x < a + h a b \<Longrightarrow> b \<le> y \<Longrightarrow> y < b + w a b \<Longrightarrow> own x y = (a, b)"
  using assms by (force simp: tiling_def)+

text \<open>Reading one more place changes the spans of the cell that owns it, and no other cell.\<close>

lemma cell_seen_above:
  assumes t: "tiling R C own w h" "i < R" "j < C" "x < i" "y < C"
  shows "cell_seen own w h tx i (Suc j) x y =
    (if own i j = (x, y) \<and> y = j then (cell_seen own w h tx i j x y)\<lparr>rowspan := rowspan (cell_seen own w h tx i j x y) + 1\<rparr>
     else cell_seen own w h tx i j x y)"
proof (cases "own x y = (x, y)")
  case True
  note d = tilingD [OF t(1) _ t(5) True]
  have xR: "x < R" using t by simp
  show ?thesis
  proof (cases "y = j")
    case True
    have "own i j = (x, y) \<longleftrightarrow> i < x + h x y"
      using d(4) d(7) [OF xR, of i j] t True tilingD(2) [OF t(1-3), of x y] xR by auto
    then show ?thesis using \<open>own x y = (x, y)\<close> True t(4) by (auto simp: cell_seen_def)
  qed (use True t in \<open>auto simp: cell_seen_def\<close>)
next
  case False
  have "own i j \<noteq> (x, y)"
  proof
    assume o: "own i j = (x, y)"
    note d = tilingD [OF t(1-3) o]
    have "own x y = (x, y)" using d(1-4) by (intro d(7)) auto
    then show False using False by simp
  qed
  then show ?thesis using False by (simp add: cell_seen_def)
qed

lemma cell_seen_left:
  assumes t: "tiling R C own w h" "i < R" "j < C" "y < j"
  shows "cell_seen own w h tx i (Suc j) i y =
    (if own i j = (i, y) then (cell_seen own w h tx i j i y)\<lparr>colspan := colspan (cell_seen own w h tx i j i y) + 1\<rparr>
     else cell_seen own w h tx i j i y)"
proof (cases "own i y = (i, y)")
  case True
  have yC: "y < C" using t by simp
  note d = tilingD [OF t(1,2) yC True]
  have "own i j = (i, y) \<longleftrightarrow> j < y + w i y"
    using d(2) d(7) [of i j] t tilingD(4) [OF t(1-3), of i y] by auto
  then show ?thesis using True t(4) by (auto simp: cell_seen_def min_def)
next
  case False
  have "own i j \<noteq> (i, y)"
  proof
    assume o: "own i j = (i, y)"
    note d = tilingD [OF t(1-3) o]
    have "own i y = (i, y)" using d(1-4) by (intro d(7)) auto
    then show False using False by simp
  qed
  then show ?thesis using False by (simp add: cell_seen_def)
qed

lemma cell_seen_fresh:
  assumes t: "tiling R C own w h" "i < R" "j < C"
  shows "cell_seen own w h tx i (Suc j) i j =
    (if own i j = (i, j) then (cell_new [])\<lparr>cell_text := tx i j\<rparr> else cell_hidden (Some (own i j)))"
  using tilingD(2,4) [OF t, of i j] by (auto simp: cell_seen_def cell_new_def)


lemma push_partial:
  assumes "length rs = Suc i" "\<And>x. x < i \<Longrightarrow> length (rs ! x) = C" "length (rs ! i) = j"
    "\<And>x y. x < i \<Longrightarrow> y < C \<Longrightarrow> rs ! x ! y = cell_seen own w h tx i (Suc j) x y"
    "\<And>y. y < j \<Longrightarrow> rs ! i ! y = cell_seen own w h tx i (Suc j) i y"
    "c = cell_seen own w h tx i (Suc j) i j"
  shows "push_cell c rs = Some (partial own w h tx C i (Suc j))"
proof -
  have ne: "rs \<noteq> []" using assms(1) by auto
  then have ne: "rs \<noteq> []" "last rs = rs ! i" using assms(1) by (simp_all add: last_conv_nth)
  have "butlast rs @ [last rs @ [c]] = partial own w h tx C i (Suc j)"
    using assms ne by (intro partial_eqI) (auto simp: nth_append nth_butlast less_Suc_eq)
  then show ?thesis using ne by (simp add: push_cell_def)
qed

lemma upd_partial:
  assumes "upd_cell f (a, b) (partial own w h tx C i j) = Some rs"
  shows "length rs = Suc i" "x < i \<Longrightarrow> length (rs ! x) = C" "length (rs ! i) = j"
    "x < i \<and> y < C \<or> x = i \<and> y < j \<Longrightarrow>
       rs ! x ! y = (if x = a \<and> y = b then f (cell_seen own w h tx i j x y) else cell_seen own w h tx i j x y)"
proof -
  let ?p = "partial own w h tx C i j"
  have rs: "rs = ?p[a := (?p ! a)[b := f (?p ! a ! b)]]" "a < Suc i" using assms by (auto simp: upd_cell_def split: if_splits)
  show "length rs = Suc i" using rs by simp
  show "x < i \<Longrightarrow> length (rs ! x) = C" using rs by (cases "x = a") auto
  show "length (rs ! i) = j" using rs by (cases "i = a") auto
  show "rs ! x ! y = (if x = a \<and> y = b then f (cell_seen own w h tx i j x y) else cell_seen own w h tx i j x y)"
    if "x < i \<and> y < C \<or> x = i \<and> y < j"
    using rs that by (cases "x = a") (auto simp: nth_list_update)
qed

lemma upd_partial_defined:
  assumes "x < i \<and> y < C \<or> x = i \<and> y < j"
  shows "\<exists>rs. upd_cell f (x, y) (partial own w h tx C i j) = Some rs"
  using assms by (auto simp: upd_cell_def)

lemma read_hidden:
  assumes t: "tiling R C own w h" "i < R" "j < C" and o: "own i j = (a, b)" "(a, b) \<noteq> (i, j)"
  shows "otsl_token (fst (place_token own tx i j)) (partial own w h tx C i j) = Some (partial own w h tx C i (Suc j), None)"
proof -
  let ?p = "partial own w h tx C i j" let ?c = "cell_hidden (Some (a, b))"
  note d = tilingD [OF t o(1)]
  have fresh: "?c = cell_seen own w h tx i (Suc j) i j" using cell_seen_fresh [OF t, of tx] o by auto
  note above = cell_seen_above [OF t] and left = cell_seen_left [OF t]
  consider (l) "a = i" "b < j" | (u) "a < i" "b = j" | (x) "a < i" "b < j" using d(1,3) o(2) by fastforce
  then show ?thesis
  proof cases
    case l
    have own': "own i (j - 1) = (a, b)" using d(2,4) l by (intro d(7)) auto
    obtain rs where u: "extend_colspan (a, b) ?p = Some rs" using upd_partial_defined [of a i b C j] l unfolding extend_colspan_def by blast
    note v = upd_partial [OF u [unfolded extend_colspan_def]]
    have "push_cell ?c rs = Some (partial own w h tx C i (Suc j))"
    proof (rule push_partial)
      show "rs ! x ! y = cell_seen own w h tx i (Suc j) x y" if "x < i" "y < C" for x y
        using v(4) [of x y] above [of x y tx] that o l by simp
      show "rs ! i ! y = cell_seen own w h tx i (Suc j) i y" if "y < j" for y
        using v(4) [of i y] left [of y tx] that o l by simp
    qed (use v(1-3) fresh in simp_all)
    then show ?thesis using u own' l o left_owner_partial [of own w h tx C i j]
      by (simp add: otsl_token_def place_token_def extend_left_def Let_def)
  next
    case u
    have own': "own (i - 1) j = (a, b)" using d(2,4) u by (intro d(7)) auto
    obtain rs where r: "extend_rowspan (a, b) ?p = Some rs" using upd_partial_defined [of a i b C j] u t(3) unfolding extend_rowspan_def by blast
    note v = upd_partial [OF r [unfolded extend_rowspan_def]]
    have "push_cell ?c rs = Some (partial own w h tx C i (Suc j))"
    proof (rule push_partial)
      show "rs ! x ! y = cell_seen own w h tx i (Suc j) x y" if "x < i" "y < C" for x y
      proof -
        have "own i j = (x, y) \<and> y = j \<longleftrightarrow> x = a \<and> y = b" using o(1) u(2) by auto
        then show ?thesis using v(4) [of x y] above [of x y tx] that by (cases "x = a \<and> y = b") simp_all
      qed
      show "rs ! i ! y = cell_seen own w h tx i (Suc j) i y" if "y < j" for y
        using v(4) [of i y] left [of y tx] that o u by simp
    qed (use v(1-3) fresh in simp_all)
    then show ?thesis using r own' u o up_owner_partial [OF t(3), of own w h tx i]
      by (simp add: otsl_token_def place_token_def extend_up_def Let_def)
  next
    case x
    have own': "own i (j - 1) = (a, b)" "own (i - 1) j = (a, b)" using d(2,4) x by (auto intro!: d(7))
    have "push_cell ?c ?p = Some (partial own w h tx C i (Suc j))"
      using fresh above left o x by (intro push_partial) auto
    then show ?thesis using own' x o left_owner_partial [of own w h tx C i j] up_owner_partial [OF t(3), of own w h tx i]
      by (simp add: otsl_token_def place_token_def extend_both_def)
  qed
qed

lemma read_place:
  assumes t: "tiling R C own w h" "i < R" "j < C"
  shows "build [place_token own tx i j] (partial own w h tx C i j) = Some (partial own w h tx C i (Suc j))"
proof (cases "own i j = (i, j)")
  case False
  obtain a b where o: "own i j = (a, b)" by force
  have "snd (place_token own tx i j) = []" using False by (simp add: place_token_def)
  then show ?thesis using read_hidden [OF t o, of tx] o False
    by (cases "place_token own tx i j") (simp add: add_before_def)
next
  case True
  let ?p = "partial own w h tx C i j"
  obtain rs where p: "push_cell (cell_new []) ?p = Some rs" by (simp add: push_cell_def)
  have rs: "rs = butlast ?p @ [map (cell_seen own w h tx i j i) [0..<j] @ [cell_new []]]" using p by (simp add: push_cell_def)
  have len: "length (butlast ?p) = i" by simp
  have "rs[i := (rs ! i)[j := (rs ! i ! j)\<lparr>cell_text := tx i j\<rparr>]] = butlast ?p @ [map (cell_seen own w h tx i j i) [0..<j] @ [(cell_new [])\<lparr>cell_text := tx i j\<rparr>]]"
    using len by (simp add: rs nth_append list_update_append)
  also have "\<dots> = partial own w h tx C i (Suc j)"
    using cell_seen_above [OF t] cell_seen_left [OF t] cell_seen_fresh [OF t] True
    by (intro partial_eqI) (auto simp: nth_append nth_butlast less_Suc_eq)
  finally have "add_before (tx i j) (Some (i, j)) rs = Some (partial own w h tx C i (Suc j))"
    using len by (simp add: add_before_def upd_cell_def rs nth_append cell_new_def)
  then show ?thesis using True p by (simp add: place_token_def otsl_token_def)
qed

lemma build_row:
  assumes t: "tiling R C own w h" "i < R" and "j \<le> C"
  shows "build (map (place_token own tx i) [0..<j]) (partial own w h tx C i 0) = Some (partial own w h tx C i j)"
  using assms(3)
proof (induction j)
  case (Suc j)
  then show ?case using read_place [OF t, of j tx] by (simp add: build_append)
qed simp

lemma row_end:
  assumes t: "tiling R C own w h" "i < R"
  shows "partial own w h tx C i C @ [[]] = partial own w h tx C (Suc i) 0"
proof -
  have "cell_seen own w h tx i C x y = cell_seen own w h tx (Suc i) 0 x y" if "x \<le> i" "y < C" for x y
    using tilingD(5) [OF t(1) _ that(2), of x x y] t(2) that by (auto simp: cell_seen_def min_def Suc_diff_le)
  then show ?thesis by (intro partial_eqI) (auto simp: nth_append less_Suc_eq)
qed

lemma build_table:
  assumes "tiling R C own w h" "i \<le> R"
  shows "build (concat (map (row_tokens own tx C) [0..<i])) [[]] = Some (partial own w h tx C i 0)"
  using assms(2)
proof (induction i)
  case 0
  then show ?case by (simp add: partial_def)
next
  case (Suc i)
  then show ?case using build_row [OF assms(1), of i C tx] row_end [OF assms(1), of i tx]
    by (simp add: build_append row_tokens_def otsl_token_def add_before_def)
qed

section \<open>The HTML of a table\<close>

definition esc :: "uchar \<Rightarrow> ustr" where
  "esc c = (if c = 38 then lit ''&amp;'' else if c = 34 then lit ''&quot;'' else if c = 60 then lit ''&lt;'' else [c])"

lemma replace_char: "replace_str [x] r v = concat (map (\<lambda>c. if c = x then r else [c]) v)"
proof -
  have "replace_ne [x] r v = concat (map (\<lambda>c. if c = x then r else [c]) v)" by (induction v) auto
  then show ?thesis by (simp add: replace_str_def)
qed

text \<open>The three replacements of \<open>escape_attr\<close> are one pass over the characters.\<close>

lemma escape_attr_map: "escape_attr v = concat (map esc v)"
  by (induction v) (auto simp: escape_attr_def replace_char esc_def)

lemma contains_infix: "contains m (a @ m @ b)"
proof (induction a)
  case Nil
  have "prefix m (m @ b)" by simp
  then show ?case by (cases "m @ b") (auto simp: contains_def simp del: same_prefix_nil prefix_append)
next
  case (Cons c a)
  then show ?case by (auto simp: contains_def)
qed

definition td_html :: "(nat \<Rightarrow> nat \<Rightarrow> nat \<times> nat) \<Rightarrow> (nat \<Rightarrow> nat \<Rightarrow> nat) \<Rightarrow> (nat \<Rightarrow> nat \<Rightarrow> nat) \<Rightarrow> (nat \<Rightarrow> nat \<Rightarrow> ustr) \<Rightarrow> nat \<Rightarrow> nat \<Rightarrow> ustr" where
  "td_html own w h tx i j =
     (if own i j = (i, j)
      then lit ''<td'' @ span_attr ''colspan'' (w i j) @ span_attr ''rowspan'' (h i j) @ [62] @ concat (map esc (tx i j)) @ lit ''</td>''
      else [])"

definition table_html :: "nat \<Rightarrow> nat \<Rightarrow> (nat \<Rightarrow> nat \<Rightarrow> nat \<times> nat) \<Rightarrow> (nat \<Rightarrow> nat \<Rightarrow> nat) \<Rightarrow> (nat \<Rightarrow> nat \<Rightarrow> nat) \<Rightarrow> (nat \<Rightarrow> nat \<Rightarrow> ustr) \<Rightarrow> ustr" where
  "table_html R C own w h tx =
     lit ''<table>'' @
     concat (map (\<lambda>i. lit ''<tr>'' @ concat (map (td_html own w h tx i) [0..<C]) @ lit ''</tr>'') [0..<R]) @
     lit ''</table>''"

lemma cell_html_final:
  assumes "tiling R C own w h" "otsl_engine eng" "i < R" "j < C" "60 \<notin> set (tx i j)"
  shows "cell_html eng (cell_seen own w h tx R 0 i j) = td_html own w h tx i j"
proof (cases "own i j = (i, j)")
  case True
  have "min (h i j) (R - i) = h i j" using tilingD(6) [OF assms(1,3,4) True] by simp
  moreover have "escape_cell eng (tx i j) = concat (map esc (tx i j))"
    using assms(2,5) by (simp add: escape_cell_def find_iter_def otsl_engine_def escape_attr_map)
  ultimately show ?thesis using True assms(3) by (simp add: cell_html_def cell_seen_def td_html_def)
qed (simp add: cell_html_def cell_seen_def cell_hidden_def td_html_def)

lemma encode_clean:
  assumes "\<And>i j. i < R \<Longrightarrow> j < C \<Longrightarrow> 60 \<notin> set (tx i j) \<and> trim (tx i j) = tx i j"
  shows "list_all clean_token (otsl_encode R C own tx)"
  using assms
  by (auto simp: otsl_encode_def row_tokens_def place_token_def clean_token_def OTSL_NAMES_def list_all_iff trim_def trim_matches_def)

lemma stream_append: "stream (a @ b) = stream a @ stream b"
  by (simp add: stream_def)

text \<open>
  C5: the HTML of an OTSL table is the table. For every table whose places are partitioned into rectangles, reading
  its OTSL text yields one \<open>td\<close> element per rectangle, in the row and order of its upper left place, with exactly
  its width and height as spans and its escaped text, and nothing for the places it covers.
\<close>

theorem otsl_html_table:
  assumes "otsl_engine eng" "tiling R C own w h" "0 < R" "0 < C"
    and "\<forall>i < R. \<forall>j < C. 60 \<notin> set (tx i j) \<and> trim (tx i j) = tx i j"
  shows "otsl_html eng (stream (otsl_encode R C own tx)) = Some (table_html R C own w h tx)"
proof -
  let ?v = "stream (otsl_encode R C own tx)"
  have "build (otsl_encode R C own tx) [[]] = Some (partial own w h tx C R 0)"
    unfolding otsl_encode_def by (rule build_table [OF assms(2)]) simp
  then have "otsl_rows eng ?v = Some (filter (\<lambda>row. row \<noteq> []) (partial own w h tx C R 0))"
    using otsl_rows_stream [OF assms(1) encode_clean] assms(5) by simp
  also have "filter (\<lambda>row. row \<noteq> []) (partial own w h tx C R 0) = map (\<lambda>i. map (cell_seen own w h tx R 0 i) [0..<C]) [0..<R]"
    using assms(4) by (auto simp: partial_def intro!: filter_True)
  finally have rows: "otsl_rows eng ?v = Some (map (\<lambda>i. map (cell_seen own w h tx R 0 i) [0..<C]) [0..<R])" .
  obtain a b where "otsl_encode R C own tx = a @ (lit ''nl'', []) # b"
  proof -
    obtain n where "R = Suc n" using assms(3) gr0_conv_Suc by blast
    then have "otsl_encode R C own tx =
        (concat (map (row_tokens own tx C) [0..<n]) @ map (place_token own tx n) [0..<C]) @ (lit ''nl'', []) # []"
      by (simp add: otsl_encode_def row_tokens_def)
    then show ?thesis by (rule that)
  qed
  then have "contains (lit ''<nl>'') ?v" using contains_infix [of "lit ''<nl>''" "stream a" "stream b"] by (simp add: stream_append)
  moreover have "map (cell_html eng) (map (cell_seen own w h tx R 0 i) [0..<C]) = map (td_html own w h tx i) [0..<C]" if "i < R" for i
    using cell_html_final [OF assms(2,1) that] assms(5) that unfolding map_map by (intro map_cong) auto
  then have "map (\<lambda>row. lit ''<tr>'' @ concat (map (cell_html eng) row) @ lit ''</tr>'') (map (\<lambda>i. map (cell_seen own w h tx R 0 i) [0..<C]) [0..<R]) =
      map (\<lambda>i. lit ''<tr>'' @ concat (map (td_html own w h tx i) [0..<C]) @ lit ''</tr>'') [0..<R]"
    unfolding map_map [of _ "\<lambda>i. map (cell_seen own w h tx R 0 i) [0..<C]"] by (intro map_cong) (auto simp del: map_map)
  ultimately show ?thesis using rows assms(3)
    by (simp add: otsl_html_def OTSL_TOKENS_def table_html_def del: map_map)
qed

text \<open>A cell of two rows and two columns beside a column of two cells.\<close>

definition sample_own :: "nat \<Rightarrow> nat \<Rightarrow> nat \<times> nat" where
  "sample_own i j = (if j < 2 then (0, 0) else (i, j))"

definition sample_engine :: engine where
  "sample_engine p v = (if p = OtslToken then token_matches 0 v else [])"

theorem otsl_html_table_witness:
  "otsl_html sample_engine (lit ''<fcel>A<lcel><fcel>B<nl><ucel><xcel><fcel>B<nl>'') =
     Some (lit ''<table><tr><td colspan='' @ [34, 50, 34] @ lit '' rowspan='' @ [34, 50, 34] @ lit ''>A</td><td>B</td></tr><tr><td>B</td></tr></table>'')"
proof -
  let ?w = "\<lambda>i j. if j < 2 then 2 else 1 :: nat" let ?t = "\<lambda>i j. if j < 2 then [65] else [66] :: ustr"
  have t: "tiling 2 3 sample_own ?w ?w" by (auto simp: tiling_def sample_own_def)
  have u: "[0..<3] = [0, 1, 2 :: nat]" "[0..<2] = [0, 1 :: nat]" by (simp_all add: numeral_eq_Suc)
  have tr: "\<forall>i < 2. \<forall>j < 3. 60 \<notin> set (?t i j) \<and> trim (?t i j) = ?t i j"
    by (simp add: trim_def trim_matches_def is_whitespace_def)
  have "otsl_engine sample_engine" by (simp add: otsl_engine_def sample_engine_def)
  from otsl_html_table [OF this t _ _ tr]
  show ?thesis
    by (simp add: otsl_encode_def row_tokens_def place_token_def u sample_own_def table_html_def td_html_def span_attr_def esc_def show_nat.simps)
qed

theorem otsl_html_total_witness:
  "otsl_html sample_engine (lit ''<ucel><lcel>'') \<noteq> None"
  by (rule otsl_html_total) (simp add: otsl_engine_def sample_engine_def)

end
