(* ===== verification/Html_Entities.thy ===== *)
theory Html_Entities
  imports Otsl
begin

text \<open>
  Character references of HTML (\<open>html_unescape\<close> in \<open>official_builders.rs\<close>). The code scans bytes and
  slices at byte positions: a slice inside a character panics, which is the value \<open>None\<close>. The table
  of the crate \<open>html_escape\<close> is a parameter \<open>entities\<close>.
\<close>

section \<open>Slices at byte positions\<close>

text \<open>\<open>split_at\<close> at a byte position: \<open>None\<close> outside the text and inside a character.\<close>

fun split_bytes :: "nat \<Rightarrow> ustr \<Rightarrow> (ustr \<times> ustr) option" where
  "split_bytes 0 s = Some ([], s)"
| "split_bytes (Suc n) [] = None"
| "split_bytes (Suc n) (c # s) =
     (if Suc n < len_utf8 c then None
      else map_option (\<lambda>(a, b). (c # a, b)) (split_bytes (Suc n - len_utf8 c) s))"

section \<open>The tables\<close>

definition COMBINED :: "(string \<times> ustr) list" where
  "COMBINED = [
     (''acE'', [0x223E, 0x333]), (''bne'', [0x3D, 0x20E5]), (''bnequiv'', [0x2261, 0x20E5]),
     (''caps'', [0x2229, 0xFE00]), (''cups'', [0x222A, 0xFE00]), (''fjlig'', [0x66, 0x6A]),
     (''gesl'', [0x22DB, 0xFE00]), (''gvertneqq'', [0x2269, 0xFE00]), (''gvnE'', [0x2269, 0xFE00]),
     (''lates'', [0x2AAD, 0xFE00]), (''lesg'', [0x22DA, 0xFE00]), (''lvertneqq'', [0x2268, 0xFE00]),
     (''lvnE'', [0x2268, 0xFE00]), (''nang'', [0x2220, 0x20D2]), (''napE'', [0x2A70, 0x338]),
     (''napid'', [0x224B, 0x338]), (''nbump'', [0x224E, 0x338]), (''NotHumpDownHump'', [0x224E, 0x338]),
     (''nbumpe'', [0x224F, 0x338]), (''NotHumpEqual'', [0x224F, 0x338]), (''ncongdot'', [0x2A6D, 0x338]),
     (''nedot'', [0x2250, 0x338]), (''nesim'', [0x2242, 0x338]), (''NotEqualTilde'', [0x2242, 0x338]),
     (''ngE'', [0x2267, 0x338]), (''ngeqq'', [0x2267, 0x338]), (''NotGreaterFullEqual'', [0x2267, 0x338]),
     (''ngeqslant'', [0x2A7E, 0x338]), (''nges'', [0x2A7E, 0x338]), (''NotGreaterSlantEqual'', [0x2A7E, 0x338]),
     (''nGg'', [0x22D9, 0x338]), (''nGt'', [0x226B, 0x20D2]), (''nGtv'', [0x226B, 0x338]),
     (''NotGreaterGreater'', [0x226B, 0x338]), (''nlE'', [0x2266, 0x338]), (''nleqq'', [0x2266, 0x338]),
     (''nleqslant'', [0x2A7D, 0x338]), (''nles'', [0x2A7D, 0x338]), (''NotLessSlantEqual'', [0x2A7D, 0x338]),
     (''nLl'', [0x22D8, 0x338]), (''nLt'', [0x226A, 0x20D2]), (''nLtv'', [0x226A, 0x338]),
     (''NotLessLess'', [0x226A, 0x338]), (''notindot'', [0x22F5, 0x338]), (''notinE'', [0x22F9, 0x338]),
     (''NotLeftTriangleBar'', [0x29CF, 0x338]), (''NotNestedGreaterGreater'', [0x2AA2, 0x338]),
     (''NotNestedLessLess'', [0x2AA1, 0x338]), (''NotPrecedesEqual'', [0x2AAF, 0x338]), (''npre'', [0x2AAF, 0x338]),
     (''npreceq'', [0x2AAF, 0x338]), (''NotRightTriangleBar'', [0x29D0, 0x338]),
     (''NotSquareSubset'', [0x228F, 0x338]), (''NotSquareSuperset'', [0x2290, 0x338]),
     (''NotSubset'', [0x2282, 0x20D2]), (''nsubset'', [0x2282, 0x20D2]), (''vnsub'', [0x2282, 0x20D2]),
     (''NotSucceedsEqual'', [0x2AB0, 0x338]), (''nsce'', [0x2AB0, 0x338]), (''nsucceq'', [0x2AB0, 0x338]),
     (''NotSucceedsTilde'', [0x227F, 0x338]), (''NotSuperset'', [0x2283, 0x20D2]), (''nsupset'', [0x2283, 0x20D2]),
     (''vnsup'', [0x2283, 0x20D2]), (''nparsl'', [0x2AFD, 0x20E5]), (''npart'', [0x2202, 0x338]),
     (''nrarrc'', [0x2933, 0x338]), (''nrarrw'', [0x219D, 0x338]), (''nsubE'', [0x2AC5, 0x338]),
     (''nsubseteqq'', [0x2AC5, 0x338]), (''nsupE'', [0x2AC6, 0x338]), (''nsupseteqq'', [0x2AC6, 0x338]),
     (''nvap'', [0x224D, 0x20D2]), (''nvge'', [0x2265, 0x20D2]), (''nvgt'', [0x3E, 0x20D2]),
     (''nvle'', [0x2264, 0x20D2]), (''nvlt'', [0x3C, 0x20D2]), (''nvltrie'', [0x22B4, 0x20D2]),
     (''nvrtrie'', [0x22B5, 0x20D2]), (''nvsim'', [0x223C, 0x20D2]), (''race'', [0x223D, 0x331]),
     (''smtes'', [0x2AAC, 0xFE00]), (''sqcaps'', [0x2293, 0xFE00]), (''sqcups'', [0x2294, 0xFE00]),
     (''ThickSpace'', [0x205F, 0x200A]), (''varsubsetneq'', [0x228A, 0xFE00]), (''vsubne'', [0x228A, 0xFE00]),
     (''varsubsetneqq'', [0x2ACB, 0xFE00]), (''vsubnE'', [0x2ACB, 0xFE00]), (''varsupsetneq'', [0x228B, 0xFE00]),
     (''vsupne'', [0x228B, 0xFE00]), (''varsupsetneqq'', [0x2ACC, 0xFE00]), (''vsupnE'', [0x2ACC, 0xFE00])
   ]"

definition LEGACY :: "string list" where
  "LEGACY = [
     ''AElig'', ''AMP'', ''Aacute'', ''Acirc'', ''Agrave'', ''Aring'', ''Atilde'', ''Auml'', ''COPY'', ''Ccedil'',
     ''ETH'', ''Eacute'', ''Ecirc'', ''Egrave'', ''Euml'', ''GT'', ''Iacute'', ''Icirc'', ''Igrave'', ''Iuml'',
     ''LT'', ''Ntilde'', ''Oacute'', ''Ocirc'', ''Ograve'', ''Oslash'', ''Otilde'', ''Ouml'', ''QUOT'', ''REG'',
     ''THORN'', ''Uacute'', ''Ucirc'', ''Ugrave'', ''Uuml'', ''Yacute'', ''aacute'', ''acirc'', ''acute'', ''aelig'',
     ''agrave'', ''amp'', ''aring'', ''atilde'', ''auml'', ''brvbar'', ''ccedil'', ''cedil'', ''cent'', ''copy'',
     ''curren'', ''deg'', ''divide'', ''eacute'', ''ecirc'', ''egrave'', ''eth'', ''euml'', ''frac12'', ''frac14'',
     ''frac34'', ''gt'', ''iacute'', ''icirc'', ''iexcl'', ''igrave'', ''iquest'', ''iuml'', ''laquo'', ''lt'',
     ''macr'', ''micro'', ''middot'', ''nbsp'', ''not'', ''ntilde'', ''oacute'', ''ocirc'', ''ograve'', ''ordf'',
     ''ordm'', ''oslash'', ''otilde'', ''ouml'', ''para'', ''plusmn'', ''pound'', ''quot'', ''raquo'', ''reg'',
     ''sect'', ''shy'', ''sup1'', ''sup2'', ''sup3'', ''szlig'', ''thorn'', ''times'', ''uacute'', ''ucirc'',
     ''ugrave'', ''uml'', ''uuml'', ''yacute'', ''yen'', ''yuml''
   ]"

definition C1 :: "(nat \<times> uchar) list" where
  "C1 = [
     (0x80, 0x20AC), (0x81, 0x81), (0x82, 0x201A), (0x83, 0x192), (0x84, 0x201E), (0x85, 0x2026), (0x86, 0x2020),
     (0x87, 0x2021), (0x88, 0x2C6), (0x89, 0x2030), (0x8A, 0x160), (0x8B, 0x2039), (0x8C, 0x152), (0x8D, 0x8D),
     (0x8E, 0x17D), (0x8F, 0x8F), (0x90, 0x90), (0x91, 0x2018), (0x92, 0x2019), (0x93, 0x201C), (0x94, 0x201D),
     (0x95, 0x2022), (0x96, 0x2013), (0x97, 0x2014), (0x98, 0x2DC), (0x99, 0x2122), (0x9A, 0x161), (0x9B, 0x203A),
     (0x9C, 0x153), (0x9D, 0x9D), (0x9E, 0x17E), (0x9F, 0x178)
   ]"

definition named_entity :: "(ustr \<Rightarrow> ustr option) \<Rightarrow> ustr \<Rightarrow> ustr option" where
  "named_entity entities name =
     (case map_of (map (\<lambda>(n, v). (lit n, v)) COMBINED) name of Some v \<Rightarrow> Some v | None \<Rightarrow> entities name)"

definition legacy_entity :: "ustr \<Rightarrow> bool" where
  "legacy_entity name \<longleftrightarrow> name \<in> set (map lit LEGACY)"

definition python_numeric_reference :: "nat \<Rightarrow> ustr" where
  "python_numeric_reference number =
     (case map_of C1 number of
        Some c \<Rightarrow> [c]
      | None \<Rightarrow>
          if number = 0 \<or> (0xD800 \<le> number \<and> number \<le> 0xDFFF) \<or> 0x10FFFF < number then [0xFFFD]
          else if 1 \<le> number \<and> number \<le> 8 \<or> number = 11 \<or> 14 \<le> number \<and> number \<le> 31 \<or> 127 \<le> number \<and> number \<le> 159 \<or>
                  0xFDD0 \<le> number \<and> number \<le> 0xFDEF \<or> number mod 0x10000 = 0xFFFE \<or> number mod 0x10000 = 0xFFFF
          then []
          else [number])"

section \<open>References\<close>

definition is_hexdigit :: "uchar \<Rightarrow> bool" where
  "is_hexdigit c \<longleftrightarrow> is_ascii_digit c \<or> 97 \<le> c \<and> c \<le> 102 \<or> 65 \<le> c \<and> c \<le> 70"

definition digit_value :: "uchar \<Rightarrow> nat" where
  "digit_value c = (if is_ascii_digit c then c - 48 else if 97 \<le> c then c - 87 else c - 55)"

text \<open>\<open>u32::from_str_radix(...).unwrap_or(u32::MAX)\<close> on digits.\<close>

definition radix_u32 :: "nat \<Rightarrow> ustr \<Rightarrow> nat" where
  "radix_u32 radix ds = min (2 ^ 32 - 1) (foldl (\<lambda>v d. v * radix + digit_value d) 0 ds)"

definition name_stop :: "nat \<Rightarrow> bool" where
  "name_stop b \<longleftrightarrow> b \<in> {9, 10, 12, 32, 60, 38, 35, 59}"

text \<open>The loop over the prefixes of a name, the longest first.\<close>

fun legacy_loop :: "(ustr \<Rightarrow> ustr option) \<Rightarrow> nat \<Rightarrow> ustr \<Rightarrow> ustr option option" where
  "legacy_loop entities 0 name = Some None"
| "legacy_loop entities (Suc k) name =
     (case split_bytes (Suc k) name of
        None \<Rightarrow> None
      | Some (pre, rest) \<Rightarrow>
          (case (if legacy_entity pre then named_entity entities pre else None) of
             Some decoded \<Rightarrow> Some (Some (decoded @ rest))
           | None \<Rightarrow> legacy_loop entities k name))"

text \<open>\<open>html_reference\<close> on a text that begins with an ampersand: what is decoded and the rest of the text.\<close>

definition html_reference :: "(ustr \<Rightarrow> ustr option) \<Rightarrow> ustr \<Rightarrow> (ustr \<times> ustr) option option" where
  "html_reference entities value =
     (if prefix [35] (tl value) then
        (let (radix, ds) = (if prefix [120] (drop 2 value) \<or> prefix [88] (drop 2 value) then (16, drop 3 value) else (10, drop 2 value));
             digit = (if radix = 16 then is_hexdigit else is_ascii_digit);
             digits = takeWhile digit ds;
             rest = dropWhile digit ds
         in if digits = [] then Some None
            else Some (Some (python_numeric_reference (radix_u32 radix digits), (if prefix [59] rest then tl rest else rest))))
      else
        (let n = length (takeWhile (\<lambda>b. \<not> name_stop b) (take 32 (str_bytes (tl value)))) in
         if n = 0 then Some None
         else
           (case split_bytes n (tl value) of
              None \<Rightarrow> None
            | Some (name, rest) \<Rightarrow>
                if prefix [59] rest then Some (map_option (\<lambda>decoded. (decoded, tl rest)) (named_entity entities name))
                else map_option (map_option (\<lambda>decoded. (decoded, rest))) (legacy_loop entities n name))))"

lemma split_bytes_split: "split_bytes n s = Some (a, b) \<Longrightarrow> s = a @ b"
  by (induction n s arbitrary: a b rule: split_bytes.induct) (auto split: if_splits)

lemma html_reference_shorter:
  assumes "html_reference entities (38 # s) = Some (Some (d, r))"
  shows "length r \<le> length s"
proof (cases "prefix [35] s")
  case True
  obtain p k where "r = dropWhile p (drop (Suc k) s) \<or> r = tl (dropWhile p (drop (Suc k) s))"
    using assms True by (auto simp: html_reference_def Let_def eval_nat_numeral split: if_splits)
  moreover have "length (dropWhile p (drop (Suc k) s)) \<le> length s"
    using length_dropWhile_le [of p "drop (Suc k) s"] by simp
  ultimately show ?thesis by auto
next
  case False
  let ?n = "length (takeWhile (\<lambda>b. \<not> name_stop b) (take 32 (str_bytes s)))"
  obtain name rest where "split_bytes ?n s = Some (name, rest)" "r = rest \<or> r = tl rest"
    using assms False by (auto simp: html_reference_def Let_def split: if_splits option.splits)
  then show ?thesis using split_bytes_split [of ?n s name rest] by auto
qed

function html_unescape :: "(ustr \<Rightarrow> ustr option) \<Rightarrow> ustr \<Rightarrow> ustr option" where
  "html_unescape entities [] = Some []"
| "html_unescape entities (c # s) =
     (if c \<noteq> 38 then map_option ((#) c) (html_unescape entities s)
      else case html_reference entities (c # s) of
        None \<Rightarrow> None
      | Some None \<Rightarrow> map_option ((#) c) (html_unescape entities s)
      | Some (Some (decoded, rest)) \<Rightarrow> map_option ((@) decoded) (html_unescape entities rest))"
  by pat_completeness auto
termination
  by (relation "measure (\<lambda>(e, s). length s)") (auto dest: html_reference_shorter)

section \<open>Unescaping what was escaped\<close>

text \<open>What the code relies on of the table of entities.\<close>

definition entities_ok :: "(ustr \<Rightarrow> ustr option) \<Rightarrow> bool" where
  "entities_ok entities \<longleftrightarrow>
     entities (lit ''amp'') = Some [38] \<and> entities (lit ''quot'') = Some [34] \<and> entities (lit ''lt'') = Some [60]"

lemma str_bytes_low: "\<forall>c \<in> set s. c < 128 \<Longrightarrow> str_bytes s = s"
  by (induction s) (auto simp: str_bytes_def enc_char_def)

lemma str_bytes_append: "str_bytes (a @ b) = str_bytes a @ str_bytes b"
  by (simp add: str_bytes_def)

lemma split_bytes_ascii: "\<forall>c \<in> set a. c < 128 \<Longrightarrow> split_bytes (length a) (a @ b) = Some (a, b)"
  by (induction a) (auto simp: len_utf8_def)

text \<open>A reference with a semicolon and a short name of letters.\<close>

lemma html_reference_named:
  assumes "\<forall>c \<in> set name. c < 128 \<and> \<not> name_stop c" "name \<noteq> []" "length name < 32"
  shows "html_reference entities (38 # name @ 59 # r) = Some (map_option (\<lambda>d. (d, r)) (named_entity entities name))"
proof -
  have "take 32 (str_bytes (name @ 59 # r)) = name @ 59 # take (32 - length name - 1) (str_bytes r)"
    using assms(1,3) str_bytes_append [of name "59 # r"] str_bytes_low [of name] str_bytes_append [of "[59]" r]
    by (cases "32 - length name") (auto simp: str_bytes_def enc_char_def)
  moreover have "takeWhile (\<lambda>b. \<not> name_stop b) (name @ 59 # x) = name" for x
    using assms(1) by (simp add: takeWhile_append name_stop_def)
  ultimately have n: "length (takeWhile (\<lambda>b. \<not> name_stop b) (take 32 (str_bytes (name @ 59 # r)))) = length name" by simp
  have h: "\<not> prefix [35] (name @ 59 # r)" using assms(1,2) by (cases name) (auto simp: name_stop_def)
  show ?thesis using n h assms(1,2) split_bytes_ascii [of name "59 # r"] by (simp add: html_reference_def)
qed

lemma esc_unescape:
  assumes "entities_ok entities"
  shows "html_unescape entities (esc c @ r) = map_option ((#) c) (html_unescape entities r)"
proof -
  have n: "named_entity entities (lit ''amp'') = Some [38]" "named_entity entities (lit ''quot'') = Some [34]" "named_entity entities (lit ''lt'') = Some [60]"
    using assms by (simp_all add: named_entity_def COMBINED_def entities_ok_def)
  have x: "html_reference entities (38 # lit ''amp'' @ 59 # r) = Some (Some ([38], r))"
      "html_reference entities (38 # lit ''quot'' @ 59 # r) = Some (Some ([34], r))"
      "html_reference entities (38 # lit ''lt'' @ 59 # r) = Some (Some ([60], r))"
    by (subst html_reference_named; simp add: name_stop_def n [simplified])+
  show ?thesis using x by (auto simp: esc_def map_option_case split: option.splits)
qed

text \<open>
  C35: unescaping undoes escaping. For every text, the characters that \<open>escape_attr\<close> writes into a table cell are
  read back by \<open>html_unescape\<close> as the text itself.
\<close>

theorem html_unescape_escape:
  assumes "entities_ok entities"
  shows "html_unescape entities (escape_attr v) = Some v"
  unfolding escape_attr_map
proof (induction v)
  case (Cons c v)
  then show ?case using esc_unescape [OF assms, of c "concat (map esc v)"] by simp
qed simp

definition sample_entities :: "ustr \<Rightarrow> ustr option" where
  "sample_entities = map_of [(lit ''amp'', [38]), (lit ''quot'', [34]), (lit ''lt'', [60]), (lit ''gt'', [62])]"

theorem html_unescape_escape_witness:
  "html_unescape sample_entities (lit ''&lt;a b=&quot;c&quot;&amp;lt;'') = Some (lit ''<a b='' @ [34] @ lit ''c'' @ [34] @ lit ''&lt;'')"
  using html_unescape_escape [of sample_entities "lit ''<a b='' @ [34] @ lit ''c'' @ [34] @ lit ''&lt;''"]
  by (simp add: entities_ok_def sample_entities_def escape_attr_map esc_def)

section \<open>Where it panics\<close>

lemma unescape_plain: "38 \<notin> set pre \<Longrightarrow> html_unescape entities (pre @ s) = map_option ((@) pre) (html_unescape entities s)"
proof (induction pre)
  case Nil
  then show ?case by (simp add: option.map_ident)
next
  case (Cons c pre)
  then show ?case by (simp add: option.map_comp o_def)
qed

lemma len_utf8_bytes: "length (enc_char c) = len_utf8 c" "1 \<le> len_utf8 c" "len_utf8 c \<le> 4"
  by (auto simp: enc_char_def len_utf8_def)

lemma legacy_ascii: "legacy_entity name \<Longrightarrow> c \<in> set name \<Longrightarrow> c < 128"
  by (auto simp: legacy_entity_def LEGACY_def)

lemma split_bytes_length: "split_bytes n s = Some (a, b) \<Longrightarrow> length (str_bytes a) = n"
proof (induction n s arbitrary: a b rule: split_bytes.induct)
  case (3 n c s)
  then show ?case using len_utf8_bytes [of c] by (auto simp: str_bytes_def split: if_splits)
qed (auto simp: str_bytes_def)

text \<open>A stop is its own byte, so no character of a name that runs to the first stop is one.\<close>

lemma stop_byte: "name_stop c \<Longrightarrow> c \<in> set a \<Longrightarrow> c \<in> set (str_bytes a)"
  by (force simp: str_bytes_def enc_char_def name_stop_def)

lemma name_without_stop:
  assumes "split_bytes (length (takeWhile (\<lambda>b. \<not> name_stop b) (take k (str_bytes s)))) s = Some (a, b)" "c \<in> set a"
  shows "\<not> name_stop c"
proof
  assume "name_stop c"
  let ?t = "takeWhile (\<lambda>b. \<not> name_stop b) (take k (str_bytes s))"
  have "str_bytes s = str_bytes a @ str_bytes b" using split_bytes_split [OF assms(1)] by (simp add: str_bytes_append)
  moreover have "prefix ?t (str_bytes s)" by (meson prefix_order.trans take_is_prefix takeWhile_is_prefix)
  ultimately have "str_bytes a = ?t"
    using split_bytes_length [OF assms(1)] by (metis append_eq_conv_conj prefix_def)
  then show False using stop_byte [OF \<open>name_stop c\<close> assms(2)] by (metis set_takeWhileD \<open>name_stop c\<close>)
qed

text \<open>No legacy name begins with a character of several bytes, so the loop shortens the name to a slice inside it.\<close>

lemma legacy_loop_panics: "0 < n \<Longrightarrow> 128 \<le> x \<Longrightarrow> legacy_loop entities n (x # s) = None"
proof (induction n)
  case (Suc n)
  have "\<not> legacy_entity (x # a)" for a using legacy_ascii [of "x # a" x] Suc.prems by auto
  moreover have "2 \<le> len_utf8 x" using Suc.prems by (simp add: len_utf8_def)
  ultimately show ?case using Suc by (cases n) (auto split: option.splits)
qed simp

text \<open>
  C38: a character outside ASCII behind an ampersand is a panic unless a semicolon ends the name. When the first
  ampersand of a text is followed by a character of more than one byte and the next character that can end a name
  (white space, \<open><\<close>, \<open>&\<close>, \<open>#\<close> or \<open>;\<close>) is missing or is no semicolon, \<open>html_unescape\<close> slices inside a character,
  whatever the table of entities holds.
\<close>

theorem html_unescape_panics:
  assumes "38 \<notin> set pre" "128 \<le> x" "\<not> prefix [59] (dropWhile (\<lambda>c. \<not> name_stop c) s)"
  shows "html_unescape entities (pre @ 38 # x # s) = None"
proof -
  let ?n = "length (takeWhile (\<lambda>b. \<not> name_stop b) (take 32 (str_bytes (x # s))))"
  obtain y ys where y: "enc_char x = y # ys" using len_utf8_bytes [of x] by (cases "enc_char x") auto
  then have "128 \<le> y" using enc_char_high [of x y] assms(2) by simp
  then have n: "0 < ?n" using y by (auto simp: str_bytes_def name_stop_def)
  have "html_reference entities (38 # x # s) = None"
  proof (cases "split_bytes ?n (x # s)")
    case None
    then show ?thesis using n assms(2) by (simp add: html_reference_def)
  next
    case (Some ab)
    then obtain a b where ab: "split_bytes ?n (x # s) = Some (a, b)" by (cases ab) auto
    then have e: "x # s = a @ b" "a \<noteq> []" using split_bytes_split [OF ab] split_bytes_length [OF ab] n by (auto simp: str_bytes_def)
    then obtain a' where a: "a = x # a'" "s = a' @ b" by (cases a) auto
    have "\<not> name_stop c" if "c \<in> set a'" for c using name_without_stop [OF ab, of c] that a by simp
    then have "\<not> prefix [59] b" using assms(3) by (cases b) (auto simp: a(2) name_stop_def)
    then show ?thesis using n ab assms(2) by (simp add: html_reference_def a(1) legacy_loop_panics)
  qed
  then show ?thesis using unescape_plain [OF assms(1), of entities "38 # x # s"] by simp
qed

theorem html_unescape_panics_witness:
  "html_unescape sample_entities (lit ''R&'' @ [0x90E8] @ lit '' &amp; more'') = None"
  using html_unescape_panics [of "lit ''R''" "0x90E8" "lit '' &amp; more''" sample_entities] by (simp add: name_stop_def)

end
