(* ===== verification/Html_Tables.thy ===== *)
theory Html_Tables
  imports Html_Entities
begin

text \<open>
  The HTML tables of \<open>official_builders.rs\<close>: the scanner of tags, a table document with its rows, the
  cells of a row and the editing of their attributes. Positions are character positions: the code
  slices at positions of ASCII characters only. An operation returns a value, \<open>None\<close>, or panics.
\<close>

datatype halt = NoValue | Panicked

type_synonym 'a opt = "('a, halt) result"

definition some :: "'a option \<Rightarrow> 'a opt" where
  "some x = ok_or x NoValue"

text \<open>\<open>s[a..b]\<close>: a slice that is out of range or reversed panics.\<close>

definition slice_at :: "'a list \<Rightarrow> nat \<Rightarrow> nat \<Rightarrow> 'a list opt" where
  "slice_at s a b = (if a \<le> b \<and> b \<le> length s then Ok (take (b - a) (drop a s)) else Err Panicked)"

definition index_at :: "'a list \<Rightarrow> nat \<Rightarrow> 'a opt" where
  "index_at xs i = (if i < length xs then Ok (xs ! i) else Err Panicked)"

section \<open>Tags\<close>

datatype HtmlTagKind = Open | Close | Other

record HtmlTag =
  tag_start :: nat
  tag_end :: nat
  tag_kind :: HtmlTagKind
  tag_name :: ustr
  self_closing :: bool

definition is_ascii_whitespace :: "uchar \<Rightarrow> bool" where
  "is_ascii_whitespace c \<longleftrightarrow> c = 32 \<or> c = 9 \<or> c = 10 \<or> c = 12 \<or> c = 13"

definition name_char :: "uchar \<Rightarrow> bool" where
  "name_char c \<longleftrightarrow> is_ascii_alphanumeric c \<or> c = 58 \<or> c = 45 \<or> c = 95"

definition VOID_TAGS :: "ustr list" where
  "VOID_TAGS = map lit [''area'', ''base'', ''br'', ''col'', ''embed'', ''hr'', ''img'', ''input'', ''link'', ''meta'',
     ''param'', ''source'', ''track'', ''wbr'']"

definition is_void_tag :: "ustr \<Rightarrow> bool" where
  "is_void_tag name \<longleftrightarrow> name \<in> set VOID_TAGS"

text \<open>The inner loop to the closing angle bracket outside quotes: the number of characters before it.\<close>

fun bracket :: "uchar option \<Rightarrow> ustr \<Rightarrow> nat option" where
  "bracket quote [] = None"
| "bracket None (c # s) =
     (if c = 62 then Some 0 else map_option Suc (bracket (if c = 39 \<or> c = 34 then Some c else None) s))"
| "bracket (Some d) (c # s) = map_option Suc (bracket (if c = d then None else Some d) s)"

definition trim_end :: "ustr \<Rightarrow> ustr" where
  "trim_end s = rev (dropWhile is_whitespace (rev s))"

definition ends_with :: "'a \<Rightarrow> 'a list \<Rightarrow> bool" where
  "ends_with c s \<longleftrightarrow> s \<noteq> [] \<and> last s = c"

text \<open>
  The tag at the head of a text that begins with an angle bracket, \<open>None\<close> where \<open>html_tags\<close> returns
  \<open>None\<close>. The look back of \<open>self_closing\<close> ends at the bracket, which is no white space.
\<close>

definition tag_at :: "nat \<Rightarrow> ustr \<Rightarrow> HtmlTag option" where
  "tag_at at s =
     (if prefix (lit ''<!--'') s then
        (case find_str (lit ''-->'') (drop 4 s) of
           None \<Rightarrow> None
         | Some k \<Rightarrow> Some \<lparr>tag_start = at, tag_end = at + k + 7, tag_kind = Other, tag_name = [], self_closing = True\<rparr>)
      else
        (case bracket None (tl s) of
           None \<Rightarrow> None
         | Some k \<Rightarrow>
             (let r1 = dropWhile is_ascii_whitespace (tl s) in
              if prefix [33] r1 \<or> prefix [63] r1
              then Some \<lparr>tag_start = at, tag_end = at + k + 2, tag_kind = Other, tag_name = [], self_closing = True\<rparr>
              else
                (let closing = prefix [47] r1;
                     r2 = dropWhile is_ascii_whitespace (if closing then tl r1 else r1);
                     name = takeWhile name_char r2
                 in if name = [] then None
                    else Some \<lparr>tag_start = at, tag_end = at + k + 2, tag_kind = (if closing then Close else Open),
                      tag_name = lower name,
                      self_closing = (\<not> closing \<and> (is_void_tag (lower name) \<or> ends_with 47 (trim_end (take (k + 1) s))))\<rparr>))))"

lemma tag_at_end: "tag_at at s = Some t \<Longrightarrow> tag_start t = at \<and> at + 2 \<le> tag_end t"
  by (auto simp: tag_at_def Let_def split: if_splits option.splits)

function html_tags_from :: "nat \<Rightarrow> ustr \<Rightarrow> HtmlTag list option" where
  "html_tags_from at [] = Some []"
| "html_tags_from at (c # s) =
     (if c \<noteq> 60 then html_tags_from (at + 1) s
      else case tag_at at (c # s) of
        None \<Rightarrow> None
      | Some t \<Rightarrow> map_option ((#) t) (html_tags_from (tag_end t) (drop (tag_end t - at) (c # s))))"
  by pat_completeness auto
termination
  by (relation "measure (\<lambda>(at, s). length s)") (auto dest: tag_at_end)

definition html_tags :: "ustr \<Rightarrow> HtmlTag list option" where
  "html_tags s = html_tags_from 0 s"

section \<open>Documents\<close>

record TableDocument =
  source :: ustr
  row_ranges :: "(nat \<times> nat) list"
  insertion :: nat

record TableRow =
  raw :: ustr
  deleted :: bool

text \<open>The variables of the loop of \<open>TableDocument::parse\<close>; the stack has its top first.\<close>

record DocState =
  d_stack :: "(ustr \<times> nat) list"
  d_rows :: "(nat \<times> nat) list"
  first_tbody :: "nat option"
  d_insertion :: "nat option"
  table_close :: "nat option"
  table_end :: "nat option"

text \<open>The rows and the insertion point after the element opened at \<open>opened\<close> is closed.\<close>

definition close_tag :: "HtmlTag \<Rightarrow> nat \<Rightarrow> DocState \<Rightarrow> DocState" where
  "close_tag tag opened st =
     (let st = (if tag_name tag = lit ''tr'' then st\<lparr>d_rows := d_rows st @ [(opened, tag_end tag)]\<rparr> else st)
      in if tag_name tag = lit ''tbody'' \<and> Some opened = first_tbody st then st\<lparr>d_insertion := Some (tag_start tag)\<rparr> else st)"

fun doc_loop :: "HtmlTag list \<Rightarrow> DocState \<Rightarrow> DocState option" where
  "doc_loop [] st = Some st"
| "doc_loop (tag # tags) st =
     (case tag_kind tag of
        Other \<Rightarrow> doc_loop tags st
      | Open \<Rightarrow>
          if tag_name tag = lit ''table'' \<and> d_stack st \<noteq> [] then None
          else if self_closing tag then doc_loop tags st
          else doc_loop tags
            (st\<lparr>first_tbody := (if tag_name tag = lit ''tbody'' \<and> first_tbody st = None then Some (tag_start tag) else first_tbody st),
                d_stack := (tag_name tag, tag_start tag) # d_stack st\<rparr>)
      | Close \<Rightarrow>
          (case d_stack st of
             [] \<Rightarrow> None
           | (name, opened) # stack \<Rightarrow>
               if name \<noteq> tag_name tag then None
               else
                 (let st = close_tag tag opened (st\<lparr>d_stack := stack\<rparr>) in
                  if name = lit ''table''
                  then if stack \<noteq> [] then None
                       else Some (st\<lparr>table_close := Some (tag_start tag), table_end := Some (tag_end tag)\<rparr>)
                  else doc_loop tags st)))"

definition document_parse :: "ustr \<Rightarrow> TableDocument opt" where
  "document_parse s =
     and_then (some (html_tags s)) (\<lambda>tags.
     if tags = [] then Err NoValue
     else
       (let root = hd tags in
        and_then (slice_at s 0 (tag_start root)) (\<lambda>before.
        if trim before \<noteq> [] \<or> tag_kind root \<noteq> Open \<or> tag_name root \<noteq> lit ''table'' \<or> self_closing root then Err NoValue
        else
          and_then (some (doc_loop tags \<lparr>d_stack = [], d_rows = [], first_tbody = None, d_insertion = None, table_close = None, table_end = None\<rparr>)) (\<lambda>st.
          and_then (some (table_end st)) (\<lambda>stop.
          and_then (slice_at s stop (length s)) (\<lambda>after.
          if trim after \<noteq> [] \<or> d_rows st = [] then Err NoValue
          else
            and_then (some (table_close st)) (\<lambda>close.
            Ok \<lparr>source = s, row_ranges = sort_key fst (d_rows st),
                insertion = (case d_insertion st of Some i \<Rightarrow> i | None \<Rightarrow> close)\<rparr>)))))))"

definition live :: "TableRow list \<Rightarrow> ustr" where
  "live rows = concat (map raw (filter (\<lambda>r. \<not> deleted r) rows))"

text \<open>The loop of \<open>serialize\<close> over the ranges and rows; \<open>extra\<close> is what \<open>append\<close> writes.\<close>

fun serialize_loop :: "TableDocument \<Rightarrow> ustr \<Rightarrow> ((nat \<times> nat) \<times> TableRow) list \<Rightarrow> ustr \<Rightarrow> nat \<Rightarrow> bool \<Rightarrow> ustr opt" where
  "serialize_loop d extra [] out cursor inserted =
     (if inserted then and_then (slice_at (source d) cursor (length (source d))) (\<lambda>rest. Ok (out @ rest))
      else
        and_then (slice_at (source d) cursor (insertion d)) (\<lambda>before.
        and_then (slice_at (source d) (insertion d) (length (source d))) (\<lambda>rest.
        Ok (out @ before @ extra @ rest))))"
| "serialize_loop d extra (((start, stop), row) # ranges) out cursor inserted =
     and_then
       (if \<not> inserted \<and> insertion d \<le> start then
          and_then (slice_at (source d) cursor (insertion d)) (\<lambda>a.
          and_then (slice_at (source d) (insertion d) start) (\<lambda>b.
          Ok (out @ a @ extra @ b, start, True)))
        else Ok (out, cursor, inserted)) (\<lambda>(out, cursor, inserted).
     and_then (slice_at (source d) cursor start) (\<lambda>gap.
     serialize_loop d extra ranges (out @ gap @ (if deleted row then [] else raw row)) stop inserted))"

definition serialize :: "TableDocument \<Rightarrow> TableRow list \<Rightarrow> ustr opt" where
  "serialize d rows =
     (if length rows < length (row_ranges d) then Err NoValue
      else serialize_loop d (live (drop (length (row_ranges d)) rows)) (zip (row_ranges d) rows) [] 0 False)"

section \<open>Rows and cells\<close>

record ParsedCell =
  pc_start :: nat
  open_end :: nat
  content_end :: nat
  pc_end :: nat
  pc_colspan :: nat
  pc_rowspan :: nat

record ParsedRow =
  cells :: "ParsedCell list"
  close_start :: nat

text \<open>\<open>str::parse::<usize>\<close>\<close>

definition parse_usize :: "ustr \<Rightarrow> nat option" where
  "parse_usize s =
     (let ds = (case strip_prefix [43] s of Some r \<Rightarrow> r | None \<Rightarrow> s) in
      if ds = [] \<or> \<not> list_all is_ascii_digit ds then None
      else opt_filter (\<lambda>v. v \<le> U64_MAX) (Some (digits_val ds)))"

text \<open>What follows the name of an attribute: its value, if it has one, and the rest.\<close>

definition attr_value :: "ustr \<Rightarrow> (ustr option \<times> ustr) option" where
  "attr_value s =
     (if prefix [61] s then
        (let s3 = dropWhile is_ascii_whitespace (tl s) in
         if prefix [39] s3 \<or> prefix [34] s3 then
           (let q = hd s3; v = takeWhile (\<lambda>c. c \<noteq> q) (tl s3) in
            if length v = length (tl s3) then None else Some (Some v, drop (length v + 2) s3))
         else
           (let v = takeWhile (\<lambda>c. \<not> is_ascii_whitespace c \<and> c \<noteq> 62) s3 in Some (Some v, drop (length v) s3)))
      else Some (None, s))"

lemma attr_value_shorter:
  assumes "attr_value s = Some (v, r)"
  shows "length r \<le> length s"
proof -
  have "length (dropWhile is_ascii_whitespace (tl s)) \<le> length s"
    using length_dropWhile_le [of is_ascii_whitespace "tl s"] by simp
  then show ?thesis using assms by (auto simp: attr_value_def Let_def split: if_splits)
qed

text \<open>
  The attributes of an open tag of length \<open>len\<close> from position \<open>at\<close> on, \<open>s\<close> being the text from there:
  the range and the value of the wanted one, the end of the tag when there is none.
\<close>

function attributes :: "nat \<Rightarrow> ustr \<Rightarrow> nat \<Rightarrow> ustr \<Rightarrow> ((nat \<times> nat) \<times> ustr option) option" where
  "attributes len wanted at s =
     (let s1 = dropWhile is_ascii_whitespace s; start = at + (length s - length s1) in
      if s1 = [] \<or> hd s1 = 62 \<or> hd s1 = 47 then Some ((len, len), None)
      else
        (let name = takeWhile name_char s1 in
         if name = [] then None
         else
           (case attr_value (dropWhile is_ascii_whitespace (dropWhile name_char s1)) of
              None \<Rightarrow> None
            | Some (value, rest) \<Rightarrow>
                (let stop = at + (length s - length rest) in
                 if lower name = lower wanted then Some ((start, stop), value) else attributes len wanted stop rest))))"
  by pat_completeness auto
termination
proof (relation "measure (\<lambda>(len, wanted, at, s). length s)")
  fix s s1 :: ustr and start :: nat and name :: ustr and p val rest and len at stop :: nat and wanted :: ustr
  assume a: "s1 = dropWhile is_ascii_whitespace s" "name = takeWhile name_char s1" "name \<noteq> []"
    "attr_value (dropWhile is_ascii_whitespace (dropWhile name_char s1)) = Some p" "(val, rest) = p"
  have "length rest \<le> length (dropWhile is_ascii_whitespace (dropWhile name_char s1))"
    using attr_value_shorter a(4,5) by metis
  also have "\<dots> \<le> length (dropWhile name_char s1)" by (rule length_dropWhile_le)
  also have "\<dots> < length s1" using a(2,3) by (cases s1) (auto simp: less_Suc_eq_le length_dropWhile_le split: if_splits)
  also have "\<dots> \<le> length s" unfolding a(1) by (rule length_dropWhile_le)
  finally show "((len, wanted, stop, rest), (len, wanted, at, s)) \<in> measure (\<lambda>(len, wanted, at, s). length s)" by simp
qed simp

declare attributes.simps [simp del]

text \<open>\<open>html_attribute\<close>: the attributes begin after the name of the tag.\<close>

definition html_attribute :: "ustr \<Rightarrow> ustr \<Rightarrow> ((nat \<times> nat) \<times> ustr option) option" where
  "html_attribute op wanted =
     (let body = dropWhile (\<lambda>c. \<not> is_ascii_whitespace c \<and> c \<noteq> 62 \<and> c \<noteq> 47) (tl op)
      in attributes (length op) wanted (length op - length body) body)"

definition span_attribute :: "ustr \<Rightarrow> string \<Rightarrow> nat option" where
  "span_attribute op wanted =
     (case html_attribute op (lit wanted) of
        None \<Rightarrow> None
      | Some ((start, _), value) \<Rightarrow>
          if start = length op then Some 1
          else (case value of
                  Some v \<Rightarrow> opt_filter (\<lambda>n. 0 < n) (parse_usize (trim v))
                | None \<Rightarrow> None))"

text \<open>The loop of \<open>parse_row\<close>. \<open>active\<close> is the open cell: its start, its open tag's end and its spans.\<close>

record RowState =
  r_stack :: "(ustr \<times> nat) list"
  r_cells :: "ParsedCell list"
  active_cell :: "(nat \<times> nat \<times> nat \<times> nat) option"

definition cell_name :: "ustr \<Rightarrow> bool" where
  "cell_name n \<longleftrightarrow> n = lit ''td'' \<or> n = lit ''th''"

fun row_loop :: "ustr \<Rightarrow> HtmlTag list \<Rightarrow> RowState \<Rightarrow> ParsedRow opt" where
  "row_loop row [] st = Err NoValue"
| "row_loop row (tag # tags) st =
     (case tag_kind tag of
        Other \<Rightarrow> row_loop row tags st
      | Open \<Rightarrow>
          if self_closing tag then row_loop row tags st
          else
            and_then
              (if cell_name (tag_name tag) \<and> length (r_stack st) = 1 then
                 if active_cell st \<noteq> None then Err NoValue
                 else
                   and_then (slice_at row (tag_start tag) (tag_end tag)) (\<lambda>op.
                   and_then (some (span_attribute op ''colspan'')) (\<lambda>cs.
                   and_then (some (span_attribute op ''rowspan'')) (\<lambda>rs.
                   Ok (Some (tag_start tag, tag_end tag, cs, rs)))))
               else Ok (active_cell st)) (\<lambda>active.
            row_loop row tags (st\<lparr>active_cell := active, r_stack := (tag_name tag, tag_end tag) # r_stack st\<rparr>))
      | Close \<Rightarrow>
          (case r_stack st of
             [] \<Rightarrow> Err NoValue
           | (name, op_end) # stack \<Rightarrow>
               if name \<noteq> tag_name tag then Err NoValue
               else
                 and_then
                   (if cell_name name then
                      (case active_cell st of
                         None \<Rightarrow> Err NoValue
                       | Some (cell_start, _, cs, rs) \<Rightarrow>
                           Ok (st\<lparr>r_stack := stack, active_cell := None,
                                  r_cells := r_cells st @ [\<lparr>pc_start = cell_start, open_end = op_end, content_end = tag_start tag,
                                    pc_end = tag_end tag, pc_colspan = cs, pc_rowspan = rs\<rparr>]\<rparr>))
                    else Ok (st\<lparr>r_stack := stack\<rparr>)) (\<lambda>st.
                 if name = lit ''tr'' then
                   (if stack \<noteq> [] then Err NoValue
                    else and_then (slice_at row (tag_end tag) (length row)) (\<lambda>after.
                         if trim after \<noteq> [] then Err NoValue
                         else Ok \<lparr>cells = r_cells st, close_start = tag_start tag\<rparr>))
                 else row_loop row tags st)))"

definition parse_row :: "ustr \<Rightarrow> ParsedRow opt" where
  "parse_row row =
     and_then (some (html_tags row)) (\<lambda>tags.
     if tags = [] then Err NoValue
     else
       (let root = hd tags in
        and_then (slice_at row 0 (tag_start root)) (\<lambda>before.
        if trim before \<noteq> [] \<or> tag_kind root \<noteq> Open \<or> tag_name root \<noteq> lit ''tr'' \<or> self_closing root then Err NoValue
        else row_loop row tags \<lparr>r_stack = [], r_cells = [], active_cell = None\<rparr>)))"

section \<open>Editing cells\<close>

text \<open>\<open>String::replace_range\<close> and \<open>insert_str\<close>: a range out of order or out of range panics.\<close>

definition replace_at :: "nat \<Rightarrow> nat \<Rightarrow> ustr \<Rightarrow> ustr \<Rightarrow> ustr opt" where
  "replace_at a b t s = (if a \<le> b \<and> b \<le> length s then Ok (take a s @ t @ drop b s) else Err Panicked)"

definition insert_at :: "nat \<Rightarrow> ustr \<Rightarrow> ustr \<Rightarrow> ustr opt" where
  "insert_at a t s = replace_at a a t s"

definition first_tag :: "ustr \<Rightarrow> HtmlTag opt" where
  "first_tag cell = and_then (some (html_tags cell)) (\<lambda>tags. if tags = [] then Err NoValue else Ok (hd tags))"

definition rewrite_span :: "ustr \<Rightarrow> string \<Rightarrow> nat \<Rightarrow> ustr opt" where
  "rewrite_span cell name v =
     and_then (first_tag cell) (\<lambda>tag.
     and_then (slice_at cell 0 (tag_end tag)) (\<lambda>op.
     and_then (some (html_attribute op (lit name))) (\<lambda>((a, b), existing).
     if existing \<noteq> None then
       and_then (slice_at op a b) (\<lambda>attr.
       and_then (some (find_str [61] attr)) (\<lambda>offset.
         (let value_start = a + offset + 1;
              start = value_start + length (takeWhile is_ascii_whitespace (drop value_start cell));
              quote = (case drop start cell of c # _ \<Rightarrow> if c = 39 \<or> c = 34 then Some c else None | [] \<Rightarrow> None);
              start = (if quote = None then start else start + 1);
              stop = start + length (takeWhile (\<lambda>c. case quote of Some d \<Rightarrow> c \<noteq> d | None \<Rightarrow> \<not> is_ascii_whitespace c \<and> c \<noteq> 62) (drop start cell))
          in replace_at start stop (show_nat v) cell)))
     else if tag_end tag = 0 then Err Panicked
     else insert_at (tag_end tag - 1) (32 # lit name @ [61, 34] @ show_nat v @ [34]) cell)))"

definition remove_span :: "ustr \<Rightarrow> string \<Rightarrow> ustr opt" where
  "remove_span cell name =
     and_then (first_tag cell) (\<lambda>tag.
     and_then (slice_at cell 0 (tag_end tag)) (\<lambda>op.
     and_then (some (html_attribute op (lit name))) (\<lambda>((a, b), existing).
     if existing = None then Ok cell
     else
       and_then (if 0 < a then and_then (index_at cell (a - 1)) (\<lambda>c. Ok (if is_ascii_whitespace c then a - 1 else a)) else Ok a) (\<lambda>start.
       replace_at start b [] cell))))"

definition row_cell :: "TableRow \<Rightarrow> nat \<Rightarrow> ParsedCell opt" where
  "row_cell row i =
     and_then (parse_row (raw row)) (\<lambda>p. some (if i < length (cells p) then Some (cells p ! i) else None))"

definition row_cell_content :: "TableRow \<Rightarrow> nat \<Rightarrow> ustr opt" where
  "row_cell_content row i = and_then (row_cell row i) (\<lambda>c. slice_at (raw row) (open_end c) (content_end c))"

definition replace_cell_content :: "TableRow \<Rightarrow> nat \<Rightarrow> ustr \<Rightarrow> TableRow opt" where
  "replace_cell_content row i t =
     and_then (row_cell row i) (\<lambda>c.
     and_then (replace_at (open_end c) (content_end c) t (raw row)) (\<lambda>r. Ok (row\<lparr>raw := r\<rparr>)))"

definition set_row_cell_span :: "TableRow \<Rightarrow> nat \<Rightarrow> string \<Rightarrow> nat \<Rightarrow> TableRow opt" where
  "set_row_cell_span row i name v =
     and_then (row_cell row i) (\<lambda>c.
     and_then (slice_at (raw row) (pc_start c) (pc_end c)) (\<lambda>cell.
     and_then (if v = 1 then remove_span cell name else rewrite_span cell name v) (\<lambda>replacement.
     and_then (replace_at (pc_start c) (pc_end c) replacement (raw row)) (\<lambda>r. Ok (row\<lparr>raw := r\<rparr>)))))"

text \<open>\<open>cell_text\<close>: the text between the tags, unescaped.\<close>

fun strip_tags :: "ustr \<Rightarrow> HtmlTag list \<Rightarrow> nat \<Rightarrow> ustr opt" where
  "strip_tags s [] cursor = slice_at s cursor (length s)"
| "strip_tags s (t # ts) cursor =
     and_then (slice_at s cursor (tag_start t)) (\<lambda>a. and_then (strip_tags s ts (tag_end t)) (\<lambda>b. Ok (a @ b)))"

definition unescaped :: "(ustr \<Rightarrow> ustr option) \<Rightarrow> ustr \<Rightarrow> ustr opt" where
  "unescaped entities v = ok_or (html_unescape entities v) Panicked"

definition tagless_text :: "(ustr \<Rightarrow> ustr option) \<Rightarrow> ustr \<Rightarrow> ustr opt" where
  "tagless_text entities s =
     (case html_tags s of
        None \<Rightarrow> unescaped entities s
      | Some tags \<Rightarrow> and_then (strip_tags s tags 0) (unescaped entities))"

definition full_to_half :: "ustr \<Rightarrow> ustr" where
  "full_to_half v = map (\<lambda>c. if 0xFF01 \<le> c \<and> c \<le> 0xFF5E then c - 0xFEE0 else c) v"

definition SEMANTIC_TAGS :: "ustr list" where
  "SEMANTIC_TAGS = map lit [''img'', ''svg'', ''math'', ''eq'', ''table'', ''figure'', ''object'', ''embed'', ''canvas'']"

definition cell_has_semantic_content :: "(ustr \<Rightarrow> ustr option) \<Rightarrow> TableRow \<Rightarrow> nat \<Rightarrow> bool opt" where
  "cell_has_semantic_content entities row i =
     and_then (row_cell_content row i) (\<lambda>content.
     and_then (tagless_text entities content) (\<lambda>t.
     if trim t \<noteq> [] then Ok True
     else and_then (some (html_tags content)) (\<lambda>tags.
          Ok (list_ex (\<lambda>tag. tag_kind tag = Open \<and> tag_name tag \<in> set SEMANTIC_TAGS) tags))))"

section \<open>Positions of tags\<close>

definition tags_within :: "nat \<Rightarrow> nat \<Rightarrow> HtmlTag list \<Rightarrow> bool" where
  "tags_within a b tags \<longleftrightarrow> (\<forall>t \<in> set tags. a \<le> tag_start t \<and> tag_start t < tag_end t \<and> tag_end t \<le> b)"

lemma bracket_bound: "bracket q s = Some k \<Longrightarrow> k < length s"
  by (induction q s arbitrary: k rule: bracket.induct) (auto split: if_splits)

lemma tag_at_bound:
  assumes "tag_at at (c # s) = Some t"
  shows "tag_end t \<le> at + length (c # s)"
proof (cases "prefix (lit ''<!--'') (c # s)")
  case True
  then have len: "4 \<le> length (c # s)" using prefix_length_le [OF True] by simp
  obtain k where "find_str (lit ''-->'') (drop 4 (c # s)) = Some k" "tag_end t = at + k + 7"
    using assms True by (auto simp: tag_at_def split: option.splits)
  then show ?thesis using find_str_bound [of "lit ''-->''" "drop 4 (c # s)" k] len by simp
next
  case False
  then obtain k where "bracket None s = Some k" "tag_end t = at + k + 2"
    using assms by (auto simp: tag_at_def Let_def split: option.splits if_splits)
  then show ?thesis using bracket_bound [of None s k] by simp
qed

lemma tags_within_mono: "tags_within a b tags \<Longrightarrow> a' \<le> a \<Longrightarrow> tags_within a' b tags"
  by (auto simp: tags_within_def)

lemma html_tags_from_within:
  "html_tags_from at s = Some tags \<Longrightarrow> tags_within at (at + length s) tags \<and> sorted_wrt (\<lambda>t t'. tag_end t \<le> tag_start t') tags"
proof (induction at s arbitrary: tags rule: html_tags_from.induct)
  case (2 at c s)
  show ?case
  proof (cases "c = 60")
    case False
    then show ?thesis using "2.IH"(1) "2.prems" tags_within_mono [of "at + 1" _ tags at] by simp
  next
    case True
    obtain t ts where t: "tag_at at (c # s) = Some t" "html_tags_from (tag_end t) (drop (tag_end t - at) (c # s)) = Some ts" "tags = t # ts"
      using "2.prems" True by (auto split: option.splits)
    have b: "tag_start t = at" "at + 2 \<le> tag_end t" "tag_end t \<le> at + length (c # s)"
      using tag_at_end [OF t(1)] tag_at_bound [OF t(1)] by auto
    have len: "tag_end t + length (drop (tag_end t - at) (c # s)) = at + length (c # s)" using b by simp
    have IH: "tags_within (tag_end t) (at + length (c # s)) ts" "sorted_wrt (\<lambda>t t'. tag_end t \<le> tag_start t') ts"
      using "2.IH"(2) [OF _ t(1,2)] True unfolding len by auto
    then show ?thesis using t(3) b by (auto simp: tags_within_def)
  qed
qed (simp add: tags_within_def)

section \<open>Writing a document back\<close>

definition doc_rows :: "TableDocument \<Rightarrow> TableRow list" where
  "doc_rows d = map (\<lambda>(a, b). \<lparr>raw = take (b - a) (drop a (source d)), deleted = False\<rparr>) (row_ranges d)"

text \<open>No row lies in another, and the place for new rows is in none.\<close>

definition separate :: "TableDocument \<Rightarrow> bool" where
  "separate d \<longleftrightarrow> sorted_wrt (\<lambda>r r'. snd r \<le> fst r') (row_ranges d) \<and>
     (\<forall>r \<in> set (row_ranges d). insertion d \<le> fst r \<or> snd r \<le> insertion d)"

text \<open>The positions the loop keeps are those of tags.\<close>

definition doc_ok :: "nat \<Rightarrow> DocState \<Rightarrow> bool" where
  "doc_ok n st \<longleftrightarrow>
     (\<forall>r \<in> set (d_rows st). fst r \<le> snd r \<and> snd r \<le> n) \<and>
     (\<forall>i. d_insertion st = Some i \<or> table_close st = Some i \<or> table_end st = Some i \<longrightarrow> i \<le> n)"

lemma close_tag_ok:
  assumes "doc_ok n st" "opened \<le> tag_end t" "tag_start t \<le> tag_end t" "tag_end t \<le> n"
  shows "doc_ok n (close_tag t opened (st\<lparr>d_stack := stack\<rparr>))" "d_stack (close_tag t opened (st\<lparr>d_stack := stack\<rparr>)) = stack"
  using assms by (auto simp: close_tag_def doc_ok_def Let_def split: if_splits)

lemma doc_loop_ok:
  assumes "doc_loop tags st = Some st'" "tags_within 0 n tags" "sorted_wrt (\<lambda>t t'. tag_end t \<le> tag_start t') tags"
    "doc_ok n st" "\<forall>e \<in> set (d_stack st). \<forall>t \<in> set tags. snd e \<le> tag_end t"
  shows "doc_ok n st'"
  using assms
proof (induction tags arbitrary: st)
  case (Cons t ts)
  have t: "tag_start t < tag_end t" "tag_end t \<le> n" and ts: "tags_within 0 n ts" "\<And>t'. t' \<in> set ts \<Longrightarrow> tag_end t \<le> tag_start t' \<and> tag_start t' < tag_end t'"
    using Cons.prems(2,3) by (auto simp: tags_within_def)
  show ?case
  proof (cases "tag_kind t")
    case Other
    then show ?thesis using Cons.IH [of st] Cons.prems ts(1) by auto
  next
    case Open
    have "\<forall>e \<in> set ((tag_name t, tag_start t) # d_stack st). \<forall>t' \<in> set ts. snd e \<le> tag_end t'"
      using Cons.prems(5) ts(2) t by fastforce
    moreover have "doc_ok n (st\<lparr>first_tbody := b, d_stack := k\<rparr>)" for b k using Cons.prems(4) by (simp add: doc_ok_def)
    moreover have "sorted_wrt (\<lambda>t t'. tag_end t \<le> tag_start t') ts" "\<forall>e \<in> set (d_stack st). \<forall>t \<in> set ts. snd e \<le> tag_end t"
      using Cons.prems(3,5) by auto
    ultimately show ?thesis
      using Cons.IH [OF _ ts(1), of st] Cons.IH [OF _ ts(1), of "st\<lparr>first_tbody := _, d_stack := (tag_name t, tag_start t) # d_stack st\<rparr>"]
        Cons.prems(1,4) Open by (simp split: if_splits)
  next
    case Close
    then obtain name opened stack where s: "d_stack st = (name, opened) # stack" "name = tag_name t"
      using Cons.prems(1) by (auto split: list.splits if_splits)
    have "opened \<le> tag_end t" using Cons.prems(5) s by simp
    then have c: "doc_ok n (close_tag t opened (st\<lparr>d_stack := stack\<rparr>))" "d_stack (close_tag t opened (st\<lparr>d_stack := stack\<rparr>)) = stack"
      using close_tag_ok [OF Cons.prems(4), of opened t] t by auto
    have st: "\<forall>e \<in> set stack. \<forall>t' \<in> set ts. snd e \<le> tag_end t'" using Cons.prems(5) s by auto
    show ?thesis
    proof (cases "name = lit ''table''")
      case True
      then have "st' = (close_tag t opened (st\<lparr>d_stack := stack\<rparr>))\<lparr>table_close := Some (tag_start t), table_end := Some (tag_end t)\<rparr>"
        using Cons.prems(1) Close s by (auto simp: Let_def split: if_splits)
      then show ?thesis using c(1) t by (auto simp: doc_ok_def)
    next
      case False
      then have "doc_loop ts (close_tag t opened (st\<lparr>d_stack := stack\<rparr>)) = Some st'"
        using Cons.prems(1) Close s by (simp add: Let_def)
      then show ?thesis using Cons.IH [OF _ ts(1) _ c(1)] Cons.prems(3) c(2) st by auto
    qed
  qed
qed simp

lemma document_parse_ok:
  assumes "document_parse s = Ok d"
  shows "source d = s" "r \<in> set (row_ranges d) \<Longrightarrow> fst r \<le> snd r \<and> snd r \<le> length s" "insertion d \<le> length s" "row_ranges d \<noteq> []"
proof -
  let ?st = "\<lparr>d_stack = [], d_rows = [], first_tbody = None, d_insertion = None, table_close = None, table_end = None\<rparr>"
  obtain tags st c where d: "html_tags s = Some tags" "doc_loop tags ?st = Some st" "table_close st = Some c" "d_rows st \<noteq> []"
      "d = \<lparr>source = s, row_ranges = sort_key fst (d_rows st), insertion = (case d_insertion st of Some i \<Rightarrow> i | None \<Rightarrow> c)\<rparr>"
    using assms by (fastforce simp: document_parse_def some_def Let_def result_simps split: if_splits)
  have "tags_within 0 (length s) tags" "sorted_wrt (\<lambda>t t'. tag_end t \<le> tag_start t') tags"
    using html_tags_from_within [of 0 s tags] d(1) by (auto simp: html_tags_def)
  then have "doc_ok (length s) st" using doc_loop_ok [OF d(2)] by (simp add: doc_ok_def)
  then show "r \<in> set (row_ranges d) \<Longrightarrow> fst r \<le> snd r \<and> snd r \<le> length s" "insertion d \<le> length s"
    using d(3,5) by (auto simp: doc_ok_def split: option.splits)
  show "source d = s" using d(5) by simp
  show "row_ranges d \<noteq> []" using d(4,5) by (metis TableDocument.select_convs(2) set_empty set_sort)
qed

definition sub :: "'a list \<Rightarrow> nat \<Rightarrow> nat \<Rightarrow> 'a list" where
  "sub s a b = take (b - a) (drop a s)"

lemma slice_at_ok: "a \<le> b \<Longrightarrow> b \<le> length s \<Longrightarrow> slice_at s a b = Ok (sub s a b)"
  by (simp add: slice_at_def sub_def)

lemma sub_append: "a \<le> b \<Longrightarrow> b \<le> c \<Longrightarrow> sub s a b @ sub s b c = sub s a c"
proof -
  assume "a \<le> b" "b \<le> c"
  then have "take (c - a) (drop a s) = take (b - a) (drop a s) @ take (c - b) (drop (b - a) (drop a s))"
    by (metis take_add le_add_diff_inverse2 add_diff_cancel_right diff_diff_right diff_add_assoc2 add.commute le_diff_conv2 Nat.add_diff_assoc)
  then show ?thesis using \<open>a \<le> b\<close> by (simp add: sub_def)
qed

lemma sub_all: "sub s a (length s) = drop a s"
  by (simp add: sub_def)

lemma serialize_loop_done:
  assumes "\<forall>r \<in> set ranges. fst r \<le> snd r \<and> snd r \<le> length (source d)" "sorted_wrt (\<lambda>r r'. snd r \<le> fst r') ranges"
    "\<forall>r \<in> set ranges. cursor \<le> fst r" "cursor \<le> length (source d)"
  shows "serialize_loop d extra (zip ranges (map (\<lambda>(a, b). \<lparr>raw = sub (source d) a b, deleted = False\<rparr>) ranges @ extra_rows)) out cursor True =
    Ok (out @ drop cursor (source d))"
  using assms
proof (induction ranges arbitrary: out cursor)
  case Nil
  then show ?case by (simp add: slice_at_ok sub_all)
next
  case (Cons r ranges)
  obtain a b where r: "r = (a, b)" by force
  have ab: "cursor \<le> a" "a \<le> b" "b \<le> length (source d)" using Cons.prems r by auto
  have "sub (source d) cursor a @ sub (source d) a b @ drop b (source d) = drop cursor (source d)"
    by (simp only: sub_all [symmetric] sub_append [OF ab(2,3)] sub_append [OF ab(1) order.trans [OF ab(2,3)]])
  then show ?case using Cons.IH [of b "out @ sub (source d) cursor a @ sub (source d) a b"] Cons.prems r ab
    by (simp add: slice_at_ok)
qed

lemma serialize_loop_whole:
  assumes "\<forall>r \<in> set ranges. fst r \<le> snd r \<and> snd r \<le> length (source d)" "sorted_wrt (\<lambda>r r'. snd r \<le> fst r') ranges"
    "\<forall>r \<in> set ranges. cursor \<le> fst r" "\<forall>r \<in> set ranges. insertion d \<le> fst r \<or> snd r \<le> insertion d"
    "cursor \<le> insertion d" "insertion d \<le> length (source d)"
  shows "serialize_loop d extra (zip ranges (map (\<lambda>(a, b). \<lparr>raw = sub (source d) a b, deleted = False\<rparr>) ranges @ extra_rows)) out cursor False =
    Ok (out @ sub (source d) cursor (insertion d) @ extra @ drop (insertion d) (source d))"
  using assms
proof (induction ranges arbitrary: out cursor)
  case Nil
  then show ?case by (simp add: slice_at_ok sub_all)
next
  case (Cons r ranges)
  obtain a b where r: "r = (a, b)" by force
  have ab: "cursor \<le> a" "a \<le> b" "b \<le> length (source d)" using Cons.prems r by auto
  let ?rows = "map (\<lambda>(a, b). \<lparr>raw = sub (source d) a b, deleted = False\<rparr>)"
  show ?case
  proof (cases "insertion d \<le> a")
    case True
    have "serialize_loop d extra (zip (r # ranges) (?rows (r # ranges) @ extra_rows)) out cursor False =
        serialize_loop d extra (zip (r # ranges) (?rows (r # ranges) @ extra_rows))
          (out @ sub (source d) cursor (insertion d) @ extra @ sub (source d) (insertion d) a) a True"
      using True Cons.prems(5,6) ab r by (simp add: slice_at_ok sub_def)
    also have "\<dots> = Ok ((out @ sub (source d) cursor (insertion d) @ extra @ sub (source d) (insertion d) a) @ drop a (source d))"
      using Cons.prems r ab by (intro serialize_loop_done) auto
    finally show ?thesis
      using sub_append [OF True, of "length (source d)" "source d"] ab by (simp add: sub_all)
  next
    case False
    then have b: "b \<le> insertion d" using Cons.prems(4) r by auto
    have "sub (source d) cursor a @ sub (source d) a b @ sub (source d) b (insertion d) = sub (source d) cursor (insertion d)"
      by (simp only: sub_append [OF ab(2) b] sub_append [OF ab(1) order.trans [OF ab(2) b]])
    then show ?thesis using Cons.IH [of b "out @ sub (source d) cursor a @ sub (source d) a b"] Cons.prems r ab b False
      by (simp add: slice_at_ok)
  qed
qed

text \<open>
  A table document is written back as it was read. Serialising a parsed table whose rows do not nest with its
  own rows, followed by new ones, yields the source text with exactly the new rows that are not deleted put in at
  the insertion point; without new rows it yields the source text.
\<close>

lemma serialize_document:
  assumes "document_parse s = Ok d" "separate d"
  shows "serialize d (doc_rows d @ extra) = Ok (take (insertion d) s @ live extra @ drop (insertion d) s)"
proof -
  note p = document_parse_ok [OF assms(1)]
  have rows: "doc_rows d = map (\<lambda>(a, b). \<lparr>raw = sub (source d) a b, deleted = False\<rparr>) (row_ranges d)" by (simp add: doc_rows_def sub_def)
  have len: "length (doc_rows d) = length (row_ranges d)" by (simp add: doc_rows_def)
  have "serialize_loop d (live extra) (zip (row_ranges d) (doc_rows d @ extra)) [] 0 False =
      Ok ([] @ sub (source d) 0 (insertion d) @ live extra @ drop (insertion d) (source d))"
    unfolding rows using p assms(2) by (intro serialize_loop_whole) (auto simp: separate_def)
  then show ?thesis using len p(1) by (simp add: serialize_def sub_def)
qed

definition sample_table :: ustr where
  "sample_table = lit ''<table><tbody><tr><td>a</td></tr></tbody></table>''"

definition sample_document :: TableDocument where
  "sample_document = \<lparr>source = sample_table, row_ranges = [(14, 33)], insertion = 33\<rparr>"

lemmas tag_eval = html_tags_def tag_at_def Let_def is_ascii_whitespace_def name_char_def is_ascii_alphanumeric_def is_ascii_digit_def
  lower_def to_ascii_lowercase_def is_void_tag_def VOID_TAGS_def trim_end_def is_whitespace_def ends_with_def

lemma sample_parse: "document_parse sample_table = Ok sample_document"
  by (simp add: document_parse_def sample_table_def sample_document_def tag_eval some_def slice_at_def trim_def trim_matches_def close_tag_def)

text \<open>A body inside a row puts the insertion point into the row, and writing the table back panics.\<close>

definition body_in_row :: ustr where
  "body_in_row = lit ''<table><tr><td>a</td><tbody></tbody></tr></table>''"

definition body_doc :: TableDocument where
  "body_doc = \<lparr>source = body_in_row, row_ranges = [(7, 41)], insertion = 28\<rparr>"

lemma body_in_row_parse: "document_parse body_in_row = Ok body_doc"
  by (simp add: document_parse_def body_in_row_def body_doc_def tag_eval some_def slice_at_def trim_def trim_matches_def close_tag_def)

lemma body_row: "is_ok (parse_row (lit ''<tr><td>a</td><tbody></tbody></tr>''))"
  by (simp add: parse_row_def tag_eval some_def slice_at_def trim_def trim_matches_def cell_name_def span_attribute_def html_attribute_def
      attributes.simps)

text \<open>
  A table body inside a row: the table \<open>body_in_row\<close> and its row are accepted by the parsers, and
  writing the document back with its own row slices the source in reverse, which panics.
\<close>

lemma serialize_body_in_row:
  "document_parse body_in_row = Ok body_doc \<and> list_all (\<lambda>row. is_ok (parse_row (raw row))) (doc_rows body_doc) \<and>
   serialize body_doc (doc_rows body_doc) = Err Panicked"
proof -
  have r: "doc_rows body_doc = [\<lparr>raw = lit ''<tr><td>a</td><tbody></tbody></tr>'', deleted = False\<rparr>]"
    by (simp add: doc_rows_def body_doc_def body_in_row_def)
  show ?thesis unfolding r using body_in_row_parse body_row
    by (simp add: serialize_def body_doc_def body_in_row_def slice_at_def)
qed

end
