(* ===== verification/Table_Merge.thy ===== *)
theory Table_Merge
  imports Html_Tables Json
begin

text \<open>
  The merge of a table that continues on the next page (\<open>official_builders.rs\<close>): the occupied columns
  of rows with spans, the comparison of headers, the adjustment of spans and the merge of cells.
  Ordered maps are association lists; a set of columns is a list of them. The column arithmetic is
  unbounded. The table of entities is a parameter, as in \<open>Html_Entities\<close>.
\<close>

section \<open>Occupied columns\<close>

type_synonym TailOccupied = "(nat \<times> nat list) list"

definition occ_get :: "TailOccupied \<Rightarrow> nat \<Rightarrow> nat list" where
  "occ_get occ r = (case map_of occ r of Some cs \<Rightarrow> cs | None \<Rightarrow> [])"

definition occ_extend :: "nat \<Rightarrow> nat list \<Rightarrow> TailOccupied \<Rightarrow> TailOccupied" where
  "occ_extend r cs occ = map_insert r (occ_get occ r @ cs) occ"

definition width_of :: "nat list \<Rightarrow> nat" where
  "width_of cs = fold max (map Suc cs) 0"

text \<open>The loop \<open>while ... contains(&column) { column += 1 }\<close>.\<close>

function skip_taken :: "nat list \<Rightarrow> nat \<Rightarrow> nat" where
  "skip_taken cs c = (if c \<in> set cs then skip_taken cs (c + 1) else c)"
  by pat_completeness simp
termination
proof (relation "measure (\<lambda>(cs, c). card {k \<in> set cs. c \<le> k})")
  fix cs :: "nat list" and c :: nat
  assume "c \<in> set cs"
  then have "c \<in> {k \<in> set cs. c \<le> k}" "c \<notin> {k \<in> set cs. Suc c \<le> k}" "{k \<in> set cs. Suc c \<le> k} \<subseteq> {k \<in> set cs. c \<le> k}"
    by simp_all (simp add: Collect_mono_iff)
  then have "{k \<in> set cs. Suc c \<le> k} \<subset> {k \<in> set cs. c \<le> k}" by blast
  then have "card {k \<in> set cs. Suc c \<le> k} < card {k \<in> set cs. c \<le> k}" by (rule psubset_card_mono [rotated]) simp
  then show "((cs, c + 1), (cs, c)) \<in> measure (\<lambda>(cs, c). card {k \<in> set cs. c \<le> k})" by simp
qed simp

declare skip_taken.simps [simp del]

lemma skip_free: "c \<notin> set cs \<Longrightarrow> skip_taken cs c = c"
  by (subst skip_taken.simps) simp

record RowMetrics =
  m_row_idx :: nat
  effective_cols :: nat
  actual_cols :: nat

record RowSignature =
  sig_effective :: nat
  colspans :: "nat list"
  rowspans :: "nat list"
  normalized_texts :: "ustr list"
  display_texts :: "ustr list"

record RowScan =
  sc_effective :: "nat list"
  sc_metrics :: "RowMetrics list"
  sc_total :: nat
  last_nonempty :: "RowMetrics option"
  sc_tail :: TailOccupied

text \<open>The cells of one row: the occupied columns, the next column, the columns of the row itself, the width.\<close>

fun scan_cells :: "nat \<Rightarrow> nat list \<Rightarrow> ParsedCell list \<Rightarrow> TailOccupied \<times> nat \<times> nat \<times> nat \<Rightarrow> TailOccupied \<times> nat \<times> nat \<times> nat" where
  "scan_cells row_idx occupied_row [] st = st"
| "scan_cells row_idx occupied_row (cell # cs) (occ, column, actual, tot) =
     (let column = skip_taken (occupied_row @ occ_get occ row_idx) column;
          occ = fold (\<lambda>offset. occ_extend (row_idx + offset) [column..<column + pc_colspan cell]) [0..<pc_rowspan cell] occ;
          next_column = column + pc_colspan cell
      in scan_cells row_idx occupied_row cs (occ, next_column, actual + pc_colspan cell, max tot next_column))"

fun scan_loop :: "TableRow list \<Rightarrow> nat \<Rightarrow> nat \<Rightarrow> TailOccupied \<Rightarrow> RowScan \<Rightarrow> (TailOccupied \<times> RowScan) opt" where
  "scan_loop [] row_idx start occ sc = Ok (occ, sc)"
| "scan_loop (row # rows) row_idx start occ sc =
     and_then (parse_row (raw row)) (\<lambda>parsed.
       (let occ = occ_extend row_idx [] occ;
            (occ, _, actual, tot) = scan_cells row_idx (occ_get occ row_idx) (cells parsed) (occ, 0, 0, sc_total sc);
            effective = width_of (occ_get occ row_idx);
            metric = \<lparr>m_row_idx = start + row_idx, effective_cols = effective, actual_cols = actual\<rparr>
        in scan_loop rows (row_idx + 1) start occ
             (sc\<lparr>sc_effective := sc_effective sc @ [effective], sc_metrics := sc_metrics sc @ [metric], sc_total := max tot effective,
                 last_nonempty := (if cells parsed = [] then last_nonempty sc else Some metric)\<rparr>)))"

definition scan_rows :: "TableRow list \<Rightarrow> TailOccupied \<Rightarrow> nat \<Rightarrow> RowScan opt" where
  "scan_rows rows initial start =
     (let tot = width_of (concat (map snd initial)) in
      and_then (scan_loop rows 0 start initial \<lparr>sc_effective = [], sc_metrics = [], sc_total = tot, last_nonempty = None, sc_tail = []\<rparr>)
        (\<lambda>(occ, sc). Ok (sc\<lparr>sc_tail := map (\<lambda>(r, cs). (r - length rows, cs)) (filter (\<lambda>(r, cs). length rows \<le> r \<and> cs \<noteq> []) occ)\<rparr>)))"

section \<open>Sources of columns\<close>

type_synonym CellSource = "int \<times> nat"
type_synonym sources = "(nat \<times> CellSource) list"

definition src_get :: "(nat \<times> sources) list \<Rightarrow> nat \<Rightarrow> sources" where
  "src_get occ r = (case map_of occ r of Some m \<Rightarrow> m | None \<Rightarrow> [])"

definition src_insert :: "nat \<Rightarrow> CellSource \<Rightarrow> nat \<Rightarrow> (nat \<times> sources) list \<Rightarrow> (nat \<times> sources) list" where
  "src_insert r src column occ = map_insert r (map_insert column src (src_get occ r)) occ"

fun source_cells :: "nat \<Rightarrow> nat \<Rightarrow> ParsedCell list \<Rightarrow> (nat \<times> sources) list \<times> nat \<times> nat \<Rightarrow> (nat \<times> sources) list \<times> nat \<times> nat" where
  "source_cells row_idx cell_idx [] st = st"
| "source_cells row_idx cell_idx (cell # cs) (occ, column, tot) =
     (let column = skip_taken (map fst (src_get occ row_idx)) column;
          occ = fold (\<lambda>offset. fold (src_insert (row_idx + offset) (int row_idx, cell_idx)) [column..<column + pc_colspan cell]) [0..<pc_rowspan cell] occ;
          next_column = column + pc_colspan cell
      in source_cells row_idx (cell_idx + 1) cs (occ, next_column, max tot next_column))"

fun source_loop :: "TableRow list \<Rightarrow> nat \<Rightarrow> (nat \<times> sources) list \<Rightarrow> nat \<Rightarrow> ((nat \<times> sources) list \<times> nat) opt" where
  "source_loop [] row_idx occ tot = Ok (occ, tot)"
| "source_loop (row # rows) row_idx occ tot =
     and_then (parse_row (raw row)) (\<lambda>parsed.
       (let (occ, _, tot) = source_cells row_idx 0 (cells parsed) (occ, 0, tot)
        in source_loop rows (row_idx + 1) occ tot))"

definition visual_sources :: "TableRow list \<Rightarrow> nat \<Rightarrow> TailOccupied \<Rightarrow> (sources \<times> nat) opt" where
  "visual_sources rows target initial =
     (if length rows \<le> target then Err NoValue
      else
        (let occ = map (\<lambda>(r, cs). (r, fold (\<lambda>c. map_insert c (-1, c)) cs [])) initial;
             tot = width_of (concat (map (map fst \<circ> snd) occ))
         in and_then (source_loop (take (target + 1) rows) 0 occ tot) (\<lambda>(occ, tot). Ok (src_get occ target, tot))))"

fun mapping_loop :: "sources \<Rightarrow> nat \<Rightarrow> ParsedCell list \<Rightarrow> nat \<Rightarrow> nat list" where
  "mapping_loop occ target [] column = []"
| "mapping_loop occ target (cell # cs) column =
     (let column = skip_taken (map fst (filter (\<lambda>(_, src). fst src < int target) occ)) column
      in column # mapping_loop occ target cs (column + pc_colspan cell))"

definition visual_mapping :: "TableRow list \<Rightarrow> nat \<Rightarrow> TailOccupied \<Rightarrow> nat list opt" where
  "visual_mapping rows target initial =
     and_then (visual_sources rows target initial) (\<lambda>(occ, _).
     and_then (index_at rows target) (\<lambda>row.
     and_then (parse_row (raw row)) (\<lambda>parsed. Ok (mapping_loop occ target (cells parsed) 0))))"

fun segments :: "CellSource option list \<Rightarrow> CellSource option \<Rightarrow> nat \<Rightarrow> nat" where
  "segments [] previous n = n"
| "segments (s # ss) previous n =
     (if s \<noteq> previous then segments ss s (if s \<noteq> None then n + 1 else n) else segments ss previous n)"

definition rendered_segments :: "TableRow list \<Rightarrow> nat \<Rightarrow> TailOccupied \<Rightarrow> nat opt" where
  "rendered_segments rows target initial =
     and_then (visual_sources rows target initial) (\<lambda>(occ, tot). Ok (segments (map (map_of occ) [0..<tot]) None 0))"

section \<open>The two computations of the occupied columns agree\<close>

definition same_occ :: "TailOccupied \<Rightarrow> (nat \<times> sources) list \<Rightarrow> bool" where
  "same_occ occ vocc \<longleftrightarrow> (\<forall>r. set (occ_get occ r) = fst ` set (src_get vocc r))"

lemma skip_taken_cong: "set cs = set cs' \<Longrightarrow> skip_taken cs c = skip_taken cs' c"
proof (induction cs c rule: skip_taken.induct)
  case (1 cs c)
  then show ?case by (subst (1 2) skip_taken.simps) auto
qed

lemma fst_map_insert: "fst ` set (map_insert k v m) = insert k (fst ` set m)"
  by (induction k v m rule: map_insert.induct) auto

lemma occ_get_extend: "occ_get (occ_extend r cs occ) r' = (if r' = r then occ_get occ r @ cs else occ_get occ r')"
  by (simp add: occ_get_def occ_extend_def)

lemma src_get_insert: "src_get (src_insert r s c occ) r' = (if r' = r then map_insert c s (src_get occ r) else src_get occ r')"
  by (simp add: src_get_def src_insert_def)

lemma fold_src_insert:
  "fst ` set (src_get (fold (src_insert r s) cs occ) r') = (if r' = r then set cs \<union> fst ` set (src_get occ r) else fst ` set (src_get occ r'))"
  by (induction cs arbitrary: occ) (auto simp: src_get_insert fst_map_insert)

lemma same_occ_cell:
  assumes "same_occ occ vocc"
  shows "same_occ (fold (\<lambda>offset. occ_extend (r + offset) cs) ofs occ) (fold (\<lambda>offset. fold (src_insert (r + offset) s) cs) ofs vocc)"
  using assms
proof (induction ofs arbitrary: occ vocc)
  case (Cons f ofs)
  have "same_occ (occ_extend (r + f) cs occ) (fold (src_insert (r + f) s) cs vocc)"
    using Cons.prems by (auto simp: same_occ_def occ_get_extend fold_src_insert)
  then show ?case using Cons.IH by simp
qed simp

lemma same_occ_cells:
  assumes "same_occ occ vocc" "set taken \<subseteq> set (occ_get occ r)"
    "scan_cells r taken cs (occ, c, a, tot) = (occ', c', a', tot')" "source_cells r i cs (vocc, c, vtot) = (vocc', d', vtot')"
  shows "same_occ occ' vocc' \<and> c' = d' \<and> (tot = vtot \<longrightarrow> tot' = vtot')"
  using assms
proof (induction cs arbitrary: occ vocc c a tot vtot i)
  case (Cons cell cs)
  have "set (taken @ occ_get occ r) = set (map fst (src_get vocc r))" using Cons.prems(1,2) by (auto simp: same_occ_def)
  then have k: "skip_taken (taken @ occ_get occ r) c = skip_taken (map fst (src_get vocc r)) c" by (rule skip_taken_cong)
  let ?c = "skip_taken (map fst (src_get vocc r)) c"
  let ?occ = "fold (\<lambda>offset. occ_extend (r + offset) [?c..<?c + pc_colspan cell]) [0..<pc_rowspan cell] occ"
  have "set taken \<subseteq> set (occ_get ?occ r)"
  proof -
    have "set (occ_get occ r) \<subseteq> set (occ_get (fold (\<lambda>offset. occ_extend (r + offset) xs) ofs occ) r)" for xs ofs
      by (induction ofs arbitrary: occ) (fastforce simp: occ_get_extend split: if_splits)+
    then show ?thesis using Cons.prems(2) by blast
  qed
  moreover have "same_occ ?occ (fold (\<lambda>offset. fold (src_insert (r + offset) (int r, i)) [?c..<?c + pc_colspan cell]) [0..<pc_rowspan cell] vocc)"
    by (rule same_occ_cell [OF Cons.prems(1)])
  ultimately show ?case
    using Cons.IH Cons.prems(3,4) k by (simp add: Let_def)
qed simp

lemma width_of_Max: "width_of cs = Max (insert 0 (Suc ` set cs))"
  using Max.set_eq_fold [of 0 "map Suc cs"] by (simp add: width_of_def)

lemma scan_loop_Cons:
  assumes "scan_loop (row # rows) i start occ sc = Ok r"
  obtains parsed occ1 c1 a1 t1 sc1 where "parse_row (raw row) = Ok parsed"
    "scan_cells i (occ_get (occ_extend i [] occ) i) (cells parsed) (occ_extend i [] occ, 0, 0, sc_total sc) = (occ1, c1, a1, t1)"
    "scan_loop rows (i + 1) start occ1 sc1 = Ok r" "sc_effective sc1 = sc_effective sc @ [width_of (occ_get occ1 i)]"
proof -
  obtain parsed where p: "parse_row (raw row) = Ok parsed" using assms by (auto simp: result_simps)
  obtain occ1 c1 a1 t1 where s: "scan_cells i (occ_get (occ_extend i [] occ) i) (cells parsed) (occ_extend i [] occ, 0, 0, sc_total sc) = (occ1, c1, a1, t1)"
    by (metis prod_cases4)
  show ?thesis using that [OF p s] assms p s by (auto simp: Let_def)
qed

lemma scan_loop_appends:
  "scan_loop rows i start occ sc = Ok (occ', sc') \<Longrightarrow> \<exists>ys. sc_effective sc' = sc_effective sc @ ys \<and> length ys = length rows"
proof (induction rows arbitrary: i occ sc)
  case (Cons row rows)
  obtain i' occ1 sc1 y where "scan_loop rows i' start occ1 sc1 = Ok (occ', sc')" "sc_effective sc1 = sc_effective sc @ [y]"
    using Cons.prems by (rule scan_loop_Cons)
  then show ?case using Cons.IH by fastforce
qed simp

lemma scan_loop_sources:
  assumes "same_occ occ vocc" "scan_loop rows i start occ sc = Ok (occ', sc')" "target < length rows"
  shows "\<exists>vocc' vtot'. source_loop (take (Suc target) rows) i vocc vtot = Ok (vocc', vtot') \<and>
    sc_effective sc' ! (length (sc_effective sc) + target) = width_of (map fst (src_get vocc' (i + target)))"
  using assms
proof (induction rows arbitrary: i occ vocc sc vtot target)
  case (Cons row rows)
  let ?occ = "occ_extend i [] occ"
  obtain parsed occ1 c1 a1 t1 sc1 where p: "parse_row (raw row) = Ok parsed"
    and s: "scan_cells i (occ_get ?occ i) (cells parsed) (?occ, 0, 0, sc_total sc) = (occ1, c1, a1, t1)"
    and l: "scan_loop rows (i + 1) start occ1 sc1 = Ok (occ', sc')" "sc_effective sc1 = sc_effective sc @ [width_of (occ_get occ1 i)]"
    using Cons.prems(2) by (rule scan_loop_Cons)
  obtain vocc1 d1 vt1 where v: "source_cells i 0 (cells parsed) (vocc, 0, vtot) = (vocc1, d1, vt1)" by (metis prod_cases3)
  have "same_occ ?occ vocc" using Cons.prems(1) by (auto simp: same_occ_def occ_get_extend)
  then have so: "same_occ occ1 vocc1" using same_occ_cells [OF _ _ s v] by simp
  show ?case
  proof (cases target)
    case 0
    have "width_of (occ_get occ1 i) = width_of (map fst (src_get vocc1 i))"
      using so by (simp add: width_of_Max same_occ_def)
    then show ?thesis using scan_loop_appends [OF l(1)] l(2) p v 0 by (auto simp: nth_append)
  next
    case (Suc t)
    then show ?thesis using Cons.IH [OF so l(1), of t vt1] Cons.prems(3) p v l(2) by simp
  qed
qed simp

lemma same_occ_initial: "same_occ initial (map (\<lambda>(r, cs). (r, fold (\<lambda>c. map_insert c (-1, c)) cs [])) initial)"
proof -
  have f: "fst ` set (fold (\<lambda>c. map_insert c (-1, c)) cs m) = set cs \<union> fst ` set m" for cs :: "nat list" and m :: sources
    by (induction cs arbitrary: m) (auto simp: fst_map_insert)
  have "map_of (map (\<lambda>(r, cs). (r, g cs)) initial) r = map_option g (map_of initial r)" for g :: "nat list \<Rightarrow> sources" and r
    by (induction initial) auto
  then have "src_get (map (\<lambda>(r, cs). (r, fold (\<lambda>c. map_insert c (-1, c)) cs [])) initial) r =
      fold (\<lambda>c. map_insert c (-1, c)) (occ_get initial r) []" for r
    by (cases "map_of initial r") (simp_all add: src_get_def occ_get_def)
  then show ?thesis using f [of _ "[]"] by (simp add: same_occ_def)
qed

text \<open>
  C8: the two computations of a table's columns agree. For rows that \<open>scan_rows\<close> accepts, \<open>visual_sources\<close> accepts
  every row as a target, and the effective width that the scan records for it is the width of the columns that
  have a source there, spans from rows above and from the rows before the table included.
\<close>

theorem scan_sources_agree:
  assumes "scan_rows rows initial start = Ok sc" "target < length rows"
  shows "\<exists>occ tot. visual_sources rows target initial = Ok (occ, tot) \<and> sc_effective sc ! target = width_of (map fst occ)"
proof -
  let ?sc = "\<lparr>sc_effective = [], sc_metrics = [], sc_total = width_of (concat (map snd initial)), last_nonempty = None, sc_tail = []\<rparr>"
  obtain occ' sc' where l: "scan_loop rows 0 start initial ?sc = Ok (occ', sc')" "sc_effective sc = sc_effective sc'"
    using assms(1) by (auto simp: scan_rows_def Let_def result_simps)
  define v :: "(nat \<times> sources) list" where "v = map (\<lambda>(r, cs). (r, fold (\<lambda>c. map_insert c (-1, c)) cs [])) initial"
  obtain vocc' vtot' where v': "source_loop (take (Suc target) rows) 0 v (width_of (concat (map (map fst \<circ> snd) v))) = Ok (vocc', vtot')"
      "sc_effective sc' ! target = width_of (map fst (src_get vocc' target))"
    using scan_loop_sources [OF same_occ_initial [of initial, folded v_def] l(1) assms(2)] by fastforce
  have "visual_sources rows target initial = Ok (src_get vocc' target, vtot')"
    using assms(2) v'(1) unfolding visual_sources_def Let_def v_def [symmetric] by simp
  then show ?thesis using v'(2) l(2) by simp
qed

section \<open>States of a merge\<close>

record TableMergeState =
  document :: TableDocument
  ms_rows :: "TableRow list"
  total_cols :: nat
  front_headers :: "RowSignature list"
  front_metrics :: "RowMetrics list"
  last_data :: "RowMetrics option"
  effective :: "nat list"
  tail :: TailOccupied

fun collect :: "'a opt list \<Rightarrow> 'a list opt" where
  "collect [] = Ok []"
| "collect (x # xs) = and_then x (\<lambda>y. and_then (collect xs) (\<lambda>ys. Ok (y # ys)))"

type_synonym entities = "ustr \<Rightarrow> ustr option"

definition row_signature :: "entities \<Rightarrow> TableRow \<Rightarrow> nat \<Rightarrow> RowSignature opt" where
  "row_signature ent row cols =
     and_then (parse_row (raw row)) (\<lambda>parsed.
     and_then (collect (map (\<lambda>c. and_then (slice_at (raw row) (open_end c) (content_end c)) (tagless_text ent)) (cells parsed))) (\<lambda>texts.
     Ok \<lparr>sig_effective = cols, colspans = map pc_colspan (cells parsed), rowspans = map pc_rowspan (cells parsed),
         normalized_texts = map (\<lambda>t. concat (split_whitespace (full_to_half t))) texts,
         display_texts = map (\<lambda>t. full_to_half (trim t)) texts\<rparr>))"

definition build_front_cache :: "entities \<Rightarrow> TableRow list \<Rightarrow> (RowSignature list \<times> RowMetrics list) opt" where
  "build_front_cache ent rows =
     (let limit = min (length rows) 6 in
      and_then (scan_rows (take limit rows) [] 0) (\<lambda>sc.
      and_then (collect (map (\<lambda>i. and_then (index_at rows i) (\<lambda>row. and_then (index_at (sc_effective sc) i) (row_signature ent row))) [0..<min limit 5])) (\<lambda>headers.
      Ok (headers, sc_metrics sc))))"

definition build_table_state :: "entities \<Rightarrow> ustr \<Rightarrow> TableMergeState opt" where
  "build_table_state ent html =
     and_then (document_parse html) (\<lambda>doc.
     and_then (collect (map (\<lambda>(a, b). and_then (slice_at (source doc) a b) (\<lambda>t. Ok \<lparr>raw = t, deleted = False\<rparr>)) (row_ranges doc))) (\<lambda>rows.
     and_then (scan_rows rows [] 0) (\<lambda>sc.
     and_then (build_front_cache ent rows) (\<lambda>(headers, metrics).
     Ok \<lparr>document = doc, ms_rows = rows, total_cols = sc_total sc, front_headers = headers, front_metrics = metrics,
         last_data = last_nonempty sc, effective = sc_effective sc, tail = sc_tail sc\<rparr>))))"

definition refresh_state :: "entities \<Rightarrow> TableMergeState \<Rightarrow> TableMergeState opt" where
  "refresh_state ent st =
     and_then (scan_rows (ms_rows st) [] 0) (\<lambda>sc.
     and_then (build_front_cache ent (ms_rows st)) (\<lambda>(headers, metrics).
     Ok (st\<lparr>total_cols := sc_total sc, last_data := last_nonempty sc, effective := sc_effective sc, tail := sc_tail sc,
            front_headers := headers, front_metrics := metrics\<rparr>)))"

section \<open>Headers\<close>

text \<open>The loop over pairs of header rows while they match.\<close>

fun match_loop :: "(nat \<Rightarrow> RowSignature \<Rightarrow> RowSignature \<Rightarrow> bool opt) \<Rightarrow> nat \<Rightarrow> (RowSignature \<times> RowSignature) list \<Rightarrow> (nat \<times> ustr list list) opt" where
  "match_loop same index [] = Ok (0, [])"
| "match_loop same index ((l, r) # hs) =
     and_then (same index l r) (\<lambda>b.
     if b then and_then (match_loop same (index + 1) hs) (\<lambda>(n, texts). Ok (n + 1, display_texts l # texts)) else Ok (0, []))"

definition detect_table_headers :: "TableMergeState \<Rightarrow> TableMergeState \<Rightarrow> (nat \<times> ustr list list) opt" where
  "detect_table_headers previous current =
     (let hs = take 5 (zip (front_headers previous) (front_headers current));
          strict = (\<lambda>_ l r. Ok (length (colspans l) = length (colspans r) \<and> sig_effective l = sig_effective r \<and> colspans l = colspans r \<and>
                      rowspans l = rowspans r \<and> normalized_texts l = normalized_texts r));
          visual = (\<lambda>index l r.
                      if normalized_texts l = normalized_texts r then
                        and_then (rendered_segments (ms_rows previous) index []) (\<lambda>a.
                        and_then (rendered_segments (ms_rows current) index []) (\<lambda>b. Ok (a = b)))
                      else Ok False)
      in and_then (match_loop strict 0 hs) (\<lambda>(n, texts).
         if 0 < n then Ok (n, texts) else match_loop visual 0 hs))"

text \<open>\<open>for cell in cells { count = count.max(index + cell.rowspan).min(rows.len()) }\<close>\<close>

definition expand_count :: "nat \<Rightarrow> nat \<Rightarrow> ParsedCell list \<Rightarrow> nat \<Rightarrow> nat" where
  "expand_count len index cs cnt = fold (\<lambda>cell cnt. min (max cnt (index + pc_rowspan cell)) len) cs cnt"

fun expand_loop :: "nat \<Rightarrow> TableRow list \<Rightarrow> nat \<Rightarrow> nat \<Rightarrow> nat opt" where
  "expand_loop len [] index cnt = Ok cnt"
| "expand_loop len (row # rows) index cnt =
     (if index < min cnt len then
        and_then (parse_row (raw row)) (\<lambda>parsed. expand_loop len rows (index + 1) (expand_count len index (cells parsed) cnt))
      else Ok cnt)"

definition expand_header_rowspans :: "TableRow list \<Rightarrow> nat \<Rightarrow> nat opt" where
  "expand_header_rowspans rows cnt = expand_loop (length rows) rows 0 cnt"

definition rows_match :: "TableMergeState \<Rightarrow> TableMergeState \<Rightarrow> bool opt" where
  "rows_match previous current =
     and_then (some (last_data previous)) (\<lambda>l.
     and_then (detect_table_headers previous current) (\<lambda>(header_count, _).
     and_then (expand_header_rowspans (ms_rows current) header_count) (\<lambda>n.
     and_then (some (if n < length (front_metrics current) then Some (front_metrics current ! n) else None)) (\<lambda>f.
     if effective_cols l = effective_cols f \<or> actual_cols l = actual_cols f then Ok True
     else
       and_then (rendered_segments (ms_rows previous) (m_row_idx l) []) (\<lambda>a.
       and_then (rendered_segments (ms_rows current) (m_row_idx f) []) (\<lambda>b. Ok (a = b)))))))"

definition compatible_tables :: "TableMergeState \<Rightarrow> TableMergeState \<Rightarrow> bool opt" where
  "compatible_tables previous current =
     (if total_cols previous = total_cols current then Ok True else rows_match previous current)"

section \<open>Adjusting rows\<close>

fun set_spans :: "TableRow \<Rightarrow> nat \<Rightarrow> nat list \<Rightarrow> TableRow opt" where
  "set_spans row index [] = Ok row"
| "set_spans row index (span # spans) =
     and_then (if 1 < span then set_row_cell_span row index ''colspan'' span else Ok row) (\<lambda>row. set_spans row (index + 1) spans)"

text \<open>The body of the loop of \<open>adjust_colspans\<close> on one row.\<close>

definition adjust_row :: "nat list \<Rightarrow> ParsedCell list \<Rightarrow> ParsedCell list \<Rightarrow> nat \<Rightarrow> nat \<Rightarrow> TableRow \<Rightarrow> TableRow opt" where
  "adjust_row eff reference_cells match_cells target_cols row_idx row =
     and_then (parse_row (raw row)) (\<lambda>parsed.
       (let cs = cells parsed; e = (if row_idx < length eff then eff ! row_idx else 0) in
        if cs = [] \<or> length cs \<noteq> length reference_cells \<or> target_cols \<le> e \<or> target_cols \<le> sum_list (map pc_colspan cs) then Ok row
        else if map pc_colspan cs = map pc_colspan match_cells then set_spans row 0 (map pc_colspan reference_cells)
        else set_row_cell_span row (length cs - 1) ''colspan'' (pc_colspan (last cs) + (target_cols - e))))"

fun adjust_loop :: "nat list \<Rightarrow> ParsedCell list \<Rightarrow> ParsedCell list \<Rightarrow> nat \<Rightarrow> nat \<Rightarrow> nat \<Rightarrow> TableRow list \<Rightarrow> TableRow list opt" where
  "adjust_loop eff rc mc target_cols start row_idx [] = Ok []"
| "adjust_loop eff rc mc target_cols start row_idx (row # rows) =
     and_then (if row_idx < start then Ok row else adjust_row eff rc mc target_cols row_idx row) (\<lambda>row.
     and_then (adjust_loop eff rc mc target_cols start (row_idx + 1) rows) (\<lambda>rows. Ok (row # rows)))"

definition adjust_colspans :: "TableRow list \<Rightarrow> nat \<Rightarrow> nat list \<Rightarrow> TableRow \<Rightarrow> TableRow \<Rightarrow> nat \<Rightarrow> TableRow list opt" where
  "adjust_colspans rows start eff structure_reference match_reference target_cols =
     and_then (parse_row (raw structure_reference)) (\<lambda>r.
     and_then (parse_row (raw match_reference)) (\<lambda>m.
     adjust_loop eff (cells r) (cells m) target_cols start 0 rows))"

definition insert_cell_before_visual_column :: "TableRow list \<Rightarrow> nat \<Rightarrow> nat \<Rightarrow> ustr \<Rightarrow> TableRow list opt" where
  "insert_cell_before_visual_column rows target start_column cell =
     and_then (visual_mapping rows target []) (\<lambda>mapping.
     and_then (index_at rows target) (\<lambda>row.
     and_then (parse_row (raw row)) (\<lambda>parsed.
     and_then (case find_char (\<lambda>column. start_column \<le> column) mapping of
                 Some i \<Rightarrow> and_then (index_at (cells parsed) i) (\<lambda>c. Ok (pc_start c))
               | None \<Rightarrow> Ok (close_start parsed)) (\<lambda>at.
     and_then (insert_at at cell (raw row)) (\<lambda>t. Ok (rows[target := row\<lparr>raw := t\<rparr>]))))))"

fun insert_cells :: "TableRow list \<Rightarrow> (nat \<times> nat \<times> ustr) list \<Rightarrow> TableRow list opt" where
  "insert_cells rows [] = Ok rows"
| "insert_cells rows ((r, column, cell) # moves) =
     and_then (insert_cell_before_visual_column rows r column cell) (\<lambda>rows. insert_cells rows moves)"

text \<open>A cell with its row span reduced to \<open>n\<close> rows.\<close>

definition shorten :: "ustr \<Rightarrow> nat \<Rightarrow> ustr opt" where
  "shorten cell n = (if n = 1 then remove_span cell ''rowspan'' else rewrite_span cell ''rowspan'' n)"

definition carry_blank_rowspans :: "entities \<Rightarrow> TableRow list \<Rightarrow> nat \<Rightarrow> TableRow list opt" where
  "carry_blank_rowspans ent rows row_idx =
     (if length rows \<le> row_idx + 1 then Ok rows
      else
        and_then (index_at rows row_idx) (\<lambda>row.
        and_then (parse_row (raw row)) (\<lambda>parsed.
        and_then (visual_mapping rows row_idx []) (\<lambda>mapping.
        and_then (collect (map (\<lambda>(index, cell).
            if 1 < pc_rowspan cell then
              and_then (cell_has_semantic_content ent row index) (\<lambda>semantic.
              if semantic then Ok []
              else
                and_then (slice_at (raw row) (pc_start cell) (pc_end cell)) (\<lambda>t.
                and_then (shorten t (pc_rowspan cell - 1)) (\<lambda>copied.
                and_then (index_at mapping index) (\<lambda>column. Ok [(row_idx + 1, column, copied)]))))
            else Ok []) (zip [0..<length (cells parsed)] (cells parsed)))) (\<lambda>carried.
        insert_cells rows (rev (concat carried)))))))"

text \<open>The loop that counts how many rows of a cell lie under the spans of the table before.\<close>

fun overlap_count :: "TailOccupied \<Rightarrow> nat \<Rightarrow> nat list \<Rightarrow> nat \<Rightarrow> nat" where
  "overlap_count initial r columns 0 = 0"
| "overlap_count initial r columns (Suc n) =
     (case map_of initial r of
        None \<Rightarrow> 0
      | Some occupied \<Rightarrow> if set columns \<subseteq> set occupied then Suc (overlap_count initial (r + 1) columns n) else 0)"

definition clip_cell :: "entities \<Rightarrow> TableRow list \<Rightarrow> TailOccupied \<Rightarrow> nat \<Rightarrow> TableRow \<Rightarrow> nat list \<Rightarrow> nat \<times> ParsedCell \<Rightarrow>
    ((nat \<times> nat) list \<times> (nat \<times> nat \<times> ustr) list) opt" where
  "clip_cell ent rows initial row_idx row mapping indexed =
     (let (cell_idx, cell) = indexed in
      and_then (if pc_rowspan cell \<le> 1 then Ok True else cell_has_semantic_content ent row cell_idx) (\<lambda>keep.
      if keep then Ok ([], [])
      else
        and_then (index_at mapping cell_idx) (\<lambda>column.
          (let overlap = overlap_count initial row_idx [column..<column + pc_colspan cell] (pc_rowspan cell) in
           if overlap = 0 \<or> overlap < pc_rowspan cell \<and> length rows \<le> row_idx + overlap then Ok ([], [])
           else if overlap < pc_rowspan cell then
             and_then (slice_at (raw row) (pc_start cell) (pc_end cell)) (\<lambda>t.
             and_then (shorten t (pc_rowspan cell - overlap)) (\<lambda>copied.
             Ok ([(row_idx, cell_idx)], [(row_idx + overlap, column, copied)])))
           else Ok ([(row_idx, cell_idx)], [])))))"

definition clip_row :: "entities \<Rightarrow> TableRow list \<Rightarrow> TailOccupied \<Rightarrow> nat \<Rightarrow> ((nat \<times> nat) list \<times> (nat \<times> nat \<times> ustr) list) list opt" where
  "clip_row ent rows initial row_idx =
     and_then (index_at rows row_idx) (\<lambda>row.
     and_then (parse_row (raw row)) (\<lambda>parsed.
     and_then (visual_mapping rows row_idx []) (\<lambda>mapping.
     collect (map (clip_cell ent rows initial row_idx row mapping) (zip [0..<length (cells parsed)] (cells parsed))))))"

fun remove_cells :: "TableRow list \<Rightarrow> (nat \<times> nat) list \<Rightarrow> TableRow list opt" where
  "remove_cells rows [] = Ok rows"
| "remove_cells rows ((r, i) # rest) =
     and_then (index_at rows r) (\<lambda>row.
     and_then (row_cell row i) (\<lambda>c.
     and_then (replace_at (pc_start c) (pc_end c) [] (raw row)) (\<lambda>t.
     remove_cells (rows[r := row\<lparr>raw := t\<rparr>]) rest)))"

text \<open>The result is the changed rows, \<open>None\<close> where the code returns \<open>false\<close>. The sorts are descending.\<close>

definition clip_overlapped_blank_rowspans :: "entities \<Rightarrow> TableRow list \<Rightarrow> TailOccupied \<Rightarrow> TableRow list option opt" where
  "clip_overlapped_blank_rowspans ent rows initial =
     and_then (collect (map (clip_row ent rows initial) [0..<length rows])) (\<lambda>found.
       (let removals = concat (map fst (concat found)); moves = concat (map snd (concat found)) in
        if removals = [] then Ok None
        else
          and_then (remove_cells rows (rev (sort removals))) (\<lambda>rows.
          and_then (insert_cells rows (rev (sort_key (\<lambda>(r, column, _). (r, column)) (rev moves)))) (\<lambda>rows. Ok (Some rows)))))"

section \<open>Merging cells\<close>

text \<open>The cell of every column of a row.\<close>

definition by_column :: "nat list \<Rightarrow> ParsedCell list \<Rightarrow> (nat \<times> nat) list opt" where
  "by_column mapping cs =
     and_then (collect (map (\<lambda>(i, c). and_then (index_at mapping i) (\<lambda>column. Ok (map (\<lambda>k. (k, i)) [column..<column + pc_colspan c])))
       (zip [0..<length cs] cs))) (\<lambda>kis.
     Ok (fold (\<lambda>(k, i). map_insert k i) (concat kis) []))"

definition flag_set :: "Value \<Rightarrow> bool" where
  "flag_set v \<longleftrightarrow> v = JNumber (PosInt 1) \<or> v = JBool True"

fun append_contents :: "TableRow \<Rightarrow> TableRow \<Rightarrow> (nat \<times> nat) list \<Rightarrow> TableRow opt" where
  "append_contents prow crow [] = Ok prow"
| "append_contents prow crow ((l, r) # pairs) =
     and_then (row_cell_content crow r) (\<lambda>t.
     and_then (row_cell_content prow l) (\<lambda>pt.
     and_then (replace_cell_content prow l (pt @ t)) (\<lambda>prow. append_contents prow crow pairs)))"

fun blank_contents :: "TableRow \<Rightarrow> nat list \<Rightarrow> TableRow opt" where
  "blank_contents row [] = Ok row"
| "blank_contents row (i # is) = and_then (replace_cell_content row i []) (\<lambda>row. blank_contents row is)"

text \<open>\<open>any(|index| cell_has_semantic_content(..).unwrap_or(true))\<close>: a failure counts, a panic is one.\<close>

fun any_semantic :: "entities \<Rightarrow> TableRow \<Rightarrow> nat list \<Rightarrow> bool opt" where
  "any_semantic ent row [] = Ok False"
| "any_semantic ent row (i # is) =
     (case cell_has_semantic_content ent row i of
        Ok True \<Rightarrow> Ok True
      | Ok False \<Rightarrow> any_semantic ent row is
      | Err NoValue \<Rightarrow> Ok True
      | Err Panicked \<Rightarrow> Err Panicked)"

definition apply_cell_merge :: "entities \<Rightarrow> TableMergeState \<Rightarrow> TableMergeState \<Rightarrow> nat \<Rightarrow> Value option \<Rightarrow> (TableMergeState \<times> TableMergeState) opt" where
  "apply_cell_merge ent previous current header_count flags =
     (case Option.bind flags as_array of
        None \<Rightarrow> Ok (previous, current)
      | Some flags \<Rightarrow>
          if length (ms_rows current) \<le> header_count \<or> ms_rows previous = [] then Ok (previous, current)
          else
            (let prev_idx = length (ms_rows previous) - 1; prow = ms_rows previous ! prev_idx; crow = ms_rows current ! header_count in
             and_then (parse_row (raw prow)) (\<lambda>pp.
             and_then (parse_row (raw crow)) (\<lambda>cp.
             and_then (visual_mapping (ms_rows previous) prev_idx []) (\<lambda>pm.
             and_then (visual_mapping (drop header_count (ms_rows current)) 0 (tail previous)) (\<lambda>cm.
             and_then (by_column pm (cells pp)) (\<lambda>pcol.
             and_then (by_column cm (cells cp)) (\<lambda>ccol.
               (let pairs = sort (remdups (concat (map (\<lambda>(column, flag).
                      if flag_set flag then
                        (case (map_of pcol column, map_of ccol column) of (Some l, Some r) \<Rightarrow> [(l, r)] | _ \<Rightarrow> [])
                      else []) (zip [0..<length flags] flags))))
                in and_then (append_contents prow crow pairs) (\<lambda>prow.
                   and_then (blank_contents crow (sort (remdups (map snd pairs)))) (\<lambda>crow.
                   and_then (parse_row (raw crow)) (\<lambda>cp.
                   and_then (any_semantic ent crow [0..<length (cells cp)]) (\<lambda>semantic.
                     (let previous = previous\<lparr>ms_rows := (ms_rows previous)[prev_idx := prow]\<rparr>;
                          crows = (ms_rows current)[header_count := crow]
                      in if semantic then Ok (previous, current\<lparr>ms_rows := crows\<rparr>)
                         else
                           and_then (carry_blank_rowspans ent crows header_count) (\<lambda>crows.
                           Ok (previous, current\<lparr>ms_rows := crows[header_count := (crows ! header_count)\<lparr>deleted := True\<rparr>]\<rparr>))))))))))))))))"

section \<open>Merging two tables\<close>

datatype Span =
    SpanText ustr | InlineEquation ustr | InterlineEquation ustr | SpanTable ustr
  | SpanImage "ustr option" | SpanChart "ustr option"

type_synonym ibox = "int \<times> int \<times> int \<times> int"

record Line =
  line_bbox :: ibox
  spans :: "Span list"

record Block =
  block_kind :: ustr
  block_bbox :: ibox
  block_angle :: int
  lines :: "Line list"
  block_index :: nat
  merge_prev :: "bool option"
  block_sub_type :: "ustr option"
  guess_lang :: "ustr option"
  image_path :: "ustr option"
  block_cell_merge :: "Value option"
  cross_page :: bool
  lines_deleted :: bool

datatype Node =
    Leaf Block
  | NodeList Block "Block list"
  | Visual (vis_kind: ustr) (vis_body: Block) (captions: "Block list") (footnotes: "Block list") (vis_sub_type: "ustr option")
      (vis_cell_merge: "Value option") (sub_images: "Value list")
  | Tombstone ustr ibox int nat "ustr option"

text \<open>\<open>body_data\<close>: the last content and the last table of the body; another node panics.\<close>

definition body_data :: "Node \<Rightarrow> (Block \<times> ustr option \<times> ustr option) opt" where
  "body_data node =
     (case node of
        Visual _ body _ _ _ _ _ \<Rightarrow>
          Ok (body,
              fold (\<lambda>s (c, h). case s of SpanTable v \<Rightarrow> (c, Some v) | SpanImage (Some v) \<Rightarrow> (Some v, h) | SpanChart (Some v) \<Rightarrow> (Some v, h)
                 | SpanText v \<Rightarrow> (Some v, h) | _ \<Rightarrow> (c, h)) (concat (map spans (lines body))) (None, None))
      | _ \<Rightarrow> Err Panicked)"

text \<open>\<open>as_f64\<close> of a number is zero only for the texts of zero.\<close>

fun json_truthy :: "Value \<Rightarrow> bool" where
  "json_truthy JNull = False"
| "json_truthy (JBool b) = b"
| "json_truthy (JNumber (PosInt n)) = (n \<noteq> 0)"
| "json_truthy (JNumber (NegInt n)) = (n \<noteq> 0)"
| "json_truthy (JNumber (Float t)) = (t \<noteq> lit ''0.0'' \<and> t \<noteq> lit ''-0.0'')"
| "json_truthy (JString s) = (s \<noteq> [])"
| "json_truthy (JArray vs) = (vs \<noteq> [])"
| "json_truthy (JObject m) = (m \<noteq> [])"

definition box_width :: "ibox \<Rightarrow> int" where
  "box_width b = (case b of (l, _, r, _) \<Rightarrow> r - l)"

text \<open>The adjustment of the narrower table to the wider one.\<close>

definition align_tables :: "entities \<Rightarrow> nat \<Rightarrow> TableMergeState \<Rightarrow> TableMergeState \<Rightarrow> (TableMergeState \<times> TableMergeState) opt" where
  "align_tables ent header_count p c =
     (if header_count < length (ms_rows c) \<and> ms_rows p \<noteq> [] then
        if total_cols c < total_cols p then
          and_then (adjust_colspans (ms_rows c) header_count (effective c) (last (ms_rows p)) (ms_rows c ! header_count) (total_cols p)) (\<lambda>rows.
          Ok (p, c\<lparr>ms_rows := rows\<rparr>))
        else if total_cols p < total_cols c then
          and_then (adjust_colspans (ms_rows p) 0 (effective p) (ms_rows c ! header_count) (last (ms_rows p)) (total_cols c)) (\<lambda>rows.
          and_then (refresh_state ent (p\<lparr>ms_rows := rows\<rparr>)) (\<lambda>p. Ok (p, c)))
        else Ok (p, c)
      else Ok (p, c))"

definition clip_state :: "entities \<Rightarrow> nat \<Rightarrow> TableMergeState \<Rightarrow> TableMergeState \<Rightarrow> TableMergeState opt" where
  "clip_state ent header_count p c =
     (if header_count < length (ms_rows c) then
        and_then (clip_overlapped_blank_rowspans ent (drop header_count (ms_rows c)) (tail p)) (\<lambda>clipped.
        case clipped of
          None \<Rightarrow> Ok c
        | Some rows \<Rightarrow> refresh_state ent (c\<lparr>ms_rows := take header_count (ms_rows c) @ rows\<rparr>))
      else Ok c)"

definition merged_table_html :: "entities \<Rightarrow> Node \<Rightarrow> Node \<Rightarrow> ustr opt" where
  "merged_table_html ent previous current =
     and_then (body_data previous) (\<lambda>(pbody, _, phtml).
     and_then (body_data current) (\<lambda>(cbody, _, chtml).
       (let pw = box_width (block_bbox pbody); cw = box_width (block_bbox cbody) in
        if pw \<le> 0 \<or> cw \<le> 0 \<or> min pw cw \<le> \<bar>pw - cw\<bar> * 10 then Err NoValue
        else
          and_then (some phtml) (\<lambda>ph.
          and_then (build_table_state ent ph) (\<lambda>p.
          and_then (some chtml) (\<lambda>ch.
          and_then (build_table_state ent ch) (\<lambda>c.
          and_then (compatible_tables p c) (\<lambda>compatible.
          if \<not> compatible then Err NoValue
          else
            and_then (detect_table_headers p c) (\<lambda>(headers, _).
            and_then (expand_header_rowspans (ms_rows c) headers) (\<lambda>header_count.
            and_then (clip_state ent header_count p c) (\<lambda>c.
            and_then (align_tables ent header_count p c) (\<lambda>(p, c).
            and_then (apply_cell_merge ent p c header_count (opt_filter json_truthy (vis_cell_merge current))) (\<lambda>(p, c).
            and_then (refresh_state ent (p\<lparr>ms_rows := ms_rows p @ filter (\<lambda>row. \<not> deleted row) (drop header_count (ms_rows c))\<rparr>)) (\<lambda>p.
            serialize (document p) (ms_rows p)))))))))))))))"

section \<open>Headers with spans\<close>

lemma expand_count_bounds:
  assumes "c \<le> len"
  shows "c \<le> expand_count len index cs c" "expand_count len index cs c \<le> len"
    "cell \<in> set cs \<Longrightarrow> min (index + pc_rowspan cell) len \<le> expand_count len index cs c"
proof -
  have "c \<le> expand_count len index cs c \<and> expand_count len index cs c \<le> len \<and>
      (\<forall>cell \<in> set cs. min (index + pc_rowspan cell) len \<le> expand_count len index cs c)"
    using assms
  proof (induction cs arbitrary: c)
    case (Cons x cs)
    let ?c = "min (max c (index + pc_rowspan x)) len"
    have a: "c \<le> ?c" "?c \<le> len" "min (index + pc_rowspan x) len \<le> ?c" using Cons.prems by auto
    have e: "expand_count len index (x # cs) c = expand_count len index cs ?c" by (simp add: expand_count_def)
    note IH = Cons.IH [OF a(2)]
    have "c \<le> expand_count len index cs ?c" "min (index + pc_rowspan x) len \<le> expand_count len index cs ?c"
      using le_trans [OF a(1)] le_trans [OF a(3)] IH by blast+
    then show ?case unfolding e using IH by (metis set_ConsD)
  qed (simp add: expand_count_def)
  then show "c \<le> expand_count len index cs c" "expand_count len index cs c \<le> len"
    "cell \<in> set cs \<Longrightarrow> min (index + pc_rowspan cell) len \<le> expand_count len index cs c" by auto
qed

lemma expand_loop_closed:
  assumes "expand_loop len rows index c = Ok m" "len = index + length rows" "c \<le> len"
  shows "c \<le> m \<and> m \<le> len \<and> (\<forall>k. k < length rows \<and> index + k < m \<longrightarrow>
    (\<exists>p. parse_row (raw (rows ! k)) = Ok p \<and> (\<forall>cell \<in> set (cells p). min (index + k + pc_rowspan cell) len \<le> m)))"
  using assms
proof (induction rows arbitrary: index c)
  case (Cons row rows)
  show ?case
  proof (cases "index < min c len")
    case False
    then show ?thesis using Cons.prems by auto
  next
    case True
    obtain p where p: "parse_row (raw row) = Ok p" "expand_loop len rows (index + 1) (expand_count len index (cells p) c) = Ok m"
      using Cons.prems(1) True by (auto simp: result_simps)
    note b = expand_count_bounds [OF Cons.prems(3), where index = index and cs = "cells p"]
    have IH: "expand_count len index (cells p) c \<le> m" "m \<le> len"
      "\<And>k. k < length rows \<Longrightarrow> index + 1 + k < m \<Longrightarrow>
        \<exists>p. parse_row (raw (rows ! k)) = Ok p \<and> (\<forall>cell \<in> set (cells p). min (index + 1 + k + pc_rowspan cell) len \<le> m)"
      using Cons.IH [OF p(2) _ b(2)] Cons.prems(2) by auto
    have "\<exists>p. parse_row (raw ((row # rows) ! k)) = Ok p \<and> (\<forall>cell \<in> set (cells p). min (index + k + pc_rowspan cell) len \<le> m)"
      if k: "k < length (row # rows)" "index + k < m" for k
    proof (cases k)
      case 0
      then show ?thesis using p(1) b(3) IH(1) le_trans by (auto intro!: exI [of _ p]) (meson le_trans)+
    next
      case (Suc j)
      then show ?thesis using IH(3) [of j] k by simp
    qed
    then show ?thesis using IH(1,2) b(1) le_trans by blast
  qed
qed simp

text \<open>
  No header cell reaches into the body. The number of header rows that \<open>expand_header_rowspans\<close> returns is at
  least the number it was given, within the table, and every cell of a header row ends within the header, the
  cells of the rows that were added included.
\<close>

theorem expand_header_rowspans_closed:
  assumes "expand_header_rowspans rows n = Ok m" "n \<le> length rows"
  shows "n \<le> m \<and> m \<le> length rows \<and> (\<forall>k < m. \<exists>p. parse_row (raw (rows ! k)) = Ok p \<and>
    (\<forall>cell \<in> set (cells p). min (k + pc_rowspan cell) (length rows) \<le> m))"
  using expand_loop_closed [OF assms(1) [unfolded expand_header_rowspans_def]] assms(2) by auto

section \<open>Tables of the same width\<close>

lemma refresh_state_keeps: "refresh_state ent st = Ok st' \<Longrightarrow> document st' = document st \<and> ms_rows st' = ms_rows st"
  by (auto simp: refresh_state_def result_simps split: prod.splits)

lemma collect_Ok: "collect (map f xs) = Ok ys \<longleftrightarrow> length ys = length xs \<and> (\<forall>i < length xs. f (xs ! i) = Ok (ys ! i))"
proof (induction xs arbitrary: ys)
  case (Cons x xs)
  show ?case
  proof (cases ys)
    case Nil
    then show ?thesis by (auto simp: result_simps)
  next
    case (Cons y ys')
    then show ?thesis using Cons.IH [of ys'] by (auto simp: result_simps less_Suc_eq_0_disj)
  qed
qed auto

lemma build_table_state_rows:
  assumes "build_table_state ent html = Ok st"
  shows "document_parse html = Ok (document st)" "ms_rows st = doc_rows (document st)"
proof -
  obtain doc rows where d: "document_parse html = Ok doc"
      "collect (map (\<lambda>(a, b). and_then (slice_at (source doc) a b) (\<lambda>t. Ok \<lparr>raw = t, deleted = False\<rparr>)) (row_ranges doc)) = Ok rows"
      "document st = doc" "ms_rows st = rows"
    using assms by (auto simp: build_table_state_def result_simps split: prod.splits)
  show "document_parse html = Ok (document st)" using d by simp
  have "rows = doc_rows doc"
  proof (rule nth_equalityI)
    show "length rows = length (doc_rows doc)" using d(2) by (simp add: collect_Ok doc_rows_def)
    fix i assume "i < length rows"
    then have i: "i < length (row_ranges doc)" using d(2) by (simp add: collect_Ok)
    obtain a b where ab: "row_ranges doc ! i = (a, b)" by force
    have "and_then (slice_at (source doc) a b) (\<lambda>t. Ok \<lparr>raw = t, deleted = False\<rparr>) = Ok (rows ! i)"
      using d(2) i ab unfolding collect_Ok by fastforce
    then show "rows ! i = doc_rows doc ! i" using i ab by (auto simp: result_simps slice_at_def doc_rows_def split: if_splits)
  qed
  then show "ms_rows st = doc_rows (document st)" using d by simp
qed

section \<open>When the steps of a merge succeed\<close>

definition parses :: "TableRow \<Rightarrow> bool" where
  "parses row \<longleftrightarrow> is_ok (parse_row (raw row))"

lemma scan_loop_ok: "is_ok (scan_loop rows i start occ sc) \<longleftrightarrow> list_all parses rows"
proof (induction rows arbitrary: i occ sc)
  case (Cons row rows)
  then show ?case by (cases "parse_row (raw row)") (auto simp: parses_def Let_def split: prod.splits)
qed simp

lemma scan_rows_ok: "is_ok (scan_rows rows initial start) \<longleftrightarrow> list_all parses rows"
proof -
  have "is_ok (scan_rows rows initial start) \<longleftrightarrow>
      is_ok (scan_loop rows 0 start initial \<lparr>sc_effective = [], sc_metrics = [], sc_total = width_of (concat (map snd initial)), last_nonempty = None, sc_tail = []\<rparr>)"
    by (auto simp: scan_rows_def Let_def is_ok_iff result_simps)
  then show ?thesis by (simp add: scan_loop_ok)
qed

lemma scan_rows_length:
  assumes "scan_rows rows initial start = Ok sc"
  shows "length (sc_effective sc) = length rows"
proof -
  obtain occ sc' where "scan_loop rows 0 start initial \<lparr>sc_effective = [], sc_metrics = [], sc_total = width_of (concat (map snd initial)), last_nonempty = None, sc_tail = []\<rparr> = Ok (occ, sc')"
      "sc_effective sc = sc_effective sc'"
    using assms by (auto simp: scan_rows_def Let_def result_simps)
  then show ?thesis using scan_loop_appends by fastforce
qed

lemma source_loop_ok: "is_ok (source_loop rows i occ tot) \<longleftrightarrow> list_all parses rows"
proof (induction rows arbitrary: i occ tot)
  case (Cons row rows)
  then show ?case by (cases "parse_row (raw row)") (auto simp: parses_def Let_def split: prod.splits)
qed simp

lemma visual_sources_ok:
  assumes "list_all parses rows" "target < length rows"
  shows "is_ok (visual_sources rows target initial)"
proof -
  define occ :: "(nat \<times> sources) list" where "occ = map (\<lambda>(r, cs). (r, fold (\<lambda>c. map_insert c (-1, c)) cs [])) initial"
  define tot where "tot = width_of (concat (map (map fst \<circ> snd) occ))"
  have "is_ok (source_loop (take (Suc target) rows) 0 occ tot)"
    using assms(1) by (auto simp: source_loop_ok list_all_iff dest: in_set_takeD)
  then obtain occ' tot' where "source_loop (take (Suc target) rows) 0 occ tot = Ok (occ', tot')" by (auto simp: is_ok_iff)
  then show ?thesis using assms(2) unfolding visual_sources_def Let_def occ_def [symmetric] tot_def [symmetric] by simp
qed

lemma rendered_segments_ok: "list_all parses rows \<Longrightarrow> target < length rows \<Longrightarrow> is_ok (rendered_segments rows target initial)"
  using visual_sources_ok [of rows target initial] by (auto simp: rendered_segments_def is_ok_iff)

lemma length_mapping_loop [simp]: "length (mapping_loop occ target cs column) = length cs"
  by (induction cs arbitrary: column) (auto simp: Let_def)

lemma visual_mapping_ok:
  assumes "list_all parses rows" "target < length rows"
  obtains p mapping where "parse_row (raw (rows ! target)) = Ok p" "visual_mapping rows target initial = Ok mapping" "length mapping = length (cells p)"
proof -
  obtain occ tot where "visual_sources rows target initial = Ok (occ, tot)" using visual_sources_ok [OF assms, of initial] by (auto simp: is_ok_iff)
  moreover obtain p where "parse_row (raw (rows ! target)) = Ok p" using assms by (auto simp: list_all_length parses_def is_ok_iff)
  ultimately show ?thesis using that assms(2) by (simp add: visual_mapping_def index_at_def)
qed

lemma collect_ok: "is_ok (collect xs) \<longleftrightarrow> list_all is_ok xs"
proof (induction xs)
  case (Cons x xs)
  then show ?case by (cases x; cases "collect xs") auto
qed simp

lemma expand_loop_ok: "list_all parses rows \<Longrightarrow> is_ok (expand_loop len rows i cnt)"
  by (induction rows arbitrary: i cnt) (auto simp: parses_def is_ok_iff)

lemma row_signature_parses: "is_ok (row_signature ent row k) \<Longrightarrow> parses row"
  by (auto simp: row_signature_def parses_def is_ok_iff result_simps)

lemma row_signature_width: "row_signature ent row k = Ok s \<Longrightarrow> row_signature ent row k' = Ok (s\<lparr>sig_effective := k'\<rparr>)"
  by (auto simp: row_signature_def result_simps)

lemma row_signature_effective: "row_signature ent row k = Ok s \<Longrightarrow> sig_effective s = k"
  by (auto simp: row_signature_def result_simps)

lemma front_cache_iff:
  "is_ok (build_front_cache ent rows) \<longleftrightarrow> list_all parses (take 6 rows) \<and> list_all (\<lambda>row. is_ok (row_signature ent row 0)) (take 5 rows)"
proof (cases "scan_rows (take (min (length rows) 6) rows) [] 0")
  case (Ok sc)
  define rd where "rd = (\<lambda>row. is_ok (row_signature ent row 0))"
  have w: "is_ok (row_signature ent row k) \<longleftrightarrow> rd row" for row k
    unfolding rd_def is_ok_iff using row_signature_width by blast
  have l: "length (sc_effective sc) = min (length rows) 6" using scan_rows_length [OF Ok] by simp
  have "is_ok (build_front_cache ent rows) \<longleftrightarrow>
      list_all is_ok (map (\<lambda>i. and_then (index_at rows i) (\<lambda>row. and_then (index_at (sc_effective sc) i) (row_signature ent row))) [0..<min (min (length rows) 6) 5])"
    using Ok by (auto simp: build_front_cache_def Let_def collect_ok [symmetric] is_ok_iff result_simps)
  also have "\<dots> \<longleftrightarrow> list_all rd (take 5 rows)"
    using l by (auto simp: list_all_length index_at_def w)
  finally show ?thesis using scan_rows_ok [of "take (min (length rows) 6) rows" "[]" 0] Ok by (simp add: rd_def min_def split: if_splits)
next
  case (Err e)
  then show ?thesis using scan_rows_ok [of "take (min (length rows) 6) rows" "[]" 0]
    by (simp add: build_front_cache_def Let_def min_def split: if_splits)
qed

lemma front_cache_rows:
  assumes "build_front_cache ent rows = Ok (hs, ms)"
  shows "length hs = min (length rows) 5" "k < length hs \<Longrightarrow> row_signature ent (rows ! k) 0 = Ok ((hs ! k)\<lparr>sig_effective := 0\<rparr>)"
proof -
  obtain sc :: RowScan where c: "collect (map (\<lambda>i. and_then (index_at rows i) (\<lambda>row. and_then (index_at (sc_effective sc) i) (row_signature ent row))) [0..<min (min (length rows) 6) 5]) = Ok hs"
    using assms by (auto simp: build_front_cache_def Let_def result_simps)
  then show l: "length hs = min (length rows) 5" by (simp add: collect_Ok)
  assume k: "k < length hs"
  then have "and_then (index_at rows k) (\<lambda>row. and_then (index_at (sc_effective sc) k) (row_signature ent row)) = Ok (hs ! k)"
    using c unfolding collect_Ok by auto
  then show "row_signature ent (rows ! k) 0 = Ok ((hs ! k)\<lparr>sig_effective := 0\<rparr>)"
    using k l row_signature_width by (auto simp: result_simps index_at_def split: if_splits)
qed

lemma front_cache_width:
  assumes "build_front_cache ent rows = Ok (hs, ms)"
  shows "\<exists>sc. scan_rows (take 6 rows) [] 0 = Ok sc \<and> (\<forall>k < length hs. sig_effective (hs ! k) = sc_effective sc ! k)"
proof -
  obtain sc :: RowScan where s: "scan_rows (take (min (length rows) 6) rows) [] 0 = Ok sc"
    "collect (map (\<lambda>i. and_then (index_at rows i) (\<lambda>row. and_then (index_at (sc_effective sc) i) (row_signature ent row))) [0..<min (min (length rows) 6) 5]) = Ok hs"
    using assms by (auto simp: build_front_cache_def Let_def result_simps)
  have "sig_effective (hs ! k) = sc_effective sc ! k" if "k < length hs" for k
  proof -
    have "and_then (index_at rows k) (\<lambda>row. and_then (index_at (sc_effective sc) k) (row_signature ent row)) = Ok (hs ! k)"
      using s(2) that unfolding collect_Ok by auto
    then have "row_signature ent (rows ! k) (sc_effective sc ! k) = Ok (hs ! k)" by (auto simp: result_simps index_at_def split: if_splits)
    then show ?thesis by (rule row_signature_effective)
  qed
  moreover have "take (min (length rows) 6) rows = take 6 rows" by (simp add: min_def)
  ultimately show ?thesis using s(1) by auto
qed

lemma refresh_ok: "is_ok (refresh_state ent st) \<longleftrightarrow> list_all parses (ms_rows st) \<and> is_ok (build_front_cache ent (ms_rows st))"
  using scan_rows_ok [of "ms_rows st" "[]" 0]
  by (cases "build_front_cache ent (ms_rows st)"; cases "scan_rows (ms_rows st) [] 0") (auto simp: refresh_state_def split: prod.splits)


section \<open>Which rows a merge leaves out\<close>

lemma match_loop_count:
  assumes "match_loop same i hs = Ok (n, texts)"
  shows "n \<le> length hs" "k < n \<Longrightarrow> same (i + k) (fst (hs ! k)) (snd (hs ! k)) = Ok True"
    "n < length hs \<Longrightarrow> same (i + n) (fst (hs ! n)) (snd (hs ! n)) = Ok False"
proof -
  have "n \<le> length hs \<and> (\<forall>k < n. same (i + k) (fst (hs ! k)) (snd (hs ! k)) = Ok True) \<and>
      (n < length hs \<longrightarrow> same (i + n) (fst (hs ! n)) (snd (hs ! n)) = Ok False)"
    using assms
  proof (induction same i hs arbitrary: n texts rule: match_loop.induct)
    case (2 same i l r hs)
    obtain b where b: "same i l r = Ok b" using "2.prems" by (auto simp: result_simps)
    show ?case
    proof (cases b)
      case True
      then obtain m ts where m: "match_loop same (i + 1) hs = Ok (m, ts)" "n = Suc m" using "2.prems" b by (auto simp: result_simps)
      then show ?thesis using "2.IH" [OF b True m(1)] b True by (auto simp: less_Suc_eq_0_disj)
    next
      case False
      then show ?thesis using "2.prems" b by simp
    qed
  qed simp
  then show "n \<le> length hs" "k < n \<Longrightarrow> same (i + k) (fst (hs ! k)) (snd (hs ! k)) = Ok True"
    "n < length hs \<Longrightarrow> same (i + n) (fst (hs ! n)) (snd (hs ! n)) = Ok False" by auto
qed

lemma match_loop_ok:
  "(\<And>k. k < length hs \<Longrightarrow> is_ok (same (i + k) (fst (hs ! k)) (snd (hs ! k)))) \<Longrightarrow> is_ok (match_loop same i hs)"
proof (induction same i hs rule: match_loop.induct)
  case (2 same i l r hs)
  obtain b where b: "same i l r = Ok b" using "2.prems" [of 0] by (auto simp: is_ok_iff)
  have "b \<Longrightarrow> is_ok (match_loop same (i + 1) hs)" using "2.prems" [of "Suc _"] by (intro "2.IH" [OF b]) auto
  then show ?case using b by (auto simp: is_ok_iff)
qed simp

text \<open>Rows of the same widths, spans and texts.\<close>

definition same_header :: "RowSignature \<Rightarrow> RowSignature \<Rightarrow> bool" where
  "same_header l r \<longleftrightarrow> sig_effective l = sig_effective r \<and> colspans l = colspans r \<and> rowspans l = rowspans r \<and> normalized_texts l = normalized_texts r"

text \<open>The number of header rows: rows of the same texts, and all rows from the first on that agree altogether.\<close>

definition header_signatures :: "RowSignature list \<Rightarrow> RowSignature list \<Rightarrow> nat \<Rightarrow> bool" where
  "header_signatures ps cs h \<longleftrightarrow>
     h \<le> length ps \<and> h \<le> length cs \<and> (\<forall>k < h. normalized_texts (ps ! k) = normalized_texts (cs ! k)) \<and>
     (\<forall>k. k < length ps \<and> k < length cs \<and> (\<forall>j \<le> k. same_header (ps ! j) (cs ! j)) \<longrightarrow> k < h)"

lemma detect_headers_spec:
  assumes "list_all parses (ms_rows p)" "list_all parses (ms_rows c)"
    and len: "length (front_headers p) = min (length (ms_rows p)) 5" "length (front_headers c) = min (length (ms_rows c)) 5"
  obtains h texts where "detect_table_headers p c = Ok (h, texts)" "header_signatures (front_headers p) (front_headers c) h"
proof -
  define hs where "hs = take 5 (zip (front_headers p) (front_headers c))"
  define strict :: "nat \<Rightarrow> RowSignature \<Rightarrow> RowSignature \<Rightarrow> bool opt" where "strict = (\<lambda>_ l r. Ok (length (colspans l) = length (colspans r) \<and> sig_effective l = sig_effective r \<and> colspans l = colspans r \<and>
                      rowspans l = rowspans r \<and> normalized_texts l = normalized_texts r))"
  define visual :: "nat \<Rightarrow> RowSignature \<Rightarrow> RowSignature \<Rightarrow> bool opt" where "visual = (\<lambda>index l r.
                      if normalized_texts l = normalized_texts r then
                        and_then (rendered_segments (ms_rows p) index []) (\<lambda>a.
                        and_then (rendered_segments (ms_rows c) index []) (\<lambda>b. Ok (a = b)))
                      else Ok False)"
  have d: "detect_table_headers p c = and_then (match_loop strict 0 hs) (\<lambda>(n, texts). if 0 < n then Ok (n, texts) else match_loop visual 0 hs)"
    unfolding detect_table_headers_def hs_def strict_def visual_def Let_def by (rule refl)
  have h: "length hs = min (length (front_headers p)) (length (front_headers c))"
      "k < length hs \<Longrightarrow> hs ! k = (front_headers p ! k, front_headers c ! k)" for k
    using len by (auto simp: hs_def)
  have st: "strict i l r = Ok (same_header l r)" for i l r by (auto simp: strict_def same_header_def)
  obtain n ts where n: "match_loop strict 0 hs = Ok (n, ts)" using match_loop_ok [of hs strict 0] st by (auto simp: is_ok_iff)
  note m = match_loop_count [OF n]
  have "is_ok (visual k l r)" if "k < length hs" for k l r
    using that rendered_segments_ok [OF assms(1), of k "[]"] rendered_segments_ok [OF assms(2), of k "[]"] h(1) len
    by (auto simp: visual_def is_ok_iff)
  then obtain v vs where v: "match_loop visual 0 hs = Ok (v, vs)" using match_loop_ok [of hs visual 0] by (auto simp: is_ok_iff)
  note mv = match_loop_count [OF v]
  show ?thesis
  proof (cases "n = 0")
    case True
    have "normalized_texts (front_headers p ! k) = normalized_texts (front_headers c ! k)" if "k < v" for k
      using mv(1) mv(2) [of k] that h(2) [of k] by (auto simp: visual_def split: if_splits)
    moreover have "\<not> (\<forall>j \<le> k. same_header (front_headers p ! j) (front_headers c ! j))" if "k < length hs" for k
      using m(3) that h(2) [of 0] True by (cases "length hs = 0") (auto simp: st)
    ultimately have "header_signatures (front_headers p) (front_headers c) v"
      using mv(1) h(1) unfolding header_signatures_def by auto
    then show ?thesis using that d n v True by simp
  next
    case False
    have "same_header (front_headers p ! k) (front_headers c ! k)" if "k < n" for k
      using m(1) m(2) [of k] that h(2) [of k] by (simp add: st)
    then have "\<forall>k < n. normalized_texts (front_headers p ! k) = normalized_texts (front_headers c ! k)" by (simp add: same_header_def)
    moreover have "\<not> same_header (front_headers p ! n) (front_headers c ! n)" if "n < length hs"
      using m(3) that h(2) [of n] by (simp add: st)
    then have "k < n" if "k < length hs" "\<forall>j \<le> k. same_header (front_headers p ! j) (front_headers c ! j)" for k
      using that by (meson leI le_less_trans)
    ultimately have "header_signatures (front_headers p) (front_headers c) n"
      using m(1) unfolding header_signatures_def h(1) min_less_iff_conj min.bounded_iff by blast
    then show ?thesis using that d n False by simp
  qed
qed

text \<open>A row is added to the header only when a cell of a row above reaches into it.\<close>

definition reached :: "TableRow list \<Rightarrow> nat \<Rightarrow> bool" where
  "reached rows j \<longleftrightarrow> (\<exists>k < j. \<exists>p. parse_row (raw (rows ! k)) = Ok p \<and> (\<exists>cell \<in> set (cells p). j < k + pc_rowspan cell))"

lemma expand_count_source:
  "j < expand_count len index cs c \<Longrightarrow> c \<le> j \<Longrightarrow> \<exists>cell \<in> set cs. j < index + pc_rowspan cell"
proof (induction cs arbitrary: c)
  case (Cons x cs)
  have "j < expand_count len index cs (min (max c (index + pc_rowspan x)) len)" using Cons.prems(1) by (simp add: expand_count_def)
  then show ?case using Cons.IH [of "min (max c (index + pc_rowspan x)) len"] Cons.prems(2)
    by (cases "j < index + pc_rowspan x") auto
qed (simp add: expand_count_def)

lemma expand_loop_reached:
  assumes "expand_loop len (drop i rows) i c = Ok m" "c \<le> j" "j < m" "i \<le> length rows"
  shows "\<exists>k p. i \<le> k \<and> k < j \<and> k < length rows \<and> parse_row (raw (rows ! k)) = Ok p \<and> (\<exists>cell \<in> set (cells p). j < k + pc_rowspan cell)"
  using assms
proof (induction "drop i rows" arbitrary: i c)
  case Nil
  then show ?case by simp
next
  case (Cons row rest)
  have i: "i < length rows" using Cons.hyps(2) by (metis drop_all leI list.discI)
  then have d: "row = rows ! i" "rest = drop (Suc i) rows" using Cons.hyps(2) by (metis Cons_nth_drop_Suc list.inject)+
  have "expand_loop len (row # rest) i c = Ok m" using Cons.prems(1) Cons.hyps(2) by simp
  then obtain p where p: "i < c" "parse_row (raw (rows ! i)) = Ok p" "expand_loop len (drop (Suc i) rows) (Suc i) (expand_count len i (cells p) c) = Ok m"
    using Cons.prems(2,3) by (auto simp: d result_simps split: if_splits)
  show ?case
  proof (cases "j < expand_count len i (cells p) c")
    case True
    then show ?thesis using expand_count_source [OF True Cons.prems(2)] p i Cons.prems(2) by (intro exI [of _ i] exI [of _ p]) auto
  next
    case False
    then show ?thesis using Cons.hyps(1) [OF d(2) p(3)] Cons.prems(3) i by (meson Suc_leD Suc_leI leI)
  qed
qed

text \<open>Rows whose cells have texts that can be decoded.\<close>

definition readable :: "entities \<Rightarrow> TableRow \<Rightarrow> bool" where
  "readable ent row \<longleftrightarrow> is_ok (row_signature ent row 0) \<and>
     (\<forall>p. parse_row (raw row) = Ok p \<longrightarrow> (\<forall>i < length (cells p). is_ok (cell_has_semantic_content ent row i)))"

lemma readable_rows: "list_all (readable ent) rows \<Longrightarrow> list_all (\<lambda>row. parses row \<and> is_ok (row_signature ent row 0)) rows"
  using row_signature_parses by (auto simp: list_all_iff readable_def)

lemma clip_free:
  assumes "list_all (readable ent) rows" "initial = []"
  shows "clip_overlapped_blank_rowspans ent rows initial = Ok None"
proof -
  have ps: "list_all parses rows" using assms(1) by (auto simp: list_all_iff readable_def dest: row_signature_parses)
  have clips: "\<exists>found. clip_row ent rows initial i = Ok found \<and> set found \<subseteq> {([], [])}" if i: "i < length rows" for i
  proof -
    obtain p mapping where p: "parse_row (raw (rows ! i)) = Ok p" "visual_mapping rows i [] = Ok mapping" "length mapping = length (cells p)"
      using visual_mapping_ok [OF ps i] by blast
    have "clip_cell ent rows initial i (rows ! i) mapping (k, cell) = Ok ([], [])" if k: "k < length (cells p)" for k cell
    proof -
      have "is_ok (cell_has_semantic_content ent (rows ! i) k)" using assms(1) i p(1) k by (auto simp: list_all_length readable_def)
      moreover have "overlap_count initial r cs m = 0" for r cs m using assms(2) by (cases m) auto
      ultimately show ?thesis using k p(3) by (auto simp: clip_cell_def is_ok_iff index_at_def)
    qed
    then have "map (clip_cell ent rows initial i (rows ! i) mapping) (zip [0..<length (cells p)] (cells p)) = map (\<lambda>_. Ok ([], [])) (zip [0..<length (cells p)] (cells p))"
      by (auto simp: set_zip)
    moreover have "collect (map (\<lambda>_. Ok ([], [])) xs) = Ok (map (\<lambda>_. ([], [])) xs)" for xs :: "(nat \<times> ParsedCell) list" by (induction xs) auto
    ultimately have "clip_row ent rows initial i = Ok (map (\<lambda>_. ([], [])) (zip [0..<length (cells p)] (cells p)))"
      using i p(1,2) by (simp only: clip_row_def index_at_def if_True and_then.simps)
    then show ?thesis by auto
  qed
  have "list_all is_ok (map (clip_row ent rows initial) [0..<length rows])" using clips by (force simp: list_all_length is_ok_iff)
  then obtain found where f: "collect (map (clip_row ent rows initial) [0..<length rows]) = Ok found" by (auto simp: collect_ok [symmetric] is_ok_iff)
  have "set (found ! i) \<subseteq> {([], [])}" if "i < length found" for i using that f clips [of i] unfolding collect_Ok by auto
  then have "concat (map fst (concat found)) = []" by (fastforce simp: in_set_conv_nth)
  then show ?thesis using f by (simp add: clip_overlapped_blank_rowspans_def)
qed

text \<open>The same on rows: the effective width of a row depends on the spans of the rows up to it only.\<close>

definition same_texts :: "entities \<Rightarrow> TableRow \<Rightarrow> TableRow \<Rightarrow> bool" where
  "same_texts ent r r' \<longleftrightarrow>
     (case (row_signature ent r 0, row_signature ent r' 0) of (Ok s, Ok s') \<Rightarrow> normalized_texts s = normalized_texts s' | _ \<Rightarrow> False)"

definition same_row :: "entities \<Rightarrow> TableRow \<Rightarrow> TableRow \<Rightarrow> bool" where
  "same_row ent r r' \<longleftrightarrow>
     (case (row_signature ent r 0, row_signature ent r' 0) of (Ok s, Ok s') \<Rightarrow> same_header s s' | _ \<Rightarrow> False)"

definition header_rows :: "entities \<Rightarrow> TableRow list \<Rightarrow> TableRow list \<Rightarrow> nat \<Rightarrow> bool" where
  "header_rows ent ps cs h \<longleftrightarrow>
     h \<le> 5 \<and> h \<le> length ps \<and> h \<le> length cs \<and> (\<forall>k < h. same_texts ent (ps ! k) (cs ! k)) \<and>
     (\<forall>k < 5. k < length ps \<and> k < length cs \<and> (\<forall>j \<le> k. same_row ent (ps ! j) (cs ! j)) \<longrightarrow> k < h)"

definition row_spans :: "ParsedCell list \<Rightarrow> (nat \<times> nat) list" where
  "row_spans cs = map (\<lambda>c. (pc_colspan c, pc_rowspan c)) cs"

lemma scan_cells_spans:
  "row_spans cs = row_spans cs' \<Longrightarrow> fst (scan_cells r o0 cs (occ, column, a, t)) = fst (scan_cells r o0 cs' (occ, column, a', t'))"
proof (induction cs arbitrary: cs' occ column a t a' t')
  case (Cons c cs)
  then obtain d ds where d: "cs' = d # ds" "pc_colspan c = pc_colspan d" "pc_rowspan c = pc_rowspan d" "row_spans cs = row_spans ds"
    by (cases cs') (auto simp: row_spans_def)
  show ?case unfolding d(1) scan_cells.simps Let_def d(2,3) by (rule Cons.IH [OF d(4)])
qed (simp add: row_spans_def)

lemma scan_loop_spans:
  assumes "scan_loop rows i start occ sc = Ok (occ1, sc1)" "scan_loop rows' i start' occ sc' = Ok (occ2, sc2)"
    and "k < length rows" "k < length rows'" "length (sc_effective sc) = length (sc_effective sc')"
    and "\<And>j p q. j \<le> k \<Longrightarrow> parse_row (raw (rows ! j)) = Ok p \<Longrightarrow> parse_row (raw (rows' ! j)) = Ok q \<Longrightarrow> row_spans (cells p) = row_spans (cells q)"
  shows "sc_effective sc1 ! (length (sc_effective sc) + k) = sc_effective sc2 ! (length (sc_effective sc) + k)"
  using assms
proof (induction rows arbitrary: rows' i occ sc sc' k)
  case (Cons row rows)
  obtain row' rest where r': "rows' = row' # rest" using Cons.prems(4) by (cases rows') auto
  obtain p o1 c1 a1 t1 s1 where p: "parse_row (raw row) = Ok p"
    "scan_cells i (occ_get (occ_extend i [] occ) i) (cells p) (occ_extend i [] occ, 0, 0, sc_total sc) = (o1, c1, a1, t1)"
    "scan_loop rows (i + 1) start o1 s1 = Ok (occ1, sc1)" "sc_effective s1 = sc_effective sc @ [width_of (occ_get o1 i)]"
    using Cons.prems(1) by (rule scan_loop_Cons)
  obtain q o2 c2 a2 t2 s2 where q: "parse_row (raw row') = Ok q"
    "scan_cells i (occ_get (occ_extend i [] occ) i) (cells q) (occ_extend i [] occ, 0, 0, sc_total sc') = (o2, c2, a2, t2)"
    "scan_loop rest (i + 1) start' o2 s2 = Ok (occ2, sc2)" "sc_effective s2 = sc_effective sc' @ [width_of (occ_get o2 i)]"
    using Cons.prems(2) unfolding r' by (rule scan_loop_Cons)
  have "row_spans (cells p) = row_spans (cells q)" using Cons.prems(6) [of 0 p q] p(1) q(1) r' by simp
  then have o: "o1 = o2" using scan_cells_spans [of "cells p" "cells q"] p(2) q(2) by (metis fst_conv)
  show ?case
  proof (cases k)
    case 0
    then show ?thesis using scan_loop_appends [OF p(3)] scan_loop_appends [OF q(3)] p(4) q(4) o Cons.prems(5) by (auto simp: nth_append)
  next
    case (Suc j)
    have "sc_effective sc1 ! (length (sc_effective s1) + j) = sc_effective sc2 ! (length (sc_effective s1) + j)"
      using p(3) q(3) [folded o] Cons.prems(3-5) p(4) q(4) Suc r'
      by (intro Cons.IH [of "i + 1" o1 s1 rest s2 j]) (auto intro: Cons.prems(6) [of "Suc _"])
    then show ?thesis using p(4) Suc by simp
  qed
qed simp

lemma scan_rows_spans:
  assumes "scan_rows rows [] s = Ok sc" "scan_rows rows' [] s' = Ok sc'" "k < length rows" "k < length rows'"
    and "\<And>j p q. j \<le> k \<Longrightarrow> parse_row (raw (rows ! j)) = Ok p \<Longrightarrow> parse_row (raw (rows' ! j)) = Ok q \<Longrightarrow> row_spans (cells p) = row_spans (cells q)"
  shows "sc_effective sc ! k = sc_effective sc' ! k"
proof -
  let ?s = "\<lparr>sc_effective = [], sc_metrics = [], sc_total = width_of (concat (map snd ([] :: TailOccupied))), last_nonempty = None, sc_tail = []\<rparr>"
  obtain o1 sc1 where 1: "scan_loop rows 0 s [] ?s = Ok (o1, sc1)" "sc_effective sc = sc_effective sc1"
    using assms(1) by (auto simp: scan_rows_def Let_def result_simps)
  obtain o2 sc2 where 2: "scan_loop rows' 0 s' [] ?s = Ok (o2, sc2)" "sc_effective sc' = sc_effective sc2"
    using assms(2) by (auto simp: scan_rows_def Let_def result_simps)
  show ?thesis using scan_loop_spans [OF 1(1) 2(1) assms(3,4) _ assms(5)] 1(2) 2(2) by simp
qed

lemma row_signature_spans:
  "row_signature ent r k = Ok s \<Longrightarrow> parse_row (raw r) = Ok p \<Longrightarrow> row_spans (cells p) = zip (colspans s) (rowspans s)"
  by (auto simp: row_signature_def result_simps row_spans_def zip_map_map zip_same_conv_map)

lemma header_rows_signatures:
  assumes "build_front_cache ent ps = Ok (hp, mp)" "build_front_cache ent cs = Ok (hc, mc)" "header_signatures hp hc h"
  shows "header_rows ent ps cs h"
proof -
  note P = front_cache_rows [OF assms(1)] and C = front_cache_rows [OF assms(2)]
  obtain sp where sp: "scan_rows (take 6 ps) [] 0 = Ok sp" "\<And>k. k < length hp \<Longrightarrow> sig_effective (hp ! k) = sc_effective sp ! k"
    using front_cache_width [OF assms(1)] by blast
  obtain sc where sc: "scan_rows (take 6 cs) [] 0 = Ok sc" "\<And>k. k < length hc \<Longrightarrow> sig_effective (hc ! k) = sc_effective sc ! k"
    using front_cache_width [OF assms(2)] by blast
  have same: "same_row ent (ps ! k) (cs ! k) \<longleftrightarrow> same_header ((hp ! k)\<lparr>sig_effective := 0\<rparr>) ((hc ! k)\<lparr>sig_effective := 0\<rparr>)"
    and texts: "same_texts ent (ps ! k) (cs ! k) \<longleftrightarrow> normalized_texts (hp ! k) = normalized_texts (hc ! k)"
    if "k < length hp" "k < length hc" for k
    using P(2) C(2) that by (simp_all add: same_row_def same_texts_def)
  have "same_header (hp ! k) (hc ! k)" if k: "k < length hp" "k < length hc" "\<forall>j \<le> k. same_row ent (ps ! j) (cs ! j)" for k
  proof -
    have "row_spans (cells p) = row_spans (cells q)"
      if "j \<le> k" "parse_row (raw (take 6 ps ! j)) = Ok p" "parse_row (raw (take 6 cs ! j)) = Ok q" for j p q
      using that k same [of j] P C row_signature_spans [OF P(2) [of j]] row_signature_spans [OF C(2) [of j]] by (auto simp: same_header_def)
    then have "sig_effective (hp ! k) = sig_effective (hc ! k)"
      using scan_rows_spans [OF sp(1) sc(1), of k] k P(1) C(1) sp(2) sc(2) by auto
    then show ?thesis using k same [of k] by (auto simp: same_header_def)
  qed
  then show ?thesis using assms(3) P(1) C(1) texts unfolding header_rows_def header_signatures_def
    by (auto simp: less_le_trans)
qed

lemma build_state_facts:
  assumes "build_table_state ent html = Ok st"
  shows "list_all parses (ms_rows st)" "build_front_cache ent (ms_rows st) = Ok (front_headers st, front_metrics st)"
  using assms scan_rows_ok [of "ms_rows st" "[]" 0] by (auto simp: build_table_state_def result_simps is_ok_iff split: prod.splits)


section \<open>Samples\<close>

lemmas row_eval = parse_row_def tag_eval some_def slice_at_def trim_def trim_matches_def cell_name_def span_attribute_def html_attribute_def

definition one_cell :: "uchar \<Rightarrow> ustr" where
  "one_cell c = lit ''<tr><td>'' @ c # lit ''</td></tr>''"

definition one_parsed :: ParsedRow where
  "one_parsed = \<lparr>cells = [\<lparr>pc_start = 4, open_end = 8, content_end = 9, pc_end = 14, pc_colspan = 1, pc_rowspan = 1\<rparr>], close_start = 14\<rparr>"

lemma one_cell_parse: "c \<in> {97, 98} \<Longrightarrow> parse_row (one_cell c) = Ok one_parsed"
  by (auto simp: one_cell_def one_parsed_def row_eval attributes.simps)

theorem expand_header_rowspans_closed_witness:
  "expand_header_rowspans [\<lparr>raw = one_cell 97, deleted = False\<rparr>, \<lparr>raw = one_cell 98, deleted = False\<rparr>] 1 = Ok 1 \<and>
   (\<exists>p. parse_row (one_cell 97) = Ok p)"
proof -
  let ?rows = "[\<lparr>raw = one_cell 97, deleted = False\<rparr>, \<lparr>raw = one_cell 98, deleted = False\<rparr>]"
  have e: "expand_header_rowspans ?rows 1 = Ok 1"
    by (simp add: expand_header_rowspans_def one_cell_parse one_parsed_def expand_count_def)
  from expand_header_rowspans_closed [OF e] show ?thesis using e by (auto simp: less_Suc_eq)
qed

theorem scan_sources_agree_witness:
  "\<exists>occ tot. visual_sources [\<lparr>raw = one_cell 97, deleted = False\<rparr>] 0 [(0, [0])] = Ok (occ, tot) \<and> width_of (map fst occ) = 2"
proof -
  have k: "skip_taken [0, 0] 0 = 1" by (simp add: skip_taken.simps)
  have "scan_rows [\<lparr>raw = one_cell 97, deleted = False\<rparr>] [(0, [0])] 0 =
      Ok \<lparr>sc_effective = [2], sc_metrics = [\<lparr>m_row_idx = 0, effective_cols = 2, actual_cols = 1\<rparr>], sc_total = 2,
          last_nonempty = Some \<lparr>m_row_idx = 0, effective_cols = 2, actual_cols = 1\<rparr>, sc_tail = []\<rparr>"
    by (simp add: scan_rows_def one_cell_parse one_parsed_def occ_extend_def occ_get_def k width_of_def Let_def)
  from scan_sources_agree [OF this, of 0] show ?thesis by auto
qed

definition one_table :: "uchar \<Rightarrow> ustr" where
  "one_table c = lit ''<table>'' @ one_cell c @ lit ''</table>''"

definition one_doc :: "uchar \<Rightarrow> TableDocument" where
  "one_doc c = \<lparr>source = one_table c, row_ranges = [(7, 26)], insertion = 26\<rparr>"

definition one_row :: "uchar \<Rightarrow> TableRow" where
  "one_row c = \<lparr>raw = one_cell c, deleted = False\<rparr>"

definition one_metric :: "nat \<Rightarrow> RowMetrics" where
  "one_metric i = \<lparr>m_row_idx = i, effective_cols = 1, actual_cols = 1\<rparr>"

definition one_sig :: "uchar \<Rightarrow> RowSignature" where
  "one_sig c = \<lparr>sig_effective = 1, colspans = [1], rowspans = [1], normalized_texts = [[c]], display_texts = [[c]]\<rparr>"

definition one_state :: "uchar \<Rightarrow> TableMergeState" where
  "one_state c = \<lparr>document = one_doc c, ms_rows = [one_row c], total_cols = 1, front_headers = [one_sig c], front_metrics = [one_metric 0],
     last_data = Some (one_metric 0), effective = [1], tail = []\<rparr>"

lemma one_doc_parse: "c \<in> {97, 98} \<Longrightarrow> document_parse (one_table c) = Ok (one_doc c)"
  by (auto simp: document_parse_def one_table_def one_cell_def one_doc_def tag_eval some_def slice_at_def trim_def trim_matches_def close_tag_def)

lemma one_scan:
  "c \<in> {97, 98} \<Longrightarrow> scan_rows [one_row c] [] 0 =
     Ok \<lparr>sc_effective = [1], sc_metrics = [one_metric 0], sc_total = 1, last_nonempty = Some (one_metric 0), sc_tail = []\<rparr>"
  by (simp add: scan_rows_def one_row_def one_cell_parse one_parsed_def occ_extend_def occ_get_def skip_free width_of_def one_metric_def Let_def)

lemma one_signature: "c \<in> {97, 98} \<Longrightarrow> row_signature ent (one_row c) 1 = Ok (one_sig c)"
proof -
  assume c: "c \<in> {97, 98}"
  have "slice_at (one_cell c) 8 9 = Ok [c]" by (simp add: slice_at_def one_cell_def)
  moreover have "tagless_text ent [c] = Ok [c]" using c
    by (auto simp: tagless_text_def html_tags_def slice_at_def unescaped_def)
  moreover have "concat (split_whitespace (full_to_half [c])) = [c]" "full_to_half (trim [c]) = [c]"
    using c by (auto simp: full_to_half_def split_whitespace_def is_whitespace_def trim_def trim_matches_def)
  ultimately show ?thesis using one_cell_parse [OF c] by (simp add: row_signature_def one_row_def one_parsed_def one_sig_def)
qed

lemma one_build: "c \<in> {97, 98} \<Longrightarrow> build_table_state ent (one_table c) = Ok (one_state c)"
proof -
  assume c: "c \<in> {97, 98}"
  have "build_front_cache ent [one_row c] = Ok ([one_sig c], [one_metric 0])"
    using one_scan [OF c] one_signature [OF c] by (simp add: build_front_cache_def index_at_def Let_def)
  then show ?thesis using one_doc_parse [OF c] one_scan [OF c]
    by (simp add: build_table_state_def one_doc_def slice_at_def one_table_def one_cell_def one_row_def one_state_def)
qed

definition table_node :: "ustr \<Rightarrow> Node" where
  "table_node html = Visual (lit ''table'')
     \<lparr>block_kind = lit ''table_body'', block_bbox = (0, 0, 100, 50), block_angle = 0,
      lines = [\<lparr>line_bbox = (0, 0, 100, 50), spans = [SpanTable html]\<rparr>], block_index = 0, merge_prev = None, block_sub_type = None,
      guess_lang = None, image_path = None, block_cell_merge = None, cross_page = False, lines_deleted = False\<rparr> [] [] None None []"


end
