(* ===== verification/Page_Text.thy ===== *)
theory Page_Text
  imports Table_Merge
begin

text \<open>
  The text of a block (\<open>official_builders.rs\<close>): the split of a content into spans and the rendering of
  a block as Markdown, as algorithm HTML and as the spans of the second content list. The regular
  expressions are the engine of \<open>Vlm_Text\<close>; a reference of HTML can panic, as in \<open>Html_Entities\<close>.
\<close>

section \<open>Spans\<close>

text \<open>\<open>matches(w).count()\<close> counts occurrences that do not overlap.\<close>

function match_count :: "'a list \<Rightarrow> 'a list \<Rightarrow> nat" where
  "match_count w [] = 0"
| "match_count w (c # s) =
     (if w \<noteq> [] \<and> prefix w (c # s) then Suc (match_count w (drop (length w) (c # s))) else match_count w s)"
  by pat_completeness auto
termination by (relation "measure (\<lambda>(w, s). length s)") (auto simp: prefix_def)

definition clean_text_content :: "engine \<Rightarrow> ustr \<Rightarrow> ustr" where
  "clean_text_content eng v =
     (if match_count [slash, 91] v = match_count [slash, 93] v \<and> contains [slash, 91] v
      then replace_all eng Brackets (\<lambda>c. [91] @ span_text v (the (capture 1 c)) @ [93]) v
      else v)"

fun math_spans :: "ustr \<Rightarrow> nat \<Rightarrow> captures list \<Rightarrow> Span list" where
  "math_spans v at [] = (if blank (drop at v) then [] else [SpanText (drop at v)])"
| "math_spans v at (c # cs) =
     (let whole = the (capture 0 c); before = span_text v (at, fst whole) in
      (if blank before then [] else [SpanText before]) @
      InlineEquation (trim (span_text v (the (capture 1 c)))) # math_spans v (snd whole) cs)"

definition text_spans :: "engine \<Rightarrow> ustr \<Rightarrow> Span list" where
  "text_spans eng content =
     (let v = clean_text_content eng content in
      if match_count math_open v \<noteq> match_count math_close v \<or> \<not> contains math_open v then [SpanText v]
      else (let spans = math_spans v 0 (eng ParenMath v) in if spans = [] then [SpanText v] else spans))"

definition trim_end :: "ustr \<Rightarrow> ustr" where
  "trim_end v = rev (dropWhile is_whitespace (rev v))"

definition equation_content :: "ustr \<Rightarrow> ustr" where
  "equation_content content =
     (let v = trim content in
      trim_end (case strip_prefix [slash, 91] v of
          None \<Rightarrow> v
        | Some r \<Rightarrow> if suffix [slash, 93] r then take (length r - 2) r else v))"

text \<open>\<open>str::lines\<close>\<close>

definition text_lines :: "ustr \<Rightarrow> ustr list" where
  "text_lines v =
     (let ls = split_on 10 v; ls = (if last ls = [] then butlast ls else ls);
          ended = (if last (split_on 10 v) = [] then length ls else length ls - 1) in
      map (\<lambda>l. if l \<noteq> [] \<and> last l = 13 then butlast l else l) (take ended ls) @ drop ended ls)"

definition fence :: ustr where "fence = [96, 96, 96]"

definition code_content :: "ustr \<Rightarrow> ustr" where
  "code_content content =
     (let ls = text_lines content;
          start = (if ls \<noteq> [] \<and> prefix fence (hd ls) then 1 else 0);
          end = length ls - (if ls \<noteq> [] \<and> trim (last ls) = fence then 1 else 0) in
      trim (join [10] (take (max end start - start) (drop start ls))))"

section \<open>Markdown\<close>

definition full_width :: "uchar \<Rightarrow> bool" where
  "full_width c \<longleftrightarrow> (0xFF10 \<le> c \<and> c \<le> 0xFF19) \<or> (0xFF21 \<le> c \<and> c \<le> 0xFF3A) \<or> (0xFF41 \<le> c \<and> c \<le> 0xFF5A)"

definition normalize_full_width :: "ustr \<Rightarrow> ustr" where
  "normalize_full_width v = map (\<lambda>c. if full_width c then c - 0xFEE0 else c) v"

definition markup :: "uchar \<Rightarrow> bool" where
  "markup c \<longleftrightarrow> c \<in> {42, 95, 96, 126, 36}"

fun escape_markup :: "nat \<Rightarrow> ustr \<Rightarrow> ustr" where
  "escape_markup backslashes [] = []"
| "escape_markup backslashes (c # s) =
     (if markup c \<and> backslashes mod 2 = 0 then [slash] else []) @
     c # escape_markup (if c = slash then backslashes + 1 else 0) s"

definition markdown_text :: "ustr \<Rightarrow> ustr" where
  "markdown_text v = escape_markup 0 (normalize_full_width v)"

definition is_cjk :: "uchar \<Rightarrow> bool" where
  "is_cjk c \<longleftrightarrow> (0x3400 \<le> c \<and> c \<le> 0x4DBF) \<or> (0x4E00 \<le> c \<and> c \<le> 0x9FFF) \<or> (0xF900 \<le> c \<and> c \<le> 0xFAFF) \<or>
     (0x3040 \<le> c \<and> c \<le> 0x309F) \<or> (0x30A0 \<le> c \<and> c \<le> 0x30FF) \<or> (0xAC00 \<le> c \<and> c \<le> 0xD7AF)"

fun joinable :: "Span \<Rightarrow> bool" where
  "joinable (SpanText v) \<longleftrightarrow> \<not> blank (normalize_full_width v)"
| "joinable (InlineEquation v) \<longleftrightarrow> \<not> blank v"
| "joinable _ \<longleftrightarrow> False"

definition has_following_joinable_span :: "Block \<Rightarrow> nat \<Rightarrow> nat \<Rightarrow> bool" where
  "has_following_joinable_span b line_idx span_idx \<longleftrightarrow>
     list_ex joinable (drop (span_idx + 1) (spans (lines b ! line_idx)) @ concat (map spans (drop (line_idx + 1) (lines b))))"

definition escape_leading_block_marker :: "ustr \<Rightarrow> ustr" where
  "escape_leading_block_marker v =
     (let n = length (take 4 (takeWhile (\<lambda>c. c = 32 \<or> c = 9) v)) in
      if 3 < n then v
      else
        (let rest = drop n v;
             marker_len = (if prefix [43] rest \<or> prefix [45] rest then 1 else length (takeWhile (\<lambda>c. c = 35) rest));
             after = drop marker_len rest in
         if 0 < marker_len \<and> marker_len \<le> 6 \<and> (prefix [32] after \<or> prefix [9] after)
         then take n v @ [slash] @ rest else v))"

definition image_link :: "ustr \<Rightarrow> ustr" where
  "image_link path = lit ''![](images/'' @ path @ [41]"

definition or_empty :: "ustr option \<Rightarrow> ustr" where
  "or_empty v = (case v of Some s \<Rightarrow> s | None \<Rightarrow> [])"

text \<open>The match at the start of the inner loop of \<open>merge_para_with_text\<close>.\<close>

definition span_markdown :: "Block \<Rightarrow> bool \<Rightarrow> Span \<Rightarrow> ustr" where
  "span_markdown b formula_enable s =
     (case s of
        SpanText v \<Rightarrow> if block_kind b = lit ''code_body'' then normalize_full_width v else markdown_text (normalize_full_width v)
      | InlineEquation v \<Rightarrow> [36] @ v @ [36]
      | InterlineEquation v \<Rightarrow>
          if formula_enable then [10, 36, 36, 10] @ v @ [10, 36, 36, 10] else or_empty (map_option image_link (image_path b))
      | _ \<Rightarrow> [])"

definition is_ascii_alphabetic :: "uchar \<Rightarrow> bool" where
  "is_ascii_alphabetic c \<longleftrightarrow> (65 \<le> c \<and> c \<le> 90) \<or> (97 \<le> c \<and> c \<le> 122)"

definition hyphenated_end :: "ustr \<Rightarrow> bool" where
  "hyphenated_end v \<longleftrightarrow>
     v \<noteq> [] \<and> last v \<in> {45, 0xAD, 0x2010, 0x2011, 0x2043} \<and>
     (let ws = split_whitespace (butlast v) in ws \<noteq> [] \<and> list_all is_ascii_alphabetic (last ws))"

definition next_starts_lowercase :: "Block \<Rightarrow> nat \<Rightarrow> bool" where
  "next_starts_lowercase b line_idx \<longleftrightarrow>
     (case drop (line_idx + 1) (lines b) of
        l # _ \<Rightarrow>
          (case spans l of
             SpanText v # _ \<Rightarrow> (case normalize_full_width v of c # _ \<Rightarrow> 97 \<le> c \<and> c \<le> 122 | [] \<Rightarrow> False)
           | _ \<Rightarrow> False)
      | [] \<Rightarrow> False)"

fun is_text :: "Span \<Rightarrow> bool" where
  "is_text (SpanText _) \<longleftrightarrow> True"
| "is_text _ \<longleftrightarrow> False"

fun is_inline :: "Span \<Rightarrow> bool" where
  "is_inline (InlineEquation _) \<longleftrightarrow> True"
| "is_inline _ \<longleftrightarrow> False"

text \<open>What one turn of the inner loop appends to the output.\<close>

definition span_output :: "Block \<Rightarrow> bool \<Rightarrow> bool \<Rightarrow> nat \<Rightarrow> nat \<Rightarrow> Span \<Rightarrow> ustr" where
  "span_output b formula_enable cjk line_idx span_idx s =
     (let v = trim (span_markdown b formula_enable s) in
      if v = [] then []
      else
        (let is_last = (span_idx + 1 = length (spans (lines b ! line_idx)));
             following = has_following_joinable_span b line_idx span_idx in
         if cjk then v @ (if following \<and> (\<not> is_last \<or> is_inline s) then [32] else [])
         else if is_text s \<and> is_last \<and> hyphenated_end v
           then (if next_starts_lowercase b line_idx then butlast v else v)
         else v @ (if following then [32] else [])))"

definition block_spans :: "Block \<Rightarrow> Span list" where
  "block_spans b = concat (map spans (lines b))"

definition cjk_block :: "Block \<Rightarrow> bool" where
  "cjk_block b \<longleftrightarrow>
     list_ex is_cjk (concat (map (\<lambda>s. case s of SpanText v \<Rightarrow> normalize_full_width v | _ \<Rightarrow> []) (block_spans b)))"

definition merge_para_with_text :: "Block \<Rightarrow> bool \<Rightarrow> bool \<Rightarrow> bool \<Rightarrow> ustr" where
  "merge_para_with_text b formula_enable escape_block_marker is_list_child =
     (let output = concat (map (\<lambda>(line_idx, l).
            concat (map (\<lambda>(span_idx, s). span_output b formula_enable (cjk_block b) line_idx span_idx s)
              (zip [0..<length (spans l)] (spans l))))
            (zip [0..<length (lines b)] (lines b))) in
      if escape_block_marker \<and> \<not> is_list_child then escape_leading_block_marker output else output)"

definition render_block :: "Block \<Rightarrow> bool \<Rightarrow> ustr" where
  "render_block b formula_enable = merge_para_with_text b formula_enable True False"

definition render_list_item :: "Block \<Rightarrow> ustr" where
  "render_list_item b = merge_para_with_text b True True True"

definition block_text :: "Block \<Rightarrow> ustr" where
  "block_text b = render_block b True"

section \<open>Code, equations and the second content list\<close>

definition algorithm_escape :: "ustr \<Rightarrow> ustr" where
  "algorithm_escape v = replace_str [62] (lit ''&gt;'') (replace_str [60] (lit ''&lt;'') (replace_str [38] (lit ''&amp;'') v))"

fun algorithm_inner :: "bool \<Rightarrow> Span list \<Rightarrow> ustr" where
  "algorithm_inner inline [] = []"
| "algorithm_inner inline (s # ss) =
     (case s of
        SpanText v \<Rightarrow> algorithm_escape (normalize_full_width v)
      | InlineEquation v \<Rightarrow> (if inline then [32] else []) @ [36] @ algorithm_escape v @ [36]
      | _ \<Rightarrow> []) @ algorithm_inner (is_inline s) ss"

definition algorithm_open :: ustr where
  "algorithm_open = lit ''<div class='' @ [34] @ lit ''mineru-algorithm'' @ [34] @ lit '' style='' @ [34] @
     lit ''white-space: pre-wrap; font-family:monospace;'' @ [34, 62, 10]"

definition render_algorithm_html_from_lines :: "Block \<Rightarrow> ustr" where
  "render_algorithm_html_from_lines b =
     (let inner = algorithm_inner False (block_spans b) in
      if blank inner then [] else algorithm_open @ inner @ [10] @ lit ''</div>'')"

definition code_markdown :: "Block \<Rightarrow> ustr option \<Rightarrow> ustr" where
  "code_markdown b sub_type =
     (if sub_type = Some (lit ''algorithm'') then render_algorithm_html_from_lines b
      else fence @ (case guess_lang b of Some l \<Rightarrow> l | None \<Rightarrow> lit ''txt'') @ [10] @ merge_para_with_text b True True False @ [10] @ fence)"

definition equation_math :: "Block \<Rightarrow> ustr" where
  "equation_math b =
     (case List.map_filter (\<lambda>s. case s of InterlineEquation v \<Rightarrow> Some v | _ \<Rightarrow> None) (block_spans b) of v # _ \<Rightarrow> v | [] \<Rightarrow> [])"

fun usable_span :: "Span \<Rightarrow> (ustr \<times> ustr) option" where
  "usable_span (SpanText v) = (if blank v then None else Some (lit ''text'', v))"
| "usable_span (InlineEquation v) = (if blank v then None else Some (lit ''equation_inline'', v))"
| "usable_span _ = None"

definition usable_len :: "Block \<Rightarrow> nat" where
  "usable_len b =
     length (filter (\<lambda>s. case s of SpanText v \<Rightarrow> \<not> blank v | InlineEquation v \<Rightarrow> \<not> blank v | _ \<Rightarrow> False) (block_spans b))"

definition v2_span :: "ustr \<Rightarrow> ustr \<Rightarrow> Value" where
  "v2_span k v = jobject [(''type'', JString k), (''content'', JString v)]"

text \<open>One turn of the loop of \<open>v2_spans\<close>.\<close>

definition v2_push :: "Block \<Rightarrow> nat \<times> ustr \<times> ustr \<Rightarrow> Value list \<Rightarrow> Value list" where
  "v2_push b e output =
     (case e of (index, k, content) \<Rightarrow>
        (let content = (if k = lit ''text'' \<and> index + 1 < usable_len b then content @ [32] else content) in
         if block_kind b = lit ''phonetic'' \<and> k = lit ''text'' then output @ [v2_span (lit ''phonetic'') content]
         else if output \<noteq> [] \<and> jidx (last output) ''type'' = JString k \<and> k = lit ''text''
           then butlast output @ [(case last output of
                  JObject m \<Rightarrow> JObject (map_insert (lit ''content'') (JString (or_empty (as_str (jidx (last output) ''content'')) @ content)) m)
                | v \<Rightarrow> v)]
         else output @ [v2_span k content]))"

definition v2_spans :: "Block \<Rightarrow> Value list" where
  "v2_spans b = (let usable = List.map_filter usable_span (block_spans b) in fold (v2_push b) (zip [0..<length usable] usable) [])"

section \<open>HTML of the output\<close>

fun all_ok :: "('a, 'e) result list \<Rightarrow> ('a list, 'e) result" where
  "all_ok [] = Ok []"
| "all_ok (r # rs) = and_then r (\<lambda>x. and_then (all_ok rs) (\<lambda>xs. Ok (x # xs)))"

text \<open>\<open>replace_all\<close> with a replacement that can panic.\<close>

definition replace_all_opt :: "engine \<Rightarrow> VlmPattern \<Rightarrow> (captures \<Rightarrow> ustr opt) \<Rightarrow> ustr \<Rightarrow> ustr opt" where
  "replace_all_opt eng p f v =
     and_then (all_ok (map f (eng p v))) (\<lambda>rs. Ok (replace_from 0 v (zip (map (\<lambda>c. the (hd c)) (eng p v)) rs)))"

definition output_html :: "engine \<Rightarrow> entities \<Rightarrow> ustr \<Rightarrow> ustr opt" where
  "output_html eng ent html =
     and_then (replace_all_opt eng EqElement (\<lambda>c.
         and_then (unescaped ent (span_text html (the (capture 1 c)))) (\<lambda>v. Ok ([32, 36] @ v @ [36, 32]))) html) (\<lambda>html.
     Ok (replace_all eng SourceAttr (\<lambda>c.
         (let v = span_text html (the (capture 2 c)) in
          if prefix (lit ''data:'') (lower v) then span_text html (the (capture 0 c))
          else span_text html (the (capture 1 c)) @ lit ''images/'' @ v @ span_text html (the (capture 3 c)))) html))"

section \<open>What the escapes of Markdown achieve\<close>

text \<open>A reader of Markdown takes a backslash together with the character behind it.\<close>

fun shielded :: "ustr \<Rightarrow> bool" where
  "shielded [] \<longleftrightarrow> True"
| "shielded [c] \<longleftrightarrow> \<not> markup c"
| "shielded (c # d # s) \<longleftrightarrow> (if c = slash then shielded s else \<not> markup c \<and> shielded (d # s))"

lemma markup_slash [simp]: "\<not> markup slash"
  by (simp add: markup_def)

lemma shielded_Cons: "c \<noteq> slash \<Longrightarrow> shielded (c # s) \<longleftrightarrow> \<not> markup c \<and> shielded s"
  by (cases s) auto

lemma shielded_pair: "shielded (slash # d # s) \<longleftrightarrow> shielded s"
  by simp

text \<open>After an odd number of backslashes the reader is in the middle of a pair.\<close>

lemma escape_markup_shielded:
  "(even n \<longrightarrow> shielded (escape_markup n s)) \<and> (odd n \<longrightarrow> shielded (slash # escape_markup n s))"
proof (induction s arbitrary: n)
  case (Cons c s)
  show ?case
  proof (cases "c = slash")
    case True
    then show ?thesis using Cons.IH [of "Suc n"] by auto
  next
    case False
    then show ?thesis using Cons.IH [of 0] by (auto simp: shielded_Cons even_iff_mod_2_eq_zero odd_iff_mod_2_eq_one)
  qed
qed simp

lemma escape_markup_letters: "filter (\<lambda>c. c \<noteq> slash) (escape_markup n s) = filter (\<lambda>c. c \<noteq> slash) s"
  by (induction s arbitrary: n) auto

lemma full_width_normal: "c \<in> set (normalize_full_width s) \<Longrightarrow> \<not> full_width c"
  by (auto simp: normalize_full_width_def full_width_def split: if_splits)

lemma normalize_normal: "\<forall>c \<in> set s. \<not> full_width c \<Longrightarrow> normalize_full_width s = s"
  by (simp add: normalize_full_width_def map_idI)

lemma escape_markup_set: "set (escape_markup n s) \<subseteq> insert slash (set s)"
  by (induction s arbitrary: n) auto

lemma escape_markup_keeps: "subseq s (escape_markup n s)"
  by (induction s arbitrary: n) auto

lemma escape_markup_same:
  "(even n \<longrightarrow> shielded s \<longrightarrow> escape_markup n s = s) \<and> (odd n \<longrightarrow> shielded (slash # s) \<longrightarrow> escape_markup n s = s)"
proof (induction s arbitrary: n)
  case (Cons c s)
  show ?case
  proof (cases "c = slash")
    case True
    then show ?thesis using Cons.IH [of "Suc n"] by auto
  next
    case False
    then show ?thesis using Cons.IH [of 0] by (auto simp: shielded_Cons even_iff_mod_2_eq_zero odd_iff_mod_2_eq_one)
  qed
qed simp


text \<open>
  The escapes of two pieces are not those of the whole: in a paragraph with Chinese characters the lines are
  joined without a space, and a backslash at the end of a line swallows the escape at the start of the next.
\<close>

lemma joined_lines_unshielded:
  "\<not> shielded (render_block
     \<lparr>block_kind = lit ''text'', block_bbox = (0, 0, 9, 9), block_angle = 0,
      lines = [\<lparr>line_bbox = (0, 0, 9, 4), spans = [SpanText [0x4E2D, slash]]\<rparr>, \<lparr>line_bbox = (0, 5, 9, 9), spans = [SpanText [42, 97]]\<rparr>],
      block_index = 0, merge_prev = None, block_sub_type = None, guess_lang = None, image_path = None,
      block_cell_merge = None, cross_page = False, lines_deleted = False\<rparr> True)"
  by (simp add: render_block_def merge_para_with_text_def span_output_def span_markdown_def cjk_block_def block_spans_def
      is_cjk_def has_following_joinable_span_def escape_leading_block_marker_def markdown_text_def normalize_full_width_def
      full_width_def markup_def trim_def trim_matches_def is_whitespace_def)

end
