(* ===== verification/Vlm_Blocks.thy ===== *)
theory Vlm_Blocks
  imports Otsl Json Complex_Main
begin

text \<open>
  The blocks of a page (\<open>types.rs\<close>), the parser of the model's layout answer (\<open>layout.rs\<close>) and the
  cleaning of a page's blocks (\<open>clean_block\<close> and \<open>post_process\<close> of \<open>vlm_postprocess.rs\<close>). The
  operations of \<open>f32\<close> are a parameter, a record over a type \<open>'f\<close> of floats; so are the regular
  expressions, as in \<open>Vlm_Text\<close>. A value \<open>None\<close> stands for a panic of the table builder.
\<close>

section \<open>Floats and blocks\<close>

record 'f Floats =
  f_le :: "'f \<Rightarrow> 'f \<Rightarrow> bool"
  f_finite :: "'f \<Rightarrow> bool"
  f_sub :: "'f \<Rightarrow> 'f \<Rightarrow> 'f"
  f_mul :: "'f \<Rightarrow> 'f \<Rightarrow> 'f"
  f_div :: "'f \<Rightarrow> 'f \<Rightarrow> 'f"
  f_max :: "'f \<Rightarrow> 'f \<Rightarrow> 'f"
  f_min :: "'f \<Rightarrow> 'f \<Rightarrow> 'f"
  f_lt :: "'f \<Rightarrow> 'f \<Rightarrow> bool"
  f_literal :: "string \<Rightarrow> 'f"
  f_parse :: "ustr \<Rightarrow> 'f option"

datatype Rotation = Deg0 | Deg90 | Deg180 | Deg270

record 'f NormalizedBbox =
  bb_left :: 'f
  bb_top :: 'f
  bb_right :: 'f
  bb_bottom :: 'f

record 'f ContentBlock =
  kind :: ustr
  bbox :: "'f NormalizedBbox"
  angle :: "Rotation option"
  block_content :: "ustr option"
  merge_previous :: bool
  metadata :: "(ustr \<times> Value) list"

text \<open>The errors these functions return.\<close>

datatype PageError =
    InvalidInput string
  | LimitExceeded string nat nat
  | Protocol string string

text \<open>\<open>NormalizedBbox::new\<close>\<close>

definition unit_coord :: "'f Floats \<Rightarrow> 'f \<Rightarrow> bool" where
  "unit_coord fl v \<longleftrightarrow> f_finite fl v \<and> f_le fl (f_literal fl ''0.0'') v \<and> f_le fl v (f_literal fl ''1.0'')"

definition bbox_new :: "'f Floats \<Rightarrow> 'f \<Rightarrow> 'f \<Rightarrow> 'f \<Rightarrow> 'f \<Rightarrow> ('f NormalizedBbox, PageError) result" where
  "bbox_new fl l t r b =
     (if list_ex (\<lambda>v. \<not> unit_coord fl v) [l, t, r, b] \<or> f_le fl r l \<or> f_le fl b t
      then Err (InvalidInput ''bbox must be finite, normalized, and non-empty'')
      else Ok \<lparr>bb_left = l, bb_top = t, bb_right = r, bb_bottom = b\<rparr>)"

record PageRange =
  pr_start :: nat
  pr_end :: "nat option"

definition page_range_validate :: "PageRange \<Rightarrow> (unit, PageError) result" where
  "page_range_validate p =
     (case pr_end p of
        Some e \<Rightarrow> if e < pr_start p then Err (InvalidInput ''page range start must not exceed end'') else Ok ()
      | None \<Rightarrow> Ok ())"

definition page_range_new :: "nat \<Rightarrow> nat option \<Rightarrow> (PageRange, PageError) result" where
  "page_range_new s e =
     (let p = \<lparr>pr_start = s, pr_end = e\<rparr> in and_then (page_range_validate p) (\<lambda>_. Ok p))"

section \<open>The layout answer\<close>

definition LAYOUT_KINDS :: "ustr list" where
  "LAYOUT_KINDS = map lit
     [''text'', ''title'', ''table'', ''equation'', ''formula_number'', ''code'', ''algorithm'', ''aside_text'', ''ref_text'',
      ''index'', ''phonetic'', ''list_item'', ''table_caption'', ''image_caption'', ''code_caption'', ''table_footnote'',
      ''image_footnote'', ''header'', ''footer'', ''page_number'', ''page_footnote'', ''image'', ''chart'', ''list'',
      ''image_block'', ''equation_block'']"

definition layout_bbox :: "'f Floats \<Rightarrow> ustr \<Rightarrow> captures \<Rightarrow> 'f NormalizedBbox option" where
  "layout_bbox fl input token =
     (let num = (\<lambda>n. f_parse fl (span_text input (the (capture n token)))) in
      case (num 1, num 2, num 3, num 4) of
        (Some x1, Some y1, Some x2, Some y2) \<Rightarrow>
          (let (l, r) = (if f_le fl x1 x2 then (x1, x2) else (x2, x1));
               (t, b) = (if f_le fl y1 y2 then (y1, y2) else (y2, y1));
               k = f_literal fl ''1000.0''
           in case bbox_new fl (f_div fl l k) (f_div fl t k) (f_div fl r k) (f_div fl b k) of
                Ok v \<Rightarrow> Some v
              | Err _ \<Rightarrow> None)
      | _ \<Rightarrow> None)"

definition rotation :: "ustr \<Rightarrow> captures \<Rightarrow> Rotation option" where
  "rotation input token =
     (case map_option (span_text input) (capture 7 token) of
        None \<Rightarrow> None
      | Some r \<Rightarrow>
          if r = lit ''up'' then Some Deg0
          else if r = lit ''right'' then Some Deg90
          else if r = lit ''down'' then Some Deg180
          else if r = lit ''left'' then Some Deg270
          else None)"

text \<open>The loop over the tokens; \<open>peek\<close> looks at the rest.\<close>

fun layout_loop :: "'f Floats \<Rightarrow> ustr \<Rightarrow> nat \<Rightarrow> captures list \<Rightarrow> 'f ContentBlock list \<Rightarrow> 'f ContentBlock list \<times> bool" where
  "layout_loop fl input max_blocks [] blocks = (blocks, False)"
| "layout_loop fl input max_blocks (token # tokens) blocks =
     (case layout_bbox fl input token of
        None \<Rightarrow> layout_loop fl input max_blocks tokens blocks
      | Some bb \<Rightarrow>
          (let raw_kind = span_text input (the (capture 5 token)) in
           if raw_kind \<notin> set LAYOUT_KINDS then layout_loop fl input max_blocks tokens blocks
           else if max_blocks \<le> length blocks then (blocks, True)
           else
             (let stop = snd (the (capture 0 token));
                  follow = (case tokens of [] \<Rightarrow> length input | t # _ \<Rightarrow> fst (the (capture 0 t)));
                  merge = (raw_kind = lit ''text'' \<and> contains (lit ''txt_contd_tgt'') (span_text input (stop, follow)))
              in layout_loop fl input max_blocks tokens
                   (blocks @ [\<lparr>kind = raw_kind, bbox = bb, angle = rotation input token, block_content = None,
                               merge_previous = merge, metadata = []\<rparr>]))))"

definition parse_blocks :: "'f Floats \<Rightarrow> engine \<Rightarrow> ustr \<Rightarrow> nat \<Rightarrow> 'f ContentBlock list \<times> bool" where
  "parse_blocks fl eng input max_blocks = layout_loop fl input max_blocks (eng LayoutToken input) []"

definition parse_layout :: "'f Floats \<Rightarrow> engine \<Rightarrow> ustr \<Rightarrow> nat \<Rightarrow> ('f ContentBlock list, PageError) result" where
  "parse_layout fl eng input max_blocks =
     (let (blocks, truncated) = parse_blocks fl eng input max_blocks in
      if truncated then Err (LimitExceeded ''blocks per page'' max_blocks (sat_add (length blocks) 1))
      else if blocks = [] \<and> trim input \<noteq> [] then Err (Protocol ''layout parse'' ''no valid layout tokens'')
      else Ok blocks)"

section \<open>Cleaning a block\<close>

abbreviation IMAGE :: ustr where "IMAGE \<equiv> lit ''image''"
abbreviation CHART :: ustr where "CHART \<equiv> lit ''chart''"
abbreviation IMAGE_BLOCK :: ustr where "IMAGE_BLOCK \<equiv> lit ''image_block''"
abbreviation TABLE :: ustr where "TABLE \<equiv> lit ''table''"
abbreviation EQUATION :: ustr where "EQUATION \<equiv> lit ''equation''"
abbreviation EQUATION_BLOCK :: ustr where "EQUATION_BLOCK \<equiv> lit ''equation_block''"
abbreviation LIST_ITEM :: ustr where "LIST_ITEM \<equiv> lit ''list_item''"
abbreviation LIST :: ustr where "LIST \<equiv> lit ''list''"
abbreviation TEXT :: ustr where "TEXT \<equiv> lit ''text''"

definition visual :: "ustr \<Rightarrow> bool" where
  "visual k \<longleftrightarrow> k = IMAGE \<or> k = CHART \<or> k = IMAGE_BLOCK"

definition apply_vlm_class_output :: "VlmClassOutput \<Rightarrow> 'f ContentBlock \<Rightarrow> ustr \<times> 'f ContentBlock" where
  "apply_vlm_class_output v b =
     (let b = (case opt_filter (\<lambda>c. c \<noteq> []) (vc_caption v) of
                 None \<Rightarrow> b
               | Some c \<Rightarrow> b\<lparr>metadata := map_insert (lit ''caption'') (JString c) (metadata b)\<rparr>);
          class_name = normalized_class (vc_class_name v);
          b = (if class_name \<in> {lit ''pure_table'', lit ''table''} then b\<lparr>kind := TABLE\<rparr>
               else if class_name \<in> {lit ''pure_formula'', lit ''formula'', lit ''equation''} then b\<lparr>kind := EQUATION\<rparr>
               else if class_name = lit ''chart'' then
                 (let b = b\<lparr>kind := CHART\<rparr> in
                  case opt_filter (\<lambda>c. c \<noteq> []) (vc_sub_class v) of
                    None \<Rightarrow> b
                  | Some s \<Rightarrow> b\<lparr>metadata := map_insert (lit ''sub_type'') (JString (compact_whitespace s)) (metadata b)\<rparr>)
               else b\<lparr>kind := IMAGE\<rparr>)
      in (case opt_filter (\<lambda>c. c \<noteq> []) (vc_content v) of
            Some c \<Rightarrow> c
          | None \<Rightarrow> (case vc_caption v of Some c \<Rightarrow> c | None \<Rightarrow> []), b))"

definition img_tag :: "ustr \<Rightarrow> ustr" where
  "img_tag url = lit ''<img src='' @ [34] @ escape_attr url @ [34] @ lit ''/>''"

definition replace_table_images :: "'f ContentBlock \<Rightarrow> ustr \<Rightarrow> ustr" where
  "replace_table_images b v =
     (if kind b \<noteq> TABLE then v
      else case Option.bind (map_of (metadata b) (lit ''_table_image_token_map'')) as_object of
        None \<Rightarrow> v
      | Some m \<Rightarrow>
          fold (\<lambda>(token, url) v. case as_str url of None \<Rightarrow> v | Some u \<Rightarrow> replace_str token (img_tag u) v) m v)"

definition is_bullet :: "uchar \<Rightarrow> bool" where
  "is_bullet c \<longleftrightarrow> c = 45 \<or> c = 42 \<or> c = 8226 \<or> c = 32"

definition classify_block :: "engine \<Rightarrow> 'f ContentBlock \<Rightarrow> ustr \<Rightarrow> ustr \<times> 'f ContentBlock" where
  "classify_block eng b response =
     (let v = replace_str (lit ''<|im_end|>'') [] response;
          (v, b) = (if visual (kind b)
                    then (case parse_vlm_class_output eng v of None \<Rightarrow> (v, b) | Some o' \<Rightarrow> apply_vlm_class_output o' b)
                    else (v, b));
          marker = trim v;
          b = (if visual (kind b) then
                 (if is_pure_table marker then b\<lparr>kind := TABLE\<rparr>
                  else if is_pure_formula marker then b\<lparr>kind := EQUATION\<rparr>
                  else if kind b = IMAGE_BLOCK \<and> marker \<noteq> [] then b\<lparr>kind := IMAGE\<rparr>
                  else b)
               else b);
          b = (if kind b = EQUATION_BLOCK \<and> is_pure_formula marker then b\<lparr>kind := EQUATION\<rparr> else b)
      in (v, b))"

definition clean_block :: "engine \<Rightarrow> 'f ContentBlock \<Rightarrow> ustr \<Rightarrow> 'f ContentBlock option" where
  "clean_block eng b response =
     (let (v, b) = classify_block eng b response in
      Option.bind
        (if kind b = TABLE then map_option (formulas eng) (otsl_html eng (replace_table_images b v))
         else if kind b = EQUATION then Some (normalize_equation eng v)
         else Some v) (\<lambda>v.
        (let v = trim v;
             (v, b) = (if kind b = LIST_ITEM then (dropWhile is_bullet v, b\<lparr>kind := TEXT\<rparr>) else (v, b));
             v = (if kind b = TEXT then clean_text eng v else v);
             v = (if v = lit ''[Non-Text]'' then [] else v)
         in Some (b\<lparr>block_content := (if v = [] then None else Some v)\<rparr>))))"

section \<open>Containers\<close>

definition covers :: "'f Floats \<Rightarrow> 'f ContentBlock \<Rightarrow> 'f ContentBlock \<Rightarrow> bool" where
  "covers fl parent child =
     (let p = bbox parent; c = bbox child;
          zero = f_literal fl ''0.0'';
          l = f_max fl (bb_left p) (bb_left c);
          t = f_max fl (bb_top p) (bb_top c);
          r = f_min fl (bb_right p) (bb_right c);
          b = f_min fl (bb_bottom p) (bb_bottom c);
          overlap = f_mul fl (f_max fl (f_sub fl r l) zero) (f_max fl (f_sub fl b t) zero);
          child_area = f_mul fl (f_sub fl (bb_right c) (bb_left c)) (f_sub fl (bb_bottom c) (bb_top c))
      in f_lt fl zero child_area \<and> f_lt fl (f_literal fl ''0.9'') (f_div fl overlap child_area))"

definition has_text :: "'f ContentBlock \<Rightarrow> bool" where
  "has_text b \<longleftrightarrow> (case block_content b of None \<Rightarrow> False | Some c \<Rightarrow> trim c \<noteq> [])"

definition children :: "'f Floats \<Rightarrow> ('f ContentBlock \<Rightarrow> bool) \<Rightarrow> nat \<Rightarrow> 'f ContentBlock list \<Rightarrow> nat list" where
  "children fl p index blocks =
     filter (\<lambda>i. i \<noteq> index \<and> p (blocks ! i) \<and> covers fl (blocks ! index) (blocks ! i)) [0..<length blocks]"

definition array_of :: "ustr list \<Rightarrow> ustr" where
  "array_of contents =
     slash # lit ''begin{array}{l} '' @ join [32, slash, slash, 32] contents @ 32 # slash # lit ''end{array}''"

definition resolve_step :: "'f Floats \<Rightarrow> nat \<Rightarrow> 'f ContentBlock list \<times> bool list \<Rightarrow> 'f ContentBlock list \<times> bool list" where
  "resolve_step fl index st =
     (let (blocks, remove) = st; k = kind (blocks ! index) in
      if k = EQUATION_BLOCK then
        (let cs = children fl (\<lambda>c. kind c = EQUATION \<and> has_text c) index blocks in
         case cs of
           [] \<Rightarrow> (blocks, remove)
         | [_] \<Rightarrow> (blocks, remove[index := True])
         | _ \<Rightarrow>
             (let contents = map (\<lambda>c. the (block_content (blocks ! c))) (filter (\<lambda>c. block_content (blocks ! c) \<noteq> None) cs)
              in (blocks[index := (blocks ! index)\<lparr>kind := EQUATION, block_content := Some (array_of contents)\<rparr>],
                  fold (\<lambda>c r. r[c := True]) cs remove)))
      else if k = IMAGE_BLOCK then
        (if children fl (\<lambda>c. kind c \<in> {IMAGE, CHART, TABLE, EQUATION} \<and>
              (has_text c \<or> map_of (metadata c) (lit ''asset_path'') \<noteq> None)) index blocks \<noteq> []
         then (blocks, remove[index := True])
         else if block_content (blocks ! index) = None then (blocks[index := (blocks ! index)\<lparr>kind := IMAGE\<rparr>], remove)
         else (blocks, remove))
      else if k = LIST then
        (if children fl (\<lambda>c. kind c = TEXT \<and> has_text c) index blocks \<noteq> []
         then (blocks, remove[index := True]) else (blocks, remove))
      else (blocks, remove))"

definition resolve_containers :: "'f Floats \<Rightarrow> 'f ContentBlock list \<Rightarrow> 'f ContentBlock list \<times> bool list" where
  "resolve_containers fl blocks =
     fold (resolve_step fl) [0..<length blocks] (blocks, replicate (length blocks) False)"

fun clean_blocks :: "engine \<Rightarrow> 'f ContentBlock list \<Rightarrow> 'f ContentBlock list option" where
  "clean_blocks eng [] = Some []"
| "clean_blocks eng (b # bs) =
     Option.bind (case block_content b of None \<Rightarrow> Some b | Some c \<Rightarrow> clean_block eng b c) (\<lambda>b.
     map_option ((#) b) (clean_blocks eng bs))"

definition dropped :: "'f ContentBlock \<Rightarrow> bool" where
  "dropped b \<longleftrightarrow> map_of (metadata b) (lit ''_absorbed_by_table'') \<noteq> None \<or> kind b = lit ''paratext'' \<or>
     kind b = LIST \<and> block_content b = None"

definition public_meta :: "'f ContentBlock \<Rightarrow> 'f ContentBlock" where
  "public_meta b = b\<lparr>metadata := filter (\<lambda>(key, _). \<not> prefix [95] key) (metadata b)\<rparr>"

definition post_process :: "'f Floats \<Rightarrow> engine \<Rightarrow> 'f ContentBlock list \<Rightarrow> 'f ContentBlock list option" where
  "post_process fl eng blocks =
     map_option (\<lambda>blocks.
       (let (blocks, remove) = resolve_containers fl blocks
        in map (\<lambda>(r, b). public_meta b) (filter (\<lambda>(r, b). \<not> (r \<or> dropped b)) (zip remove blocks))))
     (clean_blocks eng blocks)"

section \<open>The layout parser against a reference\<close>

text \<open>The block of a token, if it is valid, and the blocks of all valid tokens.\<close>

definition token_block :: "'f Floats \<Rightarrow> ustr \<Rightarrow> captures \<Rightarrow> captures list \<Rightarrow> 'f ContentBlock option" where
  "token_block fl input token tokens =
     (case layout_bbox fl input token of
        None \<Rightarrow> None
      | Some bb \<Rightarrow>
          (let raw_kind = span_text input (the (capture 5 token));
               follow = (case tokens of [] \<Rightarrow> length input | t # _ \<Rightarrow> fst (the (capture 0 t)))
           in if raw_kind \<notin> set LAYOUT_KINDS then None
              else Some \<lparr>kind = raw_kind, bbox = bb, angle = rotation input token, block_content = None,
                merge_previous = (raw_kind = lit ''text'' \<and>
                  contains (lit ''txt_contd_tgt'') (span_text input (snd (the (capture 0 token)), follow))),
                metadata = []\<rparr>))"

fun layout_blocks :: "'f Floats \<Rightarrow> ustr \<Rightarrow> captures list \<Rightarrow> 'f ContentBlock list" where
  "layout_blocks fl input [] = []"
| "layout_blocks fl input (token # tokens) =
     (case token_block fl input token tokens of None \<Rightarrow> [] | Some b \<Rightarrow> [b]) @ layout_blocks fl input tokens"

lemma layout_loop_blocks:
  assumes "length blocks \<le> m"
  shows "layout_loop fl input m tokens blocks =
    (let all = blocks @ layout_blocks fl input tokens in (take m all, m < length all))"
  using assms
proof (induction tokens arbitrary: blocks)
  case (Cons token tokens)
  show ?case
  proof (cases "layout_bbox fl input token")
    case None
    then show ?thesis using Cons by (simp add: token_block_def)
  next
    case (Some bb)
    show ?thesis
    proof (cases "span_text input (the (capture 5 token)) \<in> set LAYOUT_KINDS")
      case False
      then show ?thesis using Some Cons by (simp add: token_block_def Let_def)
    next
      case True
      obtain b where b: "token_block fl input token tokens = Some b" using Some True by (simp add: token_block_def Let_def)
      show ?thesis
      proof (cases "m \<le> length blocks")
        case full: True
        then show ?thesis using Cons.prems Some True b by (simp add: Let_def)
      next
        case False
        then have "layout_loop fl input m (token # tokens) blocks = layout_loop fl input m tokens (blocks @ [b])"
          using Some True b by (auto simp: token_block_def Let_def)
        then show ?thesis using Cons.IH [of "blocks @ [b]"] False b by (simp add: Let_def)
      qed
    qed
  qed
qed (simp add: Let_def)

text \<open>
  C37: the layout parser stops early without losing precision. It returns the blocks of all valid tokens of the
  answer, in order, when there are at most \<open>max_blocks\<close> of them; one more is the limit error with the number at
  which it stopped; and an answer that is not blank and has no valid token is the protocol error.
\<close>

theorem parse_layout_spec:
  "parse_layout fl eng input m =
    (let all = layout_blocks fl input (eng LayoutToken input) in
     if m < length all then Err (LimitExceeded ''blocks per page'' m (sat_add m 1))
     else if all = [] \<and> trim input \<noteq> [] then Err (Protocol ''layout parse'' ''no valid layout tokens'')
     else Ok all)"
  by (simp add: parse_layout_def parse_blocks_def layout_loop_blocks Let_def min_def)

lemma layout_bbox_ok:
  "layout_bbox fl input token = Some bb \<Longrightarrow>
     list_all (unit_coord fl) [bb_left bb, bb_top bb, bb_right bb, bb_bottom bb] \<and>
     \<not> f_le fl (bb_right bb) (bb_left bb) \<and> \<not> f_le fl (bb_bottom bb) (bb_top bb)"
  by (auto simp: layout_bbox_def bbox_new_def Let_def split: option.splits result.splits if_splits prod.splits)

lemma token_block_ok:
  assumes "token_block fl input token tokens = Some b"
  shows "kind b \<in> set LAYOUT_KINDS" "layout_bbox fl input token = Some (bbox b)" "block_content b = None" "metadata b = []"
  using assms by (auto simp: token_block_def Let_def split: option.splits if_splits)

text \<open>Every parsed block has a known kind and a normalised, non-empty box.\<close>

lemma layout_blocks_ok:
  "b \<in> set (layout_blocks fl input tokens) \<Longrightarrow>
     kind b \<in> set LAYOUT_KINDS \<and> block_content b = None \<and> list_all (unit_coord fl) [bb_left (bbox b), bb_top (bbox b), bb_right (bbox b), bb_bottom (bbox b)] \<and>
     \<not> f_le fl (bb_right (bbox b)) (bb_left (bbox b)) \<and> \<not> f_le fl (bb_bottom (bbox b)) (bb_top (bbox b))"
proof (induction tokens)
  case (Cons token tokens)
  show ?case
  proof (cases "b \<in> set (layout_blocks fl input tokens)")
    case False
    then have "token_block fl input token tokens = Some b" using Cons.prems by (auto split: option.splits)
    from token_block_ok [OF this] show ?thesis using layout_bbox_ok by blast
  qed (rule Cons.IH)
qed simp

section \<open>Containers lose no equation\<close>

lemma clean_block_total: "otsl_engine eng \<Longrightarrow> clean_block eng b r \<noteq> None"
proof -
  assume e: "otsl_engine eng"
  have "names_ok v (eng OtslToken v)" for v using token_matches_names [of v "[]" v 0] e by (simp add: otsl_engine_def)
  then have t: "\<exists>h. otsl_html eng v = Some h" for v using otsl_rows_total [of v eng] by (auto simp: otsl_html_def)
  obtain v b' where c: "classify_block eng b r = (v, b')" by force
  obtain h where "otsl_html eng (replace_table_images b' v) = Some h" using t by blast
  then show ?thesis using c by (simp add: clean_block_def Let_def split: prod.splits)
qed

lemma clean_blocks_total:
  assumes "otsl_engine eng"
  shows "\<exists>bs'. clean_blocks eng bs = Some bs'"
proof (induction bs)
  case (Cons b bs)
  obtain bs' where bs: "clean_blocks eng bs = Some bs'" using Cons.IH by blast
  have "\<exists>b'. (case block_content b of None \<Rightarrow> Some b | Some c \<Rightarrow> clean_block eng b c) = Some b'"
    using clean_block_total [OF assms, of b] by (cases "block_content b") auto
  then show ?case using bs by fastforce
qed simp

definition absorbed :: "'f ContentBlock \<Rightarrow> bool" where
  "absorbed b \<longleftrightarrow> map_of (metadata b) (lit ''_absorbed_by_table'') \<noteq> None"

text \<open>The content \<open>c\<close> is part of an equation that stays.\<close>

definition held :: "ustr \<Rightarrow> 'f ContentBlock list \<times> bool list \<Rightarrow> bool" where
  "held c st \<longleftrightarrow> (\<exists>j < length (fst st). \<not> snd st ! j \<and> kind (fst st ! j) = EQUATION \<and>
     (\<exists>d. block_content (fst st ! j) = Some d \<and> sublist c d))"

definition resolve_inv :: "nat \<Rightarrow> ustr set \<Rightarrow> 'f ContentBlock list \<times> bool list \<Rightarrow> bool" where
  "resolve_inv n cs st \<longleftrightarrow>
     length (snd st) = length (fst st) \<and>
     (\<forall>i < length (fst st). snd st ! i \<longrightarrow> i < n \<or> kind (fst st ! i) = EQUATION) \<and>
     (\<forall>b \<in> set (fst st). kind b \<in> {EQUATION, EQUATION_BLOCK} \<longrightarrow> \<not> absorbed b) \<and>
     (\<forall>c \<in> cs. trim c \<noteq> [] \<and> held c st)"

lemma sublist_join: "x \<in> set xs \<Longrightarrow> sublist x (join sep xs)"
proof (induction sep xs rule: join.induct)
  case (3 sep y z xs)
  show ?case
  proof (cases "x = y")
    case False
    then have "sublist x (join sep (z # xs))" using 3 by auto
    then obtain a b where "join sep (z # xs) = a @ x @ b" unfolding sublist_def by metis
    then have "join sep (y # z # xs) = (y @ sep @ a) @ x @ b" by simp
    then show ?thesis unfolding sublist_def by blast
  qed simp
qed auto

lemma sublist_array: "x \<in> set xs \<Longrightarrow> sublist x (array_of xs)"
proof -
  assume "x \<in> set xs"
  then obtain a b where "join [32, slash, slash, 32] xs = a @ x @ b" using sublist_join unfolding sublist_def by metis
  then have "array_of xs = (slash # lit ''begin{array}{l} '' @ a) @ x @ (b @ 32 # slash # lit ''end{array}'')"
    by (simp add: array_of_def)
  then show ?thesis unfolding sublist_def by blast
qed

lemma fold_mark_nth: "i < length r \<Longrightarrow> fold (\<lambda>c r. r[c := True]) cs r ! i = (r ! i \<or> i \<in> set cs)"
proof (induction cs arbitrary: r)
  case (Cons c cs)
  then show ?case by (cases "i = c") simp_all
qed simp

lemma length_fold_marks [simp]: "length (fold (\<lambda>c r. r[c := True]) cs r) = length r"
  by (induction cs arbitrary: r) auto

lemma held_removed: "held c (bs, rm) \<Longrightarrow> kind (bs ! k) \<noteq> EQUATION \<Longrightarrow> held c (bs, rm[k := True])"
  unfolding held_def by (metis fst_conv snd_conv nth_list_update_neq)

lemma held_change: "held c (bs, rm) \<Longrightarrow> kind (bs ! k) \<noteq> EQUATION \<Longrightarrow> held c (bs[k := b], rm)"
  unfolding held_def by (metis fst_conv snd_conv nth_list_update_neq length_list_update)

lemma held_merge:
  assumes "held c (bs, rm)" "k < length bs" "length rm = length bs" "\<not> rm ! k" "kind (bs ! k) \<noteq> EQUATION" "k \<notin> set cs"
    and "\<And>j. j \<in> set cs \<Longrightarrow> block_content (bs ! j) \<noteq> None"
  shows "held c (bs[k := (bs ! k)\<lparr>kind := EQUATION,
      block_content := Some (array_of (map (\<lambda>j. the (block_content (bs ! j))) (filter (\<lambda>j. block_content (bs ! j) \<noteq> None) cs)))\<rparr>],
    fold (\<lambda>c r. r[c := True]) cs rm)"
proof -
  let ?xs = "map (\<lambda>j. the (block_content (bs ! j))) (filter (\<lambda>j. block_content (bs ! j) \<noteq> None) cs)"
  let ?b = "(bs ! k)\<lparr>kind := EQUATION, block_content := Some (array_of ?xs)\<rparr>"
  let ?rm = "fold (\<lambda>c r. r[c := True]) cs rm"
  obtain j d where j: "j < length bs" "\<not> rm ! j" "kind (bs ! j) = EQUATION" "block_content (bs ! j) = Some d" "sublist c d"
    using assms(1) by (auto simp: held_def)
  have ne: "j \<noteq> k" using j(3) assms(5) by auto
  show ?thesis
  proof (cases "j \<in> set cs")
    case True
    then have "d \<in> set ?xs" using j(4) by (auto intro!: image_eqI [of _ _ j])
    then have "sublist c (array_of ?xs)" using j(5) sublist_array sublist_order.order.trans by blast
    then have "k < length (bs[k := ?b]) \<and> \<not> ?rm ! k \<and> kind (bs[k := ?b] ! k) = EQUATION \<and>
        (\<exists>d. block_content (bs[k := ?b] ! k) = Some d \<and> sublist c d)"
      using assms(2-4,6) by (simp add: fold_mark_nth)
    then show ?thesis unfolding held_def fst_conv snd_conv by blast
  next
    case False
    then have "j < length (bs[k := ?b]) \<and> \<not> ?rm ! j \<and> kind (bs[k := ?b] ! j) = EQUATION \<and>
        (\<exists>d. block_content (bs[k := ?b] ! j) = Some d \<and> sublist c d)"
      using j ne assms(3) by (simp add: fold_mark_nth)
    then show ?thesis unfolding held_def fst_conv snd_conv by blast
  qed
qed

lemma children_mem:
  "j \<in> set (children fl p k bs) \<Longrightarrow> j < length bs \<and> j \<noteq> k \<and> p (bs ! j)"
  by (auto simp: children_def)

lemma absorbed_update [simp]:
  "absorbed (b\<lparr>kind := x, block_content := y\<rparr>) = absorbed b" "absorbed (b\<lparr>kind := x\<rparr>) = absorbed b"
  by (simp_all add: absorbed_def)

lemma resolve_inv_update:
  assumes "resolve_inv n cs (bs, rm)" "n < length bs" "length rm' = length rm" "kind b \<in> {EQUATION, EQUATION_BLOCK} \<longrightarrow> \<not> absorbed b"
    "\<And>c. c \<in> cs \<Longrightarrow> held c (bs[n := b], rm')" "\<And>i. i < length bs \<Longrightarrow> rm' ! i \<Longrightarrow> i \<noteq> n \<Longrightarrow> rm ! i \<or> kind (bs ! i) = EQUATION"
  shows "resolve_inv (Suc n) cs (bs[n := b], rm')"
proof -
  have "i < Suc n \<or> kind (bs[n := b] ! i) = EQUATION" if "i < length bs" "rm' ! i" for i
    using that assms(1) assms(6) [of i] by (cases "i = n") (auto simp: resolve_inv_def less_Suc_eq)
  moreover have "\<not> absorbed x" if "x \<in> set (bs[n := b])" "kind x \<in> {EQUATION, EQUATION_BLOCK}" for x
    using that set_update_subset_insert [of bs n b] assms(1,4) by (auto simp: resolve_inv_def)
  ultimately show ?thesis using assms(1,3,5) by (auto simp: resolve_inv_def)
qed

lemma resolve_step_inv:
  assumes "resolve_inv n cs (bs, rm)" "n < length bs"
  shows "resolve_inv (Suc n) cs (resolve_step fl n (bs, rm)) \<and> length (fst (resolve_step fl n (bs, rm))) = length bs"
proof -
  note inv = assms(1)
  have len: "length rm = length bs" and held: "\<And>c. c \<in> cs \<Longrightarrow> held c (bs, rm)" using inv by (auto simp: resolve_inv_def)
  have abs: "kind (bs ! n) \<in> {EQUATION, EQUATION_BLOCK} \<longrightarrow> \<not> absorbed (bs ! n)" using inv assms(2) by (auto simp: resolve_inv_def)
  have keep: "resolve_inv (Suc n) cs (bs, rm)"
    using resolve_inv_update [OF assms refl abs] held by simp
  have rem: "resolve_inv (Suc n) cs (bs, rm[n := True])" if "kind (bs ! n) \<noteq> EQUATION"
    using resolve_inv_update [OF assms _ abs, of "rm[n := True]"] held_removed [OF held that, of _] len by simp
  show ?thesis
  proof (cases "kind (bs ! n) = EQUATION_BLOCK")
    case True
    let ?cs = "children fl (\<lambda>c. kind c = EQUATION \<and> has_text c) n bs"
    have ch: "j < length bs \<and> j \<noteq> n \<and> kind (bs ! j) = EQUATION \<and> block_content (bs ! j) \<noteq> None" if "j \<in> set ?cs" for j
      using children_mem [OF that] by (auto simp: has_text_def split: option.splits)
    have nk: "kind (bs ! n) \<noteq> EQUATION" using True by simp
    have free: "\<not> rm ! n" using inv assms(2) True by (auto simp: resolve_inv_def)
    let ?b = "(bs ! n)\<lparr>kind := EQUATION,
      block_content := Some (array_of (map (\<lambda>j. the (block_content (bs ! j))) (filter (\<lambda>j. block_content (bs ! j) \<noteq> None) ?cs)))\<rparr>"
    have "resolve_inv (Suc n) cs (bs[n := ?b], fold (\<lambda>c r. r[c := True]) ?cs rm)"
    proof (rule resolve_inv_update [OF assms])
      show "held c (bs[n := ?b], fold (\<lambda>c r. r[c := True]) ?cs rm)" if "c \<in> cs" for c
        by (rule held_merge [OF held [OF that] assms(2) len free nk]) (use ch in blast)+
      show "rm ! i \<or> kind (bs ! i) = EQUATION" if "i < length bs" "fold (\<lambda>c r. r[c := True]) ?cs rm ! i" for i
        using that ch len by (auto simp: fold_mark_nth)
    qed (use abs True in simp_all)
    then show ?thesis using True keep rem nk
      by (cases ?cs rule: remdups_adj.cases) (simp_all add: resolve_step_def Let_def)
  next
    case False
    show ?thesis
    proof (cases "kind (bs ! n) \<in> {IMAGE_BLOCK, LIST}")
      case True
      then have nk: "kind (bs ! n) \<noteq> EQUATION" by auto
      have "resolve_inv (Suc n) cs (bs[n := (bs ! n)\<lparr>kind := IMAGE\<rparr>], rm)"
        by (rule resolve_inv_update [OF assms]) (use held_change [OF held nk] in auto)
      then show ?thesis using True keep rem [OF nk] by (auto simp: resolve_step_def Let_def)
    qed (use False keep in \<open>auto simp: resolve_step_def Let_def\<close>)
  qed
qed

lemma resolve_containers_inv:
  assumes "resolve_inv 0 cs (bs, replicate (length bs) False)"
  shows "resolve_inv (length bs) cs (resolve_containers fl bs)"
proof -
  have "resolve_inv n cs (fold (resolve_step fl) [0..<n] (bs, replicate (length bs) False)) \<and>
      length (fst (fold (resolve_step fl) [0..<n] (bs, replicate (length bs) False))) = length bs" if "n \<le> length bs" for n
    using that
  proof (induction n)
    case (Suc n)
    obtain bs' rm' where f: "fold (resolve_step fl) [0..<n] (bs, replicate (length bs) False) = (bs', rm')" by force
    show ?case using Suc f resolve_step_inv [of n cs bs' rm' fl] by simp
  qed (simp add: assms)
  then show ?thesis by (simp add: resolve_containers_def)
qed

lemma post_process_holds:
  assumes "resolve_containers fl bs = (bs', rm')" "resolve_inv n cs (bs', rm')" "c \<in> cs"
  shows "\<exists>b \<in> set (map (\<lambda>(r, b). public_meta b) (filter (\<lambda>(r, b). \<not> (r \<or> dropped b)) (zip rm' bs'))).
    kind b = EQUATION \<and> (\<exists>d. block_content b = Some d \<and> sublist c d)"
proof -
  have "held c (bs', rm')" using assms(2,3) by (simp add: resolve_inv_def)
  then obtain j d where j: "j < length bs'" "\<not> rm' ! j" "kind (bs' ! j) = EQUATION" "block_content (bs' ! j) = Some d" "sublist c d"
    by (auto simp: held_def)
  have len: "length rm' = length bs'" using assms(2) by (simp add: resolve_inv_def)
  have "\<not> absorbed (bs' ! j)" using assms(2) j by (auto simp: resolve_inv_def)
  then have "\<not> dropped (bs' ! j)" using j(3) by (simp add: dropped_def absorbed_def)
  moreover have "(rm' ! j, bs' ! j) \<in> set (zip rm' bs')" using j(1) len by (auto simp: in_set_zip)
  ultimately have "(rm' ! j, bs' ! j) \<in> set (filter (\<lambda>(r, b). \<not> (r \<or> dropped b)) (zip rm' bs'))" using j(2) by simp
  then have "public_meta (bs' ! j) \<in> set (map (\<lambda>(r, b). public_meta b) (filter (\<lambda>(r, b). \<not> (r \<or> dropped b)) (zip rm' bs')))"
    by force
  moreover have "kind (public_meta (bs' ! j)) = EQUATION" "block_content (public_meta (bs' ! j)) = Some d"
    using j(3,4) by (simp_all add: public_meta_def)
  ultimately show ?thesis using j(5) by blast
qed

text \<open>
  C7: cleaning a page loses no equation. Whatever the model answered, \<open>post_process\<close> returns; no private key is
  left in a block; and the text of every equation found on the page, unless an equation was absorbed by a table, is
  part of an equation that stays, however the containers on the page overlap.
\<close>

theorem post_process_keeps_equations:
  assumes "otsl_engine eng"
  shows "\<exists>cleaned out. clean_blocks eng blocks = Some cleaned \<and> post_process fl eng blocks = Some out \<and>
    (\<forall>b \<in> set out. \<forall>(k, v) \<in> set (metadata b). \<not> prefix [95] k) \<and>
    ((\<forall>b \<in> set cleaned. kind b \<in> {EQUATION, EQUATION_BLOCK} \<longrightarrow> \<not> absorbed b) \<longrightarrow>
     (\<forall>b \<in> set cleaned. kind b = EQUATION \<and> has_text b \<longrightarrow>
        (\<exists>b' \<in> set out. kind b' = EQUATION \<and> (\<exists>d. block_content b' = Some d \<and> sublist (the (block_content b)) d))))"
proof -
  obtain bs where bs: "clean_blocks eng blocks = Some bs" using clean_blocks_total [OF assms] by blast
  obtain bs' rm' where r: "resolve_containers fl bs = (bs', rm')" by force
  let ?out = "map (\<lambda>(r, b). public_meta b) (filter (\<lambda>(r, b). \<not> (r \<or> dropped b)) (zip rm' bs'))"
  have out: "post_process fl eng blocks = Some ?out" using bs r by (simp add: post_process_def)
  have priv: "\<forall>b \<in> set ?out. \<forall>(k, v) \<in> set (metadata b). \<not> prefix [95] k" by (auto simp: public_meta_def)
  have "\<exists>b' \<in> set ?out. kind b' = EQUATION \<and> (\<exists>d. block_content b' = Some d \<and> sublist (the (block_content b)) d)"
    if abs: "\<forall>b \<in> set bs. kind b \<in> {EQUATION, EQUATION_BLOCK} \<longrightarrow> \<not> absorbed b" and b: "b \<in> set bs" "kind b = EQUATION" "has_text b" for b
  proof -
    let ?cs = "{the (block_content b) |b. b \<in> set bs \<and> kind b = EQUATION \<and> has_text b}"
    have "held c (bs, replicate (length bs) False)" if c: "c \<in> ?cs" for c
    proof -
      obtain b where b: "b \<in> set bs" "kind b = EQUATION" "block_content b = Some c"
        using c by (auto simp: has_text_def split: option.splits)
      then obtain j where "j < length bs" "bs ! j = b" by (auto simp: in_set_conv_nth)
      then show ?thesis using b unfolding held_def by (intro exI [of _ j]) auto
    qed
    then have "resolve_inv 0 ?cs (bs, replicate (length bs) False)"
      using abs by (auto simp: resolve_inv_def has_text_def split: option.splits)
    from resolve_containers_inv [OF this, of fl] show ?thesis using post_process_holds [OF r] b r by fastforce
  qed
  then show ?thesis using bs out priv by blast
qed

text \<open>A container around two equations, with rational coordinates.\<close>

definition rat_floats :: "rat Floats" where
  "rat_floats = \<lparr>f_le = (\<le>), f_finite = (\<lambda>_. True), f_sub = (-), f_mul = (*), f_div = (/), f_max = max, f_min = min, f_lt = (<),
     f_literal = (\<lambda>t. if t = ''0.0'' then 0 else if t = ''0.9'' then 9 / 10 else if t = ''1.0'' then 1 else 1000),
     f_parse = (\<lambda>t. Some (of_nat (digits_val t)))\<rparr>"

definition sample_block :: "string \<Rightarrow> ustr option \<Rightarrow> rat \<Rightarrow> rat \<Rightarrow> rat ContentBlock" where
  "sample_block k c l r =
     \<lparr>kind = lit k, bbox = \<lparr>bb_left = l, bb_top = 0, bb_right = r, bb_bottom = 1\<rparr>, angle = None, block_content = c,
      merge_previous = False, metadata = []\<rparr>"

definition sample_page :: "rat ContentBlock list" where
  "sample_page = [sample_block ''equation_block'' None 0 1, sample_block ''equation'' (Some [97]) 0 (4 / 10),
     sample_block ''equation'' (Some [98]) (5 / 10) 1]"

lemma sample_clean:
  assumes "c \<in> {97, 98}"
  shows "clean_block sample_engine (sample_block ''equation'' (Some [c]) l r) [c] = Some (sample_block ''equation'' (Some [c]) l r)"
proof -
  have t: "trim [c] = [c]" using assms by (auto simp: trim_def trim_matches_def is_whitespace_def)
  have "outer_equation_delimiter [c] = None"
    using assms by (auto simp: outer_equation_delimiter_def DELIMITERS_def delimited_def)
  then have "strip_delimiters [c] = [c]" by (subst strip_delimiters.simps) simp
  moreover have "remove_unmatched_braces [c] = [c]" using assms by (auto simp: remove_unmatched_braces_def)
  ultimately have "normalize_equation sample_engine [c] = [c]"
    by (simp add: t normalize_equation_def normalize_left_right_def find_iter_def sample_engine_def)
  then show ?thesis using assms t
    by (auto simp: clean_block_def classify_block_def sample_block_def replace_str_def visual_def Let_def)
qed

theorem post_process_keeps_equations_witness:
  "\<exists>out. post_process rat_floats sample_engine sample_page = Some out \<and>
     (\<exists>b \<in> set out. kind b = EQUATION \<and> (\<exists>d. block_content b = Some d \<and> sublist [98] d))"
proof -
  have "otsl_engine sample_engine" by (simp add: otsl_engine_def sample_engine_def)
  from post_process_keeps_equations [OF this, of sample_page rat_floats]
  obtain cleaned out where o: "clean_blocks sample_engine sample_page = Some cleaned" "post_process rat_floats sample_engine sample_page = Some out"
    and k: "(\<forall>b \<in> set cleaned. kind b \<in> {EQUATION, EQUATION_BLOCK} \<longrightarrow> \<not> absorbed b) \<longrightarrow>
      (\<forall>b \<in> set cleaned. kind b = EQUATION \<and> has_text b \<longrightarrow>
        (\<exists>b' \<in> set out. kind b' = EQUATION \<and> (\<exists>d. block_content b' = Some d \<and> sublist (the (block_content b)) d)))" by blast
  have c: "cleaned = sample_page"
    using o(1) sample_clean by (simp add: sample_page_def) (simp add: sample_block_def)
  have "\<forall>b \<in> set cleaned. kind b \<in> {EQUATION, EQUATION_BLOCK} \<longrightarrow> \<not> absorbed b"
    unfolding c sample_page_def by (simp add: sample_block_def absorbed_def)
  moreover have "sample_block ''equation'' (Some [98]) (5 / 10) 1 \<in> set cleaned" unfolding c sample_page_def by simp
  moreover have "kind (sample_block ''equation'' (Some [98]) (5 / 10) 1) = EQUATION" "has_text (sample_block ''equation'' (Some [98]) (5 / 10) 1)"
    by (simp_all add: sample_block_def has_text_def trim_def trim_matches_def is_whitespace_def)
  ultimately have "\<exists>b' \<in> set out. kind b' = EQUATION \<and> (\<exists>d. block_content b' = Some d \<and> sublist (the (block_content (sample_block ''equation'' (Some [98]) (5 / 10) 1))) d)"
    using k by blast
  then show ?thesis using o(2) by (simp add: sample_block_def)
qed

text \<open>
  Two containers around the same equations: the second takes the array of the first as one more equation beside
  its parts, which are marked for removal already, so their text appears twice.
\<close>

definition nested_page :: "rat ContentBlock list" where
  "nested_page = sample_block ''equation_block'' None 0 1 # sample_page"

lemma trim_solid:
  assumes "c \<in> set v" "\<not> is_whitespace c"
  shows "trim v \<noteq> []"
proof -
  have "dropWhile is_whitespace v \<noteq> []" using assms by auto
  then have "hd (dropWhile is_whitespace v) \<in> set (dropWhile is_whitespace v)" "\<not> is_whitespace (hd (dropWhile is_whitespace v))"
    using hd_dropWhile [of is_whitespace v] assms by auto
  then show ?thesis by (auto simp: trim_def trim_matches_def)
qed

lemma has_text_solid: "block_content b = Some (c # v) \<Longrightarrow> \<not> is_whitespace c \<Longrightarrow> has_text b"
  using trim_solid [of c "c # v"] by (simp add: has_text_def)

lemma covers_rat:
  assumes "bb_top (bbox p) = 0" "bb_bottom (bbox p) = 1" "bb_top (bbox c) = 0" "bb_bottom (bbox c) = 1"
  shows "covers rat_floats p c \<longleftrightarrow> 0 < bb_right (bbox c) - bb_left (bbox c) \<and>
    9 / 10 < max (min (bb_right (bbox p)) (bb_right (bbox c)) - max (bb_left (bbox p)) (bb_left (bbox c))) 0 / (bb_right (bbox c) - bb_left (bbox c))"
  using assms by (simp add: covers_def rat_floats_def Let_def)

lemma nested_containers_repeat:
  "let (bs, rm) = resolve_containers rat_floats nested_page in
     block_content (bs ! 1) = Some (array_of [array_of [[97], [98]], [97], [98]]) \<and> rm = [True, False, True, True]"
proof -
  have u: "[0..<4] = [0, 1, 2, 3 :: nat]" by (simp add: upt_conv_Cons)
  have w: "\<not> is_whitespace 97" "\<not> is_whitespace 98" "\<not> is_whitespace slash" by (simp_all add: is_whitespace_def)
  note s = resolve_step_def children_def u covers_rat has_text_solid w sample_block_def Let_def
  let ?A = "(sample_block ''equation_block'' None 0 1)\<lparr>kind := EQUATION, block_content := Some (array_of [[97], [98]])\<rparr>"
  have ht: "has_text ?A" "\<not> has_text (sample_block k None l r)" for k l r
    by (rule has_text_solid [OF _ w(3)]) (simp_all add: array_of_def has_text_def sample_block_def)
  have "resolve_step rat_floats 0 (nested_page, [False, False, False, False]) = (nested_page[0 := ?A], [False, False, True, True])"
    using ht by (simp add: s nested_page_def sample_page_def)
  moreover have "resolve_step rat_floats 1 (nested_page[0 := ?A], [False, False, True, True]) =
      (nested_page[0 := ?A, 1 := (sample_block ''equation_block'' None 0 1)\<lparr>kind := EQUATION, block_content := Some (array_of [array_of [[97], [98]], [97], [98]])\<rparr>], [True, False, True, True])"
    using ht by (simp add: s nested_page_def sample_page_def)
  ultimately show ?thesis
    by (simp add: resolve_containers_def u nested_page_def sample_page_def) (simp add: resolve_step_def sample_block_def Let_def)
qed

end
