(* ===== verification/Page_Assets.thy ===== *)
theory Page_Assets
  imports Page_Text Vlm_Blocks
begin

text \<open>
  The assets of a page (\<open>official_builders.rs\<close>): the crops of its visual blocks and the images that table
  cells carry inline, under a cap on their bytes. Digests, base64, the JPEG encoder and the cropping of
  images are those of the crates, fields of a record; so are the operations of \<open>f32\<close>. The encoder is the
  sequence of its writes to the sink, with its own error at the end. The clock answers a check of the
  deadline at each of the places where the code makes one.
\<close>

section \<open>Parameters\<close>

record 'f PointFloats = "'f Floats" +
  f_trunc :: "'f \<Rightarrow> 'f"
  f_ceil :: "'f \<Rightarrow> 'f"
  f_floor :: "'f \<Rightarrow> 'f"
  f_clamp :: "'f \<Rightarrow> 'f \<Rightarrow> 'f \<Rightarrow> 'f"
  f_of_int :: "int \<Rightarrow> 'f"
  f_i32 :: "'f \<Rightarrow> int"
  f_u32 :: "'f \<Rightarrow> nat"
  f_number :: "'f \<Rightarrow> Value"

record RgbImage =
  rgb_width :: nat
  rgb_height :: nat
  rgb_raw :: "nat list"

record Crates =
  sha256 :: "nat list \<Rightarrow> nat list"
  md5 :: "nat list \<Rightarrow> nat list"
  b64_decode :: "ustr \<Rightarrow> nat list option"
  b64_encode :: "nat list \<Rightarrow> ustr"
  jpeg :: "RgbImage \<Rightarrow> nat list list \<times> ustr option"
  jpeg_write_error :: ustr
  crop_imm :: "RgbImage \<Rightarrow> nat \<Rightarrow> nat \<Rightarrow> nat \<Rightarrow> nat \<Rightarrow> RgbImage"

datatype Checkpoint =
  PrepareStart | PrepareEnd | PageOrder nat | MergeText nat | MergeList nat | MergeTable nat | RenderPage nat

section \<open>Data\<close>

record 'f ModelBlock =
  mb_type :: ustr
  mb_bbox :: "'f NormalizedBbox option"
  mb_angle :: "Rotation option"
  mb_content :: "ustr option"
  mb_merge_prev :: "bool option"
  mb_sub_type :: "ustr option"
  mb_extra :: "(ustr \<times> Value) list"

record 'f OfficialBuildPage =
  slice_page_idx :: nat
  page_size_points :: "'f \<times> 'f"
  render_scale :: 'f
  page_rgb :: RgbImage
  snapshot :: "'f ModelBlock list"

datatype AssetKind = Image | Table | Equation | Chart | OtherAsset ustr

record Asset =
  asset_kind :: AssetKind
  relative_path :: ustr
  media_type :: ustr
  asset_data :: "nat list"
  asset_md5 :: ustr

type_synonym assets = "(ustr \<times> Asset) list"

datatype BuildError =
    BuildProtocol ustr
  | BuildLimit string nat nat
  | BuildTimeout string
  | BuildPanic

type_synonym 'a build = "('a, BuildError) result"

definition build_err :: "string \<Rightarrow> 'a build" where
  "build_err message = Err (BuildProtocol (lit message))"

definition check_builder_deadline :: "(Checkpoint \<Rightarrow> bool) option \<Rightarrow> Checkpoint \<Rightarrow> unit build" where
  "check_builder_deadline late point =
     (case late of Some l \<Rightarrow> ensure (\<not> l point) (BuildTimeout ''official PDF'') | None \<Rightarrow> Ok ())"

section \<open>Geometry of a snapshot\<close>

definition angle_of :: "'f ModelBlock \<Rightarrow> int build" where
  "angle_of b =
     (case mb_angle b of
        None \<Rightarrow> build_err ''snapshot angle is required''
      | Some Deg0 \<Rightarrow> Ok 0 | Some Deg90 \<Rightarrow> Ok 90 | Some Deg180 \<Rightarrow> Ok 180 | Some Deg270 \<Rightarrow> Ok 270)"

abbreviation I32_MIN :: int where "I32_MIN \<equiv> - 2147483648"
abbreviation I32_MAX :: int where "I32_MAX \<equiv> 2147483647"

definition point_coord :: "'f PointFloats \<Rightarrow> 'f \<Rightarrow> 'f \<Rightarrow> int build" where
  "point_coord fl coordinate dimension =
     (let v = f_trunc fl (f_mul fl coordinate dimension) in
      if \<not> f_finite fl v \<or> f_lt fl v (f_of_int fl I32_MIN) \<or> f_lt fl (f_of_int fl I32_MAX) v
      then build_err ''snapshot geometry is outside point-coordinate range''
      else Ok (f_i32 fl v))"

definition point_bbox :: "'f PointFloats \<Rightarrow> 'f ModelBlock \<Rightarrow> 'f \<times> 'f \<Rightarrow> ibox build" where
  "point_bbox fl b dims =
     (case mb_bbox b of
        None \<Rightarrow> build_err ''snapshot bbox is required''
      | Some bb \<Rightarrow>
          if list_ex (\<lambda>v. \<not> unit_coord (Floats.truncate fl) v) [bb_left bb, bb_top bb, bb_right bb, bb_bottom bb]
          then build_err ''snapshot bbox must be finite and normalized''
          else
            and_then (point_coord fl (bb_left bb) (fst dims)) (\<lambda>p0.
            and_then (point_coord fl (bb_top bb) (snd dims)) (\<lambda>p1.
            and_then (point_coord fl (bb_right bb) (fst dims)) (\<lambda>p2.
            and_then (point_coord fl (bb_bottom bb) (snd dims)) (\<lambda>p3.
            (let (p0, p2) = (if p2 < p0 then (p2, p0) else (p0, p2));
                 (p1, p3) = (if p3 < p1 then (p3, p1) else (p1, p3)) in
             if p0 = p2 \<or> p1 = p3 then build_err ''empty snapshot geometry'' else Ok (p0, p1, p2, p3)))))))"

definition expected_pixels :: "'f PointFloats \<Rightarrow> 'f \<Rightarrow> 'f \<Rightarrow> nat build" where
  "expected_pixels fl points scale =
     (let pixels = f_ceil fl (f_mul fl points scale) in
      if \<not> f_finite fl pixels \<or> f_le fl pixels (f_literal fl ''0.0'') \<or> f_lt fl (f_of_int fl 4294967295) pixels
      then build_err ''invalid rendered page dimensions'' else Ok (f_u32 fl pixels))"

definition not_positive :: "'f PointFloats \<Rightarrow> 'f \<Rightarrow> bool" where
  "not_positive fl v \<longleftrightarrow> \<not> f_finite fl v \<or> f_le fl v (f_literal fl ''0.0'')"

definition validate_page :: "'f PointFloats \<Rightarrow> 'f OfficialBuildPage \<Rightarrow> nat option \<Rightarrow> unit build" where
  "validate_page fl page previous =
     (if (\<exists>index. previous = Some index \<and> slice_page_idx page \<le> index) \<or> not_positive fl (render_scale page) \<or>
         not_positive fl (fst (page_size_points page)) \<or> not_positive fl (snd (page_size_points page))
      then build_err ''invalid official build page''
      else
        and_then (expected_pixels fl (fst (page_size_points page)) (render_scale page)) (\<lambda>w.
        and_then (expected_pixels fl (snd (page_size_points page)) (render_scale page)) (\<lambda>h.
        if rgb_width (page_rgb page) \<noteq> w \<or> rgb_height (page_rgb page) \<noteq> h
        then build_err ''RGB snapshot does not match page points and render scale'' else Ok ())))"

section \<open>Bytes of assets\<close>

definition ASSETS :: string where "ASSETS = ''total asset bytes''"

fun asset_fold :: "nat \<Rightarrow> Asset list \<Rightarrow> nat build" where
  "asset_fold used [] = Ok used"
| "asset_fold used (a # as) =
     and_then (ok_or (cadd used (length (asset_data a))) (BuildLimit ASSETS U64_MAX U64_MAX)) (\<lambda>used. asset_fold used as)"

definition asset_bytes :: "assets \<Rightarrow> nat build" where
  "asset_bytes assets = asset_fold 0 (map snd assets)"

definition base64_upper_bound :: "nat \<Rightarrow> nat option" where
  "base64_upper_bound len =
     Option.bind (cadd len 3) (\<lambda>n. let m = n div 4 * 3 in if m \<le> U64_MAX then Some m else None)"

record CappedWriter =
  cw_data :: "nat list"
  cw_cap :: nat
  cw_attempted :: nat

definition writer_new :: "nat \<Rightarrow> CappedWriter" where
  "writer_new c = \<lparr>cw_data = [], cw_cap = c, cw_attempted = 0\<rparr>"

text \<open>\<open>write\<close>: the second component tells whether it succeeded.\<close>

definition writer_write :: "nat list \<Rightarrow> CappedWriter \<Rightarrow> CappedWriter \<times> bool" where
  "writer_write bytes w =
     (let w = w\<lparr>cw_attempted := sat_add (cw_attempted w) (length bytes)\<rparr> in
      if cw_cap w < sat_add (length (cw_data w)) (length bytes) then (w, False)
      else (w\<lparr>cw_data := cw_data w @ bytes\<rparr>, True))"

fun write_chunks :: "nat list list \<Rightarrow> CappedWriter \<Rightarrow> CappedWriter \<times> bool" where
  "write_chunks [] w = (w, True)"
| "write_chunks (c # cs) w = (case writer_write c w of (w, ok) \<Rightarrow> if ok then write_chunks cs w else (w, False))"

definition encode_jpeg :: "Crates \<Rightarrow> RgbImage \<Rightarrow> nat \<Rightarrow> nat list build" where
  "encode_jpeg cr rgb limit =
     (let (chunks, own) = jpeg cr rgb; (w, written) = write_chunks chunks (writer_new limit) in
      if written \<and> own = None then Ok (cw_data w)
      else if limit < cw_attempted w then Err (BuildLimit ASSETS limit (cw_attempted w))
      else Err (BuildProtocol (case (written, own) of (True, Some message) \<Rightarrow> message | _ \<Rightarrow> jpeg_write_error cr)))"

definition GRAY :: RgbImage where
  "GRAY = \<lparr>rgb_width = 320, rgb_height = 180, rgb_raw = replicate (320 * 180 * 3) 240\<rparr>"

definition vector_placeholder :: "Crates \<Rightarrow> nat list build" where
  "vector_placeholder cr = (case encode_jpeg cr GRAY (320 * 180 * 3) of Ok data \<Rightarrow> Ok data | Err _ \<Rightarrow> Err BuildPanic)"

section \<open>Crops\<close>

definition hex :: "nat list \<Rightarrow> ustr" where
  "hex bytes = concat (map (show_hex 2) bytes)"

definition hex_upper :: "nat list \<Rightarrow> ustr" where
  "hex_upper bytes = map (\<lambda>c. if 97 \<le> c \<and> c \<le> 122 then c - 32 else c) (hex bytes)"

definition sha :: "Crates \<Rightarrow> ustr \<Rightarrow> ustr" where
  "sha cr v = hex (sha256 cr (str_bytes v))"

definition show_int :: "int \<Rightarrow> ustr" where
  "show_int i = (if i < 0 then [45] @ show_nat (nat (- i)) else show_nat (nat i))"

definition pixel :: "'f PointFloats \<Rightarrow> 'f OfficialBuildPage \<Rightarrow> int \<Rightarrow> nat \<Rightarrow> bool \<Rightarrow> nat" where
  "pixel fl page point maximum ceil =
     (let v = f_mul fl (f_of_int fl point) (render_scale page); v = (if ceil then f_ceil fl v else f_floor fl v) in
      f_u32 fl (f_clamp fl v (f_literal fl ''0.0'') (f_of_int fl (int maximum))))"

definition crop_seed :: "nat list \<Rightarrow> nat \<Rightarrow> string \<Rightarrow> ibox \<Rightarrow> ustr" where
  "crop_seed digest page_idx tag point =
     (case point of (p0, p1, p2, p3) \<Rightarrow>
        lower (lit tag) @ [47] @ hex_upper digest @ [95] @ show_nat page_idx @ [95] @ show_int p0 @ [95] @ show_int p1 @ [95] @
        show_int p2 @ [95] @ show_int p3)"

definition images_path :: "ustr \<Rightarrow> ustr" where
  "images_path basename = lit ''images/'' @ basename"

definition crop :: "'f PointFloats \<Rightarrow> Crates \<Rightarrow> 'f OfficialBuildPage \<Rightarrow> nat list \<Rightarrow> string \<Rightarrow> AssetKind \<Rightarrow> ibox \<Rightarrow> assets \<Rightarrow> nat \<Rightarrow>
    (ustr \<times> assets) build" where
  "crop fl cr page digest tag ak point assets max_asset_bytes =
     (let rgb = page_rgb page; (p0, p1, p2, p3) = point;
          x0 = pixel fl page p0 (rgb_width rgb) False; y0 = pixel fl page p1 (rgb_height rgb) False;
          x1 = pixel fl page p2 (rgb_width rgb) True; y1 = pixel fl page p3 (rgb_height rgb) True in
      if x1 \<le> x0 \<or> y1 \<le> y0 then build_err ''empty crop''
      else
        (let basename = sha cr (crop_seed digest (slice_page_idx page) tag point) @ lit ''.jpg''; path = images_path basename in
         if map_of assets path \<noteq> None then Ok (basename, assets)
         else
           and_then (asset_bytes assets) (\<lambda>used.
             (let remaining = max_asset_bytes - used; raw = (x1 - x0) * (y1 - y0) * 3 in
              if U64_MAX < raw then Err (BuildLimit ASSETS max_asset_bytes U64_MAX)
              else if remaining < raw then Err (BuildLimit ASSETS max_asset_bytes (sat_add used raw))
              else
                and_then (encode_jpeg cr (crop_imm cr rgb x0 y0 (x1 - x0) (y1 - y0)) remaining) (\<lambda>data.
                Ok (basename, map_insert path
                  \<lparr>asset_kind = ak, relative_path = path, media_type = lit ''image/jpeg'', asset_data = data, asset_md5 = hex (md5 cr data)\<rparr>
                  assets))))))"

section \<open>Inline images\<close>

definition extension_of :: "ustr \<Rightarrow> ustr" where
  "extension_of declared =
     (let main = (case split_once 43 declared of Some (k, _) \<Rightarrow> k | None \<Rightarrow> declared) in
      if main = lit ''jpeg'' then lit ''jpg'' else main)"

definition VECTOR :: "ustr list" where
  "VECTOR = map lit [''wmf'', ''emf'', ''x-wmf'', ''x-emf'']"

definition base64_chars :: "ustr \<Rightarrow> ustr" where
  "base64_chars v = filter (\<lambda>c. is_ascii_alphanumeric c \<or> c = 43 \<or> c = 47 \<or> c = 61) v"

definition jpeg_uri :: "Crates \<Rightarrow> nat list \<Rightarrow> ustr" where
  "jpeg_uri cr data = lit ''data:image/jpeg;base64,'' @ b64_encode cr data"

text \<open>What is stored for an image: its bytes, extension, media type and the text its path is derived from.\<close>

definition inline_payload :: "Crates \<Rightarrow> ustr \<Rightarrow> ustr \<Rightarrow> nat list \<Rightarrow> (nat list \<times> ustr \<times> ustr \<times> ustr) build" where
  "inline_payload cr uri declared data =
     (if declared \<in> set VECTOR
      then and_then (vector_placeholder cr) (\<lambda>p. Ok (p, lit ''jpg'', lit ''image/jpeg'', jpeg_uri cr p))
      else Ok (data, extension_of declared, lit ''image/'' @ declared, uri))"

definition store_inline :: "Crates \<Rightarrow> ustr \<Rightarrow> ustr \<Rightarrow> nat list \<Rightarrow> assets \<Rightarrow> assets build" where
  "store_inline cr path media data assets =
     (case map_of assets path of
        Some existing \<Rightarrow> if asset_data existing \<noteq> data then build_err ''inline asset collision'' else Ok assets
      | None \<Rightarrow> Ok (map_insert path
          \<lparr>asset_kind = Image, relative_path = path, media_type = media, asset_data = data, asset_md5 = hex (md5 cr data)\<rparr> assets))"

text \<open>One turn of the loop; the second component maps the replaced URIs to their names.\<close>

definition inline_image :: "engine \<Rightarrow> Crates \<Rightarrow> nat \<Rightarrow> ustr \<Rightarrow> assets \<times> (ustr \<times> ustr) list \<Rightarrow> (assets \<times> (ustr \<times> ustr) list) build" where
  "inline_image eng cr max_asset_bytes uri st =
     (case eng DataUri uri of
        [] \<Rightarrow> Ok st
      | parts # _ \<Rightarrow>
          (let (assets, replacements) = st;
               declared = lower (span_text uri (the (capture 1 parts)));
               encoded = base64_chars (span_text uri (the (capture 2 parts))) in
           and_then (asset_bytes assets) (\<lambda>used.
           and_then (ok_or (base64_upper_bound (blen encoded)) (BuildLimit ASSETS max_asset_bytes U64_MAX)) (\<lambda>upper.
           if max_asset_bytes - used < upper then Err (BuildLimit ASSETS max_asset_bytes (sat_add used upper))
           else
             (case b64_decode cr encoded of
                None \<Rightarrow> Ok st
              | Some data \<Rightarrow>
                  and_then (inline_payload cr uri declared data) (\<lambda>(data, extension, media, seed).
                  (let basename = sha cr seed @ [46] @ extension; path = images_path basename in
                   and_then (store_inline cr path media data assets) (\<lambda>assets.
                   Ok (assets, map_insert uri basename replacements)))))))))"

fun inline_loop :: "engine \<Rightarrow> Crates \<Rightarrow> nat \<Rightarrow> ustr list \<Rightarrow> assets \<times> (ustr \<times> ustr) list \<Rightarrow> (assets \<times> (ustr \<times> ustr) list) build" where
  "inline_loop eng cr m [] st = Ok st"
| "inline_loop eng cr m (uri # uris) st = and_then (inline_image eng cr m uri st) (inline_loop eng cr m uris)"

definition inline_images :: "engine \<Rightarrow> Crates \<Rightarrow> ustr \<Rightarrow> assets \<Rightarrow> nat \<Rightarrow> (ustr \<times> assets) build" where
  "inline_images eng cr html assets max_asset_bytes =
     (if html = [] \<or> \<not> contains (lit ''base64,'') html then Ok (html, assets)
      else
        (let group = (\<lambda>n c. span_text html (the (capture n c))) in
         and_then (inline_loop eng cr max_asset_bytes (map (group 1) (eng DataSource html)) (assets, [])) (\<lambda>(assets, replacements).
         Ok (replace_all eng DataSource (\<lambda>c.
               case map_of replacements (group 1 c) of
                 None \<Rightarrow> group 0 c
               | Some basename \<Rightarrow> lit ''src='' @ [34] @ basename @ [34]) html, assets))))"

section \<open>The cap on the bytes of assets\<close>

definition asset_sum :: "assets \<Rightarrow> nat" where
  "asset_sum assets = sum_list (map (\<lambda>e. length (asset_data (snd e))) assets)"

lemma asset_fold_sum: "asset_fold used as = Ok n \<Longrightarrow> n = used + sum_list (map (\<lambda>a. length (asset_data a)) as)"
proof (induction as arbitrary: used)
  case (Cons a as)
  obtain u where "cadd used (length (asset_data a)) = Some u" "asset_fold u as = Ok n"
    using Cons.prems by (auto simp: result_simps)
  then show ?case using Cons.IH [of u] by (auto simp: cadd_def split: if_splits)
qed simp

lemma asset_bytes_sum: "asset_bytes assets = Ok n \<Longrightarrow> n = asset_sum assets"
  using asset_fold_sum [of 0 "map snd assets" n] by (simp add: asset_bytes_def asset_sum_def o_def)

lemma asset_sum_insert: "map_of assets path = None \<Longrightarrow> asset_sum (map_insert path a assets) = asset_sum assets + length (asset_data a)"
  by (induction assets) (auto simp: asset_sum_def split: if_splits)

lemma write_chunks_cap:
  "write_chunks cs w = (w', ok) \<Longrightarrow> cw_cap w < U64_MAX \<Longrightarrow> length (cw_data w) \<le> cw_cap w \<Longrightarrow> length (cw_data w') \<le> cw_cap w"
proof (induction cs arbitrary: w)
  case (Cons c cs)
  obtain v k where v: "writer_write c w = (v, k)" by force
  have "cw_cap v = cw_cap w" "length (cw_data v) \<le> cw_cap w"
    using v Cons.prems(2,3) by (auto simp: writer_write_def sat_add_def Let_def split: if_splits)
  then show ?case using Cons.IH [of v] Cons.prems v by (auto split: if_splits)
qed simp

lemma encode_jpeg_cap: "encode_jpeg cr rgb limit = Ok data \<Longrightarrow> limit < U64_MAX \<Longrightarrow> length data \<le> limit"
  using write_chunks_cap [of "fst (jpeg cr rgb)" "writer_new limit"]
  by (auto simp: encode_jpeg_def writer_new_def Let_def split: prod.splits if_splits)

text \<open>The stated bound of the base64 decoder.\<close>

definition decode_bounded :: "Crates \<Rightarrow> bool" where
  "decode_bounded cr \<longleftrightarrow> (\<forall>v data. b64_decode cr v = Some data \<longrightarrow> length data \<le> (length v + 3) div 4 * 3)"

definition placeholder_path :: "Crates \<Rightarrow> nat list \<Rightarrow> ustr" where
  "placeholder_path cr p = images_path (sha cr (jpeg_uri cr p) @ [46] @ lit ''jpg'')"

text \<open>The assets stay within the cap, or exceed it by the one placeholder of a vector image.\<close>

definition capped_assets :: "Crates \<Rightarrow> nat \<Rightarrow> assets \<Rightarrow> bool" where
  "capped_assets cr m assets \<longleftrightarrow> asset_sum assets \<le> m \<or>
     (\<exists>p. vector_placeholder cr = Ok p \<and> map_of assets (placeholder_path cr p) \<noteq> None \<and> asset_sum assets \<le> m + length p)"

lemma capped_insert:
  assumes "capped_assets cr m assets" "map_of assets path = None" "length (asset_data a) \<le> m - asset_sum assets"
  shows "capped_assets cr m (map_insert path a assets)"
  using assms by (auto simp: capped_assets_def asset_sum_insert)

lemma crop_capped:
  assumes "crop fl cr page digest tag ak point assets m = Ok (basename, assets')" "m < U64_MAX" "capped_assets cr m assets"
  shows "capped_assets cr m assets'"
proof (cases "assets' = assets")
  case False
  obtain path a rgb where a: "assets' = map_insert path a assets" "map_of assets path = None"
      and d: "encode_jpeg cr rgb (m - asset_sum assets) = Ok (asset_data a)"
    using assms(1) False
    by (auto simp: crop_def Let_def build_err_def result_simps dest: asset_bytes_sum split: prod.splits if_splits)
  show ?thesis unfolding a by (rule capped_insert [OF assms(3) a(2)]) (use encode_jpeg_cap [OF d] assms(2) in simp)
qed (use assms in simp)

lemma blen_base64: "blen (base64_chars v) = length (base64_chars v)"
  by (rule ascii_blen) (auto simp: base64_chars_def is_ascii_alphanumeric_def is_ascii_digit_def)

lemma upper_bound: "base64_upper_bound n = Some u \<Longrightarrow> u = (n + 3) div 4 * 3"
  by (auto simp: base64_upper_bound_def cadd_def Let_def split: if_splits)

lemma inline_payload_capped:
  assumes "decode_bounded cr" "b64_decode cr (base64_chars v) = Some data"
    and "base64_upper_bound (blen (base64_chars v)) = Some upper" "upper \<le> m - asset_sum assets"
    and "inline_payload cr uri declared data = Ok (payload, extension, media, seed)"
  shows "length payload \<le> m - asset_sum assets \<or>
    (vector_placeholder cr = Ok payload \<and> images_path (sha cr seed @ [46] @ extension) = placeholder_path cr payload)"
proof (cases "declared \<in> set VECTOR")
  case True
  then show ?thesis using assms(5) by (auto simp: inline_payload_def placeholder_path_def result_simps)
next
  case False
  then have "payload = data" using assms(5) by (simp add: inline_payload_def)
  moreover have "length data \<le> upper"
    using assms(1,2) upper_bound [OF assms(3)] by (simp add: decode_bounded_def blen_base64)
  ultimately show ?thesis using assms(4) by simp
qed

lemma capped_placeholder:
  assumes "capped_assets cr m assets" "map_of assets (placeholder_path cr p) = None" "vector_placeholder cr = Ok p" "asset_data a = p"
  shows "capped_assets cr m (map_insert (placeholder_path cr p) a assets)"
  using assms by (auto simp: capped_assets_def asset_sum_insert)

lemma inline_image_capped:
  assumes "inline_image eng cr m uri (assets, rs) = Ok (assets', rs')" "decode_bounded cr" "capped_assets cr m assets"
  shows "capped_assets cr m assets'"
proof (cases "assets' = assets")
  case False
  then obtain parts ps where e: "eng DataUri uri = parts # ps" using assms(1) by (cases "eng DataUri uri") (auto simp: inline_image_def)
  define v where "v = span_text uri (the (capture 2 parts))"
  obtain upper data payload extension media seed where
      u: "base64_upper_bound (blen (base64_chars v)) = Some upper" "upper \<le> m - asset_sum assets"
      and d: "b64_decode cr (base64_chars v) = Some data"
      and p: "inline_payload cr uri (lower (span_text uri (the (capture 1 parts)))) data = Ok (payload, extension, media, seed)"
      and s: "store_inline cr (images_path (sha cr seed @ [46] @ extension)) media payload assets = Ok assets'"
    using assms(1) False
    by (auto simp: inline_image_def e Let_def result_simps v_def dest!: asset_bytes_sum split: option.split_asm if_split_asm prod.split_asm)
  define path where "path = images_path (sha cr seed @ [46] @ extension)"
  have n: "map_of assets path = None"
    using s False by (auto simp: path_def store_inline_def build_err_def split: option.splits if_splits)
  then obtain a where a: "assets' = map_insert path a assets" "asset_data a = payload"
    using s by (auto simp: path_def store_inline_def)
  from inline_payload_capped [OF assms(2) d u p] show ?thesis
    using capped_insert [OF assms(3) n] capped_placeholder [OF assms(3), of payload a] a n by (auto simp: path_def)
qed (use assms in simp)

lemma inline_loop_capped:
  "inline_loop eng cr m uris (assets, rs) = Ok (assets', rs') \<Longrightarrow> decode_bounded cr \<Longrightarrow> capped_assets cr m assets \<Longrightarrow> capped_assets cr m assets'"
proof (induction uris arbitrary: assets rs)
  case (Cons uri uris)
  obtain as1 rs1 where "inline_image eng cr m uri (assets, rs) = Ok (as1, rs1)" "inline_loop eng cr m uris (as1, rs1) = Ok (assets', rs')"
    using Cons.prems(1) by (auto simp: result_simps)
  then show ?case using Cons.IH Cons.prems inline_image_capped by blast
qed simp

lemma inline_images_capped:
  assumes "inline_images eng cr html assets m = Ok (html', assets')" "decode_bounded cr" "capped_assets cr m assets"
  shows "capped_assets cr m assets'"
  using assms inline_loop_capped by (fastforce simp: inline_images_def Let_def result_simps split: if_splits prod.splits)

end
