(* ===== verification/Page_Compose.thy ===== *)
theory Page_Compose
  imports Page_Assets
begin

text \<open>
  The composition of a page (\<open>official_builders.rs\<close>): the blocks of a snapshot become leaves, lists and
  visual blocks with their captions and footnotes. Box coordinates are \<open>i32\<close>, with the wrap-around of a
  release build written out; the operations of \<open>f64\<close> are fields of a record.
\<close>

section \<open>Blocks of a snapshot\<close>

definition blank_block :: "ibox \<Rightarrow> int \<Rightarrow> nat \<Rightarrow> Block" where
  "blank_block box a index =
     \<lparr>block_kind = [], block_bbox = box, block_angle = a, lines = [], block_index = index, merge_prev = None, block_sub_type = None,
      guess_lang = None, image_path = None, block_cell_merge = None, cross_page = False, lines_deleted = False\<rparr>"

definition one_line :: "ibox \<Rightarrow> Span list \<Rightarrow> Line list" where
  "one_line box ss = [\<lparr>line_bbox = box, spans = ss\<rparr>]"

definition TEXT_TYPES :: "ustr list" where
  "TEXT_TYPES = map lit [''text'', ''title'', ''ref_text'', ''phonetic'', ''header'', ''footer'', ''page_number'', ''aside_text'',
     ''page_footnote'', ''formula_number'', ''index'', ''list_item'']"

definition CAPTION_TYPES :: "ustr list" where
  "CAPTION_TYPES = map lit [''table_caption'', ''image_caption'', ''chart_caption'', ''code_caption'', ''caption'']"

definition FOOTNOTE_TYPES :: "ustr list" where
  "FOOTNOTE_TYPES = map lit [''table_footnote'', ''image_footnote'', ''chart_footnote'', ''code_footnote'', ''footnote'']"

text \<open>The title's first span has its white space compacted.\<close>

fun compact_title :: "Span list \<Rightarrow> Span list" where
  "compact_title (SpanText v # ss) = SpanText (join [32] (split_whitespace v)) # ss"
| "compact_title ss = ss"

text \<open>A crop of the block's box; without a digest of the page the code panics.\<close>

definition cropped :: "'f PointFloats \<Rightarrow> Crates \<Rightarrow> 'f OfficialBuildPage \<Rightarrow> nat list option \<Rightarrow> string \<Rightarrow> AssetKind \<Rightarrow> nat \<Rightarrow> Block \<Rightarrow> assets \<Rightarrow>
    (Block \<times> assets) build" where
  "cropped fl cr page digest tag ak m b assets =
     (case digest of
        None \<Rightarrow> Err BuildPanic
      | Some d \<Rightarrow> and_then (crop fl cr page d tag ak (block_bbox b) assets m) (\<lambda>(path, assets). Ok (b\<lparr>image_path := Some path\<rparr>, assets)))"

definition nonempty :: "ustr option \<Rightarrow> ustr option" where
  "nonempty v = opt_filter (\<lambda>s. s \<noteq> []) v"

definition raw_block :: "engine \<Rightarrow> 'f PointFloats \<Rightarrow> Crates \<Rightarrow> 'f OfficialBuildPage \<Rightarrow> nat list option \<Rightarrow> 'f ModelBlock \<Rightarrow> nat \<Rightarrow> assets \<Rightarrow> nat \<Rightarrow>
    (Block \<times> assets) build" where
  "raw_block eng fl cr page digest mb index assets m =
     and_then (point_bbox fl mb (page_size_points page)) (\<lambda>box.
     and_then (angle_of mb) (\<lambda>a.
       (let b = blank_block box a index; t = mb_type mb; content = or_empty (mb_content mb);
            text = one_line box (text_spans eng content) in
        if t \<in> set TEXT_TYPES then
          Ok (b\<lparr>block_kind := (if t \<in> {lit ''formula_number'', lit ''index'', lit ''list_item''} then lit ''text'' else t),
                lines := (if t = lit ''title'' then one_line box (compact_title (text_spans eng content)) else text),
                merge_prev := (if t = lit ''text'' then mb_merge_prev mb else None)\<rparr>, assets)
        else if t = lit ''list'' then
          if mb_content mb \<noteq> None \<and> content \<noteq> [] then build_err ''list marker content must be null or empty''
          else Ok (b\<lparr>block_kind := lit ''list''\<rparr>, assets)
        else if t \<in> set CAPTION_TYPES then Ok (b\<lparr>block_kind := lit ''caption'', lines := text\<rparr>, assets)
        else if t \<in> set FOOTNOTE_TYPES then Ok (b\<lparr>block_kind := lit ''footnote'', lines := text\<rparr>, assets)
        else if t = lit ''table'' then
          and_then (inline_images eng cr content assets m) (\<lambda>(html, assets).
          and_then (cropped fl cr page digest ''table'' Table m (b\<lparr>block_kind := lit ''table_body'', lines := one_line box [SpanTable html]\<rparr>) assets) (\<lambda>(b, assets).
          Ok (b\<lparr>block_cell_merge := opt_filter json_truthy (map_of (mb_extra mb) (lit ''cell_merge''))\<rparr>, assets)))
        else if t = lit ''image'' \<or> t = lit ''image_block'' then
          and_then (cropped fl cr page digest ''image'' Image m
            (b\<lparr>block_kind := (if t = lit ''image'' then lit ''image_body'' else lit ''image_block_body''),
               lines := one_line box [SpanImage (mb_content mb)]\<rparr>) assets) (\<lambda>(b, assets).
          Ok (if t = lit ''image'' then b\<lparr>block_sub_type := nonempty (mb_sub_type mb)\<rparr> else b, assets))
        else if t = lit ''chart'' then
          and_then (cropped fl cr page digest ''chart'' Chart m
            (b\<lparr>block_kind := lit ''chart_body'', lines := one_line box [SpanChart (mb_content mb)]\<rparr>) assets) (\<lambda>(b, assets).
          Ok (b\<lparr>block_sub_type := nonempty (mb_sub_type mb)\<rparr>, assets))
        else if t = lit ''equation'' then
          cropped fl cr page digest ''interline_equation'' Equation m
            (b\<lparr>block_kind := lit ''interline_equation'',
               lines := one_line box (case mb_content mb of Some v \<Rightarrow> [InterlineEquation (equation_content v)] | None \<Rightarrow> [])\<rparr>) assets
        else if t = lit ''equation_block'' then Ok (b\<lparr>block_kind := lit ''equation_block''\<rparr>, assets)
        else if t = lit ''code'' \<or> t = lit ''algorithm'' then
          (let ss = text_spans eng (code_content content) in
           Ok (b\<lparr>block_kind := lit ''code_body'',
                 block_sub_type := Some (if t = lit ''code'' \<and> list_ex is_inline ss then lit ''algorithm'' else t),
                 guess_lang := nonempty (Option.bind (map_of (mb_extra mb) (lit ''guess_lang'')) as_str),
                 lines := one_line box ss\<rparr>, assets))
        else Err (BuildProtocol (lit ''unknown raw type: '' @ t)))))"

section \<open>Geometry of blocks\<close>

definition i32 :: "int \<Rightarrow> int" where
  "i32 x = (x + 2147483648) mod 4294967296 - 2147483648"

fun box_left :: "ibox \<Rightarrow> int" where "box_left (l, t, r, b) = l"
fun box_top :: "ibox \<Rightarrow> int" where "box_top (l, t, r, b) = t"
fun box_right :: "ibox \<Rightarrow> int" where "box_right (l, t, r, b) = r"
fun box_bottom :: "ibox \<Rightarrow> int" where "box_bottom (l, t, r, b) = b"

datatype Ordering = Less | Equal | Greater

record 'd Doubles =
  d_of_int :: "int \<Rightarrow> 'd"
  d_literal :: "string \<Rightarrow> 'd"
  d_add :: "'d \<Rightarrow> 'd \<Rightarrow> 'd"
  d_sub :: "'d \<Rightarrow> 'd \<Rightarrow> 'd"
  d_mul :: "'d \<Rightarrow> 'd \<Rightarrow> 'd"
  d_div :: "'d \<Rightarrow> 'd \<Rightarrow> 'd"
  d_neg :: "'d \<Rightarrow> 'd"
  d_sqrt :: "'d \<Rightarrow> 'd"
  d_min :: "'d \<Rightarrow> 'd \<Rightarrow> 'd"
  d_max :: "'d \<Rightarrow> 'd \<Rightarrow> 'd"
  d_eq :: "'d \<Rightarrow> 'd \<Rightarrow> bool"
  d_lt :: "'d \<Rightarrow> 'd \<Rightarrow> bool"
  d_le :: "'d \<Rightarrow> 'd \<Rightarrow> bool"
  d_total_cmp :: "'d \<Rightarrow> 'd \<Rightarrow> Ordering"
  d_clamp :: "'d \<Rightarrow> 'd \<Rightarrow> 'd \<Rightarrow> 'd"
  d_round :: "'d \<Rightarrow> 'd"
  d_i32 :: "'d \<Rightarrow> int"
  d_number :: "'d \<Rightarrow> Value"

definition is_chrome :: "ustr \<Rightarrow> bool" where
  "is_chrome k \<longleftrightarrow> k \<in> set (map lit [''header'', ''footer'', ''page_number'', ''aside_text'', ''page_footnote''])"

definition is_visual_body :: "ustr \<Rightarrow> bool" where
  "is_visual_body k \<longleftrightarrow> k \<in> set (map lit [''image_body'', ''image_block_body'', ''table_body'', ''chart_body'', ''code_body''])"

definition visual_kind :: "ustr \<Rightarrow> ustr" where
  "visual_kind k =
     (if k = lit ''table_body'' then lit ''table'' else if k = lit ''chart_body'' then lit ''chart''
      else if k = lit ''code_body'' then lit ''code'' else lit ''image'')"

definition overlap_ratio :: "'d Doubles \<Rightarrow> ibox \<Rightarrow> ibox \<Rightarrow> 'd" where
  "overlap_ratio db inn out =
     (let l = max (box_left inn) (box_left out); t = max (box_top inn) (box_top out);
          r = min (box_right inn) (box_right out); b = min (box_bottom inn) (box_bottom out);
          overlap = d_mul db (d_of_int db (max (i32 (r - l)) 0)) (d_of_int db (max (i32 (b - t)) 0));
          area = d_mul db (d_of_int db (i32 (box_right inn - box_left inn))) (d_of_int db (i32 (box_bottom inn - box_top inn))) in
      if d_eq db area (d_literal db ''0.0'') then d_literal db ''0.0'' else d_div db overlap area)"

definition overlaps :: "ibox \<Rightarrow> ibox \<Rightarrow> bool" where
  "overlaps p q \<longleftrightarrow> box_left p < box_right q \<and> box_right p > box_left q \<and> box_top p < box_bottom q \<and> box_bottom p > box_top q"

definition outside_visual_gap :: "ibox \<Rightarrow> ibox \<Rightarrow> ibox \<Rightarrow> bool" where
  "outside_visual_gap between child parent \<longleftrightarrow>
     (let gap = (if box_bottom child \<le> box_top parent then Some (box_bottom child, box_top parent)
                 else if box_bottom parent \<le> box_top child then Some (box_bottom parent, box_top child) else None) in
      case gap of
        None \<Rightarrow> False
      | Some (upper, below) \<Rightarrow>
          \<not> overlaps between child \<and> \<not> overlaps between parent \<and> (below \<le> box_top between \<or> box_bottom between \<le> upper))"

definition between_blocks :: "Block \<Rightarrow> Block \<Rightarrow> Block list \<Rightarrow> Block list" where
  "between_blocks child parent blocks =
     filter (\<lambda>b. min (block_index child) (block_index parent) < block_index b \<and> block_index b < max (block_index child) (block_index parent)) blocks"

definition visual_neighbor :: "Block \<Rightarrow> Block \<Rightarrow> Block list \<Rightarrow> bool" where
  "visual_neighbor child parent blocks \<longleftrightarrow>
     (if block_kind child = lit ''footnote'' \<and> block_index child < block_index parent then False
      else
        (let allowed = (if block_kind child = lit ''caption'' then [lit ''caption''] else [lit ''caption'', lit ''footnote'']) in
         list_all (\<lambda>b. block_kind b \<in> set allowed \<or> outside_visual_gap (block_bbox b) (block_bbox child) (block_bbox parent))
           (between_blocks child parent blocks)))"

definition hypotenuse :: "'d Doubles \<Rightarrow> 'd \<Rightarrow> 'd \<Rightarrow> 'd" where
  "hypotenuse db x y = d_sqrt db (d_add db (d_mul db x x) (d_mul db y y))"

definition bbox_distance :: "'d Doubles \<Rightarrow> ibox \<Rightarrow> ibox \<Rightarrow> 'd" where
  "bbox_distance db p q =
     (let dx = (if box_right p < box_left q then d_of_int db (i32 (box_left q - box_right p))
                else if box_right q < box_left p then d_of_int db (i32 (box_left p - box_right q)) else d_literal db ''0.0'');
          dy = (if box_bottom p < box_top q then d_of_int db (i32 (box_top q - box_bottom p))
                else if box_bottom q < box_top p then d_of_int db (i32 (box_top p - box_bottom q)) else d_literal db ''0.0'') in
      hypotenuse db dx dy)"

definition center_distance :: "'d Doubles \<Rightarrow> ibox \<Rightarrow> ibox \<Rightarrow> 'd" where
  "center_distance db p q =
     hypotenuse db (d_of_int db (i32 (box_left p + box_right p - box_left q - box_right q)))
       (d_of_int db (i32 (box_top p + box_bottom p - box_top q - box_bottom q)))"

definition effective_index_distance :: "Block \<Rightarrow> Block \<Rightarrow> Block list \<Rightarrow> nat" where
  "effective_index_distance child parent blocks =
     max (block_index child) (block_index parent) - min (block_index child) (block_index parent) -
     length (filter (\<lambda>b. block_kind b = block_kind child) (between_blocks child parent blocks))"

text \<open>\<open>Iterator::min_by\<close>: the first of the least elements.\<close>

fun min_by :: "('a \<Rightarrow> 'a \<Rightarrow> Ordering) \<Rightarrow> 'a list \<Rightarrow> 'a option" where
  "min_by cmp [] = None"
| "min_by cmp (x # xs) = Some (foldl (\<lambda>m y. if cmp m y = Greater then y else m) x xs)"

definition then_with :: "Ordering \<Rightarrow> Ordering \<Rightarrow> Ordering" where
  "then_with o1 o2 = (if o1 = Equal then o2 else o1)"

definition cmp_of :: "'a::linorder \<Rightarrow> 'a \<Rightarrow> Ordering" where
  "cmp_of x y = (if x < y then Less else if x = y then Equal else Greater)"

definition by_distance :: "'d Doubles \<Rightarrow> (ibox \<Rightarrow> ibox \<Rightarrow> 'd) \<Rightarrow> Block \<Rightarrow> Block \<Rightarrow> Block \<Rightarrow> Ordering" where
  "by_distance db measured child p q =
     then_with (d_total_cmp db (measured (block_bbox child) (block_bbox p)) (measured (block_bbox child) (block_bbox q)))
       (cmp_of (block_index p) (block_index q))"

definition best_visual_parent :: "'d Doubles \<Rightarrow> Block \<Rightarrow> Block list \<Rightarrow> Block list \<Rightarrow> Block option" where
  "best_visual_parent db child parents blocks =
     (let candidates = filter (\<lambda>p. visual_neighbor child p blocks) parents;
          distance = (\<lambda>p. effective_index_distance child p blocks) in
      if candidates = [] then None
      else
        (let minimum = Min (set (map distance candidates));
             closest = filter (\<lambda>p. distance p = minimum) candidates;
             boxes = map (\<lambda>p. bbox_distance db (block_bbox child) (block_bbox p)) closest;
             low = fold (\<lambda>v l. d_min db l v) boxes (d_literal db ''INFINITY'');
             high = fold (\<lambda>v h. d_max db h v) boxes (d_literal db ''NEG_INFINITY'') in
         if length closest = 1 then Some (hd closest)
         else if d_lt db (d_literal db ''2.0'') (d_sub db high low) then min_by (by_distance db (bbox_distance db) child) closest
         else if block_kind child = lit ''caption'' \<and> list_all (\<lambda>p. visual_kind (block_kind p) = lit ''table'') closest
           then max_by_key block_index closest
         else if block_kind child = lit ''footnote'' then min_by_key block_index closest
         else min_by (by_distance db (center_distance db) child) closest))"

section \<open>Captions that the model missed\<close>

definition near_above :: "Block \<Rightarrow> Block \<Rightarrow> bool" where
  "near_above child parent \<longleftrightarrow>
     (let c = block_bbox child; p = block_bbox parent;
          width = max (i32 (box_right p - box_left p)) 1; height = max (i32 (box_bottom c - box_top c)) 1;
          margin = max (i32 (width * 3) div 100) 12 in
      box_bottom c \<le> box_top p \<and> i32 (box_top p - box_bottom c) \<le> max (i32 (height * 3) div 2) 12 \<and>
      i32 (box_left p - margin) \<le> box_right c \<and> box_left c \<le> i32 (box_right p + margin))"

definition to_caption :: "Block \<Rightarrow> Block" where
  "to_caption b = b\<lparr>block_kind := lit ''caption'', merge_prev := None\<rparr>"

definition caption_between :: "nat \<Rightarrow> Block list \<Rightarrow> Block list" where
  "caption_between i bs =
     (let prev = bs ! (i - 1); b = bs ! i; nxt = bs ! (i + 1) in
      if block_kind b = lit ''text'' \<and> block_kind prev = lit ''caption'' \<and> is_visual_body (block_kind nxt) \<and> near_above b nxt \<and>
         box_top (block_bbox prev) < box_bottom (block_bbox b) \<and> box_bottom (block_bbox prev) > box_top (block_bbox b)
      then bs[i := to_caption b] else bs)"

fun caption_scan :: "Block \<Rightarrow> nat list \<Rightarrow> bool \<Rightarrow> Block list \<Rightarrow> Block list" where
  "caption_scan table [] saw_caption bs = bs"
| "caption_scan table (i # is) saw_caption bs =
     (let b = bs ! i in
      if \<not> near_above b table then bs
      else if block_kind b = lit ''caption'' then caption_scan table is True bs
      else if saw_caption \<and> block_kind b \<in> {lit ''text'', lit ''footnote''} \<and> length (lines b) \<le> 1
        then caption_scan table is saw_caption (bs[i := to_caption b])
      else caption_scan table is saw_caption bs)"

definition says_continued :: "ustr \<Rightarrow> bool" where
  "says_continued v \<longleftrightarrow> contains (lit ''continued'') v \<or> contains (lit ''continuation'') v \<or> contains [0x7EED, 0x8868] v"

definition table_captions :: "nat \<Rightarrow> Block list \<Rightarrow> Block list" where
  "table_captions t bs =
     (if block_kind (bs ! t) \<noteq> lit ''table_body'' then bs
      else
        (let bs = caption_scan (bs ! t) (rev [0..<t]) False bs in
         case find_char (\<lambda>b. \<not> is_chrome (block_kind b)) bs of
           None \<Rightarrow> bs
         | Some first \<Rightarrow>
             if first < t \<and> block_kind (bs ! first) = lit ''text'' \<and> near_above (bs ! first) (bs ! t) \<and> says_continued (lower (block_text (bs ! first)))
             then bs[first := to_caption (bs ! first)] else bs))"

definition caption_fallbacks :: "Block list \<Rightarrow> Block list" where
  "caption_fallbacks bs = (let bs = fold caption_between [1..<length bs - 1] bs in fold table_captions [0..<length bs] bs)"

section \<open>Lists\<close>

text \<open>The candidates a marker takes; an index is consumed once.\<close>

fun take_items :: "'d Doubles \<Rightarrow> Block \<Rightarrow> Block list \<Rightarrow> nat list \<Rightarrow> Block list \<times> nat list" where
  "take_items db marker [] consumed = ([], consumed)"
| "take_items db marker (c # cs) consumed =
     (if block_index c \<in> set consumed \<or> d_lt db (overlap_ratio db (block_bbox c) (block_bbox marker)) (d_literal db ''0.8'')
      then take_items db marker cs consumed
      else case take_items db marker cs (block_index c # consumed) of (items, consumed) \<Rightarrow> (c # items, consumed))"

definition list_sub_type :: "Block list \<Rightarrow> ustr option" where
  "list_sub_type items =
     map_option fst (max_by_key snd
       (fold (\<lambda>b m. map_insert (block_kind b) (Suc (case map_of m (block_kind b) of Some n \<Rightarrow> n | None \<Rightarrow> 0)) m) items []))"

definition list_step :: "'d Doubles \<Rightarrow> Block list \<Rightarrow> Block \<Rightarrow> nat list \<times> Node list \<Rightarrow> nat list \<times> Node list" where
  "list_step db candidates marker st =
     (let (consumed, nodes) = st; (items, consumed) = take_items db marker candidates consumed in
      (block_index marker # consumed,
       if items = [] then nodes else nodes @ [NodeList (marker\<lparr>block_sub_type := list_sub_type items\<rparr>) items]))"

section \<open>Visual blocks\<close>

definition box_area :: "ibox \<Rightarrow> int" where
  "box_area b = i32 (i32 (box_right b - box_left b) * i32 (box_bottom b - box_top b))"

definition container_of :: "'d Doubles \<Rightarrow> Block list \<Rightarrow> Block \<Rightarrow> Block option" where
  "container_of db containers member =
     (let ratio = (\<lambda>c. overlap_ratio db (block_bbox member) (block_bbox c)) in
      min_by (\<lambda>l r. then_with (then_with (d_total_cmp db (d_neg db (ratio l)) (d_neg db (ratio r)))
          (cmp_of (box_area (block_bbox l)) (box_area (block_bbox r)))) (cmp_of (block_index l) (block_index r)))
        (filter (\<lambda>c. d_le db (d_literal db ''0.9'') (ratio c)) containers))"

definition unit_offset :: "'d Doubles \<Rightarrow> int \<Rightarrow> 'd \<Rightarrow> Value" where
  "unit_offset db offset extent =
     (let v = d_mul db (d_clamp db (d_div db (d_of_int db offset) extent) (d_literal db ''0.0'') (d_literal db ''1.0'')) (d_literal db ''1000.0'') in
      d_number db (d_div db (d_of_int db (d_i32 db (d_round db v))) (d_literal db ''1000.0'')))"

definition sub_image :: "'d Doubles \<Rightarrow> Block \<Rightarrow> Block \<Rightarrow> Value" where
  "sub_image db container member =
     (let c = block_bbox container; m = block_bbox member;
          width = d_of_int db (i32 (box_right c - box_left c)); height = d_of_int db (i32 (box_bottom c - box_top c)) in
      jobject [(''type'', if block_kind member = lit ''chart_body'' then jstr ''chart'' else jstr ''image''),
        (''bbox'', JArray [unit_offset db (i32 (box_left m - box_left c)) width, unit_offset db (i32 (box_top m - box_top c)) height,
           unit_offset db (i32 (box_right m - box_left c)) width, unit_offset db (i32 (box_bottom m - box_top c)) height])])"

definition listed :: "nat \<Rightarrow> (nat \<times> 'a list) list \<Rightarrow> 'a list" where
  "listed k m = (case map_of m k of Some xs \<Rightarrow> xs | None \<Rightarrow> [])"

text \<open>One turn of the loop over the members: the indexes absorbed and the images by container.\<close>

definition absorb :: "'d Doubles \<Rightarrow> Block list \<Rightarrow> Block \<Rightarrow> nat list \<times> (nat \<times> Value list) list \<Rightarrow> nat list \<times> (nat \<times> Value list) list" where
  "absorb db containers member st =
     (case container_of db containers member of
        None \<Rightarrow> st
      | Some c \<Rightarrow>
          (block_index member # fst st, map_insert (block_index c) (listed (block_index c) (snd st) @ [sub_image db c member]) (snd st)))"

text \<open>One turn of the loop over captions and footnotes: the indexes consumed and the children by parent.\<close>

type_synonym children_map = "(nat \<times> Block list \<times> Block list) list"

definition grouped_at :: "nat \<Rightarrow> children_map \<Rightarrow> Block list \<times> Block list" where
  "grouped_at k m = (case map_of m k of Some e \<Rightarrow> e | None \<Rightarrow> ([], []))"

definition adopt :: "'d Doubles \<Rightarrow> Block list \<Rightarrow> Block list \<Rightarrow> Block \<Rightarrow> nat list \<times> children_map \<Rightarrow> nat list \<times> children_map" where
  "adopt db parents relation child st =
     (case best_visual_parent db child parents relation of
        None \<Rightarrow> st
      | Some p \<Rightarrow>
          (let (cs, fs) = grouped_at (block_index p) (snd st);
               e = (if block_kind child = lit ''caption'' then (cs @ [child], fs) else (cs, fs @ [child])) in
           (block_index child # fst st, map_insert (block_index p) e (snd st))))"

fun visual_nodes :: "Block list \<Rightarrow> children_map \<Rightarrow> (nat \<times> Value list) list \<Rightarrow> Node list" where
  "visual_nodes [] grouped subs = []"
| "visual_nodes (p # ps) grouped subs =
     (let (cs, fs) = grouped_at (block_index p) grouped in
      Visual (visual_kind (block_kind p)) p (sort_key block_index cs) (sort_key block_index fs) (block_sub_type p) (block_cell_merge p)
        (listed (block_index p) subs) #
      visual_nodes ps (map_remove (block_index p) grouped) (map_remove (block_index p) subs))"

section \<open>Pages\<close>

definition leaf_of :: "Block \<Rightarrow> Node" where
  "leaf_of b =
     Leaf (if block_kind b \<in> {lit ''caption'', lit ''footnote''} then b\<lparr>block_kind := lit ''text'', merge_prev := None\<rparr> else b)"

fun node_index :: "Node \<Rightarrow> nat" where
  "node_index (Leaf b) = block_index b"
| "node_index (NodeList marker items) = block_index marker"
| "node_index (Visual k body cs fs st cm si) = block_index body"
| "node_index (Tombstone k box a index st) = index"

definition of_kind :: "string list \<Rightarrow> Block list \<Rightarrow> Block list" where
  "of_kind ks bs = filter (\<lambda>b. block_kind b \<in> set (map lit ks)) bs"

text \<open>The part of \<open>compose_page\<close> behind the fallbacks.\<close>

definition compose_blocks :: "'d Doubles \<Rightarrow> Block list \<Rightarrow> Node list \<times> Block list" where
  "compose_blocks db blocks =
     (let discarded = filter (\<lambda>b. is_chrome (block_kind b)) blocks;
          (consumed, lists) = fold (list_step db (of_kind [''text'', ''ref_text''] blocks)) (of_kind [''list''] blocks) ([], []);
          bodies = filter (\<lambda>b. is_visual_body (block_kind b)) blocks;
          (absorbed, subs) = fold (absorb db (of_kind [''image_block_body''] bodies)) (of_kind [''image_body'', ''chart_body''] bodies) ([], []);
          consumed = absorbed @ consumed;
          parents = filter (\<lambda>p. block_index p \<notin> set consumed) bodies;
          relation = filter (\<lambda>b. block_index b \<notin> set absorbed \<and> block_index b \<notin> set consumed) blocks;
          (adopted, grouped) = fold (adopt db parents relation) (of_kind [''caption'', ''footnote''] blocks) ([], []);
          consumed = map block_index parents @ adopted @ consumed;
          leaves = map leaf_of (filter (\<lambda>b. \<not> (block_index b \<in> set consumed \<or> is_chrome (block_kind b))) blocks) in
      (sort_key node_index (lists @ visual_nodes parents grouped subs @ leaves), discarded))"

fun raw_blocks :: "engine \<Rightarrow> 'f PointFloats \<Rightarrow> Crates \<Rightarrow> 'f OfficialBuildPage \<Rightarrow> nat list option \<Rightarrow> nat \<Rightarrow> 'f ModelBlock list \<Rightarrow> nat \<Rightarrow> assets \<Rightarrow>
    (Block list \<times> assets) build" where
  "raw_blocks eng fl cr page digest index [] m assets = Ok ([], assets)"
| "raw_blocks eng fl cr page digest index (r # rs) m assets =
     and_then (raw_block eng fl cr page digest r index assets m) (\<lambda>(b, assets).
     and_then (raw_blocks eng fl cr page digest (index + 1) rs m assets) (\<lambda>(bs, assets). Ok (b # bs, assets)))"

definition page_digest :: "Crates \<Rightarrow> 'f OfficialBuildPage \<Rightarrow> nat list option" where
  "page_digest cr page =
     (if list_ex (\<lambda>r. mb_type r \<in> set (map lit [''table'', ''image'', ''image_block'', ''chart'', ''equation''])) (snapshot page)
      then Some (md5 cr (rgb_raw (page_rgb page))) else None)"

definition compose_page :: "engine \<Rightarrow> 'f PointFloats \<Rightarrow> 'd Doubles \<Rightarrow> Crates \<Rightarrow> 'f OfficialBuildPage \<Rightarrow> assets \<Rightarrow> nat \<Rightarrow>
    ((Node list \<times> Block list) \<times> assets) build" where
  "compose_page eng fl db cr page assets m =
     and_then (raw_blocks eng fl cr page (page_digest cr page) 0 (snapshot page) m assets) (\<lambda>(blocks, assets).
     Ok (compose_blocks db (caption_fallbacks blocks), assets))"

fun checked_sum :: "nat \<Rightarrow> nat option list \<Rightarrow> nat option" where
  "checked_sum acc [] = Some acc"
| "checked_sum acc (v # vs) = Option.bind v (\<lambda>n. Option.bind (cadd acc n) (\<lambda>acc. checked_sum acc vs))"

fun value_text_bytes :: "Value \<Rightarrow> nat option" where
  "value_text_bytes (JString s) = Some (blen s)"
| "value_text_bytes (JArray vs) = checked_sum 0 (map value_text_bytes vs)"
| "value_text_bytes (JObject m) = checked_sum 0 (concat (map (\<lambda>(k, v). [Some (blen k), value_text_bytes v]) m))"
| "value_text_bytes _ = Some 0"

definition map_text_bytes :: "(ustr \<times> Value) list \<Rightarrow> nat option" where
  "map_text_bytes m = checked_sum 0 (concat (map (\<lambda>(k, v). [Some (blen k), value_text_bytes v]) m))"

definition block_text_bytes :: "'f ModelBlock \<Rightarrow> nat option list" where
  "block_text_bytes b =
     [Some (blen (mb_type b)), Some (blen (or_empty (mb_content b))), Some (blen (or_empty (mb_sub_type b))), map_text_bytes (mb_extra b)]"

record 'f OfficialPreparedPage =
  prep_page_idx :: nat
  prep_size_points :: "'f \<times> 'f"
  prep_snapshot :: "'f ModelBlock list"
  preproc :: "Node list"
  discarded_blocks :: "Block list"

definition TEXT_BYTES :: string where "TEXT_BYTES = ''staged text/JSON bytes''"

definition prepare_official_page_until :: "engine \<Rightarrow> 'f PointFloats \<Rightarrow> 'd Doubles \<Rightarrow> Crates \<Rightarrow> 'f OfficialBuildPage \<Rightarrow> nat \<Rightarrow> nat \<Rightarrow>
    (Checkpoint \<Rightarrow> bool) option \<Rightarrow> ('f OfficialPreparedPage \<times> Asset list) build" where
  "prepare_official_page_until eng fl db cr page max_asset_bytes max_text_bytes deadline =
     and_then (check_builder_deadline deadline PrepareStart) (\<lambda>_.
     and_then (validate_page fl page None) (\<lambda>_.
     and_then (ok_or (checked_sum 0 (concat (map block_text_bytes (snapshot page)))) (BuildLimit TEXT_BYTES max_text_bytes U64_MAX)) (\<lambda>text_bytes.
     and_then (ensure (text_bytes \<le> max_text_bytes) (BuildLimit TEXT_BYTES max_text_bytes text_bytes)) (\<lambda>_.
     and_then (compose_page eng fl db cr page [] max_asset_bytes) (\<lambda>((nodes, discarded), assets).
     and_then (check_builder_deadline deadline PrepareEnd) (\<lambda>_.
     Ok (\<lparr>prep_page_idx = slice_page_idx page, prep_size_points = page_size_points page, prep_snapshot = snapshot page, preproc = nodes,
          discarded_blocks = discarded\<rparr>, map snd assets)))))))"

end
