(* ===== verification/Page_Places.thy ===== *)
theory Page_Places
  imports Page_Compose
begin

text \<open>
  What the composition of a page keeps (\<open>official_builders.rs\<close>): every block of a snapshot has exactly one place in
  the nodes of the page, and the assets of a page stay within their cap.
\<close>

section \<open>Every block has one place\<close>

definition block_place :: "Block \<Rightarrow> nat \<times> Line list" where
  "block_place b = (block_index b, lines b)"

fun placed :: "Node \<Rightarrow> (nat \<times> Line list) multiset" where
  "placed (Leaf b) = {#block_place b#}"
| "placed (NodeList marker items) = add_mset (block_place marker) (mset (map block_place items))"
| "placed (Visual k body cs fs st cm si) = add_mset (block_place body) (mset (map block_place (cs @ fs)))"
| "placed (Tombstone k box a index st) = {#}"

definition placed_all :: "Node list \<Rightarrow> (nat \<times> Line list) multiset" where
  "placed_all nodes = sum_list (map placed nodes)"

lemma placed_all_simps [simp]:
  "placed_all [] = {#}" "placed_all (n # ns) = placed n + placed_all ns" "placed_all (ns @ ms) = placed_all ns + placed_all ms"
  by (simp_all add: placed_all_def)

lemma placed_all_sort: "placed_all (sort_key node_index ns) = placed_all ns"
proof -
  have "placed_all ns = sum_mset (image_mset placed (mset ns))" for ns
    by (simp add: placed_all_def sum_mset_sum_list [symmetric])
  then show ?thesis by simp
qed

subsection \<open>Values of a map\<close>

definition map_total :: "('v \<Rightarrow> 'x multiset) \<Rightarrow> ('k \<times> 'v) list \<Rightarrow> 'x multiset" where
  "map_total f m = sum_list (map (\<lambda>e. f (snd e)) m)"

lemma map_remove_absent: "k \<notin> fst ` set m \<Longrightarrow> map_remove k m = m"
  by (induction m) (auto simp: map_remove_def)

lemma map_total_remove:
  "distinct (map fst m) \<Longrightarrow> map_total f m = (case map_of m k of Some v \<Rightarrow> f v | None \<Rightarrow> {#}) + map_total f (map_remove k m)"
proof (induction m)
  case (Cons e m)
  obtain j v where e: "e = (j, v)" by force
  show ?case
  proof (cases "j = k")
    case True
    then have "map_remove k m = m" using Cons.prems by (intro map_remove_absent) (auto simp: e)
    then show ?thesis using True by (simp add: e map_total_def map_remove_def)
  next
    case False
    then show ?thesis using Cons by (simp add: e map_total_def map_remove_def)
  qed
qed (simp add: map_total_def map_remove_def)

lemma map_total_insert: "keys_ok m \<Longrightarrow> map_total f (map_insert k v m) = f v + map_total f (map_remove k m)"
proof (induction m)
  case (Cons e m)
  obtain j w where e: "e = (j, w)" by force
  have m: "keys_ok m" "\<And>i. i \<in> fst ` set m \<Longrightarrow> j < i" using Cons.prems by (auto simp: keys_ok_def e)
  show ?case
  proof (cases "k \<le> j")
    case True
    then have "map_remove k m = m" using m(2) by (intro map_remove_absent) force
    then show ?thesis using True by (auto simp: e map_total_def map_remove_def)
  next
    case False
    then show ?thesis using Cons.IH [OF m(1)] by (auto simp: e map_total_def map_remove_def)
  qed
qed (simp add: map_total_def map_remove_def)

lemma keys_ok_distinct: "keys_ok m \<Longrightarrow> distinct (map fst m)"
  by (simp add: keys_ok_def strict_sorted_iff)

lemma map_insert_keys: "fst ` set (map_insert k v m) = insert k (fst ` set m)"
  by (simp flip: dom_map_of_conv_image_fst)

lemma map_remove_keys: "fst ` set (map_remove k m) = fst ` set m - {k}"
  by (auto simp: map_remove_def image_iff)

subsection \<open>Choices\<close>

lemma foldl_choice: "foldl (\<lambda>m y. if P m y then y else m) x xs \<in> insert x (set xs)"
proof (induction xs arbitrary: x)
  case (Cons y xs)
  show ?case using Cons.IH [of y] Cons.IH [of x] by auto
qed simp

lemma min_by_mem: "min_by cmp xs = Some x \<Longrightarrow> x \<in> set xs"
  using foldl_choice [of "\<lambda>m y. cmp m y = Greater"] by (cases xs) auto

lemma hd_filter_mem: "length (filter P xs) = Suc 0 \<Longrightarrow> hd (filter P xs) \<in> set xs"
  using hd_in_set [of "filter P xs"] by (cases "filter P xs = []") auto

lemma best_visual_parent_mem: "best_visual_parent db child parents blocks = Some p \<Longrightarrow> p \<in> set parents"
  by (auto simp: best_visual_parent_def Let_def hd_filter_mem dest!: min_by_mem min_by_key_Some max_by_key_Some split: if_splits)

lemma container_of_mem: "container_of db containers member = Some c \<Longrightarrow> c \<in> set containers"
  by (auto simp: container_of_def Let_def dest: min_by_mem)

subsection \<open>The three loops\<close>

abbreviation indexes :: "Block list \<Rightarrow> nat set" where
  "indexes bs \<equiv> block_index ` set bs"

lemma take_items_set:
  "take_items db marker cs c0 = (items, c1) \<Longrightarrow> set c1 = set c0 \<union> indexes items \<and> set items \<subseteq> set cs"
  by (induction cs arbitrary: c0 items c1) (fastforce split: if_splits prod.splits)+

lemma take_items_filter:
  "take_items db marker cs c0 = (items, c1) \<Longrightarrow> distinct (map block_index cs) \<Longrightarrow>
   filter (\<lambda>b. block_index b \<in> set c1 \<and> block_index b \<notin> set c0) cs = items"
proof (induction cs arbitrary: c0 items c1)
  case (Cons c cs)
  have d: "distinct (map block_index cs)" and n: "block_index c \<notin> indexes cs" using Cons.prems(2) by auto
  show ?case
  proof (cases "block_index c \<in> set c0 \<or> d_lt db (overlap_ratio db (block_bbox c) (block_bbox marker)) (d_literal db ''0.8'')")
    case True
    then have r: "take_items db marker cs c0 = (items, c1)" using Cons.prems(1) by simp
    then have "block_index c \<in> set c1 \<Longrightarrow> block_index c \<in> set c0" using take_items_set [OF r] n by auto
    then show ?thesis using Cons.IH [OF r d] by auto
  next
    case False
    then obtain taken where r: "take_items db marker cs (block_index c # c0) = (taken, c1)" and i: "items = c # taken"
      using Cons.prems(1) by (auto split: prod.splits)
    have f: "filter (\<lambda>b. block_index b \<in> set c1 \<and> block_index b \<notin> set c0) cs =
        filter (\<lambda>b. block_index b \<in> set c1 \<and> block_index b \<notin> set (block_index c # c0)) cs"
      using n by (intro filter_cong) (auto simp: image_iff)
    have "block_index c \<in> set c1" using take_items_set [OF r] by simp
    then show ?thesis using Cons.IH [OF r d] False by (simp add: i f)
  qed
qed simp

definition node_subs :: "Node \<Rightarrow> Value list" where
  "node_subs n = (case n of Visual k body cs fs st cm si \<Rightarrow> si | _ \<Rightarrow> [])"

definition subs_all :: "Node list \<Rightarrow> nat" where
  "subs_all nodes = sum_list (map (\<lambda>n. length (node_subs n)) nodes)"

lemma subs_all_simps [simp]:
  "subs_all [] = 0" "subs_all (n # ns) = length (node_subs n) + subs_all ns" "subs_all (ns @ ms) = subs_all ns + subs_all ms"
  by (simp_all add: subs_all_def)

lemma subs_all_sort: "subs_all (sort_key node_index ns) = subs_all ns"
proof -
  have "subs_all ns = sum_mset (image_mset (\<lambda>n. length (node_subs n)) (mset ns))" for ns
    by (simp add: subs_all_def sum_mset_sum_list [symmetric])
  then show ?thesis by simp
qed

lemma mset_filter_or:
  "\<forall>x \<in> set xs. \<not> (P x \<and> Q x) \<Longrightarrow> mset (map f (filter (\<lambda>x. P x \<or> Q x) xs)) = mset (map f (filter P xs)) + mset (map f (filter Q xs))"
  by (induction xs) auto

lemma list_step_spec:
  assumes "list_step db cands m (c0, n0) = (c1, n1)" "distinct (map block_index cands)" "block_index m \<notin> indexes cands"
  shows "\<exists>es. set es \<subseteq> {m} \<and>
    placed_all n1 + mset (map block_place es) = placed_all n0 + {#block_place m#} + mset (map block_place (filter (\<lambda>b. block_index b \<in> set c1 \<and> block_index b \<notin> set c0) cands)) \<and>
    insert (block_index m) (set c0) \<subseteq> set c1 \<and> set c1 \<subseteq> insert (block_index m) (set c0 \<union> indexes cands) \<and> subs_all n1 = subs_all n0"
proof -
  obtain items c where t: "take_items db m cands c0 = (items, c)" by force
  note sp = take_items_set [OF t]
  have c1: "c1 = block_index m # c" and n1: "n1 = (if items = [] then n0 else n0 @ [NodeList (m\<lparr>block_sub_type := list_sub_type items\<rparr>) items])"
    using assms(1) t by (auto simp: list_step_def)
  have "filter (\<lambda>b. block_index b \<in> set c1 \<and> block_index b \<notin> set c0) cands =
      filter (\<lambda>b. block_index b \<in> set c \<and> block_index b \<notin> set c0) cands"
    using assms(3) by (intro filter_cong) (auto simp: c1 image_iff)
  then have f: "filter (\<lambda>b. block_index b \<in> set c1 \<and> block_index b \<notin> set c0) cands = items"
    by (simp add: take_items_filter [OF t assms(2)])
  show ?thesis
  proof (cases "items = []")
    case True
    then show ?thesis unfolding f using sp by (intro exI [of _ "[m]"]) (auto simp: n1 c1)
  next
    case False
    then show ?thesis unfolding f using sp by (intro exI [of _ "[]"]) (auto simp: n1 c1 block_place_def node_subs_def)
  qed
qed

lemma list_steps_spec:
  assumes "fold (list_step db cands) ms (c0, n0) = (c1, n1)" "distinct (map block_index cands)" "indexes ms \<inter> indexes cands = {}"
  shows "\<exists>es. set es \<subseteq> set ms \<and>
    placed_all n1 + mset (map block_place es) =
      placed_all n0 + mset (map block_place ms) + mset (map block_place (filter (\<lambda>b. block_index b \<in> set c1 \<and> block_index b \<notin> set c0) cands)) \<and>
    indexes ms \<union> set c0 \<subseteq> set c1 \<and> set c1 \<subseteq> set c0 \<union> indexes cands \<union> indexes ms \<and> subs_all n1 = subs_all n0"
  using assms
proof (induction ms arbitrary: c0 n0)
  case (Cons m ms)
  obtain c n where st: "list_step db cands m (c0, n0) = (c, n)" by force
  have fo: "fold (list_step db cands) ms (c, n) = (c1, n1)" using Cons.prems(1) st by simp
  obtain es where es: "set es \<subseteq> set ms"
      "placed_all n1 + mset (map block_place es) =
        placed_all n + mset (map block_place ms) + mset (map block_place (filter (\<lambda>b. block_index b \<in> set c1 \<and> block_index b \<notin> set c) cands))"
      "indexes ms \<union> set c \<subseteq> set c1" "set c1 \<subseteq> set c \<union> indexes cands \<union> indexes ms" "subs_all n1 = subs_all n"
    using Cons.IH [OF fo Cons.prems(2)] Cons.prems(3) by auto
  have "block_index m \<notin> indexes cands" using Cons.prems(3) by auto
  from list_step_spec [OF st Cons.prems(2) this] obtain e where e: "set e \<subseteq> {m}"
      "placed_all n + mset (map block_place e) = placed_all n0 + {#block_place m#} + mset (map block_place (filter (\<lambda>b. block_index b \<in> set c \<and> block_index b \<notin> set c0) cands))"
      "insert (block_index m) (set c0) \<subseteq> set c" "set c \<subseteq> insert (block_index m) (set c0 \<union> indexes cands)" "subs_all n = subs_all n0"
    by auto
  have "filter (\<lambda>b. block_index b \<in> set c1 \<and> block_index b \<notin> set c0) cands =
      filter (\<lambda>b. (block_index b \<in> set c \<and> block_index b \<notin> set c0) \<or> (block_index b \<in> set c1 \<and> block_index b \<notin> set c)) cands"
    using es(3) e(3) by (intro filter_cong) auto
  then have f: "mset (map block_place (filter (\<lambda>b. block_index b \<in> set c1 \<and> block_index b \<notin> set c0) cands)) =
      mset (map block_place (filter (\<lambda>b. block_index b \<in> set c \<and> block_index b \<notin> set c0) cands)) +
      mset (map block_place (filter (\<lambda>b. block_index b \<in> set c1 \<and> block_index b \<notin> set c) cands))"
    using mset_filter_or [of cands "\<lambda>b. block_index b \<in> set c \<and> block_index b \<notin> set c0" "\<lambda>b. block_index b \<in> set c1 \<and> block_index b \<notin> set c" block_place]
    by auto
  have "placed_all n1 + mset (map block_place (e @ es)) =
      placed_all n0 + mset (map block_place (m # ms)) + mset (map block_place (filter (\<lambda>b. block_index b \<in> set c1 \<and> block_index b \<notin> set c0) cands))"
    unfolding f map_append mset_append using arg_cong2 [OF e(2) es(2), of "(+)"] by (simp add: ac_simps)
  then show ?case using es e by (intro exI [of _ "e @ es"]) auto
qed simp

lemma absorbs_spec:
  "fold (absorb db cons) ms (a0, s0) = (a1, s1) \<Longrightarrow> keys_ok s0 \<Longrightarrow>
   set a1 = set a0 \<union> indexes (filter (\<lambda>m. container_of db cons m \<noteq> None) ms) \<and> keys_ok s1 \<and>
   fst ` set s1 \<subseteq> fst ` set s0 \<union> indexes cons \<and>
   size (map_total mset s1) = size (map_total mset s0) + length (filter (\<lambda>m. container_of db cons m \<noteq> None) ms)"
proof (induction ms arbitrary: a0 s0)
  case (Cons m ms)
  show ?case
  proof (cases "container_of db cons m")
    case None
    then have "absorb db cons m (a0, s0) = (a0, s0)" by (simp add: absorb_def)
    then show ?thesis using Cons None by simp
  next
    case (Some c)
    let ?s = "map_insert (block_index c) (listed (block_index c) s0 @ [sub_image db c m]) s0"
    have "absorb db cons m (a0, s0) = (block_index m # a0, ?s)" by (simp add: absorb_def Some)
    then have f: "fold (absorb db cons) ms (block_index m # a0, ?s) = (a1, s1)" using Cons.prems(1) by simp
    have t: "map_total mset ?s = add_mset (sub_image db c m) (map_total mset s0)"
      using map_total_remove [OF keys_ok_distinct [OF Cons.prems(2)], of mset "block_index c"]
      by (simp add: map_total_insert [OF Cons.prems(2)] listed_def split: option.splits)
    show ?thesis
      using Cons.IH [OF f keys_ok_insert [OF Cons.prems(2)]] Some container_of_mem [OF Some] by (auto simp: t map_insert_keys)
  qed
qed simp

definition kids :: "children_map \<Rightarrow> (nat \<times> Line list) multiset" where
  "kids g = map_total (\<lambda>(cs, fs). mset (map block_place (cs @ fs))) g"

lemma adopts_spec:
  "fold (adopt db parents rel) ms (a0, g0) = (a1, g1) \<Longrightarrow> keys_ok g0 \<Longrightarrow>
   set a1 = set a0 \<union> indexes (filter (\<lambda>m. best_visual_parent db m parents rel \<noteq> None) ms) \<and> keys_ok g1 \<and>
   fst ` set g1 \<subseteq> fst ` set g0 \<union> indexes parents \<and>
   kids g1 = kids g0 + mset (map block_place (filter (\<lambda>m. best_visual_parent db m parents rel \<noteq> None) ms))"
proof (induction ms arbitrary: a0 g0)
  case (Cons m ms)
  show ?case
  proof (cases "best_visual_parent db m parents rel")
    case None
    then have "adopt db parents rel m (a0, g0) = (a0, g0)" by (simp add: adopt_def)
    then show ?thesis using Cons None by simp
  next
    case (Some p)
    obtain cs fs where g: "grouped_at (block_index p) g0 = (cs, fs)" by force
    define e where "e = (if block_kind m = lit ''caption'' then (cs @ [m], fs) else (cs, fs @ [m]))"
    have "adopt db parents rel m (a0, g0) = (block_index m # a0, map_insert (block_index p) e g0)"
      by (simp add: adopt_def Some g e_def)
    then have f: "fold (adopt db parents rel) ms (block_index m # a0, map_insert (block_index p) e g0) = (a1, g1)"
      using Cons.prems(1) by simp
    have t: "kids (map_insert (block_index p) e g0) = add_mset (block_place m) (kids g0)"
      using map_total_remove [OF keys_ok_distinct [OF Cons.prems(2)], of "\<lambda>(cs, fs). mset (map block_place (cs @ fs))" "block_index p"] g
      by (auto simp: kids_def map_total_insert [OF Cons.prems(2)] grouped_at_def e_def split: option.splits)
    show ?thesis
      using Cons.IH [OF f keys_ok_insert [OF Cons.prems(2)]] Some best_visual_parent_mem [OF Some] by (auto simp: t map_insert_keys)
  qed
qed simp

lemma distinct_map_remove: "distinct (map fst m) \<Longrightarrow> distinct (map fst (map_remove k m))"
  by (simp add: map_remove_def distinct_map_filter)

lemma visual_nodes_spec:
  "distinct (map block_index ps) \<Longrightarrow> distinct (map fst g) \<Longrightarrow> distinct (map fst s) \<Longrightarrow> fst ` set g \<subseteq> indexes ps \<Longrightarrow> fst ` set s \<subseteq> indexes ps \<Longrightarrow>
   placed_all (visual_nodes ps g s) = mset (map block_place ps) + kids g \<and> subs_all (visual_nodes ps g s) = size (map_total mset s)"
proof (induction ps arbitrary: g s)
  case Nil
  then show ?case by (simp add: kids_def map_total_def)
next
  case (Cons p ps)
  obtain cs fs where g: "grouped_at (block_index p) g = (cs, fs)" by force
  have sub: "fst ` set (map_remove (block_index p) g) \<subseteq> indexes ps" "fst ` set (map_remove (block_index p) s) \<subseteq> indexes ps"
    using Cons.prems(4,5) by (auto simp: map_remove_keys)
  have ih: "placed_all (visual_nodes ps (map_remove (block_index p) g) (map_remove (block_index p) s)) =
      mset (map block_place ps) + kids (map_remove (block_index p) g)"
    "subs_all (visual_nodes ps (map_remove (block_index p) g) (map_remove (block_index p) s)) = size (map_total mset (map_remove (block_index p) s))"
    using Cons.IH [OF _ distinct_map_remove distinct_map_remove sub] Cons.prems by auto
  have "kids g = mset (map block_place (cs @ fs)) + kids (map_remove (block_index p) g)"
    using map_total_remove [OF Cons.prems(2), of "\<lambda>(cs, fs). mset (map block_place (cs @ fs))" "block_index p"] g
    by (auto simp: kids_def grouped_at_def split: option.splits)
  moreover have "map_total mset s = mset (listed (block_index p) s) + map_total mset (map_remove (block_index p) s)"
    using map_total_remove [OF Cons.prems(3), of mset "block_index p"] by (simp add: listed_def split: option.splits)
  ultimately show ?case using ih by (simp add: g node_subs_def image_mset_union)
qed

subsection \<open>Composition\<close>

lemma index_mem:
  assumes "distinct (map block_index blocks)" "b \<in> set blocks" "set part \<subseteq> set blocks"
  shows "block_index b \<in> indexes part \<longleftrightarrow> b \<in> set part"
  using assms by (auto simp: distinct_map inj_on_def)

text \<open>The parts of a page by kind.\<close>

definition list_candidates :: "Block list \<Rightarrow> Block list" where "list_candidates blocks = of_kind [''text'', ''ref_text''] blocks"
definition markers :: "Block list \<Rightarrow> Block list" where "markers blocks = of_kind [''list''] blocks"
definition bodies :: "Block list \<Rightarrow> Block list" where "bodies blocks = filter (\<lambda>b. is_visual_body (block_kind b)) blocks"
definition containers :: "Block list \<Rightarrow> Block list" where "containers blocks = of_kind [''image_block_body''] (bodies blocks)"
definition members :: "Block list \<Rightarrow> Block list" where "members blocks = of_kind [''image_body'', ''chart_body''] (bodies blocks)"
definition attached :: "Block list \<Rightarrow> Block list" where "attached blocks = of_kind [''caption'', ''footnote''] blocks"

lemmas part_defs = list_candidates_def markers_def bodies_def containers_def members_def attached_def of_kind_def

lemma list_part:
  assumes "distinct (map block_index blocks)" "fold (list_step db (list_candidates blocks)) (markers blocks) ([], []) = (c1, made)"
  shows "\<exists>es. set es \<subseteq> set (markers blocks) \<and> subs_all made = 0 \<and>
      placed_all made + mset (map block_place es) = mset (map block_place (markers blocks @ filter (\<lambda>b. block_index b \<in> set c1) (list_candidates blocks)))"
    "b \<in> set blocks \<Longrightarrow> block_index b \<in> set c1 \<longleftrightarrow> b \<in> set (markers blocks) \<or> b \<in> set (filter (\<lambda>b. block_index b \<in> set c1) (list_candidates blocks))"
proof -
  have sub: "set (list_candidates blocks) \<subseteq> set blocks" "set (markers blocks) \<subseteq> set blocks" by (auto simp: part_defs)
  have "set (markers blocks) \<inter> set (list_candidates blocks) = {}" by (auto simp: part_defs)
  then have mc: "indexes (markers blocks) \<inter> indexes (list_candidates blocks) = {}" using index_mem [OF assms(1) _ sub(1)] sub(2) by blast
  have dc: "distinct (map block_index (list_candidates blocks))" using assms(1) by (auto simp: part_defs distinct_map_filter)
  note sp = list_steps_spec [OF assms(2) dc mc]
  then show "\<exists>es. set es \<subseteq> set (markers blocks) \<and> subs_all made = 0 \<and>
      placed_all made + mset (map block_place es) = mset (map block_place (markers blocks @ filter (\<lambda>b. block_index b \<in> set c1) (list_candidates blocks)))"
    by auto
  show "block_index b \<in> set c1 \<longleftrightarrow> b \<in> set (markers blocks) \<or> b \<in> set (filter (\<lambda>b. block_index b \<in> set c1) (list_candidates blocks))" if "b \<in> set blocks"
    using sp index_mem [OF assms(1) that sub(1)] index_mem [OF assms(1) that sub(2)] by auto
qed

lemma mset_parts:
  assumes "distinct blocks" "set gone \<subseteq> set (members blocks)" "set items \<subseteq> set (list_candidates blocks)" "set adopted \<subseteq> set (attached blocks)"
    and "set parents = set (bodies blocks) - set gone" "distinct gone" "distinct items" "distinct adopted" "distinct parents"
    and "discarded = filter (\<lambda>b. is_chrome (block_kind b)) blocks" "distinct leaves"
    and "set leaves = set blocks - (set parents \<union> set adopted \<union> set gone \<union> set (markers blocks) \<union> set items \<union> set discarded)"
  shows "mset blocks = mset (discarded @ leaves @ parents @ adopted @ gone @ markers blocks @ items)"
proof -
  have kk: "\<And>b. b \<in> set discarded \<Longrightarrow> is_chrome (block_kind b)" "\<And>b. b \<in> set gone \<Longrightarrow> block_kind b = lit ''image_body'' \<or> block_kind b = lit ''chart_body''"
      "\<And>b. b \<in> set items \<Longrightarrow> block_kind b = lit ''text'' \<or> block_kind b = lit ''ref_text''" "\<And>b. b \<in> set (markers blocks) \<Longrightarrow> block_kind b = lit ''list''"
      "\<And>b. b \<in> set adopted \<Longrightarrow> block_kind b = lit ''caption'' \<or> block_kind b = lit ''footnote''" "\<And>b. b \<in> set (bodies blocks) \<Longrightarrow> is_visual_body (block_kind b)"
    using assms(2-5) by (auto simp: assms(10) part_defs)
  have k: "set discarded \<inter> (set parents \<union> set adopted \<union> set gone \<union> set (markers blocks) \<union> set items) = {}"
      "set parents \<inter> (set adopted \<union> set gone \<union> set (markers blocks) \<union> set items) = {}"
      "set adopted \<inter> (set gone \<union> set (markers blocks) \<union> set items) = {}"
      "set gone \<inter> (set (markers blocks) \<union> set items) = {}" "set (markers blocks) \<inter> set items = {}"
    using assms(5) by (auto simp: is_chrome_def is_visual_body_def dest!: kk)
  have "distinct (discarded @ leaves @ parents @ adopted @ gone @ markers blocks @ items)"
    using assms(1,6-9,11,12) k by (auto simp: assms(10) part_defs)
  moreover have "set (discarded @ leaves @ parents @ adopted @ gone @ markers blocks @ items) = set blocks"
    using assms(2-5,12) by (auto simp: assms(10) part_defs)
  ultimately show ?thesis using assms(1) set_eq_iff_mset_eq_distinct by metis
qed

definition dropped_kind :: "ustr \<Rightarrow> bool" where
  "dropped_kind k \<longleftrightarrow> k \<in> set (map lit [''list'', ''image_body'', ''chart_body''])"

lemma leaves_part: "placed_all (map leaf_of ls) = mset (map block_place ls)" "subs_all (map leaf_of ls) = 0"
  by (induction ls) (auto simp: leaf_of_def block_place_def node_subs_def)

lemma compose_blocks_partition:
  assumes comp: "compose_blocks db blocks = (nodes, discarded)" and dis: "distinct (map block_index blocks)"
  shows "\<exists>lost. placed_all nodes + mset (map block_place discarded) + mset (map block_place lost) = mset (map block_place blocks) \<and>
    set lost \<subseteq> set blocks \<and> (\<forall>b \<in> set lost. dropped_kind (block_kind b)) \<and>
    length (filter (\<lambda>b. block_kind b \<noteq> lit ''list'') lost) = subs_all nodes"
proof -
  obtain c1 made where l: "fold (list_step db (list_candidates blocks)) (markers blocks) ([], []) = (c1, made)" by force
  obtain a1 subs where a: "fold (absorb db (containers blocks)) (members blocks) ([], []) = (a1, subs)" by force
  define parents rel where "parents = filter (\<lambda>p. block_index p \<notin> set (a1 @ c1)) (bodies blocks)"
    and "rel = filter (\<lambda>b. block_index b \<notin> set a1 \<and> block_index b \<notin> set (a1 @ c1)) blocks"
  obtain d1 g where g: "fold (adopt db parents rel) (attached blocks) ([], []) = (d1, g)" by force
  define leaves where "leaves = filter (\<lambda>b. \<not> (block_index b \<in> set (map block_index parents @ d1 @ a1 @ c1) \<or> is_chrome (block_kind b))) blocks"
  have nodes: "nodes = sort_key node_index (made @ visual_nodes parents g subs @ map leaf_of leaves)"
    and disc: "discarded = filter (\<lambda>b. is_chrome (block_kind b)) blocks"
    using comp unfolding compose_blocks_def Let_def bodies_def [symmetric] containers_def [symmetric] members_def [symmetric]
      list_candidates_def [symmetric] markers_def [symmetric] attached_def [symmetric] l a prod.case parents_def [symmetric] rel_def [symmetric] g
      leaves_def [symmetric]
    by simp_all
  define items where "items = filter (\<lambda>b. block_index b \<in> set c1) (list_candidates blocks)"
  obtain es where es: "set es \<subseteq> set (markers blocks)" "subs_all made = 0" "placed_all made + mset (map block_place es) = mset (map block_place (markers blocks @ items))"
    using list_part(1) [OF dis l] by (auto simp: items_def)
  define gone where "gone = filter (\<lambda>m. container_of db (containers blocks) m \<noteq> None) (members blocks)"
  have ab: "set a1 = indexes gone" "keys_ok subs" "fst ` set subs \<subseteq> indexes (containers blocks)" "size (map_total mset subs) = length gone"
    using absorbs_spec [OF a] by (auto simp: gone_def map_total_def)
  define adopted where "adopted = filter (\<lambda>m. best_visual_parent db m parents rel \<noteq> None) (attached blocks)"
  have ad: "set d1 = indexes adopted" "keys_ok g" "fst ` set g \<subseteq> indexes parents" "kids g = mset (map block_place adopted)"
    using adopts_spec [OF g] by (auto simp: adopted_def kids_def map_total_def)
  have sub: "set gone \<subseteq> set blocks" "set adopted \<subseteq> set blocks" "set parents \<subseteq> set blocks" "set (bodies blocks) \<subseteq> set blocks"
    by (auto simp: gone_def adopted_def parents_def part_defs)
  note mem = list_part(2) [OF dis l, folded items_def] index_mem [OF dis _ sub(1), folded ab(1)] index_mem [OF dis _ sub(2), folded ad(1)]
    index_mem [OF dis _ sub(3)]
  have "set (bodies blocks) \<inter> (set (markers blocks) \<union> set items) = {}" by (auto simp: part_defs items_def is_visual_body_def)
  then have par: "set parents = set (bodies blocks) - set gone"
    unfolding parents_def set_filter set_append using mem(1,2) sub(4) by blast
  have lea: "set leaves = set blocks - (set parents \<union> set adopted \<union> set gone \<union> set (markers blocks) \<union> set items \<union> set discarded)"
    unfolding leaves_def disc set_filter set_append set_map using mem by blast
  have all: "mset blocks = mset (discarded @ leaves @ parents @ adopted @ gone @ markers blocks @ items)"
    using dis by (intro mset_parts [OF _ _ _ _ par _ _ _ _ disc _ lea])
      (auto simp: gone_def items_def adopted_def parents_def leaves_def part_defs distinct_map)
  have "set (containers blocks) \<subseteq> set parents" unfolding par by (auto simp: part_defs gone_def)
  then have "fst ` set subs \<subseteq> indexes parents" using ab(3) by (meson image_mono subset_trans)
  moreover have "distinct (map block_index parents)" using dis by (auto simp: parents_def part_defs distinct_map_filter)
  ultimately have vis: "placed_all (visual_nodes parents g subs) = mset (map block_place (parents @ adopted))"
      "subs_all (visual_nodes parents g subs) = length gone"
    using visual_nodes_spec [OF _ keys_ok_distinct [OF ad(2)] keys_ok_distinct [OF ab(2)] ad(3)] ab(4) ad(4) by auto
  have "placed_all nodes + mset (map block_place discarded) + mset (map block_place (es @ gone)) =
      (placed_all made + mset (map block_place es)) + mset (map block_place (discarded @ leaves @ parents @ adopted @ gone))"
    by (simp add: nodes placed_all_sort leaves_part(1) vis(1) ac_simps)
  then have "placed_all nodes + mset (map block_place discarded) + mset (map block_place (es @ gone)) = mset (map block_place blocks)"
    unfolding mset_map all using es(3) by (simp add: ac_simps)
  moreover have el: "\<forall>b \<in> set es. block_kind b = lit ''list''" and gl: "\<forall>b \<in> set gone. block_kind b \<in> {lit ''image_body'', lit ''chart_body''}"
    using es(1) by (auto simp: gone_def part_defs)
  then have "\<forall>b \<in> set (es @ gone). dropped_kind (block_kind b)" by (auto simp: dropped_kind_def)
  moreover have "set (es @ gone) \<subseteq> set blocks" using es(1) sub(1) by (auto simp: part_defs)
  moreover have "filter (\<lambda>b. block_kind b \<noteq> lit ''list'') es = []" "filter (\<lambda>b. block_kind b \<noteq> lit ''list'') gone = gone"
    using el gl by (auto simp: filter_empty_conv filter_id_conv)
  then have "length (filter (\<lambda>b. block_kind b \<noteq> lit ''list'') (es @ gone)) = subs_all nodes"
    using es(2) vis(2) by (simp add: nodes subs_all_sort leaves_part(2))
  ultimately show ?thesis by blast
qed

subsection \<open>Pages\<close>

lemma cropped_ok:
  "cropped fl cr page digest tag ak m b assets = Ok (b', assets') \<Longrightarrow>
   \<exists>d path. b' = b\<lparr>image_path := Some path\<rparr> \<and> crop fl cr page d tag ak (block_bbox b) assets m = Ok (path, assets')"
  by (auto simp: cropped_def result_simps split: option.splits)

text \<open>What a block that was read satisfies: its index, and a property of the assets that the crops and inline images keep.\<close>

definition reads :: "(assets \<Rightarrow> bool) \<Rightarrow> nat \<Rightarrow> (Block \<times> assets) build \<Rightarrow> bool" where
  "reads P i r \<longleftrightarrow> (\<forall>b assets. r = Ok (b, assets) \<longrightarrow> block_index b = i \<and> P assets)"

lemma reads_if: "reads P i x \<Longrightarrow> reads P i y \<Longrightarrow> reads P i (if c then x else y)"
  by simp

lemma reads_ok: "block_index b = i \<Longrightarrow> P assets \<Longrightarrow> reads P i (Ok (b, assets))"
  by (simp add: reads_def)

lemma reads_err: "reads P i (Err e)" "reads P i (build_err message)"
  by (simp_all add: reads_def build_err_def)

lemma reads_then: "reads P i r \<Longrightarrow> (\<And>b assets. block_index b = i \<Longrightarrow> P assets \<Longrightarrow> reads P i (f (b, assets))) \<Longrightarrow> reads P i (and_then r f)"
proof (cases r)
  case (Ok e)
  assume r: "reads P i r" and f: "\<And>b assets. block_index b = i \<Longrightarrow> P assets \<Longrightarrow> reads P i (f (b, assets))"
  obtain b assets where e: "e = (b, assets)" by force
  then have "block_index b = i" "P assets" using r Ok by (auto simp: reads_def)
  then show ?thesis using f Ok e by simp
qed (simp add: reads_err)

definition kept_by_assets :: "engine \<Rightarrow> Crates \<Rightarrow> nat \<Rightarrow> 'f PointFloats \<Rightarrow> 'f OfficialBuildPage \<Rightarrow> (assets \<Rightarrow> bool) \<Rightarrow> bool" where
  "kept_by_assets eng cr m fl page P \<longleftrightarrow>
     (\<forall>d tag ak box assets path assets'. crop fl cr page d tag ak box assets m = Ok (path, assets') \<longrightarrow> P assets \<longrightarrow> P assets') \<and>
     (\<forall>html assets html' assets'. inline_images eng cr html assets m = Ok (html', assets') \<longrightarrow> P assets \<longrightarrow> P assets')"

lemma reads_cropped:
  assumes "kept_by_assets eng cr m fl page P" "block_index b = i" "P assets"
  shows "reads P i (cropped fl cr page digest tag ak m b assets)"
  unfolding reads_def
proof (intro allI impI)
  fix b' assets'
  assume "cropped fl cr page digest tag ak m b assets = Ok (b', assets')"
  then obtain d path where "b' = b\<lparr>image_path := Some path\<rparr>" and c: "crop fl cr page d tag ak (block_bbox b) assets m = Ok (path, assets')"
    using cropped_ok by blast
  moreover have "P assets'" using assms(1,3) c unfolding kept_by_assets_def by blast
  ultimately show "block_index b' = i \<and> P assets'" using assms(2) by simp
qed

lemma reads_inline:
  "kept_by_assets eng cr m fl page P \<Longrightarrow> P assets \<Longrightarrow> (\<And>html assets. P assets \<Longrightarrow> reads P i (f (html, assets))) \<Longrightarrow>
   reads P i (and_then (inline_images eng cr content assets m) f)"
  by (cases "inline_images eng cr content assets m") (auto simp: kept_by_assets_def reads_err)

lemma raw_block_reads:
  assumes "kept_by_assets eng cr m fl page P" "P assets"
  shows "reads P index (raw_block eng fl cr page digest mb index assets m)"
proof -
  have box: "reads P index (and_then (point_bbox fl mb (page_size_points page)) g)" if "\<And>box. reads P index (g box)" for g
    using that by (cases "point_bbox fl mb (page_size_points page)") (auto simp: reads_err)
  have ang: "reads P index (and_then (angle_of mb) g)" if "\<And>a. reads P index (g a)" for g
    using that by (cases "angle_of mb") (auto simp: reads_err)
  show ?thesis
    unfolding raw_block_def Let_def
    apply (rule box, rule ang)
    apply (intro reads_if reads_ok reads_err reads_cropped [OF assms(1)] reads_inline [OF assms(1)] reads_then)
    apply (simp_all add: blank_block_def assms(2))
    apply (rule reads_then [OF reads_cropped [OF assms(1)]])
    apply (simp_all add: reads_ok)
    done
qed

lemma raw_blocks_reads:
  assumes "kept_by_assets eng cr m fl page P"
  shows "raw_blocks eng fl cr page digest index rs m assets = Ok (bs, assets') \<Longrightarrow> P assets \<Longrightarrow>
    map block_index bs = [index..<index + length rs] \<and> P assets'"
proof (induction rs arbitrary: index assets bs)
  case (Cons r rs)
  obtain b as bs' where r: "raw_block eng fl cr page digest r index assets m = Ok (b, as)"
      "raw_blocks eng fl cr page digest (index + 1) rs m as = Ok (bs', assets')" "bs = b # bs'"
    using Cons.prems(1) by (auto simp: result_simps)
  then have "block_index b = index" "P as" using raw_block_reads [OF assms Cons.prems(2)] by (auto simp: reads_def)
  moreover have "[index..<index + length (r # rs)] = index # [index + 1..<index + 1 + length rs]"
    using upt_conv_Cons [of index "index + length (r # rs)"] by simp
  ultimately show ?case using Cons.IH [OF r(2)] r(3) by simp
qed simp

lemma capped_kept: "m < U64_MAX \<Longrightarrow> decode_bounded cr \<Longrightarrow> kept_by_assets eng cr m fl page (capped_assets cr m)"
  unfolding kept_by_assets_def using crop_capped inline_images_capped by blast

lemma raw_blocks_index: "raw_blocks eng fl cr page digest index rs m assets = Ok (bs, assets') \<Longrightarrow> map block_index bs = [index..<index + length rs]"
  using raw_blocks_reads [of eng cr m fl page "\<lambda>_. True"] by (simp add: kept_by_assets_def)

lemma place_caption [simp]: "block_place (to_caption b) = block_place b" "block_index (to_caption b) = block_index b"
  by (simp_all add: block_place_def to_caption_def)

lemma map_update_same: "f (y :: Block) = f (xs ! i) \<Longrightarrow> map f (xs[i := y]) = map f xs"
  by (cases "i < length xs") (auto simp: map_update list_update_same_conv list_update_beyond)

lemma caption_scan_place: "map block_place (caption_scan t is saw bs) = map block_place bs"
  by (induction t "is" saw bs rule: caption_scan.induct) (auto simp: Let_def map_update_same)

lemma table_captions_place: "map block_place (table_captions t bs) = map block_place bs"
  by (auto simp: table_captions_def Let_def map_update_same caption_scan_place split: option.split)

lemma caption_between_place: "map block_place (caption_between i bs) = map block_place bs"
  by (auto simp: caption_between_def Let_def map_update_same)

lemma fold_place: "(\<And>i bs. map block_place (f i bs) = map block_place bs) \<Longrightarrow> map block_place (fold f is bs) = map block_place bs"
  by (induction "is" arbitrary: bs) auto

lemma caption_fallbacks_place: "map block_place (caption_fallbacks bs) = map block_place bs"
  by (simp add: caption_fallbacks_def Let_def fold_place caption_between_place table_captions_place)

text \<open>The fallbacks only turn blocks into captions.\<close>

definition recaptioned :: "Block list \<Rightarrow> Block list \<Rightarrow> bool" where
  "recaptioned bs bs' \<longleftrightarrow> (\<forall>b \<in> set bs'. b \<in> set bs \<or> block_kind b = lit ''caption'')"

lemma recaptioned_update: "recaptioned bs bs' \<Longrightarrow> recaptioned bs (bs'[i := to_caption b])"
  using set_update_subset_insert [of bs' i "to_caption b"] by (auto simp: recaptioned_def to_caption_def)

lemma caption_between_captions: "recaptioned bs bs' \<Longrightarrow> recaptioned bs (caption_between i bs')"
  by (simp add: caption_between_def Let_def recaptioned_update)

lemma caption_scan_captions: "recaptioned bs bs' \<Longrightarrow> recaptioned bs (caption_scan table is saw bs')"
  by (induction table "is" saw bs' rule: caption_scan.induct) (auto simp: Let_def recaptioned_update)

lemma table_captions_captions: "recaptioned bs bs' \<Longrightarrow> recaptioned bs (table_captions t bs')"
  by (auto simp: table_captions_def Let_def recaptioned_update caption_scan_captions split: option.splits)

lemma fold_captions: "(\<And>i bs'. recaptioned bs bs' \<Longrightarrow> recaptioned bs (f i bs')) \<Longrightarrow> recaptioned bs bs' \<Longrightarrow> recaptioned bs (fold f is bs')"
  by (induction "is" arbitrary: bs') auto

lemma caption_fallbacks_captions: "recaptioned bs (caption_fallbacks bs)"
  unfolding caption_fallbacks_def Let_def
  by (intro fold_captions caption_between_captions table_captions_captions) (simp_all add: recaptioned_def)


text \<open>
  The cap on the bytes of a page's assets. The crops and inline images of a prepared page together stay within
  \<open>max_asset_bytes\<close>, except that the placeholder of a vector image is stored without being counted against it: with one
  the cap is exceeded by at most the size of the placeholder, however many vector images there are.
\<close>

theorem prepared_assets_capped:
  assumes "prepare_official_page_until eng fl db cr page max_asset_bytes max_text_bytes deadline = Ok (prepared, assets)"
    and "max_asset_bytes < U64_MAX" "decode_bounded cr"
  shows "sum_list (map (\<lambda>a. length (asset_data a)) assets) \<le> max_asset_bytes \<or>
    (\<exists>p. vector_placeholder cr = Ok p \<and> sum_list (map (\<lambda>a. length (asset_data a)) assets) \<le> max_asset_bytes + length p)"
proof -
  obtain st as where a: "compose_page eng fl db cr page [] max_asset_bytes = Ok (st, as)" "assets = map snd as"
    using assms(1) by (auto simp: prepare_official_page_until_def result_simps)
  then obtain blocks where "raw_blocks eng fl cr page (page_digest cr page) 0 (snapshot page) max_asset_bytes [] = Ok (blocks, as)"
    by (auto simp: compose_page_def result_simps)
  then have "capped_assets cr max_asset_bytes as"
    using raw_blocks_reads [OF capped_kept [OF assms(2,3)]] by (fastforce simp: capped_assets_def asset_sum_def)
  moreover have "sum_list (map (\<lambda>a. length (asset_data a)) assets) = asset_sum as" by (simp add: a(2) asset_sum_def o_def)
  ultimately show ?thesis by (auto simp: capped_assets_def)
qed

section \<open>A sample page\<close>

definition no_crates :: Crates where
  "no_crates = \<lparr>sha256 = (\<lambda>_. []), md5 = (\<lambda>_. []), b64_decode = (\<lambda>_. None), b64_encode = (\<lambda>_. []), jpeg = (\<lambda>_. ([], None)),
     jpeg_write_error = [], crop_imm = (\<lambda>img l t w h. \<lparr>rgb_width = w, rgb_height = h, rgb_raw = []\<rparr>)\<rparr>"

definition rat_points :: "rat PointFloats" where
  "rat_points = Floats.extend rat_floats
     (PointFloats.fields (\<lambda>x. of_int \<lfloor>x\<rfloor>) (\<lambda>x. of_int \<lceil>x\<rceil>) (\<lambda>x. of_int \<lfloor>x\<rfloor>) (\<lambda>x l h. max l (min h x)) of_int floor (\<lambda>x. nat \<lfloor>x\<rfloor>) (\<lambda>_. JNull))"

definition rat_doubles :: "rat Doubles" where
  "rat_doubles = \<lparr>d_of_int = of_int, d_literal = (\<lambda>_. 0), d_add = (+), d_sub = (-), d_mul = (*), d_div = (/), d_neg = uminus, d_sqrt = id,
     d_min = min, d_max = max, d_eq = (=), d_lt = (<), d_le = (\<le>), d_total_cmp = cmp_of, d_clamp = (\<lambda>x l h. max l (min h x)),
     d_round = (\<lambda>x. of_int \<lfloor>x\<rfloor>), d_i32 = floor, d_number = (\<lambda>_. JNull)\<rparr>"

definition model_entry :: "string \<Rightarrow> string \<Rightarrow> rat ModelBlock" where
  "model_entry t v = \<lparr>mb_type = lit t, mb_bbox = Some \<lparr>bb_left = 0, bb_top = 0, bb_right = 1, bb_bottom = 1\<rparr>, mb_angle = Some Deg0,
     mb_content = Some (lit v), mb_merge_prev = None, mb_sub_type = None, mb_extra = []\<rparr>"

definition two_block_page :: "rat OfficialBuildPage" where
  "two_block_page = \<lparr>slice_page_idx = 0, page_size_points = (10, 10), render_scale = 1,
     page_rgb = \<lparr>rgb_width = 10, rgb_height = 10, rgb_raw = []\<rparr>, snapshot = [model_entry ''header'' ''top'', model_entry ''text'' ''body'']\<rparr>"

definition composed_block :: "nat \<Rightarrow> string \<Rightarrow> string \<Rightarrow> Block" where
  "composed_block i t v = (blank_block (0, 0, 10, 10) 0 i)\<lparr>block_kind := lit t, lines := one_line (0, 0, 10, 10) [SpanText (lit v)]\<rparr>"

lemma two_block_raw:
  "raw_blocks (\<lambda>_ _. []) rat_points no_crates two_block_page None 0 (snapshot two_block_page) 100 [] =
     Ok ([composed_block 0 ''header'' ''top'', composed_block 1 ''text'' ''body''], [])"
proof -
  have f: "point_bbox rat_points (model_entry t v) (10, 10) = Ok (0, 0, 10, 10)" for t v
    by (simp add: point_bbox_def model_entry_def unit_coord_def point_coord_def rat_points_def rat_floats_def Floats.defs PointFloats.defs)
  have c: "clean_text_content (\<lambda>_ _. []) v = v" for v
    by (simp add: clean_text_content_def replace_all_def)
  then have ts: "text_spans (\<lambda>_ _. []) v = [SpanText v]" for v by (simp add: text_spans_def Let_def)
  have "raw_block (\<lambda>_ _. []) rat_points no_crates two_block_page None (model_entry t v) i assets m = Ok (composed_block i t v, assets)"
    if "t \<in> {''header'', ''text''}" for t v i assets m
  proof -
    have g: "point_bbox rat_points (model_entry t v) (page_size_points two_block_page) = Ok (0, 0, 10, 10)" "angle_of (model_entry t v) = Ok 0"
      using f by (simp_all add: two_block_page_def angle_of_def model_entry_def)
    have t: "mb_type (model_entry t v) \<in> set TEXT_TYPES" using that by (auto simp: model_entry_def TEXT_TYPES_def)
    show ?thesis unfolding raw_block_def g and_then.simps Let_def ts if_P [OF t]
      using that by (auto simp: model_entry_def composed_block_def blank_block_def or_empty_def)
  qed
  then show ?thesis by (simp add: two_block_page_def [THEN arg_cong [where f = snapshot]])
qed


end
