(* ===== verification/Spec2Isabelle.thy ===== *)
theory Spec2Isabelle
  imports Document_Limits Planning Zip_Scan Csv_Restore Task_Results Worker Page_Places
begin

text \<open>
  Verification of mineru-rs, the document parser in Rust: paths below are relative to \<^verbatim>\<open>src/src/\<close>.

  \<^bold>\<open>The program and its parts.\<close> A document reaches the program over the command line, the library or the HTTP API. Its
  size is checked against a policy of limits (\<^verbatim>\<open>document_limits.rs\<close>), several documents are packed into remote tasks
  (\<^verbatim>\<open>mineru_api/planning.rs\<close>) and the archive a remote service returns is scanned before it is extracted
  (\<^verbatim>\<open>mineru_api/zip_scan.rs\<close>). The HTTP server (\<^verbatim>\<open>official_api/\<close>) keeps uploads and files in a store with quotas, runs
  parse jobs one after the other and offers the same jobs as tasks. A parse is native for CSV files
  (\<^verbatim>\<open>official/native/\<close>), or goes to a Python worker over pipes (\<^verbatim>\<open>official_worker/\<close>), or asks a vision model whose
  answers are cleaned (\<^verbatim>\<open>layout.rs\<close>, \<^verbatim>\<open>vlm_postprocess.rs\<close>) and built into pages, where a table that continues on
  the next page is merged with its continuation (\<^verbatim>\<open>official_builders.rs\<close>). Finished bundles are published into the
  output directory by a transaction (\<^verbatim>\<open>hybrid_v4_output\<close>).

  \<^bold>\<open>How code is modelled.\<close> A struct is a record and an enum a datatype with the names of the source (suffixed where
  HOL has the name). A function is a definition of the same name; a block or loop of it with a definition of its own
  is named in the text before it. \<open>Result\<close> is the datatype of \<open>Prelude\<close>, and \<open>?\<close> is \<open>and_then\<close>. A \<open>char\<close> is its
  scalar value and a \<open>str\<close> a list of them (\<open>Text\<close>), with \<open>len_utf8\<close> where the code counts or slices bytes. \<open>u64\<close> and
  \<open>usize\<close> are natural numbers with the checked, saturating or wrapping operation of the code written out, words where
  bits matter. Where code can panic, the panic is a value of the model (\<open>None\<close>, \<open>Panic\<close>, \<open>Panicked\<close>), so that its
  absence is a theorem and its presence an error property. Ordered maps are association lists kept sorted. A critical
  section is one function on the state, and concurrency is an inductive relation whose steps are critical sections.

  \<^bold>\<open>Theories and what they show.\<close>
  \<^item> \<open>Prelude\<close>, \<open>Text\<close>, \<open>Json\<close>: results, machine integers, strings with UTF-8 encoding and (lossy) decoding, JSON values
    with their printer and maps with sorted keys. No code of the repository, only what it uses of the
    standard library and of \<open>serde_json::Value\<close>.
  \<^item> \<open>Document_Limits\<close> (\<^verbatim>\<open>document_limits.rs\<close>: \<open>OfficialDocumentLimitPolicy\<close>): an accepted policy has exactly the derived
    allowances and no computation of them overflows 64 bits.
  \<^item> \<open>Planning\<close> (\<^verbatim>\<open>mineru_api/planning.rs\<close>): stems are pairwise distinct under case folding and the search for them
    terminates; the planned tasks partition the documents in order and are packed within the page window.
  \<^item> \<open>Zip_Scan\<close> (\<^verbatim>\<open>mineru_api/zip_scan.rs\<close>): the scan never panics on any bytes; in an accepted archive every entry of the
    central directory has a matching local header, the entries with their compressed data lie in front of the directory
    and do not overlap, and their names cannot leave the extraction directory.
  \<^item> \<open>Official\<close>, \<open>Results\<close> (\<^verbatim>\<open>official/error.rs\<close>, \<^verbatim>\<open>official/result.rs\<close>): the error type with the masking of credentials, and
    the messages in which the masking keeps the credential; the bytes a result retains.
  \<^item> \<open>Csv\<close>, \<open>Csv_Restore\<close> (\<^verbatim>\<open>official/native/csv*.rs\<close>, the CSV branch of \<^verbatim>\<open>official/parser.rs\<close>): the parser returns a bounded
    rectangular grid and undoes the printer; the Markdown table has one line per row and its pipes are escaped; the
    document the analyser produces is restored to the same result.
  \<^item> \<open>Wire\<close>, \<open>Submission\<close>, \<open>Paging\<close> (\<^verbatim>\<open>official_api/wire.rs\<close>, \<^verbatim>\<open>server/submission.rs\<close>, \<^verbatim>\<open>server/jobs/tier.rs\<close>): requests and their
    validators; page ranges against their grammar; the cursor pagination of both lists.
  \<^item> \<open>Store\<close>, \<open>Uploads\<close>, \<open>Files\<close>, \<open>Sessions\<close> (\<^verbatim>\<open>server/store.rs\<close>, \<^verbatim>\<open>uploads.rs\<close>, \<^verbatim>\<open>files.rs\<close>): under every interleaving of the
    handlers the three counters equal the sizes of the live reservations and stay within their caps, a quiescent server
    holds only what its entries own, a stored file is what was uploaded, and paging lists every file once.
  \<^item> \<open>Jobs\<close>, \<open>Runner\<close> (\<^verbatim>\<open>server/jobs.rs\<close>, \<^verbatim>\<open>jobs/query.rs\<close>, \<^verbatim>\<open>jobs/output.rs\<close>, \<^verbatim>\<open>server/service.rs\<close>): the counters and the status of
    every record agree with its files in every reachable state, a terminal record never changes, the runner
    terminates, and a shutdown ends every job.
  \<^item> \<open>Artifacts\<close>, \<open>Tasks\<close>, \<open>Task_Results\<close> (\<^verbatim>\<open>server/artifacts.rs\<close>, \<^verbatim>\<open>server/tasks.rs\<close>, \<^verbatim>\<open>tasks/query.rs\<close>, \<^verbatim>\<open>tasks/result.rs\<close>): rendered
    output stays within its cap; queries round-trip; what an accepted body submits; every task of a reachable state is
    answered without a panic; combined archives are bounded.
  \<^item> \<open>Hybrid_Output\<close> (\<^verbatim>\<open>hybrid_v4_output.rs\<close>, \<^verbatim>\<open>transaction.rs\<close>, \<^verbatim>\<open>tree.rs\<close>): publication is atomic under any failures of the file
    system.
  \<^item> \<open>Worker_Io\<close>, \<open>Worker\<close> (\<^verbatim>\<open>error.rs\<close>, \<^verbatim>\<open>official_worker.rs\<close>, \<^verbatim>\<open>official_worker/\<close>): frames round-trip over any cutting of the
    stream, and a session that is kept has one answer for each of its requests.
  \<^item> \<open>Vlm_Text\<close>, \<open>Otsl\<close>, \<open>Vlm_Blocks\<close> (\<^verbatim>\<open>vlm_postprocess.rs\<close>, \<^verbatim>\<open>layout.rs\<close>, \<^verbatim>\<open>types.rs\<close>): of the braces of an equation
    exactly those without a partner are removed;
    the OTSL text of a table of merged rectangles becomes the HTML table with those spans and no token stream makes an
    index panic; the layout parser agrees with a reference; cleaning a page loses no equation.
  \<^item> \<open>Html_Entities\<close>, \<open>Html_Tables\<close>, \<open>Table_Merge\<close> (\<^verbatim>\<open>official_builders.rs\<close>, lines 500 to 720 and 2130 to 3270): unescaping undoes
    escaping; the tags of the scanner are ordered, and a document whose rows are unchanged is written back unchanged; the
    two computations of the occupied columns agree; merging two tables of the same width keeps all their rows but
    repeated headers. Which texts make \<open>html_unescape\<close> panic behind an ampersand is shown, and a table that makes
    \<open>serialize\<close> panic is exhibited.
  \<^item> \<open>Page_Text\<close>, \<open>Page_Assets\<close>, \<open>Page_Compose\<close>, \<open>Page_Places\<close> (\<^verbatim>\<open>official_builders.rs\<close>, lines 110 to 480, 720 to 1150, 1310 to
    1540, 1650 to 1700, 1980 to 2040 and 3450 to 3700): the text of blocks, the assets of a page and its preparation. The
    escapes of Markdown leave no markup active and lose no character; composing a page puts every block into one place,
    whatever the floating-point comparisons answer; the assets of a page stay within their cap, up to the
    placeholder of vector images.

  \<^bold>\<open>Interfaces.\<close> \<open>arc_pool\<close> (\<open>Store\<close>) is the contract of a counted pool of reference-counted reservations, interpreted on
  the input, artifact and metadata pools; \<open>bounded_sink\<close> (\<open>Artifacts\<close>) that of a byte sink with a cap, interpreted on the
  capped vector and the bounded cursor; \<open>cursor_list\<close> (\<open>Paging\<close>) that of a list endpoint with cursors, interpreted on
  the file list.

  \<^bold>\<open>Bounds and fuel.\<close> No operation has fuel: loops are structural recursion or have a measure. The only bounded retry is
  the code's own, 64 names in \<open>create_transaction\<close>. What the environment does is an argument: the list of faults of file
  system calls that \<open>Hybrid_Output\<close> consumes (calls beyond its end succeed), the chunks of a stream, the events of a worker.
  Steps that draw an identifier assume that the 64-bit counter has not wrapped.

  \<^bold>\<open>Parameters.\<close> Regular expressions (a function from pattern and text to captures), the operations of \<open>f32\<close>
  and \<open>f64\<close> (records), MD5, the JPEG encoder and the cropping of images,
  \<open>str::to_lowercase\<close>, SHA-256, base64, the JSON and ZIP readers and writers of the crates, the multipart reader, the
  entity table of \<open>html_escape\<close>, the clock and its text, the PDF loader, and the outcome of the parser. Hypotheses on
  them are named in the statements, and every property with one has a witness for a concrete function.

  \<^bold>\<open>Not modelled.\<close> The clients of remote services and models (\<^verbatim>\<open>vlm_api.rs\<close>, \<^verbatim>\<open>vlm_client.rs\<close>, \<^verbatim>\<open>vlm_http.rs\<close>,
  \<^verbatim>\<open>mineru_api/http.rs\<close>, \<^verbatim>\<open>official_api/client\<close>): their behaviour is that of \<open>reqwest\<close>, \<open>tokio\<close> and the remote server. Rendering
  and reading of PDF and office files (\<^verbatim>\<open>pdf.rs\<close>, \<^verbatim>\<open>native_pdf.rs\<close>, \<^verbatim>\<open>office_workers.rs\<close>, \<^verbatim>\<open>preview.rs\<close>, \<^verbatim>\<open>image_pipeline.rs\<close>) is work of
  \<open>pdfium\<close>, \<open>lopdf\<close> and \<open>image\<close>. The extraction of archives and OOXML (\<^verbatim>\<open>mineru_api/archive.rs\<close>, \<^verbatim>\<open>ooxml.rs\<close>) beyond the scan,
  the merge of paragraphs over pages and the renderers of whole documents of \<^verbatim>\<open>official_builders.rs\<close>, which lie outside the ranges above, the routes of \<^verbatim>\<open>official_route.rs\<close> and
  \<^verbatim>\<open>official_output.rs\<close>, the command line (\<^verbatim>\<open>command/\<close>, \<^verbatim>\<open>bin/\<close>), the model cache and local inference, process groups and
  signals, and the bindings are left out; the manifest gives a reason for each.
\<close>

end
